(* ===== verification/Pelorus_Prelude.thy ===== *)
theory Pelorus_Prelude
  imports Main "HOL-Library.Word" "HOL-Library.Monad_Syntax"
begin

text \<open>
  Shared vocabulary of the development: names for Rust's machine integers and byte
  slices, the checked and saturating arithmetic of the standard library, the
  little-endian integer encodings, and a model of \<^verbatim>\<open>BTreeMap\<close> as an association
  list that is kept strictly sorted by key.  Lengths and counters of type
  \<^verbatim>\<open>usize\<close> and \<^verbatim>\<open>u64\<close> are natural numbers, with the 64-bit bound written out
  wherever the code saturates or checks; fields that are read from or written to the
  wire keep their width as words.

  The collection \<open>tree_map\<close> gathers the laws of the sorted association list and
  \<open>codec\<close> the length and round-trip laws of the byte encodings.
\<close>

named_theorems tree_map
named_theorems codec

type_synonym u8 = "8 word"
type_synonym u16 = "16 word"
type_synonym u32 = "32 word"
type_synonym u64 = "64 word"
type_synonym bytes = "8 word list"

unbundle bit_operations_syntax

section \<open>Checked and saturating arithmetic on 64-bit quantities\<close>

definition U64_MAX :: nat where
  "U64_MAX = 2 ^ 64 - 1"

definition sat_add :: "nat \<Rightarrow> nat \<Rightarrow> nat" where
  "sat_add a b = min (a + b) U64_MAX"

definition sat_mul :: "nat \<Rightarrow> nat \<Rightarrow> nat" where
  "sat_mul a b = min (a * b) U64_MAX"

definition checked_add :: "nat \<Rightarrow> nat \<Rightarrow> nat option" where
  "checked_add a b = (if a + b \<le> U64_MAX then Some (a + b) else None)"

definition try_from_u16 :: "nat \<Rightarrow> u16 option" where
  "try_from_u16 n = (if n < 2 ^ 16 then Some (word_of_nat n) else None)"

definition try_from_u32 :: "nat \<Rightarrow> u32 option" where
  "try_from_u32 n = (if n < 2 ^ 32 then Some (word_of_nat n) else None)"

lemma sat_add_exact [simp]: "a + b \<le> U64_MAX \<Longrightarrow> sat_add a b = a + b"
  by (simp add: sat_add_def)

lemma sat_add_le_iff: "n < U64_MAX \<Longrightarrow> sat_add a b \<le> n \<longleftrightarrow> a + b \<le> n"
  by (auto simp: sat_add_def)

lemma try_from_u16_Some:
  "try_from_u16 n = Some w \<longleftrightarrow> n < 2 ^ 16 \<and> w = word_of_nat n"
  by (auto simp: try_from_u16_def)

lemma try_from_u32_Some:
  "try_from_u32 n = Some w \<longleftrightarrow> n < 2 ^ 32 \<and> w = word_of_nat n"
  by (auto simp: try_from_u32_def)

lemma unat_try_from_u16 [simp]: "try_from_u16 n = Some w \<Longrightarrow> unat w = n"
  by (auto simp: try_from_u16_Some unat_of_nat)

lemma unat_try_from_u32 [simp]: "try_from_u32 n = Some w \<Longrightarrow> unat w = n"
  by (auto simp: try_from_u32_Some unat_of_nat)

section \<open>Words\<close>

lemma word_xor_cancel_right [simp]: "a XOR c = b XOR c \<longleftrightarrow> a = (b :: 'a::len word)"
proof
  assume "a XOR c = b XOR c"
  then have "(a XOR c) XOR c = (b XOR c) XOR c" by (rule arg_cong)
  then show "a = b" by (simp add: xor.assoc)
qed simp

lemma word_xor_cancel_left [simp]: "c XOR a = c XOR b \<longleftrightarrow> a = (b :: 'a::len word)"
  using word_xor_cancel_right [of a c b] by (simp add: xor.commute)

lemma ucast_u8_u32_inj [simp]: "(ucast a :: u32) = ucast b \<longleftrightarrow> a = (b :: u8)"
proof
  assume "(ucast a :: u32) = ucast b"
  then have "(ucast (ucast a :: u32) :: u8) = ucast (ucast b :: u32)" by (rule arg_cong)
  moreover have "(ucast (ucast x :: u32) :: u8) = x" for x :: u8
    by (rule bit_word_eqI) (auto simp: bit_simps)
  ultimately show "a = b" by simp
qed simp

section \<open>Little-endian encodings\<close>

definition u16_to_le :: "u16 \<Rightarrow> bytes" where
  "u16_to_le w = [ucast w, ucast (drop_bit 8 w)]"

definition u32_to_le :: "u32 \<Rightarrow> bytes" where
  "u32_to_le w = [ucast w, ucast (drop_bit 8 w), ucast (drop_bit 16 w), ucast (drop_bit 24 w)]"

fun u16_from_le :: "bytes \<Rightarrow> u16 option" where
  "u16_from_le [a, b] = Some (ucast a OR push_bit 8 (ucast b))"
| "u16_from_le _ = None"

fun u32_from_le :: "bytes \<Rightarrow> u32 option" where
  "u32_from_le [a, b, c, d] =
     Some (ucast a OR push_bit 8 (ucast b) OR push_bit 16 (ucast c) OR push_bit 24 (ucast d))"
| "u32_from_le _ = None"

lemma length_u16_to_le [simp, codec]: "length (u16_to_le w) = 2"
  by (simp add: u16_to_le_def)

lemma length_u32_to_le [simp, codec]: "length (u32_to_le w) = 4"
  by (simp add: u32_to_le_def)

lemma u32_to_le_nonempty [simp, codec]: "u32_to_le w \<noteq> []"
  by (simp add: u32_to_le_def)

lemma u16_le_roundtrip [simp, codec]: "u16_from_le (u16_to_le w) = Some w"
proof -
  have "(ucast (ucast w :: u8) OR push_bit 8 (ucast (ucast (drop_bit 8 w) :: u8))) = w"
    by (rule bit_word_eqI) (auto simp: bit_simps not_less dest: bit_imp_le_length)
  then show ?thesis by (simp add: u16_to_le_def)
qed

lemma u32_le_roundtrip [simp, codec]: "u32_from_le (u32_to_le w) = Some w"
proof -
  have "(ucast (ucast w :: u8) OR push_bit 8 (ucast (ucast (drop_bit 8 w) :: u8))
     OR push_bit 16 (ucast (ucast (drop_bit 16 w) :: u8))
     OR push_bit 24 (ucast (ucast (drop_bit 24 w) :: u8))) = w" (is "?packed = w")
  proof (rule bit_word_eqI)
    fix n :: nat
    assume "n < LENGTH(32)"
    then show "bit ?packed n = bit w n"
      by (cases "n < 8"; cases "n < 16"; cases "n < 24") (auto simp: bit_simps)
  qed
  then show ?thesis by (simp add: u32_to_le_def)
qed

lemma u16_from_le_inverse [codec]: "u16_from_le xs = Some w \<Longrightarrow> u16_to_le w = xs"
proof (induction xs rule: u16_from_le.induct)
  case (1 a b)
  then have w: "w = ucast a OR push_bit 8 (ucast b)" by simp
  have "ucast w = a" unfolding w by (rule bit_word_eqI) (auto simp: bit_simps)
  moreover have "ucast (drop_bit 8 w) = b"
    unfolding w by (rule bit_word_eqI) (auto simp: bit_simps dest: bit_imp_le_length)
  ultimately show ?case by (simp add: u16_to_le_def)
qed simp_all

lemma u32_from_le_inverse [codec]: "u32_from_le xs = Some w \<Longrightarrow> u32_to_le w = xs"
proof (induction xs rule: u32_from_le.induct)
  case (1 a b c d)
  then have w: "w = ucast a OR push_bit 8 (ucast b) OR push_bit 16 (ucast c) OR push_bit 24 (ucast d)"
    by simp
  have "ucast w = a"
    unfolding w by (rule bit_word_eqI) (auto simp: bit_simps)
  moreover have "ucast (drop_bit 8 w) = b"
    unfolding w by (rule bit_word_eqI) (auto simp: bit_simps dest: bit_imp_le_length)
  moreover have "ucast (drop_bit 16 w) = c"
    unfolding w by (rule bit_word_eqI) (auto simp: bit_simps dest: bit_imp_le_length)
  moreover have "ucast (drop_bit 24 w) = d"
    unfolding w by (rule bit_word_eqI) (auto simp: bit_simps dest: bit_imp_le_length)
  ultimately show ?case by (simp add: u32_to_le_def)
qed simp_all

lemma u16_from_le_length: "u16_from_le xs = None \<longleftrightarrow> length xs \<noteq> 2"
  by (induction xs rule: u16_from_le.induct) auto

lemma u32_from_le_length: "u32_from_le xs = None \<longleftrightarrow> length xs \<noteq> 4"
  by (induction xs rule: u32_from_le.induct) auto

section \<open>\<open>BTreeMap\<close>: association lists sorted by key\<close>

text \<open>
  The code iterates over its maps in key order, so the map is modelled by the list of
  its entries in that order.  \<open>map_of\<close> is the lookup; \<open>bt_ok\<close> says the keys are
  strictly increasing.
\<close>

type_synonym ('k, 'v) btree = "('k \<times> 'v) list"

fun bt_insert :: "'k::linorder \<Rightarrow> 'v \<Rightarrow> ('k, 'v) btree \<Rightarrow> ('k, 'v) btree" where
  "bt_insert k v [] = [(k, v)]"
| "bt_insert k v ((k', v') # m) =
     (if k < k' then (k, v) # (k', v') # m
      else if k = k' then (k, v) # m
      else (k', v') # bt_insert k v m)"

fun bt_remove :: "'k \<Rightarrow> ('k, 'v) btree \<Rightarrow> ('k, 'v) btree" where
  "bt_remove k [] = []"
| "bt_remove k ((k', v') # m) = (if k = k' then m else (k', v') # bt_remove k m)"

definition bt_ok :: "('k::linorder, 'v) btree \<Rightarrow> bool" where
  "bt_ok m \<longleftrightarrow> sorted_wrt (<) (map fst m)"

lemma bt_ok_Nil [simp, tree_map]: "bt_ok []"
  by (simp add: bt_ok_def)

lemma bt_ok_Cons [simp, tree_map]:
  "bt_ok ((k, v) # m) \<longleftrightarrow> (\<forall>k' \<in> fst ` set m. k < k') \<and> bt_ok m"
  by (simp add: bt_ok_def)

lemma bt_ok_distinct: "bt_ok m \<Longrightarrow> distinct (map fst m)"
  by (simp add: bt_ok_def strict_sorted_iff)

lemma set_bt_insert: "set (bt_insert k v m) \<subseteq> insert (k, v) (set m)"
  by (induction k v m rule: bt_insert.induct) auto

lemma fst_set_bt_insert [simp, tree_map]:
  "fst ` set (bt_insert k v m) = insert k (fst ` set m)"
  by (induction k v m rule: bt_insert.induct) auto

lemma bt_insert_nonempty [simp, tree_map]: "bt_insert k v m \<noteq> []"
  by (induction k v m rule: bt_insert.induct) auto

lemma length_bt_remove_le: "length (bt_remove k m) \<le> length m"
  by (induction k m rule: bt_remove.induct) auto

lemma set_bt_remove: "set (bt_remove k m) \<subseteq> set m"
  by (induction k m rule: bt_remove.induct) auto

lemma bt_ok_insert [simp, intro, tree_map]: "bt_ok m \<Longrightarrow> bt_ok (bt_insert k v m)"
  by (induction k v m rule: bt_insert.induct) (auto simp: less_trans)

lemma bt_ok_remove [simp, intro, tree_map]: "bt_ok m \<Longrightarrow> bt_ok (bt_remove k m)"
proof (induction k m rule: bt_remove.induct)
  case (2 k k' v' m)
  then show ?case using set_bt_remove [of k m] by auto
qed simp

lemma map_of_bt_insert [simp, tree_map]: "map_of (bt_insert k v m) = (map_of m)(k \<mapsto> v)"
  by (induction k v m rule: bt_insert.induct) (auto simp: fun_upd_twist)

lemma map_of_bt_remove [simp, tree_map]:
  "bt_ok m \<Longrightarrow> map_of (bt_remove k m) = (map_of m)(k := None)"
proof (induction k m rule: bt_remove.induct)
  case (2 k k' v' m)
  then show ?case
    by (auto simp: fun_eq_iff map_of_eq_None_iff dest: order.strict_implies_not_eq)
qed simp

lemma bt_insert_last: "\<forall>k' \<in> fst ` set m. k' < k \<Longrightarrow> bt_insert k v m = m @ [(k, v)]"
  by (induction m) (auto dest: less_asym)

lemma bt_insert_last_present:
  "\<forall>k' \<in> fst ` set m. k' < k \<Longrightarrow> bt_insert k v (m @ [(k, v')]) = m @ [(k, v)]"
  by (induction m) (auto dest: less_asym)

lemma bt_remove_absent: "k \<notin> fst ` set m \<Longrightarrow> bt_remove k m = m"
  by (induction k m rule: bt_remove.induct) auto

lemma length_bt_insert [tree_map]:
  "bt_ok m \<Longrightarrow> length (bt_insert k v m) = (if map_of m k = None then Suc (length m) else length m)"
proof (induction k v m rule: bt_insert.induct)
  case (2 k v k' v' m)
  then show ?case by (auto simp: map_of_eq_None_iff dest: less_asym)
qed simp

text \<open>
  The weight of a map is the sum of its entries' weights; insertion replaces the old
  entry's weight by the new one and removal subtracts it.
\<close>

definition bt_weight :: "('k \<Rightarrow> 'v \<Rightarrow> nat) \<Rightarrow> ('k, 'v) btree \<Rightarrow> nat" where
  "bt_weight w m = (\<Sum>(k, v) \<leftarrow> m. w k v)"

definition old_weight :: "('k \<Rightarrow> 'v \<Rightarrow> nat) \<Rightarrow> ('k, 'v) btree \<Rightarrow> 'k \<Rightarrow> nat" where
  "old_weight w m k = (case map_of m k of None \<Rightarrow> 0 | Some v \<Rightarrow> w k v)"

lemma bt_weight_simps [simp, tree_map]:
  "bt_weight w [] = 0"
  "bt_weight w ((k, v) # m) = w k v + bt_weight w m"
  "bt_weight w (m @ m') = bt_weight w m + bt_weight w m'"
  by (simp_all add: bt_weight_def)

lemma old_weight_le: "old_weight w m k \<le> bt_weight w m"
  by (induction m) (auto simp: old_weight_def split: option.splits)

lemma bt_weight_insert [tree_map]:
  "bt_ok m \<Longrightarrow> bt_weight w (bt_insert k v m) = bt_weight w m - old_weight w m k + w k v"
proof (induction k v m rule: bt_insert.induct)
  case (2 k v k' v' m)
  consider "k < k'" | "k = k'" | "k' < k" by fastforce
  then show ?case
  proof cases
    case 1
    with "2.prems" have "map_of m k = None"
      by (auto simp: map_of_eq_None_iff dest: less_asym)
    with 1 show ?thesis by (auto simp: old_weight_def)
  next
    case 2
    then show ?thesis by (simp add: old_weight_def)
  next
    case 3
    with "2.prems" "2.IH"
    have "bt_weight w (bt_insert k v m) = bt_weight w m - old_weight w m k + w k v"
      by (simp add: not_less_iff_gr_or_eq)
    with 3 old_weight_le [of w m k] show ?thesis
      by (auto simp: old_weight_def split: option.splits)
  qed
qed (simp add: old_weight_def)

lemma bt_weight_remove [tree_map]:
  "bt_weight w (bt_remove k m) = bt_weight w m - old_weight w m k"
proof (induction k m rule: bt_remove.induct)
  case (2 k k' v' m)
  then show ?case using old_weight_le [of w m k] by (auto simp: old_weight_def)
qed (simp add: old_weight_def)

lemma bt_weight_filter_le: "bt_weight w (filter P m) \<le> bt_weight w m"
  by (induction m) auto

lemma strict_remdups_adj: "sorted xs \<Longrightarrow> sorted_wrt (<) (remdups_adj xs)" for xs :: "'a::linorder list"
  by (induction xs rule: remdups_adj.induct) (auto intro: order.strict_trans2 simp: less_le)

end
