(* ===== verification/Net_Partition.thy ===== *)
theory Net_Partition
  imports Pelorus_Prelude
begin

text \<open>
  The partition key of \<^verbatim>\<open>crates/px-net/src/partition.rs\<close> under which all stored
  state is filed: the registrable domain of the top-level page and the origin that is
  talked to.  Strings are their UTF-8 bytes.
\<close>

record origin =
  scheme :: bytes
  host :: bytes
  port :: u16

record partition_key =
  top_level_site :: bytes
  key_origin :: origin

definition same_top_level :: "partition_key \<Rightarrow> partition_key \<Rightarrow> bool" where
  "same_top_level a b \<longleftrightarrow> top_level_site a = top_level_site b"

definition is_ascii :: "bytes \<Rightarrow> bool" where
  "is_ascii xs \<longleftrightarrow> (\<forall>b \<in> set xs. b < 128)"

definition str_http :: bytes where "str_http = [0x68, 0x74, 0x74, 0x70]"
definition str_https :: bytes where "str_https = [0x68, 0x74, 0x74, 0x70, 0x73]"

end
