(* ===== verification/Net_Text.thy ===== *)
theory Net_Text
  imports Pelorus_Prelude
begin

text \<open>
  The string functions of Rust's standard library that the network crates call, on the
  UTF-8 bytes of the string.  \<^verbatim>\<open>trim\<close> strips the characters with the Unicode property
  \<open>White_Space\<close>, each given by its UTF-8 encoding; everything else the callers do is
  bytewise on ASCII delimiters, where characters and bytes agree.  The lemmas relate
  splitting and joining at a delimiter and say what trimming leaves.
\<close>

definition lit :: "string \<Rightarrow> bytes" where
  "lit s = map of_char s"

abbreviation DOT :: u8 where "DOT \<equiv> 0x2E"
abbreviation SLASH :: u8 where "SLASH \<equiv> 0x2F"
abbreviation COLON :: u8 where "COLON \<equiv> 0x3A"
abbreviation EQUALS :: u8 where "EQUALS \<equiv> 0x3D"
abbreviation SEMICOLON :: u8 where "SEMICOLON \<equiv> 0x3B"

section \<open>Case, prefixes and suffixes\<close>

definition lower_byte :: "u8 \<Rightarrow> u8" where
  "lower_byte b = (if 0x41 \<le> b \<and> b \<le> 0x5A then b + 0x20 else b)"

definition to_ascii_lowercase :: "bytes \<Rightarrow> bytes" where
  "to_ascii_lowercase s = map lower_byte s"

fun strip_prefix :: "bytes \<Rightarrow> bytes \<Rightarrow> bytes option" where
  "strip_prefix [] s = Some s"
| "strip_prefix (p # ps) [] = None"
| "strip_prefix (p # ps) (c # s) = (if p = c then strip_prefix ps s else None)"

definition strip_suffix :: "bytes \<Rightarrow> bytes \<Rightarrow> bytes option" where
  "strip_suffix p s = map_option rev (strip_prefix (rev p) (rev s))"

fun contains_str :: "bytes \<Rightarrow> bytes \<Rightarrow> bool" where
  "contains_str p [] \<longleftrightarrow> p = []"
| "contains_str p (c # s) \<longleftrightarrow> strip_prefix p (c # s) \<noteq> None \<or> contains_str p s"

definition begins_with :: "u8 \<Rightarrow> bytes \<Rightarrow> bool" where
  "begins_with b s = (case s of [] \<Rightarrow> False | c # _ \<Rightarrow> c = b)"

definition ends_with :: "u8 \<Rightarrow> bytes \<Rightarrow> bool" where
  "ends_with b s = begins_with b (rev s)"

section \<open>Trimming\<close>

definition WHITE_SPACE :: "bytes list" where
  "WHITE_SPACE =
     [[0x09], [0x0A], [0x0B], [0x0C], [0x0D], [0x20], [0xC2, 0x85], [0xC2, 0xA0], [0xE1, 0x9A, 0x80],
      [0xE2, 0x80, 0x80], [0xE2, 0x80, 0x81], [0xE2, 0x80, 0x82], [0xE2, 0x80, 0x83], [0xE2, 0x80, 0x84],
      [0xE2, 0x80, 0x85], [0xE2, 0x80, 0x86], [0xE2, 0x80, 0x87], [0xE2, 0x80, 0x88], [0xE2, 0x80, 0x89],
      [0xE2, 0x80, 0x8A], [0xE2, 0x80, 0xA8], [0xE2, 0x80, 0xA9], [0xE2, 0x80, 0xAF], [0xE2, 0x81, 0x9F],
      [0xE3, 0x80, 0x80]]"

fun first_strip :: "bytes list \<Rightarrow> bytes \<Rightarrow> bytes option" where
  "first_strip [] s = None"
| "first_strip (w # ws) s = (case strip_prefix w s of Some r \<Rightarrow> Some r | None \<Rightarrow> first_strip ws s)"

function trim_by :: "bytes list \<Rightarrow> bytes \<Rightarrow> bytes" where
  "trim_by ws s =
     (case first_strip ws s of
        None \<Rightarrow> s
      | Some r \<Rightarrow> if length r < length s then trim_by ws r else s)"
  by pat_completeness auto
termination by (relation "measure (\<lambda>(ws, s). length s)") auto

declare trim_by.simps [simp del]

definition trim_start :: "bytes \<Rightarrow> bytes" where
  "trim_start s = trim_by WHITE_SPACE s"

definition trim_end :: "bytes \<Rightarrow> bytes" where
  "trim_end s = rev (trim_by (map rev WHITE_SPACE) (rev s))"

definition trim :: "bytes \<Rightarrow> bytes" where
  "trim s = trim_end (trim_start s)"

definition trim_start_matches :: "u8 \<Rightarrow> bytes \<Rightarrow> bytes" where
  "trim_start_matches b s = dropWhile (\<lambda>c. c = b) s"

definition trim_end_matches :: "u8 \<Rightarrow> bytes \<Rightarrow> bytes" where
  "trim_end_matches b s = rev (dropWhile (\<lambda>c. c = b) (rev s))"

section \<open>Splitting and joining\<close>

fun str_split :: "u8 \<Rightarrow> bytes \<Rightarrow> bytes list" where
  "str_split b [] = [[]]"
| "str_split b (c # s) =
     (case str_split b s of
        [] \<Rightarrow> []
      | p # ps \<Rightarrow> if c = b then [] # p # ps else (c # p) # ps)"

fun str_join :: "u8 \<Rightarrow> bytes list \<Rightarrow> bytes" where
  "str_join b [] = []"
| "str_join b [p] = p"
| "str_join b (p # q # ps) = p @ b # str_join b (q # ps)"

fun split_once :: "u8 \<Rightarrow> bytes \<Rightarrow> (bytes \<times> bytes) option" where
  "split_once b [] = None"
| "split_once b (c # s) =
     (if c = b then Some ([], s) else map_option (\<lambda>(l, r). (c # l, r)) (split_once b s))"

definition find_byte :: "u8 \<Rightarrow> bytes \<Rightarrow> nat option" where
  "find_byte b s = (let n = length (takeWhile (\<lambda>c. c \<noteq> b) s) in if n < length s then Some n else None)"

definition rfind_byte :: "u8 \<Rightarrow> bytes \<Rightarrow> nat option" where
  "rfind_byte b s = map_option (\<lambda>n. length s - Suc n) (find_byte b (rev s))"

text \<open>\<^verbatim>\<open>str::lines\<close>: the newline ends a line, a carriage return before it is dropped.\<close>

definition str_lines :: "bytes \<Rightarrow> bytes list" where
  "str_lines s =
     (let ps = str_split 0x0A s
      in map (\<lambda>p. case strip_suffix [0x0D] p of Some q \<Rightarrow> q | None \<Rightarrow> p) (butlast ps)
         @ (if last ps = [] then [] else [last ps]))"

section \<open>Numbers\<close>

definition digit :: "u8 \<Rightarrow> nat option" where
  "digit b = (if 0x30 \<le> b \<and> b \<le> 0x39 then Some (unat b - 48) else None)"

fun parse_digits :: "nat \<Rightarrow> bytes \<Rightarrow> nat option" where
  "parse_digits acc [] = Some acc"
| "parse_digits acc (c # s) = (case digit c of None \<Rightarrow> None | Some d \<Rightarrow> parse_digits (10 * acc + d) s)"

text \<open>\<^verbatim>\<open>from_str\<close> for the integer types: one sign may lead, at least one digit follows.\<close>

definition parse_u16 :: "bytes \<Rightarrow> u16 option" where
  "parse_u16 s =
     (let ds = (if begins_with 0x2B s then tl s else s)
      in if ds = [] then None else do { n \<leftarrow> parse_digits 0 ds; try_from_u16 n })"

definition parse_i64 :: "bytes \<Rightarrow> int option" where
  "parse_i64 s =
     (let neg = begins_with 0x2D s;
          ds = (if neg \<or> begins_with 0x2B s then tl s else s)
      in if ds = [] then None
         else do {
           n \<leftarrow> parse_digits 0 ds;
           let v = (if neg then - int n else int n);
           if - (2 ^ 63) \<le> v \<and> v < 2 ^ 63 then Some v else None })"

section \<open>Laws\<close>

lemma lower_byte_delim [simp]:
  "lower_byte b = DOT \<longleftrightarrow> b = DOT" "lower_byte b = 0x5B \<longleftrightarrow> b = 0x5B" "lower_byte (lower_byte b) = lower_byte b"
proof -
  have "b \<le> 0x5A \<Longrightarrow> 0x41 \<le> b \<Longrightarrow> unat (b + 0x20) = unat b + 0x20"
    by (simp add: unat_word_ariths word_le_nat_alt)
  then have "0x41 \<le> b \<Longrightarrow> b \<le> 0x5A \<Longrightarrow> 0x61 \<le> b + 0x20"
    by (simp add: word_le_nat_alt)
  then show "lower_byte b = DOT \<longleftrightarrow> b = DOT" "lower_byte b = 0x5B \<longleftrightarrow> b = 0x5B"
      "lower_byte (lower_byte b) = lower_byte b"
    by (auto simp: lower_byte_def word_le_nat_alt)
qed

lemma to_ascii_lowercase_simps [simp]:
  "to_ascii_lowercase [] = []" "to_ascii_lowercase (c # s) = lower_byte c # to_ascii_lowercase s"
  "to_ascii_lowercase (s @ t) = to_ascii_lowercase s @ to_ascii_lowercase t"
  "to_ascii_lowercase (rev s) = rev (to_ascii_lowercase s)"
  "to_ascii_lowercase (to_ascii_lowercase s) = to_ascii_lowercase s"
  "length (to_ascii_lowercase s) = length s" "to_ascii_lowercase s = [] \<longleftrightarrow> s = []"
  by (simp_all add: to_ascii_lowercase_def rev_map)

lemma strip_prefix_Some: "strip_prefix p s = Some r \<longleftrightarrow> s = p @ r"
  by (induction p s rule: strip_prefix.induct) auto

lemma strip_prefix_append [simp]: "strip_prefix p (p @ r) = Some r"
  by (simp add: strip_prefix_Some)

lemma strip_prefix_None: "strip_prefix p s = None \<longleftrightarrow> (\<forall>r. s \<noteq> p @ r)"
  using strip_prefix_Some [of p s] by (cases "strip_prefix p s") auto

lemma strip_suffix_Some: "strip_suffix p s = Some r \<longleftrightarrow> s = r @ p"
proof -
  have "strip_suffix p s = Some r \<longleftrightarrow> rev s = rev p @ rev r"
    by (force simp: strip_suffix_def strip_prefix_Some)
  then show ?thesis by (metis rev_append rev_rev_ident)
qed

lemma contains_str_iff: "contains_str p s \<longleftrightarrow> (\<exists>u v. s = u @ p @ v)"
proof (induction s)
  case (Cons c s)
  have "(\<exists>u v. c # s = u @ p @ v) \<longleftrightarrow> (\<exists>v. c # s = p @ v) \<or> (\<exists>u v. s = u @ p @ v)"
    by (metis Cons_eq_append_conv append_Nil append_Cons)
  then show ?case using Cons strip_prefix_None [of p "c # s"] by auto
qed auto

lemma begins_with_simps [simp]: "\<not> begins_with b []" "begins_with b (c # s) \<longleftrightarrow> c = b"
  by (simp_all add: begins_with_def)

lemma ends_with_simps [simp]: "\<not> ends_with b []" "ends_with b (s @ [c]) \<longleftrightarrow> c = b"
  by (simp_all add: ends_with_def)

text \<open>Trimming.\<close>

definition trimmed :: "bytes \<Rightarrow> bool" where
  "trimmed s \<longleftrightarrow> first_strip WHITE_SPACE s = None \<and> first_strip (map rev WHITE_SPACE) (rev s) = None"

lemma first_strip_None: "first_strip ws s = None \<longleftrightarrow> (\<forall>w \<in> set ws. \<forall>r. s \<noteq> w @ r)"
  by (induction ws) (auto split: option.splits simp: strip_prefix_None strip_prefix_Some)

lemma first_strip_Some: "first_strip ws s = Some r \<Longrightarrow> \<exists>w \<in> set ws. s = w @ r"
  by (induction ws) (auto split: option.splits simp: strip_prefix_Some)

lemma trim_by_drops:
  assumes "[] \<notin> set ws"
  shows "first_strip ws (trim_by ws s) = None \<and> (\<exists>l. s = l @ trim_by ws s)"
proof (induction "length s" arbitrary: s rule: less_induct)
  case less
  show ?case
  proof (cases "first_strip ws s")
    case None
    then show ?thesis by (simp add: trim_by.simps)
  next
    case (Some r)
    then obtain w where w: "w \<in> set ws" "s = w @ r" using first_strip_Some by blast
    then have len: "length r < length s" using assms by (cases w) auto
    from less [OF len] obtain l where "first_strip ws (trim_by ws r) = None" "r = l @ trim_by ws r" by auto
    moreover have "trim_by ws s = trim_by ws r" using Some len by (simp add: trim_by.simps [of ws s])
    ultimately show ?thesis using w by (metis append.assoc)
  qed
qed

lemma trim_by_id: "first_strip ws s = None \<Longrightarrow> trim_by ws s = s"
  by (simp add: trim_by.simps)

lemma WHITE_SPACE_nonempty [simp]: "[] \<notin> set WHITE_SPACE" "[] \<notin> rev ` set WHITE_SPACE"
  by (auto simp: WHITE_SPACE_def)

lemma trim_part: "\<exists>l r. s = l @ trim s @ r"
proof -
  obtain l where l: "s = l @ trim_start s"
    using trim_by_drops [of WHITE_SPACE s] by (auto simp: trim_start_def)
  obtain r where "rev (trim_start s) = r @ trim_by (map rev WHITE_SPACE) (rev (trim_start s))"
    using trim_by_drops [of "map rev WHITE_SPACE" "rev (trim_start s)"] by auto
  then have "trim_start s = trim s @ rev r"
    by (metis rev_append rev_rev_ident trim_def trim_end_def)
  with l show ?thesis by metis
qed

lemma trimmed_trim: "trimmed (trim s)"
proof -
  obtain r where r: "rev (trim_start s) = r @ trim_by (map rev WHITE_SPACE) (rev (trim_start s))"
      "first_strip (map rev WHITE_SPACE) (trim_by (map rev WHITE_SPACE) (rev (trim_start s))) = None"
    using trim_by_drops [of "map rev WHITE_SPACE" "rev (trim_start s)"] by auto
  then have e: "trim_start s = trim s @ rev r"
    by (metis rev_append rev_rev_ident trim_def trim_end_def)
  have "first_strip WHITE_SPACE (trim_start s) = None"
    using trim_by_drops [of WHITE_SPACE s] by (simp add: trim_start_def)
  then have "first_strip WHITE_SPACE (trim s) = None"
    unfolding first_strip_None e by (metis append.assoc)
  then show ?thesis using r(2) by (simp add: trimmed_def trim_def trim_end_def)
qed

lemma trim_trimmed: "trimmed s \<Longrightarrow> trim s = s"
  by (simp add: trimmed_def trim_def trim_start_def trim_end_def trim_by_id)

lemma trimmed_sub:
  "trimmed (u @ s) \<Longrightarrow> s \<noteq> [] \<Longrightarrow> first_strip (map rev WHITE_SPACE) (rev s) = None"
  by (auto simp: trimmed_def first_strip_None)

lemma trim_end_matches_part: "\<exists>n. s = trim_end_matches b s @ replicate n b"
proof -
  have "takeWhile (\<lambda>c. c = b) (rev s) = replicate (length (takeWhile (\<lambda>c. c = b) (rev s))) b"
    by (metis (mono_tags, lifting) replicate_length_same set_takeWhileD)
  moreover have "s = rev (dropWhile (\<lambda>c. c = b) (rev s)) @ rev (takeWhile (\<lambda>c. c = b) (rev s))"
    by (metis rev_append rev_rev_ident takeWhile_dropWhile_id)
  ultimately show ?thesis unfolding trim_end_matches_def by (metis rev_replicate)
qed

lemma trim_end_matches_end: "\<not> ends_with b (trim_end_matches b s)"
proof (cases "dropWhile (\<lambda>c. c = b) (rev s)")
  case (Cons c t)
  then have "c \<noteq> b" using hd_dropWhile [of "\<lambda>c. c = b" "rev s"] by simp
  then show ?thesis using Cons by (simp add: trim_end_matches_def ends_with_def)
next
  case Nil
  then have "trim_end_matches b s = []" by (simp only: trim_end_matches_def rev.simps)
  then show ?thesis by simp
qed

lemma trim_end_matches_id: "\<not> ends_with b s \<Longrightarrow> trim_end_matches b s = s"
  by (cases s rule: rev_cases) (auto simp: trim_end_matches_def)

lemma dropWhile_lower:
  "dropWhile (\<lambda>c. c = DOT) (to_ascii_lowercase s) = to_ascii_lowercase (dropWhile (\<lambda>c. c = DOT) s)"
  by (induction s) auto

lemma trim_end_matches_lower:
  "trim_end_matches DOT (to_ascii_lowercase s) = to_ascii_lowercase (trim_end_matches DOT s)"
  by (simp add: trim_end_matches_def dropWhile_lower flip: to_ascii_lowercase_simps(4))

text \<open>Splitting and joining.\<close>

lemma str_split_nonempty [simp]: "str_split b s \<noteq> []"
  by (induction s) (auto split: list.split)

lemma str_split_Cons [simp]:
  "str_split b (c # s) = (if c = b then [] # str_split b s else (c # hd (str_split b s)) # tl (str_split b s))"
  by (cases "str_split b s") auto

declare str_split.simps(2) [simp del]

lemma str_join_Cons: "ps \<noteq> [] \<Longrightarrow> str_join b (p # ps) = p @ b # str_join b ps"
  by (cases ps) auto

lemma str_join_split [simp]: "str_join b (str_split b s) = s"
proof (induction s)
  case (Cons c s)
  have "str_join b ((c # hd (str_split b s)) # tl (str_split b s)) = c # str_join b (str_split b s)"
    by (cases "tl (str_split b s)"; cases "str_split b s") auto
  then show ?case using Cons by (simp add: str_join_Cons)
qed simp

lemma str_split_pieces: "p \<in> set (str_split b s) \<Longrightarrow> b \<notin> set p"
proof (induction s arbitrary: p)
  case (Cons c s)
  have "hd (str_split b s) \<in> set (str_split b s)" "set (tl (str_split b s)) \<subseteq> set (str_split b s)"
    by (simp, cases "str_split b s", auto)
  then show ?case using Cons by (auto split: if_splits)
qed simp

lemma str_split_plain: "b \<notin> set s \<Longrightarrow> str_split b s = [s]"
  by (induction s) auto

lemma str_split_append: "str_split b (u @ b # v) = str_split b u @ str_split b v"
  by (induction u) (auto simp: str_split_nonempty)

lemma str_split_join:
  "ps \<noteq> [] \<Longrightarrow> \<forall>p \<in> set ps. b \<notin> set p \<Longrightarrow> str_split b (str_join b ps) = ps"
  by (induction ps rule: induct_list012) (auto simp: str_split_plain str_split_append)

lemma str_join_append: "ps \<noteq> [] \<Longrightarrow> qs \<noteq> [] \<Longrightarrow> str_join b (ps @ qs) = str_join b ps @ b # str_join b qs"
proof (induction ps)
  case (Cons p ps)
  then show ?case by (cases "ps = []") (simp_all add: str_join_Cons)
qed simp

lemma split_once_Some: "split_once b s = Some (l, r) \<longleftrightarrow> s = l @ b # r \<and> b \<notin> set l"
proof (induction s arbitrary: l)
  case (Cons c s)
  show ?case by (cases l) (auto simp: Cons)
qed simp

lemma split_once_None: "split_once b s = None \<longleftrightarrow> b \<notin> set s"
  by (induction s) auto

end
