(* ===== verification/Net_Utf8.thy ===== *)
theory Net_Utf8
  imports Net_Partition Net_Text
begin

text \<open>
  Which byte sequences are strings: \<^verbatim>\<open>String::from_utf8\<close> accepts exactly the well-formed
  UTF-8 sequences of the Unicode standard.  The lemmas show that what the crates do with
  strings (cutting at an ASCII byte, trimming white space, lowering ASCII letters) yields
  strings again.
\<close>

definition utf8_cont :: "u8 \<Rightarrow> bool" where
  "utf8_cont b \<longleftrightarrow> 0x80 \<le> b \<and> b \<le> 0xBF"

text \<open>The rest of the string after its first character, if that is well-formed.\<close>

definition utf8_first :: "bytes \<Rightarrow> bytes option" where
  "utf8_first s =
     (case s of [] \<Rightarrow> None | a # s0 \<Rightarrow>
        if a < 0x80 then Some s0
        else case s0 of [] \<Rightarrow> None | b # s1 \<Rightarrow>
          if 0xC2 \<le> a \<and> a \<le> 0xDF then (if utf8_cont b then Some s1 else None)
          else case s1 of [] \<Rightarrow> None | c # s2 \<Rightarrow>
            if 0xE0 \<le> a \<and> a \<le> 0xEF then
              (if utf8_cont b \<and> utf8_cont c \<and> (a = 0xE0 \<longrightarrow> 0xA0 \<le> b) \<and> (a = 0xED \<longrightarrow> b \<le> 0x9F)
               then Some s2 else None)
            else case s2 of [] \<Rightarrow> None | d # s3 \<Rightarrow>
              if 0xF0 \<le> a \<and> a \<le> 0xF4 \<and> utf8_cont b \<and> utf8_cont c \<and> utf8_cont d
                 \<and> (a = 0xF0 \<longrightarrow> 0x90 \<le> b) \<and> (a = 0xF4 \<longrightarrow> b \<le> 0x8F)
              then Some s3 else None)"

lemma utf8_first_split:
  assumes "utf8_first s = Some r"
  shows "\<exists>a cs. s = a # cs @ r \<and> list_all utf8_cont cs \<and> (\<forall>r'. utf8_first (a # cs @ r') = Some r')"
proof -
  consider a where "s = a # r" "a < 0x80"
    | a b where "s = a # b # r" "\<not> a < 0x80" "0xC2 \<le> a \<and> a \<le> 0xDF" "utf8_cont b"
    | a b c where "s = a # b # c # r" "\<not> a < 0x80" "\<not> (0xC2 \<le> a \<and> a \<le> 0xDF)" "0xE0 \<le> a \<and> a \<le> 0xEF"
        "utf8_cont b \<and> utf8_cont c \<and> (a = 0xE0 \<longrightarrow> 0xA0 \<le> b) \<and> (a = 0xED \<longrightarrow> b \<le> 0x9F)"
    | a b c d where "s = a # b # c # d # r" "\<not> a < 0x80" "\<not> (0xC2 \<le> a \<and> a \<le> 0xDF)" "\<not> (0xE0 \<le> a \<and> a \<le> 0xEF)"
        "0xF0 \<le> a \<and> a \<le> 0xF4 \<and> utf8_cont b \<and> utf8_cont c \<and> utf8_cont d
           \<and> (a = 0xF0 \<longrightarrow> 0x90 \<le> b) \<and> (a = 0xF4 \<longrightarrow> b \<le> 0x8F)"
    using assms unfolding utf8_first_def by (clarsimp split: list.splits if_split_asm)
  then show ?thesis
  proof cases
    case (1 a)
    then show ?thesis by (intro exI [of _ a] exI [of _ "[]"]) (simp add: utf8_first_def)
  next
    case (2 a b)
    then show ?thesis by (intro exI [of _ a] exI [of _ "[b]"]) (simp add: utf8_first_def)
  next
    case (3 a b c)
    then show ?thesis
      by (intro exI [of _ a] exI [of _ "[b, c]"], simp only: utf8_first_def list.simps if_True if_False append.simps list.pred_inject simp_thms, auto)
  next
    case (4 a b c d)
    then show ?thesis
      by (intro exI [of _ a] exI [of _ "[b, c, d]"], simp only: utf8_first_def list.simps if_True if_False append.simps list.pred_inject simp_thms, auto)
  qed
qed

lemma utf8_first_shorter: "utf8_first s = Some r \<Longrightarrow> length r < length s"
  using utf8_first_split by fastforce

function utf8_valid :: "bytes \<Rightarrow> bool" where
  "utf8_valid s \<longleftrightarrow>
     s = [] \<or> (case utf8_first s of None \<Rightarrow> False | Some r \<Rightarrow> utf8_valid r)"
  by pat_completeness auto
termination by (relation "measure length") (auto simp: utf8_first_shorter)

declare utf8_valid.simps [simp del]

lemma utf8_valid_Nil [simp]: "utf8_valid []"
  by (simp add: utf8_valid.simps)

lemma utf8_valid_step: "utf8_first s = Some r \<Longrightarrow> utf8_valid s \<longleftrightarrow> utf8_valid r"
  by (subst utf8_valid.simps) (auto simp: utf8_first_def)

lemma utf8_ascii_Cons: "a < 0x80 \<Longrightarrow> utf8_valid (a # s) \<longleftrightarrow> utf8_valid s"
  by (rule utf8_valid_step) (simp add: utf8_first_def)

lemma utf8_ascii: "is_ascii s \<Longrightarrow> utf8_valid s"
  by (induction s) (simp_all add: is_ascii_def utf8_ascii_Cons)

text \<open>A byte that cannot continue a character starts one: a sequence may be cut before it.\<close>

lemma utf8_cut:
  assumes "\<not> utf8_cont b" "utf8_valid (u @ b # v)"
  shows "utf8_valid u \<and> utf8_valid (b # v)"
  using assms(2)
proof (induction "length u" arbitrary: u rule: less_induct)
  case less
  show ?case
  proof (cases "u = []")
    case False
    with less.prems obtain r where "utf8_first (u @ b # v) = Some r" "utf8_valid r"
      by (subst (asm) utf8_valid.simps) (auto split: option.splits)
    moreover from this obtain a cs where s: "u @ b # v = a # cs @ r" "list_all utf8_cont cs"
        "utf8_first (a # cs @ r') = Some r'" for r'
      using utf8_first_split by blast
    moreover from s(1) False obtain u1 where u1: "u = a # u1" "u1 @ b # v = cs @ r" by (cases u) auto
    moreover obtain u2 where "u1 = cs @ u2" "r = u2 @ b # v"
      using u1(2) s(2) assms(1) by (auto simp: append_eq_append_conv2 Cons_eq_append_conv)
    ultimately have "utf8_first u = Some u2" "utf8_valid (u2 @ b # v)" "length u2 < length u" by auto
    then show ?thesis using less.hyps [of u2] utf8_valid_step by blast
  qed (use less.prems in simp)
qed

lemma utf8_not_cont_ascii: "b < 0x80 \<Longrightarrow> \<not> utf8_cont b"
  by (simp add: utf8_cont_def not_le)

lemma utf8_split_ascii: "b < 0x80 \<Longrightarrow> utf8_valid (u @ b # v) \<Longrightarrow> utf8_valid u \<and> utf8_valid v"
  using utf8_cut [of b u v] by (simp add: utf8_not_cont_ascii utf8_ascii_Cons)

lemma utf8_str_split: "b < 0x80 \<Longrightarrow> utf8_valid s \<Longrightarrow> p \<in> set (str_split b s) \<Longrightarrow> utf8_valid p"
proof (induction "length s" arbitrary: s rule: less_induct)
  case less
  show ?case
  proof (cases "b \<in> set s")
    case True
    then obtain u v where s: "s = u @ b # v" "b \<notin> set u" by (meson split_list_first)
    with less.prems utf8_split_ascii have "utf8_valid u" "utf8_valid v" by blast+
    moreover have "p = u \<or> p \<in> set (str_split b v)" using less.prems(3) s by (simp add: str_split_append str_split_plain)
    ultimately show ?thesis using less.hyps [of v] less.prems(1) s(1) by auto
  next
    case False
    with less.prems show ?thesis by (simp add: str_split_plain)
  qed
qed

lemma utf8_split_once:
  "b < 0x80 \<Longrightarrow> utf8_valid s \<Longrightarrow> split_once b s = Some (u, v) \<Longrightarrow> utf8_valid u \<and> utf8_valid v"
  by (auto simp: split_once_Some dest: utf8_split_ascii)

section \<open>Trimming\<close>

lemma WHITE_SPACE_first: "list_all (\<lambda>w. utf8_first w = Some []) WHITE_SPACE"
  by (simp add: WHITE_SPACE_def utf8_first_def utf8_cont_def)

lemma utf8_drop_white: "w \<in> set WHITE_SPACE \<Longrightarrow> utf8_valid (w @ r) \<Longrightarrow> utf8_valid r"
proof -
  assume "w \<in> set WHITE_SPACE" and val: "utf8_valid (w @ r)"
  then have "utf8_first w = Some []" using WHITE_SPACE_first by (simp add: list_all_iff)
  from utf8_first_split [OF this] have "utf8_first (w @ r) = Some r" by auto
  with val show "utf8_valid r" by (simp add: utf8_valid_step)
qed

lemma WHITE_SPACE_starts: "list_all (\<lambda>w. w \<noteq> [] \<and> \<not> utf8_cont (hd w)) WHITE_SPACE"
  by (simp add: WHITE_SPACE_def utf8_cont_def)

lemma utf8_drop_white_end: "w \<in> set WHITE_SPACE \<Longrightarrow> utf8_valid (r @ w) \<Longrightarrow> utf8_valid r"
  using WHITE_SPACE_starts utf8_cut [of "hd w" r "tl w"] by (auto simp: list_all_iff)

lemma trim_by_keeps:
  assumes "\<And>w r. w \<in> set ws \<Longrightarrow> P (w @ r) \<Longrightarrow> P r" "P s"
  shows "P (trim_by ws s)"
  using assms(2)
proof (induction "length s" arbitrary: s rule: less_induct)
  case less
  show ?case
  proof (cases "first_strip ws s")
    case (Some r)
    then obtain w where "w \<in> set ws" "s = w @ r" using first_strip_Some by blast
    then have "P r" using assms(1) less.prems by blast
    then show ?thesis using Some less by (simp add: trim_by.simps [of ws s])
  qed (use less.prems in \<open>simp add: trim_by_id\<close>)
qed

lemma utf8_trim:
  assumes "utf8_valid s"
  shows "utf8_valid (trim s)"
proof -
  have "utf8_valid (trim_start s)" unfolding trim_start_def
    by (rule trim_by_keeps [of WHITE_SPACE utf8_valid, OF utf8_drop_white]) (use assms in auto)
  then have "utf8_valid (rev (trim_by (map rev WHITE_SPACE) (rev (trim_start s))))"
    by (intro trim_by_keeps [of "map rev WHITE_SPACE" "\<lambda>x. utf8_valid (rev x)"])
       (auto dest: utf8_drop_white_end)
  then show ?thesis by (simp add: trim_def trim_end_def)
qed

section \<open>Case\<close>

lemma lower_byte_utf8 [simp]:
  "lower_byte b < 0x80 \<longleftrightarrow> b < 0x80" "\<not> b < 0x80 \<Longrightarrow> lower_byte b = b" "utf8_cont (lower_byte b) \<longleftrightarrow> utf8_cont b"
  by (auto simp: lower_byte_def utf8_cont_def word_le_nat_alt word_less_nat_alt unat_word_ariths)

lemma utf8_lower_first: "utf8_first s = Some r \<Longrightarrow> utf8_first (to_ascii_lowercase s) = Some (to_ascii_lowercase r)"
proof -
  assume first: "utf8_first s = Some r"
  then obtain a cs where s: "s = a # cs @ r" "list_all utf8_cont cs" "utf8_first (a # cs @ r') = Some r'" for r'
    using utf8_first_split by blast
  have "lower_byte b = b" if "utf8_cont b" for b
    using that by (simp add: utf8_cont_def not_less)
  then have cs: "to_ascii_lowercase cs = cs" using s(2) by (induction cs) auto
  show ?thesis
  proof (cases "a < 0x80")
    case True
    then have "cs @ r = r" using first s(1) by (simp add: utf8_first_def)
    then show ?thesis using True s(1) by (simp add: utf8_first_def)
  next
    case False
    then show ?thesis using s(3) [of "to_ascii_lowercase r"] cs by (simp add: s(1))
  qed
qed

lemma utf8_lower:
  assumes "utf8_valid s"
  shows "utf8_valid (to_ascii_lowercase s)"
  using assms
proof (induction s rule: utf8_valid.induct)
  case (1 s)
  show ?case
  proof (cases "s = []")
    case False
    with 1(2) obtain r where "utf8_first s = Some r" "utf8_valid r"
      by (subst (asm) utf8_valid.simps) (auto split: option.splits)
    then show ?thesis using 1(1) False utf8_lower_first utf8_valid_step by blast
  qed simp
qed

section \<open>Lossy decoding\<close>

text \<open>
  \<^verbatim>\<open>String::from_utf8_lossy\<close>: a sequence that is not well-formed is replaced by U+FFFD; what is
  replaced is the longest prefix of a character, or one byte.
\<close>

definition ill_formed_len :: "bytes \<Rightarrow> nat" where
  "ill_formed_len s =
     (let a = s ! 0;
          cont = (\<lambda>i. i < length s \<and> utf8_cont (s ! i));
          second = (1 < length s \<and> utf8_cont (s ! 1)
            \<and> (a = 0xE0 \<longrightarrow> 0xA0 \<le> s ! 1) \<and> (a = 0xED \<longrightarrow> s ! 1 \<le> 0x9F)
            \<and> (a = 0xF0 \<longrightarrow> 0x90 \<le> s ! 1) \<and> (a = 0xF4 \<longrightarrow> s ! 1 \<le> 0x8F))
      in if 0xE0 \<le> a \<and> a \<le> 0xEF \<and> second then 2
         else if 0xF0 \<le> a \<and> a \<le> 0xF4 \<and> second then (if cont 2 then 3 else 2)
         else 1)"

function utf8_lossy :: "bytes \<Rightarrow> bytes" where
  "utf8_lossy s =
     (if s = [] then []
      else case utf8_first s of
             Some r \<Rightarrow> if length r < length s then take (length s - length r) s @ utf8_lossy r else []
           | None \<Rightarrow> [0xEF, 0xBF, 0xBD] @ utf8_lossy (drop (ill_formed_len s) s))"
  by pat_completeness auto
termination
  by (relation "measure length") (auto simp: ill_formed_len_def Let_def)

declare utf8_lossy.simps [simp del]

lemma utf8_lossy_ascii: "is_ascii s \<Longrightarrow> utf8_lossy s = s"
proof (induction s)
  case (Cons c s)
  have "utf8_first (c # s) = Some s" using Cons.prems by (simp add: utf8_first_def is_ascii_def)
  then show ?case using Cons by (simp add: utf8_lossy.simps [of "c # s"] is_ascii_def)
qed (simp add: utf8_lossy.simps)

end
