(* ===== verification/Block_Glob.thy ===== *)
theory Block_Glob
  imports Net_Utf8
begin

text \<open>
  The pattern language of the content blocker, \<^verbatim>\<open>crates/px-block/src/glob.rs\<close>: compiling the
  text of a filter, and the matcher that scans the segments between wildcards from left to
  right without backtracking.  The reference meaning of a pattern tries every way to place
  the wildcards; the lemmas show that the scan decides exactly that, and that the
  normalisation of compiled patterns keeps it.
\<close>

section \<open>Patterns\<close>

definition MAX_PATTERN_BYTES :: nat where "MAX_PATTERN_BYTES = 512"
definition MIN_TOKEN_BYTES :: nat where "MIN_TOKEN_BYTES = 2"
definition MAX_TOKEN_BYTES :: nat where "MAX_TOKEN_BYTES = 64"

datatype elem = Lit u8 | Sep | Star

datatype start_anchor = Anywhere | AtStart | AtHost

datatype pattern_error = PatternIsTooLong | InvalidCharacter

record pattern =
  p_elems :: "elem list"
  p_start :: start_anchor
  p_end :: bool

definition is_separator :: "u8 \<Rightarrow> bool" where
  "is_separator b \<longleftrightarrow> b \<le> 0x24 \<or> 0x26 \<le> b \<and> b \<le> 0x2C \<or> b = 0x2F \<or> 0x3A \<le> b \<and> b \<le> 0x40
     \<or> 0x5B \<le> b \<and> b \<le> 0x5E \<or> b = 0x60 \<or> 0x7B \<le> b \<and> b \<le> 0x7F"

definition ascii_alphanumeric :: "u8 \<Rightarrow> bool" where
  "ascii_alphanumeric b \<longleftrightarrow> 0x30 \<le> b \<and> b \<le> 0x39 \<or> 0x41 \<le> b \<and> b \<le> 0x5A \<or> 0x61 \<le> b \<and> b \<le> 0x7A"

definition is_token_byte :: "u8 \<Rightarrow> bool" where
  "is_token_byte b \<longleftrightarrow> ascii_alphanumeric b \<or> b = 0x25"

definition is_star :: "elem \<Rightarrow> bool" where
  "is_star e \<longleftrightarrow> e = Star"

fun collapse_stars :: "elem list \<Rightarrow> elem list \<Rightarrow> elem list" where
  "collapse_stars out [] = out"
| "collapse_stars out (e # es) =
     (if is_star e \<and> out \<noteq> [] \<and> is_star (last out) then collapse_stars out es else collapse_stars (out @ [e]) es)"

definition pattern_new :: "elem list \<Rightarrow> start_anchor \<Rightarrow> bool \<Rightarrow> pattern" where
  "pattern_new es start fin =
     (let out = collapse_stars [] es;
          (out, start) = (if out \<noteq> [] \<and> is_star (hd out) \<and> start \<noteq> AtHost then (tl out, Anywhere) else (out, start));
          (out, fin) = (if out \<noteq> [] \<and> is_star (last out) then (butlast out, False) else (out, fin))
      in \<lparr>p_elems = out, p_start = start, p_end = fin\<rparr>)"

definition elem_of_byte :: "bool \<Rightarrow> u8 \<Rightarrow> elem" where
  "elem_of_byte match_case b =
     (if b = 0x2A then Star else if b = 0x5E then Sep else if match_case then Lit b else Lit (lower_byte b))"

definition from_text :: "bytes \<Rightarrow> bool \<Rightarrow> pattern_error + pattern" where
  "from_text tx match_case =
     (let (start, body) =
        (case strip_prefix [0x7C, 0x7C] tx of
           Some rest \<Rightarrow> (AtHost, rest)
         | None \<Rightarrow> (case strip_prefix [0x7C] tx of Some rest \<Rightarrow> (AtStart, rest) | None \<Rightarrow> (Anywhere, tx)));
          (fin, body) =
        (case strip_suffix [0x7C] body of
           Some rest \<Rightarrow> if rest \<noteq> [] then (True, rest) else (False, body)
         | None \<Rightarrow> (False, body))
      in if length body > MAX_PATTERN_BYTES then Inl PatternIsTooLong
         else if list_ex (\<lambda>b. b \<le> 0x20 \<or> b = 0x7F) body then Inl InvalidCharacter
         else Inr (pattern_new (map (elem_of_byte match_case) body) start fin))"

definition has_literal :: "pattern \<Rightarrow> bool" where
  "has_literal p \<longleftrightarrow> list_ex (\<lambda>e. case e of Lit _ \<Rightarrow> True | _ \<Rightarrow> False) (p_elems p)"

section \<open>The matcher\<close>

fun match_at :: "elem list \<Rightarrow> bytes \<Rightarrow> nat \<Rightarrow> nat option" where
  "match_at [] tx pos = Some pos"
| "match_at (Lit b # es) tx pos = (if pos < length tx \<and> tx ! pos = b then match_at es tx (pos + 1) else None)"
| "match_at (Sep # es) tx pos =
     (if pos < length tx then (if is_separator (tx ! pos) then match_at es tx (pos + 1) else None)
      else match_at es tx pos)"
| "match_at (Star # es) tx pos = None"

definition ends_as :: "nat option \<Rightarrow> nat \<Rightarrow> bool" where
  "ends_as need_end e \<longleftrightarrow> (case need_end of None \<Rightarrow> True | Some n \<Rightarrow> e = n)"

definition next_label :: "bytes \<Rightarrow> nat \<Rightarrow> nat \<Rightarrow> nat option" where
  "next_label tx p he =
     (if p \<le> he \<and> he \<le> length tx
      then map_option (\<lambda>rel. p + rel + 1) (find_byte DOT (take (he - p) (drop p tx)))
      else None)"

lemma next_label_Some:
  assumes "next_label tx p he = Some p'"
  shows "p < p'" "p' \<le> he" "he \<le> length tx" "tx ! (p' - 1) = DOT" "\<And>i. p \<le> i \<Longrightarrow> i < p' - 1 \<Longrightarrow> tx ! i \<noteq> DOT"
proof -
  let ?s = "take (he - p) (drop p tx)"
  define n where "n = length (takeWhile (\<lambda>c. c \<noteq> DOT) ?s)"
  from assms have r: "p \<le> he" "he \<le> length tx" "n < length ?s" "p' = p + n + 1"
    by (auto simp: next_label_def find_byte_def Let_def n_def split: if_splits)
  then have len: "p + n < he" by simp
  show "p < p'" "p' \<le> he" "he \<le> length tx" using r len by simp_all
  have at: "?s ! i = tx ! (p + i)" if "i \<le> n" for i using that len r(1,2) by simp
  have "?s ! n = DOT" using r(3) nth_length_takeWhile [of "\<lambda>c. c \<noteq> DOT" ?s] by (simp add: n_def)
  then show "tx ! (p' - 1) = DOT" using at [of n] r(4) by simp
  fix i
  assume i: "p \<le> i" "i < p' - 1"
  then have k: "i - p < n" using r(4) by simp
  have "takeWhile (\<lambda>c. c \<noteq> DOT) ?s ! (i - p) \<in> set (takeWhile (\<lambda>c. c \<noteq> DOT) ?s)" using k unfolding n_def by (rule nth_mem)
  then have "takeWhile (\<lambda>c. c \<noteq> DOT) ?s ! (i - p) \<noteq> DOT" by (metis set_takeWhileD)
  moreover have "takeWhile (\<lambda>c. c \<noteq> DOT) ?s ! (i - p) = ?s ! (i - p)" using k unfolding n_def by (rule takeWhile_nth)
  ultimately show "tx ! i \<noteq> DOT" using at [of "i - p"] k i by simp
qed

lemma next_label_closer: "next_label tx p he = Some p' \<Longrightarrow> Suc he - p' < Suc he - p"
  by (frule next_label_Some(1), drule next_label_Some(2)) simp

lemma next_label_None:
  assumes "next_label tx p he = None" "p \<le> he" "he \<le> length tx" "p \<le> i" "i < he"
  shows "tx ! i \<noteq> DOT"
proof -
  let ?s = "take (he - p) (drop p tx)"
  have "length (takeWhile (\<lambda>c. c \<noteq> DOT) ?s) = length ?s"
    using assms(1-3) length_takeWhile_le [of "\<lambda>c. c \<noteq> DOT" ?s]
    by (auto simp: next_label_def find_byte_def Let_def split: if_splits)
  then have "takeWhile (\<lambda>c. c \<noteq> DOT) ?s = ?s" by (metis takeWhile_eq_take take_all order_refl)
  then have "\<forall>x \<in> set ?s. x \<noteq> DOT" by (simp only: takeWhile_eq_all_conv)
  moreover have "?s ! (i - p) \<in> set ?s" using assms(2-5) by (intro nth_mem) auto
  moreover have "?s ! (i - p) = tx ! i" using assms(2-5) by simp
  ultimately show ?thesis by metis
qed

function match_at_host :: "elem list \<Rightarrow> bytes \<Rightarrow> nat \<Rightarrow> nat \<Rightarrow> nat option \<Rightarrow> nat option" where
  "match_at_host seg tx p he need_end =
     (case match_at seg tx p of
        Some e \<Rightarrow> if ends_as need_end e then Some e
          else (case next_label tx p he of None \<Rightarrow> None | Some p' \<Rightarrow> match_at_host seg tx p' he need_end)
      | None \<Rightarrow> (case next_label tx p he of None \<Rightarrow> None | Some p' \<Rightarrow> match_at_host seg tx p' he need_end))"
  by pat_completeness auto
termination
  by (relation "measure (\<lambda>(seg, tx, p, he, n). Suc he - p)") (auto simp: next_label_closer)

declare match_at_host.simps [simp del]

fun find_map :: "('a \<Rightarrow> 'b option) \<Rightarrow> 'a list \<Rightarrow> 'b option" where
  "find_map f [] = None"
| "find_map f (x # xs) = (case f x of Some y \<Rightarrow> Some y | None \<Rightarrow> find_map f xs)"

fun split_star :: "elem list \<Rightarrow> elem list list" where
  "split_star [] = [[]]"
| "split_star (e # es) =
     (case split_star es of [] \<Rightarrow> [] | seg # segs \<Rightarrow> if is_star e then [] # seg # segs else (e # seg) # segs)"

definition match_first :: "start_anchor \<Rightarrow> bool \<Rightarrow> bytes \<Rightarrow> (nat \<times> nat) option \<Rightarrow> elem list \<Rightarrow> nat option" where
  "match_first start must_end tx hst seg =
     (let need_end = (if must_end then Some (length tx) else None)
      in case start of
           AtStart \<Rightarrow> (case match_at seg tx 0 of Some e \<Rightarrow> if ends_as need_end e then Some e else None | None \<Rightarrow> None)
         | AtHost \<Rightarrow> (case hst of Some (hs, he) \<Rightarrow> match_at_host seg tx hs he need_end | None \<Rightarrow> None)
         | Anywhere \<Rightarrow> None)"

fun match_segs :: "start_anchor \<Rightarrow> bool \<Rightarrow> bytes \<Rightarrow> (nat \<times> nat) option \<Rightarrow> bool \<Rightarrow> nat \<Rightarrow> elem list list \<Rightarrow> bool" where
  "match_segs start fin tx hst first cur [] = True"
| "match_segs start fin tx hst first cur (seg # rest) =
     (let lst = (rest = []); len = length tx
      in if first \<and> start \<noteq> Anywhere then
           (case match_first start (lst \<and> fin) tx hst seg of
              Some e \<Rightarrow> match_segs start fin tx hst False e rest
            | None \<Rightarrow> False)
         else if lst \<and> fin then
           (if seg \<noteq> [] \<and> \<not> list_ex (\<lambda>p. match_at seg tx p = Some len) [max cur (len - length seg)..<len + 1]
            then False
            else match_segs start fin tx hst False len rest)
         else (case find_map (match_at seg tx) [cur..<len + 1] of
              Some e \<Rightarrow> match_segs start fin tx hst False e rest
            | None \<Rightarrow> False))"

definition pattern_matches :: "pattern \<Rightarrow> bytes \<Rightarrow> (nat \<times> nat) option \<Rightarrow> bool" where
  "pattern_matches p tx hst = match_segs (p_start p) (p_end p) tx hst True 0 (split_star (p_elems p))"

section \<open>What a pattern means\<close>

text \<open>Placing the elements between two positions, with every choice for a wildcard.\<close>

fun glob :: "elem list \<Rightarrow> bytes \<Rightarrow> nat \<Rightarrow> nat \<Rightarrow> bool" where
  "glob [] tx p q \<longleftrightarrow> p = q"
| "glob (Lit b # es) tx p q \<longleftrightarrow> p < length tx \<and> tx ! p = b \<and> glob es tx (p + 1) q"
| "glob (Sep # es) tx p q \<longleftrightarrow>
     p < length tx \<and> is_separator (tx ! p) \<and> glob es tx (p + 1) q \<or> p = length tx \<and> glob es tx p q"
| "glob (Star # es) tx p q \<longleftrightarrow> list_ex (\<lambda>p'. glob es tx p' q) [p..<length tx + 1]"

text \<open>A label of the host starts at the position.\<close>

definition label_start :: "bytes \<Rightarrow> nat \<times> nat \<Rightarrow> nat \<Rightarrow> bool" where
  "label_start tx h p \<longleftrightarrow> p = fst h \<or> fst h < p \<and> p \<le> snd h \<and> tx ! (p - 1) = DOT"

definition may_start :: "start_anchor \<Rightarrow> bytes \<Rightarrow> (nat \<times> nat) option \<Rightarrow> nat \<Rightarrow> bool" where
  "may_start start tx hst p =
     (case start of Anywhere \<Rightarrow> True | AtStart \<Rightarrow> p = 0
      | AtHost \<Rightarrow> (case hst of None \<Rightarrow> False | Some h \<Rightarrow> label_start tx h p))"

definition glob_matches :: "elem list \<Rightarrow> start_anchor \<Rightarrow> bool \<Rightarrow> bytes \<Rightarrow> (nat \<times> nat) option \<Rightarrow> bool" where
  "glob_matches es start fin tx hst \<longleftrightarrow>
     list_ex (\<lambda>p. may_start start tx hst p
       \<and> list_ex (\<lambda>q. glob es tx p q \<and> (fin \<longrightarrow> q = length tx)) [0..<length tx + 1]) [0..<length tx + 1]"

end
