(* ===== verification/Block_Glob_Sem.thy ===== *)
theory Block_Glob_Sem
  imports Block_Glob
begin

text \<open>
  The scan of \<open>Block_Glob\<close> decides the reference meaning: a wildcard-free segment ends at a
  position its start determines, later starts end later, and so the leftmost place for each
  segment is the best one.
\<close>

section \<open>Segments\<close>

definition star_free :: "elem list \<Rightarrow> bool" where
  "star_free seg \<longleftrightarrow> Star \<notin> set seg"

lemma list_ex_upto: "list_ex P [a..<n + 1] \<longleftrightarrow> (\<exists>x. a \<le> x \<and> x \<le> n \<and> P x)"
  by (simp only: list_ex_iff set_upt atLeastLessThan_iff Bex_def) (auto simp: less_Suc_eq_le)

lemma glob_Star [simp]: "glob (Star # es) tx p q \<longleftrightarrow> (\<exists>p'. p \<le> p' \<and> p' \<le> length tx \<and> glob es tx p' q)"
  by (simp only: glob.simps list_ex_upto)

declare glob.simps(4) [simp del]

lemma glob_bound: "glob es tx p q \<Longrightarrow> p \<le> length tx \<Longrightarrow> q \<le> length tx"
proof (induction es tx p q rule: glob.induct)
  case (4 es tx p q)
  from 4(2) obtain p' where p': "p \<le> p'" "p' \<le> length tx" "glob es tx p' q" by auto
  then show ?case by (intro 4(1)) auto
qed auto

lemma glob_match_at: "star_free seg \<Longrightarrow> p \<le> length tx \<Longrightarrow> glob seg tx p q \<longleftrightarrow> match_at seg tx p = Some q"
  by (induction seg tx p rule: match_at.induct) (auto simp: star_free_def)

lemma match_at_end: "match_at seg tx p = Some q \<Longrightarrow> p \<le> length tx \<Longrightarrow> q = min (p + length seg) (length tx)"
  by (induction seg tx p rule: match_at.induct) (auto split: if_splits)

lemma match_at_bound: "match_at seg tx p = Some q \<Longrightarrow> p \<le> length tx \<Longrightarrow> q \<le> length tx"
  by (drule (1) match_at_end) simp

lemma glob_append: "p \<le> length tx \<Longrightarrow> glob (xs @ ys) tx p q \<longleftrightarrow> (\<exists>m. glob xs tx p m \<and> glob ys tx m q)"
proof (induction xs arbitrary: p)
  case (Cons x xs)
  show ?case
  proof (cases x)
    case (Lit b)
    show ?thesis by (cases "p < length tx") (simp_all add: Lit Cons.IH)
  next
    case Sep
    show ?thesis by (cases "p < length tx") (use Cons.prems in \<open>simp_all add: Sep Cons.IH\<close>)
  next
    case Star
    have "(\<exists>p'. p \<le> p' \<and> p' \<le> length tx \<and> glob (xs @ ys) tx p' q)
        \<longleftrightarrow> (\<exists>p'. p \<le> p' \<and> p' \<le> length tx \<and> (\<exists>m. glob xs tx p' m \<and> glob ys tx m q))" using Cons.IH by blast
    then show ?thesis unfolding Star append_Cons glob_Star by blast
  qed
qed simp

fun join_star :: "elem list list \<Rightarrow> elem list" where
  "join_star [] = []"
| "join_star [seg] = seg"
| "join_star (seg # segs) = seg @ Star # join_star segs"

lemma split_star_nonempty [simp]: "split_star es \<noteq> []"
  by (induction es) (auto split: list.split)

lemma join_split_star: "join_star (split_star es) = es"
proof (induction es)
  case (Cons e es)
  obtain seg segs where s: "split_star es = seg # segs" by (cases "split_star es") auto
  then show ?case using Cons by (cases segs) (auto simp: is_star_def)
qed simp

lemma split_star_free: "seg \<in> set (split_star es) \<Longrightarrow> star_free seg"
proof (induction es arbitrary: seg)
  case (Cons e es)
  obtain s segs where "split_star es = s # segs" by (cases "split_star es") auto
  with Cons show ?case by (auto simp: star_free_def is_star_def split: if_splits)
qed (simp add: star_free_def)

section \<open>The scan\<close>

text \<open>The segments can be placed from somewhere at or after the position.\<close>

definition fits :: "bool \<Rightarrow> bytes \<Rightarrow> elem list list \<Rightarrow> nat \<Rightarrow> bool" where
  "fits fin tx segs p \<longleftrightarrow> (\<exists>p' q. p \<le> p' \<and> p' \<le> length tx \<and> glob (join_star segs) tx p' q \<and> (fin \<longrightarrow> q = length tx))"

lemma fits_earlier: "fits fin tx segs p \<Longrightarrow> p0 \<le> p \<Longrightarrow> fits fin tx segs p0"
  unfolding fits_def using order_trans by blast

lemma fits_one:
  "star_free seg \<Longrightarrow> fits fin tx [seg] p \<longleftrightarrow>
     (\<exists>p' q. p \<le> p' \<and> p' \<le> length tx \<and> match_at seg tx p' = Some q \<and> (fin \<longrightarrow> q = length tx))"
  by (auto simp: fits_def glob_match_at)

lemma glob_first:
  assumes "star_free seg" "p \<le> length tx" "segs \<noteq> []"
  shows "(\<exists>q. glob (join_star (seg # segs)) tx p q \<and> (fin \<longrightarrow> q = length tx))
    \<longleftrightarrow> (\<exists>m. match_at seg tx p = Some m \<and> fits fin tx segs m)"
proof -
  have "join_star (seg # segs) = seg @ Star # join_star segs" using assms(3) by (cases segs) auto
  moreover have "glob (Star # join_star segs) tx m q \<longleftrightarrow> (\<exists>p'. m \<le> p' \<and> p' \<le> length tx \<and> glob (join_star segs) tx p' q)" for m q
    by simp
  ultimately show ?thesis using assms(1,2) by (auto simp: glob_append glob_match_at fits_def)
qed

lemma fits_cons:
  assumes "star_free seg" "segs \<noteq> []"
  shows "fits fin tx (seg # segs) p \<longleftrightarrow>
    (\<exists>p' m. p \<le> p' \<and> p' \<le> length tx \<and> match_at seg tx p' = Some m \<and> fits fin tx segs m)"
proof -
  have "fits fin tx (seg # segs) p \<longleftrightarrow>
      (\<exists>p'. p \<le> p' \<and> p' \<le> length tx \<and> (\<exists>q. glob (join_star (seg # segs)) tx p' q \<and> (fin \<longrightarrow> q = length tx)))"
    unfolding fits_def by blast
  also have "\<dots> \<longleftrightarrow> (\<exists>p'. p \<le> p' \<and> p' \<le> length tx \<and> (\<exists>m. match_at seg tx p' = Some m \<and> fits fin tx segs m))"
    using glob_first [OF assms(1) _ assms(2)] by blast
  finally show ?thesis by blast
qed

lemma find_map_Some:
  "find_map f [a..<b] = Some y \<Longrightarrow> \<exists>x. a \<le> x \<and> x < b \<and> f x = Some y \<and> (\<forall>x'. a \<le> x' \<and> x' < x \<longrightarrow> f x' = None)"
proof (induction "b - a" arbitrary: a)
  case (Suc n)
  then have ab: "a < b" and upt: "[a..<b] = a # [Suc a..<b]" by (simp_all add: upt_conv_Cons)
  show ?case
  proof (cases "f a")
    case (Some z)
    then show ?thesis using Suc.prems ab by (intro exI [of _ a]) (auto simp: upt)
  next
    case None
    then have "find_map f [Suc a..<b] = Some y" using Suc.prems by (simp add: upt)
    moreover have "n = b - Suc a" using Suc.hyps(2) by simp
    ultimately obtain x where x: "Suc a \<le> x" "x < b" "f x = Some y" "\<forall>x'. Suc a \<le> x' \<and> x' < x \<longrightarrow> f x' = None"
      using Suc.hyps(1) [of "Suc a"] by blast
    then show ?thesis using None by (intro exI [of _ x]) (auto simp: Suc_le_eq le_eq_less_or_eq [of a])
  qed
qed simp

lemma find_map_None: "find_map f xs = None \<longleftrightarrow> (\<forall>x \<in> set xs. f x = None)"
  by (induction xs) (auto split: option.split)

lemma scan_free:
  assumes "\<forall>seg \<in> set segs. star_free seg" "segs \<noteq> []" "cur \<le> length tx" "\<not> (first \<and> start \<noteq> Anywhere)"
  shows "match_segs start fin tx hst first cur segs \<longleftrightarrow> fits fin tx segs cur"
  using assms
proof (induction segs arbitrary: cur first)
  case (Cons seg rest)
  let ?len = "length tx"
  have sf: "star_free seg" using Cons.prems(1) by simp
  show ?case
  proof (cases "rest = [] \<and> fin")
    case True
    have "match_segs start fin tx hst first cur (seg # rest) \<longleftrightarrow>
        seg = [] \<or> (\<exists>p. max cur (?len - length seg) \<le> p \<and> p \<le> ?len \<and> match_at seg tx p = Some ?len)"
      using True Cons.prems(4) by (auto simp only: match_segs.simps Let_def list_ex_upto if_True if_False simp_thms split: if_split)
    also have "\<dots> \<longleftrightarrow> (\<exists>p. cur \<le> p \<and> p \<le> ?len \<and> match_at seg tx p = Some ?len)"
    proof
      assume "seg = [] \<or> (\<exists>p. max cur (?len - length seg) \<le> p \<and> p \<le> ?len \<and> match_at seg tx p = Some ?len)"
      then show "\<exists>p. cur \<le> p \<and> p \<le> ?len \<and> match_at seg tx p = Some ?len" using Cons.prems(3) by auto
    next
      assume "\<exists>p. cur \<le> p \<and> p \<le> ?len \<and> match_at seg tx p = Some ?len"
      then obtain p where "cur \<le> p" "p \<le> ?len" "match_at seg tx p = Some ?len" by blast
      moreover from this have "?len - length seg \<le> p" using match_at_end by fastforce
      ultimately show "seg = [] \<or> (\<exists>p. max cur (?len - length seg) \<le> p \<and> p \<le> ?len \<and> match_at seg tx p = Some ?len)" by auto
    qed
    finally show ?thesis using True sf by (simp add: fits_one)
  next
    case False
    then have step: "match_segs start fin tx hst first cur (seg # rest) =
        (case find_map (match_at seg tx) [cur..<?len + 1] of
           Some e \<Rightarrow> match_segs start fin tx hst False e rest | None \<Rightarrow> False)"
      using Cons.prems(4) by (auto simp: Let_def)
    show ?thesis
    proof (cases "find_map (match_at seg tx) [cur..<?len + 1]")
      case None
      then have "match_at seg tx p = None" if "cur \<le> p" "p \<le> ?len" for p using that by (auto simp: find_map_None)
      then have "\<not> fits fin tx (seg # rest) cur"
        using sf by (cases "rest = []") (auto simp: fits_one fits_cons)
      then show ?thesis using None step by simp
    next
      case (Some e)
      from find_map_Some [OF Some] obtain p where p: "cur \<le> p" "p \<le> ?len" "match_at seg tx p = Some e"
          "\<forall>p'. cur \<le> p' \<and> p' < p \<longrightarrow> match_at seg tx p' = None" by auto
      show ?thesis
      proof (cases "rest = []")
        case True
        then show ?thesis using False Some step p sf by (auto simp: fits_one)
      next
        case rest: False
        have e: "e \<le> ?len" by (rule match_at_bound [OF p(3,2)])
        have "fits fin tx (seg # rest) cur \<longleftrightarrow> fits fin tx rest e"
        proof
          assume "fits fin tx (seg # rest) cur"
          then obtain p' m where m: "cur \<le> p'" "p' \<le> ?len" "match_at seg tx p' = Some m" "fits fin tx rest m"
            using fits_cons [OF sf rest] by blast
          then have "p \<le> p'" using p(4) by (metis not_less option.distinct(1))
          then have "e \<le> m" using match_at_end [OF p(3,2)] match_at_end [OF m(3,2)] by simp
          then show "fits fin tx rest e" by (rule fits_earlier [OF m(4)])
        qed (use p(1-3) fits_cons [OF sf rest] in blast)
        moreover have "match_segs start fin tx hst False e rest \<longleftrightarrow> fits fin tx rest e"
          using Cons.prems(1) rest e by (intro Cons.IH) auto
        ultimately show ?thesis using Some step by simp
      qed
    qed
  qed
qed simp

section \<open>The anchored segment\<close>

definition host_range :: "bytes \<Rightarrow> (nat \<times> nat) option \<Rightarrow> bool" where
  "host_range tx hst \<longleftrightarrow> (case hst of None \<Rightarrow> True | Some (hs, he) \<Rightarrow> hs \<le> he \<and> he \<le> length tx)"

definition end_need :: "bool \<Rightarrow> bytes \<Rightarrow> nat option" where
  "end_need must_end tx = (if must_end then Some (length tx) else None)"

definition ends_at :: "elem list \<Rightarrow> bytes \<Rightarrow> nat option \<Rightarrow> nat \<Rightarrow> nat option" where
  "ends_at seg tx need_end p =
     (case match_at seg tx p of Some e \<Rightarrow> if ends_as need_end e then Some e else None | None \<Rightarrow> None)"

lemma ends_at_Some: "ends_at seg tx ne p = Some e \<longleftrightarrow> match_at seg tx p = Some e \<and> ends_as ne e"
  by (auto simp: ends_at_def split: option.splits if_splits)

lemma ends_as_need [simp]: "ends_as (end_need must tx) e \<longleftrightarrow> (must \<longrightarrow> e = length tx)"
  by (simp add: ends_as_def end_need_def)

text \<open>The first of the candidate positions at which the segment fits.\<close>

definition first_fit :: "(nat \<Rightarrow> bool) \<Rightarrow> (nat \<Rightarrow> nat option) \<Rightarrow> nat option \<Rightarrow> bool" where
  "first_fit cand f r \<longleftrightarrow>
     (case r of None \<Rightarrow> \<forall>p. cand p \<longrightarrow> f p = None
      | Some e \<Rightarrow> \<exists>p. cand p \<and> f p = Some e \<and> (\<forall>p'. cand p' \<and> p' < p \<longrightarrow> f p' = None))"

lemma label_start_last:
  assumes "next_label tx p he = None" "p \<le> he" "he \<le> length tx"
  shows "label_start tx (p, he) p' \<longleftrightarrow> p' = p"
proof -
  have "tx ! (p' - 1) \<noteq> DOT" if "p < p'" "p' \<le> he" by (rule next_label_None [OF assms]) (use that in linarith)+
  then show ?thesis by (auto simp: label_start_def)
qed

lemma label_start_next:
  assumes "next_label tx p he = Some q"
  shows "label_start tx (p, he) p' \<longleftrightarrow> p' = p \<or> label_start tx (q, he) p'"
proof (cases "p < p' \<and> p' < q")
  case True
  then have "tx ! (p' - 1) \<noteq> DOT" by (intro next_label_Some(5) [OF assms]) linarith+
  then show ?thesis using True by (auto simp: label_start_def)
next
  case False
  then show ?thesis using next_label_Some(1,2,4) [OF assms] by (auto simp: label_start_def)
qed

lemma first_fit_step:
  assumes "\<And>p'. cand' p' \<Longrightarrow> p < p'" "f p = None" "first_fit cand' f r"
  shows "first_fit (\<lambda>p'. p' = p \<or> cand' p') f r"
  using assms by (auto simp: first_fit_def split: option.splits)

lemma match_at_host_first:
  "p \<le> he \<Longrightarrow> he \<le> length tx \<Longrightarrow>
     first_fit (label_start tx (p, he)) (ends_at seg tx ne) (match_at_host seg tx p he ne)"
proof (induction seg tx p he ne rule: match_at_host.induct)
  case (1 seg tx p he ne)
  show ?case
  proof (cases "ends_at seg tx ne p")
    case (Some e)
    then have m: "match_at seg tx p = Some e" "ends_as ne e" by (simp_all add: ends_at_Some)
    then have "match_at_host seg tx p he ne = Some e" by (simp add: match_at_host.simps [of seg tx p])
    moreover have "label_start tx (p, he) p" "\<And>p'. label_start tx (p, he) p' \<Longrightarrow> \<not> p' < p" by (auto simp: label_start_def)
    ultimately show ?thesis using Some by (auto simp: first_fit_def)
  next
    case None
    then have no: "match_at_host seg tx p he ne =
        (case next_label tx p he of None \<Rightarrow> None | Some q \<Rightarrow> match_at_host seg tx q he ne)"
      by (simp add: match_at_host.simps [of seg tx p] ends_at_def split: option.splits if_splits)
    show ?thesis
    proof (cases "next_label tx p he")
      case n: None
      show ?thesis unfolding no n using label_start_last [OF n 1(3,4)] None by (simp add: first_fit_def)
    next
      case q: (Some q)
      note nx = next_label_Some [OF q]
      have "first_fit (label_start tx (q, he)) (ends_at seg tx ne) (match_at_host seg tx q he ne)"
      proof (cases "match_at seg tx p")
        case (Some e)
        with None have "\<not> ends_as ne e" by (auto simp: ends_at_def split: if_splits)
        then show ?thesis using 1(2) [OF Some _ q nx(2,3)] by blast
      qed (rule 1(1) [OF _ q nx(2,3)])
      moreover have "p < p'" if "label_start tx (q, he) p'" for p' using that nx(1) by (auto simp: label_start_def)
      moreover have "label_start tx (p, he) = (\<lambda>p'. p' = p \<or> label_start tx (q, he) p')"
        using label_start_next [OF q] by blast
      ultimately show ?thesis unfolding no q using None
        by (simp add: first_fit_step [of "label_start tx (q, he)" p "ends_at seg tx ne"])
    qed
  qed
qed

lemma match_first_first:
  assumes "start \<noteq> Anywhere" "host_range tx hst"
  shows "first_fit (may_start start tx hst) (ends_at seg tx (end_need must tx)) (match_first start must tx hst seg)"
proof (cases start)
  case AtStart
  then show ?thesis
    by (auto simp: match_first_def may_start_def first_fit_def ends_at_def end_need_def [symmetric] Let_def split: option.splits)
next
  case AtHost
  show ?thesis
  proof (cases hst)
    case (Some h)
    moreover obtain hs he where "h = (hs, he)" by (cases h)
    moreover have "may_start AtHost tx (Some (hs, he)) = label_start tx (hs, he)" by (simp add: fun_eq_iff may_start_def)
    ultimately show ?thesis using AtHost assms(2) match_at_host_first [of hs he tx seg "end_need must tx"]
      by (simp add: host_range_def match_first_def end_need_def [symmetric] Let_def)
  qed (simp add: AtHost match_first_def may_start_def first_fit_def)
qed (use assms in simp)

section \<open>The scan decides the meaning\<close>

lemma glob_matches_iff:
  "glob_matches es start fin tx hst \<longleftrightarrow>
     (\<exists>p q. p \<le> length tx \<and> may_start start tx hst p \<and> glob es tx p q \<and> (fin \<longrightarrow> q = length tx))"
proof -
  have "glob_matches es start fin tx hst \<longleftrightarrow> (\<exists>p. 0 \<le> p \<and> p \<le> length tx \<and> may_start start tx hst p \<and>
      (\<exists>q. 0 \<le> q \<and> q \<le> length tx \<and> glob es tx p q \<and> (fin \<longrightarrow> q = length tx)))"
    unfolding glob_matches_def list_ex_upto ..
  also have "\<dots> \<longleftrightarrow> (\<exists>p q. p \<le> length tx \<and> may_start start tx hst p \<and> glob es tx p q \<and> (fin \<longrightarrow> q = length tx))"
    using glob_bound by blast
  finally show ?thesis .
qed

lemma may_start_bound: "host_range tx hst \<Longrightarrow> start \<noteq> Anywhere \<Longrightarrow> may_start start tx hst p \<Longrightarrow> p \<le> length tx"
  by (cases start) (auto simp: may_start_def host_range_def label_start_def split: option.splits)

lemma anchored_scan:
  assumes anchor: "start \<noteq> Anywhere" and hr: "host_range tx hst"
    and sf: "\<forall>s \<in> set (seg # rest). star_free s"
  shows "match_segs start fin tx hst True 0 (seg # rest) \<longleftrightarrow>
    (\<exists>p q. p \<le> length tx \<and> may_start start tx hst p \<and> glob (join_star (seg # rest)) tx p q \<and> (fin \<longrightarrow> q = length tx))"
    (is "_ \<longleftrightarrow> ?meaning")
proof -
  let ?must = "rest = [] \<and> fin" and ?at = "ends_at seg tx (end_need (rest = [] \<and> fin) tx)"
  note bound = may_start_bound [OF hr anchor]
  define r where "r = match_first start ?must tx hst seg"
  have ff: "first_fit (may_start start tx hst) ?at r" unfolding r_def by (rule match_first_first [OF anchor hr])
  have step: "match_segs start fin tx hst True 0 (seg # rest) =
      (case r of Some e \<Rightarrow> match_segs start fin tx hst False e rest | None \<Rightarrow> False)"
    using anchor by (simp add: r_def Let_def)
  have later: "match_segs start fin tx hst False e rest \<longleftrightarrow> rest = [] \<or> fits fin tx rest e" if "e \<le> length tx" for e
    using scan_free [of rest e tx False start fin hst] sf that by (cases "rest = []") auto
  have place: "(\<exists>q. glob (join_star (seg # rest)) tx p q \<and> (fin \<longrightarrow> q = length tx))
      \<longleftrightarrow> (\<exists>m. ?at p = Some m \<and> (rest = [] \<or> fits fin tx rest m))" if "p \<le> length tx" for p
    using that sf glob_first [of seg p tx rest fin] by (cases "rest = []") (auto simp: ends_at_Some glob_match_at)
  have meaning: "?meaning \<longleftrightarrow> (\<exists>p m. may_start start tx hst p \<and> ?at p = Some m \<and> (rest = [] \<or> fits fin tx rest m))"
    using place bound by blast
  show ?thesis
  proof (cases r)
    case None
    then show ?thesis using ff unfolding step meaning by (auto simp: first_fit_def)
  next
    case (Some e)
    with ff obtain p where p: "may_start start tx hst p" "?at p = Some e"
        "\<forall>p'. may_start start tx hst p' \<and> p' < p \<longrightarrow> ?at p' = None" by (auto simp: first_fit_def)
    have e: "match_at seg tx p = Some e" "e = min (p + length seg) (length tx)"
      using p(2) match_at_end [OF _ bound [OF p(1)]] by (auto simp: ends_at_Some)
    have "fits fin tx rest e" if m: "may_start start tx hst p'" "?at p' = Some m" "fits fin tx rest m" for p' m
    proof (rule fits_earlier [OF m(3)])
      have "p \<le> p'" using p(3) m(1,2) by (metis not_less option.distinct(1))
      moreover have "m = min (p' + length seg) (length tx)"
        using m(2) match_at_end [OF _ bound [OF m(1)]] by (simp add: ends_at_Some)
      ultimately show "e \<le> m" using e(2) by simp
    qed
    then have "?meaning \<longleftrightarrow> rest = [] \<or> fits fin tx rest e" unfolding meaning using p(1,2) by blast
    then show ?thesis using Some step later [of e] e(2) by simp
  qed
qed

lemma scan_decides:
  assumes "host_range tx hst"
  shows "pattern_matches p tx hst \<longleftrightarrow> glob_matches (p_elems p) (p_start p) (p_end p) tx hst"
proof -
  obtain seg rest where s: "split_star (p_elems p) = seg # rest" by (cases "split_star (p_elems p)") auto
  have sf: "\<forall>x \<in> set (seg # rest). star_free x" using split_star_free [of _ "p_elems p"] s by simp
  have j: "join_star (seg # rest) = p_elems p" using join_split_star [of "p_elems p"] s by simp
  show ?thesis
  proof (cases "p_start p = Anywhere")
    case True
    have "pattern_matches p tx hst \<longleftrightarrow> fits (p_end p) tx (seg # rest) 0"
      unfolding pattern_matches_def s True by (rule scan_free) (use sf in auto)
    then show ?thesis unfolding fits_def j glob_matches_iff True by (simp add: may_start_def)
  next
    case False
    show ?thesis unfolding pattern_matches_def s anchored_scan [OF False assms sf] j glob_matches_iff ..
  qed
qed

section \<open>Normalisation\<close>

lemma glob_after_star: "glob (Star # Star # es) tx p q \<longleftrightarrow> glob (Star # es) tx p q"
  unfolding glob_Star using order_trans by blast

lemma collapse_stars_glob: "p \<le> length tx \<Longrightarrow> glob (collapse_stars out es) tx p q \<longleftrightarrow> glob (out @ es) tx p q"
proof (induction out es arbitrary: p rule: collapse_stars.induct)
  case (2 out e es)
  show ?case
  proof (cases "is_star e \<and> out \<noteq> [] \<and> is_star (last out)")
    case True
    then obtain o' where o': "out = o' @ [Star]" by (metis append_butlast_last_id is_star_def)
    have e: "e = Star" using True by (simp add: is_star_def)
    have "glob (collapse_stars out (e # es)) tx p q \<longleftrightarrow> glob (o' @ Star # es) tx p q"
      using 2(1) [OF True 2(3)] True o' by simp
    also have "\<dots> \<longleftrightarrow> glob (o' @ Star # Star # es) tx p q"
      unfolding glob_append [OF 2(3)] glob_after_star ..
    finally show ?thesis using o' e by simp
  next
    case False
    then show ?thesis using 2(2) [OF False 2(3)] by auto
  qed
qed simp

lemma glob_drop_first_star:
  "start \<noteq> AtHost \<Longrightarrow> glob_matches (Star # es) start fin tx hst \<longleftrightarrow> glob_matches es Anywhere fin tx hst"
  unfolding glob_matches_iff glob_Star by (cases start) (auto simp: may_start_def)

lemma glob_drop_last_star:
  "glob_matches (es @ [Star]) start fin tx hst \<longleftrightarrow> glob_matches es start False tx hst"
proof -
  have "(\<exists>q. glob (es @ [Star]) tx p q \<and> (fin \<longrightarrow> q = length tx)) \<longleftrightarrow> (\<exists>q. glob es tx p q)" if le: "p \<le> length tx" for p
  proof
    assume "\<exists>q. glob es tx p q"
    then obtain m where m: "glob es tx p m" "m \<le> length tx" using glob_bound le by blast
    then have "glob (es @ [Star]) tx p (length tx)" unfolding glob_append [OF le] by auto
    then show "\<exists>q. glob (es @ [Star]) tx p q \<and> (fin \<longrightarrow> q = length tx)" by blast
  qed (use glob_append [OF le] in blast)
  then show ?thesis unfolding glob_matches_iff by blast
qed

lemma pattern_new_meaning:
  "glob_matches (p_elems (pattern_new es start fin)) (p_start (pattern_new es start fin))
     (p_end (pattern_new es start fin)) tx hst \<longleftrightarrow> glob_matches es start fin tx hst"
proof -
  let ?c = "collapse_stars [] es"
  define a where "a = (if ?c \<noteq> [] \<and> is_star (hd ?c) \<and> start \<noteq> AtHost then (tl ?c, Anywhere) else (?c, start))"
  define b where "b = (if fst a \<noteq> [] \<and> is_star (last (fst a)) then (butlast (fst a), False) else (fst a, fin))"
  have new: "pattern_new es start fin = \<lparr>p_elems = fst b, p_start = snd a, p_end = snd b\<rparr>"
    by (simp add: pattern_new_def Let_def a_def b_def split: prod.split)
  have "glob_matches es start fin tx hst \<longleftrightarrow> glob_matches ?c start fin tx hst"
    unfolding glob_matches_iff using collapse_stars_glob [of _ tx "[]" es] by auto
  also have "\<dots> \<longleftrightarrow> glob_matches (fst a) (snd a) fin tx hst"
    by (cases ?c) (auto simp: a_def is_star_def glob_drop_first_star)
  also have "\<dots> \<longleftrightarrow> glob_matches (fst b) (snd a) (snd b) tx hst"
    by (cases "fst a" rule: rev_cases) (auto simp: b_def is_star_def glob_drop_last_star)
  finally show ?thesis using new by simp
qed

end
