(* ===== verification/Net_Ip.thy ===== *)
theory Net_Ip
  imports Net_Text
begin

text \<open>
  \<^verbatim>\<open>str::parse::<IpAddr>\<close> of Rust's standard library, as far as the network crates use
  it: whether a host is an IPv4 or IPv6 literal.  A reader takes the remaining input and
  gives the rest it leaves, or nothing and then has consumed nothing.  An IPv4 part has at
  most three digits, no leading zero and a value below 256; an IPv6 group has at most four
  hexadecimal digits, and an address may end in an embedded IPv4 address.
\<close>

definition hex_digit :: "u8 \<Rightarrow> nat option" where
  "hex_digit b =
     (if 0x61 \<le> b \<and> b \<le> 0x66 then Some (unat b - 87)
      else if 0x41 \<le> b \<and> b \<le> 0x46 then Some (unat b - 55)
      else digit b)"

definition read_digits :: "(u8 \<Rightarrow> nat option) \<Rightarrow> nat \<Rightarrow> bytes \<Rightarrow> (bytes \<times> bytes) option" where
  "read_digits dig max_digits s =
     (let ds = takeWhile (\<lambda>c. dig c \<noteq> None) s
      in if ds = [] \<or> length ds > max_digits then None else Some (ds, drop (length ds) s))"

definition read_octet :: "bytes \<Rightarrow> bytes option" where
  "read_octet s = do {
     (ds, r) \<leftarrow> read_digits digit 3 s;
     n \<leftarrow> parse_digits 0 ds;
     if hd ds = 0x30 \<and> length ds > 1 \<or> n > 255 then None else Some r }"

definition read_group :: "bytes \<Rightarrow> bytes option" where
  "read_group s = map_option snd (read_digits hex_digit 4 s)"

definition read_given :: "u8 \<Rightarrow> bytes \<Rightarrow> bytes option" where
  "read_given c s = strip_prefix [c] s"

definition read_separator :: "u8 \<Rightarrow> nat \<Rightarrow> (bytes \<Rightarrow> bytes option) \<Rightarrow> bytes \<Rightarrow> bytes option" where
  "read_separator sep i inner s =
     (if i > 0 then do { r \<leftarrow> read_given sep s; inner r } else inner s)"

definition read_ipv4_addr :: "bytes \<Rightarrow> bytes option" where
  "read_ipv4_addr s = do {
     r \<leftarrow> read_separator DOT 0 read_octet s;
     r \<leftarrow> read_separator DOT 1 read_octet r;
     r \<leftarrow> read_separator DOT 2 read_octet r;
     read_separator DOT 3 read_octet r }"

text \<open>How many groups were read, whether an IPv4 address ended them, and the rest.\<close>

function read_groups :: "nat \<Rightarrow> nat \<Rightarrow> bytes \<Rightarrow> nat \<times> bool \<times> bytes" where
  "read_groups limit i s =
     (if i \<ge> limit then (limit, False, s)
      else case (if i < limit - 1 then read_separator COLON i read_ipv4_addr s else None) of
        Some r \<Rightarrow> (i + 2, True, r)
      | None \<Rightarrow>
          (case read_separator COLON i read_group s of
             Some r \<Rightarrow> read_groups limit (i + 1) r
           | None \<Rightarrow> (i, False, s)))"
  by pat_completeness auto
termination by (relation "measure (\<lambda>(limit, i, s). limit - i)") auto

definition read_ipv6_addr :: "bytes \<Rightarrow> bytes option" where
  "read_ipv6_addr s =
     (case read_groups 8 0 s of (head_size, head_ipv4, r) \<Rightarrow>
        if head_size = 8 then Some r
        else if head_ipv4 then None
        else do {
          r \<leftarrow> read_given COLON r;
          r \<leftarrow> read_given COLON r;
          Some (snd (snd (read_groups (8 - (head_size + 1)) 0 r))) })"

definition is_ip_addr :: "bytes \<Rightarrow> bool" where
  "is_ip_addr s =
     (case read_ipv4_addr s of
        Some r \<Rightarrow> r = []
      | None \<Rightarrow> (case read_ipv6_addr s of Some r \<Rightarrow> r = [] | None \<Rightarrow> False))"

section \<open>Dotted quads are read back\<close>

definition dig :: "nat \<Rightarrow> u8" where "dig k = word_of_nat (48 + k)"

text \<open>\<^verbatim>\<open>Display\<close> for the four octets of an IPv4 address.\<close>

definition show_octet :: "u8 \<Rightarrow> bytes" where
  "show_octet w =
     (let n = unat w
      in if n < 10 then [dig n] else if n < 100 then [dig (n div 10), dig (n mod 10)]
         else [dig (n div 100), dig (n div 10 mod 10), dig (n mod 10)])"

definition show_ipv4 :: "u8 \<Rightarrow> u8 \<Rightarrow> u8 \<Rightarrow> u8 \<Rightarrow> bytes" where
  "show_ipv4 a b c d = str_join DOT [show_octet a, show_octet b, show_octet c, show_octet d]"

lemma unat_dig: "k < 10 \<Longrightarrow> unat (dig k) = 48 + k"
  by (simp add: dig_def unat_of_nat del: of_nat_add of_nat_numeral)

lemma digit_dig: "k < 10 \<Longrightarrow> digit (dig k) = Some k"
  by (auto simp: digit_def word_le_nat_alt unat_dig)

lemma dig_zero: "k < 10 \<Longrightarrow> dig k = 0x30 \<longleftrightarrow> k = 0"
  by (simp add: word_unat_eq_iff unat_dig)

lemma read_octet_digits:
  assumes ds: "ds = map dig ks" "ks \<noteq> []" "length ks \<le> 3" "\<forall>k \<in> set ks. k < 10"
    and val: "foldl (\<lambda>n k. 10 * n + k) 0 ks \<le> 255" and zero: "hd ks \<noteq> 0 \<or> length ks = 1"
    and rest: "takeWhile (\<lambda>c. digit c \<noteq> None) rest = []"
  shows "read_octet (ds @ rest) = Some rest"
proof -
  have tw: "takeWhile (\<lambda>c. digit c \<noteq> None) (ds @ rest) = ds"
    using ds rest by (subst takeWhile_append2) (auto simp: digit_dig)
  have "\<forall>k \<in> set ks. k < 10 \<Longrightarrow> parse_digits n (map dig ks) = Some (foldl (\<lambda>n k. 10 * n + k) n ks)" for n ks
    by (induction ks arbitrary: n) (auto simp: digit_dig)
  then have p: "parse_digits 0 ds = Some (foldl (\<lambda>n k. 10 * n + k) 0 ks)" using ds by simp
  have "read_digits digit 3 (ds @ rest) = Some (ds, rest)"
    unfolding read_digits_def Let_def tw using ds by simp
  moreover have "\<not> (hd ds = 0x30 \<and> length ds > 1)"
    using ds zero by (cases ks) (auto simp: dig_zero)
  ultimately show ?thesis using p val by (simp add: read_octet_def)
qed

lemma read_octet_show:
  assumes rest: "takeWhile (\<lambda>c. digit c \<noteq> None) rest = []"
  shows "read_octet (show_octet w @ rest) = Some rest"
proof -
  define n where "n = unat w"
  define ks where "ks = (if n < 10 then [n] else if n < 100 then [n div 10, n mod 10]
    else [n div 100, n div 10 mod 10, n mod 10])"
  have n: "n < 256" using unsigned_less [of w] by (simp add: n_def nat_less_iff)
  have shown: "show_octet w = map dig ks" by (simp add: show_octet_def ks_def n_def Let_def)
  have hundred: "n div 100 = n div 10 div 10" by (simp add: div_mult2_eq [symmetric])
  have val: "10 * (10 * (n div 100) + n div 10 mod 10) + n mod 10 = n" "10 * (n div 10) + n mod 10 = n"
    unfolding hundred mult_div_mod_eq by simp_all
  have small: "n div 100 < 10" "n div 10 mod 10 < 10" "n mod 10 < 10" "n < 100 \<Longrightarrow> n div 10 < 10"
    using n by (simp_all add: div_less_iff_less_mult)
  have big: "100 \<le> n \<Longrightarrow> n div 100 \<noteq> 0" "10 \<le> n \<Longrightarrow> n div 10 \<noteq> 0" by (simp_all add: div_eq_0_iff)
  consider "ks = [n]" "n < 10" | "ks = [n div 10, n mod 10]" "10 \<le> n" "n < 100"
    | "ks = [n div 100, n div 10 mod 10, n mod 10]" "100 \<le> n"
    by (cases "n < 10"; cases "n < 100") (simp_all only: ks_def if_True if_False not_less)
  then show ?thesis
  proof cases
    case 1
    show ?thesis by (rule read_octet_digits [OF shown]) (use 1 rest in simp_all)
  next
    case 2
    show ?thesis
    proof (rule read_octet_digits [OF shown _ _ _ _ _ rest])
      show "foldl (\<lambda>n k. 10 * n + k) 0 ks \<le> 255"
        unfolding 2(1) using 2 val(2) by (simp only: foldl.simps mult_0_right add_0)
    qed (use 2 small big in \<open>simp_all only: list.simps list.sel length_Cons list.size\<close>, auto)
  next
    case 3
    show ?thesis
    proof (rule read_octet_digits [OF shown _ _ _ _ _ rest])
      show "foldl (\<lambda>n k. 10 * n + k) 0 ks \<le> 255"
        unfolding 3(1) using n val(1) by (simp only: foldl.simps mult_0_right add_0)
    qed (use 3 small big in \<open>simp_all only: list.simps list.sel length_Cons list.size\<close>, auto)
  qed
qed

lemma dotted_quad_is_ip: "is_ip_addr (show_ipv4 a b c d)"
proof -
  have "read_octet (show_octet w @ DOT # rest) = Some (DOT # rest)" for w rest
    by (rule read_octet_show) (simp add: digit_def)
  moreover have "read_octet (show_octet w) = Some []" for w
    using read_octet_show [of "[]" w] by simp
  ultimately have "read_ipv4_addr (show_ipv4 a b c d) = Some []"
    by (simp add: read_ipv4_addr_def read_separator_def read_given_def show_ipv4_def)
  then show ?thesis by (simp add: is_ip_addr_def)
qed

end
