(* ===== verification/Net_Psl.thy ===== *)
theory Net_Psl
  imports Net_Ip "HOL-Library.List_Lexorder" "HOL-Library.Sublist"
begin

text \<open>
  The public suffix list of \<^verbatim>\<open>crates/px-net/src/psl.rs\<close>: parsing the published text and
  the registrable domain of a host.  The hash map of rules is a map kept as a sorted
  association list.  The locale \<open>site_resolver\<close> is what the rest of the browser relies on
  (the trait \<^verbatim>\<open>SiteResolver\<close>); \<open>reference_site\<close> is the published algorithm, stated on the
  rules themselves.
\<close>

datatype rule_kind = Normal | Wildcard | Exception
datatype psl_error = PslEmpty

record public_suffix_list =
  rules :: "(bytes, rule_kind) btree"

definition psl_rule :: "bytes \<Rightarrow> (bytes \<times> rule_kind) option" where
  "psl_rule raw =
     (let line = trim raw
      in if line = [] \<or> strip_prefix [SLASH, SLASH] line \<noteq> None then None
         else let (kind, body) =
             (case strip_prefix [0x21] line of
                Some rest \<Rightarrow> (Exception, rest)
              | None \<Rightarrow> (case strip_prefix [0x2A, DOT] line of
                  Some rest \<Rightarrow> (Wildcard, rest)
                | None \<Rightarrow> (Normal, line)))
           in if body = [] then None else Some (to_ascii_lowercase body, kind))"

definition psl_parse :: "bytes \<Rightarrow> psl_error + public_suffix_list" where
  "psl_parse text =
     (let rs = fold (\<lambda>line m. case psl_rule line of None \<Rightarrow> m | Some (body, kind) \<Rightarrow> bt_insert body kind m)
                 (str_lines text) []
      in if rs = [] then Inl PslEmpty else Inr \<lparr>rules = rs\<rparr>)"

definition psl_len :: "public_suffix_list \<Rightarrow> nat" where
  "psl_len l = length (rules l)"

definition canonical_host :: "bytes \<Rightarrow> bytes" where
  "canonical_host h = to_ascii_lowercase (trim_end_matches DOT h)"

definition host_labels :: "bytes \<Rightarrow> bytes list option" where
  "host_labels h =
     (let host = canonical_host h
      in if host = [] \<or> begins_with DOT host \<or> contains_str [DOT, DOT] host then None
         else if is_ip_addr host \<or> begins_with 0x5B host then None
         else let labels = str_split DOT host
           in if [] \<in> set labels then None else Some labels)"

fun suffix_scan :: "(bytes, rule_kind) btree \<Rightarrow> bytes list \<Rightarrow> nat option" where
  "suffix_scan rs [] = None"
| "suffix_scan rs (l # ls) =
     (case map_of rs (str_join DOT (l # ls)) of
        Some Exception \<Rightarrow> Some (length ls)
      | Some Wildcard \<Rightarrow> Some (length (l # ls) + 1)
      | Some Normal \<Rightarrow> Some (length (l # ls))
      | None \<Rightarrow> suffix_scan rs ls)"

definition below_suffix :: "bytes list \<Rightarrow> nat \<Rightarrow> bytes option" where
  "below_suffix labels k =
     (if length labels \<le> k then None
      else Some (str_join DOT (drop (length labels - (k + 1)) labels)))"

definition registrable_domain :: "public_suffix_list \<Rightarrow> bytes \<Rightarrow> bytes option" where
  "registrable_domain l h = do {
     labels \<leftarrow> host_labels h;
     below_suffix labels (case suffix_scan (rules l) labels of None \<Rightarrow> 1 | Some k \<Rightarrow> k) }"

section \<open>The published algorithm\<close>

text \<open>The rules of the text, in order, before any map merges them.\<close>

definition rule_lines :: "bytes \<Rightarrow> (bytes \<times> rule_kind) list" where
  "rule_lines text = List.map_filter psl_rule (str_lines text)"

text \<open>
  A rule matches when its labels end the host's labels, and a wildcard needs one label
  more.  An exception prevails over everything and gives back its first label; otherwise
  the rule with the most labels does, and one label is the suffix when none matches.
\<close>

definition rule_matches :: "bytes list \<Rightarrow> bytes \<times> rule_kind \<Rightarrow> bool" where
  "rule_matches ls r \<longleftrightarrow> suffix (str_split DOT (fst r)) ls
     \<and> (snd r = Wildcard \<longrightarrow> length (str_split DOT (fst r)) < length ls)"

definition rule_size :: "bytes \<times> rule_kind \<Rightarrow> nat" where
  "rule_size r = length (str_split DOT (fst r)) + (if snd r = Wildcard then 1 else 0)"

definition prevailing :: "(bytes \<times> rule_kind) list \<Rightarrow> bytes list \<Rightarrow> nat" where
  "prevailing rs ls =
     (let ms = filter (rule_matches ls) rs; es = filter (\<lambda>r. snd r = Exception) ms
      in if es \<noteq> [] then Max (rule_size ` set es) - 1
         else if ms \<noteq> [] then Max (rule_size ` set ms) else 1)"

definition reference_site :: "(bytes \<times> rule_kind) list \<Rightarrow> bytes \<Rightarrow> bytes option" where
  "reference_site rs h = do { labels \<leftarrow> host_labels h; below_suffix labels (prevailing rs labels) }"

text \<open>No rule is longer than an exception it ends in.\<close>

definition exceptions_final :: "(bytes \<times> rule_kind) list \<Rightarrow> bool" where
  "exceptions_final rs \<longleftrightarrow> (\<forall>e \<in> set rs. \<forall>r \<in> set rs. snd e = Exception \<longrightarrow>
     suffix (str_split DOT (fst e)) (str_split DOT (fst r)) \<longrightarrow> fst r = fst e)"

section \<open>Laws of the parsed list\<close>

lemma psl_rules_fold:
  "fold (\<lambda>line m. case psl_rule line of None \<Rightarrow> m | Some (body, kind) \<Rightarrow> bt_insert body kind m) ls m
   = fold (\<lambda>(body, kind). bt_insert body kind) (List.map_filter psl_rule ls) m"
  by (induction ls arbitrary: m) (auto simp: map_filter_simps split: option.split)

lemma map_of_fold_insert:
  "map_of (fold (\<lambda>(body, kind). bt_insert body kind) rs m) = map_of m ++ map_of (rev rs)"
  by (induction rs arbitrary: m) (auto simp: map_add_def fun_eq_iff split: option.split)

lemma psl_parse_Inr:
  assumes "psl_parse text = Inr l"
  shows "map_of (rules l) = map_of (rev (rule_lines text))"
  using assms by (auto simp: psl_parse_def Let_def psl_rules_fold map_of_fold_insert rule_lines_def split: if_splits)

lemma psl_parse_lookup:
  assumes "psl_parse text = Inr l" and "distinct (map fst (rule_lines text))"
  shows "map_of (rules l) body = Some kind \<longleftrightarrow> (body, kind) \<in> set (rule_lines text)"
proof -
  have "distinct (map fst (rev (rule_lines text)))" using assms(2) by (simp flip: rev_map)
  then show ?thesis by (simp add: psl_parse_Inr [OF assms(1)] map_of_eq_Some_iff)
qed

lemma host_labels_Some:
  assumes "host_labels h = Some ls"
  shows "ls = str_split DOT (canonical_host h)" "[] \<notin> set ls" "ls \<noteq> []"
    "\<not> is_ip_addr (canonical_host h)" "\<not> begins_with 0x5B (canonical_host h)"
  using assms by (auto simp: host_labels_def Let_def split: if_splits)

lemma host_labels_cong: "canonical_host h = canonical_host h' \<Longrightarrow> host_labels h = host_labels h'"
  by (simp add: host_labels_def)

lemma str_join_drop: "n < length ls \<Longrightarrow> \<exists>u. str_join b ls = u @ str_join b (drop n ls) \<and> (n = 0 \<and> u = [] \<or> (\<exists>v. u = v @ [b]))"
proof (induction ls arbitrary: n)
  case (Cons l ls)
  then show ?case
  proof (cases n)
    case (Suc m)
    with Cons.prems have ne: "ls \<noteq> []" and "m < length ls" by auto
    with Cons.IH obtain u where "str_join b ls = u @ str_join b (drop m ls)" "m = 0 \<and> u = [] \<or> (\<exists>v. u = v @ [b])"
      by blast
    then have "str_join b (l # ls) = (l @ b # u) @ str_join b (drop m ls)" "\<exists>v. l @ b # u = v @ [b]"
      using ne by (auto simp: str_join_Cons)
    then show ?thesis using Suc by auto
  qed auto
qed simp

lemma registrable_domain_Some:
  assumes "registrable_domain l h = Some d"
  shows "\<exists>n. \<exists>ls. host_labels h = Some ls \<and> n < length ls \<and> d = str_join DOT (drop n ls)"
proof -
  from assms obtain ls k where "host_labels h = Some ls" "below_suffix ls k = Some d"
    by (auto simp: registrable_domain_def bind_eq_Some_conv)
  moreover from this host_labels_Some(3) have "length ls - (k + 1) < length ls" by fastforce
  ultimately show ?thesis by (auto simp: below_suffix_def split: if_splits)
qed

section \<open>The interface of a site resolver\<close>

text \<open>
  The site of a host is a non-empty tail of its canonical form, cut at a label boundary,
  and depends on nothing else of the host.
\<close>

locale site_resolver =
  fixes site :: "bytes \<Rightarrow> bytes option"
  assumes site_tail: "site h = Some d \<Longrightarrow> \<exists>u. canonical_host h = u @ d \<and> (u = [] \<or> ends_with DOT u)"
    and site_nonempty: "site h = Some d \<Longrightarrow> d \<noteq> []"
    and site_cong: "canonical_host h = canonical_host h' \<Longrightarrow> site h = site h'"
begin

lemma site_case: "site (to_ascii_lowercase h) = site h"
  by (rule site_cong) (simp add: canonical_host_def trim_end_matches_lower)

lemma site_bytes:
  assumes "site h = Some d"
  shows "set d \<subseteq> lower_byte ` set h"
proof -
  from site_tail [OF assms] obtain u where u: "canonical_host h = u @ d" by auto
  obtain n where n: "h = trim_end_matches DOT h @ replicate n DOT" using trim_end_matches_part by blast
  have "set d \<subseteq> set (canonical_host h)" using u by simp
  also have "\<dots> \<subseteq> lower_byte ` set h"
    by (subst (2) n) (auto simp: canonical_host_def to_ascii_lowercase_def)
  finally show ?thesis .
qed

lemma site_lowercase:
  assumes "site h = Some d"
  shows "to_ascii_lowercase d = d"
proof -
  from site_tail [OF assms] obtain u where "canonical_host h = u @ d" by auto
  then have "to_ascii_lowercase (u @ d) = u @ d" by (metis canonical_host_def to_ascii_lowercase_simps(5))
  then show ?thesis by (simp add: append_eq_append_conv)
qed

end

interpretation psl: site_resolver "registrable_domain l" for l
proof
  fix h h' d
  assume "canonical_host h = canonical_host h'"
  then show "registrable_domain l h = registrable_domain l h'"
    using host_labels_cong [of h h'] by (simp add: registrable_domain_def)
next
  fix h d
  assume "registrable_domain l h = Some d"
  then obtain n ls where ls: "host_labels h = Some ls" "n < length ls" "d = str_join DOT (drop n ls)"
    using registrable_domain_Some by blast
  note facts = host_labels_Some [OF ls(1)]
  from str_join_drop [OF ls(2), of DOT] obtain u where
    u: "str_join DOT ls = u @ d" "u = [] \<or> (\<exists>v. u = v @ [DOT])" unfolding ls(3) by blast
  then have "canonical_host h = u @ d" by (simp add: facts(1))
  with u(2) show "\<exists>u. canonical_host h = u @ d \<and> (u = [] \<or> ends_with DOT u)" by (metis ends_with_simps(2))
  obtain x xs where x: "drop n ls = x # xs" using ls(2) by (cases "drop n ls") simp_all
  then have "x \<in> set ls" by (metis in_set_dropD list.set_intros(1))
  with facts(2) have "x \<noteq> []" by metis
  then show "d \<noteq> []" unfolding ls(3) x by (cases xs) simp_all
qed

section \<open>The lookup computes the published algorithm\<close>

definition rule_take :: "rule_kind \<Rightarrow> nat \<Rightarrow> nat" where
  "rule_take kind n = (case kind of Exception \<Rightarrow> n - 1 | Wildcard \<Rightarrow> n + 1 | Normal \<Rightarrow> n)"

lemma suffix_scan_None:
  "suffix_scan rs ls = None \<Longrightarrow> suffix t ls \<Longrightarrow> t \<noteq> [] \<Longrightarrow> map_of rs (str_join DOT t) = None"
  by (induction ls) (auto simp: suffix_Cons split: option.splits rule_kind.splits)

lemma suffix_scan_Some:
  assumes "suffix_scan rs ls = Some k"
  shows "\<exists>t kind. suffix t ls \<and> t \<noteq> [] \<and> map_of rs (str_join DOT t) = Some kind \<and> k = rule_take kind (length t)
    \<and> (\<forall>t'. suffix t' ls \<longrightarrow> length t < length t' \<longrightarrow> map_of rs (str_join DOT t') = None)"
  using assms
proof (induction ls)
  case (Cons l ls)
  show ?case
  proof (cases "map_of rs (str_join DOT (l # ls))")
    case None
    with Cons obtain t kind where t: "suffix t ls" "t \<noteq> []" "map_of rs (str_join DOT t) = Some kind"
        "k = rule_take kind (length t)"
        "\<forall>t'. suffix t' ls \<longrightarrow> length t < length t' \<longrightarrow> map_of rs (str_join DOT t') = None"
      by auto
    then have "\<forall>t'. suffix t' (l # ls) \<longrightarrow> length t < length t' \<longrightarrow> map_of rs (str_join DOT t') = None"
      using None by (auto simp: suffix_Cons)
    with t show ?thesis by (auto simp: suffix_Cons)
  next
    case (Some kind)
    then have "k = rule_take kind (length (l # ls))"
      using Cons.prems by (auto simp: rule_take_def split: rule_kind.splits)
    moreover have "suffix t' (l # ls) \<Longrightarrow> \<not> length (l # ls) < length t'" for t'
      by (auto dest: suffix_length_le)
    ultimately show ?thesis using Some by blast
  qed
qed simp

lemma split_suffix:
  "suffix t (str_split DOT h) \<Longrightarrow> t \<noteq> [] \<Longrightarrow> str_split DOT (str_join DOT t) = t"
  by (rule str_split_join) (use set_mono_suffix str_split_pieces in blast)+

lemma suffix_eq_length: "suffix a ls \<Longrightarrow> suffix b ls \<Longrightarrow> length a = length b \<Longrightarrow> a = b"
  by (auto simp: suffix_def append_eq_append_conv)

lemma prevailing_take:
  assumes ls: "ls = str_split DOT h" and final: "exceptions_final rs"
    and t: "suffix t ls" "t \<noteq> []" "(str_join DOT t, kind) \<in> set rs"
    and longest: "\<And>t' kind'. suffix t' ls \<Longrightarrow> length t < length t' \<Longrightarrow> (str_join DOT t', kind') \<notin> set rs"
    and uniq: "\<And>kind'. (str_join DOT t, kind') \<in> set rs \<Longrightarrow> kind' = kind"
    and base: "kind = Wildcard \<Longrightarrow> t \<noteq> ls"
  shows "prevailing rs ls = rule_take kind (length t)"
proof -
  let ?r = "(str_join DOT t, kind)"
  have split_t: "str_split DOT (str_join DOT t) = t" using split_suffix t(1,2) ls by blast
  have lt: "kind = Wildcard \<Longrightarrow> length t < length ls"
    using base t(1) by (metis suffix_eq_length suffix_length_le suffix_order.order_refl le_neq_implies_less)
  have m: "?r \<in> set (filter (rule_matches ls) rs)"
    using t lt split_t by (simp add: rule_matches_def)
  have others: "str_split DOT b = t \<and> k = kind \<or> length (str_split DOT b) < length t"
    if "(b, k) \<in> set rs" "suffix (str_split DOT b) ls" for b k
  proof -
    have join: "str_join DOT (str_split DOT b) = b" by simp
    have "\<not> length t < length (str_split DOT b)" using longest [OF that(2)] that(1) join by metis
    moreover have "length (str_split DOT b) = length t \<Longrightarrow> str_split DOT b = t"
      using that(2) t(1) suffix_eq_length by blast
    ultimately show ?thesis using uniq that(1) join by (metis linorder_neqE_nat)
  qed
  have size: "rule_size r \<le> rule_size ?r" if "r \<in> set (filter (rule_matches ls) rs)" for r
    using others [of "fst r" "snd r"] that split_t by (auto simp: rule_matches_def rule_size_def)
  have maxm: "Max (rule_size ` set (filter (rule_matches ls) rs)) = rule_size ?r"
    using m size by (intro Max_eqI) auto
  show ?thesis
  proof (cases "kind = Exception")
    case True
    then have e: "?r \<in> set (filter (\<lambda>r. snd r = Exception) (filter (rule_matches ls) rs))" using m by simp
    then have "Max (rule_size ` set (filter (\<lambda>r. snd r = Exception) (filter (rule_matches ls) rs))) = rule_size ?r"
      using size by (intro Max_eqI) auto
    then show ?thesis using e True split_t
      by (auto simp: prevailing_def Let_def rule_size_def rule_take_def filter_empty_conv)
  next
    case False
    have "snd r \<noteq> Exception" if r: "r \<in> set (filter (rule_matches ls) rs)" for r
    proof
      assume e: "snd r = Exception"
      have "suffix (str_split DOT (fst r)) t"
        using others [of "fst r" "snd r"] r t(1) suffix_length_suffix [of _ ls t]
        by (cases r) (auto simp: rule_matches_def dest: less_imp_le)
      then have "str_join DOT t = fst r"
        using final e r t(3) split_t unfolding exceptions_final_def by fastforce
      then show False using uniq [of "snd r"] e False r by (cases r) auto
    qed
    then have "filter (\<lambda>r. snd r = Exception) (filter (rule_matches ls) rs) = []"
      by (auto simp: filter_empty_conv)
    moreover have "filter (rule_matches ls) rs \<noteq> []" using m by (metis empty_iff empty_set)
    ultimately have "prevailing rs ls = rule_size ?r" unfolding prevailing_def Let_def maxm by simp
    then show ?thesis using False split_t by (cases kind) (simp_all add: rule_size_def rule_take_def)
  qed
qed

lemma registrable_domain_reference:
  assumes parsed: "psl_parse text = Inr l" and dist: "distinct (map fst (rule_lines text))"
    and final: "exceptions_final (rule_lines text)"
    and base: "(canonical_host h, Wildcard) \<notin> set (rule_lines text)"
  shows "registrable_domain l h = reference_site (rule_lines text) h"
proof (cases "host_labels h")
  case None
  then show ?thesis by (simp add: registrable_domain_def reference_site_def)
next
  case (Some ls)
  note facts = host_labels_Some [OF Some]
  note look = psl_parse_lookup [OF parsed dist]
  have none: "map_of (rules l) b = None \<Longrightarrow> (b, kind) \<notin> set (rule_lines text)" for b kind
    using look [of b kind] by simp
  have "(case suffix_scan (rules l) ls of None \<Rightarrow> 1 | Some k \<Rightarrow> k) = prevailing (rule_lines text) ls"
  proof (cases "suffix_scan (rules l) ls")
    case None
    have "\<not> rule_matches ls r" if "r \<in> set (rule_lines text)" for r
      using suffix_scan_None [OF None, of "str_split DOT (fst r)"] none [of "fst r" "snd r"] that
      by (auto simp: rule_matches_def)
    then have "filter (rule_matches ls) (rule_lines text) = []" by (simp add: filter_empty_conv)
    then show ?thesis using None by (simp add: prevailing_def)
  next
    case (Some k)
    obtain t kind where t: "suffix t ls" "t \<noteq> []" "map_of (rules l) (str_join DOT t) = Some kind"
        "k = rule_take kind (length t)"
        "\<forall>t'. suffix t' ls \<longrightarrow> length t < length t' \<longrightarrow> map_of (rules l) (str_join DOT t') = None"
      using suffix_scan_Some [OF Some] by blast
    have "prevailing (rule_lines text) ls = rule_take kind (length t)"
    proof (rule prevailing_take [OF facts(1) final t(1,2)])
      show "(str_join DOT t, kind) \<in> set (rule_lines text)" using look t(3) by blast
      show "kind' = kind" if "(str_join DOT t, kind') \<in> set (rule_lines text)" for kind'
        using that t(3) look by (metis option.inject)
      show "t \<noteq> ls" if "kind = Wildcard"
        using that base t(3) look facts(1) by auto
    qed (use t(5) none in blast)
    then show ?thesis using Some t(4) by simp
  qed
  then show ?thesis using Some by (simp add: registrable_domain_def reference_site_def)
qed

text \<open>The base of a wildcard rule has no site: the scan meets the rule at the whole host.\<close>

lemma registrable_domain_wildcard_base:
  assumes "psl_parse text = Inr l" and "distinct (map fst (rule_lines text))"
    and "(canonical_host h, Wildcard) \<in> set (rule_lines text)"
  shows "registrable_domain l h = None"
proof (cases "host_labels h")
  case (Some ls)
  note facts = host_labels_Some [OF Some]
  obtain x xs where x: "ls = x # xs" using facts(3) by (cases ls) auto
  have "map_of (rules l) (str_join DOT (x # xs)) = Some Wildcard"
    using psl_parse_lookup [OF assms(1,2)] assms(3) facts(1) x by simp
  then have "suffix_scan (rules l) ls = Some (length ls + 1)" unfolding x by simp
  then show ?thesis using Some by (simp add: registrable_domain_def below_suffix_def)
qed (simp add: registrable_domain_def)

section \<open>Sites of sites\<close>

lemma show_octet_digits: "show_octet w \<noteq> []" "set (show_octet w) \<subseteq> dig ` {..<10}"
proof -
  have n: "unat w < 256" using unsigned_less [of w] by (simp add: nat_less_iff)
  show "show_octet w \<noteq> []" by (simp add: show_octet_def Let_def)
  have "unat w div 100 < 10" "unat w < 100 \<Longrightarrow> unat w div 10 < 10" using n by (simp_all add: div_less_iff_less_mult)
  then show "set (show_octet w) \<subseteq> dig ` {..<10}" by (auto simp: show_octet_def Let_def)
qed

lemma dotted_quad_canonical: "canonical_host (show_ipv4 a b c d) = show_ipv4 a b c d"
proof -
  have "lower_byte (dig k) = dig k \<and> dig k \<noteq> DOT" if "k < 10" for k
    using unat_dig [OF that] that by (auto simp: lower_byte_def word_le_nat_alt)
  then have digits: "\<forall>x \<in> set (show_octet w). lower_byte x = x \<and> x \<noteq> DOT" for w
    using show_octet_digits(2) [of w] by fastforce
  then have low: "to_ascii_lowercase (show_octet w) = show_octet w" for w
    by (simp add: to_ascii_lowercase_def map_idI)
  obtain u x where x: "show_octet d = u @ [x]" using show_octet_digits(1) [of d] by (metis rev_exhaust)
  then have "x \<noteq> DOT" using digits [of d] by simp
  then have "\<not> ends_with DOT (show_ipv4 a b c d)"
    using x by (simp add: show_ipv4_def ends_with_def)
  then show ?thesis
    by (simp add: canonical_host_def trim_end_matches_id show_ipv4_def low lower_byte_def)
qed

lemma dotted_quad_no_site: "registrable_domain l (show_ipv4 a b c d) = None"
  using dotted_quad_is_ip [of a b c d]
  by (simp add: registrable_domain_def host_labels_def dotted_quad_canonical Let_def)

end
