(* ===== verification/Block_Tokens.thy ===== *)
theory Block_Tokens
  imports Block_Glob_Sem Net_Psl
begin

text \<open>
  Index tokens of \<^verbatim>\<open>crates/px-block/src/glob.rs\<close>: the maximal alphanumeric runs of an
  address (\<open>url_tokens\<close>) and the runs of a pattern that are bounded on both sides
  (\<open>index_tokens\<close>).  Every token of a pattern that matches an address is a token of that
  address, which is what lets the matcher look at one bucket per token only.
\<close>

section \<open>Tokens of an address\<close>

function token_runs :: "bytes \<Rightarrow> bytes list" where
  "token_runs [] = []"
| "token_runs (b # bs) =
     (if \<not> is_token_byte b then token_runs bs
      else let run = takeWhile is_token_byte (b # bs)
           in (if MIN_TOKEN_BYTES \<le> length run \<and> length run \<le> MAX_TOKEN_BYTES then [run] else [])
              @ token_runs (dropWhile is_token_byte (b # bs)))"
  by pat_completeness auto
termination
  by (relation "measure length") (auto simp: less_Suc_eq_le length_dropWhile_le)

definition url_tokens :: "bytes \<Rightarrow> bytes list" where
  "url_tokens lower = remdups_adj (sort (token_runs lower))"

section \<open>Tokens of a pattern\<close>

definition token_elem :: "elem \<Rightarrow> bool" where
  "token_elem e = (case e of Lit b \<Rightarrow> is_token_byte b | _ \<Rightarrow> False)"

definition tok_at :: "elem list \<Rightarrow> nat \<Rightarrow> bool" where
  "tok_at es i \<longleftrightarrow> i < length es \<and> token_elem (es ! i)"

definition run_end :: "elem list \<Rightarrow> nat \<Rightarrow> nat" where
  "run_end es i = i + length (takeWhile token_elem (drop i es))"

definition bounds_run :: "elem list \<Rightarrow> nat \<Rightarrow> bool" where
  "bounds_run es i \<longleftrightarrow> i < length es \<and> \<not> is_star (es ! i)"

definition run_bytes :: "elem list \<Rightarrow> bytes" where
  "run_bytes run = concat (map (\<lambda>e. case e of Lit b \<Rightarrow> [lower_byte b] | _ \<Rightarrow> []) run)"

lemma run_end_gt: "tok_at es i \<Longrightarrow> i < run_end es i"
  by (auto simp: tok_at_def run_end_def Cons_nth_drop_Suc [symmetric])

definition add_token :: "pattern \<Rightarrow> nat \<Rightarrow> nat \<Rightarrow> bytes list \<Rightarrow> bytes list" where
  "add_token p i j out =
     (let es = p_elems p; n = length es;
          left_ok = (if i = 0 then p_start p \<noteq> Anywhere else bounds_run es (i - 1));
          right_ok = (if j = n then p_end p else bounds_run es j);
          run = j - i
      in if left_ok \<and> right_ok \<and> MIN_TOKEN_BYTES \<le> run \<and> run \<le> MAX_TOKEN_BYTES then
           (let s = run_bytes (take (j - i) (drop i es))
            in if utf8_valid s \<and> s \<notin> set out then out @ [s] else out)
         else out)"

function index_scan :: "pattern \<Rightarrow> nat \<Rightarrow> bytes list \<Rightarrow> bytes list" where
  "index_scan p i out =
     (if i < length (p_elems p) then
        if \<not> tok_at (p_elems p) i then index_scan p (i + 1) out
        else (let j = run_end (p_elems p) i in index_scan p j (add_token p i j out))
      else out)"
  by pat_completeness auto
termination
  by (relation "measure (\<lambda>(p, i, out). length (p_elems p) - i)") (auto dest: run_end_gt)

declare index_scan.simps [simp del]

definition index_tokens :: "pattern \<Rightarrow> bytes list" where
  "index_tokens p = index_scan p 0 []"

section \<open>Maximal runs are tokens\<close>

lemma token_runs_maximal:
  assumes "t \<noteq> []" "\<forall>b \<in> set t. is_token_byte b" "MIN_TOKEN_BYTES \<le> length t" "length t \<le> MAX_TOKEN_BYTES"
    and "c = [] \<or> \<not> is_token_byte (hd c)"
  shows "a = [] \<or> \<not> is_token_byte (last a) \<Longrightarrow> t \<in> set (token_runs (a @ t @ c))"
proof (induction "length a" arbitrary: a rule: less_induct)
  case less
  have run: "takeWhile is_token_byte (t @ c) = t" using assms(2,5) by (cases c) auto
  show ?case
  proof (cases a)
    case Nil
    obtain b bs where t: "t = b # bs" using assms(1) by (cases t) auto
    then have "takeWhile is_token_byte (b # bs @ c) = t" using run by simp
    then show ?thesis using Nil t assms(2-4) by (simp add: Let_def)
  next
    case (Cons b bs)
    show ?thesis
    proof (cases "is_token_byte b")
      case False
      have "t \<in> set (token_runs (bs @ t @ c))" using less(2) Cons by (intro less(1)) (auto split: if_splits)
      then show ?thesis using Cons False by simp
    next
      case True
      let ?d = "dropWhile is_token_byte a"
      have ex: "\<exists>x \<in> set a. \<not> is_token_byte x" using less(2) Cons last_in_set [of a] by auto
      then obtain x where x: "x \<in> set a" "\<not> is_token_byte x" by blast
      have d: "dropWhile is_token_byte (a @ t @ c) = ?d @ t @ c" using x by (simp add: dropWhile_append1 [of x])
      have "?d \<noteq> []" using x by auto
      moreover have "last ?d = last a" using \<open>?d \<noteq> []\<close> by (metis dropWhile_eq_drop last_drop drop_eq_Nil not_le)
      ultimately have "?d = [] \<or> \<not> is_token_byte (last ?d)" using less(2) by auto
      moreover have "length ?d < length a" using Cons True by (auto simp: less_Suc_eq_le length_dropWhile_le)
      ultimately have "t \<in> set (token_runs (?d @ t @ c))" using less(1) by blast
      then have "t \<in> set (token_runs (dropWhile is_token_byte (a @ t @ c)))" using d by simp
      then show ?thesis using Cons True by (simp add: Let_def)
    qed
  qed
qed

lemma url_tokens_maximal:
  assumes "u = a @ t @ c" "\<forall>b \<in> set t. is_token_byte b" "MIN_TOKEN_BYTES \<le> length t" "length t \<le> MAX_TOKEN_BYTES"
    and "a = [] \<or> \<not> is_token_byte (last a)" "c = [] \<or> \<not> is_token_byte (hd c)"
  shows "t \<in> set (url_tokens u)"
proof -
  have "t \<noteq> []" using assms(3) by (auto simp: MIN_TOKEN_BYTES_def)
  then show ?thesis using token_runs_maximal [OF _ assms(2-4) assms(6,5)] assms(1) by (simp add: url_tokens_def)
qed

lemma token_byte_lower [simp]: "is_token_byte (lower_byte b) \<longleftrightarrow> is_token_byte b"
proof -
  have "unat (b + 0x20) = unat b + 32" if "b \<le> 0x5A" for b :: u8
    using that by (simp add: word_le_nat_alt unat_word_ariths)
  then show ?thesis
    by (auto simp: lower_byte_def is_token_byte_def ascii_alphanumeric_def word_le_nat_alt word_unat_eq_iff)
qed

lemma separator_not_token: "is_separator b \<Longrightarrow> \<not> is_token_byte b"
  by (auto simp: is_separator_def is_token_byte_def ascii_alphanumeric_def word_le_nat_alt word_unat_eq_iff)

section \<open>Tokens of a pattern that matches\<close>

text \<open>A run of token literals of the pattern with its edges pinned.\<close>

definition pinned_run :: "pattern \<Rightarrow> elem list \<Rightarrow> bytes \<Rightarrow> elem list \<Rightarrow> bool" where
  "pinned_run p pre bs post \<longleftrightarrow> p_elems p = pre @ map Lit bs @ post
     \<and> (\<forall>b \<in> set bs. is_token_byte b) \<and> MIN_TOKEN_BYTES \<le> length bs \<and> length bs \<le> MAX_TOKEN_BYTES
     \<and> (if pre = [] then p_start p \<noteq> Anywhere else last pre \<noteq> Star \<and> \<not> token_elem (last pre))
     \<and> (if post = [] then p_end p else hd post \<noteq> Star \<and> \<not> token_elem (hd post))"

lemma token_elems_literal: "\<forall>e \<in> set run. token_elem e \<Longrightarrow> \<exists>bs. run = map Lit bs \<and> (\<forall>b \<in> set bs. is_token_byte b)"
proof (induction run)
  case (Cons e run)
  then obtain bs where "run = map Lit bs" "\<forall>b \<in> set bs. is_token_byte b" by auto
  moreover obtain b where "e = Lit b" "is_token_byte b" using Cons.prems by (cases e) (auto simp: token_elem_def)
  ultimately have "e # run = map Lit (b # bs)" "\<forall>c \<in> set (b # bs). is_token_byte c" by auto
  then show ?case by (intro exI [of _ "b # bs"] conjI)
qed simp

lemma run_bytes_literal [simp]: "run_bytes (map Lit bs) = map lower_byte bs"
  by (induction bs) (auto simp: run_bytes_def)

lemma add_token_pinned:
  assumes i: "tok_at (p_elems p) i" "i = 0 \<or> \<not> tok_at (p_elems p) (i - 1)"
    and t: "t \<in> set (add_token p i (run_end (p_elems p) i) out)" "t \<notin> set out"
  shows "\<exists>pre bs post. pinned_run p pre bs post \<and> t = map lower_byte bs"
proof -
  define es where "es = p_elems p"
  define run where "run = takeWhile token_elem (drop i es)"
  define pre where "pre = take i es"
  define post where "post = dropWhile token_elem (drop i es)"
  have es: "es = pre @ run @ post" by (simp add: pre_def run_def post_def)
  have il: "i < length es" using i(1) by (simp add: tok_at_def es_def)
  then have lp: "length pre = i" by (simp add: pre_def)
  have j: "run_end es i = length (pre @ run)" using lp by (simp add: run_end_def run_def)
  obtain bs where bs: "run = map Lit bs" "\<forall>b \<in> set bs. is_token_byte b"
    using token_elems_literal [of run] set_takeWhileD [of _ token_elem "drop i es"] by (auto simp: run_def)
  have seg: "take (run_end es i - i) (drop i es) = run" using j lp es by simp
  have t': "t = map lower_byte bs" "MIN_TOKEN_BYTES \<le> length bs" "length bs \<le> MAX_TOKEN_BYTES"
      "if i = 0 then p_start p \<noteq> Anywhere else bounds_run es (i - 1)"
      "if run_end es i = length es then p_end p else bounds_run es (run_end es i)"
    using t j lp seg bs(1) by (auto simp: add_token_def Let_def es_def [symmetric] split: if_splits)
  have "if pre = [] then p_start p \<noteq> Anywhere else last pre \<noteq> Star \<and> \<not> token_elem (last pre)"
  proof (cases "i = 0")
    case False
    then have "pre \<noteq> []" using lp by auto
    then have "last pre = es ! (i - 1)" using il lp by (simp add: last_conv_nth) (simp add: pre_def)
    then show ?thesis using False t'(4) i(2) lp il by (auto simp: bounds_run_def is_star_def tok_at_def es_def)
  qed (use t'(4) lp in auto)
  moreover have "if post = [] then p_end p else hd post \<noteq> Star \<and> \<not> token_elem (hd post)"
  proof (cases "post = []")
    case True
    then show ?thesis using t'(5) j es by simp
  next
    case False
    then have "\<not> token_elem (hd post)" unfolding post_def by (rule hd_dropWhile)
    moreover have "es ! run_end es i = hd post" using False j es by (simp add: nth_append hd_conv_nth)
    moreover have "run_end es i \<noteq> length es" using False j es by simp
    ultimately show ?thesis using False t'(5) by (simp add: bounds_run_def is_star_def)
  qed
  ultimately have "pinned_run p pre bs post" using t'(2,3) bs es by (simp add: pinned_run_def es_def)
  then show ?thesis using t'(1) by blast
qed

lemma run_end_stops: "\<not> tok_at es (run_end es i)"
proof
  assume a: "tok_at es (run_end es i)"
  let ?d = "drop i es"
  from a have "length (takeWhile token_elem ?d) < length ?d" by (auto simp: tok_at_def run_end_def)
  then have "\<not> token_elem (?d ! length (takeWhile token_elem ?d))" by (rule nth_length_takeWhile)
  then show False using a by (auto simp: tok_at_def run_end_def)
qed

lemma index_scan_pinned:
  "i = 0 \<or> \<not> tok_at (p_elems p) (i - 1) \<or> \<not> tok_at (p_elems p) i \<Longrightarrow> t \<in> set (index_scan p i out) \<Longrightarrow>
     t \<in> set out \<or> (\<exists>pre bs post. pinned_run p pre bs post \<and> t = map lower_byte bs)"
proof (induction p i out rule: index_scan.induct)
  case (1 p i out)
  consider (stop) "\<not> i < length (p_elems p)" | (skip) "i < length (p_elems p)" "\<not> tok_at (p_elems p) i"
    | (run) "i < length (p_elems p)" "tok_at (p_elems p) i" by blast
  then show ?case
  proof cases
    case stop
    then show ?thesis using 1(4) by (simp add: index_scan.simps [of p i])
  next
    case skip
    then show ?thesis using 1(1) [OF skip] 1(4) by (simp add: index_scan.simps [of p i])
  next
    case run
    let ?j = "run_end (p_elems p) i"
    have "t \<in> set (index_scan p ?j (add_token p i ?j out))"
      using 1(4) run by (simp add: index_scan.simps [of p i] Let_def)
    then have "t \<in> set (add_token p i ?j out) \<or> (\<exists>pre bs post. pinned_run p pre bs post \<and> t = map lower_byte bs)"
      using 1(2) [OF run(1) _ refl] run(2) run_end_stops by blast
    then show ?thesis using add_token_pinned [OF run(2)] 1(3) run(2) by blast
  qed
qed

lemma index_tokens_pinned:
  "t \<in> set (index_tokens p) \<Longrightarrow> \<exists>pre bs post. pinned_run p pre bs post \<and> t = map lower_byte bs"
  using index_scan_pinned [of 0 p t "[]"] by (simp add: index_tokens_def)

lemma glob_literals:
  "m \<le> length tx \<Longrightarrow> glob (map Lit bs) tx m m' \<Longrightarrow> m' = m + length bs \<and> m' \<le> length tx \<and> take (length bs) (drop m tx) = bs"
proof (induction bs arbitrary: m)
  case (Cons b bs)
  then have b: "m < length tx" "tx ! m = b" "glob (map Lit bs) tx (m + 1) m'" by auto
  then show ?case using Cons.IH [of "m + 1"] by (simp add: Cons_nth_drop_Suc [symmetric])
qed auto

text \<open>Where the address can be cut so that the part after it starts a run of its own.\<close>

definition edge :: "bytes \<Rightarrow> nat \<Rightarrow> bool" where
  "edge tx m \<longleftrightarrow> m = 0 \<or> \<not> is_token_byte (tx ! (m - 1))"

lemma edge_after:
  assumes "glob pre tx p m" "p \<le> length tx" "m < length tx" "pre \<noteq> []" "last pre \<noteq> Star" "\<not> token_elem (last pre)"
  shows "edge tx m"
proof -
  obtain pre' e where pe: "pre = pre' @ [e]" using assms(4) by (cases pre rule: rev_cases) auto
  then obtain k where k: "glob [e] tx k m" using assms(1,2) by (auto simp: glob_append)
  show ?thesis
  proof (cases e)
    case (Lit c)
    then show ?thesis using k assms(6) pe by (auto simp: edge_def token_elem_def)
  next
    case Sep
    then show ?thesis using k assms(3) by (auto simp: edge_def separator_not_token)
  qed (use assms(5) pe in simp)
qed

lemma edge_before:
  assumes "glob post tx m q" "m < length tx" "post \<noteq> []" "hd post \<noteq> Star" "\<not> token_elem (hd post)"
  shows "\<not> is_token_byte (tx ! m)"
proof -
  obtain e post' where pe: "post = e # post'" using assms(3) by (cases post) auto
  then show ?thesis using assms by (cases e) (auto simp: token_elem_def separator_not_token)
qed

definition host_edges :: "bytes \<Rightarrow> (nat \<times> nat) option \<Rightarrow> bool" where
  "host_edges tx hst \<longleftrightarrow> host_range tx hst \<and> (case hst of None \<Rightarrow> True | Some h \<Rightarrow> edge tx (fst h))"

lemma may_start_edge:
  assumes "host_edges tx hst" "start \<noteq> Anywhere" "may_start start tx hst p"
  shows "edge tx p"
proof -
  have "\<not> is_token_byte DOT" by (simp add: is_token_byte_def ascii_alphanumeric_def word_le_nat_alt)
  then show ?thesis using assms
    by (cases start) (auto simp: may_start_def host_edges_def edge_def label_start_def split: option.splits)
qed

lemma pinned_run_occurs:
  assumes "pinned_run p pre bs post" "host_edges tx hst" "pattern_matches p tx hst"
  shows "\<exists>m. tx = take m tx @ bs @ drop (m + length bs) tx \<and> m + length bs \<le> length tx \<and> edge tx m
    \<and> (m + length bs = length tx \<or> \<not> is_token_byte (tx ! (m + length bs)))"
proof -
  note pr = assms(1) [unfolded pinned_run_def]
  have hr: "host_range tx hst" using assms(2) by (simp add: host_edges_def)
  obtain s q where s: "s \<le> length tx" "may_start (p_start p) tx hst s" "glob (pre @ map Lit bs @ post) tx s q"
      "p_end p \<longrightarrow> q = length tx"
    using assms(3) pr unfolding scan_decides [OF hr] glob_matches_iff by auto
  then obtain m m' where m: "glob pre tx s m" "glob (map Lit bs) tx m m'" "glob post tx m' q"
    using glob_bound by (fastforce simp: glob_append)
  have ml: "m \<le> length tx" by (rule glob_bound [OF m(1) s(1)])
  note lit = glob_literals [OF ml m(2)]
  have "bs \<noteq> []" using pr by (auto simp: MIN_TOKEN_BYTES_def)
  then have lt: "m < length tx" using lit by (cases bs) auto
  have "edge tx m"
  proof (cases "pre = []")
    case True
    then show ?thesis using m(1) may_start_edge [OF assms(2) _ s(2)] pr by simp
  next
    case False
    then show ?thesis using edge_after [OF m(1) s(1) lt] pr by simp
  qed
  moreover have "m + length bs = length tx \<or> \<not> is_token_byte (tx ! (m + length bs))"
  proof (cases "post = []")
    case True
    then show ?thesis using m(3) s(4) pr lit by simp
  next
    case False
    then show ?thesis using edge_before [OF m(3)] pr lit by (cases "m' < length tx") auto
  qed
  moreover have "take m tx @ bs @ drop (m + length bs) tx = tx"
    using lit by (metis append_take_drop_id drop_drop add.commute)
  ultimately show ?thesis using lit by metis
qed

theorem index_tokens_occur:
  assumes t: "t \<in> set (index_tokens p)" and "host_edges tx hst" "pattern_matches p tx hst"
  shows "t \<in> set (url_tokens (map lower_byte tx))"
proof -
  obtain pre bs post where p: "pinned_run p pre bs post" "t = map lower_byte bs" using index_tokens_pinned [OF t] by blast
  from pinned_run_occurs [OF p(1) assms(2,3)] obtain m where m: "tx = take m tx @ bs @ drop (m + length bs) tx"
      "m + length bs \<le> length tx" "edge tx m" "m + length bs = length tx \<or> \<not> is_token_byte (tx ! (m + length bs))" by blast
  let ?low = "map lower_byte"
  show ?thesis
  proof (rule url_tokens_maximal)
    show "?low tx = ?low (take m tx) @ t @ ?low (drop (m + length bs) tx)" using p(2) m(1) by (metis map_append)
    show "\<forall>b \<in> set t. is_token_byte b" "MIN_TOKEN_BYTES \<le> length t" "length t \<le> MAX_TOKEN_BYTES"
      using p by (simp_all add: pinned_run_def)
    show "?low (take m tx) = [] \<or> \<not> is_token_byte (last (?low (take m tx)))"
    proof (cases "m = 0")
      case False
      then have "take m tx \<noteq> []" using m(2) p(1) by (auto simp: pinned_run_def MIN_TOKEN_BYTES_def)
      then have "last (?low (take m tx)) = lower_byte (tx ! (m - 1))" using m(2) by (simp add: last_map last_conv_nth min_absorb2)
      then show ?thesis using m(3) False by (simp add: edge_def)
    qed simp
    show "?low (drop (m + length bs) tx) = [] \<or> \<not> is_token_byte (hd (?low (drop (m + length bs) tx)))"
      using m(2,4) by (cases "m + length bs = length tx") (auto simp: hd_map hd_drop_conv_nth)
  qed
qed

section \<open>The contract of the index\<close>

text \<open>
  What the matcher relies on: a rule that selects a text has only tokens that the text has.
  Then a rule filed under any one of its tokens, or kept aside, is found by looking up the
  tokens of the text.
\<close>

locale token_index =
  fixes rule_tokens :: "'r \<Rightarrow> 'k list"
    and text_tokens :: "'t \<Rightarrow> 'k list"
    and selects :: "'r \<Rightarrow> 't \<Rightarrow> bool"
  assumes token_occurs: "selects r t \<Longrightarrow> k \<in> set (rule_tokens r) \<Longrightarrow> k \<in> set (text_tokens t)"
begin

lemma looked_up:
  assumes "i \<in> set aside \<or> (\<exists>k ids. k \<in> set (rule_tokens r) \<and> map_of index k = Some ids \<and> i \<in> set ids)" "selects r t"
  shows "i \<in> set (aside @ concat (map (\<lambda>k. case map_of index k of Some ids \<Rightarrow> ids | None \<Rightarrow> []) (text_tokens t)))"
  using assms token_occurs by force

end

end
