(* ===== verification/Block_Filter.thy ===== *)
theory Block_Filter
  imports Block_Tokens
begin

unbundle bit_operations_syntax

text \<open>
  Filter lists, \<^verbatim>\<open>crates/px-block/src/filter.rs\<close>: the network-filter subset of the Adblock
  syntax.  Lines are classified, network filters are parsed option by option and rejected
  whole when any part is not implemented, and every line is counted once.
\<close>

definition MAX_LIST_BYTES :: nat where "MAX_LIST_BYTES = 16 * 1024 * 1024"
definition MAX_LINE_BYTES :: nat where "MAX_LINE_BYTES = 4096"
definition MAX_RULES_PER_LIST :: nat where "MAX_RULES_PER_LIST = 500000"
definition MAX_DOMAINS_PER_RULE :: nat where "MAX_DOMAINS_PER_RULE = 128"
definition MAX_DOMAIN_BYTES :: nat where "MAX_DOMAIN_BYTES = 253"

section \<open>Resource types\<close>

datatype resource_type =
  TScript | TImage | TStylesheet | TXmlHttpRequest | TSubdocument | TPing | TMedia | TFont | TOther | TDocument

primrec type_index :: "resource_type \<Rightarrow> nat" where
  "type_index TScript = 0"
| "type_index TImage = 1"
| "type_index TStylesheet = 2"
| "type_index TXmlHttpRequest = 3"
| "type_index TSubdocument = 4"
| "type_index TPing = 5"
| "type_index TMedia = 6"
| "type_index TFont = 7"
| "type_index TOther = 8"
| "type_index TDocument = 9"

definition type_bit :: "resource_type \<Rightarrow> u16" where
  "type_bit t = push_bit (type_index t) 1"

definition type_from_option :: "bytes \<Rightarrow> resource_type option" where
  "type_from_option name =
     map_of [(lit ''script'', TScript), (lit ''image'', TImage), (lit ''stylesheet'', TStylesheet), (lit ''css'', TStylesheet),
       (lit ''xmlhttprequest'', TXmlHttpRequest), (lit ''xhr'', TXmlHttpRequest), (lit ''subdocument'', TSubdocument),
       (lit ''frame'', TSubdocument), (lit ''ping'', TPing), (lit ''media'', TMedia), (lit ''font'', TFont), (lit ''other'', TOther)] name"

definition DEFAULT_TYPES :: u16 where
  "DEFAULT_TYPES = type_bit TScript OR type_bit TImage OR type_bit TStylesheet OR type_bit TXmlHttpRequest
     OR type_bit TSubdocument OR type_bit TPing OR type_bit TMedia OR type_bit TFont OR type_bit TOther"

definition mask_contains :: "u16 \<Rightarrow> resource_type \<Rightarrow> bool" where
  "mask_contains m t \<longleftrightarrow> m AND type_bit t \<noteq> 0"

section \<open>Domain constraints\<close>

record domain_constraint =
  dc_include :: "bytes list"
  dc_exclude :: "bytes list"

definition host_under :: "bytes \<Rightarrow> bytes \<Rightarrow> bool" where
  "host_under h d \<longleftrightarrow> h = d \<or> (case strip_suffix d h of Some p \<Rightarrow> ends_with DOT p | None \<Rightarrow> False)"

fun best_include :: "bytes \<Rightarrow> bytes list \<Rightarrow> (nat \<times> bool) option \<Rightarrow> (nat \<times> bool) option" where
  "best_include h [] best = best"
| "best_include h (d # ds) best =
     best_include h ds
       (if host_under h d \<and> (case best of None \<Rightarrow> True | Some (l, _) \<Rightarrow> length d > l) then Some (length d, False) else best)"

fun best_exclude :: "bytes \<Rightarrow> bytes list \<Rightarrow> (nat \<times> bool) option \<Rightarrow> (nat \<times> bool) option" where
  "best_exclude h [] best = best"
| "best_exclude h (d # ds) best =
     best_exclude h ds
       (if host_under h d \<and> (case best of None \<Rightarrow> True | Some (l, _) \<Rightarrow> length d \<ge> l) then Some (length d, True) else best)"

definition dc_allows :: "domain_constraint \<Rightarrow> bytes option \<Rightarrow> bool" where
  "dc_allows c hst =
     (let h = (case hst of Some h \<Rightarrow> h | None \<Rightarrow> [])
      in case best_exclude h (dc_exclude c) (best_include h (dc_include c) None) of
           Some (_, excluded) \<Rightarrow> \<not> excluded
         | None \<Rightarrow> dc_include c = [])"

definition dc_is_empty :: "domain_constraint \<Rightarrow> bool" where
  "dc_is_empty c \<longleftrightarrow> dc_include c = [] \<and> dc_exclude c = []"

section \<open>Rules\<close>

record rule =
  r_exception :: bool
  r_important :: bool
  r_match_case :: bool
  r_pattern :: pattern
  r_types :: u16
  r_third_party :: "bool option"
  r_domains :: domain_constraint
  r_line :: nat
  r_text :: bytes

datatype reject_reason =
  RegexFilter | UnsupportedOption | LineTooLong | PatternTooLong | InvalidCharacters | MatchAll | ConflictingOptions
  | ImportantException | TooManyDomains | BadDomain | OverRuleCap

primrec reason_index :: "reject_reason \<Rightarrow> nat" where
  "reason_index RegexFilter = 0"
| "reason_index UnsupportedOption = 1"
| "reason_index LineTooLong = 2"
| "reason_index PatternTooLong = 3"
| "reason_index InvalidCharacters = 4"
| "reason_index MatchAll = 5"
| "reason_index ConflictingOptions = 6"
| "reason_index ImportantException = 7"
| "reason_index TooManyDomains = 8"
| "reason_index BadDomain = 9"
| "reason_index OverRuleCap = 10"

lemma reason_index_inject [simp]: "reason_index a = reason_index b \<longleftrightarrow> a = b"
  by (cases a; cases b) simp_all

instantiation reject_reason :: linorder
begin

definition less_eq_reject_reason :: "reject_reason \<Rightarrow> reject_reason \<Rightarrow> bool" where
  "less_eq_reject_reason a b \<longleftrightarrow> reason_index a \<le> reason_index b"

definition less_reject_reason :: "reject_reason \<Rightarrow> reject_reason \<Rightarrow> bool" where
  "less_reject_reason a b \<longleftrightarrow> reason_index a < reason_index b"

instance
  by standard (auto simp: less_eq_reject_reason_def less_reject_reason_def)

end

record opts =
  o_important :: bool
  o_match_case :: bool
  o_third_party :: "bool option"
  o_pos :: u16
  o_neg :: u16
  o_domains :: domain_constraint
  o_saw_domain :: bool

definition opts_new :: opts where
  "opts_new = \<lparr>o_important = False, o_match_case = False, o_third_party = None, o_pos = 0, o_neg = 0,
     o_domains = \<lparr>dc_include = [], dc_exclude = []\<rparr>, o_saw_domain = False\<rparr>"

definition valid_domain :: "bytes \<Rightarrow> bool" where
  "valid_domain d \<longleftrightarrow> d \<noteq> [] \<and> length d \<le> MAX_DOMAIN_BYTES \<and> \<not> begins_with DOT d \<and> \<not> ends_with DOT d
     \<and> \<not> contains_str [DOT, DOT] d \<and> list_all (\<lambda>b. ascii_alphanumeric b \<or> b = DOT \<or> b = 0x2D \<or> b = 0x5F) d"

fun parse_domains :: "domain_constraint \<Rightarrow> bytes list \<Rightarrow> reject_reason + domain_constraint" where
  "parse_domains c [] = Inr c"
| "parse_domains c (entry # es) =
     (let (ex, d) = (case strip_prefix [0x7E] entry of Some r \<Rightarrow> (True, r) | None \<Rightarrow> (False, entry))
      in if 0x2A \<in> set d \<or> SLASH \<in> set d then Inl UnsupportedOption
         else let d = to_ascii_lowercase d
              in if \<not> valid_domain d then Inl BadDomain
                 else let c = (if ex then c\<lparr>dc_exclude := dc_exclude c @ [d]\<rparr> else c\<lparr>dc_include := dc_include c @ [d]\<rparr>)
                      in if length (dc_include c) + length (dc_exclude c) > MAX_DOMAINS_PER_RULE then Inl TooManyDomains
                         else parse_domains c es)"

definition sort_domains :: "domain_constraint \<Rightarrow> domain_constraint" where
  "sort_domains c = \<lparr>dc_include = remdups_adj (sort (dc_include c)), dc_exclude = remdups_adj (sort (dc_exclude c))\<rparr>"

definition parse_option :: "opts \<Rightarrow> bytes \<Rightarrow> reject_reason + opts" where
  "parse_option o' full =
     (if full = [] then Inr o'
      else
        let (neg, opt) = (case strip_prefix [0x7E] full of Some r \<Rightarrow> (True, r) | None \<Rightarrow> (False, full));
            (name, value) = (case split_once EQUALS opt of Some (n, v) \<Rightarrow> (n, Some v) | None \<Rightarrow> (opt, None));
            name = to_ascii_lowercase name
        in case value of
             None \<Rightarrow>
               if name \<in> set [lit ''third-party'', lit ''3p'', lit ''first-party'', lit ''1p''] then
                 (let want = (if name = lit ''first-party'' \<or> name = lit ''1p'' then neg else \<not> neg)
                  in if o_third_party o' = Some (\<not> want) then Inl ConflictingOptions
                     else Inr (o'\<lparr>o_third_party := Some want\<rparr>))
               else if name = lit ''important'' \<and> \<not> neg then Inr (o'\<lparr>o_important := True\<rparr>)
               else if name = lit ''match-case'' \<and> \<not> neg then Inr (o'\<lparr>o_match_case := True\<rparr>)
               else (case type_from_option name of
                   Some t \<Rightarrow> Inr (if neg then o'\<lparr>o_neg := o_neg o' OR type_bit t\<rparr> else o'\<lparr>o_pos := o_pos o' OR type_bit t\<rparr>)
                 | None \<Rightarrow> Inl UnsupportedOption)
           | Some v \<Rightarrow>
               if name = lit ''domain'' \<and> \<not> neg then
                 (if o_saw_domain o' then Inl ConflictingOptions
                  else case parse_domains (o_domains o') (str_split 0x7C v) of
                         Inl e \<Rightarrow> Inl e
                       | Inr c \<Rightarrow> Inr (o'\<lparr>o_saw_domain := True, o_domains := sort_domains c\<rparr>))
               else Inl UnsupportedOption)"

fun parse_options :: "opts \<Rightarrow> bytes list \<Rightarrow> reject_reason + opts" where
  "parse_options o' [] = Inr o'"
| "parse_options o' (opt # os) = (case parse_option o' opt of Inl e \<Rightarrow> Inl e | Inr o' \<Rightarrow> parse_options o' os)"

definition is_regex_filter :: "bytes \<Rightarrow> bool" where
  "is_regex_filter body \<longleftrightarrow> begins_with SLASH body
     \<and> (case rfind_byte SLASH body of
          Some lst \<Rightarrow> lst > 0 \<and> (let rest = drop (lst + 1) body in rest = [] \<or> begins_with 0x24 rest)
        | None \<Rightarrow> False)"

definition finish_rule :: "bool \<Rightarrow> opts \<Rightarrow> bytes \<Rightarrow> bytes \<Rightarrow> nat \<Rightarrow> reject_reason + rule" where
  "finish_rule exception o' pattern_text line lineno =
     (if exception \<and> o_important o' then Inl ImportantException
      else
        let base = (if o_pos o' = 0 then DEFAULT_TYPES else o_pos o');
            types = base AND NOT (o_neg o')
        in if types = 0 then Inl ConflictingOptions
           else
             let constrained = (o_pos o' \<noteq> 0 \<or> o_neg o' \<noteq> 0 \<or> o_third_party o' \<noteq> None \<or> \<not> dc_is_empty (o_domains o'))
             in case from_text pattern_text (o_match_case o') of
                  Inl PatternIsTooLong \<Rightarrow> Inl PatternTooLong
                | Inl InvalidCharacter \<Rightarrow> Inl InvalidCharacters
                | Inr p \<Rightarrow>
                    if \<not> has_literal p \<and> \<not> constrained then Inl MatchAll
                    else Inr \<lparr>r_exception = exception, r_important = o_important o', r_match_case = o_match_case o',
                              r_pattern = p, r_types = types, r_third_party = o_third_party o',
                              r_domains = o_domains o', r_line = lineno, r_text = line\<rparr>)"

definition parse_network_filter :: "bytes \<Rightarrow> nat \<Rightarrow> reject_reason + rule" where
  "parse_network_filter line lineno =
     (let (exception, body) = (case strip_prefix [0x40, 0x40] line of Some rest \<Rightarrow> (True, rest) | None \<Rightarrow> (False, line))
      in if is_regex_filter body then Inl RegexFilter
         else
           let (pattern_text, options) =
             (case rfind_byte 0x24 body of Some i \<Rightarrow> (take i body, drop (i + 1) body) | None \<Rightarrow> (body, []))
           in case parse_options opts_new (str_split 0x2C options) of
                Inl e \<Rightarrow> Inl e
              | Inr o' \<Rightarrow> finish_rule exception o' pattern_text line lineno)"

section \<open>Lines\<close>

datatype line_class = Blank | Comment | Header | Cosmetic bool | Network

definition is_domain_list_char :: "u8 \<Rightarrow> bool" where
  "is_domain_list_char c \<longleftrightarrow> ascii_alphanumeric c \<or> c \<in> set (lit ''.-_,~*:[]'')"

definition cosmetic_markers :: "bytes list" where
  "cosmetic_markers = [lit ''#@$#'', lit ''#@?#'', lit ''#@%#'', lit ''##'', lit ''#@#'', lit ''#?#'', lit ''#$#'', lit ''#%#'']"

fun marker_class :: "bytes list \<Rightarrow> bytes \<Rightarrow> line_class option" where
  "marker_class [] rest = None"
| "marker_class (m # ms) rest =
     (case strip_prefix m rest of
        Some body \<Rightarrow> Some (Cosmetic (strip_prefix (lit ''+js('') body \<noteq> None \<or> strip_suffix (lit ''%#'') m \<noteq> None))
      | None \<Rightarrow> marker_class ms rest)"

definition cosmetic :: "bytes \<Rightarrow> line_class option" where
  "cosmetic line =
     (case (case find_byte 0x23 line of
              Some i \<Rightarrow> if list_all is_domain_list_char (take i line) then marker_class cosmetic_markers (drop i line) else None
            | None \<Rightarrow> None) of
        Some c \<Rightarrow> Some c
      | None \<Rightarrow>
          (case find_byte 0x24 line of
             Some i \<Rightarrow>
               if list_all is_domain_list_char (take i line)
                  \<and> (strip_prefix (lit ''$$'') (drop i line) \<noteq> None \<or> strip_prefix (lit ''$@$'') (drop i line) \<noteq> None)
               then Some (Cosmetic False) else None
           | None \<Rightarrow> None))"

definition classify :: "bytes \<Rightarrow> line_class" where
  "classify line =
     (if line = [] then Blank
      else if begins_with 0x21 line then Comment
      else if begins_with 0x5B line \<and> ends_with 0x5D line then Header
      else case cosmetic line of
             Some c \<Rightarrow> c
           | None \<Rightarrow>
               if line = [0x23] \<or> strip_prefix [0x23, 0x20] line \<noteq> None \<or> strip_prefix [0x23, 0x09] line \<noteq> None then Comment
               else Network)"

record parse_stats =
  st_lines :: nat
  st_blank :: nat
  st_comments :: nat
  st_headers :: nat
  st_cosmetic_skipped :: nat
  st_scriptlet_skipped :: nat
  st_accepted :: nat
  st_exceptions :: nat
  st_rejected :: "(reject_reason, nat) btree"
  st_truncated :: bool

definition stats_new :: parse_stats where
  "stats_new = \<lparr>st_lines = 0, st_blank = 0, st_comments = 0, st_headers = 0, st_cosmetic_skipped = 0,
     st_scriptlet_skipped = 0, st_accepted = 0, st_exceptions = 0, st_rejected = [], st_truncated = False\<rparr>"

definition rejected_for :: "parse_stats \<Rightarrow> reject_reason \<Rightarrow> nat" where
  "rejected_for s r = (case map_of (st_rejected s) r of Some n \<Rightarrow> n | None \<Rightarrow> 0)"

definition rejected_total :: "parse_stats \<Rightarrow> nat" where
  "rejected_total s = sum_list (map snd (st_rejected s))"

definition reject :: "reject_reason \<Rightarrow> parse_stats \<Rightarrow> parse_stats" where
  "reject r s = s\<lparr>st_rejected := bt_insert r (rejected_for s r + 1) (st_rejected s)\<rparr>"

record parsed_list =
  pl_rules :: "rule list"
  pl_stats :: parse_stats

definition network_line :: "bytes \<Rightarrow> nat \<Rightarrow> parsed_list \<Rightarrow> parsed_list" where
  "network_line line lineno l =
     (let s = pl_stats l
      in if length (pl_rules l) \<ge> MAX_RULES_PER_LIST
         then l\<lparr>pl_stats := reject OverRuleCap (s\<lparr>st_truncated := True\<rparr>)\<rparr>
         else case parse_network_filter line lineno of
                Inr r \<Rightarrow> \<lparr>pl_rules = pl_rules l @ [r],
                          pl_stats = s\<lparr>st_accepted := st_accepted s + 1,
                                       st_exceptions := st_exceptions s + (if r_exception r then 1 else 0)\<rparr>\<rparr>
              | Inl e \<Rightarrow> l\<lparr>pl_stats := reject e s\<rparr>)"

definition parse_line :: "nat \<Rightarrow> bytes \<Rightarrow> parsed_list \<Rightarrow> parsed_list" where
  "parse_line idx raw l =
     (let lineno = min (idx + 1) (2 ^ 32 - 1);
          l = l\<lparr>pl_stats := (pl_stats l)\<lparr>st_lines := st_lines (pl_stats l) + 1\<rparr>\<rparr>;
          s = pl_stats l
      in if length raw > MAX_LINE_BYTES then l\<lparr>pl_stats := reject LineTooLong s\<rparr>
         else let line = trim raw
              in case classify line of
                   Blank \<Rightarrow> l\<lparr>pl_stats := s\<lparr>st_blank := st_blank s + 1\<rparr>\<rparr>
                 | Comment \<Rightarrow> l\<lparr>pl_stats := s\<lparr>st_comments := st_comments s + 1\<rparr>\<rparr>
                 | Header \<Rightarrow> l\<lparr>pl_stats := s\<lparr>st_headers := st_headers s + 1\<rparr>\<rparr>
                 | Cosmetic scriptlet \<Rightarrow>
                     l\<lparr>pl_stats := s\<lparr>st_cosmetic_skipped := st_cosmetic_skipped s + 1,
                       st_scriptlet_skipped := st_scriptlet_skipped s + (if scriptlet then 1 else 0)\<rparr>\<rparr>
                 | Network \<Rightarrow> network_line line lineno l)"

fun parse_lines :: "nat \<Rightarrow> bytes list \<Rightarrow> parsed_list \<Rightarrow> parsed_list" where
  "parse_lines idx [] l = l"
| "parse_lines idx (raw # raws) l = parse_lines (idx + 1) raws (parse_line idx raw l)"

text \<open>The last character boundary at or before a position.\<close>

fun char_cut :: "bytes \<Rightarrow> nat \<Rightarrow> nat" where
  "char_cut s 0 = 0"
| "char_cut s (Suc n) = (if Suc n < length s \<and> utf8_cont (s ! Suc n) then char_cut s n else Suc n)"

definition cut_list :: "bytes \<Rightarrow> bytes \<times> bool" where
  "cut_list s =
     (if length s > MAX_LIST_BYTES then
        (let head = take (char_cut s MAX_LIST_BYTES) s;
             fin = (case rfind_byte 0x0A head of Some i \<Rightarrow> i + 1 | None \<Rightarrow> 0)
         in (take fin head, True))
      else (s, False))"

definition parse_list :: "bytes \<Rightarrow> parsed_list" where
  "parse_list input =
     (let s = (case strip_prefix [0xEF, 0xBB, 0xBF] input of Some r \<Rightarrow> r | None \<Rightarrow> input);
          (s, cut) = cut_list s
      in parse_lines 0 (str_split 0x0A s) \<lparr>pl_rules = [], pl_stats = stats_new\<lparr>st_truncated := cut\<rparr>\<rparr>)"

definition parse_list_bytes :: "bytes \<Rightarrow> parsed_list" where
  "parse_list_bytes input =
     (let cut = length input > MAX_LIST_BYTES;
          l = parse_list (utf8_lossy (take MAX_LIST_BYTES input))
      in l\<lparr>pl_stats := (pl_stats l)\<lparr>st_truncated := st_truncated (pl_stats l) \<or> cut\<rparr>\<rparr>)"

end
