(* ===== verification/Block_Filter_Laws.thy ===== *)
theory Block_Filter_Laws
  imports Block_Filter
begin

unbundle bit_operations_syntax

text \<open>
  What parsing a filter list guarantees: every line is counted exactly once, the caps hold,
  and every accepted rule is well-formed (\<open>rule_ok\<close>); and what a domain constraint means.
\<close>

section \<open>Type masks\<close>

lemma type_index_less: "type_index t < 16"
  by (cases t) simp_all

lemma type_index_inject [simp]: "type_index s = type_index t \<longleftrightarrow> s = t"
  by (cases s; cases t) simp_all

lemma bit_type_bit: "n < 16 \<Longrightarrow> bit (type_bit t) n \<longleftrightarrow> n = type_index t"
  using type_index_less [of t] by (auto simp: type_bit_def bit_exp_iff)

lemma mask_contains_bit: "mask_contains m t \<longleftrightarrow> bit m (type_index t)"
proof -
  have "bit (m AND type_bit t) n \<longleftrightarrow> n = type_index t \<and> bit m n" for n
    using bit_type_bit [of n t] type_index_less [of t] bit_imp_le_length [of "m AND type_bit t" n]
    by (cases "n < 16") (auto simp: bit_and_iff)
  then show ?thesis unfolding mask_contains_def bit_eq_iff [of _ "0::u16"]
    using type_index_less [of t] by (auto dest: bit_imp_possible_bit)
qed

lemma default_types_document [simp]: "\<not> bit DEFAULT_TYPES 9"
  by (simp add: DEFAULT_TYPES_def bit_or_iff bit_type_bit)

lemma type_from_option_document: "type_from_option name \<noteq> Some TDocument"
  by (auto simp: type_from_option_def split: if_splits)

section \<open>Well-formed rules\<close>

definition domains_ok :: "bytes list \<Rightarrow> bool" where
  "domains_ok ds \<longleftrightarrow> sorted_wrt (<) ds \<and> (\<forall>d \<in> set ds. valid_domain d)"

definition rule_ok :: "rule \<Rightarrow> bool" where
  "rule_ok r \<longleftrightarrow> \<not> (r_exception r \<and> r_important r)
     \<and> r_types r \<noteq> 0 \<and> \<not> mask_contains (r_types r) TDocument
     \<and> length (p_elems (r_pattern r)) \<le> MAX_PATTERN_BYTES
     \<and> domains_ok (dc_include (r_domains r)) \<and> domains_ok (dc_exclude (r_domains r))
     \<and> length (dc_include (r_domains r)) + length (dc_exclude (r_domains r)) \<le> MAX_DOMAINS_PER_RULE"

lemma collapse_stars_length: "length (collapse_stars out es) \<le> length out + length es"
  by (induction out es rule: collapse_stars.induct) auto

lemma pattern_new_length: "length (p_elems (pattern_new es start fin)) \<le> length es"
proof -
  have "length (collapse_stars [] es) \<le> length es" using collapse_stars_length [of "[]" es] by simp
  then show ?thesis by (auto simp: pattern_new_def Let_def)
qed

lemma from_text_Inr:
  assumes "from_text tx mc = Inr p"
  obtains es start fin where "length es \<le> MAX_PATTERN_BYTES" "p = pattern_new es start fin"
proof -
  define a where "a = (case strip_prefix [0x7C, 0x7C] tx of Some rest \<Rightarrow> (AtHost, rest)
    | None \<Rightarrow> (case strip_prefix [0x7C] tx of Some rest \<Rightarrow> (AtStart, rest) | None \<Rightarrow> (Anywhere, tx)))"
  define b where "b = (case strip_suffix [0x7C] (snd a) of
      Some rest \<Rightarrow> if rest \<noteq> [] then (True, rest) else (False, snd a) | None \<Rightarrow> (False, snd a))"
  have "from_text tx mc = (if length (snd b) > MAX_PATTERN_BYTES then Inl PatternIsTooLong
      else if list_ex (\<lambda>c. c \<le> 0x20 \<or> c = 0x7F) (snd b) then Inl InvalidCharacter
      else Inr (pattern_new (map (elem_of_byte mc) (snd b)) (fst a) (fst b)))"
    unfolding from_text_def a_def [symmetric] Let_def case_prod_unfold b_def [symmetric] ..
  with assms show ?thesis
    by (intro that [of "map (elem_of_byte mc) (snd b)" "fst a" "fst b"]) (simp_all split: if_splits)
qed

lemma from_text_length: "from_text tx mc = Inr p \<Longrightarrow> length (p_elems p) \<le> MAX_PATTERN_BYTES"
  by (erule from_text_Inr) (use pattern_new_length order_trans in blast)

definition raw_domains_ok :: "domain_constraint \<Rightarrow> bool" where
  "raw_domains_ok c \<longleftrightarrow> (\<forall>d \<in> set (dc_include c) \<union> set (dc_exclude c). valid_domain d)
     \<and> length (dc_include c) + length (dc_exclude c) \<le> MAX_DOMAINS_PER_RULE"

lemma parse_domains_ok: "raw_domains_ok c \<Longrightarrow> parse_domains c es = Inr c' \<Longrightarrow> raw_domains_ok c'"
proof (induction es arbitrary: c)
  case (Cons e es)
  obtain ex d where ed: "(case strip_prefix [0x7E] e of Some r \<Rightarrow> (True, r) | None \<Rightarrow> (False, e)) = (ex, d)" by fastforce
  define k where "k = (if ex then c\<lparr>dc_exclude := dc_exclude c @ [to_ascii_lowercase d]\<rparr>
    else c\<lparr>dc_include := dc_include c @ [to_ascii_lowercase d]\<rparr>)"
  have "valid_domain (to_ascii_lowercase d)" "\<not> length (dc_include k) + length (dc_exclude k) > MAX_DOMAINS_PER_RULE"
      "parse_domains k es = Inr c'"
    using Cons.prems(2) by (auto simp: ed Let_def k_def split: if_splits)
  moreover from this have "raw_domains_ok k" using Cons.prems(1) by (auto simp: raw_domains_ok_def k_def)
  ultimately show ?case using Cons.IH by blast
qed simp

lemma sort_domains_ok:
  assumes "raw_domains_ok c"
  shows "domains_ok (dc_include (sort_domains c))" "domains_ok (dc_exclude (sort_domains c))"
    "length (dc_include (sort_domains c)) + length (dc_exclude (sort_domains c)) \<le> MAX_DOMAINS_PER_RULE"
proof -
  have le: "length (remdups_adj (sort xs)) \<le> length xs" for xs :: "bytes list"
    using remdups_adj_length [of "sort xs"] by simp
  show "length (dc_include (sort_domains c)) + length (dc_exclude (sort_domains c)) \<le> MAX_DOMAINS_PER_RULE"
    using assms le [of "dc_include c"] le [of "dc_exclude c"] unfolding sort_domains_def raw_domains_ok_def by simp
qed (use assms in \<open>auto simp: domains_ok_def sort_domains_def raw_domains_ok_def strict_remdups_adj\<close>)

definition opts_ok :: "opts \<Rightarrow> bool" where
  "opts_ok o' \<longleftrightarrow> \<not> bit (o_pos o') 9 \<and> domains_ok (dc_include (o_domains o')) \<and> domains_ok (dc_exclude (o_domains o'))
     \<and> length (dc_include (o_domains o')) + length (dc_exclude (o_domains o')) \<le> MAX_DOMAINS_PER_RULE"

lemma opts_new_ok: "opts_ok opts_new"
  by (simp add: opts_ok_def opts_new_def domains_ok_def)

lemma domains_ok_raw:
  "opts_ok o' \<Longrightarrow> raw_domains_ok (o_domains o')"
  by (auto simp: opts_ok_def raw_domains_ok_def domains_ok_def)

lemma opts_ok_types:
  assumes "opts_ok o'" "type_from_option name = Some t"
  shows "opts_ok (o'\<lparr>o_neg := o_neg o' OR type_bit t\<rparr>)" "opts_ok (o'\<lparr>o_pos := o_pos o' OR type_bit t\<rparr>)"
proof -
  have "t \<noteq> TDocument" using assms(2) type_from_option_document by auto
  then have "\<not> bit (type_bit t) 9" by (cases t) (simp_all add: bit_type_bit)
  then show "opts_ok (o'\<lparr>o_neg := o_neg o' OR type_bit t\<rparr>)" "opts_ok (o'\<lparr>o_pos := o_pos o' OR type_bit t\<rparr>)"
    using assms(1) by (simp_all add: opts_ok_def bit_or_iff)
qed

lemma opts_ok_updates [simp]:
  "opts_ok (o'\<lparr>o_third_party := w\<rparr>) = opts_ok o'" "opts_ok (o'\<lparr>o_important := b\<rparr>) = opts_ok o'"
  "opts_ok (o'\<lparr>o_match_case := b\<rparr>) = opts_ok o'"
  by (simp_all add: opts_ok_def)

lemma parse_option_ok:
  assumes ok: "opts_ok o'" and p: "parse_option o' full = Inr q"
  shows "opts_ok q"
proof (cases "full = []")
  case True
  then show ?thesis using assms by (simp add: parse_option_def)
next
  case False
  define no where "no = (case strip_prefix [0x7E] full of Some r \<Rightarrow> (True, r) | None \<Rightarrow> (False, full))"
  define nv where "nv = (case split_once EQUALS (snd no) of Some x \<Rightarrow> (fst x, Some (snd x)) | None \<Rightarrow> (snd no, None))"
  note p' = p [unfolded parse_option_def if_not_P [OF False] no_def [symmetric] Let_def case_prod_unfold nv_def [symmetric]]
  show ?thesis
  proof (cases "snd nv")
    case None
    then show ?thesis using p' ok opts_ok_types [OF ok]
      by (simp only: option.case) (auto split: if_split_asm option.splits)
  next
    case (Some v)
    then obtain c where "parse_domains (o_domains o') (str_split 0x7C v) = Inr c"
        "q = o'\<lparr>o_saw_domain := True, o_domains := sort_domains c\<rparr>"
      using p' by (simp only: option.case) (auto split: if_split_asm sum.splits)
    then show ?thesis using sort_domains_ok [OF parse_domains_ok [OF domains_ok_raw [OF ok]]] ok by (simp add: opts_ok_def)
  qed
qed

lemma parse_options_ok: "opts_ok o' \<Longrightarrow> parse_options o' os = Inr q \<Longrightarrow> opts_ok q"
  by (induction os arbitrary: o') (auto split: sum.splits dest: parse_option_ok)

lemma finish_rule_ok:
  assumes "opts_ok o'" "finish_rule ex o' ptx line n = Inr r"
  shows "rule_ok r"
proof -
  define types where "types = (if o_pos o' = 0 then DEFAULT_TYPES else o_pos o') AND NOT (o_neg o')"
  from assms(2) obtain p where p: "from_text ptx (o_match_case o') = Inr p" "\<not> (ex \<and> o_important o')" "types \<noteq> 0"
      "r = \<lparr>r_exception = ex, r_important = o_important o', r_match_case = o_match_case o', r_pattern = p, r_types = types,
         r_third_party = o_third_party o', r_domains = o_domains o', r_line = n, r_text = line\<rparr>"
    by (auto simp: finish_rule_def Let_def types_def split: if_splits sum.splits pattern_error.splits)
  have "\<not> bit types 9" using assms(1) by (simp add: types_def bit_and_iff opts_ok_def)
  then show ?thesis using p assms(1) from_text_length [OF p(1)] by (simp add: rule_ok_def mask_contains_bit opts_ok_def)
qed

lemma parse_network_filter_ok: "parse_network_filter line n = Inr r \<Longrightarrow> rule_ok r"
  using finish_rule_ok parse_options_ok [OF opts_new_ok]
  by (fastforce simp: parse_network_filter_def Let_def split: if_splits sum.splits prod.splits)

section \<open>Every line is counted once\<close>

definition counted :: "parse_stats \<Rightarrow> nat" where
  "counted s = st_blank s + st_comments s + st_headers s + st_cosmetic_skipped s + st_accepted s + rejected_total s"

definition list_ok :: "parsed_list \<Rightarrow> bool" where
  "list_ok l \<longleftrightarrow> bt_ok (st_rejected (pl_stats l)) \<and> st_lines (pl_stats l) = counted (pl_stats l)
     \<and> st_accepted (pl_stats l) = length (pl_rules l)
     \<and> st_exceptions (pl_stats l) = length (filter r_exception (pl_rules l))
     \<and> st_scriptlet_skipped (pl_stats l) \<le> st_cosmetic_skipped (pl_stats l)
     \<and> length (pl_rules l) \<le> MAX_RULES_PER_LIST \<and> (\<forall>r \<in> set (pl_rules l). rule_ok r)"

lemma rejected_total_weight: "rejected_total s = bt_weight (\<lambda>k v. v) (st_rejected s)"
  by (simp add: rejected_total_def bt_weight_def case_prod_unfold)

lemma reject_total: "bt_ok (st_rejected s) \<Longrightarrow> rejected_total (reject e s) = rejected_total s + 1"
  using old_weight_le [of "\<lambda>k v. v" "st_rejected s" e]
  by (simp add: rejected_total_weight reject_def bt_weight_insert rejected_for_def old_weight_def split: option.splits)

lemma reject_simps [simp]:
  "st_lines (reject e s) = st_lines s" "st_blank (reject e s) = st_blank s" "st_comments (reject e s) = st_comments s"
  "st_headers (reject e s) = st_headers s" "st_cosmetic_skipped (reject e s) = st_cosmetic_skipped s"
  "st_scriptlet_skipped (reject e s) = st_scriptlet_skipped s" "st_accepted (reject e s) = st_accepted s"
  "st_exceptions (reject e s) = st_exceptions s" "bt_ok (st_rejected s) \<Longrightarrow> bt_ok (st_rejected (reject e s))"
  by (simp_all add: reject_def)

text \<open>The list while a line has been counted in but not yet in a class.\<close>

definition pending :: "parsed_list \<Rightarrow> bool" where
  "pending l \<longleftrightarrow> st_lines (pl_stats l) > 0
     \<and> list_ok (l\<lparr>pl_stats := (pl_stats l)\<lparr>st_lines := st_lines (pl_stats l) - 1\<rparr>\<rparr>)"

lemma rejected_total_cong [simp]:
  "rejected_total (s\<lparr>st_lines := a\<rparr>) = rejected_total s" "rejected_total (s\<lparr>st_blank := a\<rparr>) = rejected_total s"
  "rejected_total (s\<lparr>st_comments := a\<rparr>) = rejected_total s" "rejected_total (s\<lparr>st_headers := a\<rparr>) = rejected_total s"
  "rejected_total (s\<lparr>st_truncated := t\<rparr>) = rejected_total s"
  "rejected_total (s\<lparr>st_cosmetic_skipped := a, st_scriptlet_skipped := b\<rparr>) = rejected_total s"
  "rejected_total (s\<lparr>st_accepted := a, st_exceptions := b\<rparr>) = rejected_total s"
  by (simp_all add: rejected_total_def)

lemma pending_iff:
  "pending l \<longleftrightarrow> bt_ok (st_rejected (pl_stats l)) \<and> st_lines (pl_stats l) = Suc (counted (pl_stats l))
     \<and> st_accepted (pl_stats l) = length (pl_rules l) \<and> st_exceptions (pl_stats l) = length (filter r_exception (pl_rules l))
     \<and> st_scriptlet_skipped (pl_stats l) \<le> st_cosmetic_skipped (pl_stats l)
     \<and> length (pl_rules l) \<le> MAX_RULES_PER_LIST \<and> (\<forall>r \<in> set (pl_rules l). rule_ok r)"
  by (auto simp: pending_def list_ok_def counted_def)

lemma pending_reject: "pending l \<Longrightarrow> list_ok (l\<lparr>pl_stats := reject e (pl_stats l)\<rparr>)"
  by (simp add: pending_iff list_ok_def counted_def reject_total)

lemma pending_truncated: "pending (l\<lparr>pl_stats := (pl_stats l)\<lparr>st_truncated := t\<rparr>\<rparr>) = pending l"
  by (simp add: pending_iff counted_def)

lemma network_line_ok:
  assumes "pending l"
  shows "list_ok (network_line line n l)"
proof (cases "length (pl_rules l) \<ge> MAX_RULES_PER_LIST")
  case True
  then show ?thesis using pending_reject [of "l\<lparr>pl_stats := (pl_stats l)\<lparr>st_truncated := True\<rparr>\<rparr>"] assms
    by (simp add: network_line_def Let_def pending_truncated)
next
  case False
  show ?thesis
  proof (cases "parse_network_filter line n")
    case (Inl e)
    then show ?thesis using False pending_reject [OF assms] by (simp add: network_line_def Let_def)
  next
    case (Inr r)
    then show ?thesis using False assms parse_network_filter_ok [OF Inr]
      by (simp add: network_line_def Let_def list_ok_def pending_iff counted_def)
  qed
qed

lemma parse_line_ok:
  assumes "list_ok l"
  shows "list_ok (parse_line idx raw l)"
proof -
  define k where "k = l\<lparr>pl_stats := (pl_stats l)\<lparr>st_lines := st_lines (pl_stats l) + 1\<rparr>\<rparr>"
  have k: "pending k" using assms by (simp add: pending_iff list_ok_def k_def counted_def)
  show ?thesis
  proof (cases "length raw > MAX_LINE_BYTES")
    case True
    then show ?thesis using pending_reject [OF k] unfolding parse_line_def Let_def k_def [symmetric] by (simp only: if_True)
  next
    case False
    then have "parse_line idx raw l = (let s = pl_stats k; line = trim raw in
        case classify line of
          Blank \<Rightarrow> k\<lparr>pl_stats := s\<lparr>st_blank := st_blank s + 1\<rparr>\<rparr>
        | Comment \<Rightarrow> k\<lparr>pl_stats := s\<lparr>st_comments := st_comments s + 1\<rparr>\<rparr>
        | Header \<Rightarrow> k\<lparr>pl_stats := s\<lparr>st_headers := st_headers s + 1\<rparr>\<rparr>
        | Cosmetic scriptlet \<Rightarrow>
            k\<lparr>pl_stats := s\<lparr>st_cosmetic_skipped := st_cosmetic_skipped s + 1,
              st_scriptlet_skipped := st_scriptlet_skipped s + (if scriptlet then 1 else 0)\<rparr>\<rparr>
        | Network \<Rightarrow> network_line line (min (idx + 1) (2 ^ 32 - 1)) k)"
      unfolding parse_line_def Let_def k_def [symmetric] by (simp only: if_False)
    then show ?thesis using k network_line_ok [OF k]
      by (cases "classify (trim raw)") (simp_all add: Let_def pending_iff list_ok_def counted_def)
  qed
qed

lemma parse_lines_ok: "list_ok l \<Longrightarrow> list_ok (parse_lines idx raws l)"
  by (induction idx raws l rule: parse_lines.induct) (simp_all add: parse_line_ok)

lemma parse_list_ok: "list_ok (parse_list input)"
proof -
  have "list_ok \<lparr>pl_rules = [], pl_stats = stats_new\<lparr>st_truncated := t\<rparr>\<rparr>" for t
    by (simp add: list_ok_def stats_new_def counted_def rejected_total_def)
  then show ?thesis by (simp add: parse_list_def Let_def parse_lines_ok split: prod.split)
qed

lemma parse_list_bytes_ok: "list_ok (parse_list_bytes input)"
  using parse_list_ok [of "utf8_lossy (take MAX_LIST_BYTES input)"]
  by (simp add: parse_list_bytes_def Let_def list_ok_def counted_def)

section \<open>Domain constraints\<close>

text \<open>The longest entry that bounds_entries the host decides, exclusions win ties.\<close>

definition dc_spec :: "domain_constraint \<Rightarrow> bytes \<Rightarrow> bool" where
  "dc_spec c h \<longleftrightarrow>
     (if \<exists>d \<in> set (dc_include c) \<union> set (dc_exclude c). host_under h d
      then \<exists>i \<in> set (dc_include c). host_under h i
             \<and> (\<forall>e \<in> set (dc_exclude c). host_under h e \<longrightarrow> length e < length i)
      else dc_include c = [])"

text \<open>The best entry so far bounds an entry, and a better one replaces it.\<close>

definition bounds_entries :: "bytes \<Rightarrow> bytes list \<Rightarrow> nat \<Rightarrow> bool" where
  "bounds_entries h ds l \<longleftrightarrow> (\<forall>d \<in> set ds. host_under h d \<longrightarrow> length d \<le> l)"

lemma bounds_entries_simps [simp]:
  "bounds_entries h [] l" "bounds_entries h (d # ds) l \<longleftrightarrow> (host_under h d \<longrightarrow> length d \<le> l) \<and> bounds_entries h ds l"
  by (auto simp: bounds_entries_def)

lemma best_include_None: "\<forall>d \<in> set ds. \<not> host_under h d \<Longrightarrow> best_include h ds best = best"
  by (induction h ds best rule: best_include.induct) auto

lemma best_exclude_None: "\<forall>d \<in> set ds. \<not> host_under h d \<Longrightarrow> best_exclude h ds best = best"
  by (induction h ds best rule: best_exclude.induct) auto

lemma best_include_from:
  "\<exists>l'. best_include h ds (Some (l, False)) = Some (l', False) \<and> l \<le> l' \<and> bounds_entries h ds l'
     \<and> (l' = l \<or> (\<exists>i \<in> set ds. host_under h i \<and> length i = l'))"
proof (induction ds arbitrary: l)
  case (Cons d ds)
  show ?case
  proof (cases "host_under h d \<and> length d > l")
    case True
    with Cons [of "length d"] obtain l' where "best_include h ds (Some (length d, False)) = Some (l', False)" "length d \<le> l'"
        "bounds_entries h ds l'" "l' = length d \<or> (\<exists>i \<in> set ds. host_under h i \<and> length i = l')" by blast
    then show ?thesis using True by (intro exI [of _ l']) auto
  next
    case False
    with Cons [of l] obtain l' where "best_include h ds (Some (l, False)) = Some (l', False)" "l \<le> l'"
        "bounds_entries h ds l'" "l' = l \<or> (\<exists>i \<in> set ds. host_under h i \<and> length i = l')" by blast
    then show ?thesis using False by (intro exI [of _ l']) auto
  qed
qed simp

lemma best_include_first:
  "\<exists>d \<in> set ds. host_under h d \<Longrightarrow>
     \<exists>i \<in> set ds. host_under h i \<and> best_include h ds None = Some (length i, False) \<and> bounds_entries h ds (length i)"
proof (induction ds)
  case (Cons d ds)
  show ?case
  proof (cases "host_under h d")
    case True
    from best_include_from [of h ds "length d"] obtain l' where l': "best_include h ds (Some (length d, False)) = Some (l', False)"
        "length d \<le> l'" "bounds_entries h ds l'" "l' = length d \<or> (\<exists>i \<in> set ds. host_under h i \<and> length i = l')" by blast
    then obtain i where "i \<in> set (d # ds)" "host_under h i" "length i = l'" using True by auto
    then show ?thesis using True l' by (intro bexI [of _ i]) auto
  next
    case False
    then show ?thesis using Cons by auto
  qed
qed simp

lemma best_exclude_from:
  "\<exists>l' b'. best_exclude h ds (Some (l, b)) = Some (l', b') \<and> l \<le> l' \<and> bounds_entries h ds l'
     \<and> (b' = b \<and> l' = l \<and> (\<forall>e \<in> set ds. host_under h e \<longrightarrow> length e < l)
        \<or> b' \<and> (b \<and> l' = l \<or> (\<exists>e \<in> set ds. host_under h e \<and> length e = l')))"
proof (induction ds arbitrary: l b)
  case (Cons d ds)
  show ?case
  proof (cases "host_under h d \<and> length d \<ge> l")
    case True
    with Cons [of "length d" True] obtain l' b' where "best_exclude h ds (Some (length d, True)) = Some (l', b')" "length d \<le> l'"
        "bounds_entries h ds l'" "b'" "l' = length d \<or> (\<exists>e \<in> set ds. host_under h e \<and> length e = l')" by blast
    then show ?thesis using True by (intro exI [of _ l'] exI [of _ b']) auto
  next
    case False
    with Cons [of l b] obtain l' b' where k: "best_exclude h ds (Some (l, b)) = Some (l', b')" "l \<le> l'" "bounds_entries h ds l'"
        "b' = b \<and> l' = l \<and> (\<forall>e \<in> set ds. host_under h e \<longrightarrow> length e < l)
         \<or> b' \<and> (b \<and> l' = l \<or> (\<exists>e \<in> set ds. host_under h e \<and> length e = l'))" by blast
    moreover have "host_under h d \<longrightarrow> length d < l" using False by auto
    ultimately show ?thesis using False by (intro exI [of _ l'] exI [of _ b']) auto
  qed
qed simp

lemma best_exclude_first:
  "\<exists>d \<in> set ds. host_under h d \<Longrightarrow> \<exists>l. best_exclude h ds None = Some (l, True)"
proof (induction ds)
  case (Cons d ds)
  show ?case
  proof (cases "host_under h d")
    case True
    then show ?thesis using best_exclude_from [of h ds "length d" True] by auto
  next
    case False
    then show ?thesis using Cons by auto
  qed
qed simp

lemma dc_allows_spec: "dc_allows c (Some h) \<longleftrightarrow> dc_spec c h"
proof (cases "\<exists>i \<in> set (dc_include c). host_under h i")
  case True
  from best_include_first [OF this] obtain i where i: "i \<in> set (dc_include c)" "host_under h i"
      "best_include h (dc_include c) None = Some (length i, False)" "bounds_entries h (dc_include c) (length i)" by blast
  from best_exclude_from [of h "dc_exclude c" "length i" False] obtain l' b' where
    e: "best_exclude h (dc_exclude c) (Some (length i, False)) = Some (l', b')" "length i \<le> l'"
      "\<not> b' \<and> (\<forall>e \<in> set (dc_exclude c). host_under h e \<longrightarrow> length e < length i)
       \<or> b' \<and> (\<exists>e \<in> set (dc_exclude c). host_under h e \<and> length e = l')" by blast
  have "dc_allows c (Some h) \<longleftrightarrow> \<not> b'" using i(3) e(1) by (simp add: dc_allows_def)
  moreover have "dc_spec c h \<longleftrightarrow> \<not> b'"
  proof (cases b')
    case False
    then show ?thesis using e(3) i(1,2) by (auto simp: dc_spec_def)
  next
    case b: True
    then obtain x where x: "x \<in> set (dc_exclude c)" "host_under h x" "length x = l'" using e(3) by blast
    have "\<not> length x < length j" if "j \<in> set (dc_include c)" "host_under h j" for j
      using i(4) that e(2) x(3) by (auto simp: bounds_entries_def)
    then show ?thesis using True b x(1,2) unfolding dc_spec_def by auto
  qed
  ultimately show ?thesis by blast
next
  case False
  then have "best_include h (dc_include c) None = None" by (simp add: best_include_None)
  then show ?thesis using False best_exclude_first [of "dc_exclude c" h] best_exclude_None [of "dc_exclude c" h None]
    by (cases "\<exists>e \<in> set (dc_exclude c). host_under h e") (auto simp: dc_allows_def dc_spec_def)
qed

end
