(* ===== verification/Net_Origin.thy ===== *)
theory Net_Origin
  imports Net_Partition Net_Psl
begin

text \<open>
  The constructors of \<^verbatim>\<open>crates/px-net/src/partition.rs\<close>: an origin is normalised and
  refused when it cannot be one, and a partition key exists only for a top-level host with
  a registrable domain.
\<close>

definition origin_new :: "bytes \<Rightarrow> bytes \<Rightarrow> u16 \<Rightarrow> origin option" where
  "origin_new raw_scheme raw_host p =
     (let s = to_ascii_lowercase (trim raw_scheme);
          h = to_ascii_lowercase (trim_end_matches DOT (trim raw_host))
      in if s = [] \<or> h = [] then None
         else if s \<noteq> str_https \<and> s \<noteq> str_http then None
         else if contains_str [DOT, DOT] h \<or> begins_with DOT h then None
         else if \<not> is_ascii h then None
         else Some \<lparr>scheme = s, host = h, port = p\<rparr>)"

definition is_secure :: "origin \<Rightarrow> bool" where
  "is_secure o' \<longleftrightarrow> scheme o' = str_https"

text \<open>\<^verbatim>\<open>Display\<close> for an origin: scheme, host and decimal port.\<close>

fun show_dec :: "nat \<Rightarrow> bytes" where
  "show_dec n = (if n < 10 then [dig n] else show_dec (n div 10) @ [dig (n mod 10)])"

declare show_dec.simps [simp del]

definition origin_display :: "origin \<Rightarrow> bytes" where
  "origin_display o' = scheme o' @ [COLON, SLASH, SLASH] @ host o' @ [COLON] @ show_dec (unat (port o'))"

definition partition_key_new :: "public_suffix_list \<Rightarrow> bytes \<Rightarrow> origin \<Rightarrow> partition_key option" where
  "partition_key_new l top_level_host o' = do {
     s \<leftarrow> registrable_domain l top_level_host;
     Some \<lparr>top_level_site = s, key_origin = o'\<rparr> }"

section \<open>What the constructors guarantee\<close>

definition origin_wf :: "origin \<Rightarrow> bool" where
  "origin_wf o' \<longleftrightarrow> (scheme o' = str_https \<or> scheme o' = str_http) \<and> host o' \<noteq> [] \<and> is_ascii (host o')
     \<and> to_ascii_lowercase (host o') = host o' \<and> \<not> begins_with DOT (host o') \<and> \<not> ends_with DOT (host o')
     \<and> \<not> contains_str [DOT, DOT] (host o')"

lemma ends_with_lower: "ends_with DOT (to_ascii_lowercase s) \<longleftrightarrow> ends_with DOT s"
  by (cases s rule: rev_cases) simp_all

lemma origin_new_wf: "origin_new s h p = Some o' \<Longrightarrow> origin_wf o'"
  using trim_end_matches_end [of DOT "trim h"]
  by (auto simp: origin_new_def origin_wf_def Let_def ends_with_lower split: if_splits)

lemma origin_new_port: "origin_new s h p = Some o' \<Longrightarrow> port o' = p"
  by (auto simp: origin_new_def Let_def split: if_splits)

lemma is_ascii_lower:
  assumes "set d \<subseteq> lower_byte ` set h" "is_ascii h"
  shows "is_ascii d"
proof -
  have "b < 128 \<Longrightarrow> lower_byte b < 128" for b :: u8
    by (auto simp: lower_byte_def word_le_nat_alt word_less_nat_alt unat_word_ariths)
  with assms show ?thesis by (auto simp: is_ascii_def)
qed

lemma partition_key_new_Some:
  "partition_key_new l t o' = Some k \<longleftrightarrow> registrable_domain l t = Some (top_level_site k) \<and> key_origin k = o'"
  by (cases k) (auto simp: partition_key_new_def bind_eq_Some_conv)

section \<open>Origins that are stable under normalisation\<close>

definition ascii_ws :: "u8 \<Rightarrow> bool" where
  "ascii_ws b \<longleftrightarrow> b \<in> {0x09, 0x0A, 0x0B, 0x0C, 0x0D, 0x20}"

lemma ascii_ws_lower [simp]: "ascii_ws (lower_byte b) \<longleftrightarrow> ascii_ws b"
proof -
  have "unat (b + 0x20) = unat b + 0x20" if "b \<le> 0x5A"
    using that by (simp add: unat_word_ariths word_le_nat_alt)
  then show ?thesis by (auto simp: ascii_ws_def lower_byte_def word_le_nat_alt word_unat_eq_iff)
qed

lemma trimmed_ends:
  assumes "trimmed s" "s \<noteq> []"
  shows "\<not> ascii_ws (hd s)" "\<not> ascii_ws (last s)"
proof -
  have ws: "ascii_ws b \<Longrightarrow> [b] \<in> set WHITE_SPACE" for b
    by (auto simp: ascii_ws_def WHITE_SPACE_def)
  have "s \<noteq> w @ r" "rev s \<noteq> rev w @ r" if "w \<in> set WHITE_SPACE" for w r
    using assms(1) that by (auto simp: trimmed_def first_strip_None)
  from this [OF ws] have no: "ascii_ws b \<Longrightarrow> s \<noteq> [b] @ r" "ascii_ws b \<Longrightarrow> rev s \<noteq> rev [b] @ r" for b r
    by blast+
  have "s = [hd s] @ tl s" "rev s = rev [last s] @ rev (butlast s)"
    using assms(2) by (simp, cases s rule: rev_cases, auto)
  with no show "\<not> ascii_ws (hd s)" "\<not> ascii_ws (last s)" by blast+
qed

lemma WHITE_SPACE_shape:
  "list_all (\<lambda>w. w \<noteq> [] \<and> (ascii_ws (hd w) \<and> ascii_ws (last w) \<or> \<not> hd w < 128 \<and> \<not> last w < 128)) WHITE_SPACE"
  by (simp add: WHITE_SPACE_def ascii_ws_def)

lemma ascii_trimmed:
  assumes "is_ascii s" "s \<noteq> []" "\<not> ascii_ws (hd s)" "\<not> ascii_ws (last s)"
  shows "trimmed s"
proof -
  have ws: "w \<noteq> [] \<and> (ascii_ws (hd w) \<and> ascii_ws (last w) \<or> \<not> hd w < 128 \<and> \<not> last w < 128)"
    if "w \<in> set WHITE_SPACE" for w
    using WHITE_SPACE_shape that unfolding list_all_iff by blast
  have "s \<noteq> w @ r" if "w \<in> set WHITE_SPACE" for w r
    using ws [OF that] assms by (cases w) (auto simp: is_ascii_def)
  moreover have "rev s \<noteq> rev w @ r" if "w \<in> set WHITE_SPACE" for w r
  proof
    assume "rev s = rev w @ r"
    then have "s = rev r @ w" by (metis rev_append rev_rev_ident)
    then show False using ws [OF that] assms by (cases w rule: rev_cases) (auto simp: is_ascii_def)
  qed
  ultimately show ?thesis by (auto simp: trimmed_def first_strip_None)
qed

lemma str_https_trimmed: "to_ascii_lowercase (trim str_https) = str_https"
proof -
  have "trimmed str_https" by (rule ascii_trimmed) (auto simp: str_https_def is_ascii_def ascii_ws_def)
  then show ?thesis by (simp add: trim_trimmed str_https_def lower_byte_def)
qed

text \<open>Building the secure variant of an origin changes nothing else when its host has no blank at an end.\<close>

lemma origin_new_https:
  assumes "origin_wf o'" "\<not> ascii_ws (hd (host o'))" "\<not> ascii_ws (last (host o'))"
  shows "origin_new str_https (host o') p = Some \<lparr>scheme = str_https, host = host o', port = p\<rparr>"
proof -
  have "trimmed (host o')" using assms by (intro ascii_trimmed) (auto simp: origin_wf_def)
  then show ?thesis using assms(1)
    by (simp add: origin_new_def Let_def trim_trimmed str_https_trimmed trim_end_matches_id origin_wf_def)
       (simp add: str_https_def)
qed

lemma origin_new_hd:
  assumes "origin_new s h p = Some o'"
  shows "\<not> ascii_ws (hd (host o'))"
proof -
  let ?t = "trim h"
  have e: "host o' = to_ascii_lowercase (trim_end_matches DOT ?t)" "host o' \<noteq> []"
    using assms by (auto simp: origin_new_def Let_def split: if_splits)
  then obtain c u where cu: "trim_end_matches DOT ?t = c # u" by (cases "trim_end_matches DOT ?t") auto
  obtain n where "?t = trim_end_matches DOT ?t @ replicate n DOT" using trim_end_matches_part by blast
  then have "hd ?t = c" "?t \<noteq> []" using cu by (metis append_Cons list.sel(1), auto simp: cu)
  then have "\<not> ascii_ws c" using trimmed_ends(1) [OF trimmed_trim] by metis
  then show ?thesis using e cu by simp
qed

section \<open>Decimal numbers\<close>

lemma show_dec_digits: "show_dec n \<noteq> []" "set (show_dec n) \<subseteq> dig ` {..<10}"
  by (induction n rule: show_dec.induct) (subst show_dec.simps; auto)+

lemma parse_digits_append:
  "parse_digits acc (xs @ ys) = (case parse_digits acc xs of None \<Rightarrow> None | Some n \<Rightarrow> parse_digits n ys)"
  by (induction xs arbitrary: acc) (auto split: option.split)

lemma parse_digits_show: "parse_digits 0 (show_dec n) = Some n"
proof (induction n rule: show_dec.induct)
  case (1 n)
  show ?case
  proof (cases "n < 10")
    case True
    then show ?thesis by (simp add: show_dec.simps [of n] digit_dig)
  next
    case False
    then have "parse_digits 0 (show_dec (n div 10)) = Some (n div 10)" by (rule 1)
    with False show ?thesis by (simp add: show_dec.simps [of n] parse_digits_append digit_dig)
  qed
qed

end
