(* ===== verification/Websec_Url.thy ===== *)
theory Websec_Url
  imports Net_Utf8 Net_Origin
begin

text \<open>
  The absolute URLs of \<^verbatim>\<open>crates/px-websec/src/origin/url.rs\<close>: hosts and their
  serialisation, the parser with its IPv4 and IPv6 forms, and the updates the policy
  modules make.  A string is the list of its UTF-8 bytes; the characters the parser looks
  for are all ASCII, where characters and bytes agree.
\<close>

definition MAX_URL_BYTES :: nat where "MAX_URL_BYTES = 8192"

datatype host = Domain bytes | Ipv4 u8 u8 u8 u8 | Ipv6 "u16 list" | OpaqueHost bytes | EmptyHost

record url =
  u_scheme :: bytes
  u_username :: bytes
  u_password :: bytes
  u_host :: "host option"
  u_port :: "u16 option"
  u_path :: bytes
  u_query :: "bytes option"
  u_fragment :: "bytes option"

section \<open>Serialisation\<close>

definition hex_dig :: "nat \<Rightarrow> u8" where
  "hex_dig k = (if k < 10 then word_of_nat (48 + k) else word_of_nat (87 + k))"

fun show_hex :: "nat \<Rightarrow> bytes" where
  "show_hex n = (if n < 16 then [hex_dig n] else show_hex (n div 16) @ [hex_dig (n mod 16)])"

declare show_hex.simps [simp del]

definition zero_run :: "u16 list \<Rightarrow> nat \<Rightarrow> nat" where
  "zero_run p i = length (takeWhile (\<lambda>v. v = 0) (drop i p))"

function best_zeros :: "u16 list \<Rightarrow> nat \<Rightarrow> (nat \<times> nat) option \<Rightarrow> (nat \<times> nat) option" where
  "best_zeros p i best =
     (if i < 8 then
        if i < length p \<and> p ! i = 0 then
          (let len = zero_run p i
           in best_zeros p (i + len)
                (if len \<ge> 2 \<and> (case best of None \<Rightarrow> True | Some (_, bl) \<Rightarrow> len > bl) then Some (i, len) else best))
        else best_zeros p (i + 1) best
      else best)"
  by pat_completeness auto
termination
  by (relation "measure (\<lambda>(p, i, best). 8 - i)") (auto simp: zero_run_def Cons_nth_drop_Suc [symmetric])

declare best_zeros.simps [simp del]

function ipv6_pieces :: "u16 list \<Rightarrow> (nat \<times> nat) option \<Rightarrow> nat \<Rightarrow> bytes" where
  "ipv6_pieces p best i =
     (if i < 8 then
        (case best of
           Some (s, l) \<Rightarrow>
             if s = i \<and> l > 0 then [COLON, COLON] @ ipv6_pieces p best (i + l)
             else (if i < length p then show_hex (unat (p ! i)) else [])
                  @ (if i + 1 < 8 \<and> s \<noteq> i + 1 then [COLON] else []) @ ipv6_pieces p best (i + 1)
         | None \<Rightarrow>
             (if i < length p then show_hex (unat (p ! i)) else [])
             @ (if i + 1 < 8 then [COLON] else []) @ ipv6_pieces p best (i + 1))
      else [])"
  by pat_completeness auto
termination
  by (relation "measure (\<lambda>(p, best, i). 8 - i)") auto

declare ipv6_pieces.simps [simp del]

definition serialize_ipv6 :: "u16 list \<Rightarrow> bytes" where
  "serialize_ipv6 p = ipv6_pieces p (best_zeros p 0 None) 0"

definition host_serialize :: "host \<Rightarrow> bytes" where
  "host_serialize h =
     (case h of Domain d \<Rightarrow> d | OpaqueHost d \<Rightarrow> d | Ipv4 a b c d \<Rightarrow> show_ipv4 a b c d
      | Ipv6 p \<Rightarrow> [0x5B] @ serialize_ipv6 p @ [0x5D] | EmptyHost \<Rightarrow> [])"

definition web_default_port :: "bytes \<Rightarrow> u16 option" where
  "web_default_port s =
     (if s = lit ''http'' \<or> s = lit ''ws'' then Some 80
      else if s = lit ''https'' \<or> s = lit ''wss'' then Some 443
      else if s = lit ''ftp'' then Some 21 else None)"

definition is_special_scheme :: "bytes \<Rightarrow> bool" where
  "is_special_scheme s \<longleftrightarrow> s \<in> set [lit ''http'', lit ''https'', lit ''ws'', lit ''wss'', lit ''ftp'', lit ''file'']"

definition effective_port :: "url \<Rightarrow> u16 option" where
  "effective_port u = (case u_port u of Some p \<Rightarrow> Some p | None \<Rightarrow> web_default_port (u_scheme u))"

definition is_special :: "url \<Rightarrow> bool" where
  "is_special u = is_special_scheme (u_scheme u)"

definition has_credentials :: "url \<Rightarrow> bool" where
  "has_credentials u \<longleftrightarrow> u_username u \<noteq> [] \<or> u_password u \<noteq> []"

definition strip_credentials :: "url \<Rightarrow> url" where
  "strip_credentials u = u\<lparr>u_username := [], u_password := []\<rparr>"

definition strip_fragment :: "url \<Rightarrow> url" where
  "strip_fragment u = u\<lparr>u_fragment := None\<rparr>"

definition upgraded_to_https :: "url \<Rightarrow> url option" where
  "upgraded_to_https u =
     (if u_scheme u \<noteq> lit ''http'' then None
      else Some (u\<lparr>u_scheme := lit ''https'',
                   u_port := (if u_port u = Some 80 \<or> u_port u = Some 443 then None else u_port u)\<rparr>))"

definition set_origin_only :: "url \<Rightarrow> url" where
  "set_origin_only u = u\<lparr>u_path := [SLASH], u_query := None\<rparr>"

definition url_serialize :: "url \<Rightarrow> bool \<Rightarrow> bytes" where
  "url_serialize u exclude_fragment =
     u_scheme u @ [COLON]
     @ (case u_host u of
          None \<Rightarrow> []
        | Some h \<Rightarrow> [SLASH, SLASH]
            @ (if has_credentials u
               then u_username u @ (if u_password u \<noteq> [] then COLON # u_password u else []) @ [0x40] else [])
            @ host_serialize h
            @ (case u_port u of None \<Rightarrow> [] | Some p \<Rightarrow> COLON # show_dec (unat p)))
     @ u_path u
     @ (case u_query u of None \<Rightarrow> [] | Some q \<Rightarrow> 0x3F # q)
     @ (if exclude_fragment then [] else case u_fragment u of None \<Rightarrow> [] | Some f \<Rightarrow> 0x23 # f)"

section \<open>Hosts\<close>

definition forbidden_host_cp :: "u8 \<Rightarrow> bool" where
  "forbidden_host_cp c \<longleftrightarrow> c \<le> 0x20 \<or> c = 0x7F \<or> c \<in> set (lit ''#/:<>?@[]^|'') \<or> c = 0x5C"

function percent_decode :: "bytes \<Rightarrow> bytes" where
  "percent_decode [] = []"
| "percent_decode (c # s) =
     (case (if c = 0x25 \<and> 2 \<le> length s then (hex_digit (s ! 0), hex_digit (s ! 1)) else (None, None)) of
        (Some h, Some l) \<Rightarrow> word_of_nat (h * 16 + l) # percent_decode (drop 2 s)
      | _ \<Rightarrow> c # percent_decode s)"
  by pat_completeness auto
termination by (relation "measure length") auto

definition percent_decode_ascii :: "bytes \<Rightarrow> bytes option" where
  "percent_decode_ascii s =
     (let out = percent_decode s in if is_ascii out \<and> utf8_valid out then Some out else None)"

definition to_digit :: "nat \<Rightarrow> u8 \<Rightarrow> nat option" where
  "to_digit radix b = (case hex_digit b of None \<Rightarrow> None | Some d \<Rightarrow> if d < radix then Some d else None)"

fun number_value :: "nat \<Rightarrow> nat \<Rightarrow> bytes \<Rightarrow> nat option" where
  "number_value radix v [] = Some v"
| "number_value radix v (c # s) =
     (case to_digit radix c of
        None \<Rightarrow> None
      | Some d \<Rightarrow> if v * radix > U64_MAX \<or> v * radix + d > U64_MAX then None else number_value radix (v * radix + d) s)"

definition parse_ipv4_number :: "bytes \<Rightarrow> nat option" where
  "parse_ipv4_number s =
     (if s = [] then None
      else let (digits, radix) =
             (case strip_prefix (lit ''0x'') s of
                Some r \<Rightarrow> (r, 16)
              | None \<Rightarrow> (case strip_prefix (lit ''0X'') s of
                    Some r \<Rightarrow> (r, 16)
                  | None \<Rightarrow> if length s > 1 \<and> begins_with 0x30 s then (tl s, 8) else (s, 10)))
           in if digits = [] then Some 0 else number_value radix 0 digits)"

definition drop_empty_last :: "bytes list \<Rightarrow> bytes list" where
  "drop_empty_last parts = (if last parts = [] \<and> length parts > 1 then butlast parts else parts)"

definition ends_in_number :: "bytes \<Rightarrow> bool" where
  "ends_in_number s =
     (let parts = str_split DOT s
      in if last parts = [] \<and> length parts = 1 then False
         else let lst = last (drop_empty_last parts)
              in lst \<noteq> [] \<and> list_all (\<lambda>b. digit b \<noteq> None) lst
                 \<or> length lst \<ge> 2 \<and> (strip_prefix (lit ''0x'') lst \<noteq> None \<or> strip_prefix (lit ''0X'') lst \<noteq> None)
                   \<and> list_all (\<lambda>b. hex_digit b \<noteq> None) (drop 2 lst))"

fun opt_all :: "('a \<Rightarrow> 'b option) \<Rightarrow> 'a list \<Rightarrow> 'b list option" where
  "opt_all f [] = Some []"
| "opt_all f (x # xs) = (case f x of None \<Rightarrow> None | Some y \<Rightarrow> map_option (Cons y) (opt_all f xs))"

fun shifted_sum :: "nat \<Rightarrow> nat list \<Rightarrow> nat" where
  "shifted_sum i [] = 0"
| "shifted_sum i (n # ns) = n * 2 ^ (8 * (3 - i)) + shifted_sum (i + 1) ns"

definition parse_ipv4 :: "bytes \<Rightarrow> host option" where
  "parse_ipv4 s =
     (let parts = drop_empty_last (str_split DOT s)
      in if length parts > 4 then None
         else do {
           nums \<leftarrow> opt_all parse_ipv4_number parts;
           if list_ex (\<lambda>n. n > 255) (butlast nums) then None
           else if last nums \<ge> 256 ^ (5 - length nums) then None
           else (let ip = last nums + shifted_sum 0 (butlast nums)
                 in Some (Ipv4 (word_of_nat (ip div 2 ^ 24)) (word_of_nat (ip div 2 ^ 16))
                      (word_of_nat (ip div 2 ^ 8)) (word_of_nat ip))) })"

definition v4_octet :: "bytes \<Rightarrow> nat option" where
  "v4_octet ds =
     (if ds = [] \<or> length ds > 3 \<or> length ds > 1 \<and> begins_with 0x30 ds \<or> \<not> list_all (\<lambda>b. digit b \<noteq> None) ds then None
      else do { n \<leftarrow> parse_digits 0 ds; if n > 255 then None else Some n })"

definition v6_piece :: "bytes \<Rightarrow> u16 option" where
  "v6_piece g =
     (if g = [] \<or> length g > 4 \<or> \<not> list_all (\<lambda>b. hex_digit b \<noteq> None) g then None
      else map_option word_of_nat (number_value 16 0 g))"

fun v6_items :: "bool \<Rightarrow> bytes list \<Rightarrow> u16 list option" where
  "v6_items allow_v4_tail [] = Some []"
| "v6_items allow_v4_tail (g # gs) =
     (if allow_v4_tail \<and> gs = [] \<and> DOT \<in> set g then
        (let oct = str_split DOT g
         in if length oct \<noteq> 4 then None
            else do {
              v \<leftarrow> opt_all v4_octet oct;
              Some [word_of_nat (v ! 0 * 256 + v ! 1), word_of_nat (v ! 2 * 256 + v ! 3)] })
      else do { p \<leftarrow> v6_piece g; ps \<leftarrow> v6_items allow_v4_tail gs; Some (p # ps) })"

definition v6_groups :: "bytes \<Rightarrow> bool \<Rightarrow> u16 list option" where
  "v6_groups part allow_v4_tail = (if part = [] then Some [] else v6_items allow_v4_tail (str_split COLON part))"

fun split_colons :: "bytes \<Rightarrow> (bytes \<times> bytes) option" where
  "split_colons [] = None"
| "split_colons (c # s) =
     (if c = COLON \<and> begins_with COLON s then Some ([], tl s)
      else map_option (\<lambda>(l, r). (c # l, r)) (split_colons s))"

definition parse_ipv6 :: "bytes \<Rightarrow> u16 list option" where
  "parse_ipv6 s =
     (if length s > 45 then None
      else case split_colons s of
        None \<Rightarrow> do { g \<leftarrow> v6_groups s True; if length g \<noteq> 8 then None else Some g }
      | Some (hd_part, tail) \<Rightarrow>
          if contains_str [COLON, COLON] tail then None
          else do {
            h \<leftarrow> v6_groups hd_part False;
            t \<leftarrow> v6_groups tail True;
            if length h + length t > 7 then None
            else Some (h @ replicate (8 - length h - length t) 0 @ t) })"

definition parse_host :: "bytes \<Rightarrow> bool \<Rightarrow> host option" where
  "parse_host input special =
     (case strip_prefix [0x5B] input of
        Some inner \<Rightarrow> do { inner \<leftarrow> strip_suffix [0x5D] inner; map_option Ipv6 (parse_ipv6 inner) }
      | None \<Rightarrow>
          if \<not> special then
            (if input = [] \<or> list_ex (\<lambda>c. forbidden_host_cp c \<or> c \<ge> 0x80) input then None else Some (OpaqueHost input))
          else do {
            decoded \<leftarrow> percent_decode_ascii input;
            let lower = to_ascii_lowercase decoded;
            if lower = [] \<or> list_ex (\<lambda>c. forbidden_host_cp c \<or> c = 0x25) lower then None
            else if ends_in_number lower then parse_ipv4 lower
            else Some (Domain lower) })"

section \<open>The parser\<close>

definition trim_controls :: "bytes \<Rightarrow> bytes" where
  "trim_controls s = rev (dropWhile (\<lambda>c. c \<le> 0x20) (rev (dropWhile (\<lambda>c. c \<le> 0x20) s)))"

definition drop_newlines :: "bytes \<Rightarrow> bytes" where
  "drop_newlines s = filter (\<lambda>c. c \<notin> {0x09, 0x0A, 0x0D}) s"

definition scheme_char :: "u8 \<Rightarrow> bool" where
  "scheme_char c \<longleftrightarrow> 0x41 \<le> c \<and> c \<le> 0x5A \<or> 0x61 \<le> c \<and> c \<le> 0x7A \<or> digit c \<noteq> None \<or> c \<in> {0x2B, 0x2D, 0x2E}"

definition url_split_scheme :: "bytes \<Rightarrow> (bytes \<times> bytes) option" where
  "url_split_scheme s = do {
     colon \<leftarrow> find_byte COLON s;
     let sch = take colon s;
     if sch = [] then None
     else if \<not> (0x41 \<le> hd sch \<and> hd sch \<le> 0x5A \<or> 0x61 \<le> hd sch \<and> hd sch \<le> 0x7A) \<or> \<not> list_all scheme_char (tl sch) then None
     else Some (to_ascii_lowercase sch, drop (colon + 1) s) }"

definition split_host_port :: "bytes \<Rightarrow> (bytes \<times> bytes option) option" where
  "split_host_port hostport =
     (if begins_with 0x5B hostport then do {
        close \<leftarrow> find_byte 0x5D hostport;
        let h = take (close + 1) hostport;
        let rest = drop (close + 1) hostport;
        (case strip_prefix [COLON] rest of
           Some p \<Rightarrow> Some (h, Some p)
         | None \<Rightarrow> if rest = [] then Some (h, None) else None) }
      else (case rfind_byte COLON hostport of
              Some i \<Rightarrow> Some (take i hostport, Some (drop (i + 1) hostport))
            | None \<Rightarrow> Some (hostport, None)))"

definition parse_port :: "bytes option \<Rightarrow> u16 option option" where
  "parse_port port_s =
     (case port_s of
        None \<Rightarrow> Some None
      | Some p \<Rightarrow>
          if p = [] then Some None
          else if \<not> list_all (\<lambda>b. digit b \<noteq> None) p \<or> length p > 5 then None
          else map_option Some (parse_u16 p))"

definition parse_authority :: "url \<Rightarrow> bytes \<Rightarrow> bool \<Rightarrow> url option" where
  "parse_authority u auth special =
     (let (userinfo, hostport) =
        (case rfind_byte 0x40 auth of Some i \<Rightarrow> (take i auth, drop (i + 1) auth) | None \<Rightarrow> ([], auth));
          u = (case split_once COLON userinfo of
                 Some (un, pw) \<Rightarrow> u\<lparr>u_username := un, u_password := pw\<rparr>
               | None \<Rightarrow> u\<lparr>u_username := userinfo\<rparr>)
      in do {
        (host_s, port_s) \<leftarrow> split_host_port hostport;
        if host_s = [] then
          (if special \<or> userinfo \<noteq> [] \<or> port_s \<noteq> None then None else Some (u\<lparr>u_host := Some EmptyHost\<rparr>))
        else do {
          h \<leftarrow> parse_host host_s special;
          prt \<leftarrow> parse_port port_s;
          Some (case prt of None \<Rightarrow> u\<lparr>u_host := Some h\<rparr> | Some p \<Rightarrow> u\<lparr>u_host := Some h, u_port := Some p\<rparr>) } })"

definition split_at_slash :: "(u8 \<Rightarrow> bool) \<Rightarrow> bytes \<Rightarrow> bytes \<times> bytes" where
  "split_at_slash is_slash body = (takeWhile (\<lambda>c. \<not> is_slash c) body, dropWhile (\<lambda>c. \<not> is_slash c) body)"

definition after_authority :: "url \<Rightarrow> bytes \<Rightarrow> (url \<times> bytes) option" where
  "after_authority u rest =
     (let special = is_special_scheme (u_scheme u);
          is_slash = (\<lambda>c. c = SLASH \<or> special \<and> c = 0x5C)
      in if u_scheme u = lit ''file'' then
           (if 2 \<le> length rest \<and> is_slash (rest ! 0) \<and> is_slash (rest ! 1) then
              (let (auth, tail) = split_at_slash is_slash (drop 2 rest)
               in do {
                 h \<leftarrow> (if auth = [] then Some EmptyHost
                      else map_option (\<lambda>h. if h = Domain (lit ''localhost'') then EmptyHost else h) (parse_host auth True));
                 Some (u\<lparr>u_host := Some h\<rparr>, tail) })
            else Some (u\<lparr>u_host := Some EmptyHost\<rparr>, rest))
         else if special then
           (let (auth, tail) = split_at_slash is_slash (dropWhile is_slash rest)
            in do { u \<leftarrow> parse_authority u auth True; Some (u, tail) })
         else (case strip_prefix [SLASH, SLASH] rest of
             Some body \<Rightarrow>
               (let (auth, tail) = split_at_slash (\<lambda>c. c = SLASH) body
                in do { u \<leftarrow> parse_authority u auth False; Some (u, tail) })
           | None \<Rightarrow> Some (u, rest)))"

definition url_path_of :: "bool \<Rightarrow> bytes \<Rightarrow> bytes" where
  "url_path_of special tail =
     (if special then (let p = map (\<lambda>c. if c = 0x5C then SLASH else c) tail in if p = [] then [SLASH] else p) else tail)"

definition split_off :: "u8 \<Rightarrow> bytes \<Rightarrow> bytes \<times> bytes option" where
  "split_off b s = (case split_once b s of Some (l, r) \<Rightarrow> (l, Some r) | None \<Rightarrow> (s, None))"

definition url_parse :: "bytes \<Rightarrow> url option" where
  "url_parse input =
     (if length input > MAX_URL_BYTES then None
      else do {
        (sch, rest) \<leftarrow> url_split_scheme (drop_newlines (trim_controls input));
        let (rest, fragment) = split_off 0x23 rest;
        let (rest, query) = split_off 0x3F rest;
        (u, tail) \<leftarrow> after_authority \<lparr>u_scheme = sch, u_username = [], u_password = [], u_host = None, u_port = None,
                       u_path = [], u_query = query, u_fragment = fragment\<rparr> rest;
        let u = u\<lparr>u_path := url_path_of (is_special_scheme sch) tail\<rparr>;
        Some (if u_port u \<noteq> None \<and> u_port u = web_default_port (u_scheme u) then u\<lparr>u_port := None\<rparr> else u) })"

end
