(* ===== verification/Websec_Url_Laws.thy ===== *)
theory Websec_Url_Laws
  imports Websec_Url
begin

text \<open>
  What \<^verbatim>\<open>Url::parse\<close> guarantees (\<open>url_ok\<close>), and that serialising a parsed network URL and
  parsing the result gives the same URL.
\<close>

section \<open>Well-formed URLs\<close>

definition NEWLINES :: "u8 set" where "NEWLINES = {0x09, 0x0A, 0x0D}"

definition avoids :: "u8 set \<Rightarrow> bytes \<Rightarrow> bool" where
  "avoids bad s \<longleftrightarrow> (\<forall>c \<in> set s. c \<notin> bad)"

lemma avoids_simps [simp]:
  "avoids bad []" "avoids bad (c # s) \<longleftrightarrow> c \<notin> bad \<and> avoids bad s" "avoids bad (s @ t) \<longleftrightarrow> avoids bad s \<and> avoids bad t"
  by (auto simp: avoids_def)

lemma avoids_sub: "avoids bad s \<Longrightarrow> set t \<subseteq> set s \<Longrightarrow> avoids bad t"
  by (auto simp: avoids_def)

lemma avoids_mono: "avoids bad s \<Longrightarrow> bad' \<subseteq> bad \<Longrightarrow> avoids bad' s"
  by (auto simp: avoids_def)

definition scheme_ok :: "bytes \<Rightarrow> bool" where
  "scheme_ok s \<longleftrightarrow> s \<noteq> [] \<and> 0x61 \<le> hd s \<and> hd s \<le> 0x7A \<and> list_all scheme_char s \<and> to_ascii_lowercase s = s"

definition host_ok :: "host \<Rightarrow> bool" where
  "host_ok h =
     (case h of
        Domain d \<Rightarrow> d \<noteq> [] \<and> is_ascii d \<and> to_ascii_lowercase d = d \<and> \<not> list_ex (\<lambda>c. forbidden_host_cp c \<or> c = 0x25) d
          \<and> \<not> ends_in_number d
      | Ipv4 _ _ _ _ \<Rightarrow> True
      | Ipv6 p \<Rightarrow> length p = 8
      | OpaqueHost d \<Rightarrow> d \<noteq> [] \<and> is_ascii d \<and> \<not> list_ex forbidden_host_cp d
      | EmptyHost \<Rightarrow> True)"

definition host_kind_ok :: "bytes \<Rightarrow> host option \<Rightarrow> bool" where
  "host_kind_ok s h =
     (if is_special_scheme s
      then (case h of Some (Domain _) \<Rightarrow> True | Some (Ipv4 _ _ _ _) \<Rightarrow> True | Some (Ipv6 _) \<Rightarrow> True
              | Some EmptyHost \<Rightarrow> s = lit ''file'' | _ \<Rightarrow> False)
      else (case h of Some (Domain _) \<Rightarrow> False | Some (Ipv4 _ _ _ _) \<Rightarrow> False | _ \<Rightarrow> True))"

definition userinfo_ok :: "url \<Rightarrow> bool" where
  "userinfo_ok u \<longleftrightarrow> avoids ({0x23, 0x3F, SLASH, COLON} \<union> NEWLINES) (u_username u)
     \<and> avoids ({0x23, 0x3F, SLASH} \<union> NEWLINES) (u_password u)
     \<and> (is_special u \<longrightarrow> avoids {0x5C} (u_username u) \<and> avoids {0x5C} (u_password u))
     \<and> (u_host u = None \<or> u_host u = Some EmptyHost \<longrightarrow> \<not> has_credentials u \<and> u_port u = None)"

definition path_ok :: "url \<Rightarrow> bool" where
  "path_ok u \<longleftrightarrow> avoids ({0x23, 0x3F} \<union> NEWLINES) (u_path u)
     \<and> (is_special u \<longrightarrow> u_path u \<noteq> [] \<and> avoids {0x5C} (u_path u))
     \<and> (is_special u \<and> u_scheme u \<noteq> lit ''file'' \<longrightarrow> begins_with SLASH (u_path u))
     \<and> (\<forall>q. u_query u = Some q \<longrightarrow> avoids ({0x23} \<union> NEWLINES) q)
     \<and> (\<forall>f. u_fragment u = Some f \<longrightarrow> avoids NEWLINES f)"

definition url_ok :: "url \<Rightarrow> bool" where
  "url_ok u \<longleftrightarrow> scheme_ok (u_scheme u) \<and> host_kind_ok (u_scheme u) (u_host u)
     \<and> (\<forall>h. u_host u = Some h \<longrightarrow> host_ok h)
     \<and> (u_port u \<noteq> None \<longrightarrow> u_port u \<noteq> web_default_port (u_scheme u))
     \<and> userinfo_ok u \<and> path_ok u"

section \<open>Hosts\<close>

lemma parse_ipv6_length: "parse_ipv6 s = Some p \<Longrightarrow> length p = 8"
  by (auto simp: parse_ipv6_def bind_eq_Some_conv split: if_splits option.splits)

lemma parse_ipv4_kind: "parse_ipv4 s = Some h \<Longrightarrow> \<exists>a b c d. h = Ipv4 a b c d"
  by (auto simp: parse_ipv4_def Let_def bind_eq_Some_conv split: if_splits)

lemma percent_decode_ascii_Some: "percent_decode_ascii s = Some out \<Longrightarrow> is_ascii out"
  by (auto simp: percent_decode_ascii_def Let_def split: if_splits)

lemma parse_host_special:
  assumes "parse_host s True = Some h"
  shows "host_ok h \<and> (case h of Domain _ \<Rightarrow> True | Ipv4 _ _ _ _ \<Rightarrow> True | Ipv6 _ \<Rightarrow> True | _ \<Rightarrow> False)"
proof (cases "strip_prefix [0x5B] s")
  case (Some inner)
  then show ?thesis using assms parse_ipv6_length
    by (auto simp: parse_host_def bind_eq_Some_conv host_ok_def)
next
  case None
  with assms obtain d where d: "percent_decode_ascii s = Some d" "to_ascii_lowercase d \<noteq> []"
      "\<not> list_ex (\<lambda>c. forbidden_host_cp c \<or> c = 0x25) (to_ascii_lowercase d)"
      "(if ends_in_number (to_ascii_lowercase d) then parse_ipv4 (to_ascii_lowercase d) else Some (Domain (to_ascii_lowercase d))) = Some h"
    by (auto simp: parse_host_def Let_def bind_eq_Some_conv split: if_splits)
  have "is_ascii (to_ascii_lowercase d)"
    by (rule is_ascii_lower [OF _ percent_decode_ascii_Some [OF d(1)]]) (simp add: to_ascii_lowercase_def)
  then show ?thesis using d parse_ipv4_kind [of "to_ascii_lowercase d" h]
    by (cases "ends_in_number (to_ascii_lowercase d)") (auto simp: host_ok_def)
qed

lemma parse_host_opaque:
  assumes "parse_host s False = Some h"
  shows "host_ok h \<and> (case h of OpaqueHost _ \<Rightarrow> True | Ipv6 _ \<Rightarrow> True | _ \<Rightarrow> False)"
proof (cases "strip_prefix [0x5B] s")
  case (Some inner)
  then show ?thesis using assms parse_ipv6_length
    by (auto simp: parse_host_def bind_eq_Some_conv host_ok_def)
next
  case None
  then show ?thesis using assms
    by (auto simp: parse_host_def host_ok_def is_ascii_def list_ex_iff not_le split: if_splits)
qed

section \<open>The authority\<close>

lemma find_byte_Some: "find_byte b t = Some n \<longleftrightarrow> (\<exists>l r. t = l @ b # r \<and> b \<notin> set l \<and> n = length l)"
proof
  assume "find_byte b t = Some n"
  then have n: "n = length (takeWhile (\<lambda>c. c \<noteq> b) t)" "n < length t"
    by (auto simp: find_byte_def Let_def split: if_splits)
  then have "t ! n = b" using nth_length_takeWhile [of "\<lambda>c. c \<noteq> b" t] by simp
  then have "t = takeWhile (\<lambda>c. c \<noteq> b) t @ b # drop (Suc n) t"
    using n by (metis (mono_tags, lifting) id_take_nth_drop takeWhile_eq_take)
  moreover have "b \<notin> set (takeWhile (\<lambda>c. c \<noteq> b) t)" by (auto dest: set_takeWhileD)
  ultimately show "\<exists>l r. t = l @ b # r \<and> b \<notin> set l \<and> n = length l" using n(1) by blast
next
  assume "\<exists>l r. t = l @ b # r \<and> b \<notin> set l \<and> n = length l"
  then obtain l r where t: "t = l @ b # r" "b \<notin> set l" "n = length l" by blast
  then have "takeWhile (\<lambda>c. c \<noteq> b) t = l" by (auto simp: takeWhile_append)
  then show "find_byte b t = Some n" using t by (simp add: find_byte_def)
qed

lemma find_byte_None: "find_byte b t = None \<longleftrightarrow> b \<notin> set t"
proof
  assume "find_byte b t = None"
  then show "b \<notin> set t" using find_byte_Some [of b t] split_list_first [of b t] by fastforce
next
  assume "b \<notin> set t"
  then show "find_byte b t = None" using find_byte_Some [of b t "the (find_byte b t)"] by (cases "find_byte b t") auto
qed

lemma rfind_byte_Some: "rfind_byte b s = Some i \<longleftrightarrow> (\<exists>l r. s = l @ b # r \<and> b \<notin> set r \<and> i = length l)"
proof -
  have "rfind_byte b s = Some i \<longleftrightarrow> (\<exists>l r. rev s = l @ b # r \<and> b \<notin> set l \<and> i = length s - Suc (length l))"
    by (auto simp: rfind_byte_def find_byte_Some)
  also have "\<dots> \<longleftrightarrow> (\<exists>l r. s = l @ b # r \<and> b \<notin> set r \<and> i = length l)"
  proof safe
    fix l r
    assume "rev s = l @ b # r" "b \<notin> set l"
    then have "s = rev (l @ b # r)" "b \<notin> set (rev l)" by (metis rev_rev_ident, simp)
    then show "\<exists>l' r'. s = l' @ b # r' \<and> b \<notin> set r' \<and> length s - Suc (length l) = length l'"
      by (intro exI [of _ "rev r"] exI [of _ "rev l"]) simp
  next
    fix l r
    assume "b \<notin> set r"
    then show "\<exists>l' r'. rev (l @ b # r) = l' @ b # r' \<and> b \<notin> set l' \<and> length l = length (l @ b # r) - Suc (length l')"
      by (intro exI [of _ "rev r"] exI [of _ "rev l"]) simp
  qed
  finally show ?thesis .
qed

lemma rfind_byte_None: "rfind_byte b s = None \<longleftrightarrow> b \<notin> set s"
  by (simp add: rfind_byte_def find_byte_None)

lemma split_host_port_sub: "split_host_port s = Some (h, p) \<Longrightarrow> set h \<subseteq> set s"
  by (auto simp: split_host_port_def Let_def bind_eq_Some_conv split: if_splits option.splits dest: in_set_takeD)

text \<open>The parts of the authority: user info, host and port.\<close>

definition authority_sets :: "url \<Rightarrow> bytes \<Rightarrow> url \<Rightarrow> bool" where
  "authority_sets u auth u' \<longleftrightarrow>
     (\<exists>un pw h p. u' = u\<lparr>u_username := un, u_password := pw, u_host := Some h, u_port := p\<rparr>
        \<and> set un \<subseteq> set auth \<and> COLON \<notin> set un \<and> set pw \<subseteq> set auth)"

lemma parse_authority_sets:
  assumes "parse_authority u auth special = Some u'" "u_password u = []" "u_port u = None"
  shows "authority_sets u auth u'"
    and "(\<exists>h s. u_host u' = Some h \<and> parse_host s special = Some h)
      \<or> \<not> special \<and> u_host u' = Some EmptyHost \<and> \<not> has_credentials u' \<and> u_port u' = None"
proof -
  define uh where "uh = (case rfind_byte 0x40 auth of Some i \<Rightarrow> (take i auth, drop (i + 1) auth) | None \<Rightarrow> ([], auth))"
  define v where "v = (case split_once COLON (fst uh) of
      Some (un, pw) \<Rightarrow> u\<lparr>u_username := un, u_password := pw\<rparr> | None \<Rightarrow> u\<lparr>u_username := fst uh\<rparr>)"
  have sub: "set (fst uh) \<subseteq> set auth" by (auto simp: uh_def split: option.splits dest: in_set_takeD)
  obtain un pw where v: "v = u\<lparr>u_username := un, u_password := pw\<rparr>" "set un \<subseteq> set auth" "set pw \<subseteq> set auth" "COLON \<notin> set un"
    "fst uh = [] \<longrightarrow> un = [] \<and> pw = []"
  proof (cases "split_once COLON (fst uh)")
    case None
    then have "v = u\<lparr>u_username := fst uh, u_password := []\<rparr>" using assms(2) by (cases u) (simp add: v_def)
    moreover have "COLON \<notin> set (fst uh)" using None by (simp add: split_once_None)
    ultimately show ?thesis using sub by (intro that [of "[]" "fst uh"]) auto
  next
    case (Some lr)
    obtain un pw where lr: "lr = (un, pw)" by (cases lr)
    with Some have e: "fst uh = un @ COLON # pw" "COLON \<notin> set un" by (auto simp: split_once_Some)
    moreover have "v = u\<lparr>u_username := un, u_password := pw\<rparr>" using Some lr by (simp add: v_def)
    ultimately show ?thesis using sub by (intro that [of pw un]) auto
  qed
  have pa: "parse_authority u auth special = do {
      (host_s, port_s) \<leftarrow> split_host_port (snd uh);
      if host_s = [] then (if special \<or> fst uh \<noteq> [] \<or> port_s \<noteq> None then None else Some (v\<lparr>u_host := Some EmptyHost\<rparr>))
      else do {
        h \<leftarrow> parse_host host_s special;
        prt \<leftarrow> parse_port port_s;
        Some (case prt of None \<Rightarrow> v\<lparr>u_host := Some h\<rparr> | Some p \<Rightarrow> v\<lparr>u_host := Some h, u_port := Some p\<rparr>) } }"
    unfolding parse_authority_def uh_def [symmetric] v_def Let_def case_prod_unfold ..
  with assms(1) obtain hs ps where hp: "split_host_port (snd uh) = Some (hs, ps)" by (auto simp: bind_eq_Some_conv)
  consider (empty) "hs = []" "\<not> special" "fst uh = []" "ps = None" "u' = v\<lparr>u_host := Some EmptyHost\<rparr>"
    | (full) h prt where "parse_host hs special = Some h"
        "u' = (case prt of None \<Rightarrow> v\<lparr>u_host := Some h\<rparr> | Some p \<Rightarrow> v\<lparr>u_host := Some h, u_port := Some p\<rparr>)"
    using assms(1) hp unfolding pa by (auto simp: bind_eq_Some_conv split: if_splits)
  then have "authority_sets u auth u' \<and> ((\<exists>h s. u_host u' = Some h \<and> parse_host s special = Some h)
      \<or> \<not> special \<and> u_host u' = Some EmptyHost \<and> \<not> has_credentials u' \<and> u_port u' = None)"
  proof cases
    case empty
    then have e: "u' = u\<lparr>u_username := un, u_password := pw, u_host := Some EmptyHost, u_port := None\<rparr>"
      using v(1) assms(3) by simp
    then have "u_host u' = Some EmptyHost" "\<not> has_credentials u'" "u_port u' = None"
      using v(5) empty(3) by (simp_all add: has_credentials_def)
    moreover have "authority_sets u auth u'" unfolding authority_sets_def using e v(2-4) by blast
    ultimately show ?thesis using empty(2) by blast
  next
    case (full h prt)
    then have e: "u' = u\<lparr>u_username := un, u_password := pw, u_host := Some h, u_port := prt\<rparr>"
      using v(1) assms(3) by (cases prt) auto
    then have "u_host u' = Some h" by simp
    moreover have "authority_sets u auth u'" unfolding authority_sets_def using e v(2-4) by blast
    ultimately show ?thesis using full(1) by blast
  qed
  then show "authority_sets u auth u'"
    and "(\<exists>h s. u_host u' = Some h \<and> parse_host s special = Some h)
      \<or> \<not> special \<and> u_host u' = Some EmptyHost \<and> \<not> has_credentials u' \<and> u_port u' = None" by blast+
qed

definition fresh_url :: "url \<Rightarrow> bool" where
  "fresh_url u \<longleftrightarrow> u_username u = [] \<and> u_password u = [] \<and> u_host u = None \<and> u_port u = None"

definition authority_ok :: "url \<Rightarrow> bytes \<Rightarrow> url \<Rightarrow> bytes \<Rightarrow> bool" where
  "authority_ok u rest u' tail \<longleftrightarrow>
     (\<exists>un pw h p. u' = u\<lparr>u_username := un, u_password := pw, u_host := h, u_port := p\<rparr>)
     \<and> host_kind_ok (u_scheme u) (u_host u') \<and> (\<forall>h. u_host u' = Some h \<longrightarrow> host_ok h)
     \<and> userinfo_ok u' \<and> suffix tail rest
     \<and> (is_special u \<and> u_scheme u \<noteq> lit ''file'' \<longrightarrow> tail = [] \<or> hd tail \<in> {SLASH, 0x5C})"

lemma host_only_ok:
  assumes "fresh_url u" "host_kind_ok (u_scheme u) h" "\<And>x. h = Some x \<Longrightarrow> host_ok x" "suffix tail rest"
    "\<not> (is_special u \<and> u_scheme u \<noteq> lit ''file'')"
  shows "authority_ok u rest (u\<lparr>u_host := h\<rparr>) tail"
proof -
  have "u\<lparr>u_host := h\<rparr> = u\<lparr>u_username := [], u_password := [], u_host := h, u_port := None\<rparr>"
    using assms(1) by (cases u) (simp add: fresh_url_def)
  then have "\<exists>un pw h' p. u\<lparr>u_host := h\<rparr> = u\<lparr>u_username := un, u_password := pw, u_host := h', u_port := p\<rparr>" by blast
  moreover have "userinfo_ok (u\<lparr>u_host := h\<rparr>)" using assms(1) by (simp add: fresh_url_def userinfo_ok_def has_credentials_def)
  ultimately show ?thesis unfolding authority_ok_def using assms(2-5) by auto
qed

lemma parse_host_nonempty: "parse_host s special \<noteq> Some EmptyHost"
  using parse_host_special [of s EmptyHost] parse_host_opaque [of s EmptyHost] by (cases special) auto

lemma parsed_authority_ok:
  assumes pa: "parse_authority u auth special = Some u'" and u: "fresh_url u" "special = is_special u" "u_scheme u \<noteq> lit ''file''"
    and auth: "avoids ({0x23, 0x3F, SLASH} \<union> NEWLINES) auth" "special \<longrightarrow> avoids {0x5C} auth"
    and tail: "suffix tail rest" "special \<longrightarrow> tail = [] \<or> hd tail \<in> {SLASH, 0x5C}"
  shows "authority_ok u rest u' tail"
proof -
  have z: "u_password u = []" "u_port u = None" using u(1) by (simp_all add: fresh_url_def)
  note sets = parse_authority_sets(1) [OF pa z] and hosts = parse_authority_sets(2) [OF pa z]
  from sets obtain un pw h p where e: "u' = u\<lparr>u_username := un, u_password := pw, u_host := Some h, u_port := p\<rparr>"
      "set un \<subseteq> set auth" "COLON \<notin> set un" "set pw \<subseteq> set auth" unfolding authority_sets_def by blast
  have ne: "h \<noteq> EmptyHost \<or> \<not> has_credentials u' \<and> u_port u' = None"
    using hosts e(1) parse_host_nonempty by auto
  have "host_kind_ok (u_scheme u) (Some h)" "host_ok h"
    using hosts e(1) u(2,3) parse_host_special [of _ h] parse_host_opaque [of _ h]
    by (cases special; auto simp: host_kind_ok_def is_special_def host_ok_def split: host.splits)+
  moreover have "avoids ({0x23, 0x3F, SLASH, COLON} \<union> NEWLINES) un" "avoids ({0x23, 0x3F, SLASH} \<union> NEWLINES) pw"
    using auth(1) e(2-4) by (auto simp: avoids_def)
  moreover have "is_special u \<longrightarrow> avoids {0x5C} un \<and> avoids {0x5C} pw" using auth(2) e(2,4) u(2) by (auto simp: avoids_def)
  moreover have "is_special u' = is_special u" using e(1) by (simp add: is_special_def)
  ultimately have "userinfo_ok u'" "host_kind_ok (u_scheme u) (u_host u')" "\<forall>x. u_host u' = Some x \<longrightarrow> host_ok x"
    using e(1) ne by (auto simp: userinfo_ok_def)
  then show ?thesis unfolding authority_ok_def using e(1) tail u(2,3) by blast
qed

lemma split_at_slash_parts:
  assumes "split_at_slash is_slash body = (auth, tail)"
  shows "set auth \<subseteq> set body" "suffix tail body" "\<forall>c \<in> set auth. \<not> is_slash c" "tail = [] \<or> is_slash (hd tail)"
proof -
  from assms have e: "auth = takeWhile (\<lambda>c. \<not> is_slash c) body" "tail = dropWhile (\<lambda>c. \<not> is_slash c) body"
    by (simp_all add: split_at_slash_def)
  then have "body = auth @ tail" by simp
  then show "set auth \<subseteq> set body" "suffix tail body" by (auto simp: suffix_def)
  show "\<forall>c \<in> set auth. \<not> is_slash c" unfolding e by (auto dest: set_takeWhileD)
  show "tail = [] \<or> is_slash (hd tail)" unfolding e using hd_dropWhile [of "\<lambda>c. \<not> is_slash c" body] by blast
qed

lemma after_authority_ok:
  assumes "after_authority u rest = Some (u', tail)" "fresh_url u" "avoids ({0x23, 0x3F} \<union> NEWLINES) rest"
  shows "authority_ok u rest u' tail"
proof -
  let ?slash = "\<lambda>c. c = SLASH \<or> is_special_scheme (u_scheme u) \<and> c = 0x5C"
  consider (isfile) "u_scheme u = lit ''file''" | (net) "u_scheme u \<noteq> lit ''file''" "is_special u"
    | (other) "u_scheme u \<noteq> lit ''file''" "\<not> is_special u" by blast
  then show ?thesis
  proof cases
    case isfile
    then have sp: "is_special_scheme (u_scheme u)" by (simp add: is_special_scheme_def)
    obtain h where h: "u' = u\<lparr>u_host := Some h\<rparr>" "suffix tail rest" "h = EmptyHost \<or> (\<exists>s. parse_host s True = Some h)"
    proof (cases "2 \<le> length rest \<and> ?slash (rest ! 0) \<and> ?slash (rest ! 1)")
      case True
      obtain auth t where st: "split_at_slash ?slash (drop 2 rest) = (auth, t)" by fastforce
      have sub: "suffix t rest" using split_at_slash_parts(2) [OF st] suffix_drop suffix_order.trans by blast
      from True st assms(1) isfile obtain h where "u' = u\<lparr>u_host := Some h\<rparr>" "tail = t"
          "(if auth = [] then Some EmptyHost
            else map_option (\<lambda>h. if h = Domain (lit ''localhost'') then EmptyHost else h) (parse_host auth True)) = Some h"
        unfolding after_authority_def Let_def by (auto simp: bind_eq_Some_conv)
      then show ?thesis using sub that [of h] by (auto split: if_splits)
    next
      case False
      then show ?thesis using assms(1) isfile that [of EmptyHost] unfolding after_authority_def Let_def by auto
    qed
    from h(3) have "host_ok h \<and> (case h of OpaqueHost _ \<Rightarrow> False | _ \<Rightarrow> True)"
    proof
      assume "\<exists>s. parse_host s True = Some h"
      then show ?thesis using parse_host_special by (force split: host.splits)
    qed (simp add: host_ok_def)
    then have "host_ok h" "host_kind_ok (u_scheme u) (Some h)"
      using sp isfile by (auto simp: host_kind_ok_def split: host.splits)
    then show ?thesis unfolding h(1) using assms(2) h(2) isfile by (intro host_only_ok) auto
  next
    case net
    obtain auth t where st: "split_at_slash ?slash (dropWhile ?slash rest) = (auth, t)" by fastforce
    from assms(1) net st have pa: "parse_authority u auth True = Some u'" "tail = t"
      unfolding after_authority_def Let_def by (auto simp: is_special_def bind_eq_Some_conv)
    note parts = split_at_slash_parts [OF st]
    have sub: "set auth \<subseteq> set rest" "suffix t rest"
      using parts(1,2) suffix_dropWhile [of ?slash rest] set_mono_suffix suffix_order.trans by blast+
    show ?thesis
    proof (rule parsed_authority_ok [OF pa(1) assms(2)])
      show "avoids ({0x23, 0x3F, SLASH} \<union> NEWLINES) auth" "True \<longrightarrow> avoids {0x5C} auth"
        using parts(3) sub(1) assms(3) net(2) by (auto simp: avoids_def is_special_def)
    qed (use net pa(2) sub(2) parts(4) in \<open>auto simp: is_special_def\<close>)
  next
    case other
    show ?thesis
    proof (cases "strip_prefix [SLASH, SLASH] rest")
      case None
      then have "u' = u\<lparr>u_host := None\<rparr>" "tail = rest" using assms(1,2) other
        by (auto simp: after_authority_def Let_def is_special_def fresh_url_def)
      then show ?thesis using other assms(2) by (auto intro!: host_only_ok simp: host_kind_ok_def is_special_def)
    next
      case (Some body)
      obtain auth t where st: "split_at_slash (\<lambda>c. c = SLASH) body = (auth, t)" by fastforce
      from assms(1) other Some st have pa: "parse_authority u auth False = Some u'" "tail = t"
        unfolding after_authority_def Let_def by (auto simp: is_special_def bind_eq_Some_conv)
      note parts = split_at_slash_parts [OF st]
      have "suffix body rest" using Some by (auto simp: strip_prefix_Some suffix_def)
      then have sub: "set auth \<subseteq> set rest" "suffix t rest" using parts(1,2) set_mono_suffix suffix_order.trans by blast+
      show ?thesis
      proof (rule parsed_authority_ok [OF pa(1) assms(2)])
        show "avoids ({0x23, 0x3F, SLASH} \<union> NEWLINES) auth" "False \<longrightarrow> avoids {0x5C} auth"
          using parts(3) sub(1) assms(3) by (auto simp: avoids_def)
      qed (use other pa(2) sub(2) in auto)
    qed
  qed
qed

section \<open>What the parser returns\<close>

lemma trim_controls_sub: "set (trim_controls s) \<subseteq> set s"
  by (auto simp: trim_controls_def dest!: set_dropWhileD)

lemma drop_newlines_clean: "avoids NEWLINES (drop_newlines s)"
  by (auto simp: avoids_def drop_newlines_def NEWLINES_def)

lemma lower_alpha: "0x41 \<le> b \<and> b \<le> 0x5A \<or> 0x61 \<le> b \<and> b \<le> 0x7A \<Longrightarrow> 0x61 \<le> lower_byte b \<and> lower_byte b \<le> 0x7A" for b :: u8
  by (auto simp: lower_byte_def word_le_nat_alt unat_word_ariths)

lemma scheme_char_lower: "scheme_char b \<Longrightarrow> scheme_char (lower_byte b)"
  using lower_alpha [of b] by (auto simp: scheme_char_def lower_byte_def)

lemma url_split_scheme_Some:
  assumes "url_split_scheme s = Some (sch, rest)"
  shows "scheme_ok sch" "set rest \<subseteq> set s"
proof -
  from assms obtain i where i: "find_byte COLON s = Some i" "take i s \<noteq> []" "sch = to_ascii_lowercase (take i s)"
      "0x41 \<le> hd (take i s) \<and> hd (take i s) \<le> 0x5A \<or> 0x61 \<le> hd (take i s) \<and> hd (take i s) \<le> 0x7A"
      "list_all scheme_char (tl (take i s))" "rest = drop (i + 1) s"
    by (auto simp: url_split_scheme_def Let_def bind_eq_Some_conv split: if_splits)
  obtain c cs where cs: "take i s = c # cs" using i(2) by (cases "take i s") auto
  have "scheme_char c" using i(4) cs by (auto simp: scheme_char_def)
  then show "scheme_ok sch" using i cs lower_alpha [of c] scheme_char_lower
    by (auto simp: scheme_ok_def list_all_iff to_ascii_lowercase_def)
  show "set rest \<subseteq> set s" using i(6) by (auto dest: in_set_dropD)
qed

lemma split_off_Some: "split_off b s = (l, r) \<Longrightarrow> b \<notin> set l \<and> set l \<subseteq> set s \<and> (\<forall>x. r = Some x \<longrightarrow> set x \<subseteq> set s)"
  by (auto simp: split_off_def split_once_Some split_once_None split: option.splits)

lemma url_path_of_ok:
  assumes "avoids ({0x23, 0x3F} \<union> NEWLINES) tail"
  shows "avoids ({0x23, 0x3F} \<union> NEWLINES) (url_path_of sp tail)"
    and "sp \<Longrightarrow> url_path_of sp tail \<noteq> [] \<and> avoids {0x5C} (url_path_of sp tail)"
    and "sp \<Longrightarrow> tail = [] \<or> hd tail \<in> {SLASH, 0x5C} \<Longrightarrow> begins_with SLASH (url_path_of sp tail)"
proof -
  let ?p = "map (\<lambda>c. if c = 0x5C then SLASH else c) tail"
  have e: "url_path_of sp tail = (if sp then if tail = [] then [SLASH] else ?p else tail)" by (simp add: url_path_of_def)
  have sl: "SLASH \<notin> {0x23, 0x3F} \<union> NEWLINES" "SLASH \<noteq> 0x5C" by (simp_all add: NEWLINES_def)
  then have "avoids ({0x23, 0x3F} \<union> NEWLINES) ?p" "avoids {0x5C} ?p" using assms unfolding avoids_def by auto
  then show "avoids ({0x23, 0x3F} \<union> NEWLINES) (url_path_of sp tail)"
    and "sp \<Longrightarrow> url_path_of sp tail \<noteq> [] \<and> avoids {0x5C} (url_path_of sp tail)" unfolding e using assms sl by auto
  show "begins_with SLASH (url_path_of sp tail)" if "sp" "tail = [] \<or> hd tail \<in> {SLASH, 0x5C}"
    unfolding e using that by (cases tail) auto
qed

lemma url_parse_Some:
  assumes "url_parse input = Some u"
  obtains sch rest0 rest1 f rest q v tail where
    "url_split_scheme (drop_newlines (trim_controls input)) = Some (sch, rest0)"
    "split_off 0x23 rest0 = (rest1, f)" "split_off 0x3F rest1 = (rest, q)"
    "after_authority \<lparr>u_scheme = sch, u_username = [], u_password = [], u_host = None, u_port = None,
       u_path = [], u_query = q, u_fragment = f\<rparr> rest = Some (v, tail)"
    "u = v\<lparr>u_path := url_path_of (is_special_scheme sch) tail,
       u_port := (if u_port v = web_default_port (u_scheme v) then None else u_port v)\<rparr>"
proof -
  have "url_split_scheme (drop_newlines (trim_controls input)) \<noteq> None"
    using assms by (intro notI) (simp add: url_parse_def split: if_splits)
  then obtain sch rest0 where 1: "url_split_scheme (drop_newlines (trim_controls input)) = Some (sch, rest0)" by auto
  obtain rest1 f where 2: "split_off 0x23 rest0 = (rest1, f)" by fastforce
  obtain rest q where 3: "split_off 0x3F rest1 = (rest, q)" by fastforce
  define u0 where "u0 = \<lparr>u_scheme = sch, u_username = [], u_password = [], u_host = None, u_port = None,
      u_path = [], u_query = q, u_fragment = f\<rparr>"
  have step: "url_parse input = do {
      (u, tail) \<leftarrow> after_authority u0 rest;
      let u = u\<lparr>u_path := url_path_of (is_special_scheme sch) tail\<rparr>;
      Some (if u_port u \<noteq> None \<and> u_port u = web_default_port (u_scheme u) then u\<lparr>u_port := None\<rparr> else u) }"
    using assms unfolding url_parse_def 1 u0_def by (simp add: 2 3 split: if_splits)
  then obtain v tail where 4: "after_authority u0 rest = Some (v, tail)"
    using assms by (cases "after_authority u0 rest") auto
  have "u = v\<lparr>u_path := url_path_of (is_special_scheme sch) tail,
       u_port := (if u_port v = web_default_port (u_scheme v) then None else u_port v)\<rparr>"
    using assms unfolding step 4 Let_def by (cases v) (auto split: if_splits)
  note 4 = 4 [unfolded u0_def] and 5 = this
  show ?thesis by (rule that [OF 1 2 3 4 5])
qed

lemma parse_rest_clean:
  assumes "url_split_scheme (drop_newlines s) = Some (sch, rest0)" "split_off 0x23 rest0 = (rest1, f)" "split_off 0x3F rest1 = (rest, q)"
  shows "avoids NEWLINES rest0" "avoids ({0x23, 0x3F} \<union> NEWLINES) rest"
proof -
  show clean: "avoids NEWLINES rest0" using drop_newlines_clean url_split_scheme_Some(2) [OF assms(1)] by (rule avoids_sub)
  then show "avoids ({0x23, 0x3F} \<union> NEWLINES) rest"
    using split_off_Some [OF assms(2)] split_off_Some [OF assms(3)] by (auto simp: avoids_def)
qed

lemma url_parse_ok:
  assumes "url_parse input = Some u"
  shows "url_ok u"
  using assms
proof (rule url_parse_Some)
  fix sch rest0 rest1 f rest q v tail
  let ?s = "drop_newlines (trim_controls input)"
  let ?u0 = "\<lparr>u_scheme = sch, u_username = [], u_password = [], u_host = None, u_port = None, u_path = [], u_query = q, u_fragment = f\<rparr>"
  assume ss: "url_split_scheme ?s = Some (sch, rest0)" and f: "split_off 0x23 rest0 = (rest1, f)"
    and q: "split_off 0x3F rest1 = (rest, q)" and aa: "after_authority ?u0 rest = Some (v, tail)"
    and u: "u = v\<lparr>u_path := url_path_of (is_special_scheme sch) tail,
       u_port := (if u_port v = web_default_port (u_scheme v) then None else u_port v)\<rparr>"
  note clean = parse_rest_clean(1) [OF ss f q] and rest = parse_rest_clean(2) [OF ss f q]
  note sch = url_split_scheme_Some [OF ss] and f = split_off_Some [OF f] and q = split_off_Some [OF q]
  have "authority_ok ?u0 rest v tail" by (rule after_authority_ok [OF aa _ rest]) (simp add: fresh_url_def)
  then obtain un pw h p where v: "v = ?u0\<lparr>u_username := un, u_password := pw, u_host := h, u_port := p\<rparr>"
    and ok: "host_kind_ok sch h" "\<forall>x. h = Some x \<longrightarrow> host_ok x" "userinfo_ok v" "suffix tail rest"
      "is_special_scheme sch \<and> sch \<noteq> lit ''file'' \<longrightarrow> tail = [] \<or> hd tail \<in> {SLASH, 0x5C}"
    by (auto simp: authority_ok_def is_special_def)
  note path = url_path_of_ok [OF avoids_sub [OF rest set_mono_suffix [OF ok(4)]]]
  have fields: "u_path u = url_path_of (is_special_scheme sch) tail" "u_query u = q" "u_fragment u = f" "u_scheme u = sch"
    using u v by simp_all
  have "avoids ({0x23} \<union> NEWLINES) x" if "q = Some x" for x
    using q that f clean unfolding avoids_def by blast
  moreover have "avoids NEWLINES x" if "f = Some x" for x
    using that f clean unfolding avoids_def by blast
  ultimately have "path_ok u"
    using path ok(5) unfolding path_ok_def is_special_def fields by blast
  moreover have "userinfo_ok u" using ok(3) u v by (simp add: userinfo_ok_def is_special_def has_credentials_def)
  ultimately show "url_ok u" using u v ok(1,2) sch(1) by (simp add: url_ok_def)
qed

text \<open>What is left after trimming ends in a visible character, and so does the serialisation.\<close>

definition visible_end :: "bytes \<Rightarrow> bool" where
  "visible_end s \<longleftrightarrow> s \<noteq> [] \<and> \<not> last s \<le> 0x20"

lemma visible_end_append [simp]: "s \<noteq> [] \<Longrightarrow> visible_end (t @ s) = visible_end s"
  by (simp add: visible_end_def)

lemma visible_end_suffix: "visible_end s \<Longrightarrow> suffix t s \<Longrightarrow> t \<noteq> [] \<Longrightarrow> visible_end t"
  by (auto simp: visible_end_def suffix_def)

lemma trim_controls_end: "trim_controls s = [] \<or> visible_end (trim_controls s)"
proof -
  let ?d = "dropWhile (\<lambda>c. c \<le> 0x20) (rev (dropWhile (\<lambda>c. c \<le> (0x20::u8)) s))"
  have "?d \<noteq> [] \<Longrightarrow> \<not> hd ?d \<le> 0x20" by (rule hd_dropWhile)
  then show ?thesis by (auto simp: trim_controls_def visible_end_def last_rev)
qed

lemma drop_newlines_end: "visible_end s \<Longrightarrow> visible_end (drop_newlines s)"
proof -
  assume v: "visible_end s"
  then obtain t c where s: "s = t @ [c]" "\<not> c \<le> 0x20" by (cases s rule: rev_cases) (auto simp: visible_end_def)
  then have "c \<notin> {0x09, 0x0A, 0x0D}" by auto
  then have "drop_newlines s = drop_newlines t @ [c]" unfolding drop_newlines_def s(1) by simp
  then show ?thesis using s(2) by (simp add: visible_end_def)
qed

lemma split_off_suffix:
  "split_off b s = (l, None) \<Longrightarrow> l = s" "split_off b s = (l, Some r) \<Longrightarrow> suffix (b # r) s"
  by (auto simp: split_off_def split_once_Some suffix_def split: option.splits)

lemma split_scheme_suffix: "url_split_scheme s = Some (sch, rest) \<Longrightarrow> suffix rest s"
  by (auto simp: url_split_scheme_def Let_def bind_eq_Some_conv suffix_drop split: if_splits)

lemma visible_end_path: "visible_end tail \<or> tail = [] \<Longrightarrow> sp \<Longrightarrow> visible_end (url_path_of sp tail)"
  by (auto simp: visible_end_def url_path_of_def last_map)

lemma url_parse_visible:
  assumes "url_parse input = Some u" "is_special u"
  shows "visible_end (url_serialize u False)"
  using assms(1)
proof (rule url_parse_Some)
  fix sch rest0 rest1 f rest q v tail
  let ?s = "drop_newlines (trim_controls input)"
  let ?u0 = "\<lparr>u_scheme = sch, u_username = [], u_password = [], u_host = None, u_port = None, u_path = [], u_query = q, u_fragment = f\<rparr>"
  assume ss: "url_split_scheme ?s = Some (sch, rest0)" and f: "split_off 0x23 rest0 = (rest1, f)"
    and q: "split_off 0x3F rest1 = (rest, q)" and aa: "after_authority ?u0 rest = Some (v, tail)"
    and u: "u = v\<lparr>u_path := url_path_of (is_special_scheme sch) tail,
       u_port := (if u_port v = web_default_port (u_scheme v) then None else u_port v)\<rparr>"
  have "?s \<noteq> []" using ss by (auto simp: url_split_scheme_def find_byte_def)
  then have "trim_controls input \<noteq> []" by (auto simp: drop_newlines_def)
  then have vs: "visible_end ?s" using trim_controls_end drop_newlines_end by blast
  have r0: "visible_end t" if "suffix t rest0" "t \<noteq> []" for t
    using visible_end_suffix [OF vs _ that(2)] split_scheme_suffix [OF ss] that(1) suffix_order.trans by blast
  note rest = parse_rest_clean(2) [OF ss f q]
  have "authority_ok ?u0 rest v tail" by (rule after_authority_ok [OF aa _ rest]) (simp add: fresh_url_def)
  then have v: "u_scheme v = sch" "u_query v = q" "u_fragment v = f" "suffix tail rest" by (auto simp: authority_ok_def)
  have ser: "\<exists>pre. url_serialize u False = pre @ url_path_of True tail
      @ (case q of None \<Rightarrow> [] | Some x \<Rightarrow> 0x3F # x) @ (case f of None \<Rightarrow> [] | Some x \<Rightarrow> 0x23 # x)"
    using u v assms(2) by (auto simp: url_serialize_def is_special_def)
  show "visible_end (url_serialize u False)"
  proof (cases f)
    case (Some x)
    then have "visible_end (0x23 # x)" using r0 split_off_suffix(2) [of _ rest0] f by blast
    then show ?thesis using ser Some by fastforce
  next
    case fn: None
    then have e1: "rest1 = rest0" using f split_off_suffix(1) by blast
    show ?thesis
    proof (cases q)
      case (Some x)
      then have "visible_end (0x3F # x)" using r0 split_off_suffix(2) [of _ rest1] q e1 by blast
      then show ?thesis using ser Some fn by fastforce
    next
      case None
      then have "rest = rest0" using q split_off_suffix(1) e1 by blast
      then have "visible_end tail \<or> tail = []" using r0 v(4) by blast
      then have "visible_end (url_path_of True tail)" by (rule visible_end_path) simp
      moreover have "url_path_of True tail \<noteq> []" by (simp add: url_path_of_def)
      ultimately show ?thesis using ser None fn by auto
    qed
  qed
qed

end
