(* ===== verification/Websec_Ipv6.thy ===== *)
theory Websec_Ipv6
  imports Websec_Url_Laws
begin

text \<open>
  IPv6 hosts read back: the compressed form \<^verbatim>\<open>serialize_ipv6\<close> writes is parsed by
  \<^verbatim>\<open>parse_ipv6\<close> into the same eight pieces.
\<close>

section \<open>Hexadecimal pieces\<close>

lemma hex_dig_cases:
  assumes "k < 16"
  shows "hex_digit (hex_dig k) = Some k" "hex_dig k \<noteq> COLON" "hex_dig k \<noteq> DOT"
proof -
  have "k \<in> {0,1,2,3,4,5,6,7,8,9,10,11,12,13,14,15}" using assms by (auto simp: less_Suc_eq numeral_eq_Suc)
  then show "hex_digit (hex_dig k) = Some k" "hex_dig k \<noteq> COLON" "hex_dig k \<noteq> DOT"
    by (elim insertE emptyE; simp add: hex_dig_def hex_digit_def digit_def)+
qed

lemma show_hex_chars: "b \<in> set (show_hex n) \<Longrightarrow> \<exists>k < 16. b = hex_dig k"
proof (induction n rule: show_hex.induct)
  case (1 n)
  have "\<exists>k < 16. hex_dig (n mod 16) = hex_dig k" by (rule exI [of _ "n mod 16"]) simp
  with 1 show ?case by (cases "n < 16") (auto simp: show_hex.simps [of n])
qed

lemma show_hex_clean: "list_all (\<lambda>b. hex_digit b \<noteq> None) (show_hex n)" "COLON \<notin> set (show_hex n)" "DOT \<notin> set (show_hex n)"
  using show_hex_chars hex_dig_cases by (fastforce simp: list_all_iff)+

lemma show_hex_nonempty [simp]: "show_hex n \<noteq> []"
  by (subst show_hex.simps) simp

lemma show_hex_length: "n < 16 ^ Suc k \<Longrightarrow> length (show_hex n) \<le> Suc k"
proof (induction k arbitrary: n)
  case 0
  then show ?case by (subst show_hex.simps) simp
next
  case (Suc k)
  then have "n div 16 < 16 ^ Suc k" by (simp add: less_mult_imp_div_less)
  from Suc.IH [OF this] show ?case by (subst show_hex.simps) simp
qed

lemma number_value_append: "number_value r v (s @ t) = Option.bind (number_value r v s) (\<lambda>v. number_value r v t)"
  by (induction r v s rule: number_value.induct) (simp_all split: option.split)

lemma number_value_hex: "n \<le> U64_MAX \<Longrightarrow> number_value 16 0 (show_hex n) = Some n"
proof (induction n rule: show_hex.induct)
  case (1 n)
  have step: "number_value 16 v [hex_dig d] = Some (v * 16 + d)" if "d < 16" "v * 16 + d \<le> U64_MAX" for v d
    using that by (simp add: to_digit_def hex_dig_cases)
  show ?case
  proof (cases "n < 16")
    case True
    then show ?thesis using step [of n 0] 1 by (simp add: show_hex.simps [of n])
  next
    case False
    then have "number_value 16 0 (show_hex (n div 16)) = Some (n div 16)" using 1 by simp
    moreover have "n div 16 * 16 + n mod 16 = n" by simp
    ultimately show ?thesis using step [of "n mod 16" "n div 16"] 1(2) False
      by (simp add: show_hex.simps [of n] number_value_append del: number_value.simps)
  qed
qed

abbreviation hx :: "u16 \<Rightarrow> bytes" where "hx w \<equiv> show_hex (unat w)"

lemma piece_lt: "unat (w :: u16) < 65536"
  using unsigned_less [of w] by simp

lemma hx_length: "length (hx w) \<le> 4"
proof -
  have "unat w < 16 ^ Suc 3" using piece_lt [of w] by simp
  then show ?thesis using show_hex_length [of "unat w" 3] by simp
qed

lemma v6_piece_hx: "v6_piece (hx w) = Some w"
proof -
  have "unat w \<le> U64_MAX" using piece_lt [of w] by (simp add: U64_MAX_def)
  then show ?thesis using show_hex_clean(1) [of "unat w"] hx_length [of w] by (simp add: v6_piece_def number_value_hex)
qed

lemma v6_items_hx: "v6_items b (map hx ws) = Some ws"
  by (induction ws) (simp_all add: show_hex_clean v6_piece_hx)

section \<open>Joined pieces\<close>

definition hx_join :: "u16 list \<Rightarrow> bytes" where "hx_join ws = str_join COLON (map hx ws)"

lemma hx_join_Nil [simp]: "hx_join [] = []"
  by (simp add: hx_join_def)

lemma hx_join_Cons: "hx_join (w # ws) = hx w @ (if ws = [] then [] else COLON # hx_join ws)"
  by (cases ws) (simp_all add: hx_join_def)

lemma hx_join_empty [simp]: "hx_join ws = [] \<longleftrightarrow> ws = []"
  by (cases ws) (simp_all add: hx_join_Cons)

lemma v6_groups_hx: "v6_groups (hx_join ws) b = Some ws"
proof (cases "ws = []")
  case False
  then have "str_split COLON (hx_join ws) = map hx ws" unfolding hx_join_def by (intro str_split_join) (auto simp: show_hex_clean)
  then show ?thesis using False by (simp add: v6_groups_def v6_items_hx)
qed (simp add: v6_groups_def)

lemma hx_join_length: "length (hx_join ws) \<le> 5 * length ws"
proof (induction ws)
  case (Cons w ws)
  then show ?case using hx_length [of w] by (simp add: hx_join_Cons)
qed simp

lemma hx_join_ends: "ws \<noteq> [] \<Longrightarrow> \<not> begins_with COLON (hx_join ws)" "last (hx_join ws) = COLON \<Longrightarrow> ws = []"
proof -
  have clean: "hd (hx w) \<noteq> COLON" "last (hx w) \<noteq> COLON" for w
    using show_hex_clean(2) [of "unat w"] hd_in_set [OF show_hex_nonempty, of "unat w"] last_in_set [OF show_hex_nonempty, of "unat w"]
    by metis+
  show "\<not> begins_with COLON (hx_join ws)" if "ws \<noteq> []"
    using that clean(1) [of "hd ws"] by (cases ws; cases "hx (hd ws)") (auto simp: hx_join_Cons begins_with_def)
  show "ws = []" if "last (hx_join ws) = COLON"
    using that
  proof (induction ws)
    case (Cons w ws)
    show ?case
    proof (cases "ws = []")
      case True
      then show ?thesis using Cons.prems clean(2) by (simp add: hx_join_Cons)
    next
      case False
      then have "last (hx_join ws) = COLON" using Cons.prems by (simp add: hx_join_Cons)
      then show ?thesis using Cons.IH False by simp
    qed
  qed simp
qed

section \<open>The double colon\<close>

lemma split_colons_None: "split_colons s = None \<longleftrightarrow> \<not> contains_str [COLON, COLON] s"
proof (induction s)
  case (Cons c s)
  then show ?case by (cases s) (auto simp: begins_with_def)
qed simp

lemma split_colons_at:
  assumes "split_colons u = None" "u = [] \<or> last u \<noteq> COLON"
  shows "split_colons (u @ COLON # COLON # v) = Some (u, v)"
  using assms
proof (induction u)
  case (Cons c s)
  then show ?case by (cases s) (auto simp: begins_with_def split: if_splits)
qed (simp add: begins_with_def)

lemma split_colons_plain: "COLON \<notin> set u \<Longrightarrow> \<not> begins_with COLON j \<Longrightarrow> split_colons j = None \<Longrightarrow> split_colons (u @ COLON # j) = None"
proof (induction u)
  case (Cons c u)
  then show ?case by simp
qed simp

lemma split_colons_free: "COLON \<notin> set u \<Longrightarrow> split_colons u = None"
  by (induction u) simp_all

lemma split_colons_hx: "split_colons (hx_join ws) = None"
proof (induction ws)
  case (Cons w ws)
  show ?case
  proof (cases "ws = []")
    case True
    then show ?thesis by (simp add: split_colons_free show_hex_clean hx_join_Cons)
  next
    case False
    then show ?thesis
      using split_colons_plain [OF show_hex_clean(2) hx_join_ends(1) [OF False] Cons.IH] by (simp add: hx_join_Cons)
  qed
qed simp

section \<open>The compressed run\<close>

definition run_ok :: "u16 list \<Rightarrow> (nat \<times> nat) option \<Rightarrow> bool" where
  "run_ok p best = (case best of None \<Rightarrow> True | Some (s, l) \<Rightarrow> 2 \<le> l \<and> s + l \<le> 8 \<and> (\<forall>j. s \<le> j \<and> j < s + l \<longrightarrow> p ! j = 0))"

lemma zero_run_zeros:
  assumes "i \<le> length p"
  shows "i + zero_run p i \<le> length p" "i \<le> j \<Longrightarrow> j < i + zero_run p i \<Longrightarrow> p ! j = 0"
proof -
  show le: "i + zero_run p i \<le> length p"
    using length_takeWhile_le [of "\<lambda>v. v = 0" "drop i p"] assms unfolding zero_run_def by simp
  assume j: "i \<le> j" "j < i + zero_run p i"
  then have "takeWhile (\<lambda>v. v = 0) (drop i p) ! (j - i) = drop i p ! (j - i)"
    by (intro takeWhile_nth) (simp add: zero_run_def)
  moreover have "takeWhile (\<lambda>v. v = 0) (drop i p) ! (j - i) \<in> set (takeWhile (\<lambda>v. v = 0) (drop i p))"
    using j by (intro nth_mem) (simp add: zero_run_def)
  ultimately show "p ! j = 0" using j(1) assms le j(2) by (auto dest: set_takeWhileD)
qed

lemma best_zeros_ok: "length p = 8 \<Longrightarrow> run_ok p best \<Longrightarrow> run_ok p (best_zeros p i best)"
proof (induction p i best rule: best_zeros.induct)
  case (1 p i best)
  show ?case
  proof (cases "i < 8 \<and> p ! i = 0")
    case True
    let ?b = "if zero_run p i \<ge> 2 \<and> (case best of None \<Rightarrow> True | Some (_, bl) \<Rightarrow> zero_run p i > bl) then Some (i, zero_run p i) else best"
    have "run_ok p ?b" using True 1(3,4) zero_run_zeros [of i p] by (auto simp: run_ok_def)
    then show ?thesis using 1(1) [OF _ _ refl 1(3)] True 1(3) by (subst best_zeros.simps) (simp add: Let_def)
  next
    case False
    then show ?thesis using 1(2) [OF _ _ 1(3,4)] 1(3,4) by (subst best_zeros.simps) auto
  qed
qed

lemma ipv6_pieces_plain:
  "length p = 8 \<Longrightarrow> (case best of None \<Rightarrow> True | Some (s, l) \<Rightarrow> s < i) \<Longrightarrow> ipv6_pieces p best i = hx_join (drop i p)"
proof (induction p best i rule: ipv6_pieces.induct)
  case (1 p best i)
  show ?case
  proof (cases "i < 8")
    case True
    then have d: "drop i p = p ! i # drop (Suc i) p" using 1 by (simp add: Cons_nth_drop_Suc)
    have e: "drop (Suc i) p = [] \<longleftrightarrow> \<not> i + 1 < 8" using 1 by auto
    show ?thesis using 1 True e by (subst ipv6_pieces.simps) (auto simp: d hx_join_Cons split: option.splits)
  qed (use 1 in \<open>simp add: ipv6_pieces.simps\<close>)
qed

lemma ipv6_pieces_run:
  assumes "length p = 8" "2 \<le> l" "s + l \<le> 8" "i \<le> s"
  shows "ipv6_pieces p (Some (s, l)) i = hx_join (drop i (take s p)) @ COLON # COLON # hx_join (drop (s + l) p)"
  using assms(4)
proof (induction "s - i" arbitrary: i)
  case 0
  then have "i = s" by simp
  then show ?case using assms ipv6_pieces_plain [of p "s + l" "Some (s, l)"] by (subst ipv6_pieces.simps) simp
next
  case (Suc n)
  then have i: "i < s" "i < 8" using assms by simp_all
  then have d: "drop i (take s p) = p ! i # drop (Suc i) (take s p)" using assms(1) by (simp flip: Cons_nth_drop_Suc)
  have e: "drop (Suc i) (take s p) = [] \<longleftrightarrow> s = Suc i" using assms i by auto
  have IH: "ipv6_pieces p (Some (s, l)) (Suc i) = hx_join (drop (Suc i) (take s p)) @ COLON # COLON # hx_join (drop (s + l) p)"
    using Suc i by simp
  show ?case using i IH assms e by (subst ipv6_pieces.simps) (auto simp: d hx_join_Cons)
qed

lemma serialize_ipv6_cases:
  assumes "length p = 8"
  obtains (plain) "serialize_ipv6 p = hx_join p"
  | (run) s l where "serialize_ipv6 p = hx_join (take s p) @ COLON # COLON # hx_join (drop (s + l) p)"
      "2 \<le> l" "s + l \<le> 8" "take s p @ replicate l 0 @ drop (s + l) p = p"
proof (cases "best_zeros p 0 None")
  case None
  then show thesis using plain ipv6_pieces_plain [OF assms, of 0 None] by (simp add: serialize_ipv6_def)
next
  case (Some b)
  obtain s l where b: "b = (s, l)" by fastforce
  have r: "2 \<le> l" "s + l \<le> 8" "\<And>j. s \<le> j \<Longrightarrow> j < s + l \<Longrightarrow> p ! j = 0"
    using best_zeros_ok [OF assms, of None 0] Some b by (auto simp: run_ok_def)
  have "serialize_ipv6 p = hx_join (take s p) @ COLON # COLON # hx_join (drop (s + l) p)"
    using ipv6_pieces_run [OF assms r(1,2), of 0] Some b by (simp add: serialize_ipv6_def)
  moreover have "take s p @ replicate l 0 @ drop (s + l) p = p"
    using assms r by (intro nth_equalityI) (auto simp: nth_append)
  ultimately show thesis using run r(1,2) by blast
qed

lemma parse_ipv6_back:
  assumes "length p = 8"
  shows "parse_ipv6 (serialize_ipv6 p) = Some p"
  using assms
proof (cases rule: serialize_ipv6_cases)
  case plain
  show ?thesis unfolding plain parse_ipv6_def using hx_join_length [of p] assms by (simp add: split_colons_hx v6_groups_hx)
next
  case (run s l)
  let ?h = "take s p" and ?t = "drop (s + l) p"
  have cut: "split_colons (hx_join ?h @ COLON # COLON # hx_join ?t) = Some (hx_join ?h, hx_join ?t)"
    using hx_join_ends(2) [of ?h] by (intro split_colons_at split_colons_hx) auto
  have "\<not> contains_str [COLON, COLON] (hx_join ?t)" using split_colons_hx split_colons_None by blast
  moreover have "length (hx_join ?h @ COLON # COLON # hx_join ?t) \<le> 45"
    using hx_join_length [of ?h] hx_join_length [of ?t] assms run(2,3) by simp
  moreover have "8 - length ?h - length ?t = l" "length ?h + length ?t \<le> 7" using assms run(2,3) by simp_all
  ultimately show ?thesis unfolding run(1) parse_ipv6_def cut using run(4) by (simp add: v6_groups_hx del: length_append)
qed

lemma hx_join_chars: "c \<in> set (hx_join ws) \<Longrightarrow> c = COLON \<or> hex_digit c \<noteq> None"
proof (induction ws)
  case (Cons w ws)
  then show ?case using show_hex_clean(1) [of "unat w"] by (auto simp: hx_join_Cons list_all_iff split: if_splits)
qed simp

lemma serialize_ipv6_chars:
  assumes "length p = 8" "c \<in> set (serialize_ipv6 p)"
  shows "c = COLON \<or> hex_digit c \<noteq> None"
  using assms(1)
proof (cases rule: serialize_ipv6_cases)
  case plain
  then show ?thesis using assms(2) hx_join_chars by metis
next
  case (run s l)
  then show ?thesis using assms(2) hx_join_chars [of c "take s p"] hx_join_chars [of c "drop (s + l) p"] by auto
qed

end
