(* ===== verification/Websec_Url_Round.thy ===== *)
theory Websec_Url_Round
  imports Websec_Ipv6
begin

text \<open>
  Serialising a URL of a network scheme with a domain or an IPv4 host and parsing the
  result gives the URL back.
\<close>

section \<open>Numbers\<close>

lemma octet_lt: "unat (w :: u8) < 256"
  using unsigned_less [of w] by simp

lemma show_octet_dec: "show_octet w = show_dec (unat w)"
proof -
  note n = octet_lt [of w]
  have "unat w div 10 div 10 = unat w div 100" by (simp add: div_mult2_eq [symmetric])
  moreover have "unat w div 100 < 10" using n by (simp add: div_less_iff_less_mult)
  ultimately show ?thesis
    by (simp add: show_octet_def Let_def show_dec.simps [of "unat w"] show_dec.simps [of "unat w div 10"]
          show_dec.simps [of "unat w div 100"] div_less_iff_less_mult)
qed

lemma dig_range: "b \<in> set (show_dec n) \<Longrightarrow> \<exists>k < 10. b = dig k"
  using show_dec_digits(2) [of n] by auto

lemma show_dec_digit: "list_all (\<lambda>b. digit b \<noteq> None) (show_dec n)"
  using digit_dig by (auto simp: list_all_iff dest!: dig_range)

lemma digit_unat: "digit b \<noteq> None \<longleftrightarrow> 48 \<le> unat b \<and> unat b \<le> 57"
  by (simp add: digit_def word_le_nat_alt)

lemma digits_avoid:
  assumes "list_all (\<lambda>b. digit b \<noteq> None) s" "\<forall>b \<in> bad. digit b = None"
  shows "avoids bad s"
  using assms by (auto simp: avoids_def list_all_iff)

lemma length_show_dec: "n < 10 ^ k \<Longrightarrow> 0 < k \<Longrightarrow> length (show_dec n) \<le> k"
proof (induction k arbitrary: n)
  case (Suc k)
  show ?case
  proof (cases "n < 10")
    case False
    then have "0 < k" using Suc.prems by (cases k) auto
    moreover have "n div 10 < 10 ^ k" using Suc.prems(1) by (simp add: div_less_iff_less_mult mult.commute)
    ultimately show ?thesis using Suc.IH [of "n div 10"] False by (simp add: show_dec.simps [of n])
  qed (simp add: show_dec.simps [of n])
qed simp

lemma show_dec_no_sign: "\<not> begins_with 0x2B (show_dec n)"
proof -
  have "avoids {0x2B} (show_dec n)" by (rule digits_avoid [OF show_dec_digit]) (simp add: digit_def)
  then show ?thesis by (cases "show_dec n") simp_all
qed

lemma try_from_port: "try_from_u16 (unat p) = Some p"
  using piece_lt [of p] by (simp only: try_from_u16_def) simp

lemma parse_u16_show: "parse_u16 (show_dec (unat p)) = Some p"
proof -
  have "parse_u16 (show_dec n) = try_from_u16 n" for n
    by (simp add: parse_u16_def Let_def show_dec_no_sign show_dec_digits(1) parse_digits_show)
  then show ?thesis by (simp only: try_from_port)
qed

lemma parse_port_show: "parse_port (Some (show_dec (unat (p :: u16)))) = Some (Some p)"
proof -
  have "unat p < 10 ^ 5" using piece_lt [of p] by simp
  then have "\<not> length (show_dec (unat p)) > 5" using length_show_dec [of "unat p" 5] by simp
  then show ?thesis unfolding parse_port_def option.case using show_dec_digit [of "unat p"] show_dec_digits(1) [of "unat p"]
    by (simp only: parse_u16_show if_False simp_thms option.map)
qed

section \<open>IPv4 hosts\<close>

lemma to_digit_dec: "digit b = Some d \<Longrightarrow> to_digit 10 b = Some d"
proof -
  assume d: "digit b = Some d"
  then have "unat b \<le> 57" "d = unat b - 48" by (auto simp: digit_def word_le_nat_alt split: if_splits)
  then show ?thesis using d by (auto simp: to_digit_def hex_digit_def word_le_nat_alt)
qed

lemma number_value_digits:
  "parse_digits acc s = Some n \<Longrightarrow> n \<le> U64_MAX \<Longrightarrow> number_value 10 acc s = Some n"
proof (induction s arbitrary: acc)
  case (Cons c s)
  then obtain d where d: "digit c = Some d" "parse_digits (10 * acc + d) s = Some n" by (auto split: option.splits)
  have "m \<le> n" if "parse_digits m t = Some n" for m t
    using that by (induction t arbitrary: m) (auto split: option.splits, fastforce)
  then have "10 * acc + d \<le> U64_MAX" using d(2) Cons.prems(2) order_trans by blast
  then show ?case using d Cons.IH [OF d(2) Cons.prems(2)] by (simp add: to_digit_dec mult.commute)
qed simp

lemma show_dec_head: "length (show_dec n) > 1 \<Longrightarrow> hd (show_dec n) \<noteq> 0x30"
proof (induction n rule: show_dec.induct)
  case (1 n)
  show ?case
  proof (cases "n < 10")
    case True
    then show ?thesis using 1(2) by (simp add: show_dec.simps [of n])
  next
    case False
    have h: "hd (show_dec n) = hd (show_dec (n div 10))"
      using False show_dec_digits(1) [of "n div 10"] by (simp add: show_dec.simps [of n])
    show ?thesis
    proof (cases "n div 10 < 10")
      case True
      then show ?thesis using h False by (simp add: show_dec.simps [of "n div 10"] dig_zero div_eq_0_iff)
    next
      case big: False
      then have "length (show_dec (n div 10)) > 1"
        using show_dec_digits(1) [of "n div 10 div 10"] by (simp add: show_dec.simps [of "n div 10"])
      then show ?thesis using 1(1) [OF False] h by simp
    qed
  qed
qed

lemma parse_ipv4_number_octet: "parse_ipv4_number (show_octet w) = Some (unat w)"
proof -
  let ?s = "show_dec (unat w)"
  have "unat w \<le> U64_MAX" using octet_lt [of w] by (simp add: U64_MAX_def)
  then have v: "number_value 10 0 ?s = Some (unat w)" by (intro number_value_digits parse_digits_show)
  obtain c t where ct: "?s = c # t" using show_dec_digits(1) by (cases ?s) auto
  have "t = [] \<or> hd t \<noteq> 0x78 \<and> hd t \<noteq> 0x58"
    using digits_avoid [OF show_dec_digit, of "{0x78, 0x58}" "unat w"] unfolding ct by (cases t) (simp_all add: digit_def)
  then have "strip_prefix (lit ''0x'') ?s = None" "strip_prefix (lit ''0X'') ?s = None"
    unfolding ct by (cases t; simp add: lit_def)+
  moreover have "\<not> (length ?s > 1 \<and> begins_with 0x30 ?s)" using show_dec_head [of "unat w"] ct by auto
  ultimately show ?thesis using v ct unfolding show_octet_dec parse_ipv4_number_def by auto
qed

lemma octet_no_dot: "DOT \<notin> set (show_octet w)"
proof -
  have "avoids {DOT} (show_octet w)" unfolding show_octet_dec
    by (rule digits_avoid [OF show_dec_digit]) (simp add: digit_def word_le_nat_alt)
  then show ?thesis unfolding avoids_def by blast
qed

lemma split_show_ipv4: "drop_empty_last (str_split DOT (show_ipv4 a b c d)) = [show_octet a, show_octet b, show_octet c, show_octet d]"
proof -
  have "str_split DOT (show_ipv4 a b c d) = [show_octet a, show_octet b, show_octet c, show_octet d]"
    unfolding show_ipv4_def by (rule str_split_join) (use octet_no_dot in auto)
  then show ?thesis using show_octet_digits(1) [of d] by (simp add: drop_empty_last_def)
qed

lemma split_256: "r < 256 \<Longrightarrow> (r + 256 * x) div 256 = x" "r < 256 \<Longrightarrow> (r + 256 * x) mod 256 = r" for r x :: nat
  by simp_all

lemma word_of_byte: "n mod 256 = unat w \<Longrightarrow> word_of_nat n = (w :: u8)"
  by (simp add: word_unat_eq_iff unat_of_nat)

lemma be_bytes:
  fixes a b c d :: u8
  assumes ip: "ip = unat d + 256 * (unat c + 256 * (unat b + 256 * unat a))"
  shows "word_of_nat (ip div 2 ^ 24) = a" "word_of_nat (ip div 2 ^ 16) = b" "word_of_nat (ip div 2 ^ 8) = c" "word_of_nat ip = d"
proof -
  note lt = octet_lt [of a] octet_lt [of b] octet_lt [of c] octet_lt [of d]
  have 8: "ip div 2 ^ 8 = unat c + 256 * (unat b + 256 * unat a)" using split_256(1) [OF lt(4)] by (simp only: ip) simp
  have "ip div 2 ^ 16 = ip div 2 ^ 8 div 256" by (simp add: div_mult2_eq [symmetric])
  then have 16: "ip div 2 ^ 16 = unat b + 256 * unat a" using split_256(1) [OF lt(3)] by (simp only: 8)
  have "ip div 2 ^ 24 = ip div 2 ^ 16 div 256" by (simp add: div_mult2_eq [symmetric])
  then have 24: "ip div 2 ^ 24 = unat a" using split_256(1) [OF lt(2)] by (simp only: 16)
  show "word_of_nat ip = d" by (rule word_of_byte) (simp only: ip split_256(2) [OF lt(4)])
  show "word_of_nat (ip div 2 ^ 8) = c" by (rule word_of_byte) (simp only: 8 split_256(2) [OF lt(3)])
  show "word_of_nat (ip div 2 ^ 16) = b" by (rule word_of_byte) (simp only: 16 split_256(2) [OF lt(2)])
  show "word_of_nat (ip div 2 ^ 24) = a" by (rule word_of_byte) (simp only: 24 mod_less [OF lt(1)])
qed

lemma parse_show_ipv4: "parse_ipv4 (show_ipv4 a b c d) = Some (Ipv4 a b c d)"
proof -
  define nums where "nums = [unat a, unat b, unat c, unat d]"
  define ip where "ip = last nums + shifted_sum 0 (butlast nums)"
  have ip: "ip = unat d + 256 * (unat c + 256 * (unat b + 256 * unat a))" by (simp add: ip_def nums_def)
  have "opt_all parse_ipv4_number [show_octet a, show_octet b, show_octet c, show_octet d] = Some nums"
    by (simp add: parse_ipv4_number_octet nums_def)
  moreover have "\<not> list_ex (\<lambda>n. n > 255) (butlast nums)" "\<not> last nums \<ge> 256 ^ (5 - length nums)"
    using octet_lt [of a] octet_lt [of b] octet_lt [of c] octet_lt [of d] by (simp_all add: nums_def)
  ultimately show ?thesis
    unfolding parse_ipv4_def split_show_ipv4 Let_def by (simp add: ip_def [symmetric]) (use be_bytes [OF ip] in simp)
qed

section \<open>Hosts that read back\<close>

definition HOST_DELIMITERS :: "u8 set" where
  "HOST_DELIMITERS = {SLASH, 0x5C, 0x40, COLON, 0x5B, 0x23, 0x3F} \<union> NEWLINES"

definition plain_host :: "host \<Rightarrow> bool" where
  "plain_host h = (case h of Domain _ \<Rightarrow> True | Ipv4 _ _ _ _ \<Rightarrow> True | _ \<Rightarrow> False)"

lemma percent_decode_id: "0x25 \<notin> set s \<Longrightarrow> percent_decode s = s"
  by (induction s) (simp_all add: percent_decode.simps(2))

lemma parse_host_plain:
  assumes "s \<noteq> []" "is_ascii s" "to_ascii_lowercase s = s" "\<not> list_ex (\<lambda>c. forbidden_host_cp c \<or> c = 0x25) s"
  shows "parse_host s True = (if ends_in_number s then parse_ipv4 s else Some (Domain s))"
proof -
  have c: "0x25 \<notin> set s" "0x5B \<notin> set s" using assms(4) by (auto simp: list_ex_iff forbidden_host_cp_def lit_def)
  have "strip_prefix [0x5B] s = None" using c(2) by (cases s) auto
  moreover have "percent_decode_ascii s = Some s"
    using assms(2) c(1) by (simp add: percent_decode_ascii_def percent_decode_id utf8_ascii)
  ultimately show ?thesis using assms(1,3,4) by (simp add: parse_host_def)
qed

lemma delimiters_forbidden: "c \<in> HOST_DELIMITERS \<Longrightarrow> forbidden_host_cp c"
  unfolding HOST_DELIMITERS_def NEWLINES_def by (elim UnE insertE emptyE) (simp_all add: forbidden_host_cp_def lit_def)

lemma not_forbidden_avoids: "\<not> list_ex (\<lambda>c. forbidden_host_cp c \<or> c = 0x25) s \<Longrightarrow> avoids HOST_DELIMITERS s"
  unfolding avoids_def list_ex_iff using delimiters_forbidden by blast

lemma ipv4_bytes: "c \<in> set (show_ipv4 w x y z) \<Longrightarrow> c = DOT \<or> digit c \<noteq> None"
proof -
  assume c: "c \<in> set (show_ipv4 w x y z)"
  have oct: "digit c \<noteq> None" if "c \<in> set (show_octet v)" for v
    using that show_dec_digit [of "unat v"] unfolding show_octet_dec list_all_iff by blast
  have "set (show_ipv4 w x y z) \<subseteq> {DOT} \<union> set (show_octet w) \<union> set (show_octet x) \<union> set (show_octet y) \<union> set (show_octet z)"
    unfolding show_ipv4_def str_join.simps set_append list.set by blast
  then show ?thesis using c oct by blast
qed

lemma ipv4_byte_range: "c \<in> set (show_ipv4 w x y z) \<Longrightarrow> unat c = 46 \<or> 48 \<le> unat c \<and> unat c \<le> 57"
proof -
  assume "c \<in> set (show_ipv4 w x y z)"
  then have "c = DOT \<or> 48 \<le> unat c \<and> unat c \<le> 57" unfolding digit_unat [symmetric] by (rule ipv4_bytes)
  then show ?thesis by (elim disjE) simp_all
qed

lemma forbidden_range: "forbidden_host_cp c \<Longrightarrow> unat c \<le> 35 \<or> unat c = 47 \<or> 58 \<le> unat c"
  by (auto simp: forbidden_host_cp_def lit_def word_le_nat_alt)

lemma show_ipv4_plain:
  "show_ipv4 a b c d \<noteq> []" "is_ascii (show_ipv4 a b c d)" "to_ascii_lowercase (show_ipv4 a b c d) = show_ipv4 a b c d"
  "\<not> list_ex (\<lambda>c. forbidden_host_cp c \<or> c = 0x25) (show_ipv4 a b c d)" "ends_in_number (show_ipv4 a b c d)"
proof -
  let ?s = "show_ipv4 a b c d"
  show "?s \<noteq> []" by (simp add: show_ipv4_def)
  have one: "x < 128 \<and> lower_byte x = x \<and> \<not> (forbidden_host_cp x \<or> x = 0x25)" if "x \<in> set ?s" for x
    using ipv4_byte_range [OF that] forbidden_range [of x] by (auto simp: lower_byte_def word_le_nat_alt word_less_nat_alt)
  then show "is_ascii ?s" "to_ascii_lowercase ?s = ?s" "\<not> list_ex (\<lambda>c. forbidden_host_cp c \<or> c = 0x25) ?s"
    by (simp_all add: is_ascii_def to_ascii_lowercase_def map_idI list_ex_iff)
  have "str_split DOT ?s = [show_octet a, show_octet b, show_octet c, show_octet d]"
    unfolding show_ipv4_def by (rule str_split_join) (use octet_no_dot in auto)
  then show "ends_in_number ?s"
    using show_dec_digit [of "unat d"] show_dec_digits(1) [of "unat d"]
    unfolding ends_in_number_def Let_def split_show_ipv4 by (simp add: show_octet_dec)
qed

lemma plain_host_reads_back:
  assumes "host_ok h" "plain_host h"
  shows "host_serialize h \<noteq> []" "avoids HOST_DELIMITERS (host_serialize h)" "parse_host (host_serialize h) True = Some h"
proof -
  have "host_serialize h \<noteq> [] \<and> avoids HOST_DELIMITERS (host_serialize h) \<and> parse_host (host_serialize h) True = Some h"
  proof (cases h)
    case (Domain d)
    then show ?thesis using assms(1) parse_host_plain [of d] not_forbidden_avoids [of d] by (simp add: host_ok_def host_serialize_def)
  next
    case (Ipv4 a b c d)
    then show ?thesis
      using not_forbidden_avoids [OF show_ipv4_plain(4)] parse_host_plain [OF show_ipv4_plain(1-4)]
      by (simp add: host_serialize_def show_ipv4_plain parse_show_ipv4)
  qed (use assms(2) in \<open>simp_all add: plain_host_def\<close>)
  then show "host_serialize h \<noteq> []" "avoids HOST_DELIMITERS (host_serialize h)" "parse_host (host_serialize h) True = Some h"
    by blast+
qed

section \<open>The round trip\<close>

lemma trim_controls_id: "\<not> hd s \<le> 0x20 \<Longrightarrow> visible_end s \<Longrightarrow> trim_controls s = s"
proof -
  assume s: "\<not> hd s \<le> 0x20" "visible_end s"
  have "dropWhile (\<lambda>c. c \<le> 0x20) s = s" using s(1) by (cases s) auto
  moreover have "dropWhile (\<lambda>c. c \<le> 0x20) (rev s) = rev s" using s(2) by (cases s rule: rev_cases) (auto simp: visible_end_def)
  ultimately show ?thesis by (simp add: trim_controls_def)
qed

lemma drop_newlines_id: "avoids NEWLINES s \<Longrightarrow> drop_newlines s = s"
  by (auto simp: drop_newlines_def avoids_def NEWLINES_def filter_id_conv)

lemma scheme_char_avoids: "scheme_char c \<Longrightarrow> c \<noteq> COLON \<and> c \<notin> NEWLINES \<and> \<not> c \<le> 0x20"
  by (auto simp: scheme_char_def NEWLINES_def word_le_nat_alt digit_def split: if_splits)

lemma url_split_scheme_back:
  assumes "scheme_ok sch"
  shows "url_split_scheme (sch @ COLON # rest) = Some (sch, rest)"
proof -
  have sc: "list_all scheme_char sch" "sch \<noteq> []" "0x61 \<le> hd sch \<and> hd sch \<le> 0x7A" "to_ascii_lowercase sch = sch"
    using assms by (simp_all add: scheme_ok_def)
  then have "COLON \<notin> set sch" using scheme_char_avoids by (auto simp: list_all_iff)
  then have f: "find_byte COLON (sch @ COLON # rest) = Some (length sch)" unfolding find_byte_Some by blast
  have "list_all scheme_char (tl sch)" using sc(1,2) by (cases sch) auto
  then show ?thesis using sc(2-4) by (simp add: url_split_scheme_def f Let_def)
qed

definition opt_part :: "u8 \<Rightarrow> bytes option \<Rightarrow> bytes" where
  "opt_part b r = (case r of None \<Rightarrow> [] | Some x \<Rightarrow> b # x)"

lemma split_off_back: "b \<notin> set l \<Longrightarrow> split_off b (l @ opt_part b r) = (l, r)"
  by (cases r) (simp_all add: split_off_def opt_part_def split_once_None [THEN iffD2] split_once_Some [THEN iffD2])

definition credentials_text :: "url \<Rightarrow> bytes" where
  "credentials_text u = u_username u @ (if u_password u \<noteq> [] then COLON # u_password u else [])"

definition authority_text :: "url \<Rightarrow> host \<Rightarrow> bytes" where
  "authority_text u h = (if has_credentials u then credentials_text u @ [0x40] else []) @ host_serialize h
     @ (case u_port u of None \<Rightarrow> [] | Some p \<Rightarrow> COLON # show_dec (unat p))"

lemma url_serialize_text:
  "u_host u = Some h \<Longrightarrow> url_serialize u False =
     u_scheme u @ COLON # SLASH # SLASH # authority_text u h @ u_path u @ opt_part 0x3F (u_query u) @ opt_part 0x23 (u_fragment u)"
  by (simp add: url_serialize_def authority_text_def credentials_text_def opt_part_def split: option.split)

lemma split_host_port_back:
  assumes "avoids HOST_DELIMITERS hs" "hs \<noteq> []"
  shows "split_host_port (hs @ (case p of None \<Rightarrow> [] | Some p \<Rightarrow> COLON # show_dec (unat (p :: u16))))
    = Some (hs, map_option (\<lambda>p. show_dec (unat p)) p)"
proof -
  have hs: "COLON \<notin> set hs" "\<not> begins_with 0x5B hs"
    using assms by (auto simp: avoids_def HOST_DELIMITERS_def begins_with_def split: list.splits)
  have c: "COLON \<notin> set (show_dec n)" for n
    using digits_avoid [OF show_dec_digit, of "{COLON}" n] unfolding avoids_def by (simp add: digit_def) blast
  have nb: "\<not> begins_with 0x5B (hs @ t)" for t using hs(2) assms(2) by (cases hs) auto
  show ?thesis
  proof (cases p)
    case None
    then show ?thesis using hs nb [of "[]"] by (simp add: split_host_port_def rfind_byte_None [THEN iffD2])
  next
    case (Some q)
    have "rfind_byte COLON (hs @ COLON # show_dec (unat q)) = Some (length hs)" unfolding rfind_byte_Some using c by blast
    then show ?thesis using Some nb by (simp add: split_host_port_def)
  qed
qed

text \<open>The hosts of the network schemes, with what their text needs for the authority to be taken apart again.\<close>

definition network_host :: "host \<Rightarrow> bool" where
  "network_host h \<longleftrightarrow> plain_host h \<or> (case h of Ipv6 _ \<Rightarrow> True | _ \<Rightarrow> False)"

definition AUTHORITY_ENDS :: "u8 set" where "AUTHORITY_ENDS = {0x23, 0x3F, SLASH, 0x5C} \<union> NEWLINES"

lemma bracketed_chars:
  assumes "length p = 8" "c \<in> set (serialize_ipv6 p)"
  shows "c \<notin> AUTHORITY_ENDS \<union> {0x40, 0x5D}"
proof
  assume "c \<in> AUTHORITY_ENDS \<union> {0x40, 0x5D}"
  then have "c \<noteq> COLON \<and> hex_digit c = None"
    unfolding AUTHORITY_ENDS_def NEWLINES_def by (elim UnE insertE emptyE; simp add: hex_digit_def digit_def)
  then show False using serialize_ipv6_chars [OF assms] by blast
qed

lemma host_reads_back:
  assumes "host_ok h" "network_host h"
  shows "host_serialize h \<noteq> []" "avoids (AUTHORITY_ENDS \<union> {0x40}) (host_serialize h)" "parse_host (host_serialize h) True = Some h"
    "split_host_port (host_serialize h @ (case p of None \<Rightarrow> [] | Some p \<Rightarrow> COLON # show_dec (unat (p :: u16))))
       = Some (host_serialize h, map_option (\<lambda>p. show_dec (unat p)) p)"
proof -
  let ?p = "case p of None \<Rightarrow> [] | Some p \<Rightarrow> COLON # show_dec (unat p)"
  have "host_serialize h \<noteq> [] \<and> avoids (AUTHORITY_ENDS \<union> {0x40}) (host_serialize h) \<and> parse_host (host_serialize h) True = Some h
    \<and> split_host_port (host_serialize h @ ?p) = Some (host_serialize h, map_option (\<lambda>p. show_dec (unat p)) p)"
  proof (cases "plain_host h")
    case True
    note hb = plain_host_reads_back [OF assms(1) True]
    have "avoids (AUTHORITY_ENDS \<union> {0x40}) (host_serialize h)"
      by (rule avoids_mono [OF hb(2)]) (auto simp: HOST_DELIMITERS_def AUTHORITY_ENDS_def)
    then show ?thesis using hb split_host_port_back [OF hb(2,1)] by blast
  next
    case False
    then obtain q where h: "h = Ipv6 q" using assms(2) by (auto simp: network_host_def split: host.splits)
    have q: "length q = 8" using assms(1) h by (simp add: host_ok_def)
    let ?s = "serialize_ipv6 q"
    have form: "host_serialize h = 0x5B # ?s @ [0x5D]" using h by (simp add: host_serialize_def)
    have close: "find_byte 0x5D (0x5B # ?s @ 0x5D # t) = Some (Suc (length ?s))" for t
      unfolding find_byte_Some using bracketed_chars [OF q] by (intro exI [of _ "0x5B # ?s"] exI [of _ t]) auto
    have "avoids (AUTHORITY_ENDS \<union> {0x40}) (host_serialize h)"
      using bracketed_chars [OF q] unfolding form avoids_def by (auto simp: AUTHORITY_ENDS_def NEWLINES_def)
    moreover have "parse_host (host_serialize h) True = Some h"
      unfolding form parse_host_def by (simp add: strip_suffix_def h parse_ipv6_back [OF q])
    moreover have "split_host_port (host_serialize h @ ?p) = Some (host_serialize h, map_option (\<lambda>p. show_dec (unat p)) p)"
      unfolding form split_host_port_def using close [of ?p] by (simp add: begins_with_def split: option.split)
    ultimately show ?thesis by (simp add: form)
  qed
  then show "host_serialize h \<noteq> []" "avoids (AUTHORITY_ENDS \<union> {0x40}) (host_serialize h)" "parse_host (host_serialize h) True = Some h"
    "split_host_port (host_serialize h @ ?p) = Some (host_serialize h, map_option (\<lambda>p. show_dec (unat p)) p)" by blast+
qed

lemma parse_authority_back:
  assumes ok: "url_ok u" "is_special u" "u_host u = Some h" "network_host h" and v: "fresh_url v"
  shows "parse_authority v (authority_text u h) True =
    Some (v\<lparr>u_username := u_username u, u_password := u_password u, u_host := Some h, u_port := u_port u\<rparr>)"
proof -
  have h: "host_ok h" "userinfo_ok u" using ok by (simp_all add: url_ok_def)
  note hb = host_reads_back [OF h(1) ok(4)]
  let ?hp = "host_serialize h @ (case u_port u of None \<Rightarrow> [] | Some p \<Rightarrow> COLON # show_dec (unat p))"
  have at: "0x40 \<notin> set ?hp"
    using hb(2) digits_avoid [OF show_dec_digit, of "{0x40}"] unfolding avoids_def
    by (auto simp: digit_def split: option.split)
  have userinfo: "(case rfind_byte 0x40 (authority_text u h) of
      Some i \<Rightarrow> (take i (authority_text u h), drop (i + 1) (authority_text u h)) | None \<Rightarrow> ([], authority_text u h))
    = (if has_credentials u then credentials_text u else [], ?hp)"
  proof (cases "has_credentials u")
    case True
    then have e: "authority_text u h = credentials_text u @ 0x40 # ?hp" by (simp add: authority_text_def)
    then have "rfind_byte 0x40 (authority_text u h) = Some (length (credentials_text u))" unfolding rfind_byte_Some using at by blast
    then show ?thesis using True e by simp
  next
    case False
    then have e: "authority_text u h = ?hp" by (simp add: authority_text_def)
    have "rfind_byte 0x40 (authority_text u h) = None" unfolding e rfind_byte_None by (rule at)
    then show ?thesis using False e by simp
  qed
  have cu: "COLON \<notin> set (u_username u)" using h(2) by (auto simp: userinfo_ok_def avoids_def)
  have names: "(case split_once COLON (if has_credentials u then credentials_text u else []) of
      Some (un, pw) \<Rightarrow> v\<lparr>u_username := un, u_password := pw\<rparr>
    | None \<Rightarrow> v\<lparr>u_username := if has_credentials u then credentials_text u else []\<rparr>)
    = v\<lparr>u_username := u_username u, u_password := u_password u\<rparr>"
  proof (cases "u_password u = []")
    case True
    then have "(if has_credentials u then credentials_text u else []) = u_username u"
      by (auto simp: has_credentials_def credentials_text_def)
    then show ?thesis using True cu v by (cases v) (simp add: split_once_None [THEN iffD2] fresh_url_def)
  next
    case False
    then have "split_once COLON (if has_credentials u then credentials_text u else []) = Some (u_username u, u_password u)"
      using cu by (simp add: split_once_Some has_credentials_def credentials_text_def)
    then show ?thesis by simp
  qed
  have port: "parse_port (map_option (\<lambda>p. show_dec (unat p)) (u_port u)) = Some (u_port u)"
    by (cases "u_port u") (simp add: parse_port_def, simp add: parse_port_show)
  show ?thesis
    unfolding parse_authority_def userinfo Let_def prod.case names hb(4)
    using hb(1,3) port v by (cases v; cases "u_port u") (simp_all add: fresh_url_def)
qed

lemma authority_text_avoids:
  assumes "url_ok u" "is_special u" "u_host u = Some h" "network_host h"
  shows "avoids ({0x23, 0x3F, SLASH, 0x5C} \<union> NEWLINES) (authority_text u h)" "authority_text u h \<noteq> []"
proof -
  let ?bad = "{0x23, 0x3F, SLASH, 0x5C} \<union> NEWLINES"
  have h: "host_ok h" "userinfo_ok u" using assms by (simp_all add: url_ok_def)
  note hb = host_reads_back [OF h(1) assms(4)]
  have "avoids ?bad (host_serialize h)" by (rule avoids_mono [OF hb(2)]) (auto simp: AUTHORITY_ENDS_def)
  moreover have "avoids ?bad (show_dec n)" for n
    by (rule digits_avoid [OF show_dec_digit]) (auto simp: NEWLINES_def digit_def)
  moreover have "COLON \<notin> ?bad" "0x40 \<notin> ?bad" by (simp_all add: NEWLINES_def)
  moreover have "avoids ?bad (u_username u)" "avoids ?bad (u_password u)"
    using h(2) assms(2) unfolding userinfo_ok_def avoids_def by blast+
  ultimately show "avoids ?bad (authority_text u h)"
    unfolding authority_text_def credentials_text_def by (simp split: option.split)
  show "authority_text u h \<noteq> []" using hb(1) by (simp add: authority_text_def)
qed

lemma after_authority_back:
  assumes u: "url_ok u" "is_special u" "u_scheme u \<noteq> lit ''file''" "u_host u = Some h" "network_host h"
    and v: "fresh_url v" "u_scheme v = u_scheme u"
  shows "after_authority v (SLASH # SLASH # authority_text u h @ u_path u) =
    Some (v\<lparr>u_username := u_username u, u_password := u_password u, u_host := Some h, u_port := u_port u\<rparr>, u_path u)"
proof -
  let ?slash = "\<lambda>c. c = SLASH \<or> is_special_scheme (u_scheme v) \<and> c = 0x5C"
  let ?a = "authority_text u h"
  have sp: "is_special_scheme (u_scheme v)" "u_scheme v \<noteq> lit ''file''" using u(2,3) v(2) by (simp_all add: is_special_def)
  have a: "\<forall>c \<in> set ?a. \<not> ?slash c" "?a \<noteq> []" using authority_text_avoids [OF u(1,2,4,5)] by (auto simp: avoids_def)
  obtain rest where path: "u_path u = SLASH # rest"
    using u by (auto simp: url_ok_def path_ok_def begins_with_def split: list.splits)
  have "dropWhile ?slash (SLASH # SLASH # ?a @ u_path u) = ?a @ u_path u" using a by (cases ?a) auto
  moreover have "split_at_slash ?slash (?a @ u_path u) = (?a, u_path u)"
    using a(1) unfolding path split_at_slash_def by (simp add: takeWhile_append dropWhile_append)
  ultimately show ?thesis
    unfolding after_authority_def Let_def using sp parse_authority_back [OF u(1,2,4,5) v(1)] by simp
qed

lemma url_path_of_back: "path_ok u \<Longrightarrow> is_special u \<Longrightarrow> url_path_of True (u_path u) = u_path u"
  by (auto simp: path_ok_def url_path_of_def avoids_def intro!: map_idI)

lemma net_host:
  assumes "url_ok u" "is_special u" "u_scheme u \<noteq> lit ''file''"
  shows "\<exists>h. u_host u = Some h \<and> network_host h"
  using assms
  by (auto simp: url_ok_def host_kind_ok_def is_special_def network_host_def plain_host_def split: option.splits host.splits)

lemma serialize_reads_back:
  assumes ok_net: "url_ok u" "is_special u" "u_scheme u \<noteq> lit ''file''"
    and len: "length (url_serialize u False) \<le> MAX_URL_BYTES" and vis: "visible_end (url_serialize u False)"
  shows "url_parse (url_serialize u False) = Some u"
proof -
  obtain h where "u_host u = Some h" "network_host h" using net_host [OF ok_net] by blast
  note u = ok_net this
  let ?S = "url_serialize u False" and ?a = "authority_text u h"
  note ser = url_serialize_text [OF u(4)]
  have ok: "scheme_ok (u_scheme u)" "path_ok u" "u_port u \<noteq> None \<longrightarrow> u_port u \<noteq> web_default_port (u_scheme u)"
    using u(1) by (simp_all add: url_ok_def)
  have sch: "u_scheme u \<noteq> []" "\<forall>c \<in> set (u_scheme u). scheme_char c" using ok(1) by (simp_all add: scheme_ok_def list_all_iff)
  have parts: "avoids ({0x23, 0x3F} \<union> NEWLINES) (u_path u)" "avoids ({0x23} \<union> NEWLINES) (opt_part 0x3F (u_query u))"
      "avoids NEWLINES (opt_part 0x23 (u_fragment u))"
    using ok(2) by (auto simp: path_ok_def opt_part_def NEWLINES_def split: option.split)
  note auth = authority_text_avoids(1) [OF u(1,2,4,5)]
  have "avoids NEWLINES (u_scheme u)" unfolding avoids_def using sch(2) scheme_char_avoids by blast
  moreover have "COLON \<notin> NEWLINES" "SLASH \<notin> NEWLINES" by (simp_all add: NEWLINES_def)
  moreover have "avoids NEWLINES ?a" "avoids NEWLINES (u_path u)" "avoids NEWLINES (opt_part 0x3F (u_query u))"
    by (rule avoids_mono [OF auth] avoids_mono [OF parts(1)] avoids_mono [OF parts(2)], blast)+
  ultimately have "avoids NEWLINES ?S" unfolding ser using parts(3) by simp
  moreover have "\<not> hd ?S \<le> 0x20" using sch scheme_char_avoids unfolding ser by (cases "u_scheme u") auto
  ultimately have clean: "drop_newlines (trim_controls ?S) = ?S" using trim_controls_id [OF _ vis] drop_newlines_id by simp
  let ?r = "SLASH # SLASH # ?a @ u_path u"
  have "0x3F \<notin> set ?r" "0x23 \<notin> set (?r @ opt_part 0x3F (u_query u))"
    using auth parts by (auto simp: avoids_def)
  then have off: "split_off 0x23 (?r @ opt_part 0x3F (u_query u) @ opt_part 0x23 (u_fragment u)) = (?r @ opt_part 0x3F (u_query u), u_fragment u)"
      "split_off 0x3F (?r @ opt_part 0x3F (u_query u)) = (?r, u_query u)"
    using split_off_back [where b = "0x23" and l = "?r @ opt_part 0x3F (u_query u)"] split_off_back [where b = "0x3F" and l = ?r] by simp_all
  have ss: "url_split_scheme ?S = Some (u_scheme u, ?r @ opt_part 0x3F (u_query u) @ opt_part 0x23 (u_fragment u))"
    unfolding ser using url_split_scheme_back [OF ok(1)] by simp
  let ?v = "\<lparr>u_scheme = u_scheme u, u_username = [], u_password = [], u_host = None, u_port = None, u_path = [],
      u_query = u_query u, u_fragment = u_fragment u\<rparr>"
  have aa: "after_authority ?v ?r = Some (?v\<lparr>u_username := u_username u, u_password := u_password u, u_host := Some h,
      u_port := u_port u\<rparr>, u_path u)"
    by (rule after_authority_back [OF u]) (simp_all add: fresh_url_def)
  have full: "?v\<lparr>u_username := u_username u, u_password := u_password u, u_host := Some h, u_port := u_port u, u_path := u_path u\<rparr> = u"
    using u(4) by (cases u) simp
  have "url_path_of (is_special_scheme (u_scheme u)) (u_path u) = u_path u"
    using u(2) url_path_of_back [OF ok(2) u(2)] by (simp add: is_special_def)
  then show ?thesis
    unfolding url_parse_def clean ss Option.bind.simps prod.case off aa Let_def
    using len ok(3) full u(4) by (cases u) (auto simp: not_less)
qed

end
