(* ===== verification/Websec_Origin.thy ===== *)
theory Websec_Origin
  imports Websec_Url_Round
begin

text \<open>
  Origins and sites of \<^verbatim>\<open>crates/px-websec/src/origin/mod.rs\<close>.  The process-wide counter
  that numbers opaque origins is passed along explicitly; the supplier of registrable
  domains, a trait implemented outside the crate, is an argument.
\<close>

datatype web_origin = OpaqueOrigin nat | TupleOrigin bytes host "u16 option"

definition new_opaque :: "nat \<Rightarrow> web_origin \<times> nat" where
  "new_opaque next_opaque =
     (case checked_add next_opaque 1 of
        Some n \<Rightarrow> (OpaqueOrigin next_opaque, n)
      | None \<Rightarrow> (OpaqueOrigin U64_MAX, next_opaque))"

definition origin_tuple :: "bytes \<Rightarrow> host \<Rightarrow> u16 option \<Rightarrow> web_origin option" where
  "origin_tuple raw_scheme h p =
     (let s = to_ascii_lowercase raw_scheme
      in if \<not> is_special_scheme s \<or> s = lit ''file'' then None
         else if h = EmptyHost \<or> (case h of OpaqueHost _ \<Rightarrow> True | _ \<Rightarrow> False) then None
         else Some (TupleOrigin s h (if p \<noteq> None \<and> p = web_default_port s then None else p)))"

definition from_url_inner :: "url \<Rightarrow> nat \<Rightarrow> web_origin \<times> nat" where
  "from_url_inner u n =
     (if is_special u \<and> u_scheme u \<noteq> lit ''file'' then
        (case u_host u of
           None \<Rightarrow> new_opaque n
         | Some h \<Rightarrow> (case origin_tuple (u_scheme u) h (u_port u) of Some o' \<Rightarrow> (o', n) | None \<Rightarrow> new_opaque n))
      else new_opaque n)"

definition origin_from_url :: "url \<Rightarrow> nat \<Rightarrow> web_origin \<times> nat" where
  "origin_from_url u n =
     (if u_scheme u = lit ''blob'' then
        (case url_parse (u_path u) of
           Some inner \<Rightarrow>
             if u_scheme inner = lit ''http'' \<or> u_scheme inner = lit ''https'' then from_url_inner inner n else new_opaque n
         | None \<Rightarrow> new_opaque n)
      else from_url_inner u n)"

definition origin_for_document :: "url \<Rightarrow> web_origin option \<Rightarrow> nat \<Rightarrow> web_origin \<times> nat" where
  "origin_for_document u creator n =
     (if u_scheme u = lit ''about'' \<and> (u_path u = lit ''blank'' \<or> u_path u = lit ''srcdoc'')
      then (case creator of Some o' \<Rightarrow> (o', n) | None \<Rightarrow> new_opaque n)
      else origin_from_url u n)"

definition is_opaque :: "web_origin \<Rightarrow> bool" where
  "is_opaque o' = (case o' of OpaqueOrigin _ \<Rightarrow> True | TupleOrigin _ _ _ \<Rightarrow> False)"

definition web_origin_host :: "web_origin \<Rightarrow> host option" where
  "web_origin_host o' = (case o' of OpaqueOrigin _ \<Rightarrow> None | TupleOrigin _ h _ \<Rightarrow> Some h)"

definition origin_serialize :: "web_origin \<Rightarrow> bytes" where
  "origin_serialize o' =
     (case o' of
        OpaqueOrigin _ \<Rightarrow> lit ''null''
      | TupleOrigin s h p \<Rightarrow> s @ [COLON, SLASH, SLASH] @ host_serialize h
          @ (case p of None \<Rightarrow> [] | Some p \<Rightarrow> COLON # show_dec (unat p)))"

definition same_origin :: "web_origin \<Rightarrow> web_origin \<Rightarrow> bool" where
  "same_origin a b \<longleftrightarrow> a = b"

type_synonym resolver_fn = "bytes \<Rightarrow> bytes option"

datatype site = OpaqueSite nat | TupleSite bytes bytes

definition site_of :: "web_origin \<Rightarrow> resolver_fn \<Rightarrow> site" where
  "site_of o' resolver =
     (case o' of
        OpaqueOrigin i \<Rightarrow> OpaqueSite i
      | TupleOrigin s h _ \<Rightarrow>
          TupleSite s
            (case h of
               Domain d \<Rightarrow> (case resolver d of Some r \<Rightarrow> r | None \<Rightarrow> host_serialize h)
             | _ \<Rightarrow> host_serialize h))"

definition web_same_site :: "web_origin \<Rightarrow> web_origin \<Rightarrow> resolver_fn \<Rightarrow> bool" where
  "web_same_site a b resolver \<longleftrightarrow> site_of a resolver = site_of b resolver"

definition schemelessly_same_site :: "web_origin \<Rightarrow> web_origin \<Rightarrow> resolver_fn \<Rightarrow> bool" where
  "schemelessly_same_site a b resolver =
     (case (site_of a resolver, site_of b resolver) of
        (OpaqueSite x, OpaqueSite y) \<Rightarrow> x = y
      | (TupleSite _ x, TupleSite _ y) \<Rightarrow> x = y
      | _ \<Rightarrow> False)"

definition cross_site_for_cookies :: "web_origin \<Rightarrow> web_origin \<Rightarrow> resolver_fn \<Rightarrow> bool" where
  "cross_site_for_cookies site_for_cookies request resolver \<longleftrightarrow> \<not> web_same_site site_for_cookies request resolver"

section \<open>Network origins\<close>

lemma from_url_inner_net:
  assumes "url_ok u" "is_special u" "u_scheme u \<noteq> lit ''file''"
  shows "\<exists>h. u_host u = Some h \<and> from_url_inner u n = (TupleOrigin (u_scheme u) h (u_port u), n)"
proof -
  from assms obtain h where h: "u_host u = Some h" "h \<noteq> EmptyHost" "\<not> (case h of OpaqueHost _ \<Rightarrow> True | _ \<Rightarrow> False)"
    by (auto simp: url_ok_def host_kind_ok_def is_special_def split: option.splits host.splits)
  have "to_ascii_lowercase (u_scheme u) = u_scheme u" using assms(1) by (simp add: url_ok_def scheme_ok_def)
  moreover have "\<not> (u_port u \<noteq> None \<and> u_port u = web_default_port (u_scheme u))" using assms(1) by (auto simp: url_ok_def)
  ultimately show ?thesis using h assms(2,3) by (auto simp: from_url_inner_def origin_tuple_def Let_def is_special_def)
qed

lemma special_not_blob: "is_special u \<Longrightarrow> u_scheme u \<noteq> lit ''blob''"
  by (auto simp: is_special_def is_special_scheme_def lit_def)

lemma origin_from_url_net:
  "url_ok u \<Longrightarrow> is_special u \<Longrightarrow> u_scheme u \<noteq> lit ''file'' \<Longrightarrow>
     \<exists>h. u_host u = Some h \<and> origin_from_url u n = (TupleOrigin (u_scheme u) h (u_port u), n)"
  using from_url_inner_net special_not_blob by (simp add: origin_from_url_def)

section \<open>Opaque origins\<close>

text \<open>Each derivation either leaves the counter alone or takes the number it shows.\<close>

lemma new_opaque_fresh: "n < U64_MAX \<Longrightarrow> new_opaque n = (OpaqueOrigin n, Suc n)"
  by (simp add: new_opaque_def checked_add_def)

lemma from_url_inner_step:
  "n < U64_MAX \<Longrightarrow> from_url_inner u n = (o', n') \<Longrightarrow> is_opaque o' \<and> o' = OpaqueOrigin n \<and> n' = Suc n \<or> \<not> is_opaque o' \<and> n' = n"
  by (auto simp: from_url_inner_def origin_tuple_def Let_def new_opaque_fresh is_opaque_def split: if_splits option.splits)

lemma origin_from_url_step:
  assumes "n < U64_MAX" "origin_from_url u n = (o', n')"
  shows "is_opaque o' \<and> o' = OpaqueOrigin n \<and> n' = Suc n \<or> \<not> is_opaque o' \<and> n' = n"
  using assms from_url_inner_step [OF assms(1)]
  by (auto simp: origin_from_url_def new_opaque_fresh is_opaque_def split: if_splits option.splits)

fun derive_all :: "url list \<Rightarrow> nat \<Rightarrow> web_origin list" where
  "derive_all [] n = []"
| "derive_all (u # us) n = (case origin_from_url u n of (o', n') \<Rightarrow> o' # derive_all us n')"

lemma derive_all_opaque:
  "n + length us \<le> U64_MAX \<Longrightarrow>
     distinct (filter is_opaque (derive_all us n)) \<and> (\<forall>o' \<in> set (derive_all us n). is_opaque o' \<longrightarrow> (\<exists>k \<ge> n. o' = OpaqueOrigin k))"
proof (induction us arbitrary: n)
  case (Cons u us)
  obtain o' n' where d: "origin_from_url u n = (o', n')" by fastforce
  have lt: "n < U64_MAX" using Cons.prems by simp
  note step = origin_from_url_step [OF lt d]
  have "n' + length us \<le> U64_MAX" using step Cons.prems by auto
  note IH = Cons.IH [OF this]
  from step show ?case
  proof
    assume s: "is_opaque o' \<and> o' = OpaqueOrigin n \<and> n' = Suc n"
    have "OpaqueOrigin n \<notin> set (derive_all us n')" using IH s by (force simp: is_opaque_def)
    moreover have "\<exists>k \<ge> n. x = OpaqueOrigin k" if "x \<in> set (derive_all us n')" "is_opaque x" for x
      using IH s that Suc_leD by blast
    ultimately show ?thesis using IH s d by auto
  next
    assume "\<not> is_opaque o' \<and> n' = n"
    then show ?thesis using IH d by auto
  qed
qed simp

section \<open>Sites\<close>

lemma same_origin_site: "same_origin a b \<Longrightarrow> web_same_site a b resolver"
  by (simp add: same_origin_def web_same_site_def)

lemma same_site_schemeless: "web_same_site a b resolver \<Longrightarrow> schemelessly_same_site a b resolver"
  by (auto simp: web_same_site_def schemelessly_same_site_def split: site.splits)

lemma schemelessly_same_site_sym: "schemelessly_same_site a b resolver \<longleftrightarrow> schemelessly_same_site b a resolver"
  by (auto simp: schemelessly_same_site_def split: site.splits)

end
