(* ===== verification/Block_Matcher.thy ===== *)
theory Block_Matcher
  imports Block_Filter_Laws Websec_Origin
begin

text \<open>
  The rule index and the decision of \<^verbatim>\<open>crates/px-block/src/matcher.rs\<close>: each rule is filed
  under the rarest token of its pattern, a request looks only at the buckets of its own
  tokens, and an important block beats an exception, which beats a block.
\<close>

definition MAX_TOTAL_RULES :: nat where "MAX_TOTAL_RULES = 1000000"

datatype verdict = Allow | BlockedBy nat | AllowedByException nat

record request =
  q_url :: url
  q_source :: "web_origin option"
  q_type :: resource_type
  q_third_party :: bool

definition is_third_party :: "url \<Rightarrow> web_origin option \<Rightarrow> resolver_fn \<Rightarrow> nat \<Rightarrow> bool \<times> nat" where
  "is_third_party u source resolver next_opaque =
     (case source of
        None \<Rightarrow> (False, next_opaque)
      | Some s \<Rightarrow>
          if is_opaque s then (True, next_opaque)
          else (case origin_from_url u next_opaque of (o', n) \<Rightarrow> (\<not> schemelessly_same_site o' s resolver, n)))"

section \<open>The text a rule is matched against\<close>

record target =
  t_full :: bytes
  t_lower :: bytes
  t_host :: "nat \<times> nat"

definition NETWORK_SCHEMES :: "bytes list" where
  "NETWORK_SCHEMES = [lit ''http'', lit ''https'', lit ''ws'', lit ''wss'', lit ''ftp'']"

definition target_build :: "url \<Rightarrow> bytes \<Rightarrow> target option" where
  "target_build u h =
     (if u_scheme u \<notin> set NETWORK_SCHEMES then None
      else
        let start = u_scheme u @ [COLON, SLASH, SLASH];
            hs = length start;
            full = start @ h;
            he = length full;
            full = full @ (case u_port u of Some p \<Rightarrow> COLON # show_dec (unat p) | None \<Rightarrow> [])
                   @ u_path u @ (case u_query u of Some q \<Rightarrow> 0x3F # q | None \<Rightarrow> [])
        in Some \<lparr>t_full = full, t_lower = to_ascii_lowercase full, t_host = (hs, he)\<rparr>)"

definition target_from_url :: "url \<Rightarrow> target option" where
  "target_from_url u = do { h \<leftarrow> u_host u; target_build u (host_serialize h) }"

definition target_with_host :: "url \<Rightarrow> bytes \<Rightarrow> target option" where
  "target_with_host u h = do { _ \<leftarrow> u_host u; target_build u h }"

section \<open>Building the index\<close>

record rule_entry =
  e_rule :: rule
  e_list :: nat

record matcher =
  m_entries :: "rule_entry list"
  m_names :: "bytes list"
  m_index :: "(bytes, nat list) btree"
  m_untokenized :: "nat list"
  m_dropped :: nat

type_synonym matcher_builder = "(bytes \<times> parsed_list) list"

definition add_list :: "bytes \<Rightarrow> parsed_list \<Rightarrow> matcher_builder \<Rightarrow> matcher_builder" where
  "add_list name l b = (if length b < 65535 then b @ [(name, l)] else b)"

fun add_rules :: "nat \<Rightarrow> rule list \<Rightarrow> rule_entry list \<times> nat \<Rightarrow> rule_entry list \<times> nat" where
  "add_rules li [] acc = acc"
| "add_rules li (r # rs) (es, dropped) =
     (if length es \<ge> MAX_TOTAL_RULES then add_rules li rs (es, dropped + 1)
      else add_rules li rs (es @ [\<lparr>e_rule = r, e_list = li\<rparr>], dropped))"

fun collect_entries :: "nat \<Rightarrow> matcher_builder \<Rightarrow> rule_entry list \<times> nat \<Rightarrow> rule_entry list \<times> nat" where
  "collect_entries li [] acc = acc"
| "collect_entries li ((name, l) # ls) acc = collect_entries (li + 1) ls (add_rules (min li 65535) (pl_rules l) acc)"

definition entry_tokens :: "rule_entry \<Rightarrow> bytes list" where
  "entry_tokens e = index_tokens (r_pattern (e_rule e))"

definition token_freq :: "(bytes, nat) btree \<Rightarrow> bytes \<Rightarrow> nat" where
  "token_freq freq t = (case map_of freq t of Some n \<Rightarrow> n | None \<Rightarrow> 0)"

definition count_token :: "bytes \<Rightarrow> (bytes, nat) btree \<Rightarrow> (bytes, nat) btree" where
  "count_token t freq = bt_insert t (token_freq freq t + 1) freq"

definition token_freqs :: "rule_entry list \<Rightarrow> (bytes, nat) btree" where
  "token_freqs es = fold count_token (concat (map entry_tokens es)) []"

definition rarer :: "(bytes, nat) btree \<Rightarrow> bytes \<Rightarrow> bytes \<Rightarrow> bool" where
  "rarer freq a b \<longleftrightarrow> token_freq freq a < token_freq freq b
     \<or> token_freq freq a = token_freq freq b \<and> (length a > length b \<or> length a = length b \<and> a < b)"

fun rarest :: "(bytes, nat) btree \<Rightarrow> bytes list \<Rightarrow> bytes option" where
  "rarest freq [] = None"
| "rarest freq (t # ts) = Some (fold (\<lambda>a b. if rarer freq a b then a else b) ts t)"

fun file_rules :: "(bytes, nat) btree \<Rightarrow> nat \<Rightarrow> rule_entry list \<Rightarrow> (bytes, nat list) btree \<times> nat list \<Rightarrow> (bytes, nat list) btree \<times> nat list"
where
  "file_rules freq i [] acc = acc"
| "file_rules freq i (e # es) (ix, untok) =
     (let rid = min i (2 ^ 32 - 1)
      in case rarest freq (entry_tokens e) of
           Some t \<Rightarrow> file_rules freq (i + 1) es
             (bt_insert t ((case map_of ix t of Some ids \<Rightarrow> ids | None \<Rightarrow> []) @ [rid]) ix, untok)
         | None \<Rightarrow> file_rules freq (i + 1) es (ix, untok @ [rid]))"

definition matcher_build :: "matcher_builder \<Rightarrow> matcher" where
  "matcher_build b =
     (let (es, dropped) = collect_entries 0 b ([], 0);
          (ix, untok) = file_rules (token_freqs es) 0 es ([], [])
      in \<lparr>m_entries = es, m_names = map fst b, m_index = ix, m_untokenized = untok, m_dropped = dropped\<rparr>)"

definition matcher_from_list :: "bytes \<Rightarrow> parsed_list \<Rightarrow> matcher" where
  "matcher_from_list name l = matcher_build (add_list name l [])"

record rule_info =
  ri_list :: nat
  ri_list_name :: bytes
  ri_line :: nat
  ri_text :: bytes

definition list_name :: "matcher \<Rightarrow> nat \<Rightarrow> bytes option" where
  "list_name m idx = (if idx < length (m_names m) then Some (m_names m ! idx) else None)"

definition rule_info_of :: "matcher \<Rightarrow> nat \<Rightarrow> rule_info option" where
  "rule_info_of m i =
     (if i < length (m_entries m) then
        (let e = m_entries m ! i
         in Some \<lparr>ri_list = e_list e, ri_list_name = (case list_name m (e_list e) of Some n \<Rightarrow> n | None \<Rightarrow> []),
                  ri_line = r_line (e_rule e), ri_text = r_text (e_rule e)\<rparr>)
      else None)"

section \<open>The decision\<close>

definition applies :: "rule \<Rightarrow> target \<Rightarrow> bytes option \<Rightarrow> resource_type \<Rightarrow> bool \<Rightarrow> bool" where
  "applies r t source ty third_party \<longleftrightarrow> mask_contains (r_types r) ty
     \<and> (case r_third_party r of Some want \<Rightarrow> want = third_party | None \<Rightarrow> True)
     \<and> dc_allows (r_domains r) source
     \<and> pattern_matches (r_pattern r) (if r_match_case r then t_full t else t_lower t) (Some (t_host t))"

fun decide :: "matcher \<Rightarrow> target \<Rightarrow> bytes option \<Rightarrow> resource_type \<Rightarrow> bool \<Rightarrow> nat list \<Rightarrow> nat option \<Rightarrow> nat option \<Rightarrow> verdict" where
  "decide m t source ty tp [] exception block =
     (case exception of Some i \<Rightarrow> AllowedByException i | None \<Rightarrow> (case block of Some i \<Rightarrow> BlockedBy i | None \<Rightarrow> Allow))"
| "decide m t source ty tp (i # is) exception block =
     (if \<not> i < length (m_entries m) then decide m t source ty tp is exception block
      else let r = e_rule (m_entries m ! i)
           in if \<not> applies r t source ty tp then decide m t source ty tp is exception block
              else if r_exception r
                then decide m t source ty tp is (case exception of Some e \<Rightarrow> Some e | None \<Rightarrow> Some i) block
              else if r_important r then BlockedBy i
              else decide m t source ty tp is exception (case block of Some b \<Rightarrow> Some b | None \<Rightarrow> Some i))"

definition candidates :: "matcher \<Rightarrow> target \<Rightarrow> nat list" where
  "candidates m t =
     remdups_adj (sort (m_untokenized m
       @ concat (map (\<lambda>tok. case map_of (m_index m) tok of Some ids \<Rightarrow> ids | None \<Rightarrow> []) (url_tokens (t_lower t)))))"

definition check_target :: "matcher \<Rightarrow> target \<Rightarrow> bytes option \<Rightarrow> resource_type \<Rightarrow> bool \<Rightarrow> verdict" where
  "check_target m t source ty tp =
     (if ty = TDocument then Allow else decide m t source ty tp (candidates m t) None None)"

definition source_host :: "web_origin option \<Rightarrow> bytes option" where
  "source_host o' =
     do { o' \<leftarrow> o'; h \<leftarrow> web_origin_host o'; if h = EmptyHost then None else Some (host_serialize h) }"

definition check_request :: "matcher \<Rightarrow> request \<Rightarrow> verdict" where
  "check_request m q =
     (case target_from_url (q_url q) of
        None \<Rightarrow> Allow
      | Some t \<Rightarrow> check_target m t (source_host (q_source q)) (q_type q) (q_third_party q))"

section \<open>What the decision means\<close>

text \<open>All rules in order, without an index.\<close>

definition hits :: "matcher \<Rightarrow> target \<Rightarrow> bytes option \<Rightarrow> resource_type \<Rightarrow> bool \<Rightarrow> nat list" where
  "hits m t source ty tp =
     filter (\<lambda>i. applies (e_rule (m_entries m ! i)) t source ty tp) [0..<length (m_entries m)]"

definition first_such :: "(nat \<Rightarrow> bool) \<Rightarrow> nat list \<Rightarrow> nat option" where
  "first_such P xs = (case filter P xs of [] \<Rightarrow> None | x # _ \<Rightarrow> Some x)"

definition verdict_spec :: "matcher \<Rightarrow> target \<Rightarrow> bytes option \<Rightarrow> resource_type \<Rightarrow> bool \<Rightarrow> verdict" where
  "verdict_spec m t source ty tp =
     (let rule = (\<lambda>i. e_rule (m_entries m ! i)); hs = hits m t source ty tp
      in case first_such (\<lambda>i. \<not> r_exception (rule i) \<and> r_important (rule i)) hs of
           Some i \<Rightarrow> BlockedBy i
         | None \<Rightarrow> (case first_such (\<lambda>i. r_exception (rule i)) hs of
             Some i \<Rightarrow> AllowedByException i
           | None \<Rightarrow> (case first_such (\<lambda>i. \<not> r_exception (rule i)) hs of Some i \<Rightarrow> BlockedBy i | None \<Rightarrow> Allow)))"

end
