(* ===== verification/Block_Matcher_Laws.thy ===== *)
theory Block_Matcher_Laws
  imports Block_Matcher
begin

text \<open>
  The index loses nothing: what the matcher decides from the buckets of the request's own
  tokens is what it would decide from all rules in order.
\<close>

section \<open>The decision over a list of rules\<close>

abbreviation rule_at :: "matcher \<Rightarrow> nat \<Rightarrow> rule" where
  "rule_at m i \<equiv> e_rule (m_entries m ! i)"

lemma first_such_simps [simp]:
  "first_such P [] = None" "first_such P (x # xs) = (if P x then Some x else first_such P xs)"
  by (simp_all add: first_such_def)

lemma first_such_cong: "(\<And>x. x \<in> set xs \<Longrightarrow> P x = Q x) \<Longrightarrow> first_such P xs = first_such Q xs"
  by (simp add: first_such_def cong: filter_cong)

definition ranked_verdict :: "matcher \<Rightarrow> nat list \<Rightarrow> nat option \<Rightarrow> nat option \<Rightarrow> verdict" where
  "ranked_verdict m hs exception block =
     (case first_such (\<lambda>i. \<not> r_exception (rule_at m i) \<and> r_important (rule_at m i)) hs of
        Some i \<Rightarrow> BlockedBy i
      | None \<Rightarrow>
          (case (case exception of Some i \<Rightarrow> Some i | None \<Rightarrow> first_such (\<lambda>i. r_exception (rule_at m i)) hs) of
             Some i \<Rightarrow> AllowedByException i
           | None \<Rightarrow>
               (case (case block of Some i \<Rightarrow> Some i | None \<Rightarrow> first_such (\<lambda>i. \<not> r_exception (rule_at m i)) hs) of
                  Some i \<Rightarrow> BlockedBy i | None \<Rightarrow> Allow)))"

lemma decide_ranked:
  "decide m t source ty tp is exception block =
     ranked_verdict m (filter (\<lambda>i. i < length (m_entries m) \<and> applies (rule_at m i) t source ty tp) is) exception block"
proof (induction "is" arbitrary: exception block)
  case Nil
  then show ?case by (simp add: ranked_verdict_def split: option.split)
next
  case (Cons i "is")
  then show ?case by (auto simp: Let_def ranked_verdict_def split: option.split)
qed

lemma verdict_spec_ranked: "verdict_spec m t source ty tp = ranked_verdict m (hits m t source ty tp) None None"
  by (simp add: verdict_spec_def ranked_verdict_def Let_def split: option.split)

lemma strict_sorted_filter_eq:
  "sorted_wrt (<) xs \<Longrightarrow> sorted_wrt (<) ys \<Longrightarrow> set (filter P xs) = set (filter P ys) \<Longrightarrow> filter P xs = filter P ys" for xs :: "nat list"
  by (rule strict_sorted_equal) (simp_all add: sorted_wrt_filter)

lemma decide_all:
  assumes cands: "sorted_wrt (<) is"
    and all: "\<And>i. i < length (m_entries m) \<Longrightarrow> applies (rule_at m i) t source ty tp \<Longrightarrow> i \<in> set is"
  shows "decide m t source ty tp is None None = verdict_spec m t source ty tp"
proof -
  let ?P = "\<lambda>i. i < length (m_entries m) \<and> applies (rule_at m i) t source ty tp"
  have "filter ?P is = filter ?P [0..<length (m_entries m)]"
    by (rule strict_sorted_filter_eq [OF cands]) (use all in auto)
  also have "\<dots> = hits m t source ty tp" unfolding hits_def by (rule filter_cong) auto
  finally show ?thesis by (simp only: decide_ranked verdict_spec_ranked)
qed

section \<open>The index\<close>

lemma rarest_mem: "rarest freq ts = Some t \<Longrightarrow> t \<in> set ts"
proof (cases ts)
  case (Cons x xs)
  have "fold (\<lambda>a b. if rarer freq a b then a else b) xs x \<in> insert x (set xs)" for x
  proof (induction xs arbitrary: x)
    case (Cons a xs)
    then show ?case using Cons [of a] Cons [of x] by auto
  qed simp
  moreover assume "rarest freq ts = Some t"
  ultimately show ?thesis using Cons by auto
qed simp

lemma rarest_None: "rarest freq ts = None \<longleftrightarrow> ts = []"
  by (cases ts) auto

definition filed :: "(bytes, nat list) btree \<times> nat list \<Rightarrow> nat \<Rightarrow> rule_entry \<Rightarrow> bool" where
  "filed acc i e \<longleftrightarrow> i \<in> set (snd acc)
     \<or> (\<exists>t ids. t \<in> set (entry_tokens e) \<and> map_of (fst acc) t = Some ids \<and> i \<in> set ids)"

lemma filed_grows:
  assumes "filed (ix, untok) i e"
  shows "filed (bt_insert t ((case map_of ix t of Some ids \<Rightarrow> ids | None \<Rightarrow> []) @ new) ix, untok @ new') i e"
proof -
  let ?ix = "bt_insert t ((case map_of ix t of Some ids \<Rightarrow> ids | None \<Rightarrow> []) @ new) ix"
  have "\<exists>ids. map_of ?ix k = Some ids \<and> i \<in> set ids" if "map_of ix k = Some ids" "i \<in> set ids" for k ids
    using that by (cases "k = t") simp_all
  then show ?thesis using assms unfolding filed_def fst_conv snd_conv set_append by blast
qed

lemma file_rules_keep: "filed acc i e \<Longrightarrow> filed (file_rules freq k es acc) i e"
proof (induction freq k es acc rule: file_rules.induct)
  case (2 freq k e' es ix untok)
  show ?case
  proof (cases "rarest freq (entry_tokens e')")
    case None
    then have "filed (file_rules freq (k + 1) es (ix, untok @ [min k (2 ^ 32 - 1)])) i e"
      by (intro 2(1) [OF refl None]) (use 2(3) in \<open>auto simp: filed_def\<close>)
    then show ?thesis using None by (simp add: Let_def)
  next
    case (Some t)
    let ?ix = "bt_insert t ((case map_of ix t of Some ids \<Rightarrow> ids | None \<Rightarrow> []) @ [min k (2 ^ 32 - 1)]) ix"
    have "filed (file_rules freq (k + 1) es (?ix, untok)) i e"
      by (intro 2(2) [OF refl Some]) (use filed_grows [OF 2(3), of t "[min k (2 ^ 32 - 1)]" "[]"] in simp)
    then show ?thesis using Some by (simp add: Let_def)
  qed
qed simp

lemma file_rules_files:
  "k + length es \<le> 2 ^ 32 - 1 \<Longrightarrow> j < length es \<Longrightarrow> filed (file_rules freq k es acc) (k + j) (es ! j)"
proof (induction freq k es acc arbitrary: j rule: file_rules.induct)
  case (2 freq k e es ix untok)
  have rid: "min k (2 ^ 32 - 1) = k" using 2(3) by simp
  have new: "filed (bt_insert t ((case map_of ix t of Some ids \<Rightarrow> ids | None \<Rightarrow> []) @ [k]) ix, untok) k e"
    if "rarest freq (entry_tokens e) = Some t" for t using rarest_mem [OF that] by (auto simp: filed_def)
  show ?case
  proof (cases j)
    case 0
    then show ?thesis unfolding file_rules.simps Let_def rid
      by (cases "rarest freq (entry_tokens e)") (auto intro!: file_rules_keep simp: new, simp add: filed_def)
  next
    case (Suc i)
    have len: "k + 1 + length es \<le> 2 ^ 32 - 1" "i < length es" using 2(3,4) Suc by simp_all
    show ?thesis
    proof (cases "rarest freq (entry_tokens e)")
      case None
      then show ?thesis using 2(1) [OF refl None len] Suc by (simp add: Let_def)
    next
      case (Some t)
      then show ?thesis using 2(2) [OF refl Some len] Suc by (simp add: Let_def)
    qed
  qed
qed simp

lemma add_rules_cap: "length (fst acc) \<le> MAX_TOTAL_RULES \<Longrightarrow> length (fst (add_rules li rs acc)) \<le> MAX_TOTAL_RULES"
  by (induction li rs acc rule: add_rules.induct) auto

lemma collect_entries_cap: "length (fst acc) \<le> MAX_TOTAL_RULES \<Longrightarrow> length (fst (collect_entries li ls acc)) \<le> MAX_TOTAL_RULES"
  by (induction li ls acc rule: collect_entries.induct) (simp_all add: add_rules_cap)

definition indexed :: "matcher \<Rightarrow> bool" where
  "indexed m \<longleftrightarrow> length (m_entries m) \<le> MAX_TOTAL_RULES
     \<and> (\<forall>i < length (m_entries m). filed (m_index m, m_untokenized m) i (m_entries m ! i))"

lemma matcher_build_indexed: "indexed (matcher_build b)"
proof -
  obtain es d where e: "collect_entries 0 b ([], 0) = (es, d)" by fastforce
  obtain ix untok where f: "file_rules (token_freqs es) 0 es ([], []) = (ix, untok)" by fastforce
  have cap: "length es \<le> MAX_TOTAL_RULES" using collect_entries_cap [of "([], 0)" 0 b] e by simp
  then have "0 + length es \<le> 2 ^ 32 - 1" by (simp add: MAX_TOTAL_RULES_def)
  then have "filed (ix, untok) i (es ! i)" if "i < length es" for i
    using file_rules_files [of 0 es i "token_freqs es" "([], [])"] that f by simp
  then show ?thesis using cap by (simp add: indexed_def matcher_build_def e f)
qed

section \<open>Targets\<close>

lemma target_build_edges:
  assumes "target_build u h = Some t"
  shows "t_lower t = map lower_byte (t_full t)" "host_edges (t_full t) (Some (t_host t))" "host_edges (t_lower t) (Some (t_host t))"
proof -
  let ?start = "u_scheme u @ [COLON, SLASH, SLASH]"
  from assms obtain rest where t: "t_full t = ?start @ h @ rest" "t_lower t = to_ascii_lowercase (t_full t)"
      "t_host t = (length ?start, length (?start @ h))"
    unfolding target_build_def by (auto simp: Let_def split: if_splits)
  show low: "t_lower t = map lower_byte (t_full t)" using t(2) by (simp add: to_ascii_lowercase_def)
  have slash: "t_full t ! (length ?start - 1) = SLASH" unfolding t(1) by (simp add: nth_append)
  have tok: "\<not> is_token_byte SLASH" by (simp add: is_token_byte_def ascii_alphanumeric_def)
  show "host_edges (t_full t) (Some (t_host t))"
    using slash tok by (simp add: host_edges_def host_range_def edge_def t(1,3))
  have "length ?start - 1 < length (t_full t)" unfolding t(1) by simp
  then have "t_lower t ! (length ?start - 1) = lower_byte SLASH" using slash low by simp
  then show "host_edges (t_lower t) (Some (t_host t))"
    using tok low by (simp add: host_edges_def host_range_def edge_def t(1,3))
qed

definition rule_selects :: "rule_entry \<Rightarrow> target \<Rightarrow> bool" where
  "rule_selects e t \<longleftrightarrow> (\<exists>u h. target_build u h = Some t)
     \<and> pattern_matches (r_pattern (e_rule e)) (if r_match_case (e_rule e) then t_full t else t_lower t) (Some (t_host t))"

lemma rule_selects_tokens:
  assumes "rule_selects e t" and tok: "tok \<in> set (entry_tokens e)"
  shows "tok \<in> set (url_tokens (t_lower t))"
proof -
  obtain u h where t: "target_build u h = Some t" using assms(1) by (auto simp: rule_selects_def)
  have low: "map lower_byte (t_full t) = t_lower t" "map lower_byte (t_lower t) = t_lower t"
    unfolding target_build_edges(1) [OF t] by simp_all
  show ?thesis
    using assms(1) index_tokens_occur [OF tok [unfolded entry_tokens_def] target_build_edges(2) [OF t]]
      index_tokens_occur [OF tok [unfolded entry_tokens_def] target_build_edges(3) [OF t]]
    unfolding rule_selects_def low by (auto split: if_splits)
qed

interpretation ri: token_index entry_tokens "\<lambda>t. url_tokens (t_lower t)" rule_selects
  by unfold_locales (rule rule_selects_tokens)

lemma candidates_complete:
  assumes "indexed m" "target_build u h = Some t" "i < length (m_entries m)" "applies (rule_at m i) t source ty tp"
  shows "i \<in> set (candidates m t)"
proof -
  have "filed (m_index m, m_untokenized m) i (m_entries m ! i)" using assms(1,3) by (simp add: indexed_def)
  moreover have "rule_selects (m_entries m ! i) t" using assms(2,4) by (auto simp: rule_selects_def applies_def)
  ultimately show ?thesis
    using ri.looked_up [of i "m_untokenized m" "m_entries m ! i" "m_index m" t] by (simp add: filed_def candidates_def)
qed

lemma check_target_spec:
  assumes "indexed m" "target_build u h = Some t" "ty \<noteq> TDocument"
  shows "check_target m t source ty tp = verdict_spec m t source ty tp"
proof -
  have "sorted_wrt (<) (candidates m t)" unfolding candidates_def by (rule strict_remdups_adj) simp
  then show ?thesis using decide_all candidates_complete [OF assms(1,2)] assms(3) by (simp add: check_target_def)
qed

lemma target_from_url_build: "target_from_url u = Some t \<Longrightarrow> \<exists>h. target_build u h = Some t"
  by (auto simp: target_from_url_def bind_eq_Some_conv)

lemma target_with_host_build: "target_with_host u h = Some t \<Longrightarrow> target_build u h = Some t"
  by (auto simp: target_with_host_def bind_eq_Some_conv)

end
