(* ===== verification/Block_Cname.thy ===== *)
theory Block_Cname
  imports Block_Matcher_Laws
begin

text \<open>
  CNAME cloaking (\<^verbatim>\<open>crates/px-block/src/cname.rs\<close>) and the storage partition of a request
  (\<^verbatim>\<open>isolation.rs\<close>).
\<close>

section \<open>CNAME chains\<close>

definition MAX_CNAME_CHAIN :: nat where "MAX_CNAME_CHAIN = 16"

datatype cname_verdict = Clean | Cloaked nat nat | Excepted nat nat | Malformed nat | ChainTooLong

definition should_block :: "cname_verdict \<Rightarrow> bool" where
  "should_block v = (case v of Cloaked _ _ \<Rightarrow> True | Malformed _ \<Rightarrow> True | ChainTooLong \<Rightarrow> True | _ \<Rightarrow> False)"

definition label_valid :: "bytes \<Rightarrow> bool" where
  "label_valid l \<longleftrightarrow> l \<noteq> [] \<and> length l \<le> 63 \<and> \<not> begins_with 0x2D l \<and> \<not> ends_with 0x2D l
     \<and> list_all (\<lambda>b. ascii_alphanumeric b \<or> b = 0x2D \<or> b = 0x5F) l"

definition normalise_host :: "bytes \<Rightarrow> bytes option" where
  "normalise_host name =
     (let n = (case strip_suffix [DOT] name of Some r \<Rightarrow> r | None \<Rightarrow> name)
      in if n \<noteq> [] \<and> length n \<le> 253 \<and> list_all label_valid (str_split DOT n) then Some (to_ascii_lowercase n) else None)"

definition site_or_host :: "resolver_fn \<Rightarrow> bytes \<Rightarrow> bytes" where
  "site_or_host resolver h = (case resolver h of Some r \<Rightarrow> r | None \<Rightarrow> h)"

definition hop_third_party :: "web_origin option \<Rightarrow> bytes option \<Rightarrow> bytes \<Rightarrow> bool" where
  "hop_third_party source src_site hop_site =
     (case source of
        None \<Rightarrow> False
      | Some o' \<Rightarrow> if is_opaque o' then True else (case src_site of Some s \<Rightarrow> s \<noteq> hop_site | None \<Rightarrow> True))"

text \<open>The verdict for one element of the chain, if it is examined at all.\<close>

definition hop_verdict :: "matcher \<Rightarrow> request \<Rightarrow> resolver_fn \<Rightarrow> bytes \<Rightarrow> verdict" where
  "hop_verdict m q resolver h =
     (let own_host = map_option host_serialize (u_host (q_url q));
          src_host = source_host (q_source q);
          src_site = map_option (site_or_host resolver) src_host
      in if own_host = Some h then Allow
         else case target_with_host (q_url q) h of
                None \<Rightarrow> Allow
              | Some t \<Rightarrow> check_target m t src_host (q_type q)
                  (hop_third_party (q_source q) src_site (site_or_host resolver h)))"

fun check_hops :: "matcher \<Rightarrow> request \<Rightarrow> resolver_fn \<Rightarrow> nat \<Rightarrow> bytes list \<Rightarrow> (nat \<times> nat) option \<Rightarrow> cname_verdict" where
  "check_hops m q resolver hop [] first_exception =
     (case first_exception of Some (h, i) \<Rightarrow> Excepted h i | None \<Rightarrow> Clean)"
| "check_hops m q resolver hop (raw # chain) first_exception =
     (case normalise_host raw of
        None \<Rightarrow> Malformed hop
      | Some h \<Rightarrow>
          (case hop_verdict m q resolver h of
             BlockedBy i \<Rightarrow> Cloaked hop i
           | AllowedByException i \<Rightarrow>
               check_hops m q resolver (hop + 1) chain (case first_exception of Some e \<Rightarrow> Some e | None \<Rightarrow> Some (hop, i))
           | Allow \<Rightarrow> check_hops m q resolver (hop + 1) chain first_exception))"

definition check_cname_chain :: "matcher \<Rightarrow> request \<Rightarrow> bytes list \<Rightarrow> resolver_fn \<Rightarrow> cname_verdict" where
  "check_cname_chain m q chain resolver =
     (if length chain > MAX_CNAME_CHAIN then ChainTooLong else check_hops m q resolver 0 chain None)"

definition blocks :: "verdict \<Rightarrow> bool" where
  "blocks v = (case v of BlockedBy _ \<Rightarrow> True | _ \<Rightarrow> False)"

lemma check_hops_blocks:
  "should_block (check_hops m q resolver hop chain e) \<longleftrightarrow>
     (\<exists>raw \<in> set chain. case normalise_host raw of None \<Rightarrow> True | Some h \<Rightarrow> blocks (hop_verdict m q resolver h))"
  by (induction m q resolver hop chain e rule: check_hops.induct)
     (auto simp: should_block_def blocks_def split: option.splits verdict.splits)

lemma check_cname_chain_blocks:
  "should_block (check_cname_chain m q chain resolver) \<longleftrightarrow> length chain > MAX_CNAME_CHAIN
     \<or> (\<exists>raw \<in> set chain. case normalise_host raw of None \<Rightarrow> True | Some h \<Rightarrow> blocks (hop_verdict m q resolver h))"
  by (simp add: check_cname_chain_def check_hops_blocks) (simp add: should_block_def)

text \<open>The hop that a cloaked verdict names is blocked, and no hop before it is.\<close>

lemma check_hops_cloaked:
  "check_hops m q resolver hop chain e = Cloaked k i \<Longrightarrow>
     hop \<le> k \<and> k - hop < length chain
     \<and> (\<exists>h. normalise_host (chain ! (k - hop)) = Some h \<and> hop_verdict m q resolver h = BlockedBy i)
     \<and> (\<forall>j < k - hop. \<exists>h. normalise_host (chain ! j) = Some h \<and> \<not> blocks (hop_verdict m q resolver h))"
proof (induction m q resolver hop chain e rule: check_hops.induct)
  case (2 m q resolver hop raw chain e)
  from 2(3) obtain h where h: "normalise_host raw = Some h" by (cases "normalise_host raw") auto
  show ?case
  proof (cases "hop_verdict m q resolver h")
    case (BlockedBy r)
    then show ?thesis using 2(3) h by auto
  next
    case Allow
    then have "check_hops m q resolver (hop + 1) chain e = Cloaked k i" using 2(3) h by simp
    note IH = 2(1) [OF h Allow this]
    then have "k - hop = Suc (k - (hop + 1))" by auto
    then show ?thesis using IH h Allow by (auto simp: blocks_def less_Suc_eq_0_disj)
  next
    case (AllowedByException r)
    then have "check_hops m q resolver (hop + 1) chain (case e of Some x \<Rightarrow> Some x | None \<Rightarrow> Some (hop, r)) = Cloaked k i"
      using 2(3) h by simp
    note IH = 2(2) [OF h AllowedByException this]
    then have "k - hop = Suc (k - (hop + 1))" by auto
    then show ?thesis using IH h AllowedByException by (auto simp: blocks_def less_Suc_eq_0_disj)
  qed
qed (simp split: option.splits prod.splits)

text \<open>
  The request as it would be sent to another host.  It is a third-party request when the page's
  site is not the host's, when the page is opaque and when the page has no host.
\<close>

definition third_party_to :: "web_origin option \<Rightarrow> resolver_fn \<Rightarrow> bytes \<Rightarrow> bool" where
  "third_party_to source resolver h \<longleftrightarrow>
     (\<exists>o'. source = Some o'
        \<and> (is_opaque o' \<or> (\<forall>s. source_host source = Some s \<longrightarrow> site_or_host resolver s \<noteq> site_or_host resolver h)))"

definition sent_to :: "request \<Rightarrow> resolver_fn \<Rightarrow> bytes \<Rightarrow> request" where
  "sent_to q resolver h =
     q\<lparr>q_url := (q_url q)\<lparr>u_host := map_option (\<lambda>_. Domain h) (u_host (q_url q))\<rparr>,
       q_third_party := third_party_to (q_source q) resolver h\<rparr>"

lemma hop_third_party_spec:
  "hop_third_party source (map_option (site_or_host resolver) (source_host source)) (site_or_host resolver h)
   = third_party_to source resolver h"
  by (auto simp: hop_third_party_def third_party_to_def split: option.splits)

lemma target_sent_to: "target_from_url (q_url (sent_to q resolver h)) = target_with_host (q_url q) h"
  by (cases "u_host (q_url q)") (simp_all add: target_from_url_def target_with_host_def sent_to_def target_build_def host_serialize_def)

lemma hop_verdict_request:
  "hop_verdict m q resolver h =
     (if map_option host_serialize (u_host (q_url q)) = Some h then Allow else check_request m (sent_to q resolver h))"
proof -
  have f: "source_host (q_source (sent_to q resolver h)) = source_host (q_source q)" "q_type (sent_to q resolver h) = q_type q"
    "q_third_party (sent_to q resolver h) = third_party_to (q_source q) resolver h"
    by (simp_all add: sent_to_def)
  show ?thesis unfolding hop_verdict_def check_request_def target_sent_to hop_third_party_spec Let_def f by (rule refl)
qed

section \<open>Storage isolation\<close>

record partition_key_parts =
  pk_site :: bytes
  pk_origin :: web_origin

datatype isolation = Blocked nat | Partitioned partition_key_parts bool | Unpartitionable

definition storage_isolation :: "bytes \<Rightarrow> web_origin \<Rightarrow> verdict \<Rightarrow> resolver_fn \<Rightarrow> isolation" where
  "storage_isolation top_level_host request_origin v resolver =
     (case v of
        BlockedBy i \<Rightarrow> Blocked i
      | _ \<Rightarrow>
          (case resolver top_level_host of
             None \<Rightarrow> Unpartitionable
           | Some site \<Rightarrow>
               (let req_site = (case web_origin_host request_origin of Some (Domain d) \<Rightarrow> resolver d | _ \<Rightarrow> None)
                in Partitioned \<lparr>pk_site = site, pk_origin = request_origin\<rparr> (req_site \<noteq> Some site))))"

text \<open>Two pages of different sites never share a partition, whatever the verdicts.\<close>

lemma partitions_differ:
  assumes "storage_isolation a o1 v1 resolver = Partitioned k1 t1" "storage_isolation b o2 v2 resolver = Partitioned k2 t2"
    and "resolver a \<noteq> resolver b"
  shows "k1 \<noteq> k2"
  using assms by (auto simp: storage_isolation_def Let_def split: verdict.splits option.splits)

end
