(* ===== verification/Block_Stats.thy ===== *)
theory Block_Stats
  imports Block_Cname "HOL-Library.Product_Lexorder"
begin

text \<open>
  Blocking statistics, \<^verbatim>\<open>crates/px-block/src/stats.rs\<close>: counters per rule, list and domain in
  tables that never grow past their caps; what does not fit is counted as overflow.
\<close>

definition MAX_TRACKED_RULES :: nat where "MAX_TRACKED_RULES = 4096"
definition MAX_TRACKED_DOMAINS :: nat where "MAX_TRACKED_DOMAINS = 1024"
definition MAX_DOMAIN_KEY_BYTES :: nat where "MAX_DOMAIN_KEY_BYTES = 253"

record stats =
  s_blocked :: nat
  s_excepted :: nat
  s_allowed :: nat
  s_per_rule :: "(nat, nat) btree"
  s_per_list :: "(nat, nat) btree"
  s_per_domain :: "(bytes, nat) btree"
  s_rule_overflow :: nat
  s_domain_overflow :: nat

definition stats_default :: stats where
  "stats_default = \<lparr>s_blocked = 0, s_excepted = 0, s_allowed = 0, s_per_rule = [], s_per_list = [], s_per_domain = [],
     s_rule_overflow = 0, s_domain_overflow = 0\<rparr>"

definition bump_bounded :: "('k::linorder, nat) btree \<Rightarrow> 'k \<Rightarrow> nat \<Rightarrow> nat \<Rightarrow> ('k, nat) btree \<times> nat" where
  "bump_bounded m k cap overflow =
     (case map_of m k of
        Some n \<Rightarrow> (bt_insert k (sat_add n 1) m, overflow)
      | None \<Rightarrow> if length m < cap then (bt_insert k 1 m, overflow) else (m, sat_add overflow 1))"

definition bump_list :: "(nat, nat) btree \<Rightarrow> nat \<Rightarrow> (nat, nat) btree" where
  "bump_list m k = bt_insert k (sat_add (case map_of m k of Some n \<Rightarrow> n | None \<Rightarrow> 0) 1) m"

definition record_block :: "matcher \<Rightarrow> nat \<Rightarrow> bytes \<Rightarrow> stats \<Rightarrow> stats" where
  "record_block m i domain s =
     (let s = s\<lparr>s_blocked := sat_add (s_blocked s) 1\<rparr>;
          (pr, ro) = bump_bounded (s_per_rule s) i MAX_TRACKED_RULES (s_rule_overflow s);
          s = s\<lparr>s_per_rule := pr, s_rule_overflow := ro\<rparr>;
          s = (case rule_info_of m i of Some info \<Rightarrow> s\<lparr>s_per_list := bump_list (s_per_list s) (ri_list info)\<rparr> | None \<Rightarrow> s)
      in if length domain \<le> MAX_DOMAIN_KEY_BYTES then
           (let (pd, d) = bump_bounded (s_per_domain s) (to_ascii_lowercase domain) MAX_TRACKED_DOMAINS (s_domain_overflow s)
            in s\<lparr>s_per_domain := pd, s_domain_overflow := d\<rparr>)
         else s\<lparr>s_domain_overflow := sat_add (s_domain_overflow s) 1\<rparr>)"

definition stats_record :: "matcher \<Rightarrow> verdict \<Rightarrow> bytes \<Rightarrow> stats \<Rightarrow> stats" where
  "stats_record m v domain s =
     (case v of
        Allow \<Rightarrow> s\<lparr>s_allowed := sat_add (s_allowed s) 1\<rparr>
      | AllowedByException _ \<Rightarrow> s\<lparr>s_excepted := sat_add (s_excepted s) 1\<rparr>
      | BlockedBy i \<Rightarrow> record_block m i domain s)"

definition rule_count :: "stats \<Rightarrow> nat \<Rightarrow> nat" where
  "rule_count s i = (case map_of (s_per_rule s) i of Some n \<Rightarrow> n | None \<Rightarrow> 0)"

definition domain_count :: "stats \<Rightarrow> bytes \<Rightarrow> nat" where
  "domain_count s d = (case map_of (s_per_domain s) (to_ascii_lowercase d) of Some n \<Rightarrow> n | None \<Rightarrow> 0)"

definition list_count :: "stats \<Rightarrow> nat \<Rightarrow> nat" where
  "list_count s l = (case map_of (s_per_list s) l of Some n \<Rightarrow> n | None \<Rightarrow> 0)"

definition top_rules :: "stats \<Rightarrow> nat \<Rightarrow> (nat \<times> nat) list" where
  "top_rules s n = take n (sort_key (\<lambda>(k, c). (- int c, k)) (s_per_rule s))"

definition top_domains :: "stats \<Rightarrow> nat \<Rightarrow> (bytes \<times> nat) list" where
  "top_domains s n = take n (sort_key (\<lambda>(k, c). (- int c, k)) (s_per_domain s))"

definition run_stats :: "matcher \<Rightarrow> (verdict \<times> bytes) list \<Rightarrow> stats \<Rightarrow> stats" where
  "run_stats m evs s = fold (\<lambda>(v, d). stats_record m v d) evs s"

section \<open>The tables account for every block\<close>

abbreviation table_sum :: "('k, nat) btree \<Rightarrow> nat" where
  "table_sum m \<equiv> bt_weight (\<lambda>k v. v) m"

definition table_ok :: "nat \<Rightarrow> nat \<Rightarrow> ('k::linorder, nat) btree \<Rightarrow> nat \<Rightarrow> bool" where
  "table_ok cap tot m overflow \<longleftrightarrow> bt_ok m \<and> length m \<le> cap \<and> table_sum m + overflow = tot"

lemma old_weight_value: "old_weight (\<lambda>k v. v) m k = (case map_of m k of Some n \<Rightarrow> n | None \<Rightarrow> 0)"
  by (simp add: old_weight_def)

lemma bump_bounded_ok:
  assumes "table_ok cap tot m ov" "tot < U64_MAX" "bump_bounded m k cap ov = (m', ov')"
  shows "table_ok cap (Suc tot) m' ov'"
proof (cases "map_of m k")
  case (Some n)
  have ok: "bt_ok m" "length m \<le> cap" "table_sum m + ov = tot" using assms(1) by (simp_all add: table_ok_def)
  have n: "n \<le> table_sum m" using old_weight_le [of "\<lambda>k v. v" m k] Some by (simp add: old_weight_value)
  then have "sat_add n 1 = n + 1" using ok(3) assms(2) by simp
  then have "m' = bt_insert k (n + 1) m" "ov' = ov" using assms(3) Some by (simp_all add: bump_bounded_def)
  moreover have "table_sum (bt_insert k (n + 1) m) = table_sum m + 1"
    using n Some by (simp add: bt_weight_insert [OF ok(1)] old_weight_value)
  ultimately show ?thesis using ok Some length_bt_insert [OF ok(1), of k "n + 1"] by (simp add: table_ok_def)
next
  case None
  have ok: "bt_ok m" "length m \<le> cap" "table_sum m + ov = tot" using assms(1) by (simp_all add: table_ok_def)
  show ?thesis
  proof (cases "length m < cap")
    case True
    then have e: "m' = bt_insert k 1 m" "ov' = ov" using assms(3) None by (simp_all add: bump_bounded_def)
    have "table_sum (bt_insert k 1 m) = table_sum m + 1" using None by (simp add: bt_weight_insert [OF ok(1)] old_weight_value)
    then show ?thesis using e ok True None length_bt_insert [OF ok(1), of k "1::nat"] by (simp add: table_ok_def)
  next
    case False
    have "sat_add ov 1 = ov + 1" using ok(3) assms(2) by simp
    then show ?thesis using assms(3) None False ok by (auto simp: bump_bounded_def table_ok_def)
  qed
qed

definition stats_ok :: "stats \<Rightarrow> bool" where
  "stats_ok s \<longleftrightarrow> table_ok MAX_TRACKED_RULES (s_blocked s) (s_per_rule s) (s_rule_overflow s)
     \<and> table_ok MAX_TRACKED_DOMAINS (s_blocked s) (s_per_domain s) (s_domain_overflow s)"

definition events_seen :: "stats \<Rightarrow> nat" where
  "events_seen s = s_blocked s + s_excepted s + s_allowed s"

lemma record_block_ok:
  assumes ok: "stats_ok s" and lt: "s_blocked s < U64_MAX"
  shows "stats_ok (record_block m i d s)" "s_blocked (record_block m i d s) = Suc (s_blocked s)"
    "s_excepted (record_block m i d s) = s_excepted s" "s_allowed (record_block m i d s) = s_allowed s"
proof -
  obtain pr ro where r: "bump_bounded (s_per_rule s) i MAX_TRACKED_RULES (s_rule_overflow s) = (pr, ro)" by fastforce
  obtain pd od where d: "bump_bounded (s_per_domain s) (to_ascii_lowercase d) MAX_TRACKED_DOMAINS (s_domain_overflow s) = (pd, od)"
    by fastforce
  have tr: "table_ok MAX_TRACKED_RULES (Suc (s_blocked s)) pr ro" using ok lt r by (intro bump_bounded_ok) (auto simp: stats_ok_def)
  have td: "table_ok MAX_TRACKED_DOMAINS (Suc (s_blocked s)) pd od" using ok lt d by (intro bump_bounded_ok) (auto simp: stats_ok_def)
  have dom: "table_ok MAX_TRACKED_DOMAINS (s_blocked s) (s_per_domain s) (s_domain_overflow s)" using ok by (simp add: stats_ok_def)
  then have "sat_add (s_domain_overflow s) 1 = Suc (s_domain_overflow s)" using lt by (simp add: table_ok_def)
  moreover have "sat_add (s_blocked s) 1 = Suc (s_blocked s)" using lt by simp
  ultimately show "stats_ok (record_block m i d s)" "s_blocked (record_block m i d s) = Suc (s_blocked s)"
    "s_excepted (record_block m i d s) = s_excepted s" "s_allowed (record_block m i d s) = s_allowed s"
    using tr td dom r d by (simp_all add: record_block_def Let_def stats_ok_def table_ok_def split: option.split)
qed

lemma stats_record_ok:
  assumes "stats_ok s" "events_seen s < U64_MAX"
  shows "stats_ok (stats_record m v d s)" "events_seen (stats_record m v d s) = Suc (events_seen s)"
proof -
  have "sat_add (s_allowed s) 1 = Suc (s_allowed s)" "sat_add (s_excepted s) 1 = Suc (s_excepted s)" "s_blocked s < U64_MAX"
    using assms(2) by (simp_all add: events_seen_def)
  then show "stats_ok (stats_record m v d s)" "events_seen (stats_record m v d s) = Suc (events_seen s)"
    using assms(1) record_block_ok [OF assms(1), of m _ d]
    by (cases v; simp add: stats_record_def stats_ok_def events_seen_def)+
qed

lemma run_stats_ok:
  "stats_ok s \<Longrightarrow> events_seen s + length evs \<le> U64_MAX \<Longrightarrow>
     stats_ok (run_stats m evs s) \<and> events_seen (run_stats m evs s) = events_seen s + length evs"
proof (induction evs arbitrary: s)
  case (Cons ev evs)
  obtain v d where ev: "ev = (v, d)" by (cases ev)
  have lt: "events_seen s < U64_MAX" using Cons.prems(2) by simp
  note r = stats_record_ok [OF Cons.prems(1) lt, of m v d]
  then show ?case using Cons.IH [OF r(1)] Cons.prems(2) by (simp add: run_stats_def ev)
qed (simp add: run_stats_def)

lemma stats_default_ok: "stats_ok stats_default" "events_seen stats_default = 0"
  by (simp_all add: stats_ok_def table_ok_def stats_default_def events_seen_def)

end
