(* ===== verification/Block_Account.thy ===== *)
theory Block_Account
  imports Block_Filter_Laws Websec_Url_Laws
begin

text \<open>
  What parsing a list makes of each of its lines.  The text that is read is cut at a line
  boundary, each line falls into one class on its own, and the accepted rules are those of the
  network lines in order, up to the cap.
\<close>

section \<open>Lines on their own\<close>

definition raw_class :: "bytes \<Rightarrow> line_class option" where
  "raw_class raw = (if length raw > MAX_LINE_BYTES then None else Some (classify (trim raw)))"

definition raw_rule :: "nat \<times> bytes \<Rightarrow> rule option" where
  "raw_rule = (\<lambda>(i, raw).
     if raw_class raw = Some Network
     then (case parse_network_filter (trim raw) (min (i + 1) (2 ^ 32 - 1)) of Inr r \<Rightarrow> Some r | Inl _ \<Rightarrow> None)
     else None)"

definition lines_in :: "(line_class \<Rightarrow> bool) \<Rightarrow> bytes list \<Rightarrow> nat" where
  "lines_in P raws = length (filter (\<lambda>raw. case raw_class raw of Some c \<Rightarrow> P c | None \<Rightarrow> False) raws)"

definition is_cosmetic :: "line_class \<Rightarrow> bool" where
  "is_cosmetic c = (case c of Cosmetic _ \<Rightarrow> True | _ \<Rightarrow> False)"

text \<open>How the counters of a list follow from the lines read into it.\<close>

definition counts_lines :: "parsed_list \<Rightarrow> bytes list \<Rightarrow> parsed_list \<Rightarrow> bool" where
  "counts_lines l raws l' \<longleftrightarrow>
     (let s = pl_stats l; s' = pl_stats l'
      in st_lines s' = st_lines s + length raws
         \<and> st_blank s' = st_blank s + lines_in ((=) Blank) raws
         \<and> st_comments s' = st_comments s + lines_in ((=) Comment) raws
         \<and> st_headers s' = st_headers s + lines_in ((=) Header) raws
         \<and> st_cosmetic_skipped s' = st_cosmetic_skipped s + lines_in is_cosmetic raws
         \<and> st_scriptlet_skipped s' = st_scriptlet_skipped s + lines_in ((=) (Cosmetic True)) raws
         \<and> (st_truncated s \<longrightarrow> st_truncated s'))"

lemma lines_in_simps [simp]:
  "lines_in P [] = 0"
  "lines_in P (raw # raws) = (case raw_class raw of Some c \<Rightarrow> if P c then 1 else 0 | None \<Rightarrow> 0) + lines_in P raws"
  by (simp_all add: lines_in_def split: option.split)

lemma network_line_counts:
  "st_lines (pl_stats (network_line line n l)) = st_lines (pl_stats l)"
  "st_blank (pl_stats (network_line line n l)) = st_blank (pl_stats l)"
  "st_comments (pl_stats (network_line line n l)) = st_comments (pl_stats l)"
  "st_headers (pl_stats (network_line line n l)) = st_headers (pl_stats l)"
  "st_cosmetic_skipped (pl_stats (network_line line n l)) = st_cosmetic_skipped (pl_stats l)"
  "st_scriptlet_skipped (pl_stats (network_line line n l)) = st_scriptlet_skipped (pl_stats l)"
  "st_truncated (pl_stats l) \<Longrightarrow> st_truncated (pl_stats (network_line line n l))"
  by (auto simp: network_line_def Let_def reject_def split: sum.split)

lemma parse_line_counts: "counts_lines l [raw] (parse_line idx raw l)"
proof (cases "length raw > MAX_LINE_BYTES")
  case True
  then show ?thesis by (simp add: counts_lines_def parse_line_def Let_def raw_class_def reject_def)
next
  case False
  then have c: "raw_class raw = Some (classify (trim raw))" by (simp add: raw_class_def)
  show ?thesis
    using False by (cases "classify (trim raw)")
      (simp_all add: counts_lines_def parse_line_def Let_def c is_cosmetic_def network_line_counts)
qed

lemma counts_lines_trans: "counts_lines l [raw] l1 \<Longrightarrow> counts_lines l1 raws l2 \<Longrightarrow> counts_lines l (raw # raws) l2"
  by (simp add: counts_lines_def Let_def)

lemma parse_lines_counts: "counts_lines l raws (parse_lines idx raws l)"
proof (induction raws arbitrary: idx l)
  case (Cons raw raws)
  show ?case using counts_lines_trans [OF parse_line_counts Cons.IH] by simp
qed (simp add: counts_lines_def)

lemma network_line_rules:
  assumes "length (pl_rules l) \<le> MAX_RULES_PER_LIST"
  shows "pl_rules (network_line line n l)
    = take MAX_RULES_PER_LIST (pl_rules l @ (case parse_network_filter line n of Inr r \<Rightarrow> [r] | Inl _ \<Rightarrow> []))"
  using assms by (cases "parse_network_filter line n") (simp_all add: network_line_def Let_def)

lemma parse_line_rules:
  assumes "length (pl_rules l) \<le> MAX_RULES_PER_LIST"
  shows "pl_rules (parse_line idx raw l) = take MAX_RULES_PER_LIST (pl_rules l @ (case raw_rule (idx, raw) of Some r \<Rightarrow> [r] | None \<Rightarrow> []))"
proof (cases "length raw > MAX_LINE_BYTES")
  case True
  then show ?thesis using assms by (simp add: parse_line_def Let_def raw_rule_def raw_class_def)
next
  case False
  then have c: "raw_class raw = Some (classify (trim raw))" by (simp add: raw_class_def)
  show ?thesis
  proof (cases "classify (trim raw) = Network")
    case True
    then show ?thesis
      using assms False c by (simp add: parse_line_def Let_def raw_rule_def network_line_rules split: sum.split)
  next
    case other: False
    then show ?thesis
      using assms False c by (cases "classify (trim raw)") (simp_all add: parse_line_def Let_def raw_rule_def)
  qed
qed

lemma take_take_append: "take n (take n xs @ ys) = take n (xs @ ys)"
  by (simp add: min_def)

lemma parse_lines_rules:
  "length (pl_rules l) \<le> MAX_RULES_PER_LIST \<Longrightarrow>
     pl_rules (parse_lines idx raws l) = take MAX_RULES_PER_LIST (pl_rules l @ List.map_filter raw_rule (enumerate idx raws))"
proof (induction raws arbitrary: idx l)
  case (Cons raw raws)
  have step: "pl_rules (parse_line idx raw l)
      = take MAX_RULES_PER_LIST (pl_rules l @ (case raw_rule (idx, raw) of Some r \<Rightarrow> [r] | None \<Rightarrow> []))"
    by (rule parse_line_rules [OF Cons.prems])
  then have "length (pl_rules (parse_line idx raw l)) \<le> MAX_RULES_PER_LIST" by simp
  note IH = Cons.IH [OF this, of "idx + 1"]
  have e: "List.map_filter raw_rule (enumerate idx (raw # raws))
      = (case raw_rule (idx, raw) of Some r \<Rightarrow> [r] | None \<Rightarrow> []) @ List.map_filter raw_rule (enumerate (idx + 1) raws)"
    by (simp add: map_filter_simps split: option.split)
  show ?case unfolding parse_lines.simps IH e unfolding step take_take_append by (simp only: append.assoc)
qed (simp add: map_filter_simps)

section \<open>The text that is read\<close>

definition decoded_list :: "bytes \<Rightarrow> bytes" where
  "decoded_list input =
     (let s = utf8_lossy (take MAX_LIST_BYTES input)
      in case strip_prefix [0xEF, 0xBB, 0xBF] s of Some r \<Rightarrow> r | None \<Rightarrow> s)"

text \<open>All of a text within the cap; of a longer one the most whole lines that fit.\<close>

definition whole_lines :: "bytes \<Rightarrow> bytes \<Rightarrow> bool" where
  "whole_lines s t \<longleftrightarrow>
     (if length s \<le> MAX_LIST_BYTES then t = s
      else prefix t s \<and> length t \<le> MAX_LIST_BYTES \<and> (t = [] \<or> ends_with 0x0A t)
        \<and> (\<forall>u. prefix u s \<longrightarrow> length u \<le> char_cut s MAX_LIST_BYTES \<longrightarrow> ends_with 0x0A u \<longrightarrow> length u \<le> length t))"

lemma char_cut_le: "char_cut s n \<le> n"
  by (induction n) auto

lemma whole_lines_cut: "whole_lines s (fst (cut_list s))"
proof (cases "length s \<le> MAX_LIST_BYTES")
  case False
  let ?c = "char_cut s MAX_LIST_BYTES"
  define h where "h = take ?c s"
  have c: "?c \<le> MAX_LIST_BYTES" by (rule char_cut_le)
  have h: "prefix h s" "length h \<le> MAX_LIST_BYTES" using c by (auto simp: h_def take_is_prefix)
  have u: "prefix u h" if "prefix u s" "length u \<le> ?c" for u
    using that by (metis h_def prefix_def append_eq_conv_conj take_take min_absorb1 take_is_prefix)
  show ?thesis
  proof (cases "rfind_byte 0x0A h")
    case None
    then have n: "0x0A \<notin> set h" by (simp add: rfind_byte_None)
    have "\<not> ends_with 0x0A v" if "prefix v h" for v
      using that n by (cases v rule: rev_cases) (auto simp: prefix_def)
    then have "\<forall>v. prefix v s \<longrightarrow> length v \<le> ?c \<longrightarrow> ends_with 0x0A v \<longrightarrow> length v \<le> length ([] :: bytes)" using u by blast
    then show ?thesis using None False by (simp add: whole_lines_def cut_list_def Let_def h_def [symmetric])
  next
    case (Some i)
    then obtain l r where lr: "h = l @ 0x0A # r" "0x0A \<notin> set r" "i = length l" by (auto simp: rfind_byte_Some)
    let ?t = "l @ [0x0A]"
    have t: "fst (cut_list s) = ?t" using Some False lr by (simp add: cut_list_def Let_def h_def [symmetric])
    have "length v \<le> length ?t" if v: "prefix v h" "ends_with 0x0A v" for v
    proof (rule ccontr)
      assume long: "\<not> length v \<le> length ?t"
      then have "prefix ?t v" using v(1) lr(1) by (metis prefix_length_prefix nle_le prefix_def append.assoc append_Cons append_Nil)
      then obtain x where x: "v = ?t @ x" by (auto simp: prefix_def)
      then have "prefix x r" using v(1) lr(1) by (simp add: prefix_def)
      moreover have "x \<noteq> []" using x long by auto
      moreover from this have "ends_with 0x0A x" using v(2) x by (cases x rule: rev_cases) (simp_all add: ends_with_def)
      ultimately show False using lr(2) by (cases x rule: rev_cases) (auto simp: prefix_def)
    qed
    moreover have "prefix ?t s" using h(1) lr(1) by (metis append.assoc append_Cons append_Nil prefix_def prefix_order.trans)
    moreover have "length ?t \<le> MAX_LIST_BYTES" using h(2) lr(1) by simp
    ultimately show ?thesis unfolding whole_lines_def t using False u by auto
  qed
qed (simp add: whole_lines_def cut_list_def)

section \<open>The whole list\<close>

lemma parse_list_bytes_exact:
  obtains txt_read where "whole_lines (decoded_list input) txt_read"
    "counts_lines \<lparr>pl_rules = [], pl_stats = stats_new\<rparr> (str_split 0x0A txt_read) (parse_list_bytes input)"
    "pl_rules (parse_list_bytes input) = take MAX_RULES_PER_LIST (List.map_filter raw_rule (enumerate 0 (str_split 0x0A txt_read)))"
    "st_truncated (pl_stats (parse_list_bytes input)) \<or> length input \<le> MAX_LIST_BYTES"
proof -
  define txt_read where "txt_read = fst (cut_list (decoded_list input))"
  let ?raws = "str_split 0x0A txt_read"
  obtain cut where cut: "cut_list (decoded_list input) = (txt_read, cut)" by (metis txt_read_def prod.collapse)
  let ?l = "\<lparr>pl_rules = [], pl_stats = stats_new\<lparr>st_truncated := cut\<rparr>\<rparr>"
  have p: "parse_list (utf8_lossy (take MAX_LIST_BYTES input)) = parse_lines 0 ?raws ?l"
    using cut by (simp add: parse_list_def decoded_list_def Let_def)
  have c: "counts_lines ?l ?raws (parse_lines 0 ?raws ?l)" by (rule parse_lines_counts)
  show thesis
  proof (rule that)
    show "whole_lines (decoded_list input) txt_read" unfolding txt_read_def by (rule whole_lines_cut)
    show "counts_lines \<lparr>pl_rules = [], pl_stats = stats_new\<rparr> ?raws (parse_list_bytes input)"
      using c by (simp add: counts_lines_def parse_list_bytes_def p Let_def stats_new_def)
    show "pl_rules (parse_list_bytes input) = take MAX_RULES_PER_LIST (List.map_filter raw_rule (enumerate 0 ?raws))"
      using parse_lines_rules [of ?l 0 ?raws] by (simp add: parse_list_bytes_def p Let_def)
    show "st_truncated (pl_stats (parse_list_bytes input)) \<or> length input \<le> MAX_LIST_BYTES"
      by (simp add: parse_list_bytes_def Let_def not_less [symmetric])
  qed
qed

end
