(* ===== verification/Block_Properties.thy ===== *)
theory Block_Properties
  imports Block_Stats Block_Account
begin

text \<open>
  The properties of the content blocker: what a pattern matches, that the index changes no
  decision, what parsing a list guarantees, and that CNAME checks and statistics behave as
  their contracts say.
\<close>

section \<open>Patterns\<close>

text \<open>
  C36: the left-to-right scan over a normalised pattern, which never goes back to an earlier
  wildcard, matches exactly when some placement of all wildcards of the original elements
  does, for every anchor and every host range inside the address.
\<close>

theorem scan_decides_pattern:
  assumes "host_range tx hst"
  shows "pattern_matches (pattern_new es start fin) tx hst \<longleftrightarrow> glob_matches es start fin tx hst"
  using scan_decides [OF assms] pattern_new_meaning by simp

theorem scan_decides_pattern_witness:
  "host_range (lit ''s://x.ad.b/'') (Some (4, 10))
   \<and> (pattern_matches (pattern_new [Lit 0x61, Lit 0x64, Star, Sep] AtHost True) (lit ''s://x.ad.b/'') (Some (4, 10))
      \<longleftrightarrow> glob_matches [Lit 0x61, Lit 0x64, Star, Sep] AtHost True (lit ''s://x.ad.b/'') (Some (4, 10)))"
proof -
  have "host_range (lit ''s://x.ad.b/'') (Some (4, 10))" by (simp add: host_range_def lit_def)
  then show ?thesis using scan_decides_pattern by blast
qed

section \<open>The index\<close>

text \<open>
  C37: what the matcher decides from the buckets of the request's own tokens is what all
  rules in order give: the first important block, else the first exception, else the first
  block.  No rule is missed because it was filed under a token, whatever lists were added;
  navigations and other schemes are always allowed.
\<close>

theorem index_misses_no_rule:
  "check_request (matcher_build b) q =
     (case target_from_url (q_url q) of
        None \<Rightarrow> Allow
      | Some t \<Rightarrow>
          if q_type q = TDocument then Allow
          else verdict_spec (matcher_build b) t (source_host (q_source q)) (q_type q) (q_third_party q))"
proof (cases "target_from_url (q_url q)")
  case (Some t)
  then obtain h where h: "target_build (q_url q) h = Some t" using target_from_url_build by blast
  show ?thesis
  proof (cases "q_type q = TDocument")
    case True
    then show ?thesis using Some by (simp add: check_request_def check_target_def)
  next
    case False
    then show ?thesis using Some check_target_spec [OF matcher_build_indexed h False] by (simp add: check_request_def)
  qed
qed (simp add: check_request_def)

section \<open>Filter lists\<close>

text \<open>
  C38: what a list parses to is fixed by its lines.  Of an input up to 16 MiB every line is
  read; of a longer one the first 16 MiB, and the list is marked truncated (a decoded text that
  is still longer is cut after its last whole line).  Each line read is counted once, in the
  class it has on its own; the accepted rules are the rules of the network lines in order, up to
  the cap; every other line counts as rejected; and every accepted rule is well-formed: not both
  important and an exception, a non-empty set of subresource types, a pattern within its cap and
  sorted, valid domains.
\<close>

theorem filter_list_accounted:
  "\<exists>kept. whole_lines (decoded_list input) kept
     \<and> (let l = parse_list_bytes input; s = pl_stats l; lines = str_split 0x0A kept
        in pl_rules l = take MAX_RULES_PER_LIST (List.map_filter raw_rule (enumerate 0 lines))
           \<and> st_lines s = length lines \<and> st_blank s = lines_in ((=) Blank) lines
           \<and> st_comments s = lines_in ((=) Comment) lines \<and> st_headers s = lines_in ((=) Header) lines
           \<and> st_cosmetic_skipped s = lines_in is_cosmetic lines
           \<and> st_scriptlet_skipped s = lines_in ((=) (Cosmetic True)) lines
           \<and> st_lines s = st_blank s + st_comments s + st_headers s + st_cosmetic_skipped s + st_accepted s + rejected_total s
           \<and> st_accepted s = length (pl_rules l) \<and> st_exceptions s = length (filter r_exception (pl_rules l))
           \<and> (st_truncated s \<or> length input \<le> MAX_LIST_BYTES)
           \<and> list_all rule_ok (pl_rules l))"
proof -
  obtain kept where kept: "whole_lines (decoded_list input) kept"
    "counts_lines \<lparr>pl_rules = [], pl_stats = stats_new\<rparr> (str_split 0x0A kept) (parse_list_bytes input)"
    "pl_rules (parse_list_bytes input) = take MAX_RULES_PER_LIST (List.map_filter raw_rule (enumerate 0 (str_split 0x0A kept)))"
    "st_truncated (pl_stats (parse_list_bytes input)) \<or> length input \<le> MAX_LIST_BYTES"
    by (rule parse_list_bytes_exact)
  have ok: "list_ok (parse_list_bytes input)" by (rule parse_list_bytes_ok)
  show ?thesis
    unfolding Let_def
  proof (intro exI conjI)
    show "whole_lines (decoded_list input) kept" by (rule kept(1))
    show "pl_rules (parse_list_bytes input) = take MAX_RULES_PER_LIST (List.map_filter raw_rule (enumerate 0 (str_split 0x0A kept)))"
      by (rule kept(3))
    show "st_truncated (pl_stats (parse_list_bytes input)) \<or> length input \<le> MAX_LIST_BYTES" by (rule kept(4))
  qed (use kept(2) ok in \<open>simp_all add: counts_lines_def Let_def stats_new_def list_ok_def counted_def list_all_iff\<close>)
qed

text \<open>Cutting an oversized list in the middle of a line.\<close>

lemma str_split_newlines: "0x0A \<notin> set s \<Longrightarrow> str_split 0x0A (replicate n 0x0A @ s) = replicate n [] @ [s]"
  by (induction n) (simp_all add: str_split_plain)

lemma parse_lines_append: "parse_lines i (xs @ ys) l = parse_lines (i + length xs) ys (parse_lines i xs l)"
  by (induction i xs l rule: parse_lines.induct) simp_all

lemma trim_empty [simp]: "trim [] = []"
  by (rule trim_trimmed) (auto simp: trimmed_def first_strip_None)

lemma parse_lines_blank: "pl_rules (parse_lines i (replicate n []) l) = pl_rules l"
  by (induction n arbitrary: i l) (simp_all add: parse_line_def Let_def classify_def)

lemma cut_line_parsed:
  assumes "length full > MAX_LIST_BYTES" "take MAX_LIST_BYTES full = replicate (Suc n) 0x0A @ kept" "is_ascii kept"
    "0x0A \<notin> set kept" "length kept \<le> MAX_LINE_BYTES" "classify (trim kept) = Network"
    "\<And>k. parse_network_filter (trim kept) k = Inr (r k)"
  shows "\<exists>k. pl_rules (parse_list_bytes full) = [r k]"
proof -
  let ?s = "replicate (Suc n) 0x0A @ kept"
  have len: "length ?s = MAX_LIST_BYTES" using assms(1) unfolding assms(2) [symmetric] by simp
  have "is_ascii ?s" using assms(3) by (auto simp: is_ascii_def)
  then have lossy: "utf8_lossy ?s = ?s" by (rule utf8_lossy_ascii)
  have bom: "strip_prefix [0xEF, 0xBB, 0xBF] ?s = None" by simp
  have cut: "cut_list ?s = (?s, False)" using len by (simp add: cut_list_def del: replicate.simps append.simps)
  let ?l = "\<lparr>pl_rules = [], pl_stats = stats_new\<lparr>st_truncated := False\<rparr>\<rparr>"
  define l1 where "l1 = parse_lines 0 (replicate (Suc n) []) ?l"
  have l1: "pl_rules l1 = []" unfolding l1_def by (simp only: parse_lines_blank parsed_list.simps)
  have "pl_rules (parse_list_bytes full) = pl_rules (parse_lines 0 (replicate (Suc n) [] @ [kept]) ?l)"
    unfolding parse_list_bytes_def assms(2) lossy parse_list_def bom option.case cut Let_def prod.case
      str_split_newlines [OF assms(4)] by simp
  also have "\<dots> = pl_rules (parse_line (Suc n) kept l1)"
    unfolding parse_lines_append l1_def by (simp only: parse_lines.simps length_replicate add_0)
  also have "\<dots> = [r (min (Suc n + 1) (2 ^ 32 - 1))]"
    using l1 assms(5-7) by (simp add: parse_line_def Let_def network_line_def MAX_RULES_PER_LIST_def)
  finally show ?thesis by blast
qed

lemma parse_network_filter_line:
  "parse_network_filter line k = map_sum id (\<lambda>r. r\<lparr>r_line := k\<rparr>) (parse_network_filter line 0)"
proof -
  have "finish_rule ex o' ptx line k = map_sum id (\<lambda>r. r\<lparr>r_line := k\<rparr>) (finish_rule ex o' ptx line 0)" for ex o' ptx
    by (simp add: finish_rule_def Let_def split: sum.split pattern_error.split)
  then show ?thesis by (simp add: parse_network_filter_def Let_def split: sum.split prod.split)
qed

definition sample_kept :: bytes where "sample_kept = lit ''||ads.example^''"
definition sample_filter :: bytes where "sample_filter = sample_kept @ lit ''$third-party''"

definition third_party_of :: "reject_reason + rule \<Rightarrow> bool option option" where
  "third_party_of x = (case x of Inl _ \<Rightarrow> None | Inr r \<Rightarrow> Some (r_third_party r))"

text \<open>
  a list over the size cap is cut at the cap and not at the end of a line, and what is
  left of the last line is accepted as a rule: the filter for third-party requests only
  becomes a filter for all requests.
\<close>

lemma cut_filter_loses_its_option:
  "map r_third_party (pl_rules (parse_list_bytes (replicate (MAX_LIST_BYTES - length sample_kept) 0x0A @ sample_filter))) = [None]
   \<and> third_party_of (parse_network_filter sample_filter 1) = Some (Some True)"
proof
  let ?full = "replicate (MAX_LIST_BYTES - length sample_kept) 0x0A @ sample_filter"
  have len: "length sample_kept = 14" by (simp add: sample_kept_def lit_def)
  then have n: "MAX_LIST_BYTES - length sample_kept = Suc (16 * 1024 * 1024 - 15)" by (simp add: MAX_LIST_BYTES_def)
  have "third_party_of (parse_network_filter sample_kept 0) = Some None" by code_simp
  then obtain r0 where r0: "parse_network_filter sample_kept 0 = Inr r0" "r_third_party r0 = None"
    by (auto simp: third_party_of_def split: sum.splits)
  have t: "trim sample_kept = sample_kept" by code_simp
  have "\<exists>k. pl_rules (parse_list_bytes ?full) = [r0\<lparr>r_line := k\<rparr>]"
  proof (rule cut_line_parsed)
    show "length ?full > MAX_LIST_BYTES" by (simp add: sample_filter_def len MAX_LIST_BYTES_def lit_def)
    show "take MAX_LIST_BYTES ?full = replicate (Suc (16 * 1024 * 1024 - 15)) 0x0A @ sample_kept"
      unfolding n [symmetric] by (simp add: sample_filter_def len MAX_LIST_BYTES_def)
    show "is_ascii sample_kept" "0x0A \<notin> set sample_kept" by (simp_all add: sample_kept_def lit_def is_ascii_def)
    show "length sample_kept \<le> MAX_LINE_BYTES" by (simp add: len MAX_LINE_BYTES_def)
    show "classify (trim sample_kept) = Network" unfolding t by code_simp
    show "parse_network_filter (trim sample_kept) k = Inr (r0\<lparr>r_line := k\<rparr>)" for k
      unfolding t using parse_network_filter_line [of sample_kept k] r0(1) by simp
  qed
  then show "map r_third_party (pl_rules (parse_list_bytes ?full)) = [None]" using r0(2) by auto
  show "third_party_of (parse_network_filter sample_filter 1) = Some (Some True)" by code_simp
qed

section \<open>CNAME chains\<close>

text \<open>
  C39: the request must not be sent exactly when the chain is too long, some name in it is
  not a hostname, or the same request, sent to some name in it other than its own host, would be
  blocked as a request of its own: with that name as its host and third-party exactly when the
  page's site is not that name's.  An exception for one name excuses no other, and the request's
  own host, which the request itself has already been checked for, is not judged again.
\<close>

theorem cname_check_fails_closed:
  "should_block (check_cname_chain m q chain resolver) \<longleftrightarrow> length chain > MAX_CNAME_CHAIN
     \<or> (\<exists>raw \<in> set chain. normalise_host raw = None
          \<or> (\<exists>h i. normalise_host raw = Some h \<and> map_option host_serialize (u_host (q_url q)) \<noteq> Some h
               \<and> check_request m (sent_to q resolver h) = BlockedBy i))"
proof -
  have "(case normalise_host raw of None \<Rightarrow> True | Some h \<Rightarrow> blocks (hop_verdict m q resolver h)) \<longleftrightarrow>
      normalise_host raw = None
      \<or> (\<exists>h i. normalise_host raw = Some h \<and> map_option host_serialize (u_host (q_url q)) \<noteq> Some h
           \<and> check_request m (sent_to q resolver h) = BlockedBy i)" for raw
    by (cases "normalise_host raw") (auto simp: hop_verdict_request blocks_def split: verdict.splits)
  then show ?thesis by (simp only: check_cname_chain_blocks)
qed

section \<open>Statistics\<close>

text \<open>
  over every sequence of recorded outcomes the tables stay within their caps, every
  block is in the rule table or the rule overflow and in the domain table or the domain
  overflow, and the three totals add up to the number of outcomes.
\<close>

lemma stats_account_for_blocks:
  assumes "length evs \<le> U64_MAX"
  shows "let s = run_stats m evs stats_default in
    length (s_per_rule s) \<le> MAX_TRACKED_RULES \<and> length (s_per_domain s) \<le> MAX_TRACKED_DOMAINS
    \<and> sum_list (map snd (s_per_rule s)) + s_rule_overflow s = s_blocked s
    \<and> sum_list (map snd (s_per_domain s)) + s_domain_overflow s = s_blocked s
    \<and> s_blocked s + s_excepted s + s_allowed s = length evs"
proof -
  have sum: "table_sum t = sum_list (map snd t)" for t :: "('k, nat) btree" by (simp add: bt_weight_def case_prod_unfold)
  have "stats_ok (run_stats m evs stats_default) \<and> events_seen (run_stats m evs stats_default) = length evs"
    using run_stats_ok [OF stats_default_ok(1), of evs m] assms stats_default_ok(2) by simp
  then show ?thesis by (simp add: Let_def stats_ok_def table_ok_def events_seen_def sum)
qed

end
