(* ===== verification/Websec_Mixed.thy ===== *)
theory Websec_Mixed
  imports Websec_Origin
begin

text \<open>
  Mixed content and potentially trustworthy URLs, \<^verbatim>\<open>crates/px-websec/src/mixed.rs\<close>.
  Deriving an origin may draw a number for an opaque one, so the checks that derive origins
  pass the counter along.
\<close>

definition host_is_loopback :: "host \<Rightarrow> bool" where
  "host_is_loopback h =
     (case h of
        Ipv4 a _ _ _ \<Rightarrow> a = 127
      | Ipv6 p \<Rightarrow> p = [0, 0, 0, 0, 0, 0, 0, 1]
      | Domain d \<Rightarrow> (let d = trim_end_matches DOT d in d = lit ''localhost'' \<or> strip_suffix (lit ''.localhost'') d \<noteq> None)
      | OpaqueHost _ \<Rightarrow> False
      | EmptyHost \<Rightarrow> False)"

definition is_origin_potentially_trustworthy :: "web_origin \<Rightarrow> bool" where
  "is_origin_potentially_trustworthy o' =
     (case o' of
        OpaqueOrigin _ \<Rightarrow> False
      | TupleOrigin s h _ \<Rightarrow> s = lit ''https'' \<or> s = lit ''wss'' \<or> host_is_loopback h)"

definition is_url_potentially_trustworthy :: "url \<Rightarrow> nat \<Rightarrow> bool \<times> nat" where
  "is_url_potentially_trustworthy u n =
     (if u_scheme u = lit ''about'' then (u_path u = lit ''blank'' \<or> u_path u = lit ''srcdoc'', n)
      else if u_scheme u = lit ''data'' \<or> u_scheme u = lit ''file'' then (True, n)
      else (case origin_from_url u n of (o', n') \<Rightarrow> (is_origin_potentially_trustworthy o', n')))"

record context_node =
  cn_url :: url
  cn_origin :: web_origin

definition node_is_trustworthy :: "context_node \<Rightarrow> bool" where
  "node_is_trustworthy c \<longleftrightarrow>
     is_origin_potentially_trustworthy (cn_origin c) \<or> is_opaque (cn_origin c) \<and> u_scheme (cn_url c) = lit ''file''"

datatype request_kind =
  KImage | KAudio | KVideo | KTrack | KScript | KStyle | KFont | KFetch | KSubframe | KObject | KWorker
| KServiceWorker | KWebSocket | KManifest | KPrefetch | KImageSet | KBeacon

datatype mixed_category = Blockable | OptionallyBlockable

definition mixed_category_of :: "request_kind \<Rightarrow> mixed_category" where
  "mixed_category_of k = (case k of KImage \<Rightarrow> OptionallyBlockable | KAudio \<Rightarrow> OptionallyBlockable | KVideo \<Rightarrow> OptionallyBlockable | _ \<Rightarrow> Blockable)"

record mixed_context =
  mx_document :: context_node
  mx_ancestors :: "context_node list"

definition prohibits_mixed :: "mixed_context \<Rightarrow> bool" where
  "prohibits_mixed c \<longleftrightarrow> node_is_trustworthy (mx_document c) \<or> list_ex node_is_trustworthy (mx_ancestors c)"

datatype mixed_verdict = MixedAllow | MixedUpgrade url | MixedBlock

definition mixed_check_request :: "mixed_context \<Rightarrow> request_kind \<Rightarrow> url \<Rightarrow> nat \<Rightarrow> mixed_verdict \<times> nat" where
  "mixed_check_request c k u n =
     (if \<not> prohibits_mixed c then (MixedAllow, n)
      else case is_url_potentially_trustworthy u n of
        (True, n') \<Rightarrow> (MixedAllow, n')
      | (False, n') \<Rightarrow>
          (case mixed_category_of k of
             Blockable \<Rightarrow> (MixedBlock, n')
           | OptionallyBlockable \<Rightarrow>
               (let ip_host = (case u_host u of Some (Ipv4 _ _ _ _) \<Rightarrow> True | Some (Ipv6 _) \<Rightarrow> True | _ \<Rightarrow> False)
                in (case upgraded_to_https u of
                      Some v \<Rightarrow> if ip_host then MixedBlock else MixedUpgrade v
                    | None \<Rightarrow> MixedBlock, n'))))"

definition mixed_check_response :: "mixed_context \<Rightarrow> url \<Rightarrow> nat \<Rightarrow> mixed_verdict \<times> nat" where
  "mixed_check_response c u n =
     (if \<not> prohibits_mixed c then (MixedAllow, n)
      else case is_url_potentially_trustworthy u n of
        (True, n') \<Rightarrow> (MixedAllow, n')
      | (False, n') \<Rightarrow> (MixedBlock, n'))"

section \<open>Upgrading\<close>

lemma upgraded_url_ok:
  assumes "url_ok u" "upgraded_to_https u = Some v"
  shows "url_ok v"
proof -
  have s: "u_scheme u = lit ''http''" and v: "u_scheme v = lit ''https''" "u_host v = u_host u" "u_port v \<noteq> Some 443"
      "u_username v = u_username u" "u_password v = u_password u" "u_path v = u_path u" "u_query v = u_query u"
      "u_fragment v = u_fragment u" "u_port u = None \<Longrightarrow> u_port v = None"
    using assms(2) by (auto simp: upgraded_to_https_def split: if_splits)
  have sp: "is_special_scheme (lit ''http'')" "is_special_scheme (lit ''https'')" by (simp_all add: is_special_scheme_def)
  have ne: "lit ''http'' \<noteq> lit ''file''" "lit ''https'' \<noteq> lit ''file''" by (simp_all add: lit_def)
  have "scheme_ok (lit ''https'')" by code_simp
  moreover have "web_default_port (lit ''https'') = Some 443" by (simp add: web_default_port_def lit_def)
  moreover have "host_kind_ok (u_scheme v) (u_host v)"
    using assms(1) s v sp ne by (auto simp: url_ok_def host_kind_ok_def split: option.splits host.splits)
  moreover have "userinfo_ok v" "path_ok v"
    using assms(1) s v sp ne by (simp_all add: url_ok_def userinfo_ok_def path_ok_def is_special_def has_credentials_def)
  ultimately show ?thesis using assms(1) v by (auto simp: url_ok_def)
qed

lemma https_trustworthy:
  assumes "url_ok v" "u_scheme v = lit ''https''"
  shows "is_url_potentially_trustworthy v n = (True, n)"
proof -
  have "is_special v" "u_scheme v \<noteq> lit ''file''" using assms(2) by (simp_all add: is_special_def is_special_scheme_def lit_def)
  then obtain h where "origin_from_url v n = (TupleOrigin (u_scheme v) h (u_port v), n)"
    using origin_from_url_net [OF assms(1)] by blast
  moreover have "lit ''https'' \<noteq> lit ''about''" "lit ''https'' \<noteq> lit ''data''" "lit ''https'' \<noteq> lit ''file''" by (simp_all add: lit_def)
  ultimately show ?thesis using assms(2) by (simp add: is_url_potentially_trustworthy_def is_origin_potentially_trustworthy_def)
qed

lemma upgraded_scheme: "upgraded_to_https u = Some v \<Longrightarrow> u_scheme v = lit ''https''"
  by (auto simp: upgraded_to_https_def split: if_splits)

text \<open>What a request from a context that prohibits mixed content may load.\<close>

lemma mixed_request_cases:
  assumes "prohibits_mixed c" "mixed_check_request c k u n = (r, n')"
  obtains (allow) "r = MixedAllow" "is_url_potentially_trustworthy u n = (True, n')"
  | (upgrade) v where "r = MixedUpgrade v" "upgraded_to_https u = Some v" "mixed_category_of k = OptionallyBlockable"
      "\<not> (\<exists>a b c d. u_host u = Some (Ipv4 a b c d))" "\<not> (\<exists>p. u_host u = Some (Ipv6 p))"
      "is_url_potentially_trustworthy u n = (False, n')"
  | (block) "r = MixedBlock" "is_url_potentially_trustworthy u n = (False, n')"
  using assms
  by (auto simp: mixed_check_request_def Let_def split: prod.splits bool.splits mixed_category.splits option.splits host.splits)

end
