(* ===== verification/Websec_Referrer.thy ===== *)
theory Websec_Referrer
  imports Websec_Mixed
begin

text \<open>
  Referrer policies, \<^verbatim>\<open>crates/px-websec/src/referrer.rs\<close>: the tokens, the three places a
  policy is read from, and the referrer a request carries.
\<close>

definition MAX_REFERRER_BYTES :: nat where "MAX_REFERRER_BYTES = 4096"
definition MAX_POLICY_INPUT :: nat where "MAX_POLICY_INPUT = 4096"

datatype referrer_policy =
  NoReferrer | NoReferrerWhenDowngrade | SameOriginOnly | OriginOnly | StrictOrigin
| OriginWhenCrossOrigin | StrictOriginWhenCrossOrigin | UnsafeUrl

definition DEFAULT_POLICY :: referrer_policy where "DEFAULT_POLICY = StrictOriginWhenCrossOrigin"

definition policy_as_str :: "referrer_policy \<Rightarrow> bytes" where
  "policy_as_str p = lit
     (case p of
        NoReferrer \<Rightarrow> ''no-referrer''
      | NoReferrerWhenDowngrade \<Rightarrow> ''no-referrer-when-downgrade''
      | SameOriginOnly \<Rightarrow> ''same-origin''
      | OriginOnly \<Rightarrow> ''origin''
      | StrictOrigin \<Rightarrow> ''strict-origin''
      | OriginWhenCrossOrigin \<Rightarrow> ''origin-when-cross-origin''
      | StrictOriginWhenCrossOrigin \<Rightarrow> ''strict-origin-when-cross-origin''
      | UnsafeUrl \<Rightarrow> ''unsafe-url'')"

definition eq_ignore_case :: "bytes \<Rightarrow> bytes \<Rightarrow> bool" where
  "eq_ignore_case a b \<longleftrightarrow> to_ascii_lowercase a = to_ascii_lowercase b"

definition policy_from_token :: "bytes \<Rightarrow> referrer_policy option" where
  "policy_from_token t =
     find (\<lambda>p. eq_ignore_case t (policy_as_str p))
       [NoReferrer, NoReferrerWhenDowngrade, SameOriginOnly, OriginOnly, StrictOrigin,
        OriginWhenCrossOrigin, StrictOriginWhenCrossOrigin, UnsafeUrl]"

text \<open>\<^verbatim>\<open>str::trim_matches\<close> for a set of ASCII characters.\<close>

definition trim_where :: "(u8 \<Rightarrow> bool) \<Rightarrow> bytes \<Rightarrow> bytes" where
  "trim_where p s = rev (dropWhile p (rev (dropWhile p s)))"

definition policy_ws :: "u8 \<Rightarrow> bool" where
  "policy_ws c \<longleftrightarrow> c \<in> {0x20, 0x09, 0x0A, 0x0D, 0x0C}"

definition policy_parse_header :: "bytes \<Rightarrow> referrer_policy option" where
  "policy_parse_header value =
     (if length value > MAX_POLICY_INPUT then None
      else let known = List.map_filter (\<lambda>t. policy_from_token (trim_where policy_ws t)) (str_split 0x2C value)
           in if known = [] then None else Some (last known))"

definition policy_parse_attribute :: "bytes \<Rightarrow> referrer_policy option" where
  "policy_parse_attribute value =
     (if length value > MAX_POLICY_INPUT then None else policy_from_token (trim_where policy_ws value))"

definition policy_parse_meta_content :: "bytes \<Rightarrow> referrer_policy option" where
  "policy_parse_meta_content value =
     (if length value > MAX_POLICY_INPUT then None
      else let t = trim_where policy_ws value
           in case find (\<lambda>(k, _). eq_ignore_case t k)
                     [(lit ''never'', NoReferrer), (lit ''always'', UnsafeUrl), (lit ''origin-when-crossorigin'', OriginWhenCrossOrigin)] of
                Some (_, p) \<Rightarrow> Some p
              | None \<Rightarrow> policy_from_token t)"

definition effective_policy :: "referrer_policy option \<Rightarrow> referrer_policy option \<Rightarrow> referrer_policy" where
  "effective_policy request_policy document_policy =
     (case request_policy of
        Some p \<Rightarrow> p
      | None \<Rightarrow> (case document_policy of Some p \<Rightarrow> p | None \<Rightarrow> DEFAULT_POLICY))"

definition strip_for_referrer :: "url \<Rightarrow> bool \<Rightarrow> url option" where
  "strip_for_referrer source origin_only =
     (if u_scheme source \<notin> set [lit ''http'', lit ''https'', lit ''ws'', lit ''wss'', lit ''ftp''] then None
      else let u = strip_fragment (strip_credentials source)
           in Some (if origin_only then set_origin_only u else u))"

definition referrer_choice :: "referrer_policy \<Rightarrow> bool \<Rightarrow> bool \<Rightarrow> url \<Rightarrow> url \<Rightarrow> url option" where
  "referrer_choice policy same downgrade full origin_only =
     (case policy of
        NoReferrer \<Rightarrow> None
      | OriginOnly \<Rightarrow> Some origin_only
      | UnsafeUrl \<Rightarrow> Some full
      | StrictOrigin \<Rightarrow> if downgrade then None else Some origin_only
      | StrictOriginWhenCrossOrigin \<Rightarrow> if same then Some full else if downgrade then None else Some origin_only
      | OriginWhenCrossOrigin \<Rightarrow> if same then Some full else Some origin_only
      | SameOriginOnly \<Rightarrow> if same then Some full else None
      | NoReferrerWhenDowngrade \<Rightarrow> if downgrade then None else Some full)"

definition referrer_compute :: "url option \<Rightarrow> referrer_policy \<Rightarrow> url \<Rightarrow> nat \<Rightarrow> bytes option \<times> nat" where
  "referrer_compute source policy request n =
     (if u_scheme request \<notin> set [lit ''http'', lit ''https''] then (None, n)
      else case source of
        None \<Rightarrow> (None, n)
      | Some source \<Rightarrow>
        (case (strip_for_referrer source False, strip_for_referrer source True) of
           (Some full, Some origin_only) \<Rightarrow>
             (let full = (if length (url_serialize full True) > MAX_REFERRER_BYTES then origin_only else full);
                  (a, n) = origin_from_url full n;
                  (b, n) = origin_from_url request n;
                  (same, n) = (if a = b then (case origin_from_url full n of (c, n) \<Rightarrow> (\<not> is_opaque c, n)) else (False, n));
                  (t, n) = is_url_potentially_trustworthy full n;
                  (downgrade, n) = (if t then (case is_url_potentially_trustworthy request n of (t, n) \<Rightarrow> (\<not> t, n)) else (False, n))
              in (map_option (\<lambda>u. url_serialize u True) (referrer_choice policy same downgrade full origin_only), n))
         | _ \<Rightarrow> (None, n)))"

section \<open>Tokens\<close>

lemma policy_token_back: "policy_from_token (policy_as_str p) = Some p"
  by (cases p) (simp_all add: policy_from_token_def policy_as_str_def eq_ignore_case_def to_ascii_lowercase_def lower_byte_def lit_def)

section \<open>What is sent\<close>

definition net_url :: "url \<Rightarrow> bool" where
  "net_url u \<longleftrightarrow> url_ok u \<and> u_scheme u \<in> set [lit ''http'', lit ''https'', lit ''ws'', lit ''wss'', lit ''ftp'']"

definition same_tuple :: "url \<Rightarrow> url \<Rightarrow> bool" where
  "same_tuple u v \<longleftrightarrow> u_scheme u = u_scheme v \<and> u_host u = u_host v \<and> u_port u = u_port v"

definition trusted :: "url \<Rightarrow> bool" where
  "trusted u \<longleftrightarrow> u_scheme u \<in> set [lit ''https'', lit ''wss''] \<or> (\<exists>h. u_host u = Some h \<and> host_is_loopback h)"

definition referrer_full :: "url \<Rightarrow> bytes" where
  "referrer_full s = url_serialize (strip_fragment (strip_credentials s)) True"

definition referrer_origin :: "url \<Rightarrow> bytes" where
  "referrer_origin s = url_serialize (set_origin_only (strip_fragment (strip_credentials s))) True"

lemma net_url_origin:
  assumes "net_url u"
  obtains h where "u_host u = Some h" "\<And>n. origin_from_url u n = (TupleOrigin (u_scheme u) h (u_port u), n)"
    "\<And>n. is_url_potentially_trustworthy u n = (trusted u, n)"
proof -
  have ok: "url_ok u" and sp: "is_special u" "u_scheme u \<noteq> lit ''file''" "u_scheme u \<noteq> lit ''about''" "u_scheme u \<noteq> lit ''data''"
    using assms by (auto simp: net_url_def is_special_def is_special_scheme_def lit_def)
  obtain h where h: "u_host u = Some h" using net_host [OF ok sp(1,2)] by blast
  have o: "origin_from_url u n = (TupleOrigin (u_scheme u) h (u_port u), n)" for n
    using origin_from_url_net [OF ok sp(1,2), of n] h by auto
  have "is_url_potentially_trustworthy u n = (trusted u, n)" for n
    using sp h by (simp add: is_url_potentially_trustworthy_def is_origin_potentially_trustworthy_def o trusted_def)
  with h o that show thesis by blast
qed

lemma stripped_net:
  assumes "net_url s"
  shows "net_url (strip_fragment (strip_credentials s))" "net_url (set_origin_only (strip_fragment (strip_credentials s)))"
  using assms
  by (auto simp: net_url_def url_ok_def userinfo_ok_def path_ok_def strip_fragment_def strip_credentials_def set_origin_only_def
      is_special_def has_credentials_def NEWLINES_def begins_with_def)

lemma stripped_fields:
  "same_tuple (strip_fragment (strip_credentials s)) s" "same_tuple (set_origin_only (strip_fragment (strip_credentials s))) s"
  by (simp_all add: same_tuple_def strip_fragment_def strip_credentials_def set_origin_only_def)

lemma same_tuple_trusted: "same_tuple u v \<Longrightarrow> trusted u = trusted v"
  by (simp add: same_tuple_def trusted_def)

lemma referrer_compute_net:
  assumes s: "net_url s" and r: "url_ok r" "u_scheme r \<in> set [lit ''http'', lit ''https'']"
  shows "referrer_compute (Some s) p r n =
    (map_option (\<lambda>u. url_serialize u True)
      (referrer_choice p (same_tuple s r) (trusted s \<and> \<not> trusted r)
        (if length (referrer_full s) > MAX_REFERRER_BYTES then set_origin_only (strip_fragment (strip_credentials s))
         else strip_fragment (strip_credentials s))
        (set_origin_only (strip_fragment (strip_credentials s)))), n)"
proof -
  have rn: "net_url r" using r by (auto simp: net_url_def)
  let ?f = "strip_fragment (strip_credentials s)"
  define full where "full = (if length (referrer_full s) > MAX_REFERRER_BYTES then set_origin_only ?f else ?f)"
  have fn: "net_url full" "same_tuple full s" using stripped_net [OF s] stripped_fields by (auto simp: full_def)
  obtain h where h: "u_host full = Some h" "\<And>n. origin_from_url full n = (TupleOrigin (u_scheme full) h (u_port full), n)"
    "\<And>n. is_url_potentially_trustworthy full n = (trusted full, n)" using net_url_origin [OF fn(1)] by blast
  obtain g where g: "u_host r = Some g" "\<And>n. origin_from_url r n = (TupleOrigin (u_scheme r) g (u_port r), n)"
    "\<And>n. is_url_potentially_trustworthy r n = (trusted r, n)" using net_url_origin [OF rn] by blast
  have same: "TupleOrigin (u_scheme full) h (u_port full) = TupleOrigin (u_scheme r) g (u_port r) \<longleftrightarrow> same_tuple s r"
    using fn(2) h(1) g(1) by (auto simp: same_tuple_def)
  have strip: "strip_for_referrer s False = Some ?f" "strip_for_referrer s True = Some (set_origin_only ?f)"
    using s by (simp_all add: strip_for_referrer_def net_url_def)
  have f: "(if length (url_serialize ?f True) > MAX_REFERRER_BYTES then set_origin_only ?f else ?f) = full"
    by (simp add: full_def referrer_full_def)
  show ?thesis
    unfolding referrer_compute_def strip option.case prod.case f full_def [symmetric] Let_def h(2,3) g(2,3) same
    using r(2) same_tuple_trusted [OF fn(2)] by (simp add: is_opaque_def)
qed

text \<open>Only the sources and destinations the module names are given a referrer.\<close>

lemma referrer_compute_scope:
  assumes "referrer_compute src p r n = (Some t, n')"
  obtains s where "src = Some s" "u_scheme s \<in> set [lit ''http'', lit ''https'', lit ''ws'', lit ''wss'', lit ''ftp'']"
    "u_scheme r \<in> set [lit ''http'', lit ''https'']"
proof -
  from assms have "u_scheme r \<in> set [lit ''http'', lit ''https'']" "src \<noteq> None"
    by (auto simp: referrer_compute_def split: if_splits option.splits)
  then obtain s where s: "src = Some s" by blast
  have "u_scheme s \<in> set [lit ''http'', lit ''https'', lit ''ws'', lit ''wss'', lit ''ftp'']"
  proof (rule ccontr)
    assume "u_scheme s \<notin> set [lit ''http'', lit ''https'', lit ''ws'', lit ''wss'', lit ''ftp'']"
    then have "strip_for_referrer s b = None" for b by (simp add: strip_for_referrer_def)
    then show False using assms s by (simp add: referrer_compute_def split: if_splits)
  qed
  with s that \<open>u_scheme r \<in> _\<close> show thesis by blast
qed

definition referrer_allowed :: "referrer_policy \<Rightarrow> url \<Rightarrow> url \<Rightarrow> bytes \<Rightarrow> bool" where
  "referrer_allowed p s r t \<longleftrightarrow>
     p \<noteq> NoReferrer
     \<and> (t = referrer_origin s
        \<or> t = referrer_full s \<and> length t \<le> MAX_REFERRER_BYTES
          \<and> (same_tuple s r \<or> p = UnsafeUrl \<or> p = NoReferrerWhenDowngrade))
     \<and> (p = SameOriginOnly \<longrightarrow> same_tuple s r)
     \<and> (trusted s \<and> \<not> trusted r \<longrightarrow> p \<in> {OriginOnly, OriginWhenCrossOrigin, UnsafeUrl})"

lemma referrer_choice_allowed:
  assumes "referrer_choice p (same_tuple s r) (trusted s \<and> \<not> trusted r)
     (if length (referrer_full s) > MAX_REFERRER_BYTES then set_origin_only (strip_fragment (strip_credentials s))
      else strip_fragment (strip_credentials s))
     (set_origin_only (strip_fragment (strip_credentials s))) = Some u"
  shows "referrer_allowed p s r (url_serialize u True)"
  using assms same_tuple_trusted [of s r]
  by (cases p) (auto simp: referrer_choice_def referrer_allowed_def referrer_full_def referrer_origin_def split: if_splits)

end
