(* ===== verification/Block_Params.thy ===== *)
theory Block_Params
  imports Websec_Referrer
begin

text \<open>
  Stripping of tracking parameters, \<^verbatim>\<open>crates/px-block/src/params.rs\<close>.  The two ordered sets of
  a configuration are lists without repetition: only membership and size are looked at.
\<close>

definition MAX_ENTRIES :: nat where "MAX_ENTRIES = 1024"
definition MAX_ENTRY_BYTES :: nat where "MAX_ENTRY_BYTES = 128"

definition DEFAULT_EXACT :: "bytes list" where
  "DEFAULT_EXACT = map lit
     [''fbclid'', ''gclid'', ''gclsrc'', ''dclid'', ''gbraid'', ''wbraid'', ''msclkid'', ''twclid'', ''ttclid'', ''yclid'', ''igshid'',
      ''mc_eid'', ''mc_cid'', ''_hsenc'', ''_hsmi'', ''mkt_tok'', ''oly_anon_id'', ''oly_enc_id'', ''vero_id'', ''vero_conv'',
      ''wickedid'', ''srsltid'']"

definition DEFAULT_PREFIXES :: "bytes list" where "DEFAULT_PREFIXES = [lit ''utm_'']"

record tracking_params =
  tp_exact :: "bytes list"
  tp_prefixes :: "bytes list"

definition params_default :: tracking_params where
  "params_default = \<lparr>tp_exact = DEFAULT_EXACT, tp_prefixes = DEFAULT_PREFIXES\<rparr>"

definition params_empty :: tracking_params where
  "params_empty = \<lparr>tp_exact = [], tp_prefixes = []\<rparr>"

definition admit :: "tracking_params \<Rightarrow> bytes \<Rightarrow> bytes option" where
  "admit tp name =
     (let n = to_ascii_lowercase (trim name)
      in if n \<noteq> [] \<and> length n \<le> MAX_ENTRY_BYTES
            \<and> \<not> list_ex (\<lambda>b. b \<le> 0x20 \<or> b = 0x26 \<or> b = 0x3D \<or> b = 0x23 \<or> b = 0x7F) n
            \<and> length (tp_exact tp) + length (tp_prefixes tp) < MAX_ENTRIES
         then Some n else None)"

definition add_exact :: "bytes \<Rightarrow> tracking_params \<Rightarrow> bool \<times> tracking_params" where
  "add_exact name tp =
     (case admit tp name of Some n \<Rightarrow> (True, tp\<lparr>tp_exact := List.insert n (tp_exact tp)\<rparr>) | None \<Rightarrow> (False, tp))"

definition add_prefix :: "bytes \<Rightarrow> tracking_params \<Rightarrow> bool \<times> tracking_params" where
  "add_prefix name tp =
     (case admit tp name of Some n \<Rightarrow> (True, tp\<lparr>tp_prefixes := List.insert n (tp_prefixes tp)\<rparr>) | None \<Rightarrow> (False, tp))"

definition remove_exact :: "bytes \<Rightarrow> tracking_params \<Rightarrow> bool \<times> tracking_params" where
  "remove_exact name tp =
     (let n = to_ascii_lowercase name in (n \<in> set (tp_exact tp), tp\<lparr>tp_exact := removeAll n (tp_exact tp)\<rparr>))"

definition remove_prefix :: "bytes \<Rightarrow> tracking_params \<Rightarrow> bool \<times> tracking_params" where
  "remove_prefix name tp =
     (let n = to_ascii_lowercase name in (n \<in> set (tp_prefixes tp), tp\<lparr>tp_prefixes := removeAll n (tp_prefixes tp)\<rparr>))"

definition is_tracking :: "tracking_params \<Rightarrow> bytes \<Rightarrow> bool" where
  "is_tracking tp name =
     (let n = to_ascii_lowercase name
      in n \<in> set (tp_exact tp) \<or> list_ex (\<lambda>p. strip_prefix p n \<noteq> None) (tp_prefixes tp))"

record stripped =
  sp_url :: url
  sp_removed :: "bytes list"

function form_decode :: "bytes \<Rightarrow> bytes" where
  "form_decode [] = []"
| "form_decode (c # s) =
     (case (if c = 0x25 \<and> 2 \<le> length s then (hex_digit (s ! 0), hex_digit (s ! 1)) else (None, None)) of
        (Some h, Some l) \<Rightarrow> word_of_nat (h * 16 + l) # form_decode (drop 2 s)
      | _ \<Rightarrow> (if c = 0x2B then 0x20 else c) # form_decode s)"
  by pat_completeness auto
termination by (relation "measure length") auto

definition decode_name :: "bytes \<Rightarrow> bytes" where
  "decode_name raw = utf8_lossy (form_decode raw)"

definition pair_name :: "bytes \<Rightarrow> bytes" where
  "pair_name pair = (case split_once 0x3D pair of Some (n, _) \<Rightarrow> n | None \<Rightarrow> pair)"

definition pair_tracked :: "tracking_params \<Rightarrow> bytes \<Rightarrow> bool" where
  "pair_tracked tp pair \<longleftrightarrow> pair_name pair \<noteq> [] \<and> is_tracking tp (decode_name (pair_name pair))"

definition rebuild_text :: "bytes \<Rightarrow> bytes list \<Rightarrow> bytes" where
  "rebuild_text full kept =
     (let (before_frag, frag) = (case split_once 0x23 full of Some (a, f) \<Rightarrow> (a, Some f) | None \<Rightarrow> (full, None));
          base = (case split_once 0x3F before_frag of Some (b, _) \<Rightarrow> b | None \<Rightarrow> before_frag)
      in base @ (if kept \<noteq> [] then 0x3F # str_join 0x26 kept else []) @ (case frag of Some f \<Rightarrow> 0x23 # f | None \<Rightarrow> []))"

definition strip_tracking_params :: "url \<Rightarrow> tracking_params \<Rightarrow> stripped option" where
  "strip_tracking_params u tp =
     (if u_scheme u \<notin> set [lit ''http'', lit ''https''] then None
      else do {
        query \<leftarrow> u_query u;
        let pairs = str_split 0x26 query;
        let removed = map pair_name (filter (pair_tracked tp) pairs);
        let kept = filter (\<lambda>p. \<not> pair_tracked tp p) pairs;
        if removed = [] then None
        else do {
          cleaned \<leftarrow> url_parse (rebuild_text (url_serialize u False) kept);
          if u_scheme cleaned = u_scheme u \<and> u_host cleaned = u_host u \<and> u_port cleaned = u_port u
             \<and> u_path cleaned = u_path u \<and> u_fragment cleaned = u_fragment u
             \<and> u_username cleaned = u_username u \<and> u_password cleaned = u_password u
          then Some \<lparr>sp_url = cleaned, sp_removed = removed\<rparr> else None } })"

section \<open>The configuration\<close>

definition params_ok :: "tracking_params \<Rightarrow> bool" where
  "params_ok tp \<longleftrightarrow> distinct (tp_exact tp) \<and> distinct (tp_prefixes tp)
     \<and> length (tp_exact tp) + length (tp_prefixes tp) \<le> MAX_ENTRIES \<and> [] \<notin> set (tp_prefixes tp)"

lemma admit_nonempty: "admit tp name = Some n \<Longrightarrow> n \<noteq> [] \<and> length (tp_exact tp) + length (tp_prefixes tp) < MAX_ENTRIES"
  by (auto simp: admit_def Let_def split: if_splits)

lemma params_ok_start: "params_ok params_empty" "params_ok params_default"
  by (simp_all add: params_ok_def params_empty_def params_default_def DEFAULT_EXACT_def DEFAULT_PREFIXES_def MAX_ENTRIES_def lit_def)

lemma params_ok_steps:
  assumes "params_ok tp"
  shows "params_ok (snd (add_exact n tp))" "params_ok (snd (add_prefix n tp))"
    "params_ok (snd (remove_exact n tp))" "params_ok (snd (remove_prefix n tp))"
proof -
  show "params_ok (snd (add_exact n tp))" "params_ok (snd (add_prefix n tp))"
    using assms by (auto simp: add_exact_def add_prefix_def params_ok_def List.insert_def dest: admit_nonempty split: option.split)
  show "params_ok (snd (remove_exact n tp))" "params_ok (snd (remove_prefix n tp))"
    using assms unfolding params_ok_def remove_exact_def remove_prefix_def Let_def
    by (simp_all add: distinct_removeAll) (meson add_le_mono order_trans order_refl length_removeAll_less_eq)+
qed

section \<open>Trailing controls\<close>

definition rtrim :: "bytes \<Rightarrow> bytes" where
  "rtrim s = rev (dropWhile (\<lambda>c. c \<le> 0x20) (rev s))"

lemma rtrim_Nil [simp]: "rtrim [] = []"
  by (simp add: rtrim_def)

lemma rtrim_append: "rtrim (s @ t) = (if rtrim t = [] then rtrim s else s @ rtrim t)"
  by (simp add: rtrim_def dropWhile_append)

lemma rtrim_Cons: "\<not> c \<le> 0x20 \<Longrightarrow> rtrim (c # t) = c # rtrim t"
  using rtrim_append [of "[c]" t] by (simp add: rtrim_def)

lemma rtrim_end: "rtrim s = [] \<or> visible_end (rtrim s)"
proof -
  have "dropWhile (\<lambda>c. c \<le> 0x20) (rev s) \<noteq> [] \<Longrightarrow> \<not> hd (dropWhile (\<lambda>c. c \<le> 0x20) (rev s)) \<le> 0x20" by (rule hd_dropWhile)
  then show ?thesis by (auto simp: rtrim_def visible_end_def last_rev)
qed

lemma rtrim_sub: "set (rtrim s) \<subseteq> set s"
  by (auto simp: rtrim_def dest: set_dropWhileD)

lemma rtrim_visible: "visible_end s \<Longrightarrow> rtrim s = s"
  by (cases s rule: rev_cases) (simp_all add: rtrim_def visible_end_def)

lemma trim_controls_rtrim: "\<not> hd s \<le> 0x20 \<Longrightarrow> s \<noteq> [] \<Longrightarrow> trim_controls s = rtrim s"
  by (cases s) (simp_all add: trim_controls_def rtrim_def)

definition trim_tail :: "url \<Rightarrow> url" where
  "trim_tail u =
     (case u_fragment u of
        Some f \<Rightarrow> u\<lparr>u_fragment := Some (rtrim f)\<rparr>
      | None \<Rightarrow> (case u_query u of Some q \<Rightarrow> u\<lparr>u_query := Some (rtrim q)\<rparr> | None \<Rightarrow> u\<lparr>u_path := rtrim (u_path u)\<rparr>))"

lemma avoids_rtrim: "avoids bad s \<Longrightarrow> avoids bad (rtrim s)"
  using avoids_sub [OF _ rtrim_sub] .

lemma path_slash: "net_url u \<Longrightarrow> \<exists>p. u_path u = SLASH # p"
  by (auto simp: net_url_def url_ok_def path_ok_def is_special_def is_special_scheme_def begins_with_def lit_def split: list.splits)

lemma net_url_update:
  assumes "net_url u" "avoids ({0x23, 0x3F, 0x5C} \<union> NEWLINES) p" "begins_with SLASH p"
    and "\<forall>x. q = Some x \<longrightarrow> avoids ({0x23} \<union> NEWLINES) x" "\<forall>x. f = Some x \<longrightarrow> avoids NEWLINES x"
  shows "net_url (u\<lparr>u_path := p, u_query := q, u_fragment := f\<rparr>)"
proof -
  have "userinfo_ok (u\<lparr>u_path := p, u_query := q, u_fragment := f\<rparr>)"
    using assms(1) by (simp add: net_url_def url_ok_def userinfo_ok_def is_special_def has_credentials_def)
  moreover have "avoids ({0x23, 0x3F} \<union> NEWLINES) p" "avoids {0x5C} p" "p \<noteq> []"
    using assms(2,3) by (auto simp: avoids_def begins_with_def)
  ultimately show ?thesis using assms by (simp add: net_url_def url_ok_def path_ok_def)
qed

lemma net_url_parts:
  assumes "net_url u"
  shows "avoids ({0x23, 0x3F, 0x5C} \<union> NEWLINES) (u_path u)" "begins_with SLASH (u_path u)"
    "\<forall>x. u_query u = Some x \<longrightarrow> avoids ({0x23} \<union> NEWLINES) x" "\<forall>x. u_fragment u = Some x \<longrightarrow> avoids NEWLINES x"
proof -
  have "path_ok u" "is_special u" "u_scheme u \<noteq> lit ''file''"
    using assms by (auto simp: net_url_def url_ok_def is_special_def is_special_scheme_def lit_def)
  then show "avoids ({0x23, 0x3F, 0x5C} \<union> NEWLINES) (u_path u)" "begins_with SLASH (u_path u)"
    "\<forall>x. u_query u = Some x \<longrightarrow> avoids ({0x23} \<union> NEWLINES) x" "\<forall>x. u_fragment u = Some x \<longrightarrow> avoids NEWLINES x"
    by (auto simp: path_ok_def avoids_def)
qed

lemma trim_tail_form:
  "trim_tail u = u\<lparr>u_path := u_path (trim_tail u), u_query := u_query (trim_tail u), u_fragment := u_fragment (trim_tail u)\<rparr>"
  by (simp add: trim_tail_def split: option.split)

lemma trim_tail_net:
  assumes "net_url u"
  shows "net_url (trim_tail u)"
proof -
  obtain p where p: "u_path u = SLASH # p" using path_slash [OF assms] by blast
  have "begins_with SLASH (u_path (trim_tail u))" "avoids ({0x23, 0x3F, 0x5C} \<union> NEWLINES) (u_path (trim_tail u))"
    "\<forall>x. u_query (trim_tail u) = Some x \<longrightarrow> avoids ({0x23} \<union> NEWLINES) x" "\<forall>x. u_fragment (trim_tail u) = Some x \<longrightarrow> avoids NEWLINES x"
    using net_url_parts [OF assms] avoids_rtrim [of _ "u_path u"] p
    by (auto simp: trim_tail_def rtrim_Cons begins_with_def intro: avoids_rtrim split: option.splits)
  then show ?thesis by (subst trim_tail_form) (intro net_url_update [OF assms])
qed

lemma net_url_text:
  assumes "net_url u"
  obtains a where "\<And>p q f. url_serialize (u\<lparr>u_path := p, u_query := q, u_fragment := f\<rparr>) False
      = a @ p @ opt_part 0x3F q @ opt_part 0x23 f"
    "avoids {0x23, 0x3F} a" "a \<noteq> []" "\<not> hd a \<le> 0x20"
proof -
  have ok: "url_ok u" "is_special u" "u_scheme u \<noteq> lit ''file''"
    using assms by (auto simp: net_url_def is_special_def is_special_scheme_def lit_def)
  obtain h where h: "u_host u = Some h" "network_host h" using net_host [OF ok] by blast
  let ?a = "u_scheme u @ COLON # SLASH # SLASH # authority_text u h"
  have "authority_text (u\<lparr>u_path := p, u_query := q, u_fragment := f\<rparr>) h = authority_text u h" for p q f
    by (simp add: authority_text_def credentials_text_def has_credentials_def)
  then have t: "url_serialize (u\<lparr>u_path := p, u_query := q, u_fragment := f\<rparr>) False = ?a @ p @ opt_part 0x3F q @ opt_part 0x23 f" for p q f
    using url_serialize_text [of "u\<lparr>u_path := p, u_query := q, u_fragment := f\<rparr>" h] h(1) by simp
  have sch: "u_scheme u \<noteq> []" "\<forall>c \<in> set (u_scheme u). scheme_char c"
    using ok(1) by (simp_all add: url_ok_def scheme_ok_def list_all_iff)
  have clean: "avoids {0x23, 0x3F} (u_scheme u)"
    using sch(2) by (auto simp: avoids_def scheme_char_def digit_def)
  have "avoids {0x23, 0x3F} (authority_text u h)"
    by (rule avoids_mono [OF authority_text_avoids(1) [OF ok(1,2) h]]) blast
  then have "avoids {0x23, 0x3F} ?a" using clean by simp
  moreover have "\<not> hd ?a \<le> 0x20" using sch scheme_char_avoids by (cases "u_scheme u") auto
  ultimately show thesis using that [of ?a] t by simp
qed

lemma serialize_trim_tail:
  assumes "net_url u"
  shows "url_serialize (trim_tail u) False = trim_controls (url_serialize u False)"
proof -
  obtain a where a: "\<And>p q f. url_serialize (u\<lparr>u_path := p, u_query := q, u_fragment := f\<rparr>) False
      = a @ p @ opt_part 0x3F q @ opt_part 0x23 f" "a \<noteq> []" "\<not> hd a \<le> 0x20" using net_url_text [OF assms] by metis
  obtain p where p: "u_path u = SLASH # p" using path_slash [OF assms] by blast
  have u: "u = u\<lparr>u_path := u_path u, u_query := u_query u, u_fragment := u_fragment u\<rparr>" by simp
  have s: "url_serialize u False = a @ u_path u @ opt_part 0x3F (u_query u) @ opt_part 0x23 (u_fragment u)"
    using a(1) [where p = "u_path u" and q = "u_query u" and f = "u_fragment u"] by simp
  have "trim_controls (url_serialize u False) = rtrim (url_serialize u False)"
    unfolding s using a(2,3) by (intro trim_controls_rtrim) simp_all
  then show ?thesis
    unfolding s
    by (subst trim_tail_form, subst a(1)) (simp add: trim_tail_def rtrim_append rtrim_Cons p opt_part_def split: option.split)
qed

lemma serialize_parses_trimmed:
  assumes "net_url u" "length (url_serialize u False) \<le> MAX_URL_BYTES"
  shows "url_parse (url_serialize u False) = Some (trim_tail u)"
proof -
  let ?s = "url_serialize u False"
  have n: "net_url (trim_tail u)" using trim_tail_net [OF assms(1)] .
  then have ok: "url_ok (trim_tail u)" "is_special (trim_tail u)" "u_scheme (trim_tail u) \<noteq> lit ''file''"
    by (auto simp: net_url_def is_special_def is_special_scheme_def lit_def)
  note t = serialize_trim_tail [OF assms(1)]
  have idem: "trim_controls (trim_controls ?s) = trim_controls ?s" and vis: "visible_end (trim_controls ?s)"
    and short: "length (trim_controls ?s) \<le> length ?s"
  proof -
    obtain a where "\<And>p q f. url_serialize (trim_tail u\<lparr>u_path := p, u_query := q, u_fragment := f\<rparr>) False
      = a @ p @ opt_part 0x3F q @ opt_part 0x23 f" and a: "a \<noteq> []" "\<not> hd a \<le> 0x20" using net_url_text [OF n] by metis
    from this(1) [where p = "u_path (trim_tail u)" and q = "u_query (trim_tail u)" and f = "u_fragment (trim_tail u)"]
    have "trim_controls ?s \<noteq> []" "\<not> hd (trim_controls ?s) \<le> 0x20" unfolding t [symmetric] using a by simp_all
    then show "trim_controls (trim_controls ?s) = trim_controls ?s" "visible_end (trim_controls ?s)"
      using trim_controls_end [of ?s] trim_controls_id by blast+
    show "length (trim_controls ?s) \<le> length ?s"
      unfolding trim_controls_def by (simp, rule order_trans [OF length_dropWhile_le], simp add: length_dropWhile_le)
  qed
  have "url_parse (trim_controls ?s) = Some (trim_tail u)"
    using serialize_reads_back [OF ok] vis short assms(2) unfolding t by simp
  moreover have "url_parse ?s = url_parse (trim_controls ?s)"
    using short assms(2) unfolding url_parse_def idem by simp
  ultimately show ?thesis by simp
qed

section \<open>What is left of the URL\<close>

lemma split_pieces_sub: "p \<in> set (str_split b s) \<Longrightarrow> set p \<subseteq> set s"
proof (induction s arbitrary: p)
  case (Cons c s)
  obtain x xs where "str_split b s = x # xs" by (cases "str_split b s") simp_all
  then show ?case using Cons by (fastforce split: if_splits)
qed simp

lemma join_sub: "set (str_join b ps) \<subseteq> insert b (\<Union> (set ` set ps))"
  by (induction b ps rule: str_join.induct) auto

lemma kept_avoids:
  assumes "avoids bad q" "0x26 \<notin> bad"
  shows "avoids bad (str_join 0x26 (filter P (str_split 0x26 q)))"
proof -
  have "set (str_join 0x26 (filter P (str_split 0x26 q))) \<subseteq> insert 0x26 (set q)"
    using join_sub [of "0x26" "filter P (str_split 0x26 q)"] split_pieces_sub [of _ "0x26" q] by fastforce
  then show ?thesis using assms by (auto simp: avoids_def)
qed

definition with_pairs :: "url \<Rightarrow> bytes list \<Rightarrow> url" where
  "with_pairs u kept = u\<lparr>u_query := if kept = [] then None else Some (str_join 0x26 kept)\<rparr>"

lemma rebuild_text_serialize:
  assumes "net_url u"
  shows "rebuild_text (url_serialize u False) kept = url_serialize (with_pairs u kept) False"
proof -
  obtain a where a: "\<And>p q f. url_serialize (u\<lparr>u_path := p, u_query := q, u_fragment := f\<rparr>) False
      = a @ p @ opt_part 0x3F q @ opt_part 0x23 f" "avoids {0x23, 0x3F} a" using net_url_text [OF assms] by metis
  let ?b = "a @ u_path u" and ?q = "opt_part 0x3F (u_query u)" and ?f = "opt_part 0x23 (u_fragment u)"
  have s: "url_serialize u False = (?b @ ?q) @ ?f"
    using a(1) [where p = "u_path u" and q = "u_query u" and f = "u_fragment u"] by simp
  have w: "url_serialize (with_pairs u kept) False = ?b @ opt_part 0x3F (u_query (with_pairs u kept)) @ ?f"
    using a(1) [where p = "u_path u" and q = "u_query (with_pairs u kept)" and f = "u_fragment u"] by (simp add: with_pairs_def)
  have clean: "0x3F \<notin> set ?b" "0x23 \<notin> set (?b @ ?q)"
    using a(2) net_url_parts [OF assms] by (cases "u_query u"; auto simp: avoids_def opt_part_def)+
  have "split_once 0x23 ((?b @ ?q) @ ?f) = map_option (Pair (?b @ ?q)) (u_fragment u)"
    using clean(2) by (cases "u_fragment u") (auto simp: opt_part_def split_once_None split_once_Some)
  moreover have "split_once 0x3F (?b @ ?q) = map_option (Pair ?b) (u_query u)"
    using clean(1) by (cases "u_query u") (auto simp: opt_part_def split_once_None split_once_Some)
  ultimately show ?thesis
    unfolding w s rebuild_text_def
    by (cases "u_fragment u"; cases "u_query u") (auto simp: Let_def opt_part_def with_pairs_def)
qed

definition kept_pairs :: "tracking_params \<Rightarrow> bytes \<Rightarrow> bytes list" where
  "kept_pairs tp q = filter (\<lambda>p. \<not> pair_tracked tp p) (str_split 0x26 q)"

lemma with_pairs_net: "net_url u \<Longrightarrow> u_query u = Some q \<Longrightarrow> net_url (with_pairs u (kept_pairs tp q))"
proof -
  assume u: "net_url u" "u_query u = Some q"
  have "avoids ({0x23} \<union> NEWLINES) (str_join 0x26 (kept_pairs tp q))"
    unfolding kept_pairs_def using net_url_parts(3) [OF u(1)] u(2) by (intro kept_avoids) (auto simp: NEWLINES_def)
  then have "net_url (u\<lparr>u_path := u_path u, u_query := u_query (with_pairs u (kept_pairs tp q)), u_fragment := u_fragment u\<rparr>)"
    using net_url_parts [OF u(1)] by (intro net_url_update [OF u(1)]) (auto simp: with_pairs_def)
  then show ?thesis by (simp add: with_pairs_def)
qed

lemma strip_tracking_params_spec:
  assumes "net_url u" "strip_tracking_params u tp = Some r"
  obtains q where "u_query u = Some q" "sp_removed r = map pair_name (filter (pair_tracked tp) (str_split 0x26 q))" "sp_removed r \<noteq> []"
    "sp_url r = (if u_fragment u = None then trim_tail (with_pairs u (kept_pairs tp q)) else with_pairs u (kept_pairs tp q))"
    "u_path (sp_url r) = u_path u"
proof -
  from assms(2) obtain q where q: "u_query u = Some q" by (auto simp: strip_tracking_params_def bind_eq_Some_conv split: if_splits)
  let ?w = "with_pairs u (kept_pairs tp q)" and ?t = "rebuild_text (url_serialize u False) (kept_pairs tp q)"
  from assms(2) q obtain c where c: "url_parse ?t = Some c" "u_path c = u_path u" "u_fragment c = u_fragment u"
      "r = \<lparr>sp_url = c, sp_removed = map pair_name (filter (pair_tracked tp) (str_split 0x26 q))\<rparr>" "sp_removed r \<noteq> []"
    by (auto simp: strip_tracking_params_def kept_pairs_def Let_def bind_eq_Some_conv split: if_splits)
  have "length ?t \<le> MAX_URL_BYTES" using c(1) by (auto simp: url_parse_def split: if_splits)
  then have "url_parse ?t = Some (trim_tail ?w)"
    unfolding rebuild_text_serialize [OF assms(1)] by (intro serialize_parses_trimmed with_pairs_net [OF assms(1) q])
  then have t: "c = trim_tail ?w" using c(1) by simp
  have "trim_tail ?w = ?w" if "u_fragment u = Some f" for f
    using that c(3) t by (cases u) (auto simp: trim_tail_def with_pairs_def)
  then show thesis using that [OF q] c t by (cases "u_fragment u") auto
qed

text \<open>A second pass finds nothing more, when nothing was trimmed off the end of the rebuilt text.\<close>

lemma strip_idempotent:
  assumes "net_url u" "strip_tracking_params u tp = Some r" "u_query u = Some q"
    and "u_fragment u \<noteq> None \<or> rtrim (str_join 0x26 (kept_pairs tp q)) = str_join 0x26 (kept_pairs tp q)"
  shows "strip_tracking_params (sp_url r) tp = None"
proof -
  let ?k = "kept_pairs tp q"
  have u': "sp_url r = (if u_fragment u = None then trim_tail (with_pairs u ?k) else with_pairs u ?k)"
    using strip_tracking_params_spec [OF assms(1,2)] assms(3) by (metis option.inject)
  have query: "u_query (sp_url r) = (if ?k = [] then None else Some (str_join 0x26 ?k))"
    using u' assms(4) by (auto simp: with_pairs_def trim_tail_def split: option.splits)
  have "str_split 0x26 (str_join 0x26 ?k) = ?k" if "?k \<noteq> []"
    using that by (intro str_split_join) (auto simp: kept_pairs_def dest: str_split_pieces)
  moreover have "filter (pair_tracked tp) ?k = []" by (simp add: kept_pairs_def filter_empty_conv)
  ultimately show ?thesis using query by (auto simp: strip_tracking_params_def Let_def)
qed

text \<open>
  Otherwise it may: the space at the end of a parameter that was kept is lost when the
  rebuilt text is parsed again, and the name that is left is one to be stripped.
\<close>

lemma strip_changes_kept_pair:
  "map_option (\<lambda>u. map_option (\<lambda>r. (u_query u, u_query (sp_url r), sp_removed r,
        map_option sp_removed (strip_tracking_params (sp_url r) params_default)))
      (strip_tracking_params u params_default)) (url_parse (lit ''http://h/?fbclid &utm_a=1''))
   = Some (Some (Some (lit ''fbclid &utm_a=1''), Some (lit ''fbclid''), [lit ''utm_a''], Some [lit ''fbclid'']))"
  by code_simp

section \<open>Third-party referrers\<close>

text \<open>
  Referrer trimming for third-party requests, \<^verbatim>\<open>crates/px-block/src/referrer.rs\<close>: the page's
  policy is tightened and handed to the computation of \<open>Websec_Referrer\<close>.
\<close>

datatype third_party_referrer = TrimDefault | TrimOriginOnly | TrimNone

definition tightened_policy :: "referrer_policy \<Rightarrow> bool \<Rightarrow> third_party_referrer \<Rightarrow> referrer_policy" where
  "tightened_policy policy is_third_party mode =
     (if \<not> is_third_party then policy
      else case mode of
        TrimDefault \<Rightarrow> policy
      | TrimNone \<Rightarrow> NoReferrer
      | TrimOriginOnly \<Rightarrow>
          (case policy of
             UnsafeUrl \<Rightarrow> StrictOriginWhenCrossOrigin
           | NoReferrerWhenDowngrade \<Rightarrow> StrictOriginWhenCrossOrigin
           | _ \<Rightarrow> policy))"

definition referrer_for ::
  "url option \<Rightarrow> referrer_policy option \<Rightarrow> referrer_policy option \<Rightarrow> url \<Rightarrow> bool \<Rightarrow> third_party_referrer \<Rightarrow> nat \<Rightarrow> bytes option \<times> nat" where
  "referrer_for source request_policy document_policy request_url is_third_party mode n =
     (let effective = effective_policy request_policy document_policy;
          policy = tightened_policy effective is_third_party mode
      in referrer_compute source policy request_url n)"

lemma tightened_reveals_less:
  "tightened_policy p True TrimOriginOnly \<notin> {UnsafeUrl, NoReferrerWhenDowngrade}"
  "tightened_policy p b m = NoReferrer \<or> tightened_policy p b m = p \<or> tightened_policy p b m = StrictOriginWhenCrossOrigin \<and> b \<and> m = TrimOriginOnly"
  by (cases p; cases m; simp add: tightened_policy_def)+

lemma referrer_for_net:
  assumes "url_ok s" "url_ok r" "referrer_for (Some s) rp dp r third mode n = (Some t, n')"
  shows "n' = n \<and> referrer_allowed (tightened_policy (effective_policy rp dp) third mode) s r t"
proof -
  let ?p = "tightened_policy (effective_policy rp dp) third mode"
  have c: "referrer_compute (Some s) ?p r n = (Some t, n')" using assms(3) by (simp add: referrer_for_def)
  then have "net_url s" "u_scheme r \<in> set [lit ''http'', lit ''https'']"
    using assms(1) by (auto elim: referrer_compute_scope simp: net_url_def)
  from referrer_compute_net [OF this(1) assms(2) this(2), of ?p n] c show ?thesis
    using referrer_choice_allowed by (auto simp: map_option_eq_Some eq_commute [of "Some t"])
qed

end
