(* ===== verification/Block_Privacy_Properties.thy ===== *)
theory Block_Privacy_Properties
  imports Block_Params
begin

text \<open>
  The properties of the privacy functions of the content blocker: what stripping leaves of a
  URL, and how much a referrer reveals once third-party requests are trimmed.
\<close>

section \<open>Tracking parameters\<close>

text \<open>
  C34: stripping changes only the query.  It removes exactly the pairs whose decoded name is a
  tracking parameter, reports their names in order, and keeps the others in order, without
  the question mark when none is left; when the URL has no fragment, spaces and controls at
  the end of the last pair that is kept are lost.
\<close>

theorem strip_removes_only_tracking:
  assumes "url_parse input = Some u" "strip_tracking_params u tp = Some r"
  shows "\<exists>q. u_query u = Some q \<and> sp_removed r = map pair_name (filter (pair_tracked tp) (str_split 0x26 q)) \<and> sp_removed r \<noteq> []
    \<and> sp_url r = u\<lparr>u_query :=
        (let kept = kept_pairs tp q
         in if kept = [] then None else Some (if u_fragment u = None then rtrim (str_join 0x26 kept) else str_join 0x26 kept))\<rparr>"
proof -
  have net: "net_url u"
    using url_parse_ok [OF assms(1)] assms(2) by (auto simp: net_url_def strip_tracking_params_def split: if_splits)
  obtain q where q: "u_query u = Some q" "sp_removed r = map pair_name (filter (pair_tracked tp) (str_split 0x26 q))" "sp_removed r \<noteq> []"
      "sp_url r = (if u_fragment u = None then trim_tail (with_pairs u (kept_pairs tp q)) else with_pairs u (kept_pairs tp q))"
      "u_path (sp_url r) = u_path u" by (rule strip_tracking_params_spec [OF net assms(2)])
  have "sp_url r = u\<lparr>u_query := (let kept = kept_pairs tp q
      in if kept = [] then None else Some (if u_fragment u = None then rtrim (str_join 0x26 kept) else str_join 0x26 kept))\<rparr>"
    using q(4,5) by (cases "u_fragment u"; cases u) (auto simp: trim_tail_def with_pairs_def Let_def split: if_splits)
  with q show ?thesis by blast
qed

definition sample_tracked :: url where
  "sample_tracked = \<lparr>u_scheme = lit ''https'', u_username = [], u_password = [], u_host = Some (Domain (lit ''a.b'')),
     u_port = None, u_path = lit ''/x'', u_query = Some (lit ''id=7&utm_a=b&UTM%5fc&q''), u_fragment = None\<rparr>"

theorem strip_removes_only_tracking_witness:
  "\<exists>r. strip_tracking_params sample_tracked params_default = Some r \<and> sp_removed r = [lit ''utm_a'', lit ''UTM%5fc'']
     \<and> u_query (sp_url r) = Some (lit ''id=7&q'') \<and> u_path (sp_url r) = lit ''/x''"
proof -
  have u: "url_parse (lit ''https://a.b/x?id=7&utm_a=b&UTM%5fc&q'') = Some sample_tracked" by code_simp
  have r: "strip_tracking_params sample_tracked params_default
      = Some \<lparr>sp_url = sample_tracked\<lparr>u_query := Some (lit ''id=7&q'')\<rparr>, sp_removed = [lit ''utm_a'', lit ''UTM%5fc'']\<rparr>" by code_simp
  from strip_removes_only_tracking [OF u r] r show ?thesis by (auto simp: sample_tracked_def)
qed

section \<open>Referrers\<close>

text \<open>
  C35: the referrer that is sent never reveals more than the page's own policy allows: it has
  no credentials and no fragment, it is the full address only to the same origin, or under
  \<open>unsafe-url\<close> and \<open>no-referrer-when-downgrade\<close>, and not beyond 4096 bytes, and a page that is
  trusted tells an untrusted destination only what three lenient policies let it.  With
  trimming on, a third-party destination of another origin learns at most the origin.
\<close>

theorem referrer_reveals_no_more:
  assumes "url_parse source = Some s" "url_parse target = Some r"
    and "referrer_for (Some s) request_policy document_policy r third mode n = (Some t, n')"
  shows "n' = n \<and> referrer_allowed (effective_policy request_policy document_policy) s r t
    \<and> (third \<and> mode \<noteq> TrimDefault \<and> \<not> same_tuple s r \<longrightarrow> mode = TrimOriginOnly \<and> t = referrer_origin s)"
proof -
  let ?e = "effective_policy request_policy document_policy"
  have a: "n' = n" "referrer_allowed (tightened_policy ?e third mode) s r t"
    using referrer_for_net [OF url_parse_ok [OF assms(1)] url_parse_ok [OF assms(2)] assms(3)] by simp_all
  show ?thesis
    using a by (cases ?e; cases third; cases mode) (auto simp: tightened_policy_def referrer_allowed_def)
qed

definition sample_source :: url where
  "sample_source = sample_tracked\<lparr>u_username := lit ''me''\<rparr>"

theorem referrer_reveals_no_more_witness:
  "\<exists>t. referrer_for (Some sample_source) (Some UnsafeUrl) None (sample_tracked\<lparr>u_host := Some (Domain (lit ''c.d''))\<rparr>) True TrimOriginOnly 0
     = (Some t, 0) \<and> t = referrer_origin sample_source \<and> t = lit ''https://a.b/''"
proof -
  let ?r = "sample_tracked\<lparr>u_host := Some (Domain (lit ''c.d''))\<rparr>"
  have s: "url_parse (lit ''https://me@a.b/x?id=7&utm_a=b&UTM%5fc&q'') = Some sample_source" by code_simp
  have r: "url_parse (lit ''https://c.d/x?id=7&utm_a=b&UTM%5fc&q'') = Some ?r" by code_simp
  have t: "referrer_for (Some sample_source) (Some UnsafeUrl) None ?r True TrimOriginOnly 0 = (Some (lit ''https://a.b/''), 0)" by code_simp
  have "\<not> same_tuple sample_source ?r" by code_simp
  with referrer_reveals_no_more [OF s r t] t show ?thesis by auto
qed

end
