(* ===== verification/Websec_Cors.thy ===== *)
theory Websec_Cors
  imports Websec_Referrer "HOL-Library.List_Lexorder"
begin

text \<open>
  The CORS protocol, \<^verbatim>\<open>crates/px-websec/src/cors.rs\<close>: methods and headers that need no
  preflight, the preflight and its validation, the preflight cache, and what a script may
  see of a response.  Functions that derive an origin pass the counter of opaque origins
  along.
\<close>

definition MAX_AGE_CAP_SECS :: nat where "MAX_AGE_CAP_SECS = 7200"
definition DEFAULT_MAX_AGE_SECS :: nat where "DEFAULT_MAX_AGE_SECS = 5"
definition MAX_CACHE_ENTRIES :: nat where "MAX_CACHE_ENTRIES = 512"
definition SAFELIST_VALUE_MAX :: nat where "SAFELIST_VALUE_MAX = 128"
definition SAFELIST_TOTAL_MAX :: nat where "SAFELIST_TOTAL_MAX = 1024"

abbreviation STAR :: bytes where "STAR \<equiv> [0x2A]"

datatype credentials_mode = CredOmit | CredSameOrigin | CredInclude
datatype request_mode = ModeCors | ModeNoCors | ModeSameOrigin | ModeNavigate

record http_header =
  hh_name :: bytes
  hh_value :: bytes

definition header_new :: "bytes \<Rightarrow> bytes \<Rightarrow> http_header" where
  "header_new name value = \<lparr>hh_name = name, hh_value = value\<rparr>"

record cors_request =
  cr_method :: bytes
  cr_url :: url
  cr_origin :: web_origin
  cr_headers :: "http_header list"
  cr_credentials :: credentials_mode
  cr_mode :: request_mode
  cr_preflight_flag :: bool
  cr_origin_tainted :: bool

record cors_response =
  rs_status :: nat
  rs_headers :: "http_header list"

datatype cors_error =
  MissingAllowOrigin | OriginMismatch | CredentialsNotAllowed | PreflightStatus | MethodNotAllowed
| HeaderNotAllowed bytes | CrossOriginForbidden | UnsupportedCorsScheme

record preflight_reasons =
  pr_unsafe_method :: bool
  pr_unsafe_headers :: "bytes list"
  pr_flag :: bool

datatype classification = SimpleRequest | Preflighted preflight_reasons

section \<open>Primitives\<close>

definition normalize_method :: "bytes \<Rightarrow> bytes" where
  "normalize_method m =
     (case find (\<lambda>k. eq_ignore_case m k) (map lit [''DELETE'', ''GET'', ''HEAD'', ''OPTIONS'', ''POST'', ''PUT'']) of
        Some k \<Rightarrow> k | None \<Rightarrow> m)"

definition is_safelisted_method :: "bytes \<Rightarrow> bool" where
  "is_safelisted_method m \<longleftrightarrow> m \<in> set [lit ''GET'', lit ''HEAD'', lit ''POST'']"

definition is_forbidden_method :: "bytes \<Rightarrow> bool" where
  "is_forbidden_method m \<longleftrightarrow> list_ex (\<lambda>f. eq_ignore_case m f) (map lit [''CONNECT'', ''TRACE'', ''TRACK''])"

definition http_ws :: "u8 \<Rightarrow> bool" where
  "http_ws c \<longleftrightarrow> c \<in> {0x09, 0x0A, 0x0D, 0x20}"

definition trim_http_ws :: "bytes \<Rightarrow> bytes" where
  "trim_http_ws b = trim_where http_ws b"

fun split_list_from :: "bytes \<Rightarrow> bytes \<Rightarrow> bool \<Rightarrow> bool \<Rightarrow> bytes list" where
  "split_list_from [] cur in_q esc = [utf8_lossy (trim_http_ws cur)]"
| "split_list_from (b # s) cur in_q esc =
     (if in_q then
        (if esc then split_list_from s (cur @ [b]) True False
         else if b = 0x5C then split_list_from s (cur @ [b]) True True
         else split_list_from s (cur @ [b]) (b \<noteq> 0x22) False)
      else if b = 0x22 then split_list_from s (cur @ [b]) True esc
      else if b = 0x2C then utf8_lossy (trim_http_ws cur) # split_list_from s [] False esc
      else split_list_from s (cur @ [b]) False esc)"

definition split_list :: "bytes \<Rightarrow> bytes list" where
  "split_list value = split_list_from value [] False False"

definition FORBIDDEN_REQUEST_HEADERS :: "bytes list" where
  "FORBIDDEN_REQUEST_HEADERS = map lit
     [''accept-charset'', ''accept-encoding'', ''access-control-request-headers'', ''access-control-request-method'',
      ''connection'', ''content-length'', ''cookie'', ''cookie2'', ''date'', ''dnt'', ''expect'', ''host'', ''keep-alive'',
      ''origin'', ''referer'', ''set-cookie'', ''te'', ''trailer'', ''transfer-encoding'', ''upgrade'', ''via'']"

definition is_forbidden_request_header :: "bytes \<Rightarrow> bytes \<Rightarrow> bool" where
  "is_forbidden_request_header name value =
     (let n = to_ascii_lowercase name
      in if n \<in> set FORBIDDEN_REQUEST_HEADERS \<or> strip_prefix (lit ''proxy-'') n \<noteq> None \<or> strip_prefix (lit ''sec-'') n \<noteq> None
         then True
         else if n \<in> set [lit ''x-http-method'', lit ''x-http-method-override'', lit ''x-method-override''] then
           (if \<not> utf8_valid value then True else list_ex is_forbidden_method (split_list value))
         else False)"

definition is_forbidden_response_header :: "bytes \<Rightarrow> bool" where
  "is_forbidden_response_header name \<longleftrightarrow> eq_ignore_case name (lit ''set-cookie'') \<or> eq_ignore_case name (lit ''set-cookie2'')"

definition is_cors_unsafe_byte :: "u8 \<Rightarrow> bool" where
  "is_cors_unsafe_byte b \<longleftrightarrow> b < 0x20 \<and> b \<noteq> 0x09 \<or> b \<in> set (lit ''():<>?@[]{}'') \<union> {0x22, 0x5C, 0x7F}"

definition web_alphanumeric :: "u8 \<Rightarrow> bool" where
  "web_alphanumeric b \<longleftrightarrow> digit b \<noteq> None \<or> 0x41 \<le> b \<and> b \<le> 0x5A \<or> 0x61 \<le> b \<and> b \<le> 0x7A"

definition is_http_token_byte :: "u8 \<Rightarrow> bool" where
  "is_http_token_byte b \<longleftrightarrow> web_alphanumeric b \<or> b \<in> set (lit ''!#$%&*+-.^_|~'') \<union> {0x27, 0x60}"

definition mime_essence :: "bytes \<Rightarrow> bytes option" where
  "mime_essence value =
     (let v = trim_http_ws value;
          essence = trim_http_ws (takeWhile (\<lambda>b. b \<noteq> 0x3B) v)
      in do {
        (t, s) \<leftarrow> split_once SLASH essence;
        if t = [] \<or> s = [] \<or> \<not> list_all is_http_token_byte (t @ s) then None
        else Some (to_ascii_lowercase (utf8_lossy essence)) })"

definition all_digits :: "bytes \<Rightarrow> bool" where
  "all_digits s \<longleftrightarrow> s \<noteq> [] \<and> list_all (\<lambda>b. digit b \<noteq> None) s"

definition parse_u64 :: "bytes \<Rightarrow> nat option" where
  "parse_u64 s = do { n \<leftarrow> parse_digits 0 s; if n \<le> U64_MAX then Some n else None }"

definition parse_single_range_start :: "bytes \<Rightarrow> bool" where
  "parse_single_range_start v =
     (if \<not> utf8_valid v then False
      else case strip_prefix (lit ''bytes='') v of
        None \<Rightarrow> False
      | Some rest \<Rightarrow>
          (case split_once 0x2D rest of
             None \<Rightarrow> False
           | Some (a, b) \<Rightarrow>
               if \<not> all_digits a then False
               else if b = [] then True
               else if \<not> all_digits b then False
               else (case (parse_u64 a, parse_u64 b) of (Some a, Some b) \<Rightarrow> a \<le> b | _ \<Rightarrow> False)))"

definition is_safelisted_request_header :: "bytes \<Rightarrow> bytes \<Rightarrow> bool" where
  "is_safelisted_request_header name value =
     (let n = to_ascii_lowercase name
      in if length value > SAFELIST_VALUE_MAX then False
         else if n = lit ''accept'' then \<not> list_ex is_cors_unsafe_byte value
         else if n = lit ''accept-language'' \<or> n = lit ''content-language'' then
           list_all (\<lambda>b. web_alphanumeric b \<or> b \<in> set (lit '' *,-.;='')) value
         else if n = lit ''content-type'' then
           \<not> list_ex is_cors_unsafe_byte value
           \<and> mime_essence value \<in> set (map (Some \<circ> lit) [''application/x-www-form-urlencoded'', ''multipart/form-data'', ''text/plain''])
         else if n = lit ''range'' then parse_single_range_start value
         else False)"

fun scan_headers :: "http_header list \<Rightarrow> bytes list \<Rightarrow> bytes list \<Rightarrow> nat \<Rightarrow> bytes list \<times> bytes list \<times> nat" where
  "scan_headers [] unsafe_names potentially total_len = (unsafe_names, potentially, total_len)"
| "scan_headers (h # hs) unsafe_names potentially total_len =
     (let lname = to_ascii_lowercase (hh_name h)
      in if is_safelisted_request_header (hh_name h) (hh_value h)
         then scan_headers hs unsafe_names (potentially @ [lname]) (sat_add total_len (length (hh_value h)))
         else scan_headers hs (unsafe_names @ [lname]) potentially total_len)"

definition unsafe_header_names :: "http_header list \<Rightarrow> bytes list" where
  "unsafe_header_names headers =
     (let (unsafe_names, potentially, total_len) = scan_headers headers [] [] 0
      in remdups_adj (sort (if total_len > SAFELIST_TOTAL_MAX then unsafe_names @ potentially else unsafe_names)))"

fun comma_joined :: "bytes list \<Rightarrow> bytes" where
  "comma_joined [] = []"
| "comma_joined [v] = v"
| "comma_joined (v # w # vs) = v @ [0x2C, 0x20] @ comma_joined (w # vs)"

definition get_combined :: "http_header list \<Rightarrow> bytes \<Rightarrow> bytes option" where
  "get_combined headers name =
     (let found = filter (\<lambda>h. eq_ignore_case (hh_name h) name) headers
      in if found = [] then None else Some (comma_joined (map (\<lambda>h. trim_http_ws (hh_value h)) found)))"

definition extract_list :: "http_header list \<Rightarrow> bytes \<Rightarrow> bytes list option" where
  "extract_list headers name = map_option split_list (get_combined headers name)"

section \<open>Classification\<close>

definition cors_classify :: "cors_request \<Rightarrow> classification" where
  "cors_classify r =
     (let unsafe_method = (\<not> is_safelisted_method (cr_method r));
          unsafe_headers = unsafe_header_names (cr_headers r)
      in if \<not> unsafe_method \<and> unsafe_headers = [] \<and> \<not> cr_preflight_flag r then SimpleRequest
         else Preflighted \<lparr>pr_unsafe_method = unsafe_method, pr_unsafe_headers = unsafe_headers, pr_flag = cr_preflight_flag r\<rparr>)"

datatype tainting = TaintBasic | TaintCors | TaintOpaque

definition serialize_request_origin :: "cors_request \<Rightarrow> bytes" where
  "serialize_request_origin r = origin_serialize (cr_origin r)"

definition should_send_origin_header :: "cors_request \<Rightarrow> tainting \<Rightarrow> bool" where
  "should_send_origin_header r taint \<longleftrightarrow> taint = TaintCors \<or> cr_method r \<notin> set [lit ''GET'', lit ''HEAD'']"

definition web_origin_scheme :: "web_origin \<Rightarrow> bytes option" where
  "web_origin_scheme o' = (case o' of OpaqueOrigin _ \<Rightarrow> None | TupleOrigin s _ _ \<Rightarrow> Some s)"

definition hide_origin :: "cors_request \<Rightarrow> referrer_policy \<Rightarrow> nat \<Rightarrow> bool \<times> nat" where
  "hide_origin r policy n =
     (let downgrade = (web_origin_scheme (cr_origin r) = Some (lit ''https'') \<and> u_scheme (cr_url r) \<noteq> lit ''https'')
      in case policy of
           NoReferrer \<Rightarrow> (True, n)
         | NoReferrerWhenDowngrade \<Rightarrow> (downgrade, n)
         | StrictOrigin \<Rightarrow> (downgrade, n)
         | StrictOriginWhenCrossOrigin \<Rightarrow> (downgrade, n)
         | SameOriginOnly \<Rightarrow> (case origin_from_url (cr_url r) n of (o', n') \<Rightarrow> (\<not> same_origin (cr_origin r) o', n'))
         | OriginOnly \<Rightarrow> (False, n)
         | OriginWhenCrossOrigin \<Rightarrow> (False, n)
         | UnsafeUrl \<Rightarrow> (False, n))"

definition origin_header_value :: "cors_request \<Rightarrow> tainting \<Rightarrow> referrer_policy \<Rightarrow> nat \<Rightarrow> bytes option \<times> nat" where
  "origin_header_value r taint policy n =
     (if taint = TaintCors then (Some (serialize_request_origin r), n)
      else if \<not> should_send_origin_header r taint then (None, n)
      else if cr_mode r \<noteq> ModeCors then
        (case hide_origin r policy n of (hide, n') \<Rightarrow> (Some (if hide then lit ''null'' else serialize_request_origin r), n'))
      else (Some (serialize_request_origin r), n))"

section \<open>Preflight\<close>

record preflight_req =
  pf_method :: bytes
  pf_url :: url
  pf_headers :: "http_header list"
  pf_origin_header :: bytes
  pf_credentials :: credentials_mode

definition preflight_request :: "cors_request \<Rightarrow> preflight_req" where
  "preflight_request r =
     (let names = unsafe_header_names (cr_headers r)
      in \<lparr>pf_method = lit ''OPTIONS'', pf_url = cr_url r,
          pf_headers = [header_new (lit ''Accept'') (lit ''*/*''), header_new (lit ''Access-Control-Request-Method'') (cr_method r)]
            @ (if names \<noteq> [] then [header_new (lit ''Access-Control-Request-Headers'') (str_join 0x2C names)] else []),
          pf_origin_header = serialize_request_origin r, pf_credentials = CredSameOrigin\<rparr>)"

record preflight_grant =
  pg_methods :: "bytes list"
  pg_header_names :: "bytes list"
  pg_max_age :: nat

definition cors_check :: "cors_request \<Rightarrow> http_header list \<Rightarrow> cors_error option" where
  "cors_check r response_headers =
     (case get_combined response_headers (lit ''Access-Control-Allow-Origin'') of
        None \<Rightarrow> Some MissingAllowOrigin
      | Some acao \<Rightarrow>
          (let incl = (cr_credentials r = CredInclude)
           in if \<not> incl \<and> acao = STAR then None
              else if acao \<noteq> serialize_request_origin r then Some OriginMismatch
              else if \<not> incl then None
              else if get_combined response_headers (lit ''Access-Control-Allow-Credentials'') = Some (lit ''true'') then None
              else Some CredentialsNotAllowed))"

definition header_listed :: "bytes list \<Rightarrow> bytes \<Rightarrow> bool" where
  "header_listed names name \<longleftrightarrow> list_ex (\<lambda>i. eq_ignore_case i name) names"

definition parse_delta_seconds :: "bytes \<Rightarrow> nat option" where
  "parse_delta_seconds v =
     (let v = trim_http_ws v
      in if \<not> all_digits v then None
         else Some (fold (\<lambda>d n. sat_add (sat_mul n 10) (unat d - 48)) v 0))"

definition preflight_max_age :: "http_header list \<Rightarrow> nat" where
  "preflight_max_age hs =
     min (case get_combined hs (lit ''Access-Control-Max-Age'') of
            Some v \<Rightarrow> (case parse_delta_seconds v of Some n \<Rightarrow> n | None \<Rightarrow> DEFAULT_MAX_AGE_SECS)
          | None \<Rightarrow> DEFAULT_MAX_AGE_SECS) MAX_AGE_CAP_SECS"

definition validate_preflight :: "cors_request \<Rightarrow> cors_response \<Rightarrow> cors_error + preflight_grant" where
  "validate_preflight r resp =
     (case cors_check r (rs_headers resp) of
        Some e \<Rightarrow> Inl e
      | None \<Rightarrow>
        if \<not> (200 \<le> rs_status resp \<and> rs_status resp < 300) then Inl PreflightStatus
        else
          let incl = (cr_credentials r = CredInclude);
              methods = extract_list (rs_headers resp) (lit ''Access-Control-Allow-Methods'');
              header_names = (case extract_list (rs_headers resp) (lit ''Access-Control-Allow-Headers'') of Some l \<Rightarrow> l | None \<Rightarrow> []);
              methods = (case methods of Some l \<Rightarrow> l | None \<Rightarrow> if cr_preflight_flag r then [cr_method r] else []);
              method_star = (\<not> incl \<and> STAR \<in> set methods);
              star = (\<not> incl \<and> STAR \<in> set header_names)
          in if cr_method r \<notin> set methods \<and> \<not> is_safelisted_method (cr_method r) \<and> \<not> method_star then Inl MethodNotAllowed
             else if list_ex (\<lambda>h. eq_ignore_case (hh_name h) (lit ''authorization'')) (cr_headers r)
                     \<and> \<not> header_listed header_names (lit ''authorization'')
                  then Inl (HeaderNotAllowed (lit ''authorization''))
             else case find (\<lambda>n. \<not> header_listed header_names n \<and> \<not> star) (unsafe_header_names (cr_headers r)) of
                    Some n \<Rightarrow> Inl (HeaderNotAllowed n)
                  | None \<Rightarrow> Inr \<lparr>pg_methods = methods, pg_header_names = header_names, pg_max_age = preflight_max_age (rs_headers resp)\<rparr>)"

section \<open>The preflight cache\<close>

record cache_entry =
  ce_partition :: bytes
  ce_origin :: web_origin
  ce_url :: bytes
  ce_credentials :: bool
  ce_method :: "bytes option"
  ce_header :: "bytes option"
  ce_expires_at :: nat

type_synonym preflight_cache = "cache_entry list"

definition forget_partition :: "bytes \<Rightarrow> preflight_cache \<Rightarrow> preflight_cache" where
  "forget_partition part c = filter (\<lambda>e. ce_partition e \<noteq> part) c"

definition base_match :: "cache_entry \<Rightarrow> bytes \<Rightarrow> cors_request \<Rightarrow> nat \<Rightarrow> bool" where
  "base_match e part r now \<longleftrightarrow>
     ce_expires_at e > now \<and> ce_partition e = part \<and> ce_origin e = cr_origin r
     \<and> ce_url e = url_serialize (cr_url r) True \<and> (ce_credentials e \<or> cr_credentials r \<noteq> CredInclude)"

definition same_slot :: "cache_entry \<Rightarrow> cache_entry \<Rightarrow> bool" where
  "same_slot e f \<longleftrightarrow> e\<lparr>ce_expires_at := 0\<rparr> = f\<lparr>ce_expires_at := 0\<rparr>"

fun refresh_first :: "cache_entry \<Rightarrow> preflight_cache \<Rightarrow> preflight_cache option" where
  "refresh_first f [] = None"
| "refresh_first f (e # es) =
     (if same_slot e f then Some (e\<lparr>ce_expires_at := ce_expires_at f\<rparr> # es) else map_option (Cons e) (refresh_first f es))"

definition cache_add :: "cache_entry \<Rightarrow> preflight_cache \<Rightarrow> preflight_cache" where
  "cache_add f c =
     (case refresh_first f c of
        Some c' \<Rightarrow> c'
      | None \<Rightarrow> (if length c \<ge> MAX_CACHE_ENTRIES then tl c else c) @ [f])"

definition grant_entries :: "bytes \<Rightarrow> cors_request \<Rightarrow> preflight_grant \<Rightarrow> nat \<Rightarrow> cache_entry list" where
  "grant_entries part r g now =
     (let entry = \<lparr>ce_partition = part, ce_origin = cr_origin r, ce_url = url_serialize (cr_url r) True,
            ce_credentials = (cr_credentials r = CredInclude), ce_method = None, ce_header = None,
            ce_expires_at = sat_add now (pg_max_age g)\<rparr>
      in map (\<lambda>m. entry\<lparr>ce_method := Some m\<rparr>) (pg_methods g)
         @ map (\<lambda>h. entry\<lparr>ce_header := Some (to_ascii_lowercase h)\<rparr>) (pg_header_names g))"

definition cache_store :: "bytes \<Rightarrow> cors_request \<Rightarrow> preflight_grant \<Rightarrow> nat \<Rightarrow> preflight_cache \<Rightarrow> preflight_cache" where
  "cache_store part r g now c =
     (if pg_max_age g = 0 then c
      else fold cache_add (grant_entries part r g now) (filter (\<lambda>e. ce_expires_at e > now) c))"

definition cache_covers :: "preflight_cache \<Rightarrow> bytes \<Rightarrow> cors_request \<Rightarrow> nat \<Rightarrow> bool" where
  "cache_covers c part r now =
     (let incl = (cr_credentials r = CredInclude);
          live = filter (\<lambda>e. base_match e part r now) c;
          method_hit = list_ex (\<lambda>e. case ce_method e of Some m \<Rightarrow> m = cr_method r \<or> m = STAR \<and> \<not> incl | None \<Rightarrow> False) live;
          header_hit = (\<lambda>name. list_ex (\<lambda>e. case ce_header e of
             Some h \<Rightarrow> h = name \<or> h = STAR \<and> \<not> incl \<and> name \<noteq> lit ''authorization'' | None \<Rightarrow> False) live)
      in if \<not> (method_hit \<or> is_safelisted_method (cr_method r) \<and> \<not> cr_preflight_flag r) then False
         else if list_ex (\<lambda>h. eq_ignore_case (hh_name h) (lit ''authorization'')) (cr_headers r) \<and> \<not> header_hit (lit ''authorization'')
              then False
         else list_all header_hit (unsafe_header_names (cr_headers r)))"

section \<open>Responses\<close>

definition cors_taint :: "cors_request \<Rightarrow> nat \<Rightarrow> (cors_error + tainting) \<times> nat" where
  "cors_taint r n =
     (if u_scheme (cr_url r) = lit ''data'' \<or> cr_mode r = ModeNavigate then (Inr TaintBasic, n)
      else case origin_from_url (cr_url r) n of
        (url_origin, n') \<Rightarrow>
          if same_origin url_origin (cr_origin r) \<and> \<not> cr_origin_tainted r then (Inr TaintBasic, n')
          else (case cr_mode r of
                  ModeSameOrigin \<Rightarrow> Inl CrossOriginForbidden
                | ModeNoCors \<Rightarrow> Inr TaintOpaque
                | _ \<Rightarrow> if u_scheme (cr_url r) \<in> set [lit ''http'', lit ''https''] then Inr TaintCors else Inl UnsupportedCorsScheme, n'))"

definition validate_response :: "cors_request \<Rightarrow> tainting \<Rightarrow> cors_response \<Rightarrow> cors_error option" where
  "validate_response r taint resp = (case taint of TaintCors \<Rightarrow> cors_check r (rs_headers resp) | _ \<Rightarrow> None)"

record filtered_response =
  fr_status :: nat
  fr_headers :: "http_header list"
  fr_opaque :: bool

definition SAFE_RESPONSE_HEADERS :: "bytes list" where
  "SAFE_RESPONSE_HEADERS = map lit
     [''cache-control'', ''content-language'', ''content-length'', ''content-type'', ''expires'', ''last-modified'', ''pragma'']"

definition filter_response :: "cors_request \<Rightarrow> tainting \<Rightarrow> cors_response \<Rightarrow> filtered_response" where
  "filter_response r taint resp =
     (case taint of
        TaintOpaque \<Rightarrow> \<lparr>fr_status = 0, fr_headers = [], fr_opaque = True\<rparr>
      | TaintBasic \<Rightarrow>
          \<lparr>fr_status = rs_status resp, fr_headers = filter (\<lambda>h. \<not> is_forbidden_response_header (hh_name h)) (rs_headers resp), fr_opaque = False\<rparr>
      | TaintCors \<Rightarrow>
          (let exposed = (case extract_list (rs_headers resp) (lit ''Access-Control-Expose-Headers'') of Some l \<Rightarrow> l | None \<Rightarrow> []);
               wildcard = (cr_credentials r \<noteq> CredInclude \<and> STAR \<in> set exposed)
           in \<lparr>fr_status = rs_status resp,
               fr_headers = filter (\<lambda>h. \<not> is_forbidden_response_header (hh_name h)
                  \<and> (to_ascii_lowercase (hh_name h) \<in> set SAFE_RESPONSE_HEADERS \<or> wildcard \<or> header_listed exposed (hh_name h))) (rs_headers resp),
               fr_opaque = False\<rparr>))"

end
