(* ===== verification/Websec_Cors_Laws.thy ===== *)
theory Websec_Cors_Laws
  imports Websec_Cors "HOL-Library.Multiset"
begin

text \<open>
  What the CORS functions guarantee: which headers a preflight announces, what a grant
  covers, what the cache can hold after any sequence of preflights, and that a server which
  repeats a preflight's own words grants it.
\<close>

section \<open>Unsafe headers\<close>

definition header_safe :: "http_header \<Rightarrow> bool" where
  "header_safe h = is_safelisted_request_header (hh_name h) (hh_value h)"

definition lower_name :: "http_header \<Rightarrow> bytes" where
  "lower_name h = to_ascii_lowercase (hh_name h)"

definition safelisted_total :: "http_header list \<Rightarrow> nat" where
  "safelisted_total hs = sum_list (map (length \<circ> hh_value) (filter header_safe hs))"

lemma sat_add_min: "sat_add (min a U64_MAX) b = min (a + b) U64_MAX"
  by (simp add: sat_add_def)

lemma scan_headers_spec:
  "scan_headers hs us ps (min t U64_MAX) =
     (us @ map lower_name (filter (\<lambda>h. \<not> header_safe h) hs), ps @ map lower_name (filter header_safe hs),
      min (t + safelisted_total hs) U64_MAX)"
  by (induction hs arbitrary: us ps t)
    (simp_all add: safelisted_total_def header_safe_def lower_name_def Let_def sat_add_min add.assoc)

lemma unsafe_header_names_set:
  "set (unsafe_header_names hs) = lower_name ` {h \<in> set hs. \<not> header_safe h \<or> safelisted_total hs > SAFELIST_TOTAL_MAX}"
proof -
  have "min (safelisted_total hs) U64_MAX > SAFELIST_TOTAL_MAX \<longleftrightarrow> safelisted_total hs > SAFELIST_TOTAL_MAX"
    by (auto simp: SAFELIST_TOTAL_MAX_def U64_MAX_def)
  then show ?thesis
    unfolding unsafe_header_names_def using scan_headers_spec [of hs "[]" "[]" 0] by (auto simp: Let_def)
qed

lemma unsafe_header_names_order: "sorted (unsafe_header_names hs)" "distinct (unsafe_header_names hs)"
  unfolding unsafe_header_names_def Let_def case_prod_unfold using strict_remdups_adj [OF sorted_sort] strict_sorted_iff by blast+

text \<open>The names do not depend on the order in which a page set its headers.\<close>

lemma unsafe_header_names_perm:
  assumes "mset hs = mset hs'"
  shows "unsafe_header_names hs = unsafe_header_names hs'"
proof (rule sorted_distinct_set_unique)
  have "safelisted_total hs = safelisted_total hs'"
    using assms by (metis mset_filter mset_map safelisted_total_def sum_mset_sum_list)
  then show "set (unsafe_header_names hs) = set (unsafe_header_names hs')"
    unfolding unsafe_header_names_set using mset_eq_setD [OF assms] by simp
qed (rule unsafe_header_names_order)+

lemma simple_request_iff:
  "cors_classify r = SimpleRequest \<longleftrightarrow>
     is_safelisted_method (cr_method r) \<and> (\<forall>h \<in> set (cr_headers r). header_safe h)
     \<and> (cr_headers r = [] \<or> safelisted_total (cr_headers r) \<le> SAFELIST_TOTAL_MAX) \<and> \<not> cr_preflight_flag r"
proof -
  have "unsafe_header_names (cr_headers r) = [] \<longleftrightarrow>
      (\<forall>h \<in> set (cr_headers r). header_safe h) \<and> (cr_headers r = [] \<or> safelisted_total (cr_headers r) \<le> SAFELIST_TOTAL_MAX)"
    unfolding set_empty [symmetric] unsafe_header_names_set by (cases "cr_headers r") (auto simp: not_less)
  then show ?thesis by (auto simp: cors_classify_def Let_def)
qed

section \<open>Grants\<close>

definition star_for :: "cors_request \<Rightarrow> bytes list \<Rightarrow> bool" where
  "star_for r names \<longleftrightarrow> cr_credentials r \<noteq> CredInclude \<and> STAR \<in> set names"

definition sends_authorization :: "cors_request \<Rightarrow> bool" where
  "sends_authorization r \<longleftrightarrow> list_ex (\<lambda>h. eq_ignore_case (hh_name h) (lit ''authorization'')) (cr_headers r)"

definition grant_offered :: "cors_request \<Rightarrow> cors_response \<Rightarrow> preflight_grant" where
  "grant_offered r resp =
     \<lparr>pg_methods = (case extract_list (rs_headers resp) (lit ''Access-Control-Allow-Methods'') of
          Some l \<Rightarrow> l | None \<Rightarrow> if cr_preflight_flag r then [cr_method r] else []),
      pg_header_names = (case extract_list (rs_headers resp) (lit ''Access-Control-Allow-Headers'') of Some l \<Rightarrow> l | None \<Rightarrow> []),
      pg_max_age = preflight_max_age (rs_headers resp)\<rparr>"

definition grant_covers :: "cors_request \<Rightarrow> preflight_grant \<Rightarrow> bool" where
  "grant_covers r g \<longleftrightarrow>
     (cr_method r \<in> set (pg_methods g) \<or> is_safelisted_method (cr_method r) \<or> star_for r (pg_methods g))
     \<and> (sends_authorization r \<longrightarrow> header_listed (pg_header_names g) (lit ''authorization''))
     \<and> (\<forall>n \<in> set (unsafe_header_names (cr_headers r)). header_listed (pg_header_names g) n \<or> star_for r (pg_header_names g))"

lemma validate_preflight_iff:
  "validate_preflight r resp = Inr g \<longleftrightarrow>
     cors_check r (rs_headers resp) = None \<and> 200 \<le> rs_status resp \<and> rs_status resp < 300
     \<and> g = grant_offered r resp \<and> grant_covers r g"
proof -
  let ?g = "grant_offered r resp"
  let ?bad = "\<lambda>n. \<not> header_listed (pg_header_names ?g) n \<and> \<not> star_for r (pg_header_names ?g)"
  have v: "validate_preflight r resp =
    (case cors_check r (rs_headers resp) of
       Some e \<Rightarrow> Inl e
     | None \<Rightarrow>
        if \<not> (200 \<le> rs_status resp \<and> rs_status resp < 300) then Inl PreflightStatus
        else if cr_method r \<notin> set (pg_methods ?g) \<and> \<not> is_safelisted_method (cr_method r) \<and> \<not> star_for r (pg_methods ?g)
             then Inl MethodNotAllowed
        else if sends_authorization r \<and> \<not> header_listed (pg_header_names ?g) (lit ''authorization'')
             then Inl (HeaderNotAllowed (lit ''authorization''))
        else case find ?bad (unsafe_header_names (cr_headers r)) of Some n \<Rightarrow> Inl (HeaderNotAllowed n) | None \<Rightarrow> Inr ?g)"
    unfolding validate_preflight_def Let_def grant_offered_def star_for_def sends_authorization_def preflight_grant.simps by (rule refl)
  have "find ?bad (unsafe_header_names (cr_headers r)) = None \<longleftrightarrow>
      (\<forall>n \<in> set (unsafe_header_names (cr_headers r)). header_listed (pg_header_names ?g) n \<or> star_for r (pg_header_names ?g))"
    unfolding find_None_iff by blast
  then show ?thesis unfolding v grant_covers_def
    by (cases "find ?bad (unsafe_header_names (cr_headers r))"; cases "cors_check r (rs_headers resp)") auto
qed

lemma grant_max_age: "validate_preflight r resp = Inr g \<Longrightarrow> pg_max_age g \<le> MAX_AGE_CAP_SECS"
  by (auto simp: validate_preflight_iff grant_offered_def preflight_max_age_def)

text \<open>What the check of a response's own headers says.\<close>

definition origin_allowed :: "cors_request \<Rightarrow> http_header list \<Rightarrow> bool" where
  "origin_allowed r hs \<longleftrightarrow>
     (let acao = get_combined hs (lit ''Access-Control-Allow-Origin'')
      in cr_credentials r \<noteq> CredInclude \<and> (acao = Some STAR \<or> acao = Some (serialize_request_origin r))
         \<or> cr_credentials r = CredInclude \<and> acao = Some (serialize_request_origin r)
           \<and> get_combined hs (lit ''Access-Control-Allow-Credentials'') = Some (lit ''true''))"

lemma cors_check_None: "cors_check r hs = None \<longleftrightarrow> origin_allowed r hs"
  by (auto simp: cors_check_def origin_allowed_def Let_def split: option.splits)

section \<open>The cache\<close>

lemma refresh_first_Some: "refresh_first f c = Some c' \<Longrightarrow> set c' \<subseteq> insert f (set c) \<and> length c' = length c"
proof (induction c arbitrary: c')
  case (Cons e es)
  show ?case
  proof (cases "same_slot e f")
    case True
    then have "e\<lparr>ce_expires_at := ce_expires_at f\<rparr> = f" by (cases e; cases f) (simp add: same_slot_def)
    then show ?thesis using Cons.prems True by auto
  next
    case False
    then obtain d where "refresh_first f es = Some d" "c' = e # d" using Cons.prems by auto
    then show ?thesis using Cons.IH by auto
  qed
qed simp

lemma cache_add_keeps:
  "set (cache_add f c) \<subseteq> insert f (set c)" "length c \<le> MAX_CACHE_ENTRIES \<Longrightarrow> length (cache_add f c) \<le> MAX_CACHE_ENTRIES"
proof -
  have "set (tl c) \<subseteq> set c" by (cases c) auto
  then show "set (cache_add f c) \<subseteq> insert f (set c)"
    using refresh_first_Some [of f c] by (auto simp: cache_add_def split: option.splits)
  show "length (cache_add f c) \<le> MAX_CACHE_ENTRIES" if "length c \<le> MAX_CACHE_ENTRIES"
    using that refresh_first_Some [of f c] by (auto simp: cache_add_def MAX_CACHE_ENTRIES_def split: option.split)
qed

lemma cache_adds_keep:
  "set (fold cache_add fs c) \<subseteq> set fs \<union> set c" "length c \<le> MAX_CACHE_ENTRIES \<Longrightarrow> length (fold cache_add fs c) \<le> MAX_CACHE_ENTRIES"
proof -
  show "set (fold cache_add fs c) \<subseteq> set fs \<union> set c"
  proof (induction fs arbitrary: c)
    case (Cons f fs)
    then show ?case using cache_add_keeps(1) [of f c] by fastforce
  qed simp
  show "length c \<le> MAX_CACHE_ENTRIES \<Longrightarrow> length (fold cache_add fs c) \<le> MAX_CACHE_ENTRIES"
    by (induction fs arbitrary: c) (simp_all add: cache_add_keeps(2))
qed

lemma cache_store_keeps:
  "set (cache_store p r g now c) \<subseteq> set (grant_entries p r g now) \<union> set c"
  "length c \<le> MAX_CACHE_ENTRIES \<Longrightarrow> length (cache_store p r g now c) \<le> MAX_CACHE_ENTRIES"
proof -
  let ?c = "filter (\<lambda>e. ce_expires_at e > now) c"
  show "set (cache_store p r g now c) \<subseteq> set (grant_entries p r g now) \<union> set c"
    using cache_adds_keep(1) [of "grant_entries p r g now" ?c] by (auto simp: cache_store_def)
  show "length (cache_store p r g now c) \<le> MAX_CACHE_ENTRIES" if "length c \<le> MAX_CACHE_ENTRIES"
    using that cache_adds_keep(2) [of ?c] order_trans [OF length_filter_le that] by (simp add: cache_store_def)
qed

text \<open>A history of the cache: preflights answered at a time, and partitions forgotten.\<close>

datatype cache_event = Answered bytes cors_request cors_response nat | Forgotten bytes

definition cache_step :: "cache_event \<Rightarrow> preflight_cache \<Rightarrow> preflight_cache" where
  "cache_step ev c =
     (case ev of
        Forgotten p \<Rightarrow> forget_partition p c
      | Answered p r resp now \<Rightarrow> (case validate_preflight r resp of Inr g \<Rightarrow> cache_store p r g now c | Inl _ \<Rightarrow> c))"

definition cache_run :: "cache_event list \<Rightarrow> preflight_cache" where
  "cache_run evs = fold cache_step evs []"

text \<open>A grant given in a partition that has not been forgotten since.\<close>

definition granted_in :: "cache_event list \<Rightarrow> bytes \<Rightarrow> cors_request \<Rightarrow> preflight_grant \<Rightarrow> nat \<Rightarrow> bool" where
  "granted_in evs p r g t \<longleftrightarrow>
     (\<exists>a resp b. evs = a @ Answered p r resp t # b \<and> Forgotten p \<notin> set b \<and> validate_preflight r resp = Inr g)"

definition entry_justified :: "cache_event list \<Rightarrow> cache_entry \<Rightarrow> bool" where
  "entry_justified evs e \<longleftrightarrow> (\<exists>r g t. granted_in evs (ce_partition e) r g t \<and> e \<in> set (grant_entries (ce_partition e) r g t))"

lemma granted_in_snoc: "granted_in evs p r g t \<Longrightarrow> ev \<noteq> Forgotten p \<Longrightarrow> granted_in (evs @ [ev]) p r g t"
  unfolding granted_in_def by (elim exE conjE) (rule exI, rule exI, rule exI, auto)

lemma grant_entries_partition: "e \<in> set (grant_entries p r g t) \<Longrightarrow> ce_partition e = p"
  by (auto simp: grant_entries_def Let_def)

lemma entry_justified_snoc: "entry_justified evs e \<Longrightarrow> ev \<noteq> Forgotten (ce_partition e) \<Longrightarrow> entry_justified (evs @ [ev]) e"
  unfolding entry_justified_def using granted_in_snoc by blast

lemma cache_run_justified:
  "length (cache_run evs) \<le> MAX_CACHE_ENTRIES \<and> (\<forall>e \<in> set (cache_run evs). entry_justified evs e)"
proof (induction evs rule: rev_induct)
  case Nil
  then show ?case by (simp add: cache_run_def)
next
  case (snoc ev evs)
  let ?c = "cache_run evs"
  have run: "cache_run (evs @ [ev]) = cache_step ev ?c" by (simp add: cache_run_def)
  show ?case
  proof (cases ev)
    case (Forgotten p)
    then show ?thesis
      using snoc run by (auto simp: cache_step_def forget_partition_def intro: entry_justified_snoc order_trans [OF length_filter_le])
  next
    case (Answered p r resp now)
    have old: "entry_justified (evs @ [ev]) e" if "e \<in> set ?c" for e
      using that snoc Answered by (auto intro: entry_justified_snoc)
    show ?thesis
    proof (cases "validate_preflight r resp")
      case (Inl x)
      then show ?thesis using snoc old run Answered by (simp add: cache_step_def)
    next
      case (Inr g)
      have "granted_in (evs @ [ev]) p r g now" unfolding granted_in_def using Answered Inr by (intro exI [of _ evs] exI [of _ resp] exI [of _ "[]"]) simp
      then have new: "entry_justified (evs @ [ev]) e" if "e \<in> set (grant_entries p r g now)" for e
        using that grant_entries_partition [OF that] by (auto simp: entry_justified_def)
      show ?thesis
        using snoc old new run Answered Inr cache_store_keeps(1) [of p r g now ?c] cache_store_keeps(2) [of ?c p r g now] by (auto simp: cache_step_def)
    qed
  qed
qed

text \<open>The part of a request that a live grant speaks for.\<close>

definition live_grant :: "cache_event list \<Rightarrow> bytes \<Rightarrow> cors_request \<Rightarrow> nat \<Rightarrow> preflight_grant \<Rightarrow> bool" where
  "live_grant evs p r now g \<longleftrightarrow>
     (\<exists>r' t. granted_in evs p r' g t \<and> cr_origin r' = cr_origin r
        \<and> url_serialize (cr_url r') True = url_serialize (cr_url r) True
        \<and> (cr_credentials r = CredInclude \<longrightarrow> cr_credentials r' = CredInclude)
        \<and> now < t + pg_max_age g \<and> pg_max_age g \<le> MAX_AGE_CAP_SECS)"

lemma live_entry:
  assumes "e \<in> set (cache_run evs)" "base_match e p r now"
  obtains g where "live_grant evs p r now g"
    "\<And>m. ce_method e = Some m \<Longrightarrow> m \<in> set (pg_methods g)" "\<And>h. ce_header e = Some h \<Longrightarrow> h \<in> to_ascii_lowercase ` set (pg_header_names g)"
proof -
  have part: "ce_partition e = p" using assms(2) by (simp add: base_match_def)
  obtain r' g t where g: "granted_in evs p r' g t" "e \<in> set (grant_entries p r' g t)"
    using cache_run_justified [of evs] assms(1) part by (auto simp: entry_justified_def)
  have f: "ce_origin e = cr_origin r'" "ce_url e = url_serialize (cr_url r') True" "ce_credentials e = (cr_credentials r' = CredInclude)"
      "ce_expires_at e = sat_add t (pg_max_age g)" "\<And>m. ce_method e = Some m \<Longrightarrow> m \<in> set (pg_methods g)"
      "\<And>h. ce_header e = Some h \<Longrightarrow> h \<in> to_ascii_lowercase ` set (pg_header_names g)"
    using g(2) by (auto simp: grant_entries_def Let_def)
  have "pg_max_age g \<le> MAX_AGE_CAP_SECS" using g(1) grant_max_age by (auto simp: granted_in_def)
  moreover have "now < t + pg_max_age g" using assms(2) f(4) by (auto simp: base_match_def sat_add_def)
  ultimately have "live_grant evs p r now g"
    unfolding live_grant_def using g(1) f assms(2) by (auto simp: base_match_def intro!: exI [of _ r'] exI [of _ t])
  then show thesis using that f(5,6) by blast
qed

lemma lower_star: "to_ascii_lowercase i = STAR \<Longrightarrow> i = STAR"
proof -
  assume "to_ascii_lowercase i = STAR"
  then obtain b where b: "i = [b]" "lower_byte b = 0x2A" by (auto simp: to_ascii_lowercase_def)
  have "b \<noteq> 0x2A \<Longrightarrow> \<not> (0x41 \<le> b \<and> b \<le> 0x5A)" using b(2) by (auto simp: lower_byte_def word_le_nat_alt)
  then show ?thesis using b by (auto simp: lower_byte_def split: if_splits)
qed

lemma header_hit_listed:
  assumes "h \<in> to_ascii_lowercase ` set names"
  shows "header_listed names h" "h = STAR \<Longrightarrow> STAR \<in> set names"
proof -
  from assms obtain i where i: "i \<in> set names" "h = to_ascii_lowercase i" by blast
  then show "header_listed names h" by (auto simp: header_listed_def list_ex_iff eq_ignore_case_def)
  show "STAR \<in> set names" if "h = STAR" using i lower_star [of i] that by simp
qed

lemma cache_covers_granted:
  assumes "cache_covers (cache_run evs) p r now"
  shows "is_safelisted_method (cr_method r) \<and> \<not> cr_preflight_flag r
      \<or> (\<exists>g. live_grant evs p r now g \<and> (cr_method r \<in> set (pg_methods g) \<or> star_for r (pg_methods g)))"
    "n \<in> set (unsafe_header_names (cr_headers r)) \<or> sends_authorization r \<and> n = lit ''authorization'' \<Longrightarrow>
      \<exists>g. live_grant evs p r now g
        \<and> (header_listed (pg_header_names g) n \<or> n \<noteq> lit ''authorization'' \<and> star_for r (pg_header_names g))"
proof -
  let ?live = "filter (\<lambda>e. base_match e p r now) (cache_run evs)"
  let ?m = "\<lambda>e. case ce_method e of Some m \<Rightarrow> m = cr_method r \<or> m = STAR \<and> cr_credentials r \<noteq> CredInclude | None \<Rightarrow> False"
  let ?h = "\<lambda>n e. case ce_header e of
      Some h \<Rightarrow> h = n \<or> h = STAR \<and> cr_credentials r \<noteq> CredInclude \<and> n \<noteq> lit ''authorization'' | None \<Rightarrow> False"
  have c: "list_ex ?m ?live \<or> is_safelisted_method (cr_method r) \<and> \<not> cr_preflight_flag r"
      "sends_authorization r \<Longrightarrow> list_ex (?h (lit ''authorization'')) ?live"
      "\<And>n. n \<in> set (unsafe_header_names (cr_headers r)) \<Longrightarrow> list_ex (?h n) ?live"
    using assms unfolding cache_covers_def Let_def sends_authorization_def [symmetric] list_all_iff by (auto split: if_splits)
  have m: "\<exists>g. live_grant evs p r now g \<and> (cr_method r \<in> set (pg_methods g) \<or> star_for r (pg_methods g))" if "list_ex ?m ?live"
  proof -
    from that obtain e m where e: "e \<in> set (cache_run evs)" "base_match e p r now" "ce_method e = Some m"
      "m = cr_method r \<or> m = STAR \<and> cr_credentials r \<noteq> CredInclude" by (auto simp: list_ex_iff split: option.splits)
    show ?thesis using live_entry [OF e(1,2)] e(3,4) unfolding star_for_def by metis
  qed
  show "is_safelisted_method (cr_method r) \<and> \<not> cr_preflight_flag r
      \<or> (\<exists>g. live_grant evs p r now g \<and> (cr_method r \<in> set (pg_methods g) \<or> star_for r (pg_methods g)))" using c(1) m by blast
  assume "n \<in> set (unsafe_header_names (cr_headers r)) \<or> sends_authorization r \<and> n = lit ''authorization''"
  then have "list_ex (?h n) ?live" using c(2,3) by blast
  then obtain e h where e: "e \<in> set (cache_run evs)" "base_match e p r now" "ce_header e = Some h"
      "h = n \<or> h = STAR \<and> cr_credentials r \<noteq> CredInclude \<and> n \<noteq> lit ''authorization''" by (auto simp: list_ex_iff split: option.splits)
  from live_entry [OF e(1,2)] e(3) obtain g where "live_grant evs p r now g" "h \<in> to_ascii_lowercase ` set (pg_header_names g)"
    by metis
  then show "\<exists>g. live_grant evs p r now g
      \<and> (header_listed (pg_header_names g) n \<or> n \<noteq> lit ''authorization'' \<and> star_for r (pg_header_names g))"
    using header_hit_listed e(4) unfolding star_for_def by metis
qed

end
