(* ===== verification/Websec_Cors_Echo.thy ===== *)
theory Websec_Cors_Echo
  imports Websec_Cors_Laws
begin

text \<open>
  The preflight as the other side sees it: the names it announces are read back by the list
  parser, and a server that answers with what it was asked is granted.
\<close>

section \<open>Lists of tokens\<close>

definition token_text :: "bytes \<Rightarrow> bool" where
  "token_text s \<longleftrightarrow> s \<noteq> [] \<and> list_all is_http_token_byte s"

lemma token_byte:
  assumes "is_http_token_byte b"
  shows "b < 0x80" "b \<noteq> 0x2C" "b \<noteq> 0x22" "\<not> http_ws b"
proof -
  have "33 \<le> unat b \<and> unat b < 128 \<and> unat b \<noteq> 44 \<and> unat b \<noteq> 34"
    using assms by (auto simp: is_http_token_byte_def web_alphanumeric_def digit_def word_le_nat_alt lit_def split: if_splits)
  then show "b < 0x80" "b \<noteq> 0x2C" "b \<noteq> 0x22" "\<not> http_ws b" by (auto simp: word_less_nat_alt http_ws_def)
qed

lemma token_lower: "token_text s \<Longrightarrow> token_text (to_ascii_lowercase s)"
proof -
  have "is_http_token_byte (lower_byte b)" if "is_http_token_byte b" for b
    using that lower_alpha [of b] by (auto simp: is_http_token_byte_def web_alphanumeric_def lower_byte_def)
  then show "token_text s \<Longrightarrow> token_text (to_ascii_lowercase s)"
    by (auto simp: token_text_def to_ascii_lowercase_def list_all_iff)
qed

lemma trim_where_id: "(s \<noteq> [] \<Longrightarrow> \<not> p (hd s) \<and> \<not> p (last s)) \<Longrightarrow> trim_where p s = s"
proof -
  assume e: "s \<noteq> [] \<Longrightarrow> \<not> p (hd s) \<and> \<not> p (last s)"
  have "dropWhile p s = s" using e by (cases s) simp_all
  moreover have "dropWhile p (rev s) = rev s" using e by (cases s rule: rev_cases) simp_all
  ultimately show ?thesis by (simp add: trim_where_def)
qed

lemma token_plain:
  assumes "token_text s"
  shows "trim_http_ws s = s" "utf8_lossy s = s" "\<forall>b \<in> set s. b \<noteq> 0x22 \<and> b \<noteq> 0x2C"
proof -
  have t: "s \<noteq> []" "\<And>b. b \<in> set s \<Longrightarrow> is_http_token_byte b" using assms by (auto simp: token_text_def list_all_iff)
  show "trim_http_ws s = s"
    unfolding trim_http_ws_def using token_byte(4) t hd_in_set last_in_set by (intro trim_where_id) blast
  show "utf8_lossy s = s" using token_byte(1) t by (intro utf8_lossy_ascii) (simp add: is_ascii_def)
  show "\<forall>b \<in> set s. b \<noteq> 0x22 \<and> b \<noteq> 0x2C" using token_byte t by blast
qed

lemma split_list_from_plain:
  assumes "\<forall>b \<in> set s. b \<noteq> 0x22 \<and> b \<noteq> 0x2C"
  shows "split_list_from s cur False False = [utf8_lossy (trim_http_ws (cur @ s))]"
    "split_list_from (s @ 0x2C # t) cur False False = utf8_lossy (trim_http_ws (cur @ s)) # split_list_from t [] False False"
  using assms by (induction s arbitrary: cur) simp_all

lemma split_list_tokens: "ns \<noteq> [] \<Longrightarrow> \<forall>n \<in> set ns. token_text n \<Longrightarrow> split_list (str_join 0x2C ns) = ns"
proof (induction ns rule: list_nonempty_induct)
  case (single n)
  then show ?case using token_plain [of n] by (simp add: split_list_def split_list_from_plain)
next
  case (cons n ns)
  then show ?case using token_plain [of n] split_list_from_plain(2) [of n "str_join 0x2C ns" "[]"]
    by (simp add: split_list_def str_join_Cons)
qed

lemma token_ends: "token_text s \<Longrightarrow> \<not> http_ws (hd s) \<and> \<not> http_ws (last s)"
  using token_byte(4) hd_in_set last_in_set unfolding token_text_def list_all_iff by blast

lemma join_tokens_ends:
  "ns \<noteq> [] \<Longrightarrow> \<forall>n \<in> set ns. token_text n \<Longrightarrow>
     str_join b ns \<noteq> [] \<and> \<not> http_ws (hd (str_join b ns)) \<and> \<not> http_ws (last (str_join b ns))"
proof (induction ns rule: list_nonempty_induct)
  case (single n)
  then show ?case using token_ends [of n] by (simp add: token_text_def)
next
  case (cons n ns)
  have "n \<noteq> []" using cons.prems by (simp add: token_text_def)
  then show ?case using cons token_ends [of n] by (simp add: str_join_Cons)
qed

lemma join_tokens_trim:
  assumes "\<forall>n \<in> set ns. token_text n"
  shows "trim_http_ws (str_join 0x2C ns) = str_join 0x2C ns"
proof (cases "ns = []")
  case False
  show ?thesis unfolding trim_http_ws_def using join_tokens_ends [OF False assms] by (intro trim_where_id) blast
qed (simp add: trim_http_ws_def trim_where_def)

section \<open>The text of an origin\<close>

lemma host_text_visible:
  assumes "host_ok h" "network_host h" "c \<in> set (host_serialize h)"
  shows "\<not> c \<le> 0x20"
proof (cases h)
  case (Domain d)
  then show ?thesis using assms by (auto simp: host_ok_def host_serialize_def list_ex_iff forbidden_host_cp_def)
next
  case (Ipv4 w x y z)
  then have "unat c = 46 \<or> 48 \<le> unat c \<and> unat c \<le> 57" using assms(3) ipv4_byte_range by (simp add: host_serialize_def)
  then show ?thesis by (auto simp: word_le_nat_alt)
next
  case (Ipv6 p)
  then have "c = 0x5B \<or> c = 0x5D \<or> c = COLON \<or> hex_digit c \<noteq> None"
    using assms serialize_ipv6_chars [of p c] by (auto simp: host_serialize_def host_ok_def)
  then show ?thesis by (auto simp: hex_digit_def digit_def word_le_nat_alt split: if_splits)
qed (use assms(2) in \<open>simp_all add: network_host_def plain_host_def\<close>)

lemma origin_text_trim:
  assumes "net_url v"
  shows "trim_http_ws (origin_serialize (fst (origin_from_url v n))) = origin_serialize (fst (origin_from_url v n))"
proof -
  have ok: "url_ok v" "is_special v" "u_scheme v \<noteq> lit ''file''"
    using assms by (auto simp: net_url_def is_special_def is_special_scheme_def lit_def)
  obtain h where h: "u_host v = Some h" "\<And>n. origin_from_url v n = (TupleOrigin (u_scheme v) h (u_port v), n)"
    using net_url_origin [OF assms] by metis
  have hk: "host_ok h" "network_host h" using net_host [OF ok] h(1) ok(1) by (auto simp: url_ok_def)
  have port: "\<not> c \<le> 0x20" if "c \<in> set (show_dec k)" for c k
    using that show_dec_digit [of k] digit_unat [of c] by (auto simp: list_all_iff word_le_nat_alt)
  have "\<forall>c \<in> set (u_scheme v). \<not> c \<le> 0x20"
    using ok(1) scheme_char_avoids by (auto simp: url_ok_def scheme_ok_def list_all_iff)
  then have "\<not> c \<le> 0x20" if "c \<in> set (origin_serialize (fst (origin_from_url v n)))" for c
    using that h(2) host_text_visible [OF hk] port by (auto simp: origin_serialize_def split: option.splits)
  moreover have "\<not> c \<le> 0x20 \<Longrightarrow> \<not> http_ws c" for c by (auto simp: http_ws_def)
  ultimately show ?thesis unfolding trim_http_ws_def using hd_in_set last_in_set by (intro trim_where_id) blast
qed

section \<open>A server that repeats the preflight\<close>

definition echo_server :: "preflight_req \<Rightarrow> cors_response" where
  "echo_server p =
     \<lparr>rs_status = 204,
      rs_headers =
        [header_new (lit ''Access-Control-Allow-Origin'') (pf_origin_header p),
         header_new (lit ''Access-Control-Allow-Credentials'') (lit ''true'')]
        @ (case get_combined (pf_headers p) (lit ''Access-Control-Request-Method'') of
             Some m \<Rightarrow> [header_new (lit ''Access-Control-Allow-Methods'') m] | None \<Rightarrow> [])
        @ (case get_combined (pf_headers p) (lit ''Access-Control-Request-Headers'') of
             Some hs \<Rightarrow> [header_new (lit ''Access-Control-Allow-Headers'') hs] | None \<Rightarrow> [])\<rparr>"

lemma header_names_differ:
  "\<not> eq_ignore_case (lit ''Accept'') (lit ''Access-Control-Request-Method'')"
  "\<not> eq_ignore_case (lit ''Accept'') (lit ''Access-Control-Request-Headers'')"
  "\<not> eq_ignore_case (lit ''Access-Control-Request-Method'') (lit ''Access-Control-Request-Headers'')"
  "\<not> eq_ignore_case (lit ''Access-Control-Request-Headers'') (lit ''Access-Control-Request-Method'')"
  "\<not> eq_ignore_case (lit ''Access-Control-Allow-Origin'') (lit ''Access-Control-Allow-Credentials'')"
  "\<not> eq_ignore_case (lit ''Access-Control-Allow-Origin'') (lit ''Access-Control-Allow-Methods'')"
  "\<not> eq_ignore_case (lit ''Access-Control-Allow-Origin'') (lit ''Access-Control-Allow-Headers'')"
  "\<not> eq_ignore_case (lit ''Access-Control-Allow-Credentials'') (lit ''Access-Control-Allow-Origin'')"
  "\<not> eq_ignore_case (lit ''Access-Control-Allow-Credentials'') (lit ''Access-Control-Allow-Methods'')"
  "\<not> eq_ignore_case (lit ''Access-Control-Allow-Credentials'') (lit ''Access-Control-Allow-Headers'')"
  "\<not> eq_ignore_case (lit ''Access-Control-Allow-Methods'') (lit ''Access-Control-Allow-Origin'')"
  "\<not> eq_ignore_case (lit ''Access-Control-Allow-Methods'') (lit ''Access-Control-Allow-Credentials'')"
  "\<not> eq_ignore_case (lit ''Access-Control-Allow-Methods'') (lit ''Access-Control-Allow-Headers'')"
  "\<not> eq_ignore_case (lit ''Access-Control-Allow-Headers'') (lit ''Access-Control-Allow-Origin'')"
  "\<not> eq_ignore_case (lit ''Access-Control-Allow-Headers'') (lit ''Access-Control-Allow-Credentials'')"
  "\<not> eq_ignore_case (lit ''Access-Control-Allow-Headers'') (lit ''Access-Control-Allow-Methods'')"
  by code_simp+

lemma eq_ignore_case_refl [simp]: "eq_ignore_case s s"
  by (simp add: eq_ignore_case_def)

lemma header_listed_mem: "n \<in> set ns \<Longrightarrow> header_listed ns n"
  unfolding header_listed_def list_ex_iff using eq_ignore_case_refl by blast

lemma get_combined_Nil [simp]: "get_combined [] n = None"
  by (simp add: get_combined_def)

lemma get_combined_skip: "\<not> eq_ignore_case m n \<Longrightarrow> get_combined (header_new m v # hs) n = get_combined hs n"
  by (simp add: get_combined_def header_new_def)

lemma get_combined_hit: "get_combined hs n = None \<Longrightarrow> get_combined (header_new n v # hs) n = Some (trim_http_ws v)"
  by (simp add: get_combined_def header_new_def Let_def split: if_splits)

lemmas header_lookup = get_combined_skip get_combined_hit header_names_differ

definition asked_names :: "bytes list \<Rightarrow> bytes option" where
  "asked_names ns = (if ns = [] then None else Some (str_join 0x2C ns))"

lemma preflight_words:
  assumes "token_text (cr_method r)" "\<forall>h \<in> set (cr_headers r). token_text (hh_name h)"
  shows "get_combined (pf_headers (preflight_request r)) (lit ''Access-Control-Request-Method'') = Some (cr_method r)"
    "get_combined (pf_headers (preflight_request r)) (lit ''Access-Control-Request-Headers'') = asked_names (unsafe_header_names (cr_headers r))"
proof -
  have "\<forall>n \<in> set (unsafe_header_names (cr_headers r)). token_text n"
    using assms(2) token_lower unfolding unsafe_header_names_set lower_name_def by blast
  then have t: "trim_http_ws (str_join 0x2C (unsafe_header_names (cr_headers r))) = str_join 0x2C (unsafe_header_names (cr_headers r))"
    by (rule join_tokens_trim)
  show "get_combined (pf_headers (preflight_request r)) (lit ''Access-Control-Request-Method'') = Some (cr_method r)"
    by (simp add: preflight_request_def Let_def header_lookup token_plain(1) [OF assms(1)])
  show "get_combined (pf_headers (preflight_request r)) (lit ''Access-Control-Request-Headers'') = asked_names (unsafe_header_names (cr_headers r))"
    by (simp add: preflight_request_def Let_def header_lookup asked_names_def t)
qed

lemma echo_granted:
  assumes "net_url v" "cr_origin r = fst (origin_from_url v k)"
    and m: "token_text (cr_method r)" and hs: "\<forall>h \<in> set (cr_headers r). token_text (hh_name h)"
  shows "\<exists>g. validate_preflight r (echo_server (preflight_request r)) = Inr g \<and> pg_methods g = [cr_method r]
    \<and> pg_header_names g = unsafe_header_names (cr_headers r)"
proof -
  let ?ns = "unsafe_header_names (cr_headers r)" and ?resp = "echo_server (preflight_request r)"
  have tok: "\<forall>n \<in> set ?ns. token_text n" using hs token_lower unfolding unsafe_header_names_set lower_name_def by blast
  have o: "trim_http_ws (serialize_request_origin r) = serialize_request_origin r"
    using origin_text_trim [OF assms(1)] assms(2) by (simp add: serialize_request_origin_def)
  have f: "pf_origin_header (preflight_request r) = serialize_request_origin r" by (simp add: preflight_request_def Let_def)
  have tr: "trim_http_ws (lit ''true'') = lit ''true''" by code_simp
  note words = preflight_words [OF m hs] f
  have origin: "get_combined (rs_headers ?resp) (lit ''Access-Control-Allow-Origin'') = Some (serialize_request_origin r)"
      "get_combined (rs_headers ?resp) (lit ''Access-Control-Allow-Credentials'') = Some (lit ''true'')"
    unfolding echo_server_def words by (cases "?ns = []"; simp add: header_lookup asked_names_def o tr)+
  have lists: "extract_list (rs_headers ?resp) (lit ''Access-Control-Allow-Methods'') = Some [cr_method r]"
      "(case extract_list (rs_headers ?resp) (lit ''Access-Control-Allow-Headers'') of Some l \<Rightarrow> l | None \<Rightarrow> []) = ?ns"
    unfolding echo_server_def words extract_list_def
    using split_list_tokens [of "[cr_method r]"] m split_list_tokens [OF _ tok] join_tokens_trim [OF tok] token_plain(1) [OF m]
    by (cases "?ns = []"; simp add: header_lookup asked_names_def)+
  let ?g = "grant_offered r ?resp"
  have g: "pg_methods ?g = [cr_method r]" "pg_header_names ?g = ?ns" using lists by (simp_all add: grant_offered_def)
  have "lit ''authorization'' \<in> set ?ns" if "sends_authorization r"
  proof -
    from that obtain h where h: "h \<in> set (cr_headers r)" "to_ascii_lowercase (hh_name h) = to_ascii_lowercase (lit ''authorization'')"
      by (auto simp: sends_authorization_def list_ex_iff eq_ignore_case_def)
    have a: "to_ascii_lowercase (lit ''authorization'') = lit ''authorization''" by code_simp
    have "\<not> header_safe h"
      using h(2) unfolding a by (simp add: header_safe_def is_safelisted_request_header_def Let_def lit_def)
    then show ?thesis unfolding unsafe_header_names_set using h a by (force simp: lower_name_def)
  qed
  then have "grant_covers r ?g" unfolding grant_covers_def g using header_listed_mem by auto
  moreover have "cors_check r (rs_headers ?resp) = None"
    using origin unfolding cors_check_None origin_allowed_def by (simp add: Let_def)
  moreover have "rs_status ?resp = 204" by (simp add: echo_server_def)
  ultimately have "validate_preflight r ?resp = Inr ?g" unfolding validate_preflight_iff by simp
  then show ?thesis using g by blast
qed

end
