(* ===== verification/Websec_Properties.thy ===== *)
theory Websec_Properties
  imports Websec_Cors_Echo
begin

text \<open>
  The properties of the policy crate: what the URL parser returns, that serialising and
  parsing again gives the same URL, how origins are told apart, what a secure page may load,
  and what the CORS protocol lets a page send and read.
\<close>

section \<open>URLs\<close>

text \<open>
  C26: every URL the parser returns is well-formed: a lower-case scheme; a host of the kind
  the scheme calls for and without forbidden characters, which under a special scheme is lower
  case and empty only for \<open>file:\<close>; no default port; user info, path and query free of the delimiters that end them;
  a network URL has an absolute path without backslashes.
\<close>

theorem parsed_url_well_formed:
  assumes "url_parse input = Some u"
  shows "url_ok u"
  using assms by (rule url_parse_ok)

definition sample_url_text :: bytes where "sample_url_text = lit '' HTTPS://Me:pw@Ex.Com'' @ [0x5C] @ lit ''a?q#f''"

definition sample_url :: url where
  "sample_url = \<lparr>u_scheme = lit ''https'', u_username = lit ''Me'', u_password = lit ''pw'', u_host = Some (Domain (lit ''ex.com'')),
     u_port = None, u_path = lit ''/a'', u_query = Some (lit ''q''), u_fragment = Some (lit ''f'')\<rparr>"

lemma sample_url_parses: "url_parse sample_url_text = Some sample_url"
  by code_simp

theorem parsed_url_well_formed_witness: "url_parse sample_url_text = Some sample_url \<and> url_ok sample_url"
  using parsed_url_well_formed [OF sample_url_parses] sample_url_parses by simp

text \<open>
  C27: a parsed URL of a network scheme, written out and parsed again, is the same URL,
  credentials, host (a domain, an IPv4 address or a compressed IPv6 address), port, query
  and fragment included, as long as the text stays within the size limit.
\<close>

theorem url_round_trip:
  assumes "url_parse input = Some u" "u_scheme u \<in> set [lit ''http'', lit ''https'', lit ''ws'', lit ''wss'', lit ''ftp'']"
    and "length (url_serialize u False) \<le> MAX_URL_BYTES"
  shows "url_parse (url_serialize u False) = Some u"
proof -
  have "is_special u" "u_scheme u \<noteq> lit ''file''" using assms(2) by (auto simp: is_special_def is_special_scheme_def lit_def)
  then show ?thesis using assms url_parse_ok url_parse_visible by (intro serialize_reads_back) blast+
qed

theorem url_round_trip_witness:
  "url_parse sample_url_text = Some sample_url \<and> url_parse (url_serialize sample_url False) = Some sample_url"
proof -
  have "u_scheme sample_url \<in> set [lit ''http'', lit ''https'', lit ''ws'', lit ''wss'', lit ''ftp'']"
    by (simp add: sample_url_def)
  moreover have "length (url_serialize sample_url False) \<le> MAX_URL_BYTES" by code_simp
  ultimately show ?thesis using url_round_trip [OF sample_url_parses] sample_url_parses by blast
qed

text \<open>
  A relative \<open>file:\<close> URL does not read back: its serialisation puts two slashes before the
  path, and the first segment becomes the host.
\<close>

lemma file_path_becomes_host:
  "map_option u_host (url_parse (lit ''file:etc/x'')) = Some (Some EmptyHost)
   \<and> map_option (\<lambda>u. map_option u_host (url_parse (url_serialize u False))) (url_parse (lit ''file:etc/x''))
       = Some (Some (Some (Domain (lit ''etc''))))"
  by code_simp

section \<open>Origins\<close>

text \<open>
  Two network URLs are same-origin exactly when scheme, host and port agree, whatever else
  they carry.
\<close>

lemma network_same_origin:
  assumes "url_parse s = Some u" "url_parse t = Some v" "is_special u" "is_special v"
    "u_scheme u \<noteq> lit ''file''" "u_scheme v \<noteq> lit ''file''"
  shows "same_origin (fst (origin_from_url u n)) (fst (origin_from_url v k)) \<longleftrightarrow>
    u_scheme u = u_scheme v \<and> u_host u = u_host v \<and> u_port u = u_port v"
proof -
  obtain h where "u_host u = Some h" "origin_from_url u n = (TupleOrigin (u_scheme u) h (u_port u), n)"
    using origin_from_url_net [OF url_parse_ok [OF assms(1)] assms(3,5)] by blast
  moreover obtain g where "u_host v = Some g" "origin_from_url v k = (TupleOrigin (u_scheme v) g (u_port v), k)"
    using origin_from_url_net [OF url_parse_ok [OF assms(2)] assms(4,6)] by blast
  ultimately show ?thesis by (simp add: same_origin_def)
qed

text \<open>Opaque origins derived one after the other are pairwise different.\<close>

lemma opaque_origins_unique:
  "n + length us \<le> U64_MAX \<Longrightarrow> distinct (filter is_opaque (derive_all us n))"
  using derive_all_opaque by blast

section \<open>Mixed content\<close>

text \<open>
  C28: a page that prohibits mixed content loads only potentially trustworthy URLs.  A request
  that is let through as it is has such a URL; one that is rewritten is an image, audio or
  video request, and the new URL is well-formed, \<open>https\<close>, the same but for scheme and port,
  and passes the check made again on the response; every other request is blocked.
\<close>

theorem mixed_content_stays_out:
  assumes "url_parse input = Some u" "prohibits_mixed c" "mixed_check_request c k u n = (verdict, n')"
  shows "case verdict of
      MixedAllow \<Rightarrow> fst (is_url_potentially_trustworthy u n)
    | MixedUpgrade v \<Rightarrow> url_ok v \<and> u_scheme v = lit ''https'' \<and> u_host v = u_host u \<and> u_path v = u_path u \<and> u_query v = u_query u
        \<and> mixed_category_of k = OptionallyBlockable \<and> (\<forall>n. mixed_check_response c v n = (MixedAllow, n))
    | MixedBlock \<Rightarrow> \<not> fst (is_url_potentially_trustworthy u n)"
  using assms(2,3)
proof (cases rule: mixed_request_cases)
  case (upgrade v)
  have v: "url_ok v" "u_scheme v = lit ''https''"
    using upgraded_url_ok [OF url_parse_ok [OF assms(1)] upgrade(2)] upgraded_scheme [OF upgrade(2)] by simp_all
  moreover have "u_host v = u_host u" "u_path v = u_path u" "u_query v = u_query u"
    using upgrade(2) by (auto simp: upgraded_to_https_def split: if_splits)
  moreover have "mixed_check_response c v n = (MixedAllow, n)" for n
    using https_trustworthy [OF v] assms(2) by (simp add: mixed_check_response_def)
  ultimately show ?thesis using upgrade(1,3) by simp
qed simp_all

definition sample_secure_page :: mixed_context where
  "sample_secure_page =
     \<lparr>mx_document = \<lparr>cn_url = sample_url, cn_origin = TupleOrigin (lit ''https'') (Domain (lit ''ex.com'')) None\<rparr>, mx_ancestors = []\<rparr>"

theorem mixed_content_stays_out_witness:
  "\<exists>u v. url_parse (lit ''http://a.b/i'') = Some u \<and> mixed_check_request sample_secure_page KImage u 0 = (MixedUpgrade v, 0)
     \<and> mixed_check_response sample_secure_page v 0 = (MixedAllow, 0)"
proof -
  let ?u = "\<lparr>u_scheme = lit ''http'', u_username = [], u_password = [], u_host = Some (Domain (lit ''a.b'')),
     u_port = None, u_path = lit ''/i'', u_query = None, u_fragment = None\<rparr>"
  have u: "url_parse (lit ''http://a.b/i'') = Some ?u" by code_simp
  have p: "prohibits_mixed sample_secure_page" by code_simp
  have r: "mixed_check_request sample_secure_page KImage ?u 0 = (MixedUpgrade (?u\<lparr>u_scheme := lit ''https''\<rparr>), 0)" by code_simp
  show ?thesis using u r mixed_content_stays_out [OF u p r] by auto
qed

section \<open>Cross-origin requests\<close>

text \<open>
  C29: a preflight is skipped only on the strength of grants.  After any history of answered
  preflights and forgotten partitions the cache holds at most 512 entries, and if it covers a
  request, then the method is one that needs no grant or a preflight of the same partition,
  origin and URL, answered since the partition was last forgotten and not more than two hours
  ago, granted it; so it is for every header that needs a grant, a wildcard never counting for
  a request with credentials nor for \<open>authorization\<close>.
\<close>

theorem preflight_cache_grants:
  "length (cache_run evs) \<le> MAX_CACHE_ENTRIES
   \<and> (cache_covers (cache_run evs) p r now \<longrightarrow>
       (is_safelisted_method (cr_method r) \<and> \<not> cr_preflight_flag r
        \<or> (\<exists>g. live_grant evs p r now g \<and> (cr_method r \<in> set (pg_methods g) \<or> star_for r (pg_methods g))))
       \<and> (\<forall>n. n \<in> set (unsafe_header_names (cr_headers r)) \<or> sends_authorization r \<and> n = lit ''authorization'' \<longrightarrow>
            (\<exists>g. live_grant evs p r now g
               \<and> (header_listed (pg_header_names g) n \<or> n \<noteq> lit ''authorization'' \<and> star_for r (pg_header_names g)))))"
  using cache_run_justified [of evs] cache_covers_granted [of evs p r now] by blast

definition sample_put :: cors_request where
  "sample_put = \<lparr>cr_method = lit ''PUT'', cr_url = sample_url, cr_origin = TupleOrigin (lit ''https'') (Domain (lit ''a.b'')) None,
     cr_headers = [], cr_credentials = CredOmit, cr_mode = ModeCors, cr_preflight_flag = False, cr_origin_tainted = False\<rparr>"

definition sample_answer :: cors_response where
  "sample_answer = \<lparr>rs_status = 200, rs_headers =
     [header_new (lit ''Access-Control-Allow-Origin'') STAR, header_new (lit ''Access-Control-Allow-Methods'') (lit ''PUT'')]\<rparr>"

lemma sample_answer_granted:
  "validate_preflight sample_put sample_answer = Inr \<lparr>pg_methods = [lit ''PUT''], pg_header_names = [], pg_max_age = 5\<rparr>"
  by code_simp

theorem preflight_cache_grants_witness:
  "cache_covers (cache_run [Answered [] sample_put sample_answer 100]) [] sample_put 103
   \<and> (\<exists>g. live_grant [Answered [] sample_put sample_answer 100] [] sample_put 103 g)"
proof -
  let ?evs = "[Answered [] sample_put sample_answer 100]"
  let ?e = "\<lparr>ce_partition = [], ce_origin = cr_origin sample_put, ce_url = url_serialize (cr_url sample_put) True,
     ce_credentials = False, ce_method = Some (lit ''PUT''), ce_header = None, ce_expires_at = 105\<rparr>"
  have "cr_credentials sample_put = CredOmit" by (simp add: sample_put_def)
  then have "cache_run ?evs = [?e]"
    by (simp add: cache_run_def cache_step_def sample_answer_granted cache_store_def grant_entries_def cache_add_def
        MAX_CACHE_ENTRIES_def sat_add_def U64_MAX_def)
  then have c: "cache_covers (cache_run ?evs) [] sample_put 103"
    by (simp add: cache_covers_def base_match_def unsafe_header_names_def SAFELIST_TOTAL_MAX_def sample_put_def)
  moreover have "\<not> is_safelisted_method (cr_method sample_put)" by code_simp
  ultimately show ?thesis using preflight_cache_grants [of ?evs "[]" sample_put 103] by blast
qed

text \<open>
  C30: what a script reads of a cross-origin response, the server let it read.  A header shows
  only if it is not a cookie header, and, unless page and resource share an origin and no
  redirect crossed origins, only if the response allows the page's origin (by name when
  credentials were sent) and the header is always visible or exposed by the server.
\<close>

theorem cross_origin_read_needs_consent:
  assumes "cors_taint r n = (Inr t, n')" "cr_mode r \<noteq> ModeNavigate" "u_scheme (cr_url r) \<noteq> lit ''data''"
    and "validate_response r t resp = None" "h \<in> set (fr_headers (filter_response r t resp))"
  shows "h \<in> set (rs_headers resp) \<and> \<not> is_forbidden_response_header (hh_name h)
    \<and> (same_origin (fst (origin_from_url (cr_url r) n)) (cr_origin r) \<and> \<not> cr_origin_tainted r
       \<or> origin_allowed r (rs_headers resp)
         \<and> (to_ascii_lowercase (hh_name h) \<in> set SAFE_RESPONSE_HEADERS
            \<or> (\<exists>exposed. extract_list (rs_headers resp) (lit ''Access-Control-Expose-Headers'') = Some exposed
                 \<and> (header_listed exposed (hh_name h) \<or> star_for r exposed))))"
proof (cases t)
  case TaintBasic
  then have "same_origin (fst (origin_from_url (cr_url r) n)) (cr_origin r) \<and> \<not> cr_origin_tainted r"
    using assms(1-3) by (auto simp: cors_taint_def split: prod.splits if_splits request_mode.splits)
  then show ?thesis using assms(5) TaintBasic by (auto simp: filter_response_def)
next
  case TaintCors
  then have "origin_allowed r (rs_headers resp)" using assms(4) by (simp add: validate_response_def cors_check_None)
  then show ?thesis
    using assms(5) TaintCors
    by (auto simp: filter_response_def Let_def star_for_def header_listed_def split: option.splits)
next
  case TaintOpaque
  then show ?thesis using assms(5) by (simp add: filter_response_def)
qed

theorem cross_origin_read_needs_consent_witness:
  "\<exists>h. h \<in> set (fr_headers (filter_response sample_put TaintCors
        \<lparr>rs_status = 200, rs_headers = header_new (lit ''Expires'') [] # rs_headers sample_answer\<rparr>))
     \<and> origin_allowed sample_put (header_new (lit ''Expires'') [] # rs_headers sample_answer)"
proof -
  let ?resp = "\<lparr>rs_status = 200, rs_headers = header_new (lit ''Expires'') [] # rs_headers sample_answer\<rparr>"
  let ?h = "header_new (lit ''Expires'') []"
  have t: "cors_taint sample_put 0 = (Inr TaintCors, 0)" by code_simp
  have m: "cr_mode sample_put \<noteq> ModeNavigate" "u_scheme (cr_url sample_put) \<noteq> lit ''data''" by code_simp+
  have v: "validate_response sample_put TaintCors ?resp = None" by code_simp
  have h: "?h \<in> set (fr_headers (filter_response sample_put TaintCors ?resp))" by code_simp
  have "\<not> same_origin (fst (origin_from_url (cr_url sample_put) 0)) (cr_origin sample_put)" by code_simp
  with cross_origin_read_needs_consent [OF t m v h] h show ?thesis by auto
qed

text \<open>
  C31: a server that answers a preflight in its own words is granted: for every request of a
  network origin whose method and header names are tokens, the preflight announces the method
  and the unsafe headers in a form the list parser reads back, and the answer that allows
  exactly what was asked is accepted and grants exactly that.
\<close>

theorem echoed_preflight_granted:
  assumes "url_parse page = Some v" "u_scheme v \<in> set [lit ''http'', lit ''https'', lit ''ws'', lit ''wss'', lit ''ftp'']"
    and "cr_origin r = fst (origin_from_url v k)"
    and "token_text (cr_method r)" "\<forall>h \<in> set (cr_headers r). token_text (hh_name h)"
  shows "\<exists>g. validate_preflight r (echo_server (preflight_request r)) = Inr g \<and> pg_methods g = [cr_method r]
    \<and> pg_header_names g = unsafe_header_names (cr_headers r)"
  using assms url_parse_ok [OF assms(1)] by (intro echo_granted [of v]) (auto simp: net_url_def)

theorem echoed_preflight_granted_witness:
  "\<exists>r g. cr_headers r = [header_new (lit ''X-A'') [1]] \<and> validate_preflight r (echo_server (preflight_request r)) = Inr g
     \<and> pg_header_names g = unsafe_header_names [header_new (lit ''X-A'') [1]]"
proof -
  let ?r = "sample_put\<lparr>cr_origin := fst (origin_from_url sample_url 0), cr_headers := [header_new (lit ''X-A'') [1]], cr_credentials := CredInclude\<rparr>"
  have "u_scheme sample_url \<in> set [lit ''http'', lit ''https'', lit ''ws'', lit ''wss'', lit ''ftp'']" by (simp add: sample_url_def)
  moreover have "cr_origin ?r = fst (origin_from_url sample_url 0)" by simp
  moreover have "token_text (lit ''PUT'')" "token_text (lit ''X-A'')" by code_simp+
  then have "token_text (cr_method ?r)" "\<forall>h \<in> set (cr_headers ?r). token_text (hh_name h)"
    by (simp_all add: sample_put_def header_new_def)
  ultimately have "\<exists>g. validate_preflight ?r (echo_server (preflight_request ?r)) = Inr g \<and> pg_methods g = [cr_method ?r]
      \<and> pg_header_names g = unsafe_header_names (cr_headers ?r)"
    by (rule echoed_preflight_granted [OF sample_url_parses])
  then show ?thesis by (intro exI [of _ ?r]) auto
qed

end
