(* ===== verification/Websec_Sha2.thy ===== *)
theory Websec_Sha2
  imports Pelorus_Prelude
begin

text \<open>
  SHA-256, SHA-384 and SHA-512, \<^verbatim>\<open>crates/px-websec/src/csp/sha2.rs\<close>.  The code keeps a sliding
  window of sixteen schedule words and pads only the tail of the message; the standard, FIPS 180-4,
  indexes the whole schedule and pads the whole message.  The theory proves them equal.
\<close>

unbundle bit_operations_syntax

section \<open>Constants\<close>

type_synonym u128 = "128 word"
type_synonym 'a octet = "'a \<times> 'a \<times> 'a \<times> 'a \<times> 'a \<times> 'a \<times> 'a \<times> 'a"

definition K256 :: "u32 list" where
  "K256 =
     [0x428A2F98, 0x71374491, 0xB5C0FBCF, 0xE9B5DBA5, 0x3956C25B, 0x59F111F1, 0x923F82A4, 0xAB1C5ED5,
      0xD807AA98, 0x12835B01, 0x243185BE, 0x550C7DC3, 0x72BE5D74, 0x80DEB1FE, 0x9BDC06A7, 0xC19BF174,
      0xE49B69C1, 0xEFBE4786, 0x0FC19DC6, 0x240CA1CC, 0x2DE92C6F, 0x4A7484AA, 0x5CB0A9DC, 0x76F988DA,
      0x983E5152, 0xA831C66D, 0xB00327C8, 0xBF597FC7, 0xC6E00BF3, 0xD5A79147, 0x06CA6351, 0x14292967,
      0x27B70A85, 0x2E1B2138, 0x4D2C6DFC, 0x53380D13, 0x650A7354, 0x766A0ABB, 0x81C2C92E, 0x92722C85,
      0xA2BFE8A1, 0xA81A664B, 0xC24B8B70, 0xC76C51A3, 0xD192E819, 0xD6990624, 0xF40E3585, 0x106AA070,
      0x19A4C116, 0x1E376C08, 0x2748774C, 0x34B0BCB5, 0x391C0CB3, 0x4ED8AA4A, 0x5B9CCA4F, 0x682E6FF3,
      0x748F82EE, 0x78A5636F, 0x84C87814, 0x8CC70208, 0x90BEFFFA, 0xA4506CEB, 0xBEF9A3F7, 0xC67178F2]"

definition H256 :: "u32 octet" where
  "H256 =
     (0x6A09E667, 0xBB67AE85, 0x3C6EF372, 0xA54FF53A,
      0x510E527F, 0x9B05688C, 0x1F83D9AB, 0x5BE0CD19)"

definition K512 :: "u64 list" where
  "K512 =
     [0x428A2F98D728AE22, 0x7137449123EF65CD, 0xB5C0FBCFEC4D3B2F, 0xE9B5DBA58189DBBC, 0x3956C25BF348B538,
      0x59F111F1B605D019, 0x923F82A4AF194F9B, 0xAB1C5ED5DA6D8118, 0xD807AA98A3030242, 0x12835B0145706FBE,
      0x243185BE4EE4B28C, 0x550C7DC3D5FFB4E2, 0x72BE5D74F27B896F, 0x80DEB1FE3B1696B1, 0x9BDC06A725C71235,
      0xC19BF174CF692694, 0xE49B69C19EF14AD2, 0xEFBE4786384F25E3, 0x0FC19DC68B8CD5B5, 0x240CA1CC77AC9C65,
      0x2DE92C6F592B0275, 0x4A7484AA6EA6E483, 0x5CB0A9DCBD41FBD4, 0x76F988DA831153B5, 0x983E5152EE66DFAB,
      0xA831C66D2DB43210, 0xB00327C898FB213F, 0xBF597FC7BEEF0EE4, 0xC6E00BF33DA88FC2, 0xD5A79147930AA725,
      0x06CA6351E003826F, 0x142929670A0E6E70, 0x27B70A8546D22FFC, 0x2E1B21385C26C926, 0x4D2C6DFC5AC42AED,
      0x53380D139D95B3DF, 0x650A73548BAF63DE, 0x766A0ABB3C77B2A8, 0x81C2C92E47EDAEE6, 0x92722C851482353B,
      0xA2BFE8A14CF10364, 0xA81A664BBC423001, 0xC24B8B70D0F89791, 0xC76C51A30654BE30, 0xD192E819D6EF5218,
      0xD69906245565A910, 0xF40E35855771202A, 0x106AA07032BBD1B8, 0x19A4C116B8D2D0C8, 0x1E376C085141AB53,
      0x2748774CDF8EEB99, 0x34B0BCB5E19B48A8, 0x391C0CB3C5C95A63, 0x4ED8AA4AE3418ACB, 0x5B9CCA4F7763E373,
      0x682E6FF3D6B2B8A3, 0x748F82EE5DEFB2FC, 0x78A5636F43172F60, 0x84C87814A1F0AB72, 0x8CC702081A6439EC,
      0x90BEFFFA23631E28, 0xA4506CEBDE82BDE9, 0xBEF9A3F7B2C67915, 0xC67178F2E372532B, 0xCA273ECEEA26619C,
      0xD186B8C721C0C207, 0xEADA7DD6CDE0EB1E, 0xF57D4F7FEE6ED178, 0x06F067AA72176FBA, 0x0A637DC5A2C898A6,
      0x113F9804BEF90DAE, 0x1B710B35131C471B, 0x28DB77F523047D84, 0x32CAAB7B40C72493, 0x3C9EBE0A15C9BEBC,
      0x431D67C49C100D4C, 0x4CC5D4BECB3E42B6, 0x597F299CFC657E2A, 0x5FCB6FAB3AD6FAEC, 0x6C44198C4A475817]"

definition H512 :: "u64 octet" where
  "H512 =
     (0x6A09E667F3BCC908, 0xBB67AE8584CAA73B, 0x3C6EF372FE94F82B, 0xA54FF53A5F1D36F1,
      0x510E527FADE682D1, 0x9B05688C2B3E6C1F, 0x1F83D9ABFB41BD6B, 0x5BE0CD19137E2179)"

definition H384 :: "u64 octet" where
  "H384 =
     (0xCBBB9D5DC1059ED8, 0x629A292A367CD507, 0x9159015A3070DD17, 0x152FECD8F70E5939,
      0x67332667FFC00B31, 0x8EB44A8768581511, 0xDB0C2E0D64F98FA7, 0x47B5481DBEFA4FA4)"

section \<open>Bytes, words and blocks\<close>

lemma upt_0_Suc: "[0..<Suc n] = 0 # map Suc [0..<n]"
  by (simp add: upt_conv_Cons map_Suc_upt del: upt_Suc)

definition from_be_bytes :: "bytes \<Rightarrow> 'w::len word" where
  "from_be_bytes bs = foldl (\<lambda>acc b. push_bit 8 acc OR ucast b) 0 bs"

definition to_be_bytes :: "'w::len word \<Rightarrow> bytes" where
  "to_be_bytes w = map (\<lambda>i. ucast (drop_bit (8 * i) w)) (rev [0..<LENGTH('w) div 8])"

function as_chunks :: "nat \<Rightarrow> 'a list \<Rightarrow> 'a list list \<times> 'a list" where
  "as_chunks n xs =
     (if n = 0 \<or> length xs < n then ([], xs)
      else let (cs, rest) = as_chunks n (drop n xs) in (take n xs # cs, rest))"
  by pat_completeness auto
termination by (relation "measure (\<lambda>(n, xs). length xs)") auto

declare as_chunks.simps [simp del]

lemma as_chunks_short [simp]: "length xs < n \<Longrightarrow> as_chunks n xs = ([], xs)"
  by (simp add: as_chunks.simps)

lemma as_chunks_block:
  "0 < n \<Longrightarrow> length b = n \<Longrightarrow> as_chunks n (b @ xs) = (b # fst (as_chunks n xs), snd (as_chunks n xs))"
  by (subst as_chunks.simps) (simp add: case_prod_beta Let_def)

text \<open>The padding loop; it ends because the length it waits for is below the block size at both calls.\<close>

function pad_zeros :: "nat \<Rightarrow> nat \<Rightarrow> bytes \<Rightarrow> bytes" where
  "pad_zeros block goal v =
     (if goal < block \<and> length v mod block \<noteq> goal then pad_zeros block goal (v @ [0]) else v)"
  by pat_completeness auto
termination
  by (relation "measure (\<lambda>(block, goal, v). if length v mod block \<le> goal then goal - length v mod block else goal + block - length v mod block)")
     (auto simp: mod_Suc intro!: diff_less_mono2 trans_less_add2)

declare pad_zeros.simps [simp del]

definition final_blocks :: "bytes \<Rightarrow> u64 \<Rightarrow> nat \<Rightarrow> nat \<Rightarrow> bytes" where
  "final_blocks rest total_len block len_bytes =
     (let v = pad_zeros block (block - len_bytes) (rest @ [0x80]);
          bits = (ucast total_len :: u128) * 8;
          be = to_be_bytes bits
      in v @ drop (length be - len_bytes) be)"

section \<open>Compression\<close>

definition round256 :: "u32 \<Rightarrow> u32 \<Rightarrow> u32 octet \<Rightarrow> u32 octet" where
  "round256 k wt = (\<lambda>(a, b, c, d, e, f, g, h).
     let s1 = word_rotr 6 e XOR word_rotr 11 e XOR word_rotr 25 e;
         ch = (e AND f) XOR (NOT e AND g);
         t1 = h + s1 + ch + k + wt;
         s0 = word_rotr 2 a XOR word_rotr 13 a XOR word_rotr 22 a;
         maj = (a AND b) XOR (a AND c) XOR (b AND c);
         t2 = s0 + maj
     in (t1 + t2, a, b, c, d + t1, e, f, g))"

definition schedule256 :: "u32 list \<Rightarrow> nat \<Rightarrow> u32" where
  "schedule256 w t =
     (if t < 16 then w ! 0
      else let s0 = word_rotr 7 (w ! 1) XOR word_rotr 18 (w ! 1) XOR drop_bit 3 (w ! 1);
               s1 = word_rotr 17 (w ! 14) XOR word_rotr 19 (w ! 14) XOR drop_bit 10 (w ! 14)
           in w ! 0 + s0 + w ! 9 + s1)"

fun rounds256 :: "nat \<Rightarrow> u32 list \<Rightarrow> u32 list \<Rightarrow> u32 octet \<Rightarrow> u32 octet" where
  "rounds256 t [] w st = st"
| "rounds256 t (k # ks) w st =
     (let wt = schedule256 w t in rounds256 (Suc t) ks ((rotate1 w)[15 := wt]) (round256 k wt st))"

primrec octet_list :: "'a octet \<Rightarrow> 'a list" where
  "octet_list (a, r) = (case r of (b, c, d, e, f, g, h) \<Rightarrow> [a, b, c, d, e, f, g, h])"

definition octet_add :: "'w::len word octet \<Rightarrow> 'w word octet \<Rightarrow> 'w word octet" where
  "octet_add s v = (case s of (a, b, c, d, e, f, g, h) \<Rightarrow> case v of (a', b', c', d', e', f', g', h') \<Rightarrow>
     (a + a', b + b', c + c', d + d', e + e', f + f', g + g', h + h'))"

definition compress256 :: "u32 octet \<Rightarrow> bytes \<Rightarrow> u32 octet" where
  "compress256 state block =
     octet_add state (rounds256 0 K256 (map from_be_bytes (fst (as_chunks 4 block))) state)"

definition round512 :: "u64 \<Rightarrow> u64 \<Rightarrow> u64 octet \<Rightarrow> u64 octet" where
  "round512 k wt = (\<lambda>(a, b, c, d, e, f, g, h).
     let s1 = word_rotr 14 e XOR word_rotr 18 e XOR word_rotr 41 e;
         ch = (e AND f) XOR (NOT e AND g);
         t1 = h + s1 + ch + k + wt;
         s0 = word_rotr 28 a XOR word_rotr 34 a XOR word_rotr 39 a;
         maj = (a AND b) XOR (a AND c) XOR (b AND c);
         t2 = s0 + maj
     in (t1 + t2, a, b, c, d + t1, e, f, g))"

definition schedule512 :: "u64 list \<Rightarrow> nat \<Rightarrow> u64" where
  "schedule512 w t =
     (if t < 16 then w ! 0
      else let s0 = word_rotr 1 (w ! 1) XOR word_rotr 8 (w ! 1) XOR drop_bit 7 (w ! 1);
               s1 = word_rotr 19 (w ! 14) XOR word_rotr 61 (w ! 14) XOR drop_bit 6 (w ! 14)
           in w ! 0 + s0 + w ! 9 + s1)"

fun rounds512 :: "nat \<Rightarrow> u64 list \<Rightarrow> u64 list \<Rightarrow> u64 octet \<Rightarrow> u64 octet" where
  "rounds512 t [] w st = st"
| "rounds512 t (k # ks) w st =
     (let wt = schedule512 w t in rounds512 (Suc t) ks ((rotate1 w)[15 := wt]) (round512 k wt st))"

definition compress512 :: "u64 octet \<Rightarrow> bytes \<Rightarrow> u64 octet" where
  "compress512 state block =
     octet_add state (rounds512 0 K512 (map from_be_bytes (fst (as_chunks 8 block))) state)"

lemma K256_length: "length K256 = 64" by (simp add: K256_def)
lemma K512_length: "length K512 = 80" by (simp add: K512_def)

section \<open>Digests\<close>

definition sha256 :: "bytes \<Rightarrow> bytes" where
  "sha256 data =
     (let (blocks, rest) = as_chunks 64 data;
          state = foldl compress256 H256 blocks;
          fin = final_blocks rest (of_nat (length data)) 64 8;
          state = foldl compress256 state (fst (as_chunks 64 fin))
      in concat (map to_be_bytes (octet_list state)))"

definition sha512_core :: "u64 octet \<Rightarrow> bytes \<Rightarrow> u64 octet" where
  "sha512_core init data =
     (let (blocks, rest) = as_chunks 128 data;
          state = foldl compress512 init blocks;
          fin = final_blocks rest (of_nat (length data)) 128 16
      in foldl compress512 state (fst (as_chunks 128 fin)))"

definition sha512 :: "bytes \<Rightarrow> bytes" where
  "sha512 data = concat (map to_be_bytes (octet_list (sha512_core H512 data)))"

definition sha384 :: "bytes \<Rightarrow> bytes" where
  "sha384 data = concat (map to_be_bytes (take 6 (octet_list (sha512_core H384 data))))"

section \<open>The standard\<close>

text \<open>FIPS 180-4, sections 5.1, 6.2.2 and 6.4.2, over the schedule functions of a width.\<close>

fun fips_schedule :: "('w::len word \<Rightarrow> 'w word) \<Rightarrow> ('w word \<Rightarrow> 'w word) \<Rightarrow> 'w word list \<Rightarrow> nat \<Rightarrow> 'w word" where
  "fips_schedule \<sigma>0 \<sigma>1 m t =
     (if t < 16 then m ! t
      else \<sigma>1 (fips_schedule \<sigma>0 \<sigma>1 m (t - 2)) + fips_schedule \<sigma>0 \<sigma>1 m (t - 7)
           + \<sigma>0 (fips_schedule \<sigma>0 \<sigma>1 m (t - 15)) + fips_schedule \<sigma>0 \<sigma>1 m (t - 16))"

declare fips_schedule.simps [simp del]

definition sigma0_256 :: "u32 \<Rightarrow> u32" where
  "sigma0_256 x = word_rotr 7 x XOR word_rotr 18 x XOR drop_bit 3 x"

definition sigma1_256 :: "u32 \<Rightarrow> u32" where
  "sigma1_256 x = word_rotr 17 x XOR word_rotr 19 x XOR drop_bit 10 x"

definition sigma0_512 :: "u64 \<Rightarrow> u64" where
  "sigma0_512 x = word_rotr 1 x XOR word_rotr 8 x XOR drop_bit 7 x"

definition sigma1_512 :: "u64 \<Rightarrow> u64" where
  "sigma1_512 x = word_rotr 19 x XOR word_rotr 61 x XOR drop_bit 6 x"

locale sha2_rounds =
  fixes \<sigma>0 \<sigma>1 :: "'w::len word \<Rightarrow> 'w word"
    and schedule :: "'w word list \<Rightarrow> nat \<Rightarrow> 'w word"
    and step :: "'w word \<Rightarrow> 'w word \<Rightarrow> 's \<Rightarrow> 's"
    and rounds :: "nat \<Rightarrow> 'w word list \<Rightarrow> 'w word list \<Rightarrow> 's \<Rightarrow> 's"
  assumes schedule_early: "t < 16 \<Longrightarrow> schedule w t = w ! 0"
    and schedule_late: "16 \<le> t \<Longrightarrow> schedule w t = w ! 0 + \<sigma>0 (w ! 1) + w ! 9 + \<sigma>1 (w ! 14)"
    and rounds_Nil: "rounds t [] w st = st"
    and rounds_Cons: "rounds t (k # ks) w st = rounds (Suc t) ks ((rotate1 w)[15 := schedule w t]) (step k (schedule w t) st)"
begin

text \<open>Where slot \<open>i\<close> of the window stands in the schedule before round \<open>t\<close>.\<close>

definition slot :: "nat \<Rightarrow> nat \<Rightarrow> nat" where
  "slot t i = (if t < 16 then (t + i) mod 16 else t - 16 + i)"

definition window :: "'w word list \<Rightarrow> nat \<Rightarrow> 'w word list" where
  "window m t = map (\<lambda>i. fips_schedule \<sigma>0 \<sigma>1 m (slot t i)) [0..<16]"

lemma window_nth: "i < 16 \<Longrightarrow> window m t ! i = fips_schedule \<sigma>0 \<sigma>1 m (slot t i)"
  by (simp add: window_def)

lemma schedule_window: "schedule (window m t) t = fips_schedule \<sigma>0 \<sigma>1 m t"
proof (cases "t < 16")
  case True
  then show ?thesis by (simp add: schedule_early window_nth slot_def)
next
  case False
  then have "slot t 0 = t - 16" "slot t 1 = t - 15" "slot t 9 = t - 7" "slot t 14 = t - 2" by (simp_all add: slot_def)
  then show ?thesis
    using False by (subst fips_schedule.simps) (simp add: schedule_late window_nth add.commute add.left_commute del: One_nat_def)
qed

lemma slot_Suc: "i < 15 \<Longrightarrow> slot (Suc t) i = slot t (Suc i)" "slot (Suc t) 15 = t"
  by (cases "t = 15"; auto simp: slot_def not_less)+

lemma window_step: "(rotate1 (window m t))[15 := fips_schedule \<sigma>0 \<sigma>1 m t] = window m (Suc t)"
proof (rule nth_equalityI)
  fix i assume "i < length ((rotate1 (window m t))[15 := fips_schedule \<sigma>0 \<sigma>1 m t])"
  then have "i < 16" by (simp add: window_def)
  moreover have "length (window m t) = 16" by (simp add: window_def)
  ultimately show "(rotate1 (window m t))[15 := fips_schedule \<sigma>0 \<sigma>1 m t] ! i = window m (Suc t) ! i"
    by (cases "i = 15") (simp_all add: nth_rotate1 window_nth slot_Suc)
qed (simp add: window_def)

lemma rounds_window:
  "rounds t ks (window m t) st
   = fold (\<lambda>i. step (ks ! i) (fips_schedule \<sigma>0 \<sigma>1 m (t + i))) [0..<length ks] st"
proof (induction ks arbitrary: t st)
  case (Cons k ks)
  show ?case by (simp add: rounds_Cons schedule_window window_step Cons.IH upt_0_Suc fold_map o_def del: upt_Suc)
qed (simp add: rounds_Nil)

lemma window_0: "length m = 16 \<Longrightarrow> window m 0 = m"
  by (auto simp: window_def slot_def fips_schedule.simps intro!: nth_equalityI)

theorem rounds_schedule:
  "length m = 16 \<Longrightarrow> rounds 0 ks m st = fold (\<lambda>t. step (ks ! t) (fips_schedule \<sigma>0 \<sigma>1 m t)) [0..<length ks] st"
  using rounds_window [of 0 ks m st] by (simp add: window_0)

end

interpretation r256: sha2_rounds sigma0_256 sigma1_256 schedule256 round256 rounds256
  by unfold_locales (simp_all add: schedule256_def sigma0_256_def sigma1_256_def Let_def)

interpretation r512: sha2_rounds sigma0_512 sigma1_512 schedule512 round512 rounds512
  by unfold_locales (simp_all add: schedule512_def sigma0_512_def sigma1_512_def Let_def)

definition fips_compress256 :: "u32 octet \<Rightarrow> bytes \<Rightarrow> u32 octet" where
  "fips_compress256 state block =
     (let m = map (\<lambda>i. from_be_bytes (take 4 (drop (4 * i) block))) [0..<16]
      in octet_add state (fold (\<lambda>t. round256 (K256 ! t) (fips_schedule sigma0_256 sigma1_256 m t)) [0..<64] state))"

definition fips_compress512 :: "u64 octet \<Rightarrow> bytes \<Rightarrow> u64 octet" where
  "fips_compress512 state block =
     (let m = map (\<lambda>i. from_be_bytes (take 8 (drop (8 * i) block))) [0..<16]
      in octet_add state (fold (\<lambda>t. round512 (K512 ! t) (fips_schedule sigma0_512 sigma1_512 m t)) [0..<80] state))"

text \<open>The message, the bit 1, the fewest zeros that fit, and the length in bits: whole blocks.\<close>

definition fips_zeros :: "nat \<Rightarrow> nat \<Rightarrow> nat \<Rightarrow> nat" where
  "fips_zeros block len_bytes n = (LEAST k. (n + 1 + k + len_bytes) mod block = 0)"

definition fips_pad256 :: "bytes \<Rightarrow> bytes" where
  "fips_pad256 data =
     data @ [0x80] @ replicate (fips_zeros 64 8 (length data)) 0 @ to_be_bytes (of_nat (8 * length data) :: u64)"

definition fips_pad512 :: "bytes \<Rightarrow> bytes" where
  "fips_pad512 data =
     data @ [0x80] @ replicate (fips_zeros 128 16 (length data)) 0 @ to_be_bytes (of_nat (8 * length data) :: u128)"

definition fips_block :: "nat \<Rightarrow> bytes \<Rightarrow> nat \<Rightarrow> bytes" where
  "fips_block n v i = take n (drop (n * i) v)"

definition fips_hash256 :: "bytes \<Rightarrow> u32 octet" where
  "fips_hash256 data =
     (let v = fips_pad256 data
      in fold (\<lambda>i st. fips_compress256 st (fips_block 64 v i)) [0..<length v div 64] H256)"

definition fips_hash512 :: "u64 octet \<Rightarrow> bytes \<Rightarrow> u64 octet" where
  "fips_hash512 init data =
     (let v = fips_pad512 data
      in fold (\<lambda>i st. fips_compress512 st (fips_block 128 v i)) [0..<length v div 128] init)"

definition fips_sha256 :: "bytes \<Rightarrow> bytes" where
  "fips_sha256 data = concat (map to_be_bytes (octet_list (fips_hash256 data)))"

definition fips_sha384 :: "bytes \<Rightarrow> bytes" where
  "fips_sha384 data = take 48 (concat (map to_be_bytes (octet_list (fips_hash512 H384 data))))"

definition fips_sha512 :: "bytes \<Rightarrow> bytes" where
  "fips_sha512 data = concat (map to_be_bytes (octet_list (fips_hash512 H512 data)))"

section \<open>The code computes the standard\<close>

lemma as_chunks_eq:
  "0 < n \<Longrightarrow> as_chunks n xs = (map (\<lambda>i. take n (drop (n * i) xs)) [0..<length xs div n], drop (n * (length xs div n)) xs)"
proof (induction n xs rule: as_chunks.induct)
  case (1 n xs)
  show ?case
  proof (cases "length xs < n")
    case False
    then have len: "length xs div n = Suc ((length xs - n) div n)" using 1(2) by (simp add: le_div_geq)
    show ?thesis
      using 1 False by (subst as_chunks.simps) (simp add: len upt_0_Suc o_def add.commute del: upt_Suc)
  qed simp
qed

lemma as_chunks_append:
  "0 < n \<Longrightarrow> fst (as_chunks n (xs @ ys)) = fst (as_chunks n xs) @ fst (as_chunks n (snd (as_chunks n xs) @ ys))"
proof (induction n xs rule: as_chunks.induct)
  case (1 n xs)
  show ?case
  proof (cases "length xs < n")
    case False
    have "xs @ ys = take n xs @ (drop n xs @ ys)" by simp
    then have l: "as_chunks n (xs @ ys) = (take n xs # fst (as_chunks n (drop n xs @ ys)), snd (as_chunks n (drop n xs @ ys)))"
      using as_chunks_block [of n "take n xs" "drop n xs @ ys"] 1(2) False by (metis length_take min_absorb2 not_less)
    have r: "as_chunks n xs = (take n xs # fst (as_chunks n (drop n xs)), snd (as_chunks n (drop n xs)))"
      using as_chunks_block [of n "take n xs" "drop n xs"] 1(2) False by simp
    show ?thesis using 1 False l r by simp
  qed simp
qed


lemma as_chunks_rest: "0 < n \<Longrightarrow> length (snd (as_chunks n xs)) = length xs mod n"
  by (simp add: as_chunks_eq minus_mult_div_eq_mod)

lemma pad_zeros_spec:
  "goal < block \<Longrightarrow> pad_zeros block goal v = v @ replicate (LEAST k. (length v + k) mod block = goal) 0"
proof (induction block goal v rule: pad_zeros.induct)
  case (1 block goal v)
  let ?P = "\<lambda>k. (length v + k) mod block = goal"
  show ?case
  proof (cases "length v mod block = goal")
    case True
    then have "(LEAST k. ?P k) = 0" by (intro Least_equality) auto
    then show ?thesis using True by (simp add: pad_zeros.simps)
  next
    case False
    have "?P (goal + (block - length v mod block))"
    proof -
      have "length v mod block + (goal + (block - length v mod block)) = goal + block"
        using 1(2) mod_less_divisor [of block "length v"] by linarith
      then show ?thesis using 1(2) mod_add_left_eq [of "length v" block "goal + (block - length v mod block)"] by simp
    qed
    then have "(LEAST k. ?P k) = Suc (LEAST k. ?P (Suc k))" using False by (intro Least_Suc) auto
    then show ?thesis using 1 False by (subst pad_zeros.simps) (simp add: replicate_append_same)
  qed
qed

lemma to_be_bytes_length: "length (to_be_bytes (w :: 'w::len word)) = LENGTH('w) div 8"
  by (simp add: to_be_bytes_def)

lemma final_blocks_eq:
  fixes data :: bytes
  assumes "0 < lb" "lb < n"
  shows "final_blocks (snd (as_chunks n data)) (of_nat (length data)) n lb
    = snd (as_chunks n data) @ [0x80] @ replicate (fips_zeros n lb (length data)) 0
      @ drop (16 - lb) (to_be_bytes ((ucast (of_nat (length data) :: u64) :: u128) * 8))"
proof -
  have "(length data mod n + 1 + k) mod n = n - lb \<longleftrightarrow> (length data + 1 + k + lb) mod n = 0" for k
  proof -
    define x where "x = length data + 1 + k"
    have l: "(length data mod n + 1 + k) mod n = x mod n" using mod_add_left_eq [of "length data" n "1 + k"] by (simp add: x_def)
    define y where "y = x mod n"
    have y: "y < n" using assms by (simp add: y_def)
    have "(x + lb) mod n = (y + lb) mod n" unfolding y_def by (rule mod_add_left_eq [symmetric])
    also have "\<dots> = (if y + lb < n then y + lb else y + lb - n)" using assms y by (simp add: le_mod_geq)
    finally show ?thesis using assms y l unfolding x_def [symmetric] y_def [symmetric] by auto
  qed
  then show ?thesis
    using assms by (simp add: final_blocks_def pad_zeros_spec as_chunks_rest fips_zeros_def to_be_bytes_length)
qed

lemma foldl_blocks:
  assumes "0 < n" "\<And>st b. length b = n \<Longrightarrow> f st b = g st b"
  shows "foldl f (foldl f init (fst (as_chunks n data))) (fst (as_chunks n (snd (as_chunks n data) @ pad)))
    = fold (\<lambda>i st. g st (fips_block n (data @ pad) i)) [0..<length (data @ pad) div n] init"
proof -
  let ?v = "data @ pad"
  have "foldl f (foldl f init (fst (as_chunks n data))) (fst (as_chunks n (snd (as_chunks n data) @ pad)))
      = foldl f init (fst (as_chunks n ?v))"
    using as_chunks_append [OF assms(1), of data pad] by simp
  also have "\<dots> = fold (\<lambda>i st. f st (fips_block n ?v i)) [0..<length ?v div n] init"
    using assms(1) by (simp add: as_chunks_eq foldl_conv_fold fold_map o_def fips_block_def)
  also have "\<dots> = fold (\<lambda>i st. g st (fips_block n ?v i)) [0..<length ?v div n] init"
  proof (rule fold_cong)
    fix i assume "i \<in> set [0..<length ?v div n]"
    then have "Suc i \<le> length ?v div n" by simp
    then have "Suc i * n \<le> length ?v" using assms(1) by (simp add: less_eq_div_iff_mult_less_eq del: mult_Suc)
    then have "length (fips_block n ?v i) = n" by (simp add: fips_block_def algebra_simps)
    then show "(\<lambda>st. f st (fips_block n ?v i)) = (\<lambda>st. g st (fips_block n ?v i))" using assms(2) by simp
  qed simp_all
  finally show ?thesis .
qed

lemma compress256_fips: "length b = 64 \<Longrightarrow> compress256 st b = fips_compress256 st b"
  by (simp add: compress256_def fips_compress256_def as_chunks_eq r256.rounds_schedule o_def Let_def K256_length del: upt_Suc)

lemma compress512_fips: "length b = 128 \<Longrightarrow> compress512 st b = fips_compress512 st b"
  by (simp add: compress512_def fips_compress512_def as_chunks_eq r512.rounds_schedule o_def Let_def K512_length del: upt_Suc)

lemma to_be_bytes_low: "drop 8 (to_be_bytes (w :: u128)) = to_be_bytes (ucast w :: u64)"
proof -
  have "(ucast (drop_bit k w) :: u8) = ucast (drop_bit k (ucast w :: u64))" if "k \<le> 56" for k
    using that by (intro bit_word_eqI) (simp add: bit_simps)
  from this this [of 0] show ?thesis by (simp add: to_be_bytes_def upt_rec)
qed

lemma ucast_times_8: "(ucast ((ucast x :: u128) * 8) :: u64) = 8 * x"
proof -
  have "(ucast x :: u128) * 8 = push_bit 3 (ucast x)" "8 * x = push_bit 3 x" by (simp_all add: mult.commute push_bit_eq_mult)
  moreover have "(ucast (push_bit 3 (ucast x :: u128)) :: u64) = push_bit 3 x"
    by (rule bit_word_eqI) (auto simp: bit_simps)
  ultimately show ?thesis by simp
qed

lemma sha256_fips: "sha256 data = fips_sha256 data"
proof -
  have "(ucast ((ucast (of_nat (length data) :: u64) :: u128) * 8) :: u64) = of_nat (8 * length data)"
    by (simp add: ucast_times_8)
  then have fin: "final_blocks (snd (as_chunks 64 data)) (of_nat (length data)) 64 8 = snd (as_chunks 64 data) @ drop (length data) (fips_pad256 data)"
    using final_blocks_eq [of 8 64 data] by (simp add: fips_pad256_def to_be_bytes_low)
  have "fips_pad256 data = data @ drop (length data) (fips_pad256 data)" by (simp add: fips_pad256_def)
  then show ?thesis
    using foldl_blocks [of 64 compress256 fips_compress256 H256 data "drop (length data) (fips_pad256 data)", OF _ compress256_fips]
    by (simp add: sha256_def fin fips_sha256_def fips_hash256_def Let_def case_prod_beta)
qed

lemma sha512_core_fips:
  assumes "length data < 2 ^ 64"
  shows "sha512_core init data = fips_hash512 init data"
proof -
  have "(ucast (of_nat (length data) :: u64) :: u128) * 8 = of_nat (8 * length data)"
    using assms by (simp add: unsigned_of_nat take_bit_eq_mod)
  then have fin: "final_blocks (snd (as_chunks 128 data)) (of_nat (length data)) 128 16 = snd (as_chunks 128 data) @ drop (length data) (fips_pad512 data)"
    using final_blocks_eq [of 16 128 data] by (simp add: fips_pad512_def)
  have "fips_pad512 data = data @ drop (length data) (fips_pad512 data)" by (simp add: fips_pad512_def)
  then show ?thesis
    using foldl_blocks [of 128 compress512 fips_compress512 init data "drop (length data) (fips_pad512 data)", OF _ compress512_fips]
    by (simp add: sha512_core_def fin fips_hash512_def Let_def case_prod_beta)
qed

section \<open>Lengths\<close>

lemma octet_list_length [simp]: "length (octet_list s) = 8"
  by (cases s) auto

lemma concat_be_length [simp]: "length (concat (map to_be_bytes (ws :: 'w::len word list))) = length ws * (LENGTH('w) div 8)"
  by (induction ws) (simp_all add: to_be_bytes_length)

lemma concat_be_take: "take (n * (LENGTH('w) div 8)) (concat (map to_be_bytes ws)) = concat (map to_be_bytes (take n (ws :: 'w::len word list)))"
proof (induction n arbitrary: ws)
  case (Suc n)
  show ?case by (cases ws) (simp_all add: Suc to_be_bytes_length)
qed simp

lemma sha512_fips:
  assumes "length data < 2 ^ 64"
  shows "sha512 data = fips_sha512 data" "sha384 data = fips_sha384 data"
  using concat_be_take [of 6 "octet_list (sha512_core H384 data)"]
  by (simp_all add: sha512_def sha384_def fips_sha512_def fips_sha384_def sha512_core_fips [OF assms])

lemma sha_lengths [simp]: "length (sha256 data) = 32" "length (sha384 data) = 48" "length (sha512 data) = 64"
  by (simp_all add: sha256_def sha384_def sha512_def Let_def split: prod.split)

section \<open>Where the constants come from\<close>

text \<open>The code says that its tables are digits of the roots of the first primes; these lemmas check every one.\<close>

definition small_primes :: "int list" where
  "small_primes = filter (\<lambda>p. list_all (\<lambda>d. d = p \<or> p mod d \<noteq> 0) [2..20]) [2..409]"

definition root_digits :: "nat \<Rightarrow> int \<Rightarrow> int \<Rightarrow> int \<Rightarrow> bool" where
  "root_digits e w p k \<longleftrightarrow>
     0 \<le> k \<and> k < w
     \<and> list_ex (\<lambda>c. c ^ e \<le> p \<and> p < (c + 1) ^ e \<and> (c * w + k) ^ e \<le> p * w ^ e \<and> p * w ^ e < (c * w + k + 1) ^ e) [1..7]"

definition high_half :: "u64 \<Rightarrow> u32" where
  "high_half k = ucast (drop_bit 32 k)"

lemma K512_cube_roots: "list_all2 (root_digits 3 (2 ^ 64)) small_primes (map uint K512)"
  by code_simp

lemma H512_square_roots: "list_all2 (root_digits 2 (2 ^ 64)) (take 8 small_primes) (map uint (octet_list H512))"
  by code_simp

lemma H384_square_roots: "list_all2 (root_digits 2 (2 ^ 64)) (take 8 (drop 8 small_primes)) (map uint (octet_list H384))"
  by code_simp

lemma SHA256_high_halves: "K256 = map high_half (take 64 K512)" "octet_list H256 = map high_half (octet_list H512)"
  by code_simp+

end
