(* ===== verification/Websec_Sri.thy ===== *)
theory Websec_Sri
  imports Websec_Cors Websec_Sha2
begin

text \<open>
  Subresource integrity, \<^verbatim>\<open>crates/px-websec/src/sri.rs\<close>: base64, the metadata of an
  \<open>integrity\<close> attribute and the verification of a response.  The digest is an argument of
  \<^verbatim>\<open>verify_with\<close>, as in the code, and \<^verbatim>\<open>verify\<close> passes the built-in ones.
\<close>

definition MAX_INTEGRITY_BYTES :: nat where "MAX_INTEGRITY_BYTES = 16 * 1024"
definition MAX_TOKENS :: nat where "MAX_TOKENS = 128"

datatype algorithm = Sha256 | Sha384 | Sha512

primrec alg_rank :: "algorithm \<Rightarrow> nat" where
  "alg_rank Sha256 = 0"
| "alg_rank Sha384 = 1"
| "alg_rank Sha512 = 2"

lemma alg_rank_inj: "alg_rank a = alg_rank b \<longleftrightarrow> a = b"
  by (cases a; cases b) simp_all

instantiation algorithm :: linorder
begin

definition less_eq_algorithm :: "algorithm \<Rightarrow> algorithm \<Rightarrow> bool" where
  "less_eq_algorithm a b \<longleftrightarrow> alg_rank a \<le> alg_rank b"

definition less_algorithm :: "algorithm \<Rightarrow> algorithm \<Rightarrow> bool" where
  "less_algorithm a b \<longleftrightarrow> alg_rank a < alg_rank b"

instance
  by standard (auto simp: less_eq_algorithm_def less_algorithm_def alg_rank_inj)

end

primrec digest_len :: "algorithm \<Rightarrow> nat" where
  "digest_len Sha256 = 32"
| "digest_len Sha384 = 48"
| "digest_len Sha512 = 64"

definition alg_from_token :: "bytes \<Rightarrow> algorithm option" where
  "alg_from_token t =
     (if eq_ignore_case t (lit ''sha256'') then Some Sha256
      else if eq_ignore_case t (lit ''sha384'') then Some Sha384
      else if eq_ignore_case t (lit ''sha512'') then Some Sha512
      else None)"

primrec alg_digest :: "algorithm \<Rightarrow> bytes \<Rightarrow> bytes" where
  "alg_digest Sha256 data = sha256 data"
| "alg_digest Sha384 data = sha384 data"
| "alg_digest Sha512 data = sha512 data"

lemma alg_digest_length: "length (alg_digest a data) = digest_len a"
  by (cases a) simp_all

record hash_expr =
  hx_algorithm :: algorithm
  hx_digest :: bytes

record sri_metadata =
  md_hashes :: "hash_expr list"
  md_had_tokens :: bool

definition is_enforced :: "sri_metadata \<Rightarrow> bool" where
  "is_enforced m \<longleftrightarrow> md_hashes m \<noteq> []"

definition needs_check :: "sri_metadata \<Rightarrow> bool" where
  "needs_check m = md_had_tokens m"

definition strongest :: "sri_metadata \<Rightarrow> algorithm option" where
  "strongest m = (if md_hashes m = [] then None else Some (Max (set (map hx_algorithm (md_hashes m)))))"

datatype sri_error = SriTooLarge | NotEligible | SriMismatch

section \<open>Base64\<close>

definition b64_val :: "u8 \<Rightarrow> nat option" where
  "b64_val b =
     (if 0x41 \<le> b \<and> b \<le> 0x5A then Some (unat b - 65)
      else if 0x61 \<le> b \<and> b \<le> 0x7A then Some (unat b - 97 + 26)
      else if 0x30 \<le> b \<and> b \<le> 0x39 then Some (unat b - 48 + 52)
      else if b = 0x2B \<or> b = 0x2D then Some 62
      else if b = 0x2F \<or> b = 0x5F then Some 63
      else None)"

text \<open>The accumulator stays below \<open>2 ^ bits\<close>, so shifting and masking are plain arithmetic.\<close>

fun b64_loop :: "bytes \<Rightarrow> nat \<Rightarrow> nat \<Rightarrow> bytes \<Rightarrow> (bytes \<times> nat) option" where
  "b64_loop [] acc bits out = Some (out, acc)"
| "b64_loop (b # s) acc bits out =
     (case b64_val b of
        None \<Rightarrow> None
      | Some v \<Rightarrow>
          (let acc = acc * 64 + v; bits = bits + 6
           in if bits \<ge> 8
              then b64_loop s (acc mod 2 ^ (bits - 8)) (bits - 8) (out @ [word_of_nat (acc div 2 ^ (bits - 8) mod 256)])
              else b64_loop s acc bits out))"

definition base64_decode :: "bytes \<Rightarrow> bytes option" where
  "base64_decode s =
     (let body = trim_end_matches 0x3D s
      in if length s - length body > 2 then None
         else if length body mod 4 = 1 then None
         else do { (out, acc) \<leftarrow> b64_loop body 0 0 []; if acc \<noteq> 0 then None else Some out })"

section \<open>Metadata\<close>

fun split_where :: "(u8 \<Rightarrow> bool) \<Rightarrow> bytes \<Rightarrow> bytes list" where
  "split_where p [] = [[]]"
| "split_where p (c # s) =
     (case split_where p s of
        [] \<Rightarrow> []
      | t # ts \<Rightarrow> if p c then [] # t # ts else (c # t) # ts)"

definition b64_grammar :: "bytes \<Rightarrow> bool" where
  "b64_grammar s =
     (let body = trim_end_matches 0x3D s
      in body \<noteq> [] \<and> length s - length body \<le> 2 \<and> list_all (\<lambda>b. web_alphanumeric b \<or> b \<in> set (lit ''+/-_'')) body)"

definition sri_token :: "bytes \<Rightarrow> hash_expr option" where
  "sri_token token = do {
     (alg, b64) \<leftarrow> split_once 0x2D (hd (str_split 0x3F token));
     algorithm \<leftarrow> alg_from_token alg;
     if \<not> b64_grammar b64 then None
     else Some \<lparr>hx_algorithm = algorithm,
            hx_digest = (case base64_decode b64 of Some d \<Rightarrow> if length d = digest_len algorithm then d else [] | None \<Rightarrow> [])\<rparr> }"

fun sri_scan :: "bytes list \<Rightarrow> nat \<Rightarrow> hash_expr list \<Rightarrow> sri_error + sri_metadata" where
  "sri_scan [] count hashes = Inr \<lparr>md_hashes = hashes, md_had_tokens = (count > 0)\<rparr>"
| "sri_scan (t # ts) count hashes =
     (if t = [] then sri_scan ts count hashes
      else if count + 1 > MAX_TOKENS then Inl SriTooLarge
      else sri_scan ts (count + 1) (case sri_token t of Some h \<Rightarrow> hashes @ [h] | None \<Rightarrow> hashes))"

definition sri_parse :: "bytes \<Rightarrow> sri_error + sri_metadata" where
  "sri_parse s = (if length s > MAX_INTEGRITY_BYTES then Inl SriTooLarge else sri_scan (split_where policy_ws s) 0 [])"

definition sri_eligible :: "tainting \<Rightarrow> bool" where
  "sri_eligible t \<longleftrightarrow> t \<noteq> TaintOpaque"

definition verify_with :: "sri_metadata \<Rightarrow> tainting \<Rightarrow> bytes \<Rightarrow> (algorithm \<Rightarrow> bytes \<Rightarrow> bytes) \<Rightarrow> sri_error + unit" where
  "verify_with m t body digest =
     (if \<not> md_had_tokens m \<and> md_hashes m = [] then Inr ()
      else if \<not> sri_eligible t then Inl NotEligible
      else case strongest m of
        None \<Rightarrow> Inr ()
      | Some a \<Rightarrow>
          (let actual = digest a body
           in if list_ex (\<lambda>h. hx_digest h = actual) (filter (\<lambda>h. hx_algorithm h = a) (md_hashes m)) then Inr () else Inl SriMismatch))"

definition sri_verify :: "sri_metadata \<Rightarrow> tainting \<Rightarrow> bytes \<Rightarrow> sri_error + unit" where
  "sri_verify m t body = verify_with m t body alg_digest"

section \<open>Base64 as an encoding\<close>

text \<open>The encoding of bytes as values of six bits, without padding.\<close>

fun b64_values :: "nat list \<Rightarrow> nat list" where
  "b64_values [] = []"
| "b64_values [a] = [a div 4, a mod 4 * 16]"
| "b64_values [a, b] = [a div 4, a mod 4 * 16 + b div 16, b mod 16 * 4]"
| "b64_values (a # b # c # xs) = [a div 4, a mod 4 * 16 + b div 16, b mod 16 * 4 + c div 64, c mod 64] @ b64_values xs"

fun b64_unvalues :: "nat list \<Rightarrow> nat list option" where
  "b64_unvalues [] = Some []"
| "b64_unvalues [a] = None"
| "b64_unvalues [a, b] = (if b mod 16 = 0 then Some [a * 4 + b div 16] else None)"
| "b64_unvalues [a, b, c] = (if c mod 4 = 0 then Some [a * 4 + b div 16, b mod 16 * 16 + c div 4] else None)"
| "b64_unvalues (a # b # c # d # vs) =
     map_option (\<lambda>xs. [a * 4 + b div 16, b mod 16 * 16 + c div 4, c mod 4 * 64 + d] @ xs) (b64_unvalues vs)"

lemma b64_val_lt: "b64_val b = Some v \<Longrightarrow> v < 64"
  by (auto simp: b64_val_def word_le_nat_alt split: if_splits)

lemma six_eight:
  assumes "a < 64" "b < 64" "c < 64" "d < (64 :: nat)"
  shows "(a * 64 + b) div 16 mod 256 = a * 4 + b div 16" "(a * 64 + b) mod 16 = b mod 16"
    "(b mod 16 * 64 + c) div 4 mod 256 = b mod 16 * 16 + c div 4" "(b mod 16 * 64 + c) mod 4 = c mod 4"
    "(c mod 4 * 64 + d) mod 256 = c mod 4 * 64 + d"
proof -
  have "(a * 64 + b) div 16 = a * 4 + b div 16" using div_mult_self3 [of 16 b "a * 4"] by (simp add: algebra_simps)
  then show "(a * 64 + b) div 16 mod 256 = a * 4 + b div 16" using assms by simp
  show "(a * 64 + b) mod 16 = b mod 16" using mod_mult_self3 [of "a * 4" 16 b] by (simp add: algebra_simps)
  have "(b mod 16 * 64 + c) div 4 = b mod 16 * 16 + c div 4" using div_mult_self3 [of 4 c "b mod 16 * 16"] by (simp add: algebra_simps)
  then show "(b mod 16 * 64 + c) div 4 mod 256 = b mod 16 * 16 + c div 4" using assms by simp
  show "(b mod 16 * 64 + c) mod 4 = c mod 4" using mod_mult_self3 [of "b mod 16 * 16" 4 c] by (simp add: algebra_simps)
  show "(c mod 4 * 64 + d) mod 256 = c mod 4 * 64 + d" using assms by simp
qed

lemma b64_pair:
  assumes "b64_val x = Some a" "b64_val y = Some b"
  shows "b64_loop (x # y # s) 0 0 out = b64_loop s (b mod 16) 4 (out @ [word_of_nat (a * 4 + b div 16)])"
proof -
  have "b64_loop (x # y # s) 0 0 out = b64_loop (y # s) a 6 out" using assms(1) by simp
  also have "\<dots> = b64_loop s ((a * 64 + b) mod 16) 4 (out @ [word_of_nat ((a * 64 + b) div 16 mod 256)])"
    using assms(2) by (simp add: Let_def)
  finally show ?thesis using six_eight(1,2) [of a b 0 0] b64_val_lt assms by simp
qed

lemma b64_third:
  assumes "b64_val z = Some c" "b < 64"
  shows "b64_loop (z # s) (b mod 16) 4 out = b64_loop s (c mod 4) 2 (out @ [word_of_nat (b mod 16 * 16 + c div 4)])"
proof -
  have "b64_loop (z # s) (b mod 16) 4 out
      = b64_loop s ((b mod 16 * 64 + c) mod 4) 2 (out @ [word_of_nat ((b mod 16 * 64 + c) div 4 mod 256)])"
    using assms(1) by (simp add: Let_def)
  then show ?thesis using six_eight(3,4) [of 0 b c 0] b64_val_lt assms by simp
qed

lemma b64_fourth:
  assumes "b64_val w = Some d" "c < 64"
  shows "b64_loop (w # s) (c mod 4) 2 out = b64_loop s 0 0 (out @ [word_of_nat (c mod 4 * 64 + d)])"
proof -
  have "b64_loop (w # s) (c mod 4) 2 out = b64_loop s 0 0 (out @ [word_of_nat ((c mod 4 * 64 + d) mod 256)])"
    using assms(1) by (simp add: Let_def)
  then show ?thesis using six_eight(5) [of 0 0 c d] b64_val_lt assms by simp
qed

lemmas b64_steps = b64_pair b64_third b64_fourth

lemma b64_loop_values:
  assumes "map b64_val s = map Some vs" "length s mod 4 \<noteq> 1"
  shows "Option.bind (b64_loop s 0 0 out) (\<lambda>(o', acc). if acc \<noteq> 0 then None else Some o')
    = map_option (\<lambda>xs. out @ map word_of_nat xs) (b64_unvalues vs)"
  using assms
proof (induction vs arbitrary: s out rule: b64_unvalues.induct)
  case (3 a b)
  then obtain x y where s: "s = [x, y]" "b64_val x = Some a" "b64_val y = Some b" by (auto simp: map_eq_Cons_conv)
  show ?case unfolding s(1) b64_pair [OF s(2,3)] by simp
next
  case (4 a b c)
  then obtain x y z where s: "s = [x, y, z]" "b64_val x = Some a" "b64_val y = Some b" "b64_val z = Some c"
    by (auto simp: map_eq_Cons_conv)
  show ?case unfolding s(1) b64_pair [OF s(2,3)] b64_third [OF s(4) b64_val_lt [OF s(3)]] by simp
next
  case (5 a b c d vs)
  then obtain x y z w r where s: "s = x # y # z # w # r" "b64_val x = Some a" "b64_val y = Some b" "b64_val z = Some c"
      "b64_val w = Some d" "map b64_val r = map Some vs" by (auto simp: map_eq_Cons_conv)
  have "length r mod 4 \<noteq> 1" using 5(3) s(1) by simp
  note IH = 5(1) [OF s(6) this]
  show ?case
    unfolding s(1) b64_pair [OF s(2,3)] b64_third [OF s(4) b64_val_lt [OF s(3)]] b64_fourth [OF s(5) b64_val_lt [OF s(4)]] IH
    by (simp add: option.map_comp o_def)
qed auto

lemma b64_loop_None: "\<not> list_all (\<lambda>b. b64_val b \<noteq> None) s \<Longrightarrow> b64_loop s acc bits out = None"
  by (induction s arbitrary: acc bits out) (auto simp: Let_def split: option.split)

lemma eight_six:
  assumes "a < 256" "b < 256" "c < (256 :: nat)"
  shows "a div 4 * 4 + (a mod 4 * 16 + b div 16) div 16 = a" "(a mod 4 * 16 + b div 16) mod 16 = b div 16"
    "b div 16 * 16 + (b mod 16 * 4 + c div 64) div 4 = b" "(b mod 16 * 4 + c div 64) mod 4 = c div 64"
proof -
  have b: "b div 16 < 16" "c div 64 < 4" using assms by simp_all
  have "(a mod 4 * 16 + b div 16) div 16 = a mod 4" using div_mult_self3 [of 16 "b div 16" "a mod 4"] b(1) by simp
  then show "a div 4 * 4 + (a mod 4 * 16 + b div 16) div 16 = a" by simp
  show "(a mod 4 * 16 + b div 16) mod 16 = b div 16" using mod_mult_self3 [of "a mod 4" 16 "b div 16"] b(1) by simp
  have "(b mod 16 * 4 + c div 64) div 4 = b mod 16" using div_mult_self3 [of 4 "c div 64" "b mod 16"] b(2) by simp
  then show "b div 16 * 16 + (b mod 16 * 4 + c div 64) div 4 = b" by simp
  show "(b mod 16 * 4 + c div 64) mod 4 = c div 64" using mod_mult_self3 [of "b mod 16" 4 "c div 64"] b(2) by simp
qed

lemma b64_values_back: "\<forall>x \<in> set xs. x < 256 \<Longrightarrow> b64_unvalues (b64_values xs) = Some xs"
proof (induction xs rule: b64_values.induct)
  case (2 a)
  then show ?case using eight_six(1) [of a 0 0] by simp
next
  case (3 a b)
  then show ?case using eight_six [of a b 0] by (simp only: b64_values.simps b64_unvalues.simps) simp
next
  case (4 a b c xs)
  then have IH: "b64_unvalues (b64_values xs) = Some xs" and lt: "a < 256" "b < 256" "c < 256" by simp_all
  show ?case unfolding b64_values.simps append.simps b64_unvalues.simps IH eight_six [OF lt] by simp
qed simp

lemma b64_unvalues_back:
  "\<forall>v \<in> set vs. v < 64 \<Longrightarrow> b64_unvalues vs = Some xs \<Longrightarrow> b64_values xs = vs \<and> (\<forall>x \<in> set xs. x < 256)"
proof (induction vs arbitrary: xs rule: b64_unvalues.induct)
  case (5 a b c d vs)
  then obtain ys where ys: "b64_unvalues vs = Some ys" "xs = [a * 4 + b div 16, b mod 16 * 16 + c div 4, c mod 4 * 64 + d] @ ys" by auto
  have "b64_values ys = vs" "\<forall>x \<in> set ys. x < 256" using 5(1) [OF _ ys(1)] 5(2) by simp_all
  then show ?case using 5(2) ys(2) by auto
qed (auto split: if_splits)

lemma base64_decode_iff:
  "base64_decode s = Some bs \<longleftrightarrow>
     length s - length (trim_end_matches 0x3D s) \<le> 2
     \<and> map b64_val (trim_end_matches 0x3D s) = map Some (b64_values (map unat bs))"
proof -
  let ?b = "trim_end_matches 0x3D s"
  have len: "length (b64_values xs) mod 4 \<noteq> 1" for xs by (induction xs rule: b64_values.induct) simp_all
  have bytes: "map word_of_nat (map unat bs) = bs" by (simp add: o_def)
  have small: "\<forall>x \<in> set (map unat bs). x < 256" using unsigned_less [of "_ :: u8"] by auto
  show ?thesis
  proof (cases "length s - length ?b \<le> 2 \<and> length ?b mod 4 \<noteq> 1 \<and> list_all (\<lambda>b. b64_val b \<noteq> None) ?b")
    case True
    define vs where "vs = map (the \<circ> b64_val) ?b"
    have vs: "map b64_val ?b = map Some vs" using True by (auto simp: vs_def list_all_iff)
    have lt: "\<forall>v \<in> set vs. v < 64" using True b64_val_lt by (auto simp: vs_def list_all_iff)
    have d: "base64_decode s = map_option (map word_of_nat) (b64_unvalues vs)"
      using b64_loop_values [OF vs, of "[]"] True by (simp add: base64_decode_def Let_def map_option_idI)
    have "map_option (map word_of_nat) (b64_unvalues vs) = Some bs \<longleftrightarrow> vs = b64_values (map unat bs)"
    proof
      assume "map_option (map word_of_nat) (b64_unvalues vs) = Some bs"
      then obtain xs where xs: "b64_unvalues vs = Some xs" "map word_of_nat xs = bs" by auto
      note b = b64_unvalues_back [OF lt xs(1)]
      have "map unat bs = xs" using b xs(2) by (auto simp: unsigned_of_nat take_bit_nat_eq_self_iff intro!: map_idI)
      then show "vs = b64_values (map unat bs)" using b by simp
    next
      assume "vs = b64_values (map unat bs)"
      then show "map_option (map word_of_nat) (b64_unvalues vs) = Some bs" using b64_values_back [OF small] bytes by simp
    qed
    then show ?thesis using d vs True by (auto simp: inj_map_eq_map)
  next
    case False
    moreover have "list_all (\<lambda>b. b64_val b \<noteq> None) ?b \<and> length ?b mod 4 \<noteq> 1" if "map b64_val ?b = map Some (b64_values (map unat bs))"
    proof -
      have "b64_val ` set ?b = Some ` set (b64_values (map unat bs))" using arg_cong [OF that, of set] by simp
      moreover have "length ?b = length (b64_values (map unat bs))" using arg_cong [OF that, of length] by simp
      ultimately show ?thesis using len [of "map unat bs"] by (auto simp: list_all_iff)
    qed
    ultimately show ?thesis using b64_loop_None by (auto simp: base64_decode_def Let_def)
  qed
qed

section \<open>What a verified response satisfies\<close>

definition sri_tokens :: "bytes \<Rightarrow> bytes list" where
  "sri_tokens s = filter (\<lambda>t. t \<noteq> []) (split_where policy_ws s)"

lemma sri_scan_spec:
  "sri_scan ts count hs = Inr m \<Longrightarrow>
     md_hashes m = hs @ List.map_filter sri_token (filter (\<lambda>t. t \<noteq> []) ts)
     \<and> (md_had_tokens m \<longleftrightarrow> count > 0 \<or> filter (\<lambda>t. t \<noteq> []) ts \<noteq> [])
     \<and> (count \<le> MAX_TOKENS \<longrightarrow> count + length (filter (\<lambda>t. t \<noteq> []) ts) \<le> MAX_TOKENS)"
  by (induction ts count hs rule: sri_scan.induct) (auto simp: map_filter_simps split: if_splits option.splits)

lemma sri_parse_spec:
  assumes "sri_parse s = Inr m"
  shows "md_hashes m = List.map_filter sri_token (sri_tokens s)" "md_had_tokens m \<longleftrightarrow> sri_tokens s \<noteq> []"
    "length s \<le> MAX_INTEGRITY_BYTES" "length (sri_tokens s) \<le> MAX_TOKENS"
  using assms sri_scan_spec [of "split_where policy_ws s" 0 "[]" m]
  by (auto simp: sri_parse_def sri_tokens_def split: if_splits)

definition token_algorithm :: "bytes \<Rightarrow> algorithm option" where
  "token_algorithm token = map_option hx_algorithm (sri_token token)"

text \<open>A token that spells a digest: its name, a dash and the base64 text of the digest, padded or not.\<close>

definition token_encodes :: "bytes \<Rightarrow> algorithm \<Rightarrow> bytes \<Rightarrow> bool" where
  "token_encodes token a d \<longleftrightarrow>
     (\<exists>alg b64. split_once 0x2D (hd (str_split 0x3F token)) = Some (alg, b64) \<and> alg_from_token alg = Some a
        \<and> b64_grammar b64 \<and> map b64_val (trim_end_matches 0x3D b64) = map Some (b64_values (map unat d)))"

lemma token_encodes_iff:
  assumes "length d = digest_len a"
  shows "token_encodes token a d \<longleftrightarrow> sri_token token = Some \<lparr>hx_algorithm = a, hx_digest = d\<rparr>"
proof -
  have "d \<noteq> []" using assms by (cases a) auto
  moreover have "base64_decode b64 = Some d \<longleftrightarrow> map b64_val (trim_end_matches 0x3D b64) = map Some (b64_values (map unat d))"
    if "b64_grammar b64" for b64
    using that by (simp add: base64_decode_iff b64_grammar_def Let_def)
  ultimately show ?thesis
    using assms by (fastforce simp: token_encodes_def sri_token_def bind_eq_Some_conv split: if_splits option.splits)
qed

lemma sri_parse_hashes:
  assumes "sri_parse s = Inr m"
  shows "h \<in> set (md_hashes m) \<longleftrightarrow> (\<exists>tok \<in> set (sri_tokens s). sri_token tok = Some h)"
    and "md_hashes m = [] \<longleftrightarrow> (\<forall>tok \<in> set (sri_tokens s). token_algorithm tok = None)"
  unfolding sri_parse_spec(1) [OF assms] by (force simp: List.map_filter_def token_algorithm_def filter_empty_conv)+

lemma strongest_iff:
  assumes "sri_parse s = Inr m" "md_hashes m \<noteq> []"
  shows "strongest m = Some a \<longleftrightarrow>
    (\<exists>tok \<in> set (sri_tokens s). token_algorithm tok = Some a)
    \<and> (\<forall>tok \<in> set (sri_tokens s). \<forall>a'. token_algorithm tok = Some a' \<longrightarrow> a' \<le> a)"
proof -
  let ?A = "set (map hx_algorithm (md_hashes m))"
  have A: "b \<in> ?A \<longleftrightarrow> (\<exists>tok \<in> set (sri_tokens s). token_algorithm tok = Some b)" for b
    using sri_parse_hashes(1) [OF assms(1)] by (force simp: token_algorithm_def)
  have "?A \<noteq> {}" using assms(2) by simp
  then have "strongest m = Some a \<longleftrightarrow> a \<in> ?A \<and> (\<forall>b \<in> ?A. b \<le> a)"
    using assms(2) Max_eq_iff [of ?A a] by (auto simp: strongest_def)
  also have "\<dots> \<longleftrightarrow> (\<exists>tok \<in> set (sri_tokens s). token_algorithm tok = Some a)
      \<and> (\<forall>tok \<in> set (sri_tokens s). \<forall>a'. token_algorithm tok = Some a' \<longrightarrow> a' \<le> a)"
    unfolding Ball_def A by blast
  finally show ?thesis .
qed

lemma verify_with_iff:
  assumes "sri_parse s = Inr m" "\<forall>a. length (digest a body) = digest_len a"
  shows "verify_with m t body digest = Inr () \<longleftrightarrow>
    sri_tokens s = []
    \<or> t \<noteq> TaintOpaque
      \<and> ((\<forall>tok \<in> set (sri_tokens s). token_algorithm tok = None)
         \<or> (\<exists>a. (\<exists>tok \<in> set (sri_tokens s). token_encodes tok a (digest a body))
               \<and> (\<forall>tok \<in> set (sri_tokens s). \<forall>a'. token_algorithm tok = Some a' \<longrightarrow> a' \<le> a)))"
proof (cases "md_hashes m = []")
  case True
  then have none: "\<forall>tok \<in> set (sri_tokens s). token_algorithm tok = None" using sri_parse_hashes(2) [OF assms(1)] by simp
  show ?thesis
    using True none sri_parse_spec(2) [OF assms(1)] by (auto simp: verify_with_def strongest_def sri_eligible_def)
next
  case False
  let ?E = "\<lambda>tok a. token_encodes tok a (digest a body)"
  have some: "\<not> (\<forall>tok \<in> set (sri_tokens s). token_algorithm tok = None)" and ne: "sri_tokens s \<noteq> []"
    using False sri_parse_hashes(2) [OF assms(1)] by auto
  have enc: "?E tok a \<longleftrightarrow> sri_token tok = Some \<lparr>hx_algorithm = a, hx_digest = digest a body\<rparr>" for tok a
    using token_encodes_iff assms(2) by blast
  then have alg: "?E tok a \<Longrightarrow> token_algorithm tok = Some a" for tok a by (simp add: token_algorithm_def)
  have ex: "list_ex (\<lambda>h. hx_digest h = digest a body) (filter (\<lambda>h. hx_algorithm h = a) (md_hashes m))
      \<longleftrightarrow> (\<exists>tok \<in> set (sri_tokens s). ?E tok a)" for a
  proof -
    have "list_ex (\<lambda>h. hx_digest h = digest a body) (filter (\<lambda>h. hx_algorithm h = a) (md_hashes m))
        \<longleftrightarrow> \<lparr>hx_algorithm = a, hx_digest = digest a body\<rparr> \<in> set (md_hashes m)"
      by (auto simp: list_ex_iff) (metis hash_expr.surjective old.unit.exhaust)
    then show ?thesis using enc sri_parse_hashes(1) [OF assms(1)] by simp
  qed
  obtain a where a: "strongest m = Some a" using False by (auto simp: strongest_def)
  have v: "verify_with m t body digest = Inr () \<longleftrightarrow> t \<noteq> TaintOpaque \<and> (\<exists>tok \<in> set (sri_tokens s). ?E tok a)"
    using False a ex [of a] by (auto simp: verify_with_def sri_eligible_def Let_def)
  have "(\<exists>tok \<in> set (sri_tokens s). ?E tok a) \<longleftrightarrow>
      (\<exists>b. (\<exists>tok \<in> set (sri_tokens s). ?E tok b) \<and> (\<forall>tok \<in> set (sri_tokens s). \<forall>a'. token_algorithm tok = Some a' \<longrightarrow> a' \<le> b))"
  proof
    assume "\<exists>b. (\<exists>tok \<in> set (sri_tokens s). ?E tok b) \<and> (\<forall>tok \<in> set (sri_tokens s). \<forall>a'. token_algorithm tok = Some a' \<longrightarrow> a' \<le> b)"
    then obtain b where b: "\<exists>tok \<in> set (sri_tokens s). ?E tok b" "\<forall>tok \<in> set (sri_tokens s). \<forall>a'. token_algorithm tok = Some a' \<longrightarrow> a' \<le> b"
      by blast
    then have "strongest m = Some b" unfolding strongest_iff [OF assms(1) False] using alg by blast
    then show "\<exists>tok \<in> set (sri_tokens s). ?E tok a" using a b(1) by simp
  qed (use strongest_iff [OF assms(1) False, of a] a in blast)
  then show ?thesis by (simp only: v some ne simp_thms)
qed

end
