(* ===== verification/Websec_Frame.thy ===== *)
theory Websec_Frame
  imports Websec_Sri
begin

unbundle bit_operations_syntax

text \<open>
  Framing: \<^verbatim>\<open>X-Frame-Options\<close> and its combination with \<^verbatim>\<open>frame-ancestors\<close>
  (\<^verbatim>\<open>crates/px-websec/src/frame.rs\<close>), and sandbox flags
  (\<^verbatim>\<open>crates/px-websec/src/csp/sandbox.rs\<close>).
\<close>

section \<open>Sandbox flags\<close>

datatype sandbox_allow =
  Downloads | Forms | Modals | OrientationLock | PointerLock | Popups | PopupsToEscapeSandbox | Presentation | SandboxSameOrigin
| Scripts | StorageAccessByUserActivation | TopNavigation | TopNavigationByUserActivation | TopNavigationToCustomProtocols

definition SANDBOX_TABLE :: "(bytes \<times> sandbox_allow) list" where
  "SANDBOX_TABLE =
     [(lit ''allow-downloads'', Downloads), (lit ''allow-forms'', Forms), (lit ''allow-modals'', Modals),
      (lit ''allow-orientation-lock'', OrientationLock), (lit ''allow-pointer-lock'', PointerLock), (lit ''allow-popups'', Popups),
      (lit ''allow-popups-to-escape-sandbox'', PopupsToEscapeSandbox), (lit ''allow-presentation'', Presentation),
      (lit ''allow-same-origin'', SandboxSameOrigin), (lit ''allow-scripts'', Scripts),
      (lit ''allow-storage-access-by-user-activation'', StorageAccessByUserActivation), (lit ''allow-top-navigation'', TopNavigation),
      (lit ''allow-top-navigation-by-user-activation'', TopNavigationByUserActivation),
      (lit ''allow-top-navigation-to-custom-protocols'', TopNavigationToCustomProtocols)]"

primrec allow_index :: "sandbox_allow \<Rightarrow> nat" where
  "allow_index Downloads = 0"
| "allow_index Forms = 1"
| "allow_index Modals = 2"
| "allow_index OrientationLock = 3"
| "allow_index PointerLock = 4"
| "allow_index Popups = 5"
| "allow_index PopupsToEscapeSandbox = 6"
| "allow_index Presentation = 7"
| "allow_index SandboxSameOrigin = 8"
| "allow_index Scripts = 9"
| "allow_index StorageAccessByUserActivation = 10"
| "allow_index TopNavigation = 11"
| "allow_index TopNavigationByUserActivation = 12"
| "allow_index TopNavigationToCustomProtocols = 13"

definition allow_bit :: "sandbox_allow \<Rightarrow> u16" where
  "allow_bit a = push_bit (allow_index a) 1"

type_synonym sandbox_flags = u16

definition sandbox_lookup :: "bytes \<Rightarrow> sandbox_allow option" where
  "sandbox_lookup t = map_option snd (find (\<lambda>(n, _). eq_ignore_case t n) SANDBOX_TABLE)"

definition sandbox_from_tokens :: "bytes list \<Rightarrow> sandbox_flags" where
  "sandbox_from_tokens ts = fold (\<lambda>t bits. case sandbox_lookup t of Some a \<Rightarrow> bits OR allow_bit a | None \<Rightarrow> bits) ts 0"

definition sandbox_allows :: "sandbox_flags \<Rightarrow> sandbox_allow \<Rightarrow> bool" where
  "sandbox_allows f a \<longleftrightarrow> f AND allow_bit a \<noteq> 0"

definition forces_opaque_origin :: "sandbox_flags \<Rightarrow> bool" where
  "forces_opaque_origin f \<longleftrightarrow> \<not> sandbox_allows f SandboxSameOrigin"

definition allows_scripts :: "sandbox_flags \<Rightarrow> bool" where
  "allows_scripts f = sandbox_allows f Scripts"

definition sandbox_intersect :: "sandbox_flags \<Rightarrow> sandbox_flags \<Rightarrow> sandbox_flags" where
  "sandbox_intersect f g = f AND g"

section \<open>Framing headers\<close>

definition FRAME_HEADER_BYTES :: nat where "FRAME_HEADER_BYTES = 4096"

datatype xfo_verdict = XfoAllowed | XfoBlocked

fun xfo_values :: "bytes list \<Rightarrow> bytes list \<Rightarrow> bytes list option" where
  "xfo_values [] seen = Some seen"
| "xfo_values (line # ls) seen =
     (if length line > FRAME_HEADER_BYTES then None
      else xfo_values ls
        (fold (\<lambda>part seen. let v = to_ascii_lowercase (trim_http_ws part) in if v \<in> set seen then seen else seen @ [v])
           (str_split 0x2C line) seen))"

definition check_xfo :: "bytes list \<Rightarrow> web_origin \<Rightarrow> web_origin list \<Rightarrow> xfo_verdict" where
  "check_xfo header_values response_origin ancestors =
     (if ancestors = [] then XfoAllowed
      else case xfo_values header_values [] of
        None \<Rightarrow> XfoBlocked
      | Some vs \<Rightarrow>
          if length vs > 1 then
            (if list_ex (\<lambda>v. v = lit ''deny'' \<or> v = lit ''sameorigin'') vs then XfoBlocked else XfoAllowed)
          else if vs = [lit ''deny''] then XfoBlocked
          else if vs = [lit ''sameorigin''] then
            (if list_all (\<lambda>a. same_origin a response_origin) ancestors then XfoAllowed else XfoBlocked)
          else XfoAllowed)"

datatype frame_ancestors = FaAbsent | FaAllowed | FaBlocked

definition embedding_allowed :: "frame_ancestors \<Rightarrow> xfo_verdict \<Rightarrow> bool" where
  "embedding_allowed fa xfo = (case fa of FaAllowed \<Rightarrow> True | FaBlocked \<Rightarrow> False | FaAbsent \<Rightarrow> xfo = XfoAllowed)"

definition parse_sandbox_attribute :: "bytes option \<Rightarrow> sandbox_flags option" where
  "parse_sandbox_attribute s =
     map_option (\<lambda>v.
       let n = min (length v) (FRAME_HEADER_BYTES * 4);
           v = (if n < length v \<and> utf8_cont (v ! n) then [] else take n v)
       in sandbox_from_tokens (filter (\<lambda>t. t \<noteq> []) (split_where policy_ws v))) s"

definition sandboxed_origin :: "sandbox_flags option \<Rightarrow> web_origin \<Rightarrow> nat \<Rightarrow> web_origin \<times> nat" where
  "sandboxed_origin flags o' n =
     (case flags of Some f \<Rightarrow> if forces_opaque_origin f then new_opaque n else (o', n) | None \<Rightarrow> (o', n))"

section \<open>What the flags mean\<close>

lemma allow_bit_bit: "bit (allow_bit a) k \<longleftrightarrow> k = allow_index a"
proof -
  have "allow_index a < 16" by (cases a) simp_all
  then show ?thesis by (auto simp: allow_bit_def bit_simps)
qed

lemma sandbox_allows_bit: "sandbox_allows f a \<longleftrightarrow> bit f (allow_index a)"
proof -
  have "f AND allow_bit a = 0 \<longleftrightarrow> (\<forall>k. possible_bit TYPE(u16) k \<longrightarrow> \<not> (bit f k \<and> k = allow_index a))"
    by (subst bit_eq_iff) (simp add: bit_and_iff allow_bit_bit)
  then show ?thesis unfolding sandbox_allows_def using impossible_bit by blast
qed

lemma sandbox_intersect_allows: "sandbox_allows (sandbox_intersect f g) a \<longleftrightarrow> sandbox_allows f a \<and> sandbox_allows g a"
  by (simp add: sandbox_allows_bit sandbox_intersect_def bit_and_iff)

lemma allow_index_inject: "allow_index a = allow_index b \<longleftrightarrow> a = b"
  by (cases a; cases b) simp_all

lemma sandbox_from_tokens_allows: "sandbox_allows (sandbox_from_tokens ts) a \<longleftrightarrow> (\<exists>t \<in> set ts. sandbox_lookup t = Some a)"
proof -
  have "sandbox_allows (fold (\<lambda>t bits. case sandbox_lookup t of Some a \<Rightarrow> bits OR allow_bit a | None \<Rightarrow> bits) ts f) a
      \<longleftrightarrow> sandbox_allows f a \<or> (\<exists>t \<in> set ts. sandbox_lookup t = Some a)" for f
    by (induction ts arbitrary: f)
      (auto simp: sandbox_allows_bit bit_or_iff allow_bit_bit allow_index_inject split: option.splits)
  moreover have "\<not> sandbox_allows 0 a" by (simp add: sandbox_allows_def)
  ultimately show ?thesis by (simp add: sandbox_from_tokens_def)
qed

section \<open>What the framing header means\<close>

definition xfo_listed :: "bytes list \<Rightarrow> bytes set" where
  "xfo_listed lines = {to_ascii_lowercase (trim_http_ws part) | part line. line \<in> set lines \<and> part \<in> set (str_split 0x2C line)}"

lemma xfo_fold:
  "set (fold (\<lambda>part seen. let v = f part in if v \<in> set seen then seen else seen @ [v]) ps seen) = set seen \<union> f ` set ps"
  "distinct seen \<Longrightarrow> distinct (fold (\<lambda>part seen. let v = f part in if v \<in> set seen then seen else seen @ [v]) ps seen)"
  by (induction ps arbitrary: seen) (auto simp: Let_def)

lemma xfo_values_spec:
  "xfo_values lines seen = Some vs \<Longrightarrow>
     set vs = set seen \<union> xfo_listed lines \<and> (distinct seen \<longrightarrow> distinct vs) \<and> (\<forall>l \<in> set lines. length l \<le> FRAME_HEADER_BYTES)"
proof (induction lines arbitrary: seen)
  case (Cons line ls)
  let ?f = "\<lambda>part. to_ascii_lowercase (trim_http_ws part)"
  let ?s = "fold (\<lambda>part seen. let v = ?f part in if v \<in> set seen then seen else seen @ [v]) (str_split 0x2C line) seen"
  from Cons.prems have p: "length line \<le> FRAME_HEADER_BYTES" "xfo_values ls ?s = Some vs" by (auto split: if_splits)
  have l: "xfo_listed (line # ls) = ?f ` set (str_split 0x2C line) \<union> xfo_listed ls" by (auto simp: xfo_listed_def)
  show ?case using Cons.IH [OF p(2)] p(1) xfo_fold(1) [of ?f "str_split 0x2C line" seen] xfo_fold(2) [of seen ?f "str_split 0x2C line"] l
    by auto
qed (simp add: xfo_listed_def)

lemma xfo_values_None: "xfo_values lines seen = None \<longleftrightarrow> (\<exists>l \<in> set lines. length l > FRAME_HEADER_BYTES)"
  by (induction lines arbitrary: seen) auto

text \<open>
  A framed response is refused when a header line is over the bound, when it says \<open>deny\<close>, when
  it says \<open>sameorigin\<close> and something else besides, and when it says \<open>sameorigin\<close> and some
  ancestor is of another origin; otherwise it is allowed.
\<close>

lemma check_xfo_blocked_iff:
  assumes "ancestors \<noteq> []"
  shows "check_xfo lines o' ancestors = XfoBlocked \<longleftrightarrow>
    (\<exists>l \<in> set lines. length l > FRAME_HEADER_BYTES)
    \<or> lit ''deny'' \<in> xfo_listed lines
    \<or> lit ''sameorigin'' \<in> xfo_listed lines \<and> (xfo_listed lines \<noteq> {lit ''sameorigin''} \<or> (\<exists>a \<in> set ancestors. \<not> same_origin a o'))"
proof (cases "xfo_values lines []")
  case None
  then show ?thesis using assms xfo_values_None [of lines "[]"] by (auto simp: check_xfo_def)
next
  case (Some vs)
  then have vs: "xfo_listed lines = set vs" "distinct vs" "\<not> (\<exists>l \<in> set lines. length l > FRAME_HEADER_BYTES)"
    using xfo_values_spec [OF Some] by (auto simp: not_less)
  have ne: "lit ''deny'' \<noteq> lit ''sameorigin''" by (simp add: lit_def)
  consider "vs = []" | v where "vs = [v]" | v w r where "vs = v # w # r" by (cases vs; cases "tl vs") auto
  then show ?thesis
  proof cases
    case 3
    then have "xfo_listed lines \<noteq> {lit ''sameorigin''}" using vs(1,2) by auto
    then show ?thesis using assms Some vs(1,3) 3 by (auto simp: check_xfo_def list_ex_iff)
  qed (use assms Some vs ne in \<open>auto simp: check_xfo_def list_all_iff\<close>)
qed

lemma sandboxed_origin_opaque:
  assumes "n < U64_MAX" "sandboxed_origin (parse_sandbox_attribute (Some v)) o' n = (o'', n')"
  shows "o'' = o' \<and> n' = n \<or> o'' = OpaqueOrigin n \<and> n' = Suc n"
  using assms by (auto simp: sandboxed_origin_def new_opaque_fresh split: option.splits if_splits)

end
