(* ===== verification/Websec_Coop.thy ===== *)
theory Websec_Coop
  imports Websec_Frame
begin

text \<open>
  Opener, embedder and resource policies, \<^verbatim>\<open>crates/px-websec/src/coop.rs\<close>: the parser for
  structured-field items, the three headers, and the decisions taken from them.  A position
  in the header is the text from there on.
\<close>

definition COOP_HEADER_BYTES :: nat where "COOP_HEADER_BYTES = 2048"

section \<open>Structured-field items\<close>

record sf_item =
  sf_token :: bytes
  sf_report_to :: "bytes option"

definition ascii_alpha :: "u8 \<Rightarrow> bool" where
  "ascii_alpha c \<longleftrightarrow> 0x41 \<le> c \<and> c \<le> 0x5A \<or> 0x61 \<le> c \<and> c \<le> 0x7A"

definition is_sf_token_start :: "u8 \<Rightarrow> bool" where
  "is_sf_token_start c \<longleftrightarrow> ascii_alpha c \<or> c = 0x2A"

definition is_sf_token_char :: "u8 \<Rightarrow> bool" where
  "is_sf_token_char c \<longleftrightarrow> is_http_token_byte c \<or> c = 0x3A \<or> c = 0x2F"

definition is_sf_key_char :: "u8 \<Rightarrow> bool" where
  "is_sf_key_char c \<longleftrightarrow> 0x61 \<le> c \<and> c \<le> 0x7A \<or> digit c \<noteq> None \<or> c \<in> set (lit ''_-.*'')"

fun sf_string :: "bytes \<Rightarrow> bytes \<Rightarrow> (bytes \<times> bytes) option" where
  "sf_string [] val = None"
| "sf_string (c # s) val =
     (if c = 0x22 then Some (val, s)
      else if c = 0x5C then
        (case s of
           [] \<Rightarrow> None
         | d # s' \<Rightarrow> if d = 0x22 \<or> d = 0x5C then sf_string s' (val @ [d]) else None)
      else if 0x20 \<le> c \<and> c < 0x7F then sf_string s (val @ [c])
      else None)"

definition sf_number :: "bytes \<Rightarrow> bytes option" where
  "sf_number s =
     (let is_digit = (\<lambda>c. digit c \<noteq> None);
          int_digits = length (takeWhile is_digit s);
          r = dropWhile is_digit s
      in if int_digits = 0 \<or> int_digits > 15 then None
         else if begins_with 0x2E r then
           (if int_digits > 12 then None
            else let f = length (takeWhile is_digit (tl r)) in if f = 0 \<or> f > 3 then None else Some (dropWhile is_digit (tl r)))
         else Some r)"

definition sf_bare :: "bytes \<Rightarrow> bytes option" where
  "sf_bare s =
     (case s of
        [] \<Rightarrow> None
      | c # r \<Rightarrow>
          if c = 0x3F then (case r of [] \<Rightarrow> None | d # r' \<Rightarrow> if d = 0x30 \<or> d = 0x31 then Some r' else None)
          else if digit c \<noteq> None \<or> c = 0x2D then sf_number (if c = 0x2D then r else s)
          else if ascii_alpha c \<or> c = 0x2A then Some (dropWhile is_sf_token_char s)
          else if c = 0x3A then
            (let r' = dropWhile (\<lambda>c. web_alphanumeric c \<or> c \<in> set (lit ''+/='')) r
             in if begins_with 0x3A r' then Some (tl r') else None)
          else None)"

definition sf_value :: "bytes \<Rightarrow> (bytes option \<times> bytes) option" where
  "sf_value s =
     (if begins_with 0x22 s then map_option (\<lambda>(val, r). (Some val, r)) (sf_string (tl s) [])
      else map_option (Pair None) (sf_bare s))"

lemma sf_string_length: "sf_string s val = Some (v, r) \<Longrightarrow> length r < length s"
  by (induction s val rule: sf_string.induct) (auto split: if_splits list.splits)

lemma sf_number_length: "sf_number s = Some r \<Longrightarrow> length r \<le> length s"
proof -
  assume "sf_number s = Some r"
  moreover have "length (dropWhile P (tl (dropWhile P s))) \<le> length s" for P
    using length_dropWhile_le [of P "tl (dropWhile P s)"] length_dropWhile_le [of P s] by simp
  ultimately show ?thesis using length_dropWhile_le by (fastforce simp: sf_number_def Let_def split: if_splits)
qed

lemma sf_value_length: "sf_value s = Some (v, r) \<Longrightarrow> length r \<le> length s"
proof -
  assume a: "sf_value s = Some (v, r)"
  have tl_drop: "length (tl (dropWhile P x)) \<le> length x" for P and x :: bytes using length_dropWhile_le [of P x] by simp
  show ?thesis
  proof (cases "begins_with 0x22 s")
    case True
    then show ?thesis using a sf_string_length [of "tl s" "[]" _ r] by (fastforce simp: sf_value_def)
  next
    case False
    then have "sf_bare s = Some r" using a by (auto simp: sf_value_def)
    then show ?thesis
      using sf_number_length [of s r] sf_number_length [of "tl s" r] length_dropWhile_le [of is_sf_token_char s]
        tl_drop [of "\<lambda>c. web_alphanumeric c \<or> c \<in> set (lit ''+/='')" "tl s"]
      by (auto simp: sf_bare_def Let_def split: list.splits if_splits)
  qed
qed

definition sf_ws :: "u8 \<Rightarrow> bool" where "sf_ws c \<longleftrightarrow> c = 0x20 \<or> c = 0x09"

text \<open>One parameter, after its semicolon: the key, the string it is set to if any, and the rest.\<close>

definition sf_param :: "bytes \<Rightarrow> (bytes \<times> bytes option \<times> bytes) option" where
  "sf_param s =
     (case dropWhile (\<lambda>c. c = 0x20) s of
        [] \<Rightarrow> None
      | c # r \<Rightarrow>
          if \<not> (0x61 \<le> c \<and> c \<le> 0x7A \<or> c = 0x2A) then None
          else let key = c # takeWhile is_sf_key_char r; r = dropWhile is_sf_key_char r
               in if begins_with 0x3D r then map_option (\<lambda>(v, r). (key, v, r)) (sf_value (tl r)) else Some (key, None, r))"

lemma sf_param_length: "sf_param s = Some (k, v, r) \<Longrightarrow> length r < length s"
proof -
  assume a: "sf_param s = Some (k, v, r)"
  then obtain c t where t: "dropWhile (\<lambda>c. c = 0x20) s = c # t" by (auto simp: sf_param_def split: list.splits)
  have s: "length t < length s" using length_dropWhile_le [of "\<lambda>c. c = 0x20" s] t by simp
  have d: "length (dropWhile is_sf_key_char t) \<le> length t" by (rule length_dropWhile_le)
  from a t have "r = dropWhile is_sf_key_char t \<or> sf_value (tl (dropWhile is_sf_key_char t)) = Some (v, r)"
    by (auto simp: sf_param_def Let_def split: if_splits)
  then have "length r \<le> length (dropWhile is_sf_key_char t)" using sf_value_length by fastforce
  then show ?thesis using s d by simp
qed

function sf_params :: "bytes \<Rightarrow> sf_item \<Rightarrow> sf_item option" where
  "sf_params s item =
     (case dropWhile sf_ws s of
        [] \<Rightarrow> Some item
      | c # r \<Rightarrow>
          if c \<noteq> 0x3B then None
          else case sf_param r of
            None \<Rightarrow> None
          | Some (key, v, r') \<Rightarrow> sf_params r' (if key = lit ''report-to'' then item\<lparr>sf_report_to := v\<rparr> else item))"
  by pat_completeness auto
termination
proof (relation "measure (\<lambda>(s, _). length s)")
  fix s item c r p key q v r'
  assume a: "dropWhile sf_ws s = c # r" "sf_param r = Some p" "(key, q) = p" "(v, r') = q"
  have "length r < length s" using length_dropWhile_le [of sf_ws s] a(1) by simp
  moreover have "length r' < length r" using sf_param_length [of r key v r'] a by simp
  ultimately show "((r', if key = lit ''report-to'' then item\<lparr>sf_report_to := v\<rparr> else item), s, item) \<in> measure (\<lambda>(s, _). length s)" by simp
qed simp

declare sf_params.simps [simp del]

definition parse_sf_token_item :: "bytes \<Rightarrow> sf_item option" where
  "parse_sf_token_item input =
     (if length input > COOP_HEADER_BYTES \<or> \<not> is_ascii input then None
      else let s = trim_where sf_ws input
           in if s = [] \<or> \<not> is_sf_token_start (hd s) then None
              else sf_params (dropWhile is_sf_token_char s) \<lparr>sf_token = takeWhile is_sf_token_char s, sf_report_to = None\<rparr>)"

section \<open>Embedder and opener policies\<close>

datatype coep = CoepUnsafeNone | RequireCorp | Credentialless

record embedder_policy =
  ep_value :: coep
  ep_report_to :: "bytes option"

definition parse_coep :: "bytes option \<Rightarrow> embedder_policy" where
  "parse_coep header =
     (case Option.bind header parse_sf_token_item of
        None \<Rightarrow> \<lparr>ep_value = CoepUnsafeNone, ep_report_to = None\<rparr>
      | Some item \<Rightarrow>
          \<lparr>ep_value = (if sf_token item = lit ''require-corp'' then RequireCorp
              else if sf_token item = lit ''credentialless'' then Credentialless else CoepUnsafeNone),
           ep_report_to = sf_report_to item\<rparr>)"

definition is_isolation_compatible :: "coep \<Rightarrow> bool" where
  "is_isolation_compatible c \<longleftrightarrow> c = RequireCorp \<or> c = Credentialless"

datatype coop = CoopUnsafeNone | SameOriginAllowPopups | CoopSameOrigin | SameOriginPlusCoep

record opener_policy =
  op_value :: coop
  op_report_to :: "bytes option"

definition parse_coop :: "bytes option \<Rightarrow> coep \<Rightarrow> opener_policy" where
  "parse_coop header c =
     (case Option.bind header parse_sf_token_item of
        None \<Rightarrow> \<lparr>op_value = CoopUnsafeNone, op_report_to = None\<rparr>
      | Some item \<Rightarrow>
          \<lparr>op_value = (if sf_token item = lit ''same-origin'' then (if is_isolation_compatible c then SameOriginPlusCoep else CoopSameOrigin)
              else if sf_token item = lit ''same-origin-allow-popups'' then SameOriginAllowPopups else CoopUnsafeNone),
           op_report_to = sf_report_to item\<rparr>)"

definition is_cross_origin_isolated :: "coop \<Rightarrow> bool" where
  "is_cross_origin_isolated c \<longleftrightarrow> c = SameOriginPlusCoep"

record coop_state =
  cs_value :: coop
  cs_origin :: web_origin
  cs_initial_about_blank :: bool

definition coop_matches :: "coop_state \<Rightarrow> coop_state \<Rightarrow> bool" where
  "coop_matches a b =
     (if cs_value a = CoopUnsafeNone \<and> cs_value b = CoopUnsafeNone then True
      else if cs_value a = CoopUnsafeNone \<or> cs_value b = CoopUnsafeNone then False
      else cs_value a = cs_value b \<and> same_origin (cs_origin a) (cs_origin b))"

definition needs_group_switch :: "coop_state \<Rightarrow> coop_state \<Rightarrow> bool \<Rightarrow> bool" where
  "needs_group_switch current response top_level =
     (if \<not> top_level then False
      else if coop_matches current response then False
      else if cs_initial_about_blank current \<and> cs_value current = SameOriginAllowPopups \<and> cs_value response = CoopUnsafeNone then False
      else True)"

section \<open>Resource policies\<close>

datatype corp = CorpSameOrigin | CorpSameSite | CorpCrossOrigin

definition parse_corp :: "bytes list \<Rightarrow> corp option" where
  "parse_corp header_lines =
     (case header_lines of
        [first] \<Rightarrow>
          (let v = trim_http_ws first
           in if v = lit ''same-origin'' then Some CorpSameOrigin
              else if v = lit ''same-site'' then Some CorpSameSite
              else if v = lit ''cross-origin'' then Some CorpCrossOrigin
              else None)
      | _ \<Rightarrow> None)"

datatype corp_verdict = CorpAllowed | CorpBlocked

record corp_response =
  cp_url :: url
  cp_corp :: "corp option"
  cp_credentials :: bool

definition corp_policy :: "coep \<Rightarrow> corp_response \<Rightarrow> bool \<Rightarrow> corp option" where
  "corp_policy embedder response for_navigation =
     (case cp_corp response of
        Some p \<Rightarrow> Some p
      | None \<Rightarrow>
          (case embedder of
             CoepUnsafeNone \<Rightarrow> None
           | Credentialless \<Rightarrow> if cp_credentials response \<or> for_navigation then Some CorpSameOrigin else None
           | RequireCorp \<Rightarrow> Some CorpSameOrigin))"

definition corp_internal :: "web_origin \<Rightarrow> coep \<Rightarrow> corp_response \<Rightarrow> bool \<Rightarrow> resolver_fn \<Rightarrow> nat \<Rightarrow> corp_verdict \<times> nat" where
  "corp_internal o' embedder response for_navigation resolver n =
     (if for_navigation \<and> embedder = CoepUnsafeNone then (CorpAllowed, n)
      else case origin_from_url (cp_url response) n of
        (resp_origin, n') \<Rightarrow>
          (case corp_policy embedder response for_navigation of
             None \<Rightarrow> CorpAllowed
           | Some CorpCrossOrigin \<Rightarrow> CorpAllowed
           | Some CorpSameOrigin \<Rightarrow> if same_origin o' resp_origin then CorpAllowed else CorpBlocked
           | Some CorpSameSite \<Rightarrow>
               if schemelessly_same_site o' resp_origin resolver
                  \<and> (web_origin_scheme o' = Some (lit ''https'') \<or> u_scheme (cp_url response) \<noteq> lit ''https'')
               then CorpAllowed else CorpBlocked, n'))"

definition corp_check :: "web_origin \<Rightarrow> coep \<Rightarrow> corp_response \<Rightarrow> bool \<Rightarrow> resolver_fn \<Rightarrow> nat \<Rightarrow> corp_verdict \<times> nat" where
  "corp_check o' embedder response for_navigation resolver n =
     (case corp_internal o' CoepUnsafeNone response for_navigation resolver n of
        (CorpBlocked, n') \<Rightarrow> (CorpBlocked, n')
      | (CorpAllowed, n') \<Rightarrow> corp_internal o' embedder response for_navigation resolver n')"

definition corp_report_only_would_block :: "web_origin \<Rightarrow> coep \<Rightarrow> corp_response \<Rightarrow> bool \<Rightarrow> resolver_fn \<Rightarrow> nat \<Rightarrow> bool \<times> nat" where
  "corp_report_only_would_block o' report_only response for_navigation resolver n =
     (case corp_internal o' report_only response for_navigation resolver n of (v, n') \<Rightarrow> (v = CorpBlocked, n'))"

definition coep_check_response :: "web_origin \<Rightarrow> coep \<Rightarrow> tainting \<Rightarrow> corp_response \<Rightarrow> resolver_fn \<Rightarrow> nat \<Rightarrow> corp_verdict \<times> nat" where
  "coep_check_response o' embedder t response resolver n =
     (if t = TaintOpaque then corp_check o' embedder response False resolver n else (CorpAllowed, n))"

definition coep_navigation_check :: "coep \<Rightarrow> coep \<Rightarrow> corp_verdict" where
  "coep_navigation_check parent response =
     (if is_isolation_compatible parent \<and> \<not> is_isolation_compatible response then CorpBlocked else CorpAllowed)"

definition is_secure_context :: "context_node list \<Rightarrow> bool" where
  "is_secure_context chain \<longleftrightarrow> chain \<noteq> [] \<and> list_all node_is_trustworthy chain"

section \<open>What isolation guarantees\<close>

text \<open>A page that is cross-origin isolated shares its group with no page that is not, or is of another origin.\<close>

lemma isolated_group:
  assumes "is_cross_origin_isolated (cs_value current)" "\<not> needs_group_switch current response True"
  shows "is_cross_origin_isolated (cs_value response) \<and> same_origin (cs_origin current) (cs_origin response)"
  using assms by (auto simp: is_cross_origin_isolated_def needs_group_switch_def coop_matches_def split: if_splits)

lemma isolated_group_back:
  assumes "is_cross_origin_isolated (cs_value response)" "\<not> needs_group_switch current response True"
  shows "is_cross_origin_isolated (cs_value current) \<and> same_origin (cs_origin current) (cs_origin response)"
  using assms by (auto simp: is_cross_origin_isolated_def needs_group_switch_def coop_matches_def split: if_splits)

text \<open>Hence all the documents a group shows one after the other are isolated together.\<close>

definition stays_in_group :: "coop_state list \<Rightarrow> bool" where
  "stays_in_group docs = successively (\<lambda>current response. \<not> needs_group_switch current response True) docs"

lemma isolated_group_hd:
  "stays_in_group docs \<Longrightarrow> d \<in> set docs \<Longrightarrow> is_cross_origin_isolated (cs_value d) \<Longrightarrow>
     is_cross_origin_isolated (cs_value (hd docs)) \<and> cs_origin (hd docs) = cs_origin d"
proof (induction docs)
  case (Cons c docs)
  show ?case
  proof (cases "d = c")
    case False
    then have d: "d \<in> set docs" "docs \<noteq> []" using Cons.prems(2) by auto
    then have "stays_in_group docs" "\<not> needs_group_switch c (hd docs) True"
      using Cons.prems(1) by (auto simp: stays_in_group_def successively_Cons)
    then show ?thesis using Cons.IH d Cons.prems(3) isolated_group_back by (fastforce simp: same_origin_def)
  qed (use Cons.prems in simp)
qed simp

lemma isolated_group_all:
  "stays_in_group docs \<Longrightarrow> docs \<noteq> [] \<Longrightarrow> is_cross_origin_isolated (cs_value (hd docs)) \<Longrightarrow> e \<in> set docs \<Longrightarrow>
     is_cross_origin_isolated (cs_value e) \<and> cs_origin e = cs_origin (hd docs)"
proof (induction docs)
  case (Cons c docs)
  show ?case
  proof (cases "e = c")
    case False
    then have e: "e \<in> set docs" "docs \<noteq> []" using Cons.prems(4) by auto
    then have g: "stays_in_group docs" "\<not> needs_group_switch c (hd docs) True"
      using Cons.prems(1) by (auto simp: stays_in_group_def successively_Cons)
    then have "is_cross_origin_isolated (cs_value (hd docs)) \<and> same_origin (cs_origin c) (cs_origin (hd docs))"
      using isolated_group Cons.prems(3) by simp
    then show ?thesis using Cons.IH [OF g(1) e(2) _ e(1)] by (simp add: same_origin_def)
  qed (use Cons.prems in simp)
qed simp

text \<open>
  Under an isolating embedder policy an opaque response is let in only when it is of the page's
  origin, opted in, or, under \<open>credentialless\<close>, was fetched without credentials and says nothing.
\<close>

definition corp_opted_in :: "web_origin \<Rightarrow> corp_response \<Rightarrow> resolver_fn \<Rightarrow> nat \<Rightarrow> bool" where
  "corp_opted_in o' response resolver n \<longleftrightarrow>
     cp_corp response = Some CorpCrossOrigin
     \<or> cp_corp response = Some CorpSameSite
       \<and> (\<exists>k \<ge> n. schemelessly_same_site o' (fst (origin_from_url (cp_url response) k)) resolver)
     \<or> (\<exists>k \<ge> n. same_origin o' (fst (origin_from_url (cp_url response) k)))"

lemma origin_counter: "n \<le> snd (origin_from_url u n)"
  by (auto simp: origin_from_url_def from_url_inner_def new_opaque_def checked_add_def split: option.split)

lemma corp_internal_counter: "n \<le> snd (corp_internal o' embedder response for_navigation resolver n)"
  using origin_counter [of n "cp_url response"] by (simp add: corp_internal_def case_prod_beta)

lemma isolated_opt_in:
  assumes "coep_check_response o' c TaintOpaque response resolver n = (CorpAllowed, n')" "is_isolation_compatible c"
  shows "corp_opted_in o' response resolver n
    \<or> c = Credentialless \<and> cp_corp response = None \<and> \<not> cp_credentials response"
proof -
  obtain k where k: "corp_internal o' CoepUnsafeNone response False resolver n = (CorpAllowed, k)"
      "corp_internal o' c response False resolver k = (CorpAllowed, n')"
    using assms(1) by (auto simp: coep_check_response_def corp_check_def split: prod.splits corp_verdict.splits)
  have le: "n \<le> k" using corp_internal_counter [of n o' CoepUnsafeNone response False resolver] k(1) by simp
  show ?thesis
    using k(2) assms(2) le
    by (cases "origin_from_url (cp_url response) k")
      (auto simp: corp_internal_def corp_policy_def corp_opted_in_def is_isolation_compatible_def
        split: option.splits corp.splits if_splits coep.splits dest: spec [of _ k])
qed

text \<open>A secure context prohibits mixed content.\<close>

lemma secure_context_prohibits_mixed:
  "is_secure_context (mx_document c # mx_ancestors c) \<Longrightarrow> prohibits_mixed c"
  by (simp add: is_secure_context_def prohibits_mixed_def)

end
