(* ===== verification/Websec_Isolation_Properties.thy ===== *)
theory Websec_Isolation_Properties
  imports Websec_Coop
begin

text \<open>
  The properties of integrity metadata, of the digests it is checked with, and of cross-origin
  isolation.
\<close>

section \<open>Integrity\<close>

text \<open>
  The digests are those of FIPS 180-4.  The code slides a window of sixteen words over the
  message schedule and pads only the tail of the message; the standard indexes a schedule of 64
  or 80 words and pads the message as a whole.
\<close>

definition fips_digest :: "algorithm \<Rightarrow> bytes \<Rightarrow> bytes" where
  "fips_digest a data =
     (case a of Sha256 \<Rightarrow> fips_sha256 data | Sha384 \<Rightarrow> fips_sha384 data | Sha512 \<Rightarrow> fips_sha512 data)"

lemma alg_digest_fips: "length data < 2 ^ 64 \<Longrightarrow> alg_digest a data = fips_digest a data"
  using sha256_fips sha512_fips by (cases a) (simp_all add: fips_digest_def)

definition sample_message :: bytes where "sample_message = lit ''abc''"

lemma sample_digest: "sha256 sample_message =
    [0xBA, 0x78, 0x16, 0xBF, 0x8F, 0x01, 0xCF, 0xEA, 0x41, 0x41, 0x40, 0xDE, 0x5D, 0xAE, 0x22, 0x23,
     0xB0, 0x03, 0x61, 0xA3, 0x96, 0x17, 0x7A, 0x9C, 0xB4, 0x10, 0xFF, 0x61, 0xF2, 0x00, 0x15, 0xAD]"
  by code_simp

text \<open>
  C32: what an \<open>integrity\<close> attribute lets through, exactly.  A response (of less than \<open>2 ^ 64\<close>
  bytes) passes when the attribute names nothing at all; otherwise it must be readable by the
  page and, if any token names a known algorithm, some token of the strongest algorithm named is
  the base64 text of the FIPS 180-4 digest of the body.  Weaker tokens never help, and a token
  whose digest is malformed never disables the check.
\<close>

theorem integrity_admits_exactly:
  assumes "sri_parse s = Inr m" and "length body < 2 ^ 64"
  shows "sri_verify m t body = Inr () \<longleftrightarrow>
    sri_tokens s = []
    \<or> t \<noteq> TaintOpaque
      \<and> ((\<forall>tok \<in> set (sri_tokens s). token_algorithm tok = None)
         \<or> (\<exists>a. (\<exists>tok \<in> set (sri_tokens s). token_encodes tok a (fips_digest a body))
               \<and> (\<forall>tok \<in> set (sri_tokens s). \<forall>a'. token_algorithm tok = Some a' \<longrightarrow> a' \<le> a)))"
proof -
  have "\<forall>a. length (alg_digest a body) = digest_len a" by (simp add: alg_digest_length)
  from verify_with_iff [where digest = alg_digest and body = body, OF assms(1) this, of t] show ?thesis
    unfolding sri_verify_def by (simp only: alg_digest_fips [OF assms(2)])
qed

definition sample_base64 :: bytes where
  "sample_base64 = lit ''ungWv48Bz+pBQUDeXa4iI7ADYaOWF3qctBD/YfIAFa0=''"

definition sample_integrity :: bytes where
  "sample_integrity = lit ''sha256-ungWv48Bz+pBQUDeXa4iI7ADYaOWF3qctBD/YfIAFa0=''"

theorem integrity_admits_exactly_witness:
  "\<exists>m. sri_parse sample_integrity = Inr m \<and> sri_verify m TaintCors sample_message = Inr ()
     \<and> (\<exists>a. token_encodes sample_integrity a (fips_digest a sample_message))"
proof -
  define m where "m = \<lparr>md_hashes = [\<lparr>hx_algorithm = Sha256, hx_digest = sha256 sample_message\<rparr>], md_had_tokens = True\<rparr>"
  have len: "length sample_integrity \<le> MAX_INTEGRITY_BYTES" by (simp add: sample_integrity_def MAX_INTEGRITY_BYTES_def lit_def)
  have toks: "split_where policy_ws sample_integrity = [sample_integrity]" "sri_tokens sample_integrity = [sample_integrity]" by code_simp+
  have tok: "sri_token sample_integrity = Some \<lparr>hx_algorithm = Sha256, hx_digest = sha256 sample_message\<rparr>"
  proof -
    have "split_once 0x2D (hd (str_split 0x3F sample_integrity)) = Some (lit ''sha256'', sample_base64)"
      "alg_from_token (lit ''sha256'') = Some Sha256" "b64_grammar sample_base64" by code_simp+
    moreover have "map b64_val (trim_end_matches 0x3D sample_base64) = map Some (b64_values (map unat (sha256 sample_message)))"
      unfolding sample_digest by code_simp
    ultimately have "token_encodes sample_integrity Sha256 (sha256 sample_message)" unfolding token_encodes_def by blast
    then show ?thesis by (simp add: token_encodes_iff)
  qed
  have "sample_integrity \<noteq> []" by (simp add: sample_integrity_def lit_def)
  then have p: "sri_parse sample_integrity = Inr m"
    using len toks(1) tok by (simp add: sri_parse_def m_def MAX_TOKENS_def)
  have v: "sri_verify m TaintCors sample_message = Inr ()"
    by (simp add: sri_verify_def verify_with_def m_def sri_eligible_def strongest_def)
  have "length sample_message < 2 ^ 64" by (simp add: sample_message_def lit_def)
  from integrity_admits_exactly [OF p this, of TaintCors] v have
    "\<exists>a. token_encodes sample_integrity a (fips_digest a sample_message)"
    unfolding toks(2) by (auto simp: token_algorithm_def tok)
  with p v show ?thesis by (intro exI [of _ m] conjI)
qed

section \<open>Isolation\<close>




end
