(* ===== verification/Store_Checksum.thy ===== *)
theory Store_Checksum
  imports Pelorus_Prelude
begin

text \<open>
  The checksums of \<^verbatim>\<open>crates/px-store/src/checksum.rs\<close>: the bitwise CRC-32 that
  frames every log record and the FNV-1a hash the profile migration uses beside it.
  The lemmas show that the CRC may be computed incrementally and that it separates any
  two inputs that differ in a single byte.
\<close>

section \<open>Definitions\<close>

definition CRC_POLY :: u32 where
  "CRC_POLY = 0xEDB88320"

definition crc_bit :: "u32 \<Rightarrow> u32" where
  "crc_bit c = (if c AND 1 \<noteq> 0 then drop_bit 1 c XOR CRC_POLY else drop_bit 1 c)"

definition crc_byte :: "u32 \<Rightarrow> u8 \<Rightarrow> u32" where
  "crc_byte c b = (crc_bit ^^ 8) (c XOR ucast b)"

definition crc32_update :: "u32 \<Rightarrow> bytes \<Rightarrow> u32" where
  "crc32_update previous data = NOT (foldl crc_byte (NOT previous) data)"

definition crc32 :: "bytes \<Rightarrow> u32" where
  "crc32 data = crc32_update 0 data"

definition FNV_OFFSET :: u64 where
  "FNV_OFFSET = 0xcbf29ce484222325"

definition fnv1a64_update :: "u64 \<Rightarrow> bytes \<Rightarrow> u64" where
  "fnv1a64_update hash data =
     foldl (\<lambda>h b. (h XOR ucast b) * 0x00000100000001b3) hash data"

definition fnv1a64 :: "bytes \<Rightarrow> u64" where
  "fnv1a64 data = fnv1a64_update FNV_OFFSET data"

section \<open>Continuing a checksum\<close>

lemma crc32_update_append: "crc32_update (crc32_update p xs) ys = crc32_update p (xs @ ys)"
  by (simp add: crc32_update_def)

lemma fnv1a64_update_append:
  "fnv1a64_update (fnv1a64_update h xs) ys = fnv1a64_update h (xs @ ys)"
  by (simp add: fnv1a64_update_def)

section \<open>One changed byte changes the checksum\<close>

text \<open>
  The top bit of the polynomial is set, so the top bit of one CRC step records the bit
  that was shifted out: a step loses nothing.
\<close>

lemma bit_crc_bit_top: "bit (crc_bit c) 31 = bit c 0"
  by (simp add: crc_bit_def CRC_POLY_def bit_simps and_one_eq odd_iff_mod_2_eq_one bit_0
      impossible_bit)

lemma crc_bit_inj: "inj crc_bit"
proof (rule injI)
  fix c d :: u32
  assume eq: "crc_bit c = crc_bit d"
  have low: "bit c 0 = bit d 0"
    using arg_cong [OF eq, of "\<lambda>w. bit w 31"] by (simp only: bit_crc_bit_top)
  then have "(c AND 1 \<noteq> 0) = (d AND 1 \<noteq> 0)"
    by (simp add: and_one_eq bit_0 odd_iff_mod_2_eq_one)
  with eq have "drop_bit 1 c = drop_bit 1 d"
    by (auto simp: crc_bit_def split: if_splits)
  then have high: "bit c (Suc n) = bit d (Suc n)" for n
    using bit_drop_bit_eq [of 1 c] bit_drop_bit_eq [of 1 d] by (metis comp_apply plus_1_eq_Suc)
  show "c = d"
  proof (rule bit_word_eqI)
    fix n show "bit c n = bit d n" using low high by (cases n) auto
  qed
qed

lemma crc_steps_inj: "inj (crc_bit ^^ n)"
  by (rule inj_fn) (rule crc_bit_inj)

lemma crc_byte_inj_state: "crc_byte c b = crc_byte d b \<Longrightarrow> c = d"
  unfolding crc_byte_def by (drule injD [OF crc_steps_inj]) simp

lemma crc_byte_inj_byte: "crc_byte c a = crc_byte c b \<Longrightarrow> a = b"
  unfolding crc_byte_def by (drule injD [OF crc_steps_inj]) simp

lemma foldl_crc_inj: "foldl crc_byte c xs = foldl crc_byte d xs \<Longrightarrow> c = d"
  by (induction xs arbitrary: c d) (auto dest: crc_byte_inj_state)

lemma crc32_update_inj: "crc32_update p xs = crc32_update q xs \<Longrightarrow> p = q"
  by (auto simp: crc32_update_def dest: foldl_crc_inj)

lemma crc32_update_one_byte:
  assumes "crc32_update p (xs @ a # ys) = crc32_update p (xs @ b # ys)"
  shows "a = b"
  using assms by (auto simp: crc32_update_def dest!: foldl_crc_inj crc_byte_inj_byte)

end
