(* ===== verification/Store_Format.thy ===== *)
theory Store_Format
  imports Store_Checksum
begin

text \<open>
  The on-disk log format of \<^verbatim>\<open>crates/px-store/src/format.rs\<close>: the sixteen-byte
  header, the checksummed record framing and the bounds-checked reader.  The lemmas show
  that records round-trip, that what decodes is exactly what the encoder would have
  written, and that a truncated record or a record with one damaged byte never decodes.
\<close>

section \<open>Errors\<close>

text \<open>
  The error types of \<^verbatim>\<open>crates/px-store/src/error.rs\<close>.  The operating system's
  error value is opaque to the store, so it is the type parameter of \<open>store_error\<close>.
\<close>

datatype quota_error =
    KeyTooLarge nat
  | ValueTooLarge nat
  | TooManyEntries
  | PartitionFull nat
  | GlobalFull nat
  | PartitionKeyTooLarge

datatype format_error =
    NotAStore
  | UnsupportedVersion u32 u32
  | BadHeader
  | RecordTooLarge

datatype 'io store_error =
    Quota quota_error
  | Format format_error
  | Io 'io
  | Poisoned

section \<open>Constants\<close>

definition MAGIC :: bytes where "MAGIC = [0x50, 0x58, 0x53, 0x4C]"
definition VERSION :: u32 where "VERSION = 1"
definition HEADER_LEN :: nat where "HEADER_LEN = 16"
definition FRAME_LEN :: nat where "FRAME_LEN = 8"
definition MAX_KEY_BYTES :: nat where "MAX_KEY_BYTES = 1024"
definition MAX_VALUE_BYTES :: nat where "MAX_VALUE_BYTES = 2 ^ 20"
definition MAX_PARTITION_ID_BYTES :: nat where "MAX_PARTITION_ID_BYTES = 1024"
definition MAX_BODY_BYTES :: nat where
  "MAX_BODY_BYTES = 2 + 2 + MAX_PARTITION_ID_BYTES + 2 + MAX_KEY_BYTES + MAX_VALUE_BYTES"
definition OP_PUT :: u8 where "OP_PUT = 1"
definition OP_DELETE :: u8 where "OP_DELETE = 2"

lemmas format_limits =
  MAX_KEY_BYTES_def MAX_VALUE_BYTES_def MAX_PARTITION_ID_BYTES_def MAX_BODY_BYTES_def
  HEADER_LEN_def FRAME_LEN_def U64_MAX_def

section \<open>The bounds-checked reader\<close>

record reader =
  rd_buf :: bytes
  rd_pos :: nat

definition reader_new :: "bytes \<Rightarrow> reader" where
  "reader_new b = \<lparr>rd_buf = b, rd_pos = 0\<rparr>"

definition reader_take :: "nat \<Rightarrow> reader \<Rightarrow> (bytes \<times> reader) option" where
  "reader_take n r = do {
     end \<leftarrow> checked_add (rd_pos r) n;
     if end \<le> length (rd_buf r)
     then Some (take n (drop (rd_pos r) (rd_buf r)), r\<lparr>rd_pos := end\<rparr>)
     else None }"

definition reader_rest :: "reader \<Rightarrow> bytes \<times> reader" where
  "reader_rest r = (drop (rd_pos r) (rd_buf r), r\<lparr>rd_pos := length (rd_buf r)\<rparr>)"

definition reader_u8 :: "reader \<Rightarrow> (u8 \<times> reader) option" where
  "reader_u8 r = do {
     (xs, r) \<leftarrow> reader_take 1 r;
     case xs of [] \<Rightarrow> None | x # _ \<Rightarrow> Some (x, r) }"

definition reader_u16 :: "reader \<Rightarrow> (u16 \<times> reader) option" where
  "reader_u16 r = do {
     (xs, r) \<leftarrow> reader_take 2 r;
     w \<leftarrow> u16_from_le xs;
     Some (w, r) }"

definition reader_u32 :: "reader \<Rightarrow> (u32 \<times> reader) option" where
  "reader_u32 r = do {
     (xs, r) \<leftarrow> reader_take 4 r;
     w \<leftarrow> u32_from_le xs;
     Some (w, r) }"

definition reader_is_empty :: "reader \<Rightarrow> bool" where
  "reader_is_empty r \<longleftrightarrow> rd_pos r \<ge> length (rd_buf r)"

section \<open>The header\<close>

definition header_bytes :: bytes where
  "header_bytes = (let h = MAGIC @ u32_to_le VERSION @ u32_to_le 0 in h @ u32_to_le (crc32 h))"

datatype header = Fresh | Valid

definition starts_with :: "bytes \<Rightarrow> bytes \<Rightarrow> bool" where
  "starts_with canonical b \<longleftrightarrow> take (length b) canonical = b"

definition check_header :: "bytes \<Rightarrow> format_error + header" where
  "check_header b =
     (if b = [] then Inr Fresh
      else if length b < HEADER_LEN then
        (if starts_with header_bytes b then Inr Fresh else Inl NotAStore)
      else case reader_take 4 (reader_new b) of
        None \<Rightarrow> Inl NotAStore
      | Some (magic, r) \<Rightarrow>
          if magic \<noteq> MAGIC then Inl NotAStore
          else case reader_u32 r of None \<Rightarrow> Inl BadHeader | Some (version, r) \<Rightarrow>
          (case reader_u32 r of None \<Rightarrow> Inl BadHeader | Some (flags, r) \<Rightarrow>
            if version \<noteq> VERSION \<or> flags \<noteq> 0 then Inl (UnsupportedVersion version flags)
            else case reader_u32 r of None \<Rightarrow> Inl BadHeader | Some (crc, r) \<Rightarrow>
              if crc \<noteq> crc32 (take 12 b) then Inl BadHeader else Inr Valid))"

section \<open>Records\<close>

datatype op =
    Put u8 bytes bytes bytes
  | Delete u8 bytes bytes

definition encode_record :: "op \<Rightarrow> format_error + bytes" where
  "encode_record p =
     (let (code, ns, pid, key, val) =
        (case p of Put ns pid key val \<Rightarrow> (OP_PUT, ns, pid, key, val)
                 | Delete ns pid key \<Rightarrow> (OP_DELETE, ns, pid, key, []))
      in if length pid > MAX_PARTITION_ID_BYTES \<or> length key > MAX_KEY_BYTES
            \<or> length val > MAX_VALUE_BYTES
         then Inl RecordTooLarge
         else case try_from_u16 (length pid) of None \<Rightarrow> Inl RecordTooLarge | Some pid_len \<Rightarrow>
           (case try_from_u16 (length key) of None \<Rightarrow> Inl RecordTooLarge | Some key_len \<Rightarrow>
             let body = [code, ns] @ u16_to_le pid_len @ pid @ u16_to_le key_len @ key @ val
             in case try_from_u32 (length body) of None \<Rightarrow> Inl RecordTooLarge | Some len \<Rightarrow>
               let len_bytes = u32_to_le len;
                   crc = crc32_update (crc32 len_bytes) body
               in Inr (len_bytes @ u32_to_le crc @ body)))"

datatype decoded =
    NextEnd
  | NextRecord op nat
  | Torn

definition parse_body :: "bytes \<Rightarrow> op option" where
  "parse_body body = do {
     (code, r) \<leftarrow> reader_u8 (reader_new body);
     (ns, r) \<leftarrow> reader_u8 r;
     (pid_len, r) \<leftarrow> reader_u16 r;
     (pid, r) \<leftarrow> reader_take (unat pid_len) r;
     (key_len, r) \<leftarrow> reader_u16 r;
     (key, r) \<leftarrow> reader_take (unat key_len) r;
     if length pid > MAX_PARTITION_ID_BYTES \<or> length key > MAX_KEY_BYTES then None
     else let val = fst (reader_rest r)
       in if code = OP_PUT \<and> length val \<le> MAX_VALUE_BYTES then Some (Put ns pid key val)
          else if code = OP_DELETE \<and> val = [] then Some (Delete ns pid key)
          else None }"

definition decode_record :: "bytes \<Rightarrow> decoded" where
  "decode_record b =
     (if b = [] then NextEnd
      else case do { (len, r) \<leftarrow> reader_u32 (reader_new b);
                     (crc, r) \<leftarrow> reader_u32 r;
                     Some (len, crc, r) } of
        None \<Rightarrow> Torn
      | Some (len, crc, r) \<Rightarrow>
          if unat len > MAX_BODY_BYTES then Torn
          else case reader_take (unat len) r of
            None \<Rightarrow> Torn
          | Some (body, _) \<Rightarrow>
              if crc \<noteq> crc32_update (crc32 (u32_to_le len)) body then Torn
              else case parse_body body of
                Some p \<Rightarrow> NextRecord p (FRAME_LEN + unat len)
              | None \<Rightarrow> Torn)"

section \<open>Reader laws\<close>

text \<open>
  What a reader will still produce is the part of the buffer after its cursor; every law
  is stated on that view.  \<open>rd_small\<close> bounds the cursor, so that the overflow check
  in \<open>reader_take\<close> passes.
\<close>

definition rd_view :: "reader \<Rightarrow> nat \<Rightarrow> bytes \<Rightarrow> bool" where
  "rd_view r n xs \<longleftrightarrow> rd_pos r = n \<and> n \<le> length (rd_buf r) \<and> drop n (rd_buf r) = xs"

lemma rd_view_new [simp, codec]: "rd_view (reader_new b) 0 b"
  by (simp add: rd_view_def reader_new_def)

lemma reader_take_view:
  assumes "rd_view r p zs" and "p + n \<le> U64_MAX"
  shows "reader_take n r =
     (if n \<le> length zs then Some (take n zs, r\<lparr>rd_pos := p + n\<rparr>) else None)"
  using assms by (auto simp: rd_view_def reader_take_def checked_add_def)

lemma rd_view_advance:
  "rd_view r p zs \<Longrightarrow> n \<le> length zs \<Longrightarrow> rd_view (r\<lparr>rd_pos := p + n\<rparr>) (p + n) (drop n zs)"
  by (auto simp: rd_view_def add.commute)

lemma reader_takeE:
  assumes "reader_take n r = Some (xs, r')" and "rd_view r p zs"
  obtains ys where "zs = xs @ ys" "length xs = n" "rd_view r' (p + n) ys"
proof
  from assms have n: "n \<le> length zs" "xs = take n zs" "r' = r\<lparr>rd_pos := p + n\<rparr>"
    by (auto simp: reader_take_def checked_add_def rd_view_def split: if_splits bind_splits)
  then show "zs = xs @ drop n zs" "length xs = n" by simp_all
  from n assms(2) show "rd_view r' (p + n) (drop n zs)" by (simp add: rd_view_advance)
qed

lemma reader_take_app:
  assumes "rd_view r p (xs @ ys)" and "p + length xs \<le> U64_MAX"
  obtains r' where "reader_take (length xs) r = Some (xs, r')" "rd_view r' (p + length xs) ys"
  using reader_take_view [OF assms] rd_view_advance [OF assms(1), of "length xs"] by auto

lemma reader_u8_app:
  assumes "rd_view r p (x # ys)" and "p < U64_MAX"
  obtains r' where "reader_u8 r = Some (x, r')" "rd_view r' (p + 1) ys"
proof -
  obtain r' where "reader_take (length [x]) r = Some ([x], r')" "rd_view r' (p + length [x]) ys"
    by (rule reader_take_app [of r p "[x]" ys]) (use assms in simp_all)
  then show thesis by (intro that) (simp_all add: reader_u8_def)
qed

lemma reader_u16_app:
  assumes "rd_view r p (u16_to_le w @ ys)" and "p + 2 \<le> U64_MAX"
  obtains r' where "reader_u16 r = Some (w, r')" "rd_view r' (p + 2) ys"
proof -
  obtain r' where "reader_take (length (u16_to_le w)) r = Some (u16_to_le w, r')"
    "rd_view r' (p + length (u16_to_le w)) ys"
    by (rule reader_take_app [OF assms(1)]) (use assms(2) in simp)
  then show thesis by (intro that) (simp_all add: reader_u16_def)
qed

lemma reader_u32_app:
  assumes "rd_view r p (u32_to_le w @ ys)" and "p + 4 \<le> U64_MAX"
  obtains r' where "reader_u32 r = Some (w, r')" "rd_view r' (p + 4) ys"
proof -
  obtain r' where "reader_take (length (u32_to_le w)) r = Some (u32_to_le w, r')"
    "rd_view r' (p + length (u32_to_le w)) ys"
    by (rule reader_take_app [OF assms(1)]) (use assms(2) in simp)
  then show thesis by (intro that) (simp_all add: reader_u32_def)
qed

lemma reader_u8E:
  assumes "reader_u8 r = Some (x, r')" and "rd_view r p zs"
  obtains ys where "zs = x # ys" "rd_view r' (p + 1) ys"
proof -
  from assms(1) obtain xs r1 where t: "reader_take 1 r = Some (xs, r1)"
    and c: "(case xs of [] \<Rightarrow> None | x # _ \<Rightarrow> Some (x, r1)) = Some (x, r')"
    by (auto simp: reader_u8_def bind_eq_Some_conv)
  from c have "xs = x # tl xs" "r1 = r'" by (cases xs; simp)+
  with t assms(2) show thesis by (metis One_nat_def append_Cons append_Nil length_0_conv
        length_Cons nat.inject reader_takeE that)
qed

lemma reader_u16E:
  assumes "reader_u16 r = Some (w, r')" and "rd_view r p zs"
  obtains ys where "zs = u16_to_le w @ ys" "rd_view r' (p + 2) ys"
  using assms
  by (auto simp: reader_u16_def bind_eq_Some_conv elim!: reader_takeE dest!: u16_from_le_inverse)

lemma reader_u32E:
  assumes "reader_u32 r = Some (w, r')" and "rd_view r p zs"
  obtains ys where "zs = u32_to_le w @ ys" "rd_view r' (p + 4) ys"
  using assms
  by (auto simp: reader_u32_def bind_eq_Some_conv elim!: reader_takeE dest!: u32_from_le_inverse)

lemma reader_u32_short:
  assumes "rd_view r p zs" and "length zs < 4"
  shows "reader_u32 r = None"
  using assms by (cases "reader_u32 r") (auto elim!: reader_u32E)

lemma reader_rest_view: "rd_view r p zs \<Longrightarrow> fst (reader_rest r) = zs"
  by (simp add: rd_view_def reader_rest_def)

section \<open>What the encoder produces\<close>

text \<open>The body and the frame of a record, as plain concatenations.\<close>

fun op_fields :: "op \<Rightarrow> u8 \<times> u8 \<times> bytes \<times> bytes \<times> bytes" where
  "op_fields (Put ns pid key val) = (OP_PUT, ns, pid, key, val)"
| "op_fields (Delete ns pid key) = (OP_DELETE, ns, pid, key, [])"

definition op_fits :: "op \<Rightarrow> bool" where
  "op_fits p \<longleftrightarrow> (case op_fields p of (_, _, pid, key, val) \<Rightarrow>
     length pid \<le> MAX_PARTITION_ID_BYTES \<and> length key \<le> MAX_KEY_BYTES
     \<and> length val \<le> MAX_VALUE_BYTES)"

definition op_body :: "op \<Rightarrow> bytes" where
  "op_body p = (case op_fields p of (code, ns, pid, key, val) \<Rightarrow>
     code # ns # u16_to_le (word_of_nat (length pid)) @ pid
       @ u16_to_le (word_of_nat (length key)) @ key @ val)"

definition frame :: "bytes \<Rightarrow> bytes" where
  "frame body = (let len = u32_to_le (word_of_nat (length body))
     in len @ u32_to_le (crc32_update (crc32 len) body) @ body)"

lemma length_op_body: "op_fits p \<Longrightarrow> length (op_body p) \<le> MAX_BODY_BYTES"
  by (auto simp: op_fits_def op_body_def format_limits split: prod.splits)

lemma length_frame [simp, codec]: "length (frame body) = FRAME_LEN + length body"
  by (simp add: frame_def Let_def FRAME_LEN_def)

lemma encode_record_eq:
  "encode_record p = (if op_fits p then Inr (frame (op_body p)) else Inl RecordTooLarge)"
  using length_op_body [of p]
  by (cases p)
    (auto simp: encode_record_def op_fits_def op_body_def frame_def Let_def try_from_u16_def
      try_from_u32_def format_limits)

lemma encode_record_Inr:
  "encode_record p = Inr rec \<longleftrightarrow> op_fits p \<and> rec = frame (op_body p)"
  by (auto simp: encode_record_eq)

section \<open>Decoding a frame\<close>

lemma unat_of_small: "n \<le> MAX_BODY_BYTES \<Longrightarrow> unat (word_of_nat n :: u32) = n"
  by (simp add: unat_of_nat format_limits)

lemma unat_of_small16: "n \<le> 1024 \<Longrightarrow> unat (word_of_nat n :: u16) = n"
  by (simp add: unat_of_nat)

lemma decode_frame_at:
  assumes "unat len = length body" and "length body \<le> MAX_BODY_BYTES"
  shows "decode_record (u32_to_le len @ u32_to_le crc @ body @ rest) =
    (if crc \<noteq> crc32_update (crc32 (u32_to_le len)) body then Torn
     else case parse_body body of Some p \<Rightarrow> NextRecord p (FRAME_LEN + length body) | None \<Rightarrow> Torn)"
proof -
  let ?b = "u32_to_le len @ u32_to_le crc @ body @ rest"
  obtain r1 where r1: "reader_u32 (reader_new ?b) = Some (len, r1)"
    "rd_view r1 (0 + 4) (u32_to_le crc @ body @ rest)"
    by (rule reader_u32_app [OF rd_view_new]) (simp add: U64_MAX_def)
  obtain r2 where r2: "reader_u32 r1 = Some (crc, r2)" "rd_view r2 (0 + 4 + 4) (body @ rest)"
    by (rule reader_u32_app [OF r1(2)]) (simp add: U64_MAX_def)
  obtain r3 where r3: "reader_take (length body) r2 = Some (body, r3)"
    by (rule reader_take_app [OF r2(2)]) (use assms(2) in \<open>simp add: format_limits\<close>)
  from r1(1) r2(1) r3 assms show ?thesis by (simp add: decode_record_def split: option.split)
qed

lemma decode_frame:
  assumes "length body \<le> MAX_BODY_BYTES"
  shows "decode_record (frame body @ rest) =
    (case parse_body body of Some p \<Rightarrow> NextRecord p (FRAME_LEN + length body) | None \<Rightarrow> Torn)"
  using decode_frame_at [of "word_of_nat (length body)" body _ rest] assms
  by (simp add: frame_def Let_def unat_of_small)

lemma parse_op_body:
  assumes "op_fits p"
  shows "parse_body (op_body p) = Some p"
proof -
  obtain code ns pid key val where f: "op_fields p = (code, ns, pid, key, val)"
    by (cases "op_fields p")
  from assms f have len: "length pid \<le> 1024" "length key \<le> 1024" "length val \<le> MAX_VALUE_BYTES"
    by (auto simp: op_fits_def format_limits)
  have b: "op_body p = code # ns # u16_to_le (word_of_nat (length pid)) @ pid
       @ u16_to_le (word_of_nat (length key)) @ key @ val" (is "_ = code # ns # ?w1 @ pid @ ?w2 @ key @ val")
    using f by (simp add: op_body_def)
  obtain r1 where r1: "reader_u8 (reader_new (op_body p)) = Some (code, r1)"
    "rd_view r1 (0 + 1) (ns # ?w1 @ pid @ ?w2 @ key @ val)"
    by (rule reader_u8_app [OF rd_view_new [of "op_body p", unfolded b]])
      (auto simp: U64_MAX_def b)
  obtain r2 where r2: "reader_u8 r1 = Some (ns, r2)" "rd_view r2 (0 + 1 + 1) (?w1 @ pid @ ?w2 @ key @ val)"
    by (rule reader_u8_app [OF r1(2)]) (simp add: U64_MAX_def)
  obtain r3 where r3: "reader_u16 r2 = Some (word_of_nat (length pid), r3)"
    "rd_view r3 (0 + 1 + 1 + 2) (pid @ ?w2 @ key @ val)"
    by (rule reader_u16_app [OF r2(2)]) (simp add: U64_MAX_def)
  obtain r4 where r4: "reader_take (length pid) r3 = Some (pid, r4)"
    "rd_view r4 (0 + 1 + 1 + 2 + length pid) (?w2 @ key @ val)"
    by (rule reader_take_app [OF r3(2)]) (use len in \<open>simp add: U64_MAX_def\<close>)
  obtain r5 where r5: "reader_u16 r4 = Some (word_of_nat (length key), r5)"
    "rd_view r5 (0 + 1 + 1 + 2 + length pid + 2) (key @ val)"
    by (rule reader_u16_app [OF r4(2)]) (use len in \<open>simp add: U64_MAX_def\<close>)
  obtain r6 where r6: "reader_take (length key) r5 = Some (key, r6)"
    "rd_view r6 (0 + 1 + 1 + 2 + length pid + 2 + length key) val"
    by (rule reader_take_app [OF r5(2)]) (use len in \<open>simp add: U64_MAX_def\<close>)
  show ?thesis
    using f len r1(1) r2(1) r3(1) r4(1) r5(1) r6(1) reader_rest_view [OF r6(2)]
    by (cases p) (auto simp: parse_body_def unat_of_small16 format_limits OP_PUT_def OP_DELETE_def)
qed

lemma decode_op:
  assumes "op_fits p"
  shows "decode_record (frame (op_body p) @ rest) = NextRecord p (length (frame (op_body p)))"
  using assms by (simp add: decode_frame length_op_body parse_op_body)

lemma decode_Nil [simp]: "decode_record [] = NextEnd"
  by (simp add: decode_record_def)

section \<open>Only canonical records decode\<close>

lemma parse_body_Some:
  assumes "parse_body body = Some p"
  shows "op_fits p \<and> op_body p = body"
proof -
  from assms obtain code r1 ns r2 pl r3 pid r4 kl r5 key r6 where
    s: "reader_u8 (reader_new body) = Some (code, r1)" "reader_u8 r1 = Some (ns, r2)"
      "reader_u16 r2 = Some (pl, r3)" "reader_take (unat pl) r3 = Some (pid, r4)"
      "reader_u16 r4 = Some (kl, r5)" "reader_take (unat kl) r5 = Some (key, r6)"
    and lim: "length pid \<le> MAX_PARTITION_ID_BYTES" "length key \<le> MAX_KEY_BYTES"
    and p: "(let val = fst (reader_rest r6)
       in if code = OP_PUT \<and> length val \<le> MAX_VALUE_BYTES then Some (Put ns pid key val)
          else if code = OP_DELETE \<and> val = [] then Some (Delete ns pid key)
          else None) = Some p"
    by (auto simp: parse_body_def bind_eq_Some_conv Let_def split: if_splits)
  obtain b1 where b1: "body = code # b1" "rd_view r1 (0 + 1) b1"
    by (rule reader_u8E [OF s(1) rd_view_new])
  obtain b2 where b2: "b1 = ns # b2" "rd_view r2 (0 + 1 + 1) b2"
    by (rule reader_u8E [OF s(2) b1(2)])
  obtain b3 where b3: "b2 = u16_to_le pl @ b3" "rd_view r3 (0 + 1 + 1 + 2) b3"
    by (rule reader_u16E [OF s(3) b2(2)])
  obtain b4 where b4: "b3 = pid @ b4" "length pid = unat pl"
    "rd_view r4 (0 + 1 + 1 + 2 + unat pl) b4"
    by (rule reader_takeE [OF s(4) b3(2)])
  obtain b5 where b5: "b4 = u16_to_le kl @ b5" "rd_view r5 (0 + 1 + 1 + 2 + unat pl + 2) b5"
    by (rule reader_u16E [OF s(5) b4(3)])
  obtain val where b6: "b5 = key @ val" "length key = unat kl"
    "rd_view r6 (0 + 1 + 1 + 2 + unat pl + 2 + unat kl) val"
    by (rule reader_takeE [OF s(6) b5(2)])
  have "body = code # ns # u16_to_le (word_of_nat (length pid)) @ pid
      @ u16_to_le (word_of_nat (length key)) @ key @ val"
    using b1(1) b2(1) b3(1) b4(1,2) b5(1) b6(1,2) by simp
  with p lim show ?thesis
    by (auto simp: reader_rest_view [OF b6(3)] op_fits_def op_body_def split: if_splits)
qed

lemma decode_record_Some:
  assumes "decode_record b = NextRecord p n"
  shows "op_fits p \<and> n = length (frame (op_body p)) \<and> (\<exists>rest. b = frame (op_body p) @ rest)"
proof -
  from assms obtain len r1 crc r2 body r3 where
    s: "reader_u32 (reader_new b) = Some (len, r1)" "reader_u32 r1 = Some (crc, r2)"
      "reader_take (unat len) r2 = Some (body, r3)"
    and crc: "crc = crc32_update (crc32 (u32_to_le len)) body"
    and p: "parse_body body = Some p" and n: "n = FRAME_LEN + unat len"
    by (auto simp: decode_record_def bind_eq_Some_conv
        split: if_splits option.splits)
  obtain b1 where b1: "b = u32_to_le len @ b1" "rd_view r1 (0 + 4) b1"
    by (rule reader_u32E [OF s(1) rd_view_new])
  obtain b2 where b2: "b1 = u32_to_le crc @ b2" "rd_view r2 (0 + 4 + 4) b2"
    by (rule reader_u32E [OF s(2) b1(2)])
  obtain rest where b3: "b2 = body @ rest" "length body = unat len"
    by (rule reader_takeE [OF s(3) b2(2)])
  from parse_body_Some [OF p] have "op_fits p" "op_body p = body" by simp_all
  moreover have "b = frame body @ rest"
    using b1(1) b2(1) b3 crc by (simp add: frame_def Let_def)
  ultimately show ?thesis using n b3(2) by auto
qed

section \<open>Torn and damaged records\<close>

lemma decode_short:
  assumes "b \<noteq> []" and "length b < FRAME_LEN"
  shows "decode_record b = Torn"
proof (cases "reader_u32 (reader_new b)")
  case None
  with assms(1) show ?thesis by (simp add: decode_record_def)
next
  case (Some a)
  then obtain len r1 where s: "reader_u32 (reader_new b) = Some (len, r1)" by (cases a) simp
  obtain b1 where b1: "b = u32_to_le len @ b1" "rd_view r1 (0 + 4) b1"
    by (rule reader_u32E [OF s rd_view_new])
  with assms(2) have "reader_u32 r1 = None"
    by (intro reader_u32_short [OF b1(2)]) (simp add: FRAME_LEN_def)
  with s assms(1) show ?thesis by (simp add: decode_record_def)
qed

lemma decode_missing_body:
  assumes "length body < unat len" and "unat len \<le> MAX_BODY_BYTES"
  shows "decode_record (u32_to_le len @ u32_to_le crc @ body) = Torn"
proof -
  let ?b = "u32_to_le len @ u32_to_le crc @ body"
  obtain r1 where r1: "reader_u32 (reader_new ?b) = Some (len, r1)"
    "rd_view r1 (0 + 4) (u32_to_le crc @ body)"
    by (rule reader_u32_app [OF rd_view_new]) (simp add: U64_MAX_def)
  obtain r2 where r2: "reader_u32 r1 = Some (crc, r2)" "rd_view r2 (0 + 4 + 4) body"
    by (rule reader_u32_app [OF r1(2)]) (simp add: U64_MAX_def)
  have "reader_take (unat len) r2 = None"
    using reader_take_view [OF r2(2), of "unat len"] assms by (simp add: format_limits)
  with r1(1) r2(1) show ?thesis by (simp add: decode_record_def)
qed

lemma decode_torn_frame:
  assumes "length body \<le> MAX_BODY_BYTES" and "0 < k" and "k < length (frame body)"
  shows "decode_record (take k (frame body)) = Torn"
proof (cases "k < FRAME_LEN")
  case True
  then show ?thesis using assms by (intro decode_short) (auto simp: frame_def Let_def)
next
  case False
  let ?len = "word_of_nat (length body) :: u32"
  from False have "take k (frame body) =
    u32_to_le ?len @ u32_to_le (crc32_update (crc32 (u32_to_le ?len)) body) @ take (k - 8) body"
    by (simp add: frame_def Let_def FRAME_LEN_def)
  moreover have "length (take (k - 8) body) < unat ?len"
    using assms False by (simp add: unat_of_small FRAME_LEN_def)
  ultimately show ?thesis using assms(1) by (simp add: decode_missing_body unat_of_small)
qed

lemma decode_damaged_crc:
  assumes "length body \<le> MAX_BODY_BYTES" and "w \<noteq> crc32_update (crc32 (u32_to_le len)) body"
    and "unat len = length body"
  shows "decode_record (u32_to_le len @ u32_to_le w @ body @ rest) = Torn"
  using assms by (simp add: decode_frame_at)

lemma list_update_crc:
  assumes "j < length body" and "b \<noteq> body ! j"
  shows "crc32_update c (body[j := b]) \<noteq> crc32_update c body"
proof
  assume "crc32_update c (body[j := b]) = crc32_update c body"
  with assms(1) have "crc32_update c (take j body @ b # drop (Suc j) body)
     = crc32_update c (take j body @ body ! j # drop (Suc j) body)"
    by (simp add: upd_conv_take_nth_drop id_take_nth_drop [symmetric])
  then have "b = body ! j" by (rule crc32_update_one_byte)
  with assms(2) show False by simp
qed

lemma four_bytes_word:
  assumes "length xs = 4"
  obtains w where "xs = u32_to_le w"
  using assms u32_from_le_length [of xs] u32_from_le_inverse [of xs] by fastforce

lemma decode_damaged_frame:
  assumes "length body \<le> MAX_BODY_BYTES" and "4 \<le> i" and "i < length (frame body)"
    and "b \<noteq> frame body ! i"
  shows "decode_record ((frame body)[i := b] @ rest) = Torn"
proof -
  let ?len = "word_of_nat (length body) :: u32"
  let ?crc = "crc32_update (crc32 (u32_to_le ?len)) body"
  have f: "frame body = u32_to_le ?len @ u32_to_le ?crc @ body"
    by (simp add: frame_def Let_def)
  have ulen: "unat ?len = length body" using assms(1) by (simp add: unat_of_small)
  show ?thesis
  proof (cases "i < 8")
    case True
    obtain w where w: "(u32_to_le ?crc)[i - 4 := b] = u32_to_le w"
      by (rule four_bytes_word [of "(u32_to_le ?crc)[i - 4 := b]"]) simp
    from True assms(2,4) have "u32_to_le ?crc ! (i - 4) \<noteq> b"
      by (auto simp: f nth_append split: if_splits)
    with w True assms(2) have "w \<noteq> ?crc"
      by (metis length_list_update length_u32_to_le less_diff_conv2 nth_list_update_eq numeral_Bit0)
    moreover have "i - 4 < 4" using True by simp
    with assms(2) have "(frame body)[i := b] = u32_to_le ?len @ u32_to_le w @ body"
      by (simp add: f list_update_append w)
    ultimately show ?thesis using assms(1) ulen by (simp add: decode_damaged_crc)
  next
    case False
    from False assms(3,4) have j: "i - 8 < length body" "b \<noteq> body ! (i - 8)"
      by (auto simp: f nth_append FRAME_LEN_def split: if_splits)
    have "\<not> i - 4 < 4" using False by simp
    then have "(frame body)[i := b] = u32_to_le ?len @ u32_to_le ?crc @ body[i - 8 := b]"
      using False by (simp add: f list_update_append)
    moreover have "?crc \<noteq> crc32_update (crc32 (u32_to_le ?len)) (body[i - 8 := b])"
      using list_update_crc [OF j] by metis
    ultimately show ?thesis
      using assms(1) ulen decode_damaged_crc [of "body[i - 8 := b]" ?crc ?len rest] by simp
  qed
qed

end
