(* ===== verification/Store_Engine.thy ===== *)
theory Store_Engine
  imports Store_Format Net_Partition "HOL-Library.Product_Lexorder" "HOL-Library.List_Lexorder"
begin

text \<open>
  The in-memory state of the partitioned store, \<^verbatim>\<open>crates/px-store/src/engine.rs\<close>:
  partition ids and their encoding, quota checks, the mutations, recovery from a log and
  the compacted snapshot.  Counters are 64-bit and saturate as in the code.
\<close>

section \<open>Limits and namespaces\<close>

definition MAX_ENTRIES_PER_PARTITION :: nat where "MAX_ENTRIES_PER_PARTITION = 10000"
definition PARTITION_QUOTA_BYTES :: nat where "PARTITION_QUOTA_BYTES = 4 * 2 ^ 20"
definition GLOBAL_QUOTA_BYTES :: nat where "GLOBAL_QUOTA_BYTES = 64 * 2 ^ 20"
definition ENTRY_OVERHEAD_BYTES :: nat where "ENTRY_OVERHEAD_BYTES = 48"

lemmas engine_limits =
  MAX_ENTRIES_PER_PARTITION_def PARTITION_QUOTA_BYTES_def GLOBAL_QUOTA_BYTES_def
  ENTRY_OVERHEAD_BYTES_def

datatype namespace = Storage | Cookies

fun ns_code :: "namespace \<Rightarrow> u8" where
  "ns_code Storage = 0"
| "ns_code Cookies = 1"

definition ns_from_code :: "u8 \<Rightarrow> namespace option" where
  "ns_from_code c = (if c = 0 then Some Storage else if c = 1 then Some Cookies else None)"

section \<open>Partition ids\<close>

datatype part_id = PartId (pid_site: bytes) (pid_scheme: bytes) (pid_host: bytes) (pid_port: u16)

text \<open>The derived order of the struct: field by field, strings by their bytes.\<close>

definition pid_tuple :: "part_id \<Rightarrow> bytes \<times> bytes \<times> bytes \<times> u16" where
  "pid_tuple p = (pid_site p, pid_scheme p, pid_host p, pid_port p)"

lemma pid_tuple_inj: "pid_tuple p = pid_tuple q \<longleftrightarrow> p = q"
  by (cases p; cases q) (auto simp: pid_tuple_def)

instantiation part_id :: linorder
begin

definition less_eq_part_id :: "part_id \<Rightarrow> part_id \<Rightarrow> bool" where
  "less_eq_part_id p q \<longleftrightarrow> pid_tuple p \<le> pid_tuple q"

definition less_part_id :: "part_id \<Rightarrow> part_id \<Rightarrow> bool" where
  "less_part_id p q \<longleftrightarrow> pid_tuple p < pid_tuple q"

instance
proof
  fix x y z :: part_id
  show "x < y \<longleftrightarrow> x \<le> y \<and> \<not> y \<le> x"
    unfolding less_eq_part_id_def less_part_id_def by (rule less_le_not_le)
  show "x \<le> x"
    unfolding less_eq_part_id_def by simp
  show "x \<le> y \<Longrightarrow> y \<le> z \<Longrightarrow> x \<le> z"
    unfolding less_eq_part_id_def by (rule order_trans)
  show "x \<le> y \<Longrightarrow> y \<le> x \<Longrightarrow> x = y"
    unfolding less_eq_part_id_def by (metis order.antisym pid_tuple_inj)
  show "x \<le> y \<or> y \<le> x"
    unfolding less_eq_part_id_def by (rule linear)
qed

end

fun encode_fields :: "bytes list \<Rightarrow> bytes option" where
  "encode_fields [] = Some []"
| "encode_fields (f # fs) = do {
     len \<leftarrow> try_from_u16 (length f);
     rest \<leftarrow> encode_fields fs;
     Some (u16_to_le len @ f @ rest) }"

definition pid_encode :: "part_id \<Rightarrow> bytes option" where
  "pid_encode p = do {
     out \<leftarrow> encode_fields [pid_site p, pid_scheme p, pid_host p];
     Some (out @ u16_to_le (pid_port p)) }"

definition decode_field :: "reader \<Rightarrow> (bytes \<times> reader) option" where
  "decode_field r = do {
     (len, r) \<leftarrow> reader_u16 r;
     (raw, r) \<leftarrow> reader_take (unat len) r;
     if is_ascii raw then Some (raw, r) else None }"

definition pid_decode :: "bytes \<Rightarrow> part_id option" where
  "pid_decode b = do {
     (site, r) \<leftarrow> decode_field (reader_new b);
     (scheme, r) \<leftarrow> decode_field r;
     (host, r) \<leftarrow> decode_field r;
     (port, r) \<leftarrow> reader_u16 r;
     if \<not> reader_is_empty r \<or> site = [] \<or> host = [] then None
     else if scheme \<noteq> str_https \<and> scheme \<noteq> str_http then None
     else Some (PartId site scheme host port) }"

definition pid_from_key :: "partition_key \<Rightarrow> quota_error + part_id" where
  "pid_from_key k =
     (let o' = key_origin k;
          pid = PartId (top_level_site k) (scheme o') (host o') (port o')
      in case pid_encode pid of
           None \<Rightarrow> Inl PartitionKeyTooLarge
         | Some e \<Rightarrow> if length e > MAX_PARTITION_ID_BYTES then Inl PartitionKeyTooLarge
                     else Inr pid)"

section \<open>The engine\<close>

type_synonym entry_key = "u8 \<times> bytes"

record partition =
  entries :: "(entry_key, bytes) btree"
  part_bytes :: nat

record engine =
  parts :: "(part_id, partition) btree"
  total :: nat

definition partition_default :: partition where
  "partition_default = \<lparr>entries = [], part_bytes = 0\<rparr>"

definition engine_default :: engine where
  "engine_default = \<lparr>parts = [], total = 0\<rparr>"

definition cost :: "bytes \<Rightarrow> bytes \<Rightarrow> nat" where
  "cost key val = sat_add (sat_add (length key) (length val)) ENTRY_OVERHEAD_BYTES"

definition check_put :: "engine \<Rightarrow> part_id \<Rightarrow> namespace \<Rightarrow> bytes \<Rightarrow> bytes \<Rightarrow> quota_error + unit" where
  "check_put e pid ns key val =
     (if length key > MAX_KEY_BYTES then Inl (KeyTooLarge (length key))
      else if length val > MAX_VALUE_BYTES then Inl (ValueTooLarge (length val))
      else let part = map_of (parts e) pid;
               existing = do { p \<leftarrow> part; old \<leftarrow> map_of (entries p) (ns_code ns, key); Some (cost key old) }
        in if existing = None
              \<and> (case part of None \<Rightarrow> False | Some p \<Rightarrow> length (entries p) \<ge> MAX_ENTRIES_PER_PARTITION)
           then Inl TooManyEntries
           else let old = (case existing of None \<Rightarrow> 0 | Some c \<Rightarrow> c);
                    new_cost = cost key val;
                    bytes_now = (case part of None \<Rightarrow> 0 | Some p \<Rightarrow> part_bytes p);
                    would_part = sat_add (bytes_now - old) new_cost
             in if would_part > PARTITION_QUOTA_BYTES then Inl (PartitionFull would_part)
                else let would_total = sat_add (total e - old) new_cost
                  in if would_total > GLOBAL_QUOTA_BYTES then Inl (GlobalFull would_total)
                     else Inr ())"

definition engine_put :: "engine \<Rightarrow> part_id \<Rightarrow> namespace \<Rightarrow> bytes \<Rightarrow> bytes \<Rightarrow> engine" where
  "engine_put e pid ns key val =
     (let part = (case map_of (parts e) pid of None \<Rightarrow> partition_default | Some p \<Rightarrow> p);
          new_cost = cost key val;
          old = (case map_of (entries part) (ns_code ns, key) of None \<Rightarrow> 0 | Some v \<Rightarrow> cost key v);
          part' = part\<lparr>entries := bt_insert (ns_code ns, key) val (entries part),
                       part_bytes := sat_add (part_bytes part - old) new_cost\<rparr>
      in e\<lparr>parts := bt_insert pid part' (parts e), total := sat_add (total e - old) new_cost\<rparr>)"

definition engine_delete :: "engine \<Rightarrow> part_id \<Rightarrow> namespace \<Rightarrow> bytes \<Rightarrow> bool \<times> engine" where
  "engine_delete e pid ns key =
     (case map_of (parts e) pid of
        None \<Rightarrow> (False, e)
      | Some part \<Rightarrow>
          (case map_of (entries part) (ns_code ns, key) of
             None \<Rightarrow> (False, e)
           | Some old \<Rightarrow>
               let freed = cost key old;
                   part' = part\<lparr>entries := bt_remove (ns_code ns, key) (entries part),
                                part_bytes := part_bytes part - freed\<rparr>;
                   e' = e\<lparr>total := total e - freed\<rparr>
               in (True,
                   if entries part' = [] then e'\<lparr>parts := bt_remove pid (parts e)\<rparr>
                   else e'\<lparr>parts := bt_insert pid part' (parts e)\<rparr>)))"

definition engine_get :: "engine \<Rightarrow> part_id \<Rightarrow> namespace \<Rightarrow> bytes \<Rightarrow> bytes option" where
  "engine_get e pid ns key = do {
     p \<leftarrow> map_of (parts e) pid;
     map_of (entries p) (ns_code ns, key) }"

definition engine_keys :: "engine \<Rightarrow> part_id \<Rightarrow> namespace \<Rightarrow> bytes list" where
  "engine_keys e pid ns =
     (case map_of (parts e) pid of
        None \<Rightarrow> []
      | Some p \<Rightarrow> map snd (filter (\<lambda>(n, _). n = ns_code ns) (map fst (entries p))))"

definition engine_usage :: "engine \<Rightarrow> part_id \<Rightarrow> nat" where
  "engine_usage e pid = (case map_of (parts e) pid of None \<Rightarrow> 0 | Some p \<Rightarrow> part_bytes p)"

definition partition_count :: "engine \<Rightarrow> nat" where
  "partition_count e = length (parts e)"

definition remove_partition :: "engine \<Rightarrow> part_id \<Rightarrow> nat \<times> engine" where
  "remove_partition e pid =
     (case map_of (parts e) pid of
        None \<Rightarrow> (0, e)
      | Some p \<Rightarrow> (length (entries p),
                   e\<lparr>parts := bt_remove pid (parts e), total := total e - part_bytes p\<rparr>))"

fun remove_all :: "engine \<Rightarrow> part_id list \<Rightarrow> nat \<times> engine" where
  "remove_all e [] = (0, e)"
| "remove_all e (pid # pids) =
     (let (n, e') = remove_partition e pid; (m, e'') = remove_all e' pids in (n + m, e''))"

definition remove_site :: "engine \<Rightarrow> bytes \<Rightarrow> nat \<times> engine" where
  "remove_site e site =
     remove_all e (filter (\<lambda>pid. pid_site pid = site) (map fst (parts e)))"

section \<open>Recovery from a log\<close>

definition apply_logged :: "engine \<Rightarrow> op \<Rightarrow> engine option" where
  "apply_logged e p =
     (case p of
        Put ns pid key val \<Rightarrow> do {
          ns \<leftarrow> ns_from_code ns;
          pid \<leftarrow> pid_decode pid;
          case check_put e pid ns key val of
            Inl _ \<Rightarrow> None
          | Inr _ \<Rightarrow> Some (engine_put e pid ns key val) }
      | Delete ns pid key \<Rightarrow> do {
          ns \<leftarrow> ns_from_code ns;
          pid \<leftarrow> pid_decode pid;
          Some (snd (engine_delete e pid ns key)) })"

text \<open>
  The scan loop of \<^verbatim>\<open>recover\<close>, from position \<open>pos\<close> on: every accepted record
  consumes at least its frame, so the loop ends.
\<close>

function recover_loop :: "bytes \<Rightarrow> engine \<Rightarrow> nat \<Rightarrow> engine \<times> nat" where
  "recover_loop b e pos =
     (case decode_record (drop pos b) of
        NextRecord p used \<Rightarrow>
          (case apply_logged e p of
             None \<Rightarrow> (e, pos)
           | Some e' \<Rightarrow> recover_loop b e' (pos + used))
      | NextEnd \<Rightarrow> (e, pos)
      | Torn \<Rightarrow> (e, pos))"
  by pat_completeness auto
termination
proof (relation "measure (\<lambda>(b, e, pos). length b - pos)", goal_cases)
  case (2 b e pos p used e')
  from decode_record_Some [OF 2(1)] obtain rest where
    rest: "drop pos b = frame (op_body p) @ rest" and used: "used = FRAME_LEN + length (op_body p)"
    by auto
  have "length b - pos = used + length rest"
    using arg_cong [OF rest, of length] used by simp
  then show ?case using used by (simp add: FRAME_LEN_def)
qed simp

declare recover_loop.simps [simp del]

record recovered =
  rec_engine :: engine
  valid_len :: nat
  fresh :: bool

definition recover :: "bytes \<Rightarrow> format_error + recovered" where
  "recover b =
     (case check_header b of
        Inl err \<Rightarrow> Inl err
      | Inr Fresh \<Rightarrow> Inr \<lparr>rec_engine = engine_default, valid_len = 0, fresh = True\<rparr>
      | Inr Valid \<Rightarrow>
          let (e, pos) = recover_loop b engine_default HEADER_LEN
          in Inr \<lparr>rec_engine = e, valid_len = pos, fresh = False\<rparr>)"

section \<open>Snapshots\<close>

fun snapshot_entries :: "bytes \<Rightarrow> (entry_key, bytes) btree \<Rightarrow> format_error + bytes" where
  "snapshot_entries pid [] = Inr []"
| "snapshot_entries pid (((ns, key), val) # es) =
     (case encode_record (Put ns pid key val) of
        Inl err \<Rightarrow> Inl err
      | Inr rec \<Rightarrow> (case snapshot_entries pid es of
                     Inl err \<Rightarrow> Inl err
                   | Inr rest \<Rightarrow> Inr (rec @ rest)))"

fun snapshot_parts :: "(part_id \<Rightarrow> bool) \<Rightarrow> (part_id, partition) btree \<Rightarrow> format_error + bytes" where
  "snapshot_parts dropped [] = Inr []"
| "snapshot_parts dropped ((pid, part) # ps) =
     (if dropped pid then snapshot_parts dropped ps
      else case pid_encode pid of
        None \<Rightarrow> Inl RecordTooLarge
      | Some pid_bytes \<Rightarrow>
          (case snapshot_entries pid_bytes (entries part) of
             Inl err \<Rightarrow> Inl err
           | Inr out \<Rightarrow> (case snapshot_parts dropped ps of
                          Inl err \<Rightarrow> Inl err
                        | Inr rest \<Rightarrow> Inr (out @ rest))))"

definition snapshot_excluding :: "engine \<Rightarrow> (part_id \<Rightarrow> bool) \<Rightarrow> format_error + bytes" where
  "snapshot_excluding e dropped =
     (case snapshot_parts dropped (parts e) of
        Inl err \<Rightarrow> Inl err
      | Inr out \<Rightarrow> Inr (header_bytes @ out))"

end
