(* ===== verification/Store_Quota.thy ===== *)
theory Store_Quota
  imports Store_Engine
begin

text \<open>
  The invariant of the store's engine and its abstract view.  \<open>engine_ok\<close> says that
  the byte counters are exactly the sums they stand for, that every quota holds, and that
  no empty partition is kept.  The locale \<open>partitioned_store\<close> states what a client
  of the engine relies on; it is interpreted on the engine's operations.
\<close>

section \<open>The invariant\<close>

definition entry_cost :: "entry_key \<Rightarrow> bytes \<Rightarrow> nat" where
  "entry_cost k v = cost (snd k) v"

definition entry_ok :: "entry_key \<Rightarrow> bytes \<Rightarrow> bool" where
  "entry_ok k v \<longleftrightarrow> ns_from_code (fst k) \<noteq> None \<and> length (snd k) \<le> MAX_KEY_BYTES
     \<and> length v \<le> MAX_VALUE_BYTES"

definition part_ok :: "partition \<Rightarrow> bool" where
  "part_ok p \<longleftrightarrow> bt_ok (entries p) \<and> (\<forall>(k, v) \<in> set (entries p). entry_ok k v)
     \<and> length (entries p) \<le> MAX_ENTRIES_PER_PARTITION
     \<and> part_bytes p = bt_weight entry_cost (entries p)
     \<and> part_bytes p \<le> PARTITION_QUOTA_BYTES"

definition engine_ok :: "engine \<Rightarrow> bool" where
  "engine_ok e \<longleftrightarrow> bt_ok (parts e)
     \<and> (\<forall>(pid, p) \<in> set (parts e). part_ok p \<and> entries p \<noteq> [])
     \<and> total e = bt_weight (\<lambda>_. part_bytes) (parts e) \<and> total e \<le> GLOBAL_QUOTA_BYTES"

text \<open>The partition a write goes to: the existing one or a fresh one.\<close>

definition part_of :: "engine \<Rightarrow> part_id \<Rightarrow> partition" where
  "part_of e pid = (case map_of (parts e) pid of None \<Rightarrow> partition_default | Some p \<Rightarrow> p)"

definition old_cost :: "engine \<Rightarrow> part_id \<Rightarrow> namespace \<Rightarrow> bytes \<Rightarrow> nat" where
  "old_cost e pid ns key = old_weight entry_cost (entries (part_of e pid)) (ns_code ns, key)"

lemma cost_eq:
  "length key \<le> MAX_KEY_BYTES \<Longrightarrow> length val \<le> MAX_VALUE_BYTES
    \<Longrightarrow> cost key val = length key + length val + ENTRY_OVERHEAD_BYTES"
  by (simp add: cost_def format_limits engine_limits)

lemma ns_code_roundtrip [simp]: "ns_from_code (ns_code ns) = Some ns"
  by (cases ns) (simp_all add: ns_from_code_def)

lemma ns_from_code_Some: "ns_from_code c = Some ns \<Longrightarrow> ns_code ns = c"
  by (cases ns) (auto simp: ns_from_code_def split: if_splits)

lemma ns_code_inj [simp]: "ns_code a = ns_code b \<longleftrightarrow> a = b"
  by (metis ns_code_roundtrip option.inject)

lemma part_ok_default [simp]: "part_ok partition_default"
  by (simp add: part_ok_def partition_default_def)

lemma engine_ok_default [simp, intro]: "engine_ok engine_default"
  by (simp add: engine_ok_def engine_default_def)

lemma engine_ok_part: "engine_ok e \<Longrightarrow> map_of (parts e) pid = Some p \<Longrightarrow> part_ok p \<and> entries p \<noteq> []"
  by (auto simp: engine_ok_def dest!: map_of_SomeD)

lemma part_of_ok: "engine_ok e \<Longrightarrow> part_ok (part_of e pid)"
  by (auto simp: part_of_def dest: engine_ok_part split: option.splits)

lemma part_of_bytes: "part_bytes (part_of e pid) = old_weight (\<lambda>_. part_bytes) (parts e) pid"
  by (simp add: part_of_def old_weight_def partition_default_def split: option.splits)

lemma part_bytes_le_total: "engine_ok e \<Longrightarrow> part_bytes (part_of e pid) \<le> total e"
  by (simp add: part_of_bytes engine_ok_def old_weight_le)

lemma old_cost_le: "engine_ok e \<Longrightarrow> old_cost e pid ns key \<le> part_bytes (part_of e pid)"
  using part_of_ok [of e pid] by (simp add: part_ok_def old_cost_def old_weight_le)

section \<open>Accepted writes\<close>

lemma check_put_Inr:
  "check_put e pid ns key val = Inr u \<longleftrightarrow>
     length key \<le> MAX_KEY_BYTES \<and> length val \<le> MAX_VALUE_BYTES
     \<and> (map_of (entries (part_of e pid)) (ns_code ns, key) = None \<longrightarrow>
          length (entries (part_of e pid)) < MAX_ENTRIES_PER_PARTITION)
     \<and> part_bytes (part_of e pid) - old_cost e pid ns key + cost key val \<le> PARTITION_QUOTA_BYTES
     \<and> total e - old_cost e pid ns key + cost key val \<le> GLOBAL_QUOTA_BYTES"
proof (cases "map_of (parts e) pid")
  case None
  then show ?thesis
    by (auto simp: check_put_def part_of_def old_cost_def old_weight_def partition_default_def
        engine_limits sat_add_le_iff not_less U64_MAX_def Let_def split: if_splits)
next
  case (Some p)
  then show ?thesis
    by (cases "map_of (entries p) (ns_code ns, key)")
      (auto simp: check_put_def part_of_def old_cost_def old_weight_def entry_cost_def
        engine_limits sat_add_le_iff not_less U64_MAX_def Let_def split: if_splits)
qed

lemma engine_put_eq:
  "engine_put e pid ns key val =
     e\<lparr>parts := bt_insert pid
         ((part_of e pid)\<lparr>entries := bt_insert (ns_code ns, key) val (entries (part_of e pid)),
            part_bytes := sat_add (part_bytes (part_of e pid) - old_cost e pid ns key) (cost key val)\<rparr>)
         (parts e),
       total := sat_add (total e - old_cost e pid ns key) (cost key val)\<rparr>"
  by (simp add: engine_put_def part_of_def old_cost_def old_weight_def entry_cost_def Let_def
      split: option.split)

lemma check_put_exact:
  assumes "check_put e pid ns key val = Inr u"
  shows "sat_add (part_bytes (part_of e pid) - old_cost e pid ns key) (cost key val)
       = part_bytes (part_of e pid) - old_cost e pid ns key + cost key val"
    and "sat_add (total e - old_cost e pid ns key) (cost key val)
       = total e - old_cost e pid ns key + cost key val"
  using assms by (simp_all add: check_put_Inr engine_limits U64_MAX_def)

lemma part_put_ok:
  assumes ok: "part_ok p" and k: "entry_ok k v"
    and room: "map_of (entries p) k = None \<longrightarrow> length (entries p) < MAX_ENTRIES_PER_PARTITION"
    and quota: "part_bytes p - old_weight entry_cost (entries p) k + entry_cost k v \<le> PARTITION_QUOTA_BYTES"
  shows "part_ok (p\<lparr>entries := bt_insert k v (entries p),
     part_bytes := part_bytes p - old_weight entry_cost (entries p) k + entry_cost k v\<rparr>)"
  using assms set_bt_insert [of k v "entries p"]
  by (auto simp: part_ok_def bt_weight_insert length_bt_insert)

text \<open>Replacing or dropping one partition and adjusting the total by the difference.\<close>

lemma engine_ok_insert:
  assumes ok: "engine_ok e" and p: "part_ok p" "entries p \<noteq> []"
    and t: "t = total e - part_bytes (part_of e pid) + part_bytes p" and quota: "t \<le> GLOBAL_QUOTA_BYTES"
  shows "engine_ok (e\<lparr>parts := bt_insert pid p (parts e), total := t\<rparr>)"
  using assms set_bt_insert [of pid p "parts e"]
  by (auto simp: engine_ok_def bt_weight_insert part_of_bytes)

lemma engine_ok_remove:
  assumes ok: "engine_ok e" and t: "t = total e - part_bytes (part_of e pid)"
  shows "engine_ok (e\<lparr>parts := bt_remove pid (parts e), total := t\<rparr>)"
  using assms set_bt_remove [of pid "parts e"]
  by (auto simp: engine_ok_def bt_weight_remove part_of_bytes)

lemma engine_put_ok:
  assumes ok: "engine_ok e" and acc: "check_put e pid ns key val = Inr u"
  shows "engine_ok (engine_put e pid ns key val)"
proof -
  let ?p = "part_of e pid" and ?old = "old_cost e pid ns key" and ?new = "cost key val"
  let ?p' = "?p\<lparr>entries := bt_insert (ns_code ns, key) val (entries ?p),
     part_bytes := part_bytes ?p - ?old + ?new\<rparr>"
  have "part_ok ?p'"
    using acc part_put_ok [OF part_of_ok [OF ok], of "(ns_code ns, key)" val pid]
    by (simp add: check_put_Inr old_cost_def entry_cost_def entry_ok_def)
  moreover have "total e - ?old + ?new = total e - part_bytes ?p + part_bytes ?p'"
    using part_bytes_le_total [OF ok, of pid] old_cost_le [OF ok, of pid ns key] by simp
  moreover have "total e - ?old + ?new \<le> GLOBAL_QUOTA_BYTES"
    using acc by (simp add: check_put_Inr)
  ultimately have "engine_ok (e\<lparr>parts := bt_insert pid ?p' (parts e), total := total e - ?old + ?new\<rparr>)"
    by (intro engine_ok_insert [OF ok]) simp_all
  then show ?thesis by (simp add: engine_put_eq check_put_exact [OF acc])
qed

section \<open>Removals\<close>

lemma part_delete_ok:
  assumes "part_ok p"
  shows "part_ok (p\<lparr>entries := bt_remove k (entries p),
     part_bytes := part_bytes p - old_weight entry_cost (entries p) k\<rparr>)"
  using assms set_bt_remove [of k "entries p"] length_bt_remove_le [of k "entries p"]
  by (fastforce simp: part_ok_def bt_weight_remove)

lemma engine_delete_eq:
  assumes "map_of (parts e) pid = Some p" and "map_of (entries p) (ns_code ns, key) = Some old"
  shows "snd (engine_delete e pid ns key) =
    (let p' = p\<lparr>entries := bt_remove (ns_code ns, key) (entries p), part_bytes := part_bytes p - cost key old\<rparr>
     in if entries p' = [] then e\<lparr>parts := bt_remove pid (parts e), total := total e - cost key old\<rparr>
        else e\<lparr>parts := bt_insert pid p' (parts e), total := total e - cost key old\<rparr>)"
  using assms by (simp add: engine_delete_def Let_def)

lemma engine_delete_absent:
  assumes "engine_get e pid ns key = None"
  shows "engine_delete e pid ns key = (False, e)"
  using assms by (auto simp: engine_delete_def engine_get_def split: option.splits)

lemma engine_get_Some:
  "engine_get e pid ns key = Some v \<longleftrightarrow>
     (\<exists>p. map_of (parts e) pid = Some p \<and> map_of (entries p) (ns_code ns, key) = Some v)"
  by (auto simp: engine_get_def bind_eq_Some_conv)

lemma engine_delete_ok:
  assumes ok: "engine_ok e"
  shows "engine_ok (snd (engine_delete e pid ns key))"
proof (cases "engine_get e pid ns key")
  case None
  with ok show ?thesis by (simp add: engine_delete_absent)
next
  case (Some old)
  then obtain p where p: "map_of (parts e) pid = Some p" "map_of (entries p) (ns_code ns, key) = Some old"
    by (auto simp: engine_get_Some)
  let ?p' = "p\<lparr>entries := bt_remove (ns_code ns, key) (entries p), part_bytes := part_bytes p - cost key old\<rparr>"
  have pof: "part_of e pid = p" using p(1) by (simp add: part_of_def)
  have freed: "old_weight entry_cost (entries p) (ns_code ns, key) = cost key old"
    using p(2) by (simp add: old_weight_def entry_cost_def)
  have p': "part_ok ?p'"
    using part_delete_ok [of p "(ns_code ns, key)"] part_of_ok [OF ok, of pid] by (simp add: freed pof)
  have le: "cost key old \<le> part_bytes p" "part_bytes p \<le> total e" "total e \<le> GLOBAL_QUOTA_BYTES"
    using old_cost_le [OF ok, of pid ns key] part_bytes_le_total [OF ok, of pid] freed ok
    by (simp_all add: old_cost_def pof engine_ok_def)
  show ?thesis
  proof (cases "entries ?p' = []")
    case True
    with p' le have "total e - cost key old = total e - part_bytes (part_of e pid)"
      by (simp add: part_ok_def pof)
    from engine_ok_remove [OF ok this] True show ?thesis
      by (simp add: engine_delete_eq [OF p])
  next
    case False
    have "total e - cost key old = total e - part_bytes (part_of e pid) + part_bytes ?p'"
      using le by (simp add: pof)
    from engine_ok_insert [OF ok p' False this] le False show ?thesis
      by (simp add: engine_delete_eq [OF p] Let_def)
  qed
qed

lemma remove_partition_ok: "engine_ok e \<Longrightarrow> engine_ok (snd (remove_partition e pid))"
  using engine_ok_remove [of e _ pid]
  by (auto simp: remove_partition_def part_of_def split: option.splits)

lemma snd_remove_all: "snd (remove_all e (pid # pids)) = snd (remove_all (snd (remove_partition e pid)) pids)"
  by (simp add: Let_def split: prod.split)

declare remove_all.simps(2) [simp del]

lemma remove_all_ok: "engine_ok e \<Longrightarrow> engine_ok (snd (remove_all e pids))"
  by (induction pids arbitrary: e) (simp_all add: snd_remove_all remove_partition_ok)

lemma apply_logged_Put:
  "apply_logged e (Put n b key val) = Some e' \<longleftrightarrow>
     (\<exists>ns pid. ns_from_code n = Some ns \<and> pid_decode b = Some pid
        \<and> check_put e pid ns key val = Inr () \<and> e' = engine_put e pid ns key val)"
proof (cases "ns_from_code n"; cases "pid_decode b")
  fix ns pid
  assume "ns_from_code n = Some ns" "pid_decode b = Some pid"
  then show ?thesis
    by (cases "check_put e pid ns key val") (auto simp: apply_logged_def)
qed (auto simp: apply_logged_def)

lemma apply_logged_Delete:
  "apply_logged e (Delete n b key) = Some e' \<longleftrightarrow>
     (\<exists>ns pid. ns_from_code n = Some ns \<and> pid_decode b = Some pid
        \<and> e' = snd (engine_delete e pid ns key))"
  by (auto simp: apply_logged_def bind_eq_Some_conv)

lemma apply_logged_ok: "engine_ok e \<Longrightarrow> apply_logged e p = Some e' \<Longrightarrow> engine_ok e'"
  by (cases p)
    (auto simp: apply_logged_Put apply_logged_Delete engine_delete_ok engine_put_ok)

section \<open>What a lookup returns\<close>

lemma engine_get_part_of: "engine_get e pid ns key = map_of (entries (part_of e pid)) (ns_code ns, key)"
  by (simp add: engine_get_def part_of_def partition_default_def split: option.split)

lemma engine_get_put:
  "engine_get (engine_put e pid ns key val) q m j =
     (if q = pid \<and> m = ns \<and> j = key then Some val else engine_get e q m j)"
  by (auto simp: engine_put_eq engine_get_def part_of_def partition_default_def split: option.split)

lemma engine_get_delete:
  assumes ok: "engine_ok e"
  shows "engine_get (snd (engine_delete e pid ns key)) q m j =
     (if q = pid \<and> m = ns \<and> j = key then None else engine_get e q m j)"
proof (cases "engine_get e pid ns key")
  case None
  then show ?thesis by (auto simp: engine_delete_absent)
next
  case (Some old)
  then obtain p where p: "map_of (parts e) pid = Some p" "map_of (entries p) (ns_code ns, key) = Some old"
    by (auto simp: engine_get_Some)
  have sorted: "bt_ok (parts e)" "bt_ok (entries p)"
    using ok engine_ok_part [OF ok p(1)] by (auto simp: engine_ok_def part_ok_def)
  have gone: "map_of (entries p) k' = None" if "bt_remove k (entries p) = []" "k' \<noteq> k" for k k'
    using fun_cong [OF map_of_bt_remove [OF sorted(2), of k], of k'] that by simp
  show ?thesis
    using p sorted gone [of "(ns_code ns, key)" "(ns_code m, j)"]
    by (auto simp: engine_delete_eq [OF p] engine_get_def Let_def)
qed

lemma engine_get_remove_partition:
  "engine_ok e \<Longrightarrow> engine_get (snd (remove_partition e pid)) q m j =
     (if q = pid then None else engine_get e q m j)"
  by (auto simp: remove_partition_def engine_get_def engine_ok_def split: option.split)

lemma engine_get_remove_all:
  "engine_ok e \<Longrightarrow> engine_get (snd (remove_all e pids)) q m j =
     (if q \<in> set pids then None else engine_get e q m j)"
  by (induction pids arbitrary: e)
    (simp_all add: snd_remove_all remove_partition_ok engine_get_remove_partition)

lemma engine_get_remove_site:
  assumes "engine_ok e"
  shows "engine_get (snd (remove_site e site)) q m j =
     (if pid_site q = site then None else engine_get e q m j)"
proof -
  have "engine_get e q m j = None" if "q \<notin> fst ` set (parts e)"
    using that by (simp add: engine_get_def map_of_eq_None_iff [THEN iffD2])
  then show ?thesis
    by (auto simp: remove_site_def engine_get_remove_all [OF assms])
qed

section \<open>The interface of a partitioned store\<close>

text \<open>
  What a client of the engine relies on: lookups after each mutation, and that an
  accepted mutation keeps the provider's invariant.  The client's own facts are proved
  here once: a run of mutations that never names a partition leaves every lookup in that
  partition unchanged.
\<close>

datatype ('p, 'k, 'v) mutation = MPut 'p 'k 'v | MDelete 'p 'k | MDrop 'p

fun mutation_target :: "('p, 'k, 'v) mutation \<Rightarrow> 'p" where
  "mutation_target (MPut p _ _) = p"
| "mutation_target (MDelete p _) = p"
| "mutation_target (MDrop p) = p"

locale partitioned_store =
  fixes invar :: "'s \<Rightarrow> bool"
    and look :: "'s \<Rightarrow> 'p \<Rightarrow> 'k \<Rightarrow> 'v option"
    and accepts :: "'s \<Rightarrow> 'p \<Rightarrow> 'k \<Rightarrow> 'v \<Rightarrow> bool"
    and put :: "'s \<Rightarrow> 'p \<Rightarrow> 'k \<Rightarrow> 'v \<Rightarrow> 's"
    and del :: "'s \<Rightarrow> 'p \<Rightarrow> 'k \<Rightarrow> 's"
    and forget :: "'s \<Rightarrow> 'p \<Rightarrow> 's"
  assumes invar_put: "invar s \<Longrightarrow> accepts s p k v \<Longrightarrow> invar (put s p k v)"
    and invar_del: "invar s \<Longrightarrow> invar (del s p k)"
    and invar_forget: "invar s \<Longrightarrow> invar (forget s p)"
    and look_put: "invar s \<Longrightarrow> look (put s p k v) q j = (if q = p \<and> j = k then Some v else look s q j)"
    and look_del: "invar s \<Longrightarrow> look (del s p k) q j = (if q = p \<and> j = k then None else look s q j)"
    and look_forget: "invar s \<Longrightarrow> look (forget s p) q j = (if q = p then None else look s q j)"
begin

fun mutate :: "'s \<Rightarrow> ('p, 'k, 'v) mutation \<Rightarrow> 's" where
  "mutate s (MPut p k v) = (if accepts s p k v then put s p k v else s)"
| "mutate s (MDelete p k) = del s p k"
| "mutate s (MDrop p) = forget s p"

lemma mutate_invar: "invar s \<Longrightarrow> invar (mutate s c)"
  by (cases c) (auto simp: invar_put invar_del invar_forget)

lemma run_invar: "invar s \<Longrightarrow> invar (foldl mutate s cs)"
  by (induction cs arbitrary: s) (auto simp: mutate_invar)

lemma mutate_other: "invar s \<Longrightarrow> mutation_target c \<noteq> q \<Longrightarrow> look (mutate s c) q j = look s q j"
  by (cases c) (auto simp: look_put look_del look_forget)

lemma run_isolated:
  "invar s \<Longrightarrow> q \<notin> mutation_target ` set cs \<Longrightarrow> look (foldl mutate s cs) q j = look s q j"
  by (induction cs arbitrary: s) (auto simp: mutate_invar mutate_other)

lemma run_last_write:
  assumes "invar s" and "accepts (foldl mutate s cs) p k v"
    and "p \<notin> mutation_target ` set cs'"
  shows "look (foldl mutate s (cs @ MPut p k v # cs')) p k = Some v"
  using assms by (simp add: run_isolated run_invar invar_put look_put)

end

interpretation engine: partitioned_store engine_ok
  "\<lambda>e pid (ns, key). engine_get e pid ns key"
  "\<lambda>e pid (ns, key) val. check_put e pid ns key val = Inr ()"
  "\<lambda>e pid (ns, key) val. engine_put e pid ns key val"
  "\<lambda>e pid (ns, key). snd (engine_delete e pid ns key)"
  "\<lambda>e pid. snd (remove_partition e pid)"
  by unfold_locales
    (auto simp: engine_put_ok engine_delete_ok remove_partition_ok engine_get_put
      engine_get_delete engine_get_remove_partition split: if_splits)

text \<open>The mutations of the engine, as a function of their own, and that the locale runs them.\<close>

fun engine_mutate :: "engine \<Rightarrow> (part_id, namespace \<times> bytes, bytes) mutation \<Rightarrow> engine" where
  "engine_mutate e (MPut pid (ns, key) val) =
     (if check_put e pid ns key val = Inr () then engine_put e pid ns key val else e)"
| "engine_mutate e (MDelete pid (ns, key)) = snd (engine_delete e pid ns key)"
| "engine_mutate e (MDrop pid) = snd (remove_partition e pid)"

lemma engine_mutate_eq: "engine.mutate = engine_mutate"
proof (intro ext)
  fix e :: engine and c :: "(part_id, namespace \<times> bytes, bytes) mutation"
  show "engine.mutate e c = engine_mutate e c" by (cases "(e, c)" rule: engine_mutate.cases) auto
qed

lemmas engine_run_ok = engine.run_invar [unfolded engine_mutate_eq]
lemmas engine_run_isolated = engine.run_isolated [unfolded engine_mutate_eq]
lemmas engine_run_last_write = engine.run_last_write [unfolded engine_mutate_eq]

end
