(* ===== verification/Store_Recovery.thy ===== *)
theory Store_Recovery
  imports Store_Quota
begin

text \<open>
  Recovery of the store from its log.  A partition id that is writable and readable back
  is \<open>pid_wf\<close>; a log is the header followed by the frames of a list of operations,
  and recovery replays exactly the longest acceptable prefix of them.  Compaction writes
  a log whose recovery is the state it was taken from, without the dropped partitions.
\<close>

section \<open>Partition ids round-trip\<close>

definition pid_storable :: "part_id \<Rightarrow> bool" where
  "pid_storable p \<longleftrightarrow> is_ascii (pid_site p) \<and> is_ascii (pid_host p) \<and> pid_site p \<noteq> [] \<and> pid_host p \<noteq> []
     \<and> (pid_scheme p = str_https \<or> pid_scheme p = str_http)"

definition pid_wf :: "part_id \<Rightarrow> bool" where
  "pid_wf p \<longleftrightarrow> pid_storable p
     \<and> (case pid_encode p of None \<Rightarrow> False | Some b \<Rightarrow> length b \<le> MAX_PARTITION_ID_BYTES)"

lemma scheme_ascii: "pid_storable p \<Longrightarrow> is_ascii (pid_scheme p)"
  by (auto simp: pid_storable_def is_ascii_def str_https_def str_http_def)

lemma reader_is_empty_view: "rd_view r p zs \<Longrightarrow> reader_is_empty r \<longleftrightarrow> zs = []"
  by (auto simp: rd_view_def reader_is_empty_def)

lemma decode_field_app:
  assumes "rd_view r p (u16_to_le (word_of_nat (length f)) @ f @ ys)"
    and "length f < 2 ^ 16" and "is_ascii f" and "p + 2 + length f \<le> U64_MAX"
  obtains r' where "decode_field r = Some (f, r')" "rd_view r' (p + 2 + length f) ys"
proof -
  obtain r1 where r1: "reader_u16 r = Some (word_of_nat (length f), r1)" "rd_view r1 (p + 2) (f @ ys)"
    by (rule reader_u16_app [OF assms(1)]) (use assms(4) in simp)
  obtain r2 where r2: "reader_take (length f) r1 = Some (f, r2)" "rd_view r2 (p + 2 + length f) ys"
    by (rule reader_take_app [OF r1(2)]) (use assms(4) in simp)
  have "unat (word_of_nat (length f) :: u16) = length f"
    using assms(2) by (simp add: unat_of_nat)
  with r1(1) r2 assms(3) show thesis by (intro that [OF _ r2(2)]) (simp add: decode_field_def)
qed

lemma decode_fieldE:
  assumes "decode_field r = Some (f, r')" and "rd_view r p zs"
  obtains ys where "zs = u16_to_le (word_of_nat (length f)) @ f @ ys" "length f < 2 ^ 16"
    "is_ascii f" "rd_view r' (p + 2 + length f) ys"
proof -
  from assms(1) obtain len r1 where
    s: "reader_u16 r = Some (len, r1)" "reader_take (unat len) r1 = Some (f, r')" "is_ascii f"
    by (auto simp: decode_field_def bind_eq_Some_conv split: if_splits)
  obtain ys where ys: "zs = u16_to_le len @ ys" "rd_view r1 (p + 2) ys"
    by (rule reader_u16E [OF s(1) assms(2)])
  obtain ys' where ys': "ys = f @ ys'" "length f = unat len" "rd_view r' (p + 2 + unat len) ys'"
    by (rule reader_takeE [OF s(2) ys(2)])
  have "unat len < 2 ^ 16" using unsigned_less [of len] by simp
  with ys(1) ys' s(3) show thesis by (intro that [of ys']) simp_all
qed

lemma pid_encode_Some:
  "pid_encode p = Some b \<longleftrightarrow>
     length (pid_site p) < 2 ^ 16 \<and> length (pid_scheme p) < 2 ^ 16 \<and> length (pid_host p) < 2 ^ 16
     \<and> b = u16_to_le (word_of_nat (length (pid_site p))) @ pid_site p
         @ u16_to_le (word_of_nat (length (pid_scheme p))) @ pid_scheme p
         @ u16_to_le (word_of_nat (length (pid_host p))) @ pid_host p @ u16_to_le (pid_port p)"
  by (auto simp: pid_encode_def bind_eq_Some_conv try_from_u16_Some)

lemma pid_decode_encode:
  assumes "pid_encode p = Some b" and "pid_storable p"
  shows "pid_decode b = Some p"
proof -
  obtain site scheme host port where p: "p = PartId site scheme host port" by (cases p)
  from assms have len: "length site < 2 ^ 16" "length scheme < 2 ^ 16" "length host < 2 ^ 16"
    and b: "b = u16_to_le (word_of_nat (length site)) @ site
         @ u16_to_le (word_of_nat (length scheme)) @ scheme
         @ u16_to_le (word_of_nat (length host)) @ host @ u16_to_le port @ []"
    by (auto simp: p pid_encode_Some)
  have asc: "is_ascii site" "is_ascii scheme" "is_ascii host"
    using assms(2) scheme_ascii [OF assms(2)] by (auto simp: p pid_storable_def)
  obtain r1 where r1: "decode_field (reader_new b) = Some (site, r1)"
    "rd_view r1 (0 + 2 + length site) (u16_to_le (word_of_nat (length scheme)) @ scheme
         @ u16_to_le (word_of_nat (length host)) @ host @ u16_to_le port @ [])"
    by (rule decode_field_app [OF rd_view_new [of b, unfolded b] len(1) asc(1)])
      (use len in \<open>auto simp: U64_MAX_def b\<close>)
  obtain r2 where r2: "decode_field r1 = Some (scheme, r2)"
    "rd_view r2 (0 + 2 + length site + 2 + length scheme)
       (u16_to_le (word_of_nat (length host)) @ host @ u16_to_le port @ [])"
    by (rule decode_field_app [OF r1(2) len(2) asc(2)]) (use len in \<open>auto simp: U64_MAX_def\<close>)
  obtain r3 where r3: "decode_field r2 = Some (host, r3)"
    "rd_view r3 (0 + 2 + length site + 2 + length scheme + 2 + length host) (u16_to_le port @ [])"
    by (rule decode_field_app [OF r2(2) len(3) asc(3)]) (use len in \<open>auto simp: U64_MAX_def\<close>)
  obtain r4 where r4: "reader_u16 r3 = Some (port, r4)"
    "rd_view r4 (0 + 2 + length site + 2 + length scheme + 2 + length host + 2) []"
    by (rule reader_u16_app [OF r3(2)]) (use len in \<open>auto simp: U64_MAX_def\<close>)
  show ?thesis
    using r1(1) r2(1) r3(1) r4(1) assms(2) reader_is_empty_view [OF r4(2)]
    by (auto simp: pid_decode_def p pid_storable_def)
qed

lemma pid_decode_Some:
  assumes "pid_decode b = Some p"
  shows "pid_storable p \<and> pid_encode p = Some b"
proof -
  from assms obtain site r1 scheme r2 host r3 port r4 where
    s: "decode_field (reader_new b) = Some (site, r1)" "decode_field r1 = Some (scheme, r2)"
      "decode_field r2 = Some (host, r3)" "reader_u16 r3 = Some (port, r4)"
    and e: "reader_is_empty r4" "site \<noteq> []" "host \<noteq> []" "scheme = str_https \<or> scheme = str_http"
    and p: "p = PartId site scheme host port"
    by (auto simp: pid_decode_def bind_eq_Some_conv split: if_splits)
  obtain b1 where b1: "b = u16_to_le (word_of_nat (length site)) @ site @ b1" "length site < 2 ^ 16"
    "is_ascii site" "rd_view r1 (0 + 2 + length site) b1"
    by (rule decode_fieldE [OF s(1) rd_view_new])
  obtain b2 where b2: "b1 = u16_to_le (word_of_nat (length scheme)) @ scheme @ b2"
    "length scheme < 2 ^ 16" "rd_view r2 (0 + 2 + length site + 2 + length scheme) b2"
    by (rule decode_fieldE [OF s(2) b1(4)])
  obtain b3 where b3: "b2 = u16_to_le (word_of_nat (length host)) @ host @ b3"
    "length host < 2 ^ 16" "is_ascii host"
    "rd_view r3 (0 + 2 + length site + 2 + length scheme + 2 + length host) b3"
    by (rule decode_fieldE [OF s(3) b2(3)])
  obtain b4 where b4: "b3 = u16_to_le port @ b4"
    "rd_view r4 (0 + 2 + length site + 2 + length scheme + 2 + length host + 2) b4"
    by (rule reader_u16E [OF s(4) b3(4)])
  from e(1) have "b4 = []" by (simp add: reader_is_empty_view [OF b4(2)])
  with b1 b2 b3 b4(1) e p show ?thesis
    by (auto simp: pid_storable_def pid_encode_Some)
qed

lemma encoded_field_inj:
  assumes "u16_to_le (word_of_nat (length f)) @ f @ xs = u16_to_le (word_of_nat (length g)) @ g @ ys"
    and "length f < 2 ^ 16" and "length g < 2 ^ 16"
  shows "f = g \<and> xs = ys"
proof -
  have e: "u16_to_le (word_of_nat (length f)) = u16_to_le (word_of_nat (length g))" "f @ xs = g @ ys"
    using assms(1) by (simp_all add: append_eq_append_conv)
  from e(1) have "(word_of_nat (length f) :: u16) = word_of_nat (length g)"
    by (metis option.inject u16_le_roundtrip)
  then have "unat (word_of_nat (length f) :: u16) = unat (word_of_nat (length g) :: u16)" by simp
  with assms(2,3) have "length f = length g" by (simp add: unat_of_nat)
  with e(2) show ?thesis by simp
qed

lemma pid_encode_inj:
  assumes "pid_encode p = Some b" and "pid_encode q = Some b"
  shows "p = q"
proof -
  obtain s c h n where p: "p = PartId s c h n" by (cases p)
  obtain s' c' h' n' where q: "q = PartId s' c' h' n'" by (cases q)
  from assms have len: "length s < 2 ^ 16" "length c < 2 ^ 16" "length h < 2 ^ 16"
    "length s' < 2 ^ 16" "length c' < 2 ^ 16" "length h' < 2 ^ 16"
    and eq: "u16_to_le (word_of_nat (length s)) @ s @ u16_to_le (word_of_nat (length c)) @ c
         @ u16_to_le (word_of_nat (length h)) @ h @ u16_to_le n
       = u16_to_le (word_of_nat (length s')) @ s' @ u16_to_le (word_of_nat (length c')) @ c'
         @ u16_to_le (word_of_nat (length h')) @ h' @ u16_to_le n'"
    by (auto simp: p q pid_encode_Some)
  note s = encoded_field_inj [OF eq len(1,4)]
  note c = encoded_field_inj [OF conjunct2 [OF s] len(2,5)]
  note h = encoded_field_inj [OF conjunct2 [OF c] len(3,6)]
  from h have "n = n'" by (metis option.inject u16_le_roundtrip)
  with s c h p q show ?thesis by simp
qed

lemma pid_wfE:
  assumes "pid_wf p"
  obtains b where "pid_encode p = Some b" "length b \<le> MAX_PARTITION_ID_BYTES" "pid_decode b = Some p"
  using assms by (auto simp: pid_wf_def pid_decode_encode split: option.splits)

section \<open>Logs\<close>

definition log_of :: "op list \<Rightarrow> bytes" where
  "log_of ops = concat (map (\<lambda>p. frame (op_body p)) ops)"

fun replay :: "engine \<Rightarrow> op list \<Rightarrow> engine option" where
  "replay e [] = Some e"
| "replay e (p # ps) = (case apply_logged e p of None \<Rightarrow> None | Some e' \<Rightarrow> replay e' ps)"

lemma log_of_simps [simp]:
  "log_of [] = []" "log_of (p # ps) = frame (op_body p) @ log_of ps"
  "log_of (ps @ qs) = log_of ps @ log_of qs"
  by (simp_all add: log_of_def)

lemma replay_append:
  "replay e (ps @ qs) = (case replay e ps of None \<Rightarrow> None | Some e' \<Rightarrow> replay e' qs)"
  by (induction ps arbitrary: e) (auto split: option.splits)

lemma replay_ok: "engine_ok e \<Longrightarrow> replay e ps = Some e' \<Longrightarrow> engine_ok e'"
  by (induction ps arbitrary: e) (auto dest: apply_logged_ok split: option.splits)

lemma recover_loop_op:
  assumes "drop pos b = frame (op_body p) @ rest" and "op_fits p"
  shows "recover_loop b e pos = (case apply_logged e p of None \<Rightarrow> (e, pos)
     | Some e' \<Rightarrow> recover_loop b e' (pos + length (frame (op_body p))))"
  by (subst recover_loop.simps) (simp only: assms(1) decode_op [OF assms(2)] decoded.case)

lemma recover_loop_end:
  assumes "decode_record (drop pos b) = NextEnd \<or> decode_record (drop pos b) = Torn"
  shows "recover_loop b e pos = (e, pos)"
  using assms by (subst recover_loop.simps) auto

lemma recover_loop_log:
  assumes "drop pos b = log_of ps @ rest" and "\<forall>p \<in> set ps. op_fits p" and "replay e ps = Some e'"
  shows "recover_loop b e pos = recover_loop b e' (pos + length (log_of ps))"
  using assms
proof (induction ps arbitrary: e pos)
  case (Cons p ps)
  from Cons.prems(3) obtain e1 where e1: "apply_logged e p = Some e1" "replay e1 ps = Some e'"
    by (auto split: option.splits)
  have d: "drop (pos + length (frame (op_body p))) b = log_of ps @ rest"
    using arg_cong [OF Cons.prems(1), of "drop (length (frame (op_body p)))"]
    by (simp del: length_frame add: add.commute)
  have "recover_loop b e pos = recover_loop b e1 (pos + length (frame (op_body p)))"
    using recover_loop_op [of pos b p "log_of ps @ rest" e] Cons.prems(1,2) e1(1)
    by (simp del: length_frame)
  with Cons.IH [OF d _ e1(2)] Cons.prems(2) show ?case by (simp del: length_frame add: add.assoc)
qed simp

lemma recover_loop_sound:
  assumes "recover_loop b e pos = (e', pos')" and "pos \<le> length b"
  shows "\<exists>ps. (\<forall>p \<in> set ps. op_fits p) \<and> replay e ps = Some e'
     \<and> take pos' b = take pos b @ log_of ps \<and> pos' \<le> length b"
  using assms
proof (induction b e pos rule: recover_loop.induct)
  case (1 b e pos)
  show ?case
  proof (cases "decode_record (drop pos b)")
    case (NextRecord p used)
    from decode_record_Some [OF this] obtain rest where fits: "op_fits p"
      and used: "used = length (frame (op_body p))" and d: "drop pos b = frame (op_body p) @ rest"
      by blast
    show ?thesis
    proof (cases "apply_logged e p")
      case None
      with "1.prems" recover_loop_op [OF d fits, of e] show ?thesis by (intro exI [of _ "[]"]) auto
    next
      case (Some e1)
      have le: "pos + used \<le> length b"
        using arg_cong [OF d, of length] "1.prems"(2) used by simp
      have t: "take (pos + used) b = take pos b @ frame (op_body p)"
        using d used by (simp add: take_add)
      from "1.prems"(1) recover_loop_op [OF d fits, of e] Some used
      have "recover_loop b e1 (pos + used) = (e', pos')" by simp
      from "1.IH" [OF NextRecord Some this le] obtain ps where
        "\<forall>p \<in> set ps. op_fits p" "replay e1 ps = Some e'"
        "take pos' b = take (pos + used) b @ log_of ps" "pos' \<le> length b" by blast
      with Some fits t show ?thesis by (intro exI [of _ "p # ps"]) auto
    qed
  qed (use "1.prems" recover_loop_end [of pos b e] in \<open>auto intro!: exI [of _ "[]"]\<close>)
qed

section \<open>Headers\<close>

lemma length_MAGIC [simp]: "length MAGIC = 4"
  by (simp add: MAGIC_def)

lemma length_header_bytes [simp]: "length header_bytes = HEADER_LEN"
  by (simp add: header_bytes_def Let_def MAGIC_def HEADER_LEN_def)

lemma check_header_canonical: "check_header (header_bytes @ rest) = Inr Valid"
proof -
  let ?h = "MAGIC @ u32_to_le VERSION @ u32_to_le 0"
  let ?b = "MAGIC @ u32_to_le VERSION @ u32_to_le 0 @ u32_to_le (crc32 ?h) @ rest"
  have b: "header_bytes @ rest = ?b" by (simp add: header_bytes_def Let_def)
  obtain r1 where r1: "reader_take (length MAGIC) (reader_new ?b) = Some (MAGIC, r1)"
    "rd_view r1 (0 + length MAGIC) (u32_to_le VERSION @ u32_to_le 0 @ u32_to_le (crc32 ?h) @ rest)"
    by (rule reader_take_app [OF rd_view_new [of ?b]]) (simp_all add: U64_MAX_def)
  obtain r2 where r2: "reader_u32 r1 = Some (VERSION, r2)"
    "rd_view r2 (0 + length MAGIC + 4) (u32_to_le 0 @ u32_to_le (crc32 ?h) @ rest)"
    by (rule reader_u32_app [OF r1(2)]) (simp_all add: U64_MAX_def)
  obtain r3 where r3: "reader_u32 r2 = Some (0, r3)"
    "rd_view r3 (0 + length MAGIC + 4 + 4) (u32_to_le (crc32 ?h) @ rest)"
    by (rule reader_u32_app [OF r2(2)]) (simp_all add: U64_MAX_def)
  obtain r4 where r4: "reader_u32 r3 = Some (crc32 ?h, r4)"
    by (rule reader_u32_app [OF r3(2)]) (simp_all add: U64_MAX_def)
  have "take 12 ?b = ?h" by (simp add: MAGIC_def)
  moreover have "?b \<noteq> []" "\<not> length ?b < HEADER_LEN" by (simp_all add: HEADER_LEN_def)
  ultimately show ?thesis
    using r1(1) r2(1) r3(1) r4 unfolding b by (simp add: check_header_def)
qed

lemma check_header_Valid:
  assumes "check_header b = Inr Valid"
  shows "\<exists>rest. b = header_bytes @ rest"
proof -
  from assms obtain magic r1 r2 r3 crc r4 where
    s: "reader_take 4 (reader_new b) = Some (magic, r1)" "magic = MAGIC"
      "reader_u32 r1 = Some (VERSION, r2)" "reader_u32 r2 = Some (0, r3)" "reader_u32 r3 = Some (crc, r4)"
    and crc: "crc = crc32 (take 12 b)"
    by (auto simp: check_header_def split: if_splits option.splits)
  obtain b1 where b1: "b = magic @ b1" "rd_view r1 (0 + 4) b1"
    by (rule reader_takeE [OF s(1) rd_view_new])
  obtain b2 where b2: "b1 = u32_to_le VERSION @ b2" "rd_view r2 (0 + 4 + 4) b2"
    by (rule reader_u32E [OF s(3) b1(2)])
  obtain b3 where b3: "b2 = u32_to_le 0 @ b3" "rd_view r3 (0 + 4 + 4 + 4) b3"
    by (rule reader_u32E [OF s(4) b2(2)])
  obtain b4 where b4: "b3 = u32_to_le crc @ b4" by (rule reader_u32E [OF s(5) b3(2)])
  have "take 12 b = MAGIC @ u32_to_le VERSION @ u32_to_le 0"
    using b1(1) b2(1) b3(1) s(2) by (simp add: MAGIC_def)
  with b1(1) b2(1) b3(1) b4 s(2) crc show ?thesis
    by (intro exI [of _ b4]) (simp add: header_bytes_def Let_def)
qed

section \<open>What recovery returns\<close>

lemma recover_log:
  assumes "\<forall>p \<in> set ps. op_fits p" and "replay engine_default ps = Some e"
    and "decode_record tail = NextEnd \<or> decode_record tail = Torn"
  shows "recover (header_bytes @ log_of ps @ tail) =
    Inr \<lparr>rec_engine = e, valid_len = HEADER_LEN + length (log_of ps), fresh = False\<rparr>"
proof -
  let ?b = "header_bytes @ log_of ps @ tail"
  have "recover_loop ?b engine_default HEADER_LEN = recover_loop ?b e (HEADER_LEN + length (log_of ps))"
    by (rule recover_loop_log) (use assms(1,2) in simp_all)
  also have "\<dots> = (e, HEADER_LEN + length (log_of ps))"
    by (rule recover_loop_end) (use assms(3) in simp)
  finally show ?thesis by (simp add: recover_def check_header_canonical)
qed

lemma recover_sound:
  assumes "recover b = Inr r" and "\<not> fresh r"
  obtains ps where "\<forall>p \<in> set ps. op_fits p" "replay engine_default ps = Some (rec_engine r)"
    "take (valid_len r) b = header_bytes @ log_of ps" "valid_len r \<le> length b"
proof -
  from assms have v: "check_header b = Inr Valid"
    by (auto simp: recover_def split: sum.splits header.splits)
  then obtain rest where rest: "b = header_bytes @ rest" by (auto dest: check_header_Valid)
  obtain e pos where l: "recover_loop b engine_default HEADER_LEN = (e, pos)" by fastforce
  from recover_loop_sound [OF l] rest obtain ps where
    "\<forall>p \<in> set ps. op_fits p" "replay engine_default ps = Some e"
    "take pos b = take HEADER_LEN b @ log_of ps" "pos \<le> length b"
    by auto
  moreover from assms(1) v l have "rec_engine r = e" "valid_len r = pos"
    by (auto simp: recover_def)
  ultimately show thesis using rest by (intro that) simp_all
qed

lemma recover_ok: "recover b = Inr r \<Longrightarrow> engine_ok (rec_engine r)"
proof (cases "fresh r")
  case True
  assume "recover b = Inr r"
  with True show ?thesis
    by (auto simp: recover_def split: sum.splits header.splits prod.splits)
next
  case False
  assume "recover b = Inr r"
  from recover_sound [OF this False] obtain ps where
    "replay engine_default ps = Some (rec_engine r)" by blast
  then show ?thesis using replay_ok [OF engine_ok_default] by blast
qed

section \<open>Snapshots recover to the state they were taken from\<close>

definition engine_pids_ok :: "engine \<Rightarrow> bool" where
  "engine_pids_ok e \<longleftrightarrow> (\<forall>pid \<in> fst ` set (parts e). pid_wf pid)"

definition kept :: "engine \<Rightarrow> (part_id \<Rightarrow> bool) \<Rightarrow> engine" where
  "kept e dropped = (let ps = filter (\<lambda>(pid, _). \<not> dropped pid) (parts e)
     in \<lparr>parts = ps, total = bt_weight (\<lambda>_. part_bytes) ps\<rparr>)"

text \<open>The engine after replaying whole partitions \<open>ps\<close> and the entries \<open>es\<close> of one more.\<close>

definition partial_engine :: "(part_id, partition) btree \<Rightarrow> part_id \<Rightarrow> (entry_key, bytes) btree \<Rightarrow> engine" where
  "partial_engine ps pid es =
     \<lparr>parts = ps @ (if es = [] then [] else [(pid, \<lparr>entries = es, part_bytes = bt_weight entry_cost es\<rparr>)]),
      total = bt_weight (\<lambda>_. part_bytes) ps + bt_weight entry_cost es\<rparr>"

definition entry_put :: "bytes \<Rightarrow> entry_key \<times> bytes \<Rightarrow> op" where
  "entry_put b = (\<lambda>((ns, key), val). Put ns b key val)"

fun op_pid :: "op \<Rightarrow> bytes" where
  "op_pid (Put _ pid _ _) = pid"
| "op_pid (Delete _ pid _) = pid"

lemma op_pid_entry_put [simp]: "op_pid (entry_put b kv) = b"
  by (simp add: entry_put_def split: prod.split)

lemma part_of_partial:
  assumes "\<forall>q \<in> fst ` set ps. q < pid"
  shows "part_of (partial_engine ps pid es) pid = \<lparr>entries = es, part_bytes = bt_weight entry_cost es\<rparr>"
proof -
  from assms have "map_of ps pid = None" by (auto simp: map_of_eq_None_iff)
  then show ?thesis
    by (simp add: part_of_def partial_engine_def partition_default_def map_add_def)
qed

lemma apply_logged_partial:
  assumes ps: "\<forall>q \<in> fst ` set ps. q < pid" and b: "pid_decode b = Some pid"
    and es: "\<forall>k' \<in> fst ` set es. k' < k" and k: "entry_ok k v"
    and room: "length es < MAX_ENTRIES_PER_PARTITION"
    and q: "bt_weight entry_cost es + entry_cost k v \<le> PARTITION_QUOTA_BYTES"
    and t: "bt_weight (\<lambda>_. part_bytes) ps + bt_weight entry_cost es + entry_cost k v \<le> GLOBAL_QUOTA_BYTES"
  shows "apply_logged (partial_engine ps pid es) (entry_put b (k, v))
       = Some (partial_engine ps pid (es @ [(k, v)]))"
proof -
  obtain c key where kk: "k = (c, key)" by (cases k)
  from k obtain ns where ns: "ns_from_code c = Some ns" and code: "ns_code ns = c"
    by (auto simp: entry_ok_def kk dest: ns_from_code_Some)
  let ?e = "partial_engine ps pid es"
  note pof = part_of_partial [OF ps, of es]
  have new: "map_of es k = None" using es by (auto simp: map_of_eq_None_iff)
  then have old: "old_cost ?e pid ns key = 0"
    by (simp add: old_cost_def pof code kk old_weight_def)
  have tot: "total ?e = bt_weight (\<lambda>_. part_bytes) ps + bt_weight entry_cost es"
    by (simp add: partial_engine_def)
  have acc: "check_put ?e pid ns key v = Inr ()"
    using k new room q t
    by (simp add: check_put_Inr old pof code kk entry_ok_def entry_cost_def tot)
  have "bt_insert pid p (parts ?e) = ps @ [(pid, p)]" for p
    using ps bt_insert_last [of ps pid p] bt_insert_last_present [of ps pid p]
    by (auto simp: partial_engine_def)
  then have "engine_put ?e pid ns key v = partial_engine ps pid (es @ [(k, v)])"
    using check_put_exact [OF acc] bt_insert_last [OF es, of v]
    by (simp add: engine_put_eq old pof code kk tot) (simp add: partial_engine_def entry_cost_def)
  with acc ns b show ?thesis by (auto simp: entry_put_def kk apply_logged_Put)
qed

lemma replay_entries:
  assumes "\<forall>q \<in> fst ` set ps. q < pid" and "pid_decode b = Some pid"
    and "bt_ok (es @ es')" and "\<forall>(k, v) \<in> set es'. entry_ok k v"
    and "length es + length es' \<le> MAX_ENTRIES_PER_PARTITION"
    and "bt_weight entry_cost es + bt_weight entry_cost es' \<le> PARTITION_QUOTA_BYTES"
    and "bt_weight (\<lambda>_. part_bytes) ps + bt_weight entry_cost es + bt_weight entry_cost es' \<le> GLOBAL_QUOTA_BYTES"
  shows "replay (partial_engine ps pid es) (map (entry_put b) es') = Some (partial_engine ps pid (es @ es'))"
  using assms(3-)
proof (induction es' arbitrary: es)
  case (Cons kv es')
  obtain k v where kv: "kv = (k, v)" by (cases kv)
  have "\<forall>k' \<in> fst ` set es. k' < k"
    using Cons.prems(1) by (auto simp: bt_ok_def kv sorted_wrt_append)
  then have "apply_logged (partial_engine ps pid es) (entry_put b (k, v))
      = Some (partial_engine ps pid (es @ [(k, v)]))"
    using Cons.prems by (intro apply_logged_partial [OF assms(1,2)]) (simp_all add: kv)
  moreover have "replay (partial_engine ps pid (es @ [(k, v)])) (map (entry_put b) es')
      = Some (partial_engine ps pid ((es @ [(k, v)]) @ es'))"
    using Cons.prems by (intro Cons.IH) (simp_all add: kv)
  ultimately show ?case by (simp add: kv)
qed simp

lemma snapshot_entries_eq:
  assumes "\<forall>(k, v) \<in> set es. entry_ok k v" and "length b \<le> MAX_PARTITION_ID_BYTES"
  shows "snapshot_entries b es = Inr (log_of (map (entry_put b) es)) \<and> (\<forall>p \<in> set (map (entry_put b) es). op_fits p)"
  using assms
proof (induction b es rule: snapshot_entries.induct)
  case (2 b ns key val es)
  then have "op_fits (Put ns b key val)" by (simp add: op_fits_def entry_ok_def)
  with 2 show ?case by (auto simp: encode_record_eq entry_put_def)
qed simp

lemma replay_parts:
  assumes "bt_ok (ps @ ps')" and "\<forall>(pid, p) \<in> set ps'. part_ok p \<and> entries p \<noteq> [] \<and> pid_wf pid"
    and "bt_weight (\<lambda>_. part_bytes) ps + bt_weight (\<lambda>_. part_bytes) ps' \<le> GLOBAL_QUOTA_BYTES"
    and "\<forall>(pid, p) \<in> set ps'. \<not> dropped pid"
  shows "\<exists>ops. snapshot_parts dropped ps' = Inr (log_of ops)
     \<and> (\<forall>p \<in> set ops. op_fits p \<and> (\<exists>q. \<not> dropped q \<and> pid_wf q \<and> pid_encode q = Some (op_pid p)))
     \<and> replay \<lparr>parts = ps, total = bt_weight (\<lambda>_. part_bytes) ps\<rparr> ops
       = Some \<lparr>parts = ps @ ps', total = bt_weight (\<lambda>_. part_bytes) (ps @ ps')\<rparr>"
  using assms
proof (induction ps' arbitrary: ps)
  case (Cons x ps')
  obtain pid part where x: "x = (pid, part)" by (cases x)
  with Cons.prems have part: "part_ok part" "entries part \<noteq> []" "pid_wf pid" "\<not> dropped pid" by auto
  from part(3) obtain b where b: "pid_encode pid = Some b" "length b \<le> MAX_PARTITION_ID_BYTES"
    "pid_decode b = Some pid" by (rule pid_wfE)
  let ?ops = "map (entry_put b) (entries part)"
  have pb: "part_bytes part = bt_weight entry_cost (entries part)" using part(1) by (simp add: part_ok_def)
  have before: "\<forall>q \<in> fst ` set ps. q < pid"
    using Cons.prems(1) by (auto simp: bt_ok_def x sorted_wrt_append)
  have "replay (partial_engine ps pid []) ?ops = Some (partial_engine ps pid ([] @ entries part))"
    using part(1) Cons.prems(3)
    by (intro replay_entries [OF before b(3)]) (auto simp: part_ok_def x)
  then have here: "replay \<lparr>parts = ps, total = bt_weight (\<lambda>_. part_bytes) ps\<rparr> ?ops
      = Some \<lparr>parts = ps @ [(pid, part)], total = bt_weight (\<lambda>_. part_bytes) (ps @ [(pid, part)])\<rparr>"
    using part(2) by (simp add: partial_engine_def pb [symmetric])
  from Cons.IH [of "ps @ [(pid, part)]"] Cons.prems obtain ops where
    ops: "snapshot_parts dropped ps' = Inr (log_of ops)"
    "\<forall>p \<in> set ops. op_fits p \<and> (\<exists>q. \<not> dropped q \<and> pid_wf q \<and> pid_encode q = Some (op_pid p))"
    "replay \<lparr>parts = ps @ [(pid, part)], total = bt_weight (\<lambda>_. part_bytes) (ps @ [(pid, part)])\<rparr> ops
       = Some \<lparr>parts = (ps @ [(pid, part)]) @ ps', total = bt_weight (\<lambda>_. part_bytes) ((ps @ [(pid, part)]) @ ps')\<rparr>"
    by (auto simp: x add.assoc)
  have "snapshot_entries b (entries part) = Inr (log_of ?ops) \<and> (\<forall>p \<in> set ?ops. op_fits p)"
    by (rule snapshot_entries_eq) (use part(1) b(2) in \<open>auto simp: part_ok_def\<close>)
  moreover have "\<forall>p \<in> set ?ops. \<exists>q. \<not> dropped q \<and> pid_wf q \<and> pid_encode q = Some (op_pid p)"
    using b(1) part(3,4) by auto
  ultimately show ?case
    using ops b(1) part(4) here
    by (intro exI [of _ "?ops @ ops"]) (auto simp: x replay_append simp del: op_pid.simps)
qed (auto intro: exI [of _ "[]"])

lemma snapshot_parts_filter:
  "snapshot_parts dropped ps = snapshot_parts dropped (filter (\<lambda>(pid, _). \<not> dropped pid) ps)"
  by (induction dropped ps rule: snapshot_parts.induct) (auto split: option.splits sum.splits)

lemma bt_ok_filter: "bt_ok m \<Longrightarrow> bt_ok (filter P m)"
  by (induction m) auto

lemma snapshot_log:
  assumes "engine_ok e" and "engine_pids_ok e"
  obtains ops where "snapshot_excluding e dropped = Inr (header_bytes @ log_of ops)"
    "\<forall>p \<in> set ops. op_fits p" "replay engine_default ops = Some (kept e dropped)"
    "\<forall>p \<in> set ops. \<exists>q. \<not> dropped q \<and> pid_wf q \<and> pid_encode q = Some (op_pid p)"
proof -
  let ?ps = "filter (\<lambda>(pid, _). \<not> dropped pid) (parts e)"
  have "bt_ok ([] @ ?ps)" using assms(1) by (simp add: engine_ok_def bt_ok_filter)
  moreover have "\<forall>(pid, p) \<in> set ?ps. part_ok p \<and> entries p \<noteq> [] \<and> pid_wf pid"
    using assms by (auto simp: engine_ok_def engine_pids_ok_def)
  moreover have "bt_weight (\<lambda>_. part_bytes) ([] :: (part_id, partition) btree)
      + bt_weight (\<lambda>_. part_bytes) ?ps \<le> GLOBAL_QUOTA_BYTES"
    using assms(1) le_trans [OF bt_weight_filter_le, of "\<lambda>_. part_bytes" "parts e"]
    by (simp add: engine_ok_def)
  moreover have "\<forall>(pid, p) \<in> set ?ps. \<not> dropped pid" by auto
  ultimately have "\<exists>ops. snapshot_parts dropped ?ps = Inr (log_of ops)
     \<and> (\<forall>p \<in> set ops. op_fits p \<and> (\<exists>q. \<not> dropped q \<and> pid_wf q \<and> pid_encode q = Some (op_pid p)))
     \<and> replay \<lparr>parts = [], total = bt_weight (\<lambda>_. part_bytes) ([] :: (part_id, partition) btree)\<rparr> ops
       = Some \<lparr>parts = [] @ ?ps, total = bt_weight (\<lambda>_. part_bytes) ([] @ ?ps)\<rparr>"
    by (rule replay_parts)
  then obtain ops where "snapshot_parts dropped ?ps = Inr (log_of ops)"
    "\<forall>p \<in> set ops. op_fits p" "replay engine_default ops = Some (kept e dropped)"
    "\<forall>p \<in> set ops. \<exists>q. \<not> dropped q \<and> pid_wf q \<and> pid_encode q = Some (op_pid p)"
    by (auto simp: engine_default_def kept_def Let_def)
  moreover from this(1) have "snapshot_parts dropped (parts e) = Inr (log_of ops)"
    by (subst snapshot_parts_filter)
  ultimately show thesis by (intro that) (simp_all add: snapshot_excluding_def)
qed

lemma kept_all: "engine_ok e \<Longrightarrow> kept e (\<lambda>_. False) = e"
  by (cases e) (simp add: kept_def engine_ok_def Let_def)

lemma kept_ok: "engine_ok e \<Longrightarrow> engine_ok (kept e dropped)"
  using bt_weight_filter_le [of "\<lambda>_. part_bytes" "\<lambda>(pid, _). \<not> dropped pid" "parts e"]
  by (auto simp: kept_def engine_ok_def Let_def bt_ok_filter)

lemma bt_remove_filter: "bt_ok m \<Longrightarrow> bt_remove k m = filter (\<lambda>x. fst x \<noteq> k) m"
proof (induction k m rule: bt_remove.induct)
  case (2 k k' v' m)
  have "filter (\<lambda>x. fst x \<noteq> k) m = m" if "k \<le> k'"
    using "2.prems" that by (intro filter_True) force
  with 2 show ?case by auto
qed simp

lemma kept_parts: "parts (kept e d) = filter (\<lambda>x. \<not> d (fst x)) (parts e)"
  by (auto simp: kept_def Let_def intro!: filter_cong)

lemma kept_total: "total (kept e d) = bt_weight (\<lambda>_. part_bytes) (parts (kept e d))"
  by (simp add: kept_def Let_def)

lemma kept_eqI:
  assumes "engine_ok e'" and "parts e' = filter (\<lambda>x. \<not> d (fst x)) (parts e)"
  shows "e' = kept e d"
  using assms kept_total [of e d] by (cases e', cases "kept e d") (simp add: engine_ok_def kept_parts [symmetric])

lemma kept_kept: "kept (kept e d) d' = kept e (\<lambda>q. d q \<or> d' q)"
proof -
  have "parts (kept (kept e d) d') = parts (kept e (\<lambda>q. d q \<or> d' q))"
    by (simp add: kept_parts)
  with kept_total show ?thesis by (metis engine.equality old.unit.exhaust)
qed

lemma kept_remove_partition:
  assumes "engine_ok e"
  shows "snd (remove_partition e pid) = kept e (\<lambda>q. q = pid)"
proof (rule kept_eqI)
  show "engine_ok (snd (remove_partition e pid))" by (rule remove_partition_ok [OF assms])
  have "filter (\<lambda>x. fst x \<noteq> pid) (parts e) = parts e" if "map_of (parts e) pid = None"
    using that by (intro filter_True) (force simp: map_of_eq_None_iff)
  then show "parts (snd (remove_partition e pid)) = filter (\<lambda>x. \<not> fst x = pid) (parts e)"
    using assms bt_remove_filter [of "parts e" pid]
    by (simp add: remove_partition_def engine_ok_def split: option.split)
qed

lemma kept_remove_all:
  "engine_ok e \<Longrightarrow> snd (remove_all e pids) = kept e (\<lambda>q. q \<in> set pids)"
proof (induction pids arbitrary: e)
  case (Cons pid pids)
  then show ?case
    by (simp add: snd_remove_all remove_partition_ok kept_remove_partition kept_ok kept_kept)
qed (simp add: kept_all)

lemma kept_remove_site:
  assumes "engine_ok e"
  shows "snd (remove_site e site) = kept e (\<lambda>q. pid_site q = site)"
proof (rule kept_eqI)
  show "engine_ok (snd (remove_site e site))" by (simp add: remove_site_def remove_all_ok assms)
  show "parts (snd (remove_site e site)) = filter (\<lambda>x. \<not> pid_site (fst x) = site) (parts e)"
    by (auto simp: remove_site_def kept_remove_all [OF assms] kept_parts intro!: filter_cong)
qed

lemma kept_pids_ok: "engine_pids_ok e \<Longrightarrow> engine_pids_ok (kept e dropped)"
  by (auto simp: engine_pids_ok_def kept_def Let_def)

section \<open>Partition ids in the engine stay writable\<close>

lemma engine_pids_put:
  "engine_pids_ok e \<Longrightarrow> pid_wf pid \<Longrightarrow> engine_pids_ok (engine_put e pid ns key val)"
  by (simp add: engine_pids_ok_def engine_put_eq)

lemma engine_delete_keys:
  "fst ` set (parts (snd (engine_delete e pid ns key))) \<subseteq> fst ` set (parts e)"
proof -
  have "pid \<in> fst ` set (parts e)" if "map_of (parts e) pid = Some p" for p
    using map_of_SomeD [OF that] by force
  moreover have "fst ` set (bt_remove pid (parts e)) \<subseteq> fst ` set (parts e)"
    using set_bt_remove by (rule image_mono)
  ultimately show ?thesis by (simp add: engine_delete_def Let_def split: option.split)
qed

lemma engine_pids_delete:
  "engine_pids_ok e \<Longrightarrow> engine_pids_ok (snd (engine_delete e pid ns key))"
  using engine_delete_keys [of e pid ns key] unfolding engine_pids_ok_def by blast

lemma apply_logged_pids:
  assumes "engine_pids_ok e" and "apply_logged e p = Some e'" and "op_fits p"
  shows "engine_pids_ok e'"
proof (cases p)
  case (Put n b key val)
  with assms show ?thesis
    by (auto simp: apply_logged_Put op_fits_def pid_wf_def intro!: engine_pids_put
        dest!: pid_decode_Some)
next
  case (Delete n b key)
  with assms show ?thesis by (auto simp: apply_logged_Delete engine_pids_delete)
qed

lemma replay_pids:
  "engine_pids_ok e \<Longrightarrow> replay e ps = Some e' \<Longrightarrow> \<forall>p \<in> set ps. op_fits p \<Longrightarrow> engine_pids_ok e'"
  by (induction ps arbitrary: e) (auto dest: apply_logged_pids split: option.splits)

lemma engine_pids_default [simp]: "engine_pids_ok engine_default"
  by (simp add: engine_pids_ok_def engine_default_def)

end
