(* ===== verification/Store_Log.thy ===== *)
theory Store_Log
  imports Store_Recovery
begin

text \<open>
  The file-backed store of \<^verbatim>\<open>crates/px-store/src/store.rs\<close>.  The directory is a
  world with the log file, the temporary file and a script of the operating system's
  answers: every I/O call takes the next answer, and a failing write may have written any
  prefix.  A store keeps the engine, the length it vouches for, the poison flag and
  whether its append handle still names the log (after a rename it names the unlinked
  file until it is reopened).

  What the disk holds is what the calls have written: loss of data the kernel had
  accepted but not yet flushed is not modelled beyond the failing calls.
\<close>

section \<open>The world\<close>

record 'io world =
  log_file :: "bytes option"
  tmp_file :: "bytes option"
  faults :: "('io \<times> nat) option list"

type_synonym ('io, 'a) io = "'io world \<Rightarrow> ('io + 'a) \<times> 'io world"

definition next_fault :: "'io world \<Rightarrow> ('io \<times> nat) option \<times> 'io world" where
  "next_fault w = (case faults w of
      [] \<Rightarrow> (None, w)
    | f # fs \<Rightarrow> (f, w\<lparr>faults := fs\<rparr>))"

text \<open>A call that either takes its whole effect or fails without one.\<close>

definition io_call :: "('io world \<Rightarrow> 'io world) \<Rightarrow> ('io, unit) io" where
  "io_call effect w = (case next_fault w of
      (None, w') \<Rightarrow> (Inr (), effect w')
    | (Some (err, _), w') \<Rightarrow> (Inl err, w'))"

text \<open>A write that may fail after a prefix: \<open>effect\<close> is given the bytes that arrived.\<close>

definition io_write :: "(bytes \<Rightarrow> 'io world \<Rightarrow> 'io world) \<Rightarrow> bytes \<Rightarrow> ('io, unit) io" where
  "io_write effect b w = (case next_fault w of
      (None, w') \<Rightarrow> (Inr (), effect b w')
    | (Some (err, n), w') \<Rightarrow> (Inl err, effect (take n b) w'))"

definition io_then :: "('io, unit) io \<Rightarrow> ('io, 'a) io \<Rightarrow> ('io, 'a) io" where
  "io_then f g w = (case f w of (Inl err, w') \<Rightarrow> (Inl err, w') | (Inr _, w') \<Rightarrow> g w')"

definition sync :: "('io, unit) io" where
  "sync = io_call (\<lambda>w. w)"

definition set_len_bytes :: "nat \<Rightarrow> bytes \<Rightarrow> bytes" where
  "set_len_bytes n b = take n b @ replicate (n - length b) 0"

definition write_atomic :: "bytes \<Rightarrow> ('io, unit) io" where
  "write_atomic b =
     io_then (io_call (\<lambda>w. w\<lparr>tmp_file := Some []\<rparr>))
    (io_then (io_write (\<lambda>xs w. w\<lparr>tmp_file := Some xs\<rparr>) b)
    (io_then sync
    (io_call (\<lambda>w. w\<lparr>log_file := tmp_file w, tmp_file := None\<rparr>))))"

section \<open>The store\<close>

definition MAX_LOG_BYTES :: nat where "MAX_LOG_BYTES = 256 * 2 ^ 20"
definition COMPACT_SLACK :: nat where "COMPACT_SLACK = 2 ^ 20"

record store =
  st_engine :: engine
  log_len :: nat
  poisoned :: bool
  stale_handle :: bool

type_synonym ('io, 'a) st = "store \<Rightarrow> 'io world \<Rightarrow> ('io store_error + 'a) \<times> store \<times> 'io world"

definition store_rewrite :: "(part_id \<Rightarrow> bool) \<Rightarrow> ('io, unit) st" where
  "store_rewrite dropped s w =
     (case snapshot_excluding (st_engine s) dropped of
        Inl err \<Rightarrow> (Inl (Format err), s, w)
      | Inr snapshot \<Rightarrow>
          (case write_atomic snapshot w of
             (Inl err, w1) \<Rightarrow> (Inl (Io err), s, w1)
           | (Inr _, w1) \<Rightarrow>
               let s1 = s\<lparr>stale_handle := True\<rparr>
               in case io_call (\<lambda>w. w) w1 of
                    (Inr _, w2) \<Rightarrow> (Inr (), s1\<lparr>stale_handle := False, log_len := length snapshot\<rparr>, w2)
                  | (Inl err, w2) \<Rightarrow> (Inl (Io err), s1\<lparr>poisoned := True\<rparr>, w2)))"

definition append_bytes :: "bool \<Rightarrow> bytes \<Rightarrow> 'io world \<Rightarrow> 'io world" where
  "append_bytes stale xs w =
     (if stale then w else w\<lparr>log_file := map_option (\<lambda>b. b @ xs) (log_file w)\<rparr>)"

definition truncate_log :: "bool \<Rightarrow> nat \<Rightarrow> 'io world \<Rightarrow> 'io world" where
  "truncate_log stale n w =
     (if stale then w else w\<lparr>log_file := map_option (set_len_bytes n) (log_file w)\<rparr>)"

definition store_append :: "bytes \<Rightarrow> ('io, unit) st" where
  "store_append rec s w =
     (let (r0, s0, w0) =
        (if sat_add (log_len s) (length rec) > MAX_LOG_BYTES then store_rewrite (\<lambda>_. False) s w
         else (Inr (), s, w))
      in case r0 of
           Inl err \<Rightarrow> (Inl err, s0, w0)
         | Inr _ \<Rightarrow>
             (case io_then (io_write (append_bytes (stale_handle s0)) rec) sync w0 of
                (Inr _, w1) \<Rightarrow> (Inr (), s0\<lparr>log_len := sat_add (log_len s0) (length rec)\<rparr>, w1)
              | (Inl err, w1) \<Rightarrow>
                  (case io_then (io_call (truncate_log (stale_handle s0) (log_len s0))) sync w1 of
                     (Inr _, w2) \<Rightarrow> (Inl (Io err), s0, w2)
                   | (Inl _, w2) \<Rightarrow> (Inl (Io err), s0\<lparr>poisoned := True\<rparr>, w2))))"

definition maybe_compact :: "store \<Rightarrow> 'io world \<Rightarrow> store \<times> 'io world" where
  "maybe_compact s w =
     (let live = total (st_engine s)
      in if log_len s > sat_add (sat_mul live 2) COMPACT_SLACK
         then snd (store_rewrite (\<lambda>_. False) s w)
         else (s, w))"

definition store_put :: "partition_key \<Rightarrow> namespace \<Rightarrow> bytes \<Rightarrow> bytes \<Rightarrow> ('io, unit) st" where
  "store_put k ns key val s w =
     (if poisoned s then (Inl Poisoned, s, w)
      else case pid_from_key k of
        Inl q \<Rightarrow> (Inl (Quota q), s, w)
      | Inr pid \<Rightarrow>
          (case check_put (st_engine s) pid ns key val of
             Inl q \<Rightarrow> (Inl (Quota q), s, w)
           | Inr _ \<Rightarrow>
               (case pid_encode pid of
                  None \<Rightarrow> (Inl (Quota PartitionKeyTooLarge), s, w)
                | Some pid_bytes \<Rightarrow>
                    (case encode_record (Put (ns_code ns) pid_bytes key val) of
                       Inl f \<Rightarrow> (Inl (Format f), s, w)
                     | Inr rec \<Rightarrow>
                         (case store_append rec s w of
                            (Inl err, s1, w1) \<Rightarrow> (Inl err, s1, w1)
                          | (Inr _, s1, w1) \<Rightarrow>
                              let s2 = s1\<lparr>st_engine := engine_put (st_engine s1) pid ns key val\<rparr>
                              in (Inr (), maybe_compact s2 w1))))))"

definition store_delete :: "partition_key \<Rightarrow> namespace \<Rightarrow> bytes \<Rightarrow> ('io, bool) st" where
  "store_delete k ns key s w =
     (if poisoned s then (Inl Poisoned, s, w)
      else case pid_from_key k of
        Inl q \<Rightarrow> (Inl (Quota q), s, w)
      | Inr pid \<Rightarrow>
          if engine_get (st_engine s) pid ns key = None then (Inr False, s, w)
          else (case pid_encode pid of
             None \<Rightarrow> (Inl (Quota PartitionKeyTooLarge), s, w)
           | Some pid_bytes \<Rightarrow>
               (case encode_record (Delete (ns_code ns) pid_bytes key) of
                  Inl f \<Rightarrow> (Inl (Format f), s, w)
                | Inr rec \<Rightarrow>
                    (case store_append rec s w of
                       (Inl err, s1, w1) \<Rightarrow> (Inl err, s1, w1)
                     | (Inr _, s1, w1) \<Rightarrow>
                         (Inr True,
                          s1\<lparr>st_engine := snd (engine_delete (st_engine s1) pid ns key)\<rparr>, w1)))))"

definition store_get :: "store \<Rightarrow> partition_key \<Rightarrow> namespace \<Rightarrow> bytes \<Rightarrow> bytes option" where
  "store_get s k ns key =
     (if poisoned s then None
      else case pid_from_key k of
        Inl _ \<Rightarrow> None
      | Inr pid \<Rightarrow> engine_get (st_engine s) pid ns key)"

definition store_keys :: "store \<Rightarrow> partition_key \<Rightarrow> namespace \<Rightarrow> bytes list" where
  "store_keys s k ns =
     (case pid_from_key k of
        Inr pid \<Rightarrow> if poisoned s then [] else engine_keys (st_engine s) pid ns
      | Inl _ \<Rightarrow> [])"

definition partition_usage :: "store \<Rightarrow> partition_key \<Rightarrow> nat" where
  "partition_usage s k =
     (case pid_from_key k of Inl _ \<Rightarrow> 0 | Inr pid \<Rightarrow> engine_usage (st_engine s) pid)"

definition clear_partition :: "partition_key \<Rightarrow> ('io, nat) st" where
  "clear_partition k s w =
     (if poisoned s then (Inl Poisoned, s, w)
      else case pid_from_key k of
        Inl q \<Rightarrow> (Inl (Quota q), s, w)
      | Inr pid \<Rightarrow>
          (case store_rewrite (\<lambda>q. q = pid) s w of
             (Inl err, s1, w1) \<Rightarrow> (Inl err, s1, w1)
           | (Inr _, s1, w1) \<Rightarrow>
               let (n, e) = remove_partition (st_engine s1) pid
               in (Inr n, s1\<lparr>st_engine := e\<rparr>, w1)))"

definition clear_site :: "partition_key \<Rightarrow> ('io, nat) st" where
  "clear_site k s w =
     (if poisoned s then (Inl Poisoned, s, w)
      else let site = top_level_site k
        in case store_rewrite (\<lambda>q. pid_site q = site) s w of
             (Inl err, s1, w1) \<Rightarrow> (Inl err, s1, w1)
           | (Inr _, s1, w1) \<Rightarrow>
               let (n, e) = remove_site (st_engine s1) site
               in (Inr n, s1\<lparr>st_engine := e\<rparr>, w1))"

definition store_compact :: "('io, unit) st" where
  "store_compact s w =
     (if poisoned s then (Inl Poisoned, s, w) else store_rewrite (\<lambda>_. False) s w)"

text \<open>
  \<^verbatim>\<open>open\<close>: drop a leftover temporary (a missing one is no error), refuse an
  over-long log, recover, and either write a fresh header or truncate the torn tail.
\<close>

definition read_log :: "'io world \<Rightarrow> ('io store_error + bytes) \<times> 'io world" where
  "read_log w =
     (case io_call (\<lambda>w. w) w of
        (Inl err, w1) \<Rightarrow> (Inl (Io err), w1)
      | (Inr _, w1) \<Rightarrow>
          (case log_file w1 of
             None \<Rightarrow> (Inr [], w1)
           | Some b \<Rightarrow>
               if length b > MAX_LOG_BYTES then (Inl (Format RecordTooLarge), w1)
               else (case io_call (\<lambda>w. w) w1 of
                       (Inl err, w2) \<Rightarrow> (Inl (Io err), w2)
                     | (Inr _, w2) \<Rightarrow> (Inr b, w2))))"

definition repair_log :: "bytes \<Rightarrow> recovered \<Rightarrow> ('io, unit) io" where
  "repair_log b rc w =
     (if fresh rc then write_atomic header_bytes w
      else if valid_len rc < length b
      then io_then (io_call (\<lambda>w. w))
          (io_then (io_call (truncate_log False (valid_len rc))) sync) w
      else (Inr (), w))"

definition store_open :: "'io world \<Rightarrow> ('io store_error + store) \<times> 'io world" where
  "store_open w =
     (case io_then (io_call (\<lambda>w. w)) (io_call (\<lambda>w. w\<lparr>tmp_file := None\<rparr>)) w of
        (Inl err, w1) \<Rightarrow> (Inl (Io err), w1)
      | (Inr _, w1) \<Rightarrow>
     (case read_log w1 of
        (Inl err, w2) \<Rightarrow> (Inl err, w2)
      | (Inr b, w2) \<Rightarrow>
     (case recover b of
        Inl err \<Rightarrow> (Inl (Format err), w2)
      | Inr rc \<Rightarrow>
     (case repair_log b rc w2 of
        (Inl err, w3) \<Rightarrow> (Inl (Io err), w3)
      | (Inr _, w3) \<Rightarrow>
     (case io_then (io_call (\<lambda>w. w)) (io_call (\<lambda>w. w)) w3 of
        (Inl err, w4) \<Rightarrow> (Inl (Io err), w4)
      | (Inr _, w4) \<Rightarrow>
          (Inr \<lparr>st_engine = rec_engine rc,
                log_len = (case log_file w4 of None \<Rightarrow> 0 | Some l \<Rightarrow> length l),
                poisoned = False, stale_handle = False\<rparr>, w4))))))"

section \<open>Effects of the I/O calls on the log file\<close>

lemma next_fault_files:
  "next_fault w = (f, w') \<Longrightarrow> log_file w' = log_file w \<and> tmp_file w' = tmp_file w"
  by (auto simp: next_fault_def split: list.split_asm)

lemma io_callE:
  assumes "io_call f w = (r, w')"
  obtains (ok) w1 where "r = Inr ()" "w' = f w1" "log_file w1 = log_file w" "tmp_file w1 = tmp_file w"
    | (failed) err where "r = Inl err" "log_file w' = log_file w" "tmp_file w' = tmp_file w"
  using assms by (auto simp: io_call_def split: prod.split_asm option.split_asm dest: next_fault_files)

lemma io_writeE:
  assumes "io_write f b w = (r, w')"
  obtains (ok) w1 where "r = Inr ()" "w' = f b w1" "log_file w1 = log_file w" "tmp_file w1 = tmp_file w"
    | (failed) err k w1 where "r = Inl err" "w' = f (take k b) w1" "log_file w1 = log_file w"
        "tmp_file w1 = tmp_file w"
  using assms by (auto simp: io_write_def split: prod.split_asm option.split_asm dest: next_fault_files)

lemma io_thenE:
  assumes "io_then f g w = (r, w')"
  obtains (failed) err where "f w = (Inl err, w')" "r = Inl err"
    | (cont) u w1 where "f w = (Inr u, w1)" "g w1 = (r, w')"
  using assms by (auto simp: io_then_def split: prod.split_asm sum.split_asm)

lemma io_call_id_log: "io_call (\<lambda>w. w) w = (r, w') \<Longrightarrow> log_file w' = log_file w"
  by (erule io_callE) auto

lemma sync_log: "sync w = (r, w') \<Longrightarrow> log_file w' = log_file w \<and> tmp_file w' = tmp_file w"
  unfolding sync_def by (erule io_callE) auto

lemma write_atomic_log:
  assumes "write_atomic b w = (r, w')"
  shows "(r = Inr () \<and> log_file w' = Some b) \<or> (\<exists>err. r = Inl err \<and> log_file w' = log_file w)"
  using assms unfolding write_atomic_def
  by (auto elim!: io_thenE io_callE io_writeE dest!: sync_log)

lemma append_log:
  assumes "io_then (io_write (append_bytes False) rec) sync w = (r, w')" and "log_file w = Some b"
  shows "\<exists>k. log_file w' = Some (b @ take k rec) \<and> (r = Inr () \<longrightarrow> k = length rec)"
  using assms
proof (cases rule: io_thenE [consumes 1, case_names failed cont])
  case (failed err)
  from failed(1) show ?thesis
    by (cases rule: io_writeE [consumes 1, case_names ok failed])
      (use failed assms(2) in \<open>auto simp: append_bytes_def\<close>)
next
  case (cont u w1)
  from cont(1) have "log_file w1 = Some (b @ take (length rec) rec)"
    by (cases rule: io_writeE [consumes 1, case_names ok failed])
      (use assms(2) in \<open>auto simp: append_bytes_def\<close>)
  with sync_log [OF cont(2)] show ?thesis by (intro exI [of _ "length rec"]) auto
qed

lemma truncate_exact: "set_len_bytes (length b) (b @ xs) = b"
  by (simp add: set_len_bytes_def)

lemma truncate_log_effect:
  assumes "io_then (io_call (truncate_log False (length b))) sync w = (r, w')"
    and "log_file w = Some (b @ xs)"
  shows "log_file w' = Some b \<or> (r \<noteq> Inr () \<and> log_file w' = Some (b @ xs))"
  using assms
  by (auto simp: truncate_log_def truncate_exact elim!: io_thenE io_callE dest!: sync_log)

section \<open>Logs that recover completely\<close>

definition clean_log :: "bytes \<Rightarrow> engine \<Rightarrow> bool" where
  "clean_log b e \<longleftrightarrow> (\<exists>ops. (\<forall>p \<in> set ops. op_fits p) \<and> replay engine_default ops = Some e
     \<and> b = header_bytes @ log_of ops)"

definition disk_recovers :: "'io world \<Rightarrow> engine \<Rightarrow> bool" where
  "disk_recovers w e \<longleftrightarrow> (\<exists>b r. log_file w = Some b \<and> recover b = Inr r \<and> \<not> fresh r \<and> rec_engine r = e)"

lemma clean_log_recover:
  "clean_log b e \<Longrightarrow> recover b = Inr \<lparr>rec_engine = e, valid_len = length b, fresh = False\<rparr>"
  using recover_log [of _ e "[]"] by (auto simp: clean_log_def)

lemma clean_log_header: "clean_log header_bytes engine_default"
  by (auto simp: clean_log_def intro: exI [of _ "[]"])

lemma clean_log_ok: "clean_log b e \<Longrightarrow> engine_ok e \<and> engine_pids_ok e"
  by (auto simp: clean_log_def dest: replay_ok [OF engine_ok_default] replay_pids [OF engine_pids_default])

lemma clean_log_append:
  assumes "clean_log b e" and "op_fits p" and "apply_logged e p = Some e'"
  shows "clean_log (b @ frame (op_body p)) e'"
proof -
  from assms(1) obtain ops where ops: "\<forall>q \<in> set ops. op_fits q" "replay engine_default ops = Some e"
    "b = header_bytes @ log_of ops" by (auto simp: clean_log_def)
  with assms(2,3) show ?thesis
    unfolding clean_log_def by (intro exI [of _ "ops @ [p]"]) (simp add: replay_append)
qed

lemma recover_torn_append:
  assumes "clean_log b e" and "op_fits p" and "k < length (frame (op_body p))"
  shows "recover (b @ take k (frame (op_body p)))
     = Inr \<lparr>rec_engine = e, valid_len = length b, fresh = False\<rparr>"
proof -
  from assms(1) obtain ops where ops: "\<forall>q \<in> set ops. op_fits q" "replay engine_default ops = Some e"
    "b = header_bytes @ log_of ops" by (auto simp: clean_log_def)
  have "decode_record (take k (frame (op_body p))) = NextEnd \<or> decode_record (take k (frame (op_body p))) = Torn"
    using decode_torn_frame [OF length_op_body [OF assms(2)], of k] assms(3) by (cases "k = 0") auto
  from recover_log [OF ops(1,2) this] ops(3) show ?thesis by simp
qed

lemma recover_partial_append:
  assumes "clean_log b e" and "op_fits p" and "apply_logged e p = Some e'"
    and "log_file w = Some (b @ take k (frame (op_body p)))"
  shows "disk_recovers w e \<or> disk_recovers w e'"
proof (cases "k < length (frame (op_body p))")
  case True
  with recover_torn_append [OF assms(1,2), of k] assms(4) show ?thesis by (auto simp: disk_recovers_def)
next
  case False
  with clean_log_recover [OF clean_log_append [OF assms(1-3)]] assms(4) show ?thesis
    by (auto simp: disk_recovers_def)
qed

lemma clean_log_snapshot:
  assumes "engine_ok e" and "engine_pids_ok e"
  obtains b where "snapshot_excluding e dropped = Inr b" "clean_log b (kept e dropped)"
proof -
  obtain ops where "snapshot_excluding e dropped = Inr (header_bytes @ log_of ops)"
    "\<forall>p \<in> set ops. op_fits p" "replay engine_default ops = Some (kept e dropped)"
    "\<forall>p \<in> set ops. \<exists>q. \<not> dropped q \<and> pid_wf q \<and> pid_encode q = Some (op_pid p)"
    by (rule snapshot_log [OF assms])
  then show thesis by (intro that [of "header_bytes @ log_of ops"]) (auto simp: clean_log_def)
qed

section \<open>How long a compacted log is\<close>

text \<open>
  An entry is accounted with 48 bytes of overhead, but its record repeats the partition
  id, up to 1024 bytes: a compacted log is at most 22 times the accounted bytes.
\<close>

lemma length_entry_put:
  assumes "entry_ok k v" and "length b \<le> MAX_PARTITION_ID_BYTES"
  shows "length (frame (op_body (entry_put b (k, v)))) \<le> 22 * entry_cost k v"
proof (cases k)
  case (Pair ns key)
  with assms show ?thesis
    by (simp add: entry_put_def op_body_def entry_cost_def cost_eq entry_ok_def)
      (simp add: format_limits engine_limits)
qed

lemma snapshot_entries_size:
  assumes "\<forall>(k, v) \<in> set es. entry_ok k v" and "length b \<le> MAX_PARTITION_ID_BYTES"
  shows "length (log_of (map (entry_put b) es)) \<le> 22 * bt_weight entry_cost es"
  using assms
proof (induction es)
  case (Cons x es)
  then show ?case using length_entry_put [of "fst x" "snd x" b] by (cases x) (simp del: length_frame)
qed simp

lemma snapshot_parts_size:
  assumes "snapshot_parts dropped ps = Inr b"
    and "\<forall>(pid, p) \<in> set ps. part_ok p \<and> pid_wf pid"
  shows "length b \<le> 22 * bt_weight (\<lambda>_. part_bytes) ps"
  using assms
proof (induction dropped ps arbitrary: b rule: snapshot_parts.induct)
  case (2 dropped pid part ps)
  then have part: "part_ok part" "pid_wf pid" by auto
  show ?case
  proof (cases "dropped pid")
    case True
    with 2 show ?thesis by fastforce
  next
    case False
    from part(2) obtain pb where pb: "pid_encode pid = Some pb" "length pb \<le> MAX_PARTITION_ID_BYTES"
      by (rule pid_wfE)
    have es: "snapshot_entries pb (entries part) = Inr (log_of (map (entry_put pb) (entries part)))"
      "length (log_of (map (entry_put pb) (entries part))) \<le> 22 * part_bytes part"
      using snapshot_entries_eq [of "entries part" pb] snapshot_entries_size [of "entries part" pb]
        part(1) pb(2) by (simp_all add: part_ok_def)
    with False "2.prems"(1) pb(1) obtain rest where
      rest: "snapshot_parts dropped ps = Inr rest" "b = log_of (map (entry_put pb) (entries part)) @ rest"
      by (auto split: sum.split_asm)
    from "2.IH"(2) [OF False pb(1) es(1) rest(1)] "2.prems"(2) have
      "length rest \<le> 22 * bt_weight (\<lambda>_. part_bytes) ps" by simp
    with es(2) rest(2) show ?thesis by simp
  qed
qed simp

lemma snapshot_size:
  assumes "engine_ok e" and "engine_pids_ok e" and "snapshot_excluding e dropped = Inr b"
  shows "length b \<le> HEADER_LEN + 22 * total e"
proof -
  from assms(3) obtain out where out: "snapshot_parts dropped (parts e) = Inr out" "b = header_bytes @ out"
    by (auto simp: snapshot_excluding_def split: sum.split_asm)
  have "length out \<le> 22 * bt_weight (\<lambda>_. part_bytes) (parts e)"
    by (rule snapshot_parts_size [OF out(1)]) (use assms in \<open>auto simp: engine_ok_def engine_pids_ok_def\<close>)
  with assms(1) out(2) show ?thesis by (simp add: engine_ok_def)
qed

section \<open>The store's invariant\<close>

definition store_inv :: "store \<Rightarrow> 'io world \<Rightarrow> bool" where
  "store_inv s w \<longleftrightarrow> engine_ok (st_engine s) \<and> engine_pids_ok (st_engine s)
     \<and> (poisoned s \<or> \<not> stale_handle s
         \<and> (\<exists>b. log_file w = Some b \<and> clean_log b (st_engine s) \<and> log_len s = length b))"

lemma store_rewrite_spec:
  assumes inv: "store_inv s w" and run: "store_rewrite dropped s w = (r, s', w')"
  shows "st_engine s' = st_engine s"
    and "r = Inr () \<Longrightarrow> poisoned s' = poisoned s \<and> \<not> stale_handle s'
      \<and> (\<exists>b. log_file w' = Some b \<and> clean_log b (kept (st_engine s) dropped)
           \<and> log_len s' = length b \<and> length b \<le> HEADER_LEN + 22 * total (st_engine s))"
    and "r \<noteq> Inr () \<Longrightarrow> s' = s \<and> log_file w' = log_file w
      \<or> poisoned s' \<and> (\<exists>b. log_file w' = Some b \<and> clean_log b (kept (st_engine s) dropped))"
proof -
  from inv obtain b where b: "snapshot_excluding (st_engine s) dropped = Inr b"
    "clean_log b (kept (st_engine s) dropped)"
    unfolding store_inv_def by (auto elim: clean_log_snapshot)
  have size: "length b \<le> HEADER_LEN + 22 * total (st_engine s)"
    using inv snapshot_size [OF _ _ b(1)] by (simp add: store_inv_def)
  obtain r1 w1 where w1: "write_atomic b w = (r1, w1)" by fastforce
  obtain r2 w2 where w2: "io_call (\<lambda>w. w) w1 = (r2, w2)" by fastforce
  note log = write_atomic_log [OF w1] io_call_id_log [OF w2]
  show "st_engine s' = st_engine s"
    using run by (auto simp: store_rewrite_def Let_def split: sum.split_asm prod.split_asm)
  show "r = Inr () \<Longrightarrow> poisoned s' = poisoned s \<and> \<not> stale_handle s'
      \<and> (\<exists>b. log_file w' = Some b \<and> clean_log b (kept (st_engine s) dropped)
           \<and> log_len s' = length b \<and> length b \<le> HEADER_LEN + 22 * total (st_engine s))"
    using run b w1 w2 log size by (auto simp: store_rewrite_def Let_def split: sum.split_asm)
  show "r \<noteq> Inr () \<Longrightarrow> s' = s \<and> log_file w' = log_file w
      \<or> poisoned s' \<and> (\<exists>b. log_file w' = Some b \<and> clean_log b (kept (st_engine s) dropped))"
    using run b w1 w2 log by (auto simp: store_rewrite_def Let_def split: sum.split_asm)
qed

text \<open>Compaction, whatever the operating system answers, keeps the store and what the disk recovers.\<close>

lemma store_compact_spec:
  assumes inv: "store_inv s w" and live: "\<not> poisoned s"
    and run: "store_rewrite (\<lambda>_. False) s w = (r, s', w')"
  shows "store_inv s' w' \<and> st_engine s' = st_engine s \<and> disk_recovers w' (st_engine s)
    \<and> (r = Inr () \<longrightarrow> \<not> poisoned s' \<and> log_len s' \<le> HEADER_LEN + 22 * total (st_engine s))"
proof -
  note spec = store_rewrite_spec [OF inv run]
  have k: "kept (st_engine s) (\<lambda>_. False) = st_engine s"
    using inv by (simp add: store_inv_def kept_all)
  have rec: "disk_recovers w'' e" if "log_file w'' = Some b" "clean_log b e" for w'' :: "'a world" and b e
    using clean_log_recover [OF that(2)] that(1) by (simp add: disk_recovers_def)
  show ?thesis
  proof (cases "r = Inr ()")
    case True
    with spec(1,2) k inv live rec show ?thesis by (auto simp: store_inv_def)
  next
    case False
    with spec(1,3) k inv live rec show ?thesis by (auto simp: store_inv_def)
  qed
qed

lemma disk_recovers_clean: "log_file w = Some b \<Longrightarrow> clean_log b e \<Longrightarrow> disk_recovers w e"
  using clean_log_recover by (fastforce simp: disk_recovers_def)

section \<open>Appending one record\<close>

lemma append_room:
  assumes "n \<le> HEADER_LEN + 22 * t" and "t \<le> GLOBAL_QUOTA_BYTES" and "op_fits p"
  shows "sat_add n (length (frame (op_body p))) = n + length (frame (op_body p))"
  using assms length_op_body [OF assms(3)] by (simp add: format_limits engine_limits)

lemma store_append_tail:
  assumes log: "log_file w = Some b" "clean_log b e" "log_len s = length b" "\<not> stale_handle s"
    and eng: "st_engine s = e" "\<not> poisoned s"
    and p: "op_fits p" "apply_logged e p = Some e'"
    and room: "sat_add (length b) (length rec) = length b + length rec" and rec: "rec = frame (op_body p)"
    and run: "(case io_then (io_write (append_bytes (stale_handle s)) rec) sync w of
        (Inr _, w1) \<Rightarrow> (Inr (), s\<lparr>log_len := sat_add (log_len s) (length rec)\<rparr>, w1)
      | (Inl err, w1) \<Rightarrow>
          (case io_then (io_call (truncate_log (stale_handle s) (log_len s))) sync w1 of
             (Inr _, w2) \<Rightarrow> (Inl (Io err), s, w2)
           | (Inl _, w2) \<Rightarrow> (Inl (Io err), s\<lparr>poisoned := True\<rparr>, w2))) = (r, s', w')"
  shows "if r = Inr () then \<not> poisoned s' \<and> \<not> stale_handle s' \<and> st_engine s' = e
           \<and> (\<exists>b'. log_file w' = Some b' \<and> clean_log b' e' \<and> log_len s' = length b')
         else store_inv s' w' \<and> st_engine s' = e \<and> (disk_recovers w' e \<or> disk_recovers w' e')"
proof -
  have inv: "engine_ok e" "engine_pids_ok e" using clean_log_ok [OF log(2)] by auto
  obtain r1 w1 where w1: "io_then (io_write (append_bytes False) rec) sync w = (r1, w1)" by fastforce
  from append_log [OF w1 log(1)] obtain k where k: "log_file w1 = Some (b @ take k rec)"
    "r1 = Inr () \<longrightarrow> k = length rec" by blast
  show ?thesis
  proof (cases r1)
    case (Inr u)
    have "clean_log (b @ rec) e'" unfolding rec by (rule clean_log_append [OF log(2) p])
    with Inr k run w1 log eng room show ?thesis by auto
  next
    case (Inl err)
    obtain r2 w2 where w2: "io_then (io_call (truncate_log False (length b))) sync w1 = (r2, w2)" by fastforce
    from truncate_log_effect [OF w2 k(1)] have
      cut: "log_file w2 = Some b \<or> r2 \<noteq> Inr () \<and> log_file w2 = Some (b @ take k rec)" .
    then have "disk_recovers w2 e \<or> disk_recovers w2 e'"
      using recover_partial_append [OF log(2) p, of w2 k] disk_recovers_clean [OF _ log(2)] rec by auto
    with Inl cut run w1 w2 log eng inv show ?thesis
      by (auto simp: store_inv_def split: sum.split_asm)
  qed
qed

lemma store_append_spec:
  assumes inv: "store_inv s w" and live: "\<not> poisoned s"
    and p: "op_fits p" "apply_logged (st_engine s) p = Some e'"
    and run: "store_append (frame (op_body p)) s w = (r, s', w')"
  shows "if r = Inr () then \<not> poisoned s' \<and> \<not> stale_handle s' \<and> st_engine s' = st_engine s
           \<and> (\<exists>b'. log_file w' = Some b' \<and> clean_log b' e' \<and> log_len s' = length b')
         else store_inv s' w' \<and> st_engine s' = st_engine s
           \<and> (disk_recovers w' (st_engine s) \<or> disk_recovers w' e')"
proof -
  let ?rec = "frame (op_body p)"
  define first where "first = (if sat_add (log_len s) (length ?rec) > MAX_LOG_BYTES
     then store_rewrite (\<lambda>_. False) s w else (Inr (), s, w))"
  obtain r0 s0 w0 where f: "first = (r0, s0, w0)" by (cases first)
  have first: "store_inv s0 w0 \<and> st_engine s0 = st_engine s \<and> disk_recovers w0 (st_engine s)
      \<and> (r0 = Inr () \<longrightarrow> \<not> poisoned s0
         \<and> sat_add (log_len s0) (length ?rec) = log_len s0 + length ?rec)"
  proof (cases "sat_add (log_len s) (length ?rec) > MAX_LOG_BYTES")
    case True
    with f first_def have "store_rewrite (\<lambda>_. False) s w = (r0, s0, w0)" by simp
    from store_compact_spec [OF inv live this] append_room [OF _ _ p(1)] inv show ?thesis
      by (auto simp: store_inv_def engine_ok_def simp del: length_frame)
  next
    case False
    then have "sat_add (log_len s) (length ?rec) = log_len s + length ?rec"
      by (simp add: sat_add_def MAX_LOG_BYTES_def U64_MAX_def min_def split: if_splits)
    with False f first_def inv live disk_recovers_clean show ?thesis
      by (auto simp: store_inv_def simp del: length_frame)
  qed
  show ?thesis
  proof (cases r0)
    case (Inl err)
    with run f first_def have "(r, s', w') = (Inl err, s0, w0)" by (simp add: store_append_def)
    with first show ?thesis by simp
  next
    case (Inr u)
    with first obtain b where b: "log_file w0 = Some b" "clean_log b (st_engine s)"
      "log_len s0 = length b" "\<not> stale_handle s0" "\<not> poisoned s0" "st_engine s0 = st_engine s"
      by (auto simp: store_inv_def)
    from first Inr b have room: "sat_add (length b) (length ?rec) = length b + length ?rec"
      by (simp del: length_frame)
    from run f first_def Inr show ?thesis
      by (intro store_append_tail [OF b(1-4,6,5) p room refl]) (simp add: store_append_def del: length_frame)
  qed
qed

end
