(* ===== verification/Store_Ops.thy ===== *)
theory Store_Ops
  imports Store_Log
begin

text \<open>
  The operations of the file-backed store under every script of operating-system
  answers: what each keeps of the invariant, what it leaves in memory, and what a
  process that opens the directory afterwards would recover.
\<close>

section \<open>Keys the store can read back\<close>

text \<open>
  The keys the browser builds: an ASCII site and host, both present, and one of the two
  schemes the network stack speaks.
\<close>

definition key_storable :: "partition_key \<Rightarrow> bool" where
  "key_storable k \<longleftrightarrow> is_ascii (top_level_site k) \<and> top_level_site k \<noteq> []
     \<and> is_ascii (host (key_origin k)) \<and> host (key_origin k) \<noteq> []
     \<and> (scheme (key_origin k) = str_https \<or> scheme (key_origin k) = str_http)"

lemma pid_from_key_Inr:
  assumes "pid_from_key k = Inr pid"
  shows "pid = PartId (top_level_site k) (scheme (key_origin k)) (host (key_origin k)) (port (key_origin k))"
    and "\<exists>b. pid_encode pid = Some b \<and> length b \<le> MAX_PARTITION_ID_BYTES"
  using assms by (auto simp: pid_from_key_def Let_def split: option.split_asm if_split_asm)

lemma pid_from_key_wf: "pid_from_key k = Inr pid \<Longrightarrow> key_storable k \<Longrightarrow> pid_wf pid"
  using pid_from_key_Inr [of k pid] by (auto simp: pid_wf_def pid_storable_def key_storable_def)

lemma pid_from_key_inj:
  assumes "pid_from_key k = Inr pid" and "pid_from_key k' = Inr pid"
  shows "k = k'"
  using pid_from_key_Inr(1) [OF assms(1)] pid_from_key_Inr(1) [OF assms(2)] by (cases k; cases k') simp

section \<open>Put\<close>

lemma put_op:
  assumes "pid_wf pid" and "check_put e pid ns key val = Inr ()" and "pid_encode pid = Some b"
  shows "op_fits (Put (ns_code ns) b key val)"
    and "apply_logged e (Put (ns_code ns) b key val) = Some (engine_put e pid ns key val)"
proof -
  from assms(1,3) have b: "length b \<le> MAX_PARTITION_ID_BYTES" "pid_decode b = Some pid"
    by (auto elim: pid_wfE)
  with assms(2) show "op_fits (Put (ns_code ns) b key val)"
    by (simp add: op_fits_def check_put_Inr)
  from b(2) assms(2) show "apply_logged e (Put (ns_code ns) b key val) = Some (engine_put e pid ns key val)"
    by (simp add: apply_logged_def)
qed

lemma maybe_compact_spec:
  assumes "store_inv s w" and "\<not> poisoned s" and "maybe_compact s w = (s', w')"
  shows "store_inv s' w' \<and> st_engine s' = st_engine s \<and> disk_recovers w' (st_engine s)"
proof (cases "log_len s > sat_add (sat_mul (total (st_engine s)) 2) COMPACT_SLACK")
  case True
  obtain r where "store_rewrite (\<lambda>_. False) s w = (r, s', w')"
    using assms(3) True by (cases "store_rewrite (\<lambda>_. False) s w") (simp add: maybe_compact_def)
  from store_compact_spec [OF assms(1,2) this] show ?thesis by blast
next
  case False
  with assms show ?thesis
    by (auto simp: maybe_compact_def store_inv_def disk_recovers_clean)
qed

lemma store_inv_disk: "store_inv s w \<Longrightarrow> \<not> poisoned s \<Longrightarrow> disk_recovers w (st_engine s)"
  by (auto simp: store_inv_def disk_recovers_clean)

text \<open>What a mutation promises when it means to take the engine \<open>e\<close> to \<open>e'\<close>.\<close>

definition atomic_to :: "engine \<Rightarrow> engine \<Rightarrow> 'io store_error + 'a \<Rightarrow> store \<Rightarrow> 'io world \<Rightarrow> bool" where
  "atomic_to e e' r s' w' \<longleftrightarrow> store_inv s' w' \<and>
     (case r of
        Inr _ \<Rightarrow> st_engine s' = e' \<and> disk_recovers w' e'
      | Inl _ \<Rightarrow> st_engine s' = e \<and> (disk_recovers w' e \<or> poisoned s' \<and> disk_recovers w' e'))"

lemma store_put_spec:
  assumes inv: "store_inv s w" and live: "\<not> poisoned s" and key: "key_storable k"
    and pid: "pid_from_key k = Inr pid" and acc: "check_put (st_engine s) pid ns key val = Inr ()"
    and run: "store_put k ns key val s w = (r, s', w')"
  shows "atomic_to (st_engine s) (engine_put (st_engine s) pid ns key val) r s' w'"
proof -
  let ?e = "engine_put (st_engine s) pid ns key val"
  from pid_from_key_Inr(2) [OF pid] obtain b where b: "pid_encode pid = Some b" by blast
  note op = put_op [OF pid_from_key_wf [OF pid key] acc b]
  obtain r1 s1 w1 where a: "store_append (frame (op_body (Put (ns_code ns) b key val))) s w = (r1, s1, w1)"
    by (metis prod_cases3)
  note spec = store_append_spec [OF inv live op a]
  show ?thesis
  proof (cases r1)
    case (Inl err)
    with run live pid acc b a op(1) have "(r, s', w') = (Inl err, s1, w1)"
      by (simp add: store_put_def encode_record_eq)
    with spec Inl show ?thesis by (auto simp: atomic_to_def dest: store_inv_disk)
  next
    case (Inr u)
    let ?s = "s1\<lparr>st_engine := ?e\<rparr>"
    from spec Inr have s: "store_inv ?s w1" "\<not> poisoned ?s" and e: "st_engine s1 = st_engine s"
      using clean_log_ok by (auto simp: store_inv_def)
    from run live pid acc b a op(1) Inr e have "r = Inr ()" "maybe_compact ?s w1 = (s', w')"
      by (auto simp: store_put_def encode_record_eq Let_def)
    with maybe_compact_spec [OF s] show ?thesis by (auto simp: atomic_to_def)
  qed
qed

text \<open>A refused put touches neither the store nor the disk.\<close>

lemma store_put_refused:
  assumes "poisoned s \<or> (\<exists>q. pid_from_key k = Inl q)
     \<or> (\<exists>pid q. pid_from_key k = Inr pid \<and> check_put (st_engine s) pid ns key val = Inl q)"
  shows "\<exists>err. store_put k ns key val s w = (Inl err, s, w)"
  using assms by (auto simp: store_put_def split: sum.split)

lemma put_op_done:
  assumes "store_inv s w" and "\<not> poisoned s" and "key_storable k"
    and "store_put k ns key val s w = (Inr (), s', w')"
  shows "\<exists>pid. pid_from_key k = Inr pid \<and> st_engine s' = engine_put (st_engine s) pid ns key val
     \<and> disk_recovers w' (st_engine s')"
proof -
  from assms(4) obtain pid where p: "pid_from_key k = Inr pid" "check_put (st_engine s) pid ns key val = Inr ()"
    by (auto simp: store_put_def split: if_split_asm sum.split_asm)
  from store_put_spec [OF assms(1-3) p assms(4)] p(1) show ?thesis by (simp add: atomic_to_def)
qed

section \<open>Delete\<close>

lemma delete_op:
  assumes "pid_wf pid" and "engine_ok e" and "engine_get e pid ns key \<noteq> None" and "pid_encode pid = Some b"
  shows "op_fits (Delete (ns_code ns) b key)"
    and "apply_logged e (Delete (ns_code ns) b key) = Some (snd (engine_delete e pid ns key))"
proof -
  from assms(1,4) have b: "length b \<le> MAX_PARTITION_ID_BYTES" "pid_decode b = Some pid"
    by (auto elim: pid_wfE)
  from assms(3) obtain v where "map_of (entries (part_of e pid)) (ns_code ns, key) = Some v"
    by (auto simp: engine_get_part_of)
  then have "entry_ok (ns_code ns, key) v"
    using part_of_ok [OF assms(2), of pid] by (auto simp: part_ok_def dest: map_of_SomeD)
  with b(1) show "op_fits (Delete (ns_code ns) b key)" by (simp add: op_fits_def entry_ok_def)
  from b(2) show "apply_logged e (Delete (ns_code ns) b key) = Some (snd (engine_delete e pid ns key))"
    by (simp add: apply_logged_def)
qed

lemma store_delete_spec:
  assumes inv: "store_inv s w" and live: "\<not> poisoned s" and key: "key_storable k"
    and pid: "pid_from_key k = Inr pid" and run: "store_delete k ns key s w = (r, s', w')"
  shows "atomic_to (st_engine s) (snd (engine_delete (st_engine s) pid ns key)) r s' w'"
    and "r = Inr f \<Longrightarrow> f \<longleftrightarrow> engine_get (st_engine s) pid ns key \<noteq> None"
proof -
  let ?e = "snd (engine_delete (st_engine s) pid ns key)"
  have "atomic_to (st_engine s) ?e r s' w' \<and> (r = Inr f \<longrightarrow> f = (engine_get (st_engine s) pid ns key \<noteq> None))"
  proof (cases "engine_get (st_engine s) pid ns key = None")
    case True
    with run live pid have "(r, s', w') = (Inr False, s, w)" by (simp add: store_delete_def)
    moreover have "?e = st_engine s" using True by (simp add: engine_delete_absent engine_get_part_of)
    ultimately show ?thesis using True inv live store_inv_disk by (simp add: atomic_to_def)
  next
    case False
    from pid_from_key_Inr(2) [OF pid] obtain b where b: "pid_encode pid = Some b" by blast
    from inv have "engine_ok (st_engine s)" by (simp add: store_inv_def)
    note op = delete_op [OF pid_from_key_wf [OF pid key] this False b]
    obtain r1 s1 w1 where a: "store_append (frame (op_body (Delete (ns_code ns) b key))) s w = (r1, s1, w1)"
      by (metis prod_cases3)
    note spec = store_append_spec [OF inv live op a]
    show ?thesis
    proof (cases r1)
      case (Inl err)
      with run live pid b a op(1) False have "(r, s', w') = (Inl err, s1, w1)"
        by (simp add: store_delete_def encode_record_eq)
      with spec Inl show ?thesis by (auto simp: atomic_to_def dest: store_inv_disk)
    next
      case (Inr u)
      from spec Inr have e: "st_engine s1 = st_engine s" by auto
      from run live pid b a op(1) False Inr e have "(r, s', w') = (Inr True, s1\<lparr>st_engine := ?e\<rparr>, w1)"
        by (auto simp: store_delete_def encode_record_eq)
      moreover from spec Inr have "store_inv (s1\<lparr>st_engine := ?e\<rparr>) w1" "\<not> poisoned s1"
        using clean_log_ok by (auto simp: store_inv_def)
      ultimately show ?thesis using False store_inv_disk [of "s1\<lparr>st_engine := ?e\<rparr>"]
        by (simp add: atomic_to_def)
    qed
  qed
  then show "atomic_to (st_engine s) ?e r s' w'"
    and "r = Inr f \<Longrightarrow> f \<longleftrightarrow> engine_get (st_engine s) pid ns key \<noteq> None" by simp_all
qed

section \<open>Clearing\<close>

lemma store_rewrite_bytes:
  assumes "store_rewrite dropped s w = (Inr (), s', w')"
  shows "\<exists>b. snapshot_excluding (st_engine s) dropped = Inr b \<and> log_file w' = Some b"
proof -
  from assms obtain b w1 where b: "snapshot_excluding (st_engine s) dropped = Inr b"
    and w1: "write_atomic b w = (Inr (), w1)" and w2: "io_call (\<lambda>w. w) w1 = (Inr (), w')"
    by (auto simp: store_rewrite_def Let_def split: sum.split_asm prod.split_asm)
  from write_atomic_log [OF w1] io_call_id_log [OF w2] b show ?thesis by auto
qed

lemma rewrite_then_keep:
  assumes inv: "store_inv s w" and live: "\<not> poisoned s"
    and run: "store_rewrite dropped s w = (r1, s1, w1)"
  shows "case r1 of
      Inl err \<Rightarrow> atomic_to (st_engine s) (kept (st_engine s) dropped) (Inl err :: 'io store_error + nat) s1 w1
    | Inr _ \<Rightarrow> st_engine s1 = st_engine s
        \<and> atomic_to (st_engine s) (kept (st_engine s) dropped) (Inr n :: 'io store_error + nat)
            (s1\<lparr>st_engine := kept (st_engine s) dropped\<rparr>) w1"
proof -
  note spec = store_rewrite_spec [OF inv run]
  show ?thesis
  proof (cases r1)
    case (Inr u)
    with spec(2) live obtain b where b: "log_file w1 = Some b" "clean_log b (kept (st_engine s) dropped)"
      "log_len s1 = length b" "\<not> poisoned s1" "\<not> stale_handle s1" by auto
    with clean_log_ok [OF b(2)] spec(1) Inr show ?thesis
      by (auto simp: atomic_to_def store_inv_def disk_recovers_clean)
  next
    case (Inl err)
    then have "r1 \<noteq> Inr ()" by simp
    from spec(3) [OF this] inv live spec(1) Inl show ?thesis
      by (auto simp: atomic_to_def store_inv_def disk_recovers_clean)
  qed
qed

lemma clear_partition_spec:
  assumes inv: "store_inv s w" and live: "\<not> poisoned s" and pid: "pid_from_key k = Inr pid"
    and run: "clear_partition k s w = (r, s', w')"
  shows "atomic_to (st_engine s) (kept (st_engine s) (\<lambda>q. q = pid)) r s' w'"
proof -
  have ok: "engine_ok (st_engine s)" using inv by (simp add: store_inv_def)
  obtain r1 s1 w1 where a: "store_rewrite (\<lambda>q. q = pid) s w = (r1, s1, w1)" by (metis prod_cases3)
  from rewrite_then_keep [OF inv live a, where n = "fst (remove_partition (st_engine s) pid)"]
    run a live pid kept_remove_partition [OF ok, of pid] show ?thesis
    by (cases r1) (auto simp: clear_partition_def Let_def split: prod.split_asm)
qed

lemma clear_site_spec:
  assumes inv: "store_inv s w" and live: "\<not> poisoned s" and run: "clear_site k s w = (r, s', w')"
  shows "atomic_to (st_engine s) (kept (st_engine s) (\<lambda>q. pid_site q = top_level_site k)) r s' w'"
proof -
  have ok: "engine_ok (st_engine s)" using inv by (simp add: store_inv_def)
  obtain r1 s1 w1 where a: "store_rewrite (\<lambda>q. pid_site q = top_level_site k) s w = (r1, s1, w1)"
    by (metis prod_cases3)
  from rewrite_then_keep [OF inv live a, where n = "fst (remove_site (st_engine s) (top_level_site k))"]
    run a live kept_remove_site [OF ok, of "top_level_site k"] show ?thesis
    by (cases r1) (auto simp: clear_site_def Let_def split: prod.split_asm)
qed

text \<open>After a successful rewrite the log holds no record of a dropped partition.\<close>

lemma rewrite_forgets:
  assumes inv: "store_inv s w" and run: "store_rewrite dropped s w = (Inr (), s', w')"
  obtains ops where "log_file w' = Some (header_bytes @ log_of ops)"
    "\<forall>p \<in> set ops. \<exists>q. \<not> dropped q \<and> pid_wf q \<and> pid_encode q = Some (op_pid p)"
proof -
  from inv have "engine_ok (st_engine s)" "engine_pids_ok (st_engine s)" by (simp_all add: store_inv_def)
  from snapshot_log [OF this, of dropped] obtain ops where
    ops: "snapshot_excluding (st_engine s) dropped = Inr (header_bytes @ log_of ops)"
    "\<forall>p \<in> set ops. \<exists>q. \<not> dropped q \<and> pid_wf q \<and> pid_encode q = Some (op_pid p)" .
  with store_rewrite_bytes [OF run] show thesis by (intro that) auto
qed

section \<open>Opening\<close>

lemma io_pure_log:
  assumes "io_then (io_call (\<lambda>w. w)) (io_call (\<lambda>w. w)) w = (r, w')"
  shows "log_file w' = log_file w"
  using assms by (auto elim!: io_thenE dest!: io_call_id_log)

lemma read_log_Inr:
  assumes "read_log w = (Inr b, w')"
  shows "log_file w' = log_file w" and "length b \<le> MAX_LOG_BYTES"
    and "log_file w = Some b \<or> log_file w = None \<and> b = []"
  using assms
  by (auto simp: read_log_def dest!: io_call_id_log split: prod.split_asm sum.split_asm option.split_asm
      if_split_asm)

lemma recover_nonempty: "recover b = Inr rc \<Longrightarrow> \<not> fresh rc \<Longrightarrow> b \<noteq> []"
  by (auto simp: recover_def check_header_def)

lemma recover_fresh: "recover b = Inr rc \<Longrightarrow> fresh rc \<Longrightarrow> rec_engine rc = engine_default"
  by (auto simp: recover_def split: sum.split_asm header.split_asm prod.split_asm)

lemma repair_log_clean:
  assumes rc: "recover b = Inr rc" and log: "log_file w = Some b \<or> log_file w = None \<and> b = []"
    and run: "repair_log b rc w = (Inr (), w')"
  shows "\<exists>b'. log_file w' = Some b' \<and> clean_log b' (rec_engine rc)"
proof (cases "fresh rc")
  case True
  with run write_atomic_log [of header_bytes w "Inr ()" w'] clean_log_header recover_fresh [OF rc] show ?thesis
    by (simp add: repair_log_def)
next
  case False
  from recover_sound [OF rc this] obtain ps where
    ps: "\<forall>p \<in> set ps. op_fits p" "replay engine_default ps = Some (rec_engine rc)"
    "take (valid_len rc) b = header_bytes @ log_of ps" "valid_len rc \<le> length b" .
  let ?v = "take (valid_len rc) b"
  have clean: "clean_log ?v (rec_engine rc)" using ps by (auto simp: clean_log_def)
  from log recover_nonempty [OF rc False] have w: "log_file w = Some (?v @ drop (valid_len rc) b)" by auto
  show ?thesis
  proof (cases "valid_len rc < length b")
    case True
    with run False have "io_then (io_call (\<lambda>w. w))
        (io_then (io_call (truncate_log False (length ?v))) sync) w = (Inr (), w')"
      by (simp add: repair_log_def min_def)
    then obtain w1 where w1: "io_call (\<lambda>w. w) w = (Inr (), w1)"
      and w2: "io_then (io_call (truncate_log False (length ?v))) sync w1 = (Inr (), w')"
      by (rule io_thenE) auto
    from io_call_id_log [OF w1] w have "log_file w1 = Some (?v @ drop (valid_len rc) b)" by simp
    from truncate_log_effect [OF w2 this] clean show ?thesis by auto
  next
    case False
    with run \<open>\<not> fresh rc\<close> w clean show ?thesis by (simp add: repair_log_def)
  qed
qed

lemma store_open_Inr:
  assumes "store_open w = (Inr s, w')"
  obtains b rc where "b = (case log_file w of None \<Rightarrow> [] | Some b \<Rightarrow> b)" "length b \<le> MAX_LOG_BYTES"
    "recover b = Inr rc" "st_engine s = rec_engine rc" "\<not> poisoned s" "store_inv s w'"
proof -
  from assms obtain w1 b w2 rc w3 where
    w1: "io_then (io_call (\<lambda>w. w)) (io_call (\<lambda>w. w\<lparr>tmp_file := None\<rparr>)) w = (Inr (), w1)"
    and w2: "read_log w1 = (Inr b, w2)" and rc: "recover b = Inr rc"
    and w3: "repair_log b rc w2 = (Inr (), w3)"
    and w4: "io_then (io_call (\<lambda>w. w)) (io_call (\<lambda>w. w)) w3 = (Inr (), w')"
    and s: "s = \<lparr>st_engine = rec_engine rc,
                log_len = (case log_file w' of None \<Rightarrow> 0 | Some l \<Rightarrow> length l),
                poisoned = False, stale_handle = False\<rparr>"
    by (auto simp: store_open_def split: prod.split_asm sum.split_asm)
  from w1 have l1: "log_file w1 = log_file w" by (auto elim!: io_thenE io_callE)
  note rd = read_log_Inr [OF w2]
  from rd(1,3) have "log_file w2 = Some b \<or> log_file w2 = None \<and> b = []" by simp
  from repair_log_clean [OF rc this w3] io_pure_log [OF w4] obtain b' where
    b': "log_file w' = Some b'" "clean_log b' (rec_engine rc)" by auto
  have "store_inv s w'" using b' clean_log_ok [OF b'(2)] by (simp add: store_inv_def s)
  moreover have "b = (case log_file w of None \<Rightarrow> [] | Some b \<Rightarrow> b)" using rd(3) l1 by auto
  ultimately show thesis using rd(2) rc s by (intro that) simp_all
qed

text \<open>When no call fails, opening succeeds on every log it is willing to read.\<close>

lemma io_call_clear: "faults w = [] \<Longrightarrow> io_call f w = (Inr (), f w)"
  by (simp add: io_call_def next_fault_def)

lemma io_write_clear: "faults w = [] \<Longrightarrow> io_write f b w = (Inr (), f b w)"
  by (simp add: io_write_def next_fault_def)

lemma write_atomic_clear:
  "faults w = [] \<Longrightarrow> write_atomic b w = (Inr (), w\<lparr>log_file := Some b, tmp_file := None\<rparr>)"
  by (simp add: write_atomic_def io_then_def io_call_clear io_write_clear sync_def)

lemma repair_log_clear: "faults w = [] \<Longrightarrow> \<exists>w'. repair_log b rc w = (Inr (), w') \<and> faults w' = []"
  by (simp add: repair_log_def write_atomic_clear io_then_def io_call_clear sync_def truncate_log_def)

lemma store_open_total:
  assumes "faults w = []" and "length b \<le> MAX_LOG_BYTES" and "recover b = Inr rc"
    and "log_file w = Some b \<or> log_file w = None \<and> b = []"
  shows "\<exists>s w'. store_open w = (Inr s, w')"
proof -
  let ?w = "w\<lparr>tmp_file := None\<rparr>"
  from repair_log_clear [of ?w b rc] assms(1) obtain w' where
    w': "repair_log b rc ?w = (Inr (), w')" "faults w' = []" by auto
  have "read_log ?w = (Inr b, ?w)"
    using assms by (auto simp: read_log_def io_call_clear)
  with assms(1,3) w' show ?thesis
    by (simp add: store_open_def io_then_def io_call_clear)
qed

text \<open>
  What the next process finds: a log over the size limit is refused as such, and every other log
  opens with the given engine.
\<close>

definition reopens_with :: "'io world \<Rightarrow> engine \<Rightarrow> bool" where
  "reopens_with w e \<longleftrightarrow>
     (\<exists>b. log_file w = Some b
        \<and> (if length b > MAX_LOG_BYTES
           then fst (store_open (w\<lparr>faults := []\<rparr>)) = Inl (Format RecordTooLarge)
           else \<exists>s' w'. store_open (w\<lparr>faults := []\<rparr>) = (Inr s', w') \<and> st_engine s' = e))"

lemma disk_recovers_reopens: "disk_recovers w e \<Longrightarrow> reopens_with w e"
proof -
  assume "disk_recovers w e"
  then obtain b r where b: "log_file w = Some b" "recover b = Inr r" "rec_engine r = e" by (auto simp: disk_recovers_def)
  let ?w = "w\<lparr>faults := []\<rparr>"
  show "reopens_with w e"
  proof (cases "length b > MAX_LOG_BYTES")
    case True
    then have "fst (store_open ?w) = Inl (Format RecordTooLarge)"
      using b(1) by (simp add: store_open_def read_log_def io_then_def io_call_clear)
    then show ?thesis using b(1) True by (simp add: reopens_with_def)
  next
    case False
    then obtain s' w' where o: "store_open ?w = (Inr s', w')"
      using store_open_total [OF _ _ b(2), of ?w] b(1) by auto
    from store_open_Inr [OF o] b have "st_engine s' = e" by auto
    then show ?thesis using o b(1) False by (auto simp: reopens_with_def)
  qed
qed

section \<open>The first write to an empty directory\<close>

definition fresh_store :: store where
  "fresh_store = \<lparr>st_engine = engine_default, log_len = HEADER_LEN, poisoned = False, stale_handle = False\<rparr>"

lemma open_empty_directory:
  assumes "faults w = []" and "log_file w = None"
  shows "store_open w = (Inr fresh_store, w\<lparr>log_file := Some header_bytes, tmp_file := None\<rparr>)"
  using assms
  by (simp add: store_open_def io_then_def io_call_clear read_log_def recover_def check_header_def
      repair_log_def write_atomic_clear fresh_store_def)

lemma check_put_empty:
  assumes "length key \<le> MAX_KEY_BYTES" and "length val \<le> MAX_VALUE_BYTES"
  shows "check_put engine_default pid ns key val = Inr ()"
  using assms
  by (simp add: check_put_Inr engine_default_def old_cost_def part_of_def partition_default_def
      old_weight_def cost_eq) (simp add: format_limits engine_limits)

lemma store_append_clear:
  assumes "faults w = []" and "\<not> stale_handle s" and "log_file w = Some b"
    and "log_len s + length rec \<le> MAX_LOG_BYTES"
  shows "store_append rec s w
    = (Inr (), s\<lparr>log_len := log_len s + length rec\<rparr>, w\<lparr>log_file := Some (b @ rec)\<rparr>)"
proof -
  have a: "sat_add (log_len s) (length rec) = log_len s + length rec"
    using assms(4) by (simp add: sat_add_def MAX_LOG_BYTES_def U64_MAX_def)
  then show ?thesis using assms
    by (simp add: store_append_def a io_then_def io_write_clear io_call_clear sync_def append_bytes_def)
qed

lemma put_fresh:
  fixes ns :: namespace
  assumes "faults w = []" and "log_file w = Some header_bytes"
    and pid: "pid_from_key k = Inr pid" "pid_encode pid = Some b"
    and len: "length key \<le> MAX_KEY_BYTES" "length val \<le> MAX_VALUE_BYTES"
  defines "rec \<equiv> frame (op_body (Put (ns_code ns) b key val))"
  shows "store_put k ns key val fresh_store w =
    (Inr (), \<lparr>st_engine = engine_put engine_default pid ns key val, log_len = HEADER_LEN + length rec,
       poisoned = False, stale_handle = False\<rparr>, w\<lparr>log_file := Some (header_bytes @ rec)\<rparr>)"
proof -
  have b: "length b \<le> MAX_PARTITION_ID_BYTES"
    using pid_from_key_Inr(2) [OF pid(1)] pid(2) by auto
  then have fits: "op_fits (Put (ns_code ns) b key val)" using len by (simp add: op_fits_def)
  have rec: "length rec = 14 + length b + length key + length val"
    by (simp add: rec_def op_body_def format_limits)
  then have small: "HEADER_LEN + length rec \<le> MAX_LOG_BYTES"
    using b len by (simp add: MAX_LOG_BYTES_def format_limits)
  have acc: "check_put engine_default pid ns key val = Inr ()" by (rule check_put_empty [OF len])
  have "total (engine_put engine_default pid ns key val) = length key + length val + ENTRY_OVERHEAD_BYTES"
    using check_put_exact [OF acc]
    by (simp add: engine_put_eq engine_default_def old_cost_def part_of_def partition_default_def
        old_weight_def cost_eq len)
  then have idle: "\<not> sat_add (sat_mul (total (engine_put engine_default pid ns key val)) 2) COMPACT_SLACK
      < HEADER_LEN + length rec"
    using rec b len
    by (simp add: sat_add_def sat_mul_def COMPACT_SLACK_def format_limits engine_limits)
  have app: "store_append rec fresh_store w = (Inr (), fresh_store\<lparr>log_len := HEADER_LEN + length rec\<rparr>,
      w\<lparr>log_file := Some (header_bytes @ rec)\<rparr>)"
    using store_append_clear [OF assms(1) _ assms(2), of fresh_store rec] small
    by (simp add: fresh_store_def)
  show ?thesis
    using app idle fits pid acc unfolding rec_def
    by (simp add: store_put_def encode_record_eq maybe_compact_def fresh_store_def Let_def del: length_frame)
qed

section \<open>Partition ids that cannot be read back\<close>

lemma non_ascii_unreadable:
  assumes "pid_encode pid = Some b" and "\<not> is_ascii (pid_site pid)"
  shows "pid_decode b = None"
proof (cases "pid_decode b")
  case (Some p)
  from pid_decode_Some [OF this] assms pid_encode_inj show ?thesis by (auto simp: pid_storable_def)
qed simp

text \<open>
  After a put that reported success, opening the directory finds the value under its key and
  every other key as it was.
\<close>

lemma put_reopen:
  assumes "store_inv s w" and "\<not> poisoned s" and "key_storable k"
    and "store_put k ns key val s w = (Inr (), s', w')"
    and "log_file w' = Some b" and "length b \<le> MAX_LOG_BYTES"
  shows "\<exists>s'' w''. store_open (w'\<lparr>faults := []\<rparr>) = (Inr s'', w'') \<and> store_inv s'' w''
    \<and> (\<forall>k' ns' key'. store_get s'' k' ns' key' =
         (if k' = k \<and> ns' = ns \<and> key' = key then Some val else store_get s k' ns' key'))"
proof -
  from put_op_done [OF assms(1-4)] obtain pid where pid: "pid_from_key k = Inr pid"
    and e: "st_engine s' = engine_put (st_engine s) pid ns key val" and d: "disk_recovers w' (st_engine s')"
    by blast
  let ?w = "w'\<lparr>faults := []\<rparr>"
  from d assms(5) obtain rc where rc: "recover b = Inr rc" "rec_engine rc = st_engine s'"
    by (auto simp: disk_recovers_def)
  obtain s'' w'' where o: "store_open ?w = (Inr s'', w'')"
    using store_open_total [OF _ assms(6) rc(1), of ?w] assms(5) by auto
  obtain b' rc' where b': "b' = (case log_file ?w of None \<Rightarrow> [] | Some b \<Rightarrow> b)" "recover b' = Inr rc'"
    "st_engine s'' = rec_engine rc'" "\<not> poisoned s''" "store_inv s'' w''"
    by (rule store_open_Inr [OF o])
  with assms(5) rc have s'': "st_engine s'' = st_engine s'" "\<not> poisoned s''" "store_inv s'' w''" by simp_all
  have "store_get s'' k' ns' key' =
      (if k' = k \<and> ns' = ns \<and> key' = key then Some val else store_get s k' ns' key')" for k' ns' key'
  proof (cases "pid_from_key k'")
    case (Inl q)
    with s''(2) assms(2) pid show ?thesis by (auto simp: store_get_def)
  next
    case (Inr pid')
    have "k' = k \<longleftrightarrow> pid' = pid" using pid_from_key_inj Inr pid by auto
    with s''(1,2) assms(2) e Inr show ?thesis by (simp add: store_get_def engine_get_put)
  qed
  with o s''(3) show ?thesis by blast
qed

end
