(* ===== verification/Store_Properties.thy ===== *)
theory Store_Properties
  imports Store_Ops
begin

text \<open>
  The properties of the partitioned store: the log format, the engine's quotas and
  isolation, recovery, and the crash behaviour of the file-backed operations.
\<close>

section \<open>Inputs for the witnesses\<close>

definition sample_key :: partition_key where
  "sample_key = \<lparr>top_level_site = [0x61, 0x2E, 0x62],
     key_origin = \<lparr>scheme = str_https, host = [0x61], port = 443\<rparr>\<rparr>"

definition sample_pid :: part_id where
  "sample_pid = PartId [0x61, 0x2E, 0x62] str_https [0x61] 443"

definition sample_world :: "(nat \<times> nat) option list \<Rightarrow> nat world" where
  "sample_world fs = \<lparr>log_file = Some header_bytes, tmp_file = None, faults = fs\<rparr>"

lemma sample_key_facts:
  "key_storable sample_key" "pid_from_key sample_key = Inr sample_pid" "pid_wf sample_pid"
proof -
  show k: "key_storable sample_key"
    by (simp add: key_storable_def sample_key_def is_ascii_def)
  obtain b where b: "pid_encode sample_pid = Some b" "length b = 17"
    by (simp add: pid_encode_Some sample_pid_def str_https_def)
  show p: "pid_from_key sample_key = Inr sample_pid"
    using b by (simp add: pid_from_key_def sample_key_def sample_pid_def Let_def format_limits)
  show "pid_wf sample_pid" by (rule pid_from_key_wf [OF p k])
qed

lemma fresh_store_inv: "store_inv fresh_store (sample_world fs)" "\<not> poisoned fresh_store"
  using clean_log_header by (auto simp: store_inv_def fresh_store_def sample_world_def)

lemma sample_put_accepted: "check_put engine_default sample_pid Storage [1] [2] = Inr ()"
  by (rule check_put_empty) (simp_all add: format_limits)

section \<open>The log format\<close>

text \<open>
  C1. Whatever the encoder writes decodes to the operation it was given, with the length of
  the record as the number of bytes consumed, whatever follows it in the log.
\<close>
theorem record_roundtrip:
  assumes "encode_record p = Inr rec"
  shows "decode_record (rec @ rest) = NextRecord p (length rec)"
  using assms by (auto simp: encode_record_Inr simp del: length_frame intro: decode_op)

theorem record_roundtrip_witness:
  "\<exists>rec. encode_record (Put 0 [1, 2] [3] [4, 5]) = Inr rec
     \<and> decode_record (rec @ [9]) = NextRecord (Put 0 [1, 2] [3] [4, 5]) (length rec)"
proof -
  obtain rec where "encode_record (Put 0 [1, 2] [3] [4, 5]) = Inr rec"
    by (simp add: encode_record_eq op_fits_def format_limits)
  with record_roundtrip [OF this, of "[9]"] show ?thesis by blast
qed

text \<open>
  Only canonical records decode: when a record is read, the bytes it was read from are
  exactly what the encoder produces for that operation, so no two byte strings stand for
  the same record.
\<close>
lemma record_canonical:
  assumes "decode_record b = NextRecord p n"
  shows "encode_record p = Inr (take n b) \<and> n \<le> length b"
  using decode_record_Some [OF assms] by (auto simp: encode_record_eq)

text \<open>
  A record cut short at any byte (the write was interrupted) never decodes to an
  operation: it is reported torn.
\<close>
lemma torn_record_rejected:
  assumes "encode_record p = Inr rec" and "0 < k" and "k < length rec"
  shows "decode_record (take k rec) = Torn"
  using assms by (auto simp: encode_record_Inr simp del: length_frame intro!: decode_torn_frame length_op_body)

text \<open>
  C2. One damaged byte in the checksum or the body of a record, whatever follows it, makes
  the record torn: the CRC catches every single-byte change.
\<close>
theorem damaged_record_rejected:
  assumes "encode_record p = Inr rec" and "4 \<le> i" and "i < length rec" and "b \<noteq> rec ! i"
  shows "decode_record (rec[i := b] @ rest) = Torn"
  using assms
  by (auto simp: encode_record_Inr simp del: length_frame intro!: decode_damaged_frame length_op_body)

theorem damaged_record_rejected_witness:
  "\<exists>rec. encode_record (Put 0 [1] [3] [4]) = Inr rec
     \<and> decode_record (rec[8 := rec ! 8 + 1] @ [0]) = Torn"
proof -
  obtain rec where rec: "encode_record (Put 0 [1] [3] [4]) = Inr rec"
    by (simp add: encode_record_eq op_fits_def format_limits)
  then have "8 < length rec" by (auto simp: encode_record_Inr format_limits op_body_def)
  with damaged_record_rejected [OF rec, of 8 "rec ! 8 + 1" "[0]"] rec show ?thesis by auto
qed

section \<open>Partitions and quotas\<close>

text \<open>
  Two different partition keys never share a stored partition: the id a key is filed
  under decodes from its bytes to that key and no other.
\<close>
lemma partition_ids_separate:
  assumes "pid_from_key k = Inr pid" and "pid_from_key k' = Inr pid'"
    and "key_storable k" and "key_storable k'"
    and "pid_encode pid = pid_encode pid'"
  shows "k = k' \<and> pid_decode (the (pid_encode pid)) = Some pid"
proof -
  from pid_from_key_wf [OF assms(1,3)] obtain b where b: "pid_encode pid = Some b" "pid_decode b = Some pid"
    by (rule pid_wfE)
  with pid_encode_inj [of pid b pid'] assms(5) have "pid = pid'" by simp
  with b pid_from_key_inj assms(1,2) show ?thesis by auto
qed

text \<open>
  C3. After any sequence of puts (as far as the engine accepts them), deletes and cleared
  partitions from the empty engine, the byte counters are exact and every quota holds:
  each partition within its byte quota and entry limit, the total within the global quota,
  and no empty partition is kept.
\<close>
theorem quotas_always_hold:
  "total (foldl engine_mutate engine_default cs) \<le> GLOBAL_QUOTA_BYTES
    \<and> total (foldl engine_mutate engine_default cs)
        = sum_list (map (part_bytes \<circ> snd) (parts (foldl engine_mutate engine_default cs)))
    \<and> list_all (\<lambda>(pid, p). part_bytes p \<le> PARTITION_QUOTA_BYTES
         \<and> length (entries p) \<le> MAX_ENTRIES_PER_PARTITION \<and> entries p \<noteq> []
         \<and> part_bytes p = sum_list (map (\<lambda>(k, val). length (snd k) + length val + ENTRY_OVERHEAD_BYTES) (entries p)))
       (parts (foldl engine_mutate engine_default cs))"
proof -
  let ?e = "foldl engine_mutate engine_default cs"
  have ok: "engine_ok ?e" by (rule engine_run_ok [OF engine_ok_default])
  have w: "bt_weight entry_cost es = sum_list (map (\<lambda>(k, val). length (snd k) + length val + ENTRY_OVERHEAD_BYTES) es)"
    if "\<forall>(k, v) \<in> set es. entry_ok k v" for es
    using that by (induction es) (auto simp: entry_cost_def entry_ok_def cost_eq)
  have t: "bt_weight (\<lambda>_. part_bytes) ps = sum_list (map (part_bytes \<circ> snd) ps)" for ps :: "(part_id, partition) btree"
    by (induction ps) auto
  from ok show ?thesis
    by (auto simp: engine_ok_def part_ok_def list_all_iff w t)
qed

text \<open>
  Isolation: whatever is written, deleted or cleared in other partitions, every lookup
  in a partition returns what it returned before.
\<close>
lemma partitions_isolated:
  assumes "engine_ok e" and "pid \<notin> mutation_target ` set cs"
  shows "engine_get (foldl engine_mutate e cs) pid ns key = engine_get e pid ns key"
  using engine_run_isolated [OF assms, of "(ns, key)"] by simp

section \<open>Recovery\<close>

text \<open>
  C4. Recovery returns a consistent prefix: when a file is accepted, its first
  \<open>valid_len\<close> bytes are the header and the records of some operations, the engine is
  the result of replaying exactly those, and it satisfies every quota, whatever bytes
  follow.
\<close>
theorem recovery_consistent_prefix:
  assumes "recover b = Inr r"
  shows "engine_ok (rec_engine r) \<and>
    (if fresh r then rec_engine r = engine_default
     else valid_len r \<le> length b \<and> (\<exists>ops. replay engine_default ops = Some (rec_engine r)
       \<and> take (valid_len r) b = header_bytes @ concat (map (\<lambda>p. projr (encode_record p)) ops)
       \<and> list_all (\<lambda>p. \<exists>rec. encode_record p = Inr rec) ops))"
proof (cases "fresh r")
  case True
  with recover_ok [OF assms] recover_fresh [OF assms] show ?thesis by simp
next
  case False
  from recover_sound [OF assms False] obtain ps where ps: "\<forall>p \<in> set ps. op_fits p"
    "replay engine_default ps = Some (rec_engine r)" "take (valid_len r) b = header_bytes @ log_of ps"
    "valid_len r \<le> length b" .
  from ps(1) have "log_of ps = concat (map (\<lambda>p. projr (encode_record p)) ps)"
    by (induction ps) (simp_all add: encode_record_eq)
  with ps recover_ok [OF assms] False show ?thesis
    by (auto simp: list_all_iff encode_record_eq intro!: exI [of _ ps])
qed

theorem recovery_consistent_prefix_witness:
  "\<exists>r. recover (header_bytes @ [1, 2, 3]) = Inr r \<and> engine_ok (rec_engine r) \<and> valid_len r = 16"
proof -
  have "decode_record [1, 2, 3] = Torn" by (rule decode_short) (simp_all add: FRAME_LEN_def)
  then have r: "recover (header_bytes @ [1, 2, 3])
      = Inr \<lparr>rec_engine = engine_default, valid_len = HEADER_LEN, fresh = False\<rparr>"
    using recover_log [of "[]" engine_default "[1, 2, 3]"] by simp
  from recovery_consistent_prefix [OF r] r show ?thesis by (simp add: HEADER_LEN_def)
qed

text \<open>
  Compaction loses nothing: the snapshot of an engine within its invariant is always
  produced, and recovering it gives back the same engine, all its bytes used.
\<close>
lemma snapshot_recovers:
  assumes "engine_ok e" and "engine_pids_ok e"
  shows "\<exists>b. snapshot_excluding e (\<lambda>_. False) = Inr b
     \<and> recover b = Inr \<lparr>rec_engine = e, valid_len = length b, fresh = False\<rparr>"
  using clean_log_snapshot [OF assms, of "\<lambda>_. False"] clean_log_recover
  by (metis kept_all [OF assms(1)])

section \<open>The file-backed store\<close>

text \<open>
  C5. A put under a key the store can write down (an ASCII site and host; the next property
  shows what happens to another site) is crash-atomic under every sequence of I/O failures: the invariant is
  kept; when it reports success the value is in memory and the next \<^verbatim>\<open>open\<close> finds exactly the
  engine in memory; when it fails the engine is unchanged, and the next \<^verbatim>\<open>open\<close> finds the old
  engine or, only if the store poisoned itself, the new one.  In each case a log that has grown
  over \<open>MAX_LOG_BYTES\<close> is refused by \<^verbatim>\<open>open\<close> instead.
\<close>
theorem put_crash_atomic:
  assumes "store_inv s w" and "\<not> poisoned s" and "key_storable k"
    and "store_put k ns key val s w = (r, s', w')"
  shows "store_inv s' w' \<and>
    (case r of
       Inr _ \<Rightarrow> (\<exists>pid. pid_from_key k = Inr pid \<and> st_engine s' = engine_put (st_engine s) pid ns key val)
         \<and> reopens_with w' (st_engine s')
     | Inl _ \<Rightarrow> st_engine s' = st_engine s \<and> (reopens_with w' (st_engine s)
         \<or> poisoned s' \<and> (\<exists>pid. pid_from_key k = Inr pid
             \<and> reopens_with w' (engine_put (st_engine s) pid ns key val))))"
proof (cases "\<exists>pid. pid_from_key k = Inr pid \<and> check_put (st_engine s) pid ns key val = Inr ()")
  case True
  then obtain pid where p: "pid_from_key k = Inr pid" "check_put (st_engine s) pid ns key val = Inr ()" by blast
  from store_put_spec [OF assms(1-3) p assms(4)] p show ?thesis
    by (auto simp: atomic_to_def split: sum.splits dest: disk_recovers_reopens)
next
  case False
  then have "(\<exists>q. pid_from_key k = Inl q)
     \<or> (\<exists>pid q. pid_from_key k = Inr pid \<and> check_put (st_engine s) pid ns key val = Inl q)"
    by (metis old.unit.exhaust sum.exhaust)
  then obtain err where "store_put k ns key val s w = (Inl err, s, w)"
    using store_put_refused by metis
  with assms disk_recovers_reopens [OF store_inv_disk] show ?thesis by auto
qed

theorem put_crash_atomic_witness:
  "\<exists>r s' w'. store_put sample_key Storage [1] [2] fresh_store (sample_world [Some (5, 3), Some (6, 0)]) = (r, s', w')
     \<and> store_inv s' w'"
proof -
  obtain r s' w' where
    run: "store_put sample_key Storage [1] [2] fresh_store (sample_world [Some (5, 3), Some (6, 0)]) = (r, s', w')"
    by (metis prod_cases3)
  from put_crash_atomic [OF fresh_store_inv sample_key_facts(1) run] run show ?thesis by blast
qed

text \<open>
  A delete reports whether the key was there, and is crash-atomic in the same sense
  as a put.
\<close>
lemma delete_crash_atomic:
  assumes "store_inv s w" and "\<not> poisoned s" and "key_storable k" and "pid_from_key k = Inr pid"
    and "store_delete k ns key s w = (r, s', w')"
  shows "store_inv s' w' \<and>
    (case r of
       Inr found \<Rightarrow> found = (store_get s k ns key \<noteq> None) \<and> store_get s' k ns key = None
         \<and> st_engine s' = snd (engine_delete (st_engine s) pid ns key) \<and> disk_recovers w' (st_engine s')
     | Inl _ \<Rightarrow> st_engine s' = st_engine s \<and> (disk_recovers w' (st_engine s)
         \<or> poisoned s' \<and> disk_recovers w' (snd (engine_delete (st_engine s) pid ns key))))"
proof -
  note spec = store_delete_spec [OF assms]
  have "engine_ok (st_engine s)" using assms(1) by (simp add: store_inv_def)
  from engine_get_delete [OF this] have
    "engine_get (snd (engine_delete (st_engine s) pid ns key)) pid ns key = None" by simp
  with spec assms(2,4) show ?thesis
    by (cases r) (auto simp: atomic_to_def store_get_def)
qed

text \<open>
  Clearing a partition forgets it: on success no lookup in it finds anything, every
  other partition is unchanged, and no record of the log on disk names the partition.
\<close>
lemma clear_partition_forgets:
  assumes "store_inv s w" and "pid_from_key k = Inr pid"
    and "clear_partition k s w = (Inr n, s', w')"
  shows "store_inv s' w'
    \<and> (\<forall>q ns key. engine_get (st_engine s') q ns key =
          (if q = pid then None else engine_get (st_engine s) q ns key))
    \<and> (\<exists>ops. log_file w' = Some (header_bytes @ log_of ops)
         \<and> list_all (\<lambda>p. Some (op_pid p) \<noteq> pid_encode pid) ops)"
proof -
  have live: "\<not> poisoned s" using assms(3) by (auto simp: clear_partition_def)
  have ok: "engine_ok (st_engine s)" using assms(1) by (simp add: store_inv_def)
  from clear_partition_spec [OF assms(1) live assms(2,3)] have
    inv: "store_inv s' w'" and e: "st_engine s' = kept (st_engine s) (\<lambda>q. q = pid)"
    by (simp_all add: atomic_to_def)
  from assms(2,3) live obtain s1 where a: "store_rewrite (\<lambda>q. q = pid) s w = (Inr (), s1, w')"
    by (auto simp: clear_partition_def Let_def split: sum.split_asm prod.split_asm)
  from rewrite_forgets [OF assms(1) a] obtain ops where ops: "log_file w' = Some (header_bytes @ log_of ops)"
    "\<forall>p \<in> set ops. \<exists>q. q \<noteq> pid \<and> pid_wf q \<and> pid_encode q = Some (op_pid p)" .
  then have "list_all (\<lambda>p. Some (op_pid p) \<noteq> pid_encode pid) ops"
    by (metis (mono_tags, lifting) list_all_iff pid_encode_inj)
  moreover have "engine_get (st_engine s') q ns key =
      (if q = pid then None else engine_get (st_engine s) q ns key)" for q ns key
    unfolding e kept_remove_partition [OF ok, symmetric] by (rule engine_get_remove_partition [OF ok])
  ultimately show ?thesis using inv ops(1) by blast
qed

text \<open>
  Clearing a site forgets every partition filed under that top-level site, whichever
  origin was embedded, and nothing else, in memory and on disk.
\<close>
lemma clear_site_forgets:
  assumes "store_inv s w" and "clear_site k s w = (Inr n, s', w')"
  shows "store_inv s' w'
    \<and> (\<forall>q ns key. engine_get (st_engine s') q ns key =
          (if pid_site q = top_level_site k then None else engine_get (st_engine s) q ns key))
    \<and> (\<exists>ops. log_file w' = Some (header_bytes @ log_of ops)
         \<and> list_all (\<lambda>p. \<exists>q. pid_decode (op_pid p) = Some q \<and> pid_site q \<noteq> top_level_site k) ops)"
proof -
  let ?d = "\<lambda>q. pid_site q = top_level_site k"
  have live: "\<not> poisoned s" using assms(2) by (auto simp: clear_site_def)
  have ok: "engine_ok (st_engine s)" using assms(1) by (simp add: store_inv_def)
  from clear_site_spec [OF assms(1) live assms(2)] have
    inv: "store_inv s' w'" and e: "st_engine s' = kept (st_engine s) ?d"
    by (simp_all add: atomic_to_def)
  from assms(2) live obtain s1 where a: "store_rewrite ?d s w = (Inr (), s1, w')"
    by (auto simp: clear_site_def Let_def split: sum.split_asm prod.split_asm)
  from rewrite_forgets [OF assms(1) a] obtain ops where ops: "log_file w' = Some (header_bytes @ log_of ops)"
    "\<forall>p \<in> set ops. \<exists>q. \<not> ?d q \<and> pid_wf q \<and> pid_encode q = Some (op_pid p)" .
  have "\<exists>q. pid_decode (op_pid p) = Some q \<and> pid_site q \<noteq> top_level_site k" if "p \<in> set ops" for p
  proof -
    from ops(2) that obtain q where q: "\<not> ?d q" "pid_wf q" "pid_encode q = Some (op_pid p)" by blast
    then have "pid_decode (op_pid p) = Some q" by (simp add: pid_decode_encode pid_wf_def)
    with q(1) show ?thesis by blast
  qed
  then have l: "list_all (\<lambda>p. \<exists>q. pid_decode (op_pid p) = Some q \<and> pid_site q \<noteq> top_level_site k) ops"
    by (simp add: list_all_iff)
  have g: "engine_get (st_engine s') q ns key =
      (if pid_site q = top_level_site k then None else engine_get (st_engine s) q ns key)" for q ns key
    unfolding e kept_remove_site [OF ok, symmetric] by (rule engine_get_remove_site [OF ok])
  from inv g ops(1) l show ?thesis by blast
qed

section \<open>What the store does not promise\<close>

text \<open>
  C6. A partition key whose site is not ASCII is accepted, logged and readable in memory,
  but its record cannot be replayed: after a reopen the acknowledged value is gone.
\<close>
theorem non_ascii_site_lost:
  assumes "faults w = []" and "log_file w = None" and "pid_from_key k = Inr pid"
    and "\<not> is_ascii (top_level_site k)"
    and "length key \<le> MAX_KEY_BYTES" and "length val \<le> MAX_VALUE_BYTES"
  shows "\<exists>s1 w1 s2 w2 s3 w3. store_open w = (Inr s1, w1)
    \<and> store_put k ns key val s1 w1 = (Inr (), s2, w2) \<and> store_get s2 k ns key = Some val
    \<and> store_open w2 = (Inr s3, w3) \<and> store_get s3 k ns key = None"
proof -
  let ?w1 = "w\<lparr>log_file := Some header_bytes, tmp_file := None\<rparr>"
  from pid_from_key_Inr [OF assms(3)] assms(4) obtain b where
    b: "pid_encode pid = Some b" "length b \<le> MAX_PARTITION_ID_BYTES" and site: "\<not> is_ascii (pid_site pid)"
    by auto
  let ?p = "Put (ns_code ns) b key val"
  let ?l = "header_bytes @ frame (op_body ?p)"
  obtain s2 where put: "store_put k ns key val fresh_store ?w1 = (Inr (), s2, ?w1\<lparr>log_file := Some ?l\<rparr>)"
    and get: "store_get s2 k ns key = Some val"
    using put_fresh [OF _ _ assms(3) b(1) assms(5,6), of ?w1 ns] assms(1,3)
    by (simp add: store_get_def engine_get_put)
  have fits: "op_fits ?p" using b(2) assms(5,6) by (simp add: op_fits_def)
  have "recover_loop ?l engine_default HEADER_LEN = (engine_default, HEADER_LEN)"
    using recover_loop_op [of HEADER_LEN ?l ?p "[]" engine_default] fits
    by (simp add: apply_logged_def non_ascii_unreadable [OF b(1) site] del: length_frame)
  then have rc: "recover ?l = Inr \<lparr>rec_engine = engine_default, valid_len = HEADER_LEN, fresh = False\<rparr>"
    by (simp add: recover_def check_header_canonical)
  have len: "length ?l \<le> MAX_LOG_BYTES"
    using b(2) assms(5,6) by (simp add: MAX_LOG_BYTES_def op_body_def format_limits)
  from store_open_total [OF _ len rc, of "?w1\<lparr>log_file := Some ?l\<rparr>"] assms(1) obtain s3 w3 where
    o: "store_open (?w1\<lparr>log_file := Some ?l\<rparr>) = (Inr s3, w3)" by auto
  obtain b' rc' where "b' = (case log_file (?w1\<lparr>log_file := Some ?l\<rparr>) of None \<Rightarrow> [] | Some b \<Rightarrow> b)"
    "recover b' = Inr rc'" "st_engine s3 = rec_engine rc'" by (rule store_open_Inr [OF o])
  with rc have "store_get s3 k ns key = None"
    using assms(3) by (auto simp: store_get_def engine_get_def engine_default_def)
  with o put get open_empty_directory [OF assms(1,2)] show ?thesis by blast
qed

theorem non_ascii_site_lost_witness:
  "\<exists>k s1 w1 s2 w2 s3 w3. store_open \<lparr>log_file = None, tmp_file = None, faults = [] :: (nat \<times> nat) option list\<rparr> = (Inr s1, w1)
    \<and> store_put k Storage [1] [2] s1 w1 = (Inr (), s2, w2) \<and> store_get s2 k Storage [1] = Some [2]
    \<and> store_open w2 = (Inr s3, w3) \<and> store_get s3 k Storage [1] = None"
proof -
  let ?k = "sample_key\<lparr>top_level_site := [0xC3, 0xA9]\<rparr>"
  obtain pid where pid: "pid_from_key ?k = Inr pid"
    by (simp add: pid_from_key_def sample_key_def Let_def pid_encode_def try_from_u16_def str_https_def
        format_limits)
  have "\<not> is_ascii (top_level_site ?k)" by (simp add: is_ascii_def)
  from non_ascii_site_lost [OF _ _ pid this, where w = "\<lparr>log_file = None, tmp_file = None, faults = []\<rparr>"
      and key = "[1]" and val = "[2]" and ns = Storage]
  show ?thesis by (intro exI [of _ ?k]) (simp add: format_limits)
qed

text \<open>
  The engine of the next property: many partitions that share a long site name, each with
  300 keys and no value bytes.
\<close>

definition crowd_entries :: "(entry_key, bytes) btree" where
  "crowd_entries = map (\<lambda>j. ((0, replicate j 0), [])) [0..<300]"

definition crowd_part :: partition where
  "crowd_part = \<lparr>entries = crowd_entries, part_bytes = bt_weight entry_cost crowd_entries\<rparr>"

definition crowd_pid :: "nat \<Rightarrow> part_id" where
  "crowd_pid i = PartId (replicate 1000 0x61) str_https [0x61] (word_of_nat i)"

definition crowd_engine :: engine where
  "crowd_engine = (let ps = map (\<lambda>i. (crowd_pid i, crowd_part)) [0..<1100]
     in \<lparr>parts = ps, total = bt_weight (\<lambda>_. part_bytes) ps\<rparr>)"

lemma bt_weight_map: "bt_weight c (map f xs) = sum_list (map (\<lambda>x. c (fst (f x)) (snd (f x))) xs)"
proof (induction xs)
  case (Cons x xs)
  then show ?case by (cases "f x") simp
qed simp

lemma crowd_bytes: "bt_weight entry_cost crowd_entries = 59250"
proof -
  have "bt_weight entry_cost crowd_entries = (\<Sum>j \<leftarrow> [0..<300]. j + 48)"
    unfolding crowd_entries_def bt_weight_map
    by (rule arg_cong [of _ _ sum_list], rule map_cong)
      (auto simp: entry_cost_def cost_def format_limits engine_limits)
  also have "\<dots> = (\<Sum>j = 0..<300. j + 48)" by (simp add: interv_sum_list_conv_sum_set_nat)
  also have "\<dots> = 59250" by (simp add: sum.distrib Sum_Ico_nat)
  finally show ?thesis .
qed

lemma crowd_pid_wf: "pid_wf (crowd_pid i)" "\<exists>b. pid_encode (crowd_pid i) = Some b \<and> length b = 1014"
  by (auto simp: pid_wf_def pid_storable_def crowd_pid_def is_ascii_def pid_encode_Some str_https_def
      MAX_PARTITION_ID_BYTES_def split: option.split)

lemma replicate_less: "i < j \<Longrightarrow> replicate i (0 :: u8) < replicate j 0"
proof (induction i arbitrary: j)
  case 0
  then show ?case by (cases j) simp_all
next
  case (Suc i)
  then show ?case by (cases j) simp_all
qed

lemma crowd_part_ok: "part_ok crowd_part" "entries crowd_part \<noteq> []"
proof -
  have "sorted_wrt (\<lambda>i j. (0 :: u8, replicate i (0 :: u8)) < (0, replicate j 0)) [0..<300]"
    by (rule sorted_wrt_mono_rel [OF _ sorted_wrt_upt]) (simp add: replicate_less)
  then have "bt_ok crowd_entries" by (simp add: bt_ok_def crowd_entries_def sorted_wrt_map comp_def)
  moreover have "\<forall>(k, v) \<in> set crowd_entries. entry_ok k v"
    by (auto simp: crowd_entries_def entry_ok_def ns_from_code_def format_limits)
  ultimately show "part_ok crowd_part"
    by (simp add: part_ok_def crowd_part_def crowd_bytes) (simp add: crowd_entries_def engine_limits)
  show "entries crowd_part \<noteq> []" by (simp add: crowd_part_def crowd_entries_def)
qed

lemma crowd_pid_less: "i < j \<Longrightarrow> j < 1100 \<Longrightarrow> crowd_pid i < crowd_pid j"
  by (simp add: crowd_pid_def less_part_id_def pid_tuple_def word_less_nat_alt unat_of_nat)

lemma crowd_ok: "engine_ok crowd_engine" "engine_pids_ok crowd_engine"
proof -
  let ?ps = "map (\<lambda>i. (crowd_pid i, crowd_part)) [0..<1100]"
  have "sorted_wrt (\<lambda>i j. crowd_pid i < crowd_pid j) [0..<1100]"
    by (rule sorted_wrt_mono_rel [OF _ sorted_wrt_upt]) (simp add: crowd_pid_less)
  then have "bt_ok ?ps" by (simp add: bt_ok_def sorted_wrt_map comp_def)
  moreover have "bt_weight (\<lambda>_. part_bytes) ?ps \<le> GLOBAL_QUOTA_BYTES"
    by (simp add: bt_weight_map sum_list_triv crowd_part_def crowd_bytes engine_limits)
  ultimately show "engine_ok crowd_engine"
    using crowd_part_ok by (auto simp: engine_ok_def crowd_engine_def Let_def simp del: upt_Suc)
  show "engine_pids_ok crowd_engine"
    by (auto simp: engine_pids_ok_def crowd_engine_def Let_def crowd_pid_wf(1) simp del: upt_Suc)
qed

lemma snapshot_entries_min:
  "snapshot_entries b es = Inr out \<Longrightarrow> length es * length b \<le> length out"
proof (induction b es arbitrary: out rule: snapshot_entries.induct)
  case (2 b ns key val es)
  then obtain rec rest where r: "encode_record (Put ns b key val) = Inr rec"
    "snapshot_entries b es = Inr rest" "out = rec @ rest" by (auto split: sum.split_asm)
  from r(1) have "length b \<le> length rec" by (auto simp: encode_record_Inr op_body_def)
  with "2.IH" [OF r(1,2)] r(3) show ?case by simp
qed simp

lemma snapshot_parts_min:
  assumes "snapshot_parts dropped ps = Inr out"
    and "\<forall>(pid, p) \<in> set ps. \<not> dropped pid \<and> length (entries p) = n
      \<and> (\<exists>b. pid_encode pid = Some b \<and> length b = m)"
  shows "length ps * (n * m) \<le> length out"
  using assms
proof (induction dropped ps arbitrary: out rule: snapshot_parts.induct)
  case (2 dropped pid p ps)
  then obtain b where b: "pid_encode pid = Some b" "length b = m" "length (entries p) = n" "\<not> dropped pid"
    by auto
  with "2.prems"(1) obtain o1 o2 where o: "snapshot_entries b (entries p) = Inr o1"
    "snapshot_parts dropped ps = Inr o2" "out = o1 @ o2" by (auto split: sum.split_asm)
  from "2.IH"(2) [OF b(4,1) o(1,2)] "2.prems"(2) have "length ps * (n * m) \<le> length o2" by simp
  with snapshot_entries_min [OF o(1)] b(2,3) o(3) show ?case by simp
qed simp

lemma crowd_snapshot:
  obtains b where "snapshot_excluding crowd_engine (\<lambda>_. False) = Inr b" "clean_log b crowd_engine"
    "length b > MAX_LOG_BYTES"
proof -
  obtain b where b: "snapshot_excluding crowd_engine (\<lambda>_. False) = Inr b"
    "clean_log b (kept crowd_engine (\<lambda>_. False))" by (rule clean_log_snapshot [OF crowd_ok])
  from b(1) obtain out where out: "snapshot_parts (\<lambda>_. False) (parts crowd_engine) = Inr out"
    "b = header_bytes @ out" by (auto simp: snapshot_excluding_def split: sum.split_asm)
  have "length (parts crowd_engine) * (300 * 1014) \<le> length out"
    by (rule snapshot_parts_min [OF out(1)])
      (auto simp: crowd_engine_def Let_def crowd_part_def crowd_entries_def crowd_pid_wf(2) simp del: upt_Suc)
  then have "length b > MAX_LOG_BYTES"
    using out(2) by (simp add: crowd_engine_def Let_def MAX_LOG_BYTES_def)
  with b show thesis by (intro that) (simp_all add: kept_all [OF crowd_ok(1)])
qed

text \<open>
  The quotas do not bound the log: there is a store within its invariant, every quota
  respected and no I/O failure, whose compaction reports success and writes a log that
  \<^verbatim>\<open>open\<close> then refuses as too large.
\<close>
lemma compacted_log_can_be_refused:
  "\<exists>s (w :: 'io world) s' w'. store_inv s w \<and> \<not> poisoned s \<and> faults w = []
     \<and> store_compact s w = (Inr (), s', w') \<and> \<not> poisoned s'
     \<and> fst (store_open w') = Inl (Format RecordTooLarge)"
proof -
  obtain b where b: "snapshot_excluding crowd_engine (\<lambda>_. False) = Inr b" "clean_log b crowd_engine"
    "length b > MAX_LOG_BYTES" by (rule crowd_snapshot)
  let ?s = "\<lparr>st_engine = crowd_engine, log_len = length b, poisoned = False, stale_handle = False\<rparr>"
  let ?w = "\<lparr>log_file = Some b, tmp_file = None, faults = []\<rparr> :: 'io world"
  have "store_inv ?s ?w" using b(2) crowd_ok by (simp add: store_inv_def)
  moreover have "store_compact ?s ?w = (Inr (), ?s, ?w)"
    using b(1) by (simp add: store_compact_def store_rewrite_def write_atomic_clear io_call_clear Let_def)
  moreover have "fst (store_open ?w) = Inl (Format RecordTooLarge)"
    using b(3) by (simp add: store_open_def read_log_def io_then_def io_call_clear)
  ultimately show ?thesis by (metis store.select_convs(3) world.select_convs(3))
qed

end
