(* ===== verification/Net_Cookie.thy ===== *)
theory Net_Cookie
  imports Net_Origin "HOL-Library.AList"
begin

text \<open>
  Cookies, \<^verbatim>\<open>crates/px-net/src/cookie.rs\<close>: parsing \<^verbatim>\<open>Set-Cookie\<close> against the origin that
  sent it, and the jar that keeps cookies by partition key.  \<^verbatim>\<open>Instant::now\<close> is an
  argument, in nanoseconds of the monotonic clock, whose seconds are a signed 64-bit
  number.  The hash map of the jar is an association list.
\<close>

definition MAX_COOKIE_BYTES :: nat where "MAX_COOKIE_BYTES = 4096"
definition MAX_PER_KEY :: nat where "MAX_PER_KEY = 50"

datatype same_site = Strict | Lax | SameSiteNone

datatype rejected =
    TooLarge
  | Malformed
  | BadAttribute string
  | PublicSuffixDomain
  | DomainMismatch
  | InsecureSameSiteNone
  | PrefixViolation string
  | JarFull
  | InsecureOrigin

record cookie =
  c_name :: bytes
  c_value :: bytes
  c_domain :: bytes
  c_host_only :: bool
  c_path :: bytes
  c_secure :: bool
  c_http_only :: bool
  c_same_site :: same_site
  c_expires_at :: "nat option"

section \<open>Matching\<close>

text \<open>The host is the domain with at least one label before it.\<close>

definition under_domain :: "bytes \<Rightarrow> bytes \<Rightarrow> bool" where
  "under_domain domain h =
     (case strip_suffix domain h of
        None \<Rightarrow> False
      | Some p \<Rightarrow> (case strip_suffix [DOT] p of None \<Rightarrow> False | Some q \<Rightarrow> q \<noteq> []))"

definition matches_host :: "cookie \<Rightarrow> bytes \<Rightarrow> bool" where
  "matches_host c raw =
     (let h = to_ascii_lowercase raw
      in if h = c_domain c then True
         else if c_host_only c then False
         else under_domain (c_domain c) h)"

definition matches_path :: "cookie \<Rightarrow> bytes \<Rightarrow> bool" where
  "matches_path c path =
     (if path = c_path c then True
      else case strip_prefix (c_path c) path of
        None \<Rightarrow> False
      | Some rest \<Rightarrow> ends_with SLASH (c_path c) \<or> begins_with SLASH rest)"

definition is_expired :: "nat \<Rightarrow> cookie \<Rightarrow> bool" where
  "is_expired now c = (case c_expires_at c of None \<Rightarrow> False | Some t \<Rightarrow> t \<le> now)"

section \<open>Parsing\<close>

record attributes =
  a_domain :: "bytes option"
  a_path :: "bytes option"
  a_secure :: bool
  a_http_only :: bool
  a_same_site :: same_site
  a_max_age :: "int option"

definition attributes_new :: attributes where
  "attributes_new = \<lparr>a_domain = None, a_path = None, a_secure = False, a_http_only = False,
     a_same_site = Lax, a_max_age = None\<rparr>"

definition parse_attribute :: "bytes \<Rightarrow> attributes \<Rightarrow> rejected + attributes" where
  "parse_attribute raw a =
     (let attribute = trim raw
      in if attribute = [] then Inr a
         else let (key, val) =
             (case split_once EQUALS attribute of
                Some (k, v) \<Rightarrow> (to_ascii_lowercase (trim k), trim v)
              | None \<Rightarrow> (to_ascii_lowercase attribute, []))
           in if key = lit ''domain'' then
                (let h = to_ascii_lowercase (trim_end_matches DOT (trim_start_matches DOT val))
                 in if h = [] then Inl (BadAttribute ''Domain'') else Inr (a\<lparr>a_domain := Some h\<rparr>))
              else if key = lit ''path'' then
                (if \<not> begins_with SLASH val then Inl (BadAttribute ''Path'') else Inr (a\<lparr>a_path := Some val\<rparr>))
              else if key = lit ''secure'' then Inr (a\<lparr>a_secure := True\<rparr>)
              else if key = lit ''httponly'' then Inr (a\<lparr>a_http_only := True\<rparr>)
              else if key = lit ''samesite'' then
                (let v = to_ascii_lowercase val
                 in if v = lit ''strict'' then Inr (a\<lparr>a_same_site := Strict\<rparr>)
                    else if v = lit ''lax'' then Inr (a\<lparr>a_same_site := Lax\<rparr>)
                    else if v = lit ''none'' then Inr (a\<lparr>a_same_site := SameSiteNone\<rparr>)
                    else Inl (BadAttribute ''SameSite''))
              else if key = lit ''max-age'' then
                (case parse_i64 val of
                   None \<Rightarrow> Inl (BadAttribute ''Max-Age'')
                 | Some n \<Rightarrow> Inr (a\<lparr>a_max_age := Some n\<rparr>))
              else Inr a)"

fun parse_attributes :: "bytes list \<Rightarrow> attributes \<Rightarrow> rejected + attributes" where
  "parse_attributes [] a = Inr a"
| "parse_attributes (raw # raws) a =
     (case parse_attribute raw a of Inl e \<Rightarrow> Inl e | Inr a' \<Rightarrow> parse_attributes raws a')"

definition prefix_violation :: "bytes \<Rightarrow> attributes \<Rightarrow> rejected option" where
  "prefix_violation name a =
     (if strip_prefix (lit ''__Secure-'') name \<noteq> None \<and> \<not> a_secure a
      then Some (PrefixViolation ''a __Secure- cookie must set Secure'')
      else if strip_prefix (lit ''__Host-'') name \<noteq> None then
        (if \<not> a_secure a then Some (PrefixViolation ''a __Host- cookie must set Secure'')
         else if a_domain a \<noteq> None then Some (PrefixViolation ''a __Host- cookie must not set Domain'')
         else if a_path a \<noteq> Some [SLASH] then Some (PrefixViolation ''a __Host- cookie must set Path=/'')
         else None)
      else None)"

definition cookie_domain :: "public_suffix_list \<Rightarrow> origin \<Rightarrow> attributes \<Rightarrow> rejected + bytes \<times> bool" where
  "cookie_domain l o' a =
     (let h = to_ascii_lowercase (host o')
      in case a_domain a of
           Some requested \<Rightarrow>
             if registrable_domain l requested = None then Inl PublicSuffixDomain
             else if h \<noteq> requested \<and> \<not> under_domain requested h then Inl DomainMismatch
             else Inr (requested, False)
         | None \<Rightarrow> Inr (h, True))"

definition INSTANT_MAX :: nat where "INSTANT_MAX = (2 ^ 63 - 1) * 10 ^ 9 + 999999999"

definition cookie_expiry :: "nat \<Rightarrow> int option \<Rightarrow> nat option" where
  "cookie_expiry now max_age =
     (case max_age of
        None \<Rightarrow> None
      | Some seconds \<Rightarrow>
          if seconds \<le> 0 then Some now
          else let t = now + nat seconds * 10 ^ 9 in if t \<le> INSTANT_MAX then Some t else None)"

definition cookie_parse :: "public_suffix_list \<Rightarrow> nat \<Rightarrow> origin \<Rightarrow> bytes \<Rightarrow> rejected + cookie" where
  "cookie_parse l now o' header =
     (if length header > MAX_COOKIE_BYTES then Inl TooLarge
      else let parts = str_split SEMICOLON header
        in case split_once EQUALS (hd parts) of
          None \<Rightarrow> Inl Malformed
        | Some (n, v) \<Rightarrow>
            let name = trim n; val = trim v
            in if name = [] then Inl Malformed
               else case parse_attributes (tl parts) attributes_new of
                 Inl e \<Rightarrow> Inl e
               | Inr a \<Rightarrow>
                   if a_same_site a = SameSiteNone \<and> \<not> a_secure a then Inl InsecureSameSiteNone
                   else if a_secure a \<and> \<not> is_secure o' then Inl InsecureOrigin
                   else case prefix_violation name a of
                     Some e \<Rightarrow> Inl e
                   | None \<Rightarrow>
                       (case cookie_domain l o' a of
                          Inl e \<Rightarrow> Inl e
                        | Inr (domain, host_only) \<Rightarrow>
                            Inr \<lparr>c_name = name, c_value = val, c_domain = domain, c_host_only = host_only,
                                 c_path = (case a_path a of None \<Rightarrow> [SLASH] | Some p \<Rightarrow> p),
                                 c_secure = a_secure a, c_http_only = a_http_only a, c_same_site = a_same_site a,
                                 c_expires_at = cookie_expiry now (a_max_age a)\<rparr>))"

section \<open>The jar\<close>

record jar =
  by_partition :: "(partition_key \<times> cookie list) list"

definition jar_new :: jar where
  "jar_new = \<lparr>by_partition = []\<rparr>"

definition same_cookie :: "cookie \<Rightarrow> cookie \<Rightarrow> bool" where
  "same_cookie c d \<longleftrightarrow> c_name d = c_name c \<and> c_domain d = c_domain c \<and> c_path d = c_path c"

fun replace_first :: "cookie \<Rightarrow> cookie list \<Rightarrow> cookie list option" where
  "replace_first c [] = None"
| "replace_first c (d # ds) =
     (if same_cookie c d then Some (c # ds) else map_option (\<lambda>ds'. d # ds') (replace_first c ds))"

definition jar_store :: "public_suffix_list \<Rightarrow> nat \<Rightarrow> partition_key \<Rightarrow> bytes \<Rightarrow> jar \<Rightarrow> (rejected + unit) \<times> jar" where
  "jar_store l now key header j =
     (case cookie_parse l now (key_origin key) header of
        Inl e \<Rightarrow> (Inl e, j)
      | Inr c \<Rightarrow>
          let cs = (case map_of (by_partition j) key of None \<Rightarrow> [] | Some cs \<Rightarrow> cs);
              put = (\<lambda>cs'. j\<lparr>by_partition := AList.update key cs' (by_partition j)\<rparr>)
          in case replace_first c cs of
               Some cs' \<Rightarrow> (Inr (), put cs')
             | None \<Rightarrow>
                 if length cs \<ge> MAX_PER_KEY then (Inl JarFull, put cs)
                 else (Inr (), put (cs @ [c])))"

definition sendable :: "nat \<Rightarrow> origin \<Rightarrow> bytes \<Rightarrow> bool \<Rightarrow> cookie \<Rightarrow> bool" where
  "sendable now o' path cross_site c \<longleftrightarrow>
     \<not> is_expired now c \<and> matches_host c (host o') \<and> matches_path c path
     \<and> (\<not> c_secure c \<or> is_secure o')
     \<and> (case c_same_site c of SameSiteNone \<Rightarrow> True | Lax \<Rightarrow> \<not> cross_site | Strict \<Rightarrow> \<not> cross_site)"

definition cookies_for :: "nat \<Rightarrow> partition_key \<Rightarrow> bytes \<Rightarrow> bool \<Rightarrow> jar \<Rightarrow> cookie list" where
  "cookies_for now key path cross_site j =
     (case map_of (by_partition j) key of
        None \<Rightarrow> []
      | Some cs \<Rightarrow> sort_key (\<lambda>c. - int (length (c_path c))) (filter (sendable now (key_origin key) path cross_site) cs))"

definition jar_forget :: "partition_key \<Rightarrow> jar \<Rightarrow> jar" where
  "jar_forget key j = j\<lparr>by_partition := AList.delete key (by_partition j)\<rparr>"

definition jar_len :: "jar \<Rightarrow> nat" where
  "jar_len j = sum_list (map (\<lambda>(_, cs). length cs) (by_partition j))"

definition jar_expire :: "nat \<Rightarrow> jar \<Rightarrow> jar" where
  "jar_expire now j =
     j\<lparr>by_partition := filter (\<lambda>(_, cs). cs \<noteq> [])
        (map (\<lambda>(k, cs). (k, filter (\<lambda>c. \<not> is_expired now c) cs)) (by_partition j))\<rparr>"

section \<open>What an accepted cookie is\<close>

lemma under_domain_iff: "under_domain d h \<longleftrightarrow> (\<exists>q. q \<noteq> [] \<and> h = q @ DOT # d)"
  by (auto simp: under_domain_def strip_suffix_Some split: option.splits)
     (metis append.assoc append_Cons append_Nil option.distinct(1) strip_suffix_Some)+

text \<open>Which cookies the jar may hold for an origin.\<close>

definition cookie_ok :: "public_suffix_list \<Rightarrow> origin \<Rightarrow> cookie \<Rightarrow> bool" where
  "cookie_ok l o' c \<longleftrightarrow>
     c_name c \<noteq> [] \<and> begins_with SLASH (c_path c) \<and> matches_host c (host o')
     \<and> (c_secure c \<longrightarrow> is_secure o') \<and> (c_same_site c = SameSiteNone \<longrightarrow> c_secure c)
     \<and> (\<not> c_host_only c \<longrightarrow> registrable_domain l (c_domain c) \<noteq> None)
     \<and> (strip_prefix (lit ''__Secure-'') (c_name c) \<noteq> None \<longrightarrow> c_secure c)
     \<and> (strip_prefix (lit ''__Host-'') (c_name c) \<noteq> None \<longrightarrow> c_secure c \<and> c_host_only c \<and> c_path c = [SLASH])"

lemma parse_attribute_path:
  assumes "parse_attribute raw a = Inr a'" "\<And>p. a_path a = Some p \<Longrightarrow> begins_with SLASH p" "a_path a' = Some p"
  shows "begins_with SLASH p"
  using assms by (auto simp: parse_attribute_def Let_def split: if_splits option.splits prod.splits)

lemma parse_attributes_path:
  assumes "parse_attributes raws a = Inr a'" "\<And>p. a_path a = Some p \<Longrightarrow> begins_with SLASH p" "a_path a' = Some p"
  shows "begins_with SLASH p"
  using assms
proof (induction raws arbitrary: a)
  case (Cons raw raws)
  then obtain a1 where a1: "parse_attribute raw a = Inr a1" "parse_attributes raws a1 = Inr a'"
    by (auto split: sum.splits)
  show ?case
    by (rule Cons.IH [OF a1(2) _ Cons.prems(3)]) (rule parse_attribute_path [OF a1(1) Cons.prems(2)])
qed auto

lemma cookie_domain_Inr:
  assumes "cookie_domain l o' a = Inr (d, ho)"
  shows "(a_domain a = None \<and> ho \<and> d = to_ascii_lowercase (host o'))
    \<or> (\<not> ho \<and> a_domain a = Some d \<and> registrable_domain l d \<noteq> None
       \<and> (to_ascii_lowercase (host o') = d \<or> under_domain d (to_ascii_lowercase (host o'))))"
  using assms by (auto simp: cookie_domain_def Let_def split: option.splits if_splits)

lemma cookie_parse_ok:
  assumes "cookie_parse l now o' header = Inr c"
  shows "cookie_ok l o' c"
proof -
  from assms obtain n v a d ho where pa: "parse_attributes (tl (str_split SEMICOLON header)) attributes_new = Inr a"
    and ns: "\<not> (a_same_site a = SameSiteNone \<and> \<not> a_secure a)" and sec: "\<not> (a_secure a \<and> \<not> is_secure o')"
    and pv: "prefix_violation (trim n) a = None" and cd: "cookie_domain l o' a = Inr (d, ho)" and n: "trim n \<noteq> []"
    and c: "c = \<lparr>c_name = trim n, c_value = trim v, c_domain = d, c_host_only = ho,
        c_path = (case a_path a of None \<Rightarrow> [SLASH] | Some p \<Rightarrow> p), c_secure = a_secure a,
        c_http_only = a_http_only a, c_same_site = a_same_site a, c_expires_at = cookie_expiry now (a_max_age a)\<rparr>"
    by (auto simp: cookie_parse_def Let_def split: if_splits option.splits sum.splits)
  have path: "begins_with SLASH (c_path c)"
    using parse_attributes_path [OF pa] by (auto simp: c attributes_new_def split: option.split)
  note dom = cookie_domain_Inr [OF cd]
  have "matches_host c (host o')" using dom by (auto simp: matches_host_def c)
  moreover have "\<not> c_host_only c \<longrightarrow> registrable_domain l (c_domain c) \<noteq> None" using dom by (auto simp: c)
  moreover have "strip_prefix (lit ''__Secure-'') (c_name c) \<noteq> None \<longrightarrow> c_secure c"
    using pv by (auto simp: c prefix_violation_def split: if_splits)
  moreover have "strip_prefix (lit ''__Host-'') (c_name c) \<noteq> None \<longrightarrow> c_secure c \<and> c_host_only c \<and> c_path c = [SLASH]"
    using pv dom by (auto simp: c prefix_violation_def split: if_splits)
  ultimately show ?thesis using path ns sec n by (auto simp: cookie_ok_def c)
qed

text \<open>Matching a domain cookie compares whole labels.\<close>

lemma matches_host_labels:
  assumes "\<not> c_host_only c" "\<not> begins_with DOT h"
  shows "matches_host c h \<longleftrightarrow> suffix (str_split DOT (c_domain c)) (str_split DOT (to_ascii_lowercase h))"
proof -
  let ?h = "to_ascii_lowercase h" and ?d = "c_domain c"
  have "matches_host c h \<longleftrightarrow> ?h = ?d \<or> (\<exists>q. q \<noteq> [] \<and> ?h = q @ DOT # ?d)"
    using assms(1) by (auto simp: matches_host_def under_domain_iff Let_def)
  also have "\<dots> \<longleftrightarrow> ?h = ?d \<or> (\<exists>q. ?h = q @ DOT # ?d)"
    using assms(2) by (cases h) auto
  also have "\<dots> \<longleftrightarrow> suffix (str_split DOT ?d) (str_split DOT ?h)"
  proof (intro iffI)
    assume "suffix (str_split DOT ?d) (str_split DOT ?h)"
    then obtain u where u: "str_split DOT ?h = u @ str_split DOT ?d" by (auto simp: suffix_def)
    then have "?h = str_join DOT (u @ str_split DOT ?d)" by (metis str_join_split)
    then show "?h = ?d \<or> (\<exists>q. ?h = q @ DOT # ?d)"
      by (cases "u = []") (auto simp: str_join_append)
  qed (auto simp: str_split_append suffix_def)
  finally show ?thesis .
qed

section \<open>The jar over time\<close>

definition stored :: "jar \<Rightarrow> partition_key \<Rightarrow> cookie list" where
  "stored j k = (case map_of (by_partition j) k of None \<Rightarrow> [] | Some cs \<Rightarrow> cs)"

definition bucket_ok :: "public_suffix_list \<Rightarrow> partition_key \<Rightarrow> cookie list \<Rightarrow> bool" where
  "bucket_ok l k cs \<longleftrightarrow> length cs \<le> MAX_PER_KEY \<and> list_all (cookie_ok l (key_origin k)) cs
     \<and> distinct (map (\<lambda>c. (c_name c, c_domain c, c_path c)) cs)"

definition jar_ok :: "public_suffix_list \<Rightarrow> jar \<Rightarrow> bool" where
  "jar_ok l j \<longleftrightarrow> distinct (map fst (by_partition j)) \<and> (\<forall>k. bucket_ok l k (stored j k))"

lemma replace_first_Some:
  assumes "replace_first c cs = Some cs'"
  shows "\<exists>xs d ys. cs = xs @ d # ys \<and> cs' = xs @ c # ys \<and> same_cookie c d"
  using assms
proof (induction cs arbitrary: cs')
  case (Cons d ds)
  show ?case
  proof (cases "same_cookie c d")
    case True
    with Cons.prems show ?thesis by (auto intro: exI [of _ "[]"])
  next
    case False
    with Cons.prems obtain ds' where ds': "replace_first c ds = Some ds'" "cs' = d # ds'" by auto
    from Cons.IH [OF ds'(1)] obtain xs e ys where "ds = xs @ e # ys" "ds' = xs @ c # ys" "same_cookie c e" by blast
    then show ?thesis using ds'(2) by (intro exI [of _ "d # xs"] exI [of _ e] exI [of _ ys]) simp
  qed
qed simp

lemma replace_first_None: "replace_first c cs = None \<longleftrightarrow> (\<forall>d \<in> set cs. \<not> same_cookie c d)"
  by (induction cs) auto

lemma stored_put [simp]:
  "stored (j\<lparr>by_partition := AList.update k cs (by_partition j)\<rparr>) k' = (if k' = k then cs else stored j k')"
  by (simp add: stored_def update_conv')

lemma jar_store_run:
  assumes "jar_store l now k header j = (r, j')"
  shows "(\<exists>e. r = Inl e \<and> (\<forall>k'. stored j' k' = stored j k'))
    \<or> (\<exists>c cs'. r = Inr () \<and> cookie_parse l now (key_origin k) header = Inr c \<and> c \<in> set cs'
        \<and> (\<forall>k'. stored j' k' = (if k' = k then cs' else stored j k'))
        \<and> (replace_first c (stored j k) = Some cs'
           \<or> replace_first c (stored j k) = None \<and> cs' = stored j k @ [c] \<and> length (stored j k) < MAX_PER_KEY))"
proof (cases "cookie_parse l now (key_origin k) header")
  case (Inl e)
  with assms show ?thesis by (auto simp: jar_store_def)
next
  case (Inr c)
  have st: "(case map_of (by_partition j) k of None \<Rightarrow> [] | Some cs \<Rightarrow> cs) = stored j k" by (simp add: stored_def)
  show ?thesis
  proof (cases "replace_first c (stored j k)")
    case None
    then show ?thesis using assms Inr unfolding jar_store_def Let_def st
      by (cases "length (stored j k) \<ge> MAX_PER_KEY") auto
  next
    case (Some cs')
    moreover from this have "c \<in> set cs'" by (auto dest: replace_first_Some)
    ultimately show ?thesis using assms Inr unfolding jar_store_def Let_def st by auto
  qed
qed

lemma jar_store_keys: "distinct (map fst (by_partition j)) \<Longrightarrow> distinct (map fst (by_partition (snd (jar_store l now k header j))))"
  by (auto simp: jar_store_def Let_def distinct_update split: sum.split option.split)

lemma bucket_ok_replace:
  assumes "bucket_ok l k cs" "cookie_ok l (key_origin k) c" "replace_first c cs = Some cs'"
  shows "bucket_ok l k cs'"
proof -
  obtain xs d ys where "cs = xs @ d # ys" "cs' = xs @ c # ys" "same_cookie c d"
    using replace_first_Some [OF assms(3)] by blast
  then show ?thesis using assms(1,2) by (auto simp: bucket_ok_def same_cookie_def)
qed

lemma bucket_ok_add:
  assumes "bucket_ok l k cs" "cookie_ok l (key_origin k) c" "replace_first c cs = None" "length cs < MAX_PER_KEY"
  shows "bucket_ok l k (cs @ [c])"
  using assms by (auto simp: bucket_ok_def replace_first_None same_cookie_def)

lemma jar_store_ok:
  assumes "jar_ok l j"
  shows "jar_ok l (snd (jar_store l now k header j))"
proof -
  obtain r j' where run: "jar_store l now k header j = (r, j')" by fastforce
  have "bucket_ok l k' (stored j' k')" for k'
  proof -
    have old: "bucket_ok l k'' (stored j k'')" for k'' using assms by (simp add: jar_ok_def)
    from jar_store_run [OF run] show ?thesis
    proof (elim disjE exE conjE)
      fix c cs'
      assume "cookie_parse l now (key_origin k) header = Inr c" "replace_first c (stored j k) = Some cs'"
        "\<forall>k'. stored j' k' = (if k' = k then cs' else stored j k')"
      then show ?thesis using old [of k'] bucket_ok_replace [OF old [of k] cookie_parse_ok] by simp
    next
      fix c cs'
      assume "cookie_parse l now (key_origin k) header = Inr c" "replace_first c (stored j k) = None"
        "cs' = stored j k @ [c]" "length (stored j k) < MAX_PER_KEY"
        "\<forall>k'. stored j' k' = (if k' = k then cs' else stored j k')"
      then show ?thesis using old [of k'] bucket_ok_add [OF old [of k] cookie_parse_ok] by simp
    qed (use old in auto)
  qed
  moreover have "distinct (map fst (by_partition j'))"
    using jar_store_keys [of j l now k header] assms run by (simp add: jar_ok_def)
  ultimately show ?thesis by (simp add: jar_ok_def run)
qed

lemma stored_forget: "stored (jar_forget k j) k' = (if k' = k then [] else stored j k')"
  by (simp add: stored_def jar_forget_def delete_conv')

lemma jar_forget_ok: "jar_ok l j \<Longrightarrow> jar_ok l (jar_forget k j)"
proof -
  assume ok: "jar_ok l j"
  then have "distinct (map fst (by_partition (jar_forget k j)))"
    by (simp add: jar_ok_def jar_forget_def distinct_delete)
  then show "jar_ok l (jar_forget k j)" using ok by (simp add: jar_ok_def stored_forget bucket_ok_def)
qed

lemma stored_expire:
  assumes "distinct (map fst (by_partition j))"
  shows "stored (jar_expire now j) k = filter (\<lambda>c. \<not> is_expired now c) (stored j k)"
proof -
  have "(case map_of (filter (\<lambda>(_, cs). cs \<noteq> []) (map (\<lambda>(k, cs). (k, filter P cs)) m)) k of None \<Rightarrow> [] | Some cs \<Rightarrow> cs)
      = filter P (case map_of m k of None \<Rightarrow> [] | Some cs \<Rightarrow> cs)"
    if "distinct (map fst m)" for P and m :: "(partition_key \<times> cookie list) list"
    using that
  proof (induction m)
    case (Cons x m)
    have none: "fst x = k \<Longrightarrow> map_of m k = None" using Cons.prems by (auto simp: map_of_eq_None_iff)
    with Cons show ?case by (cases x) (auto split: option.splits)
  qed simp
  from this [OF assms] show ?thesis by (simp add: stored_def jar_expire_def)
qed

lemma jar_expire_ok:
  assumes "jar_ok l j"
  shows "jar_ok l (jar_expire now j)"
proof -
  have d: "distinct (map fst (by_partition j))" using assms by (simp add: jar_ok_def)
  have "distinct (map fst (filter P (map (\<lambda>(k, cs). (k, f cs)) m)))" if "distinct (map fst m)"
    for P f and m :: "(partition_key \<times> cookie list) list"
  proof (rule distinct_map_filter)
    have "map fst (map (\<lambda>(k, cs). (k, f cs)) m) = map fst m" by (induction m) auto
    with that show "distinct (map fst (map (\<lambda>(k, cs). (k, f cs)) m))" by metis
  qed
  then have "distinct (map fst (by_partition (jar_expire now j)))" using d by (simp add: jar_expire_def)
  moreover have "bucket_ok l k (filter P cs)" if "bucket_ok l k cs" for k P cs
    using that by (auto simp: bucket_ok_def list_all_iff distinct_map_filter intro: order_trans [OF length_filter_le])
  ultimately show ?thesis using assms by (simp add: jar_ok_def stored_expire [OF d])
qed

lemma cookies_for_stored:
  "cookies_for now k path cross j =
     sort_key (\<lambda>c. - int (length (c_path c))) (filter (sendable now (key_origin k) path cross) (stored j k))"
  by (simp add: cookies_for_def stored_def split: option.split)

text \<open>One call on the jar, under a fixed public suffix list.\<close>

inductive jar_step :: "public_suffix_list \<Rightarrow> jar \<Rightarrow> jar \<Rightarrow> bool" for l where
  jst_store: "jar_step l j (snd (jar_store l now k header j))"
| jst_forget: "jar_step l j (jar_forget k j)"
| jst_expire: "jar_step l j (jar_expire now j)"

lemma jar_ok_new: "jar_ok l jar_new"
  by (simp add: jar_ok_def jar_new_def stored_def bucket_ok_def)

lemma jar_step_ok: "jar_step l j j' \<Longrightarrow> jar_ok l j \<Longrightarrow> jar_ok l j'"
  by (induction rule: jar_step.induct) (simp_all add: jar_store_ok jar_forget_ok jar_expire_ok)

lemma jar_run_ok: "(jar_step l)\<^sup>*\<^sup>* jar_new j \<Longrightarrow> jar_ok l j"
  by (induction rule: rtranclp_induct) (auto simp: jar_ok_new jar_step_ok)

end
