(* ===== verification/Store_Cookies.thy ===== *)
theory Store_Cookies
  imports Store_Ops Net_Cookie Net_Utf8
begin

text \<open>
  Cookie persistence, \<^verbatim>\<open>crates/px-store/src/cookies.rs\<close>: the binary form of a stored
  cookie, the \<^verbatim>\<open>Set-Cookie\<close> header that recreates it, and the saving and loading of a
  partition's cookies through the store.  Times are those of the callers: nanoseconds of the
  monotonic clock and seconds since the Unix epoch.  The clock a jar reads when it stores
  the cookie at position \<open>i\<close> of a loading loop is \<open>clock i\<close>.
\<close>

section \<open>The stored form\<close>

definition COOKIE_VERSION :: u8 where "COOKIE_VERSION = 1"
definition F_HOST_ONLY :: u8 where "F_HOST_ONLY = 1"
definition F_SECURE :: u8 where "F_SECURE = 2"
definition F_HTTP_ONLY :: u8 where "F_HTTP_ONLY = 4"
definition F_EXPIRES :: u8 where "F_EXPIRES = 8"

lemmas cookie_flags = F_HOST_ONLY_def F_SECURE_def F_HTTP_ONLY_def F_EXPIRES_def

record stored_cookie =
  sc_name :: bytes
  sc_value :: bytes
  sc_domain :: bytes
  sc_host_only :: bool
  sc_path :: bytes
  sc_secure :: bool
  sc_http_only :: bool
  sc_same_site :: same_site
  sc_expires_unix :: "u64 option"

fun same_site_code :: "same_site \<Rightarrow> u8" where
  "same_site_code Strict = 0"
| "same_site_code Lax = 1"
| "same_site_code SameSiteNone = 2"

definition push_str :: "bytes \<Rightarrow> bytes \<Rightarrow> bytes option" where
  "push_str out s = do {
     len \<leftarrow> try_from_u16 (length s);
     Some (out @ u16_to_le len @ s) }"

fun push_strs :: "bytes \<Rightarrow> bytes list \<Rightarrow> bytes option" where
  "push_strs out [] = Some out"
| "push_strs out (s # ss) = do { out' \<leftarrow> push_str out s; push_strs out' ss }"

definition read_str :: "reader \<Rightarrow> (bytes \<times> reader) option" where
  "read_str r = do {
     (len, r) \<leftarrow> reader_u16 r;
     (raw, r) \<leftarrow> reader_take (unat len) r;
     if utf8_valid raw then Some (raw, r) else None }"

definition u64_to_le :: "u64 \<Rightarrow> bytes" where
  "u64_to_le w = u32_to_le (ucast w) @ u32_to_le (ucast (drop_bit 32 w))"

definition u64_from_le :: "bytes \<Rightarrow> u64 option" where
  "u64_from_le xs = do {
     lo \<leftarrow> u32_from_le (take 4 xs);
     hi \<leftarrow> u32_from_le (drop 4 xs);
     Some (ucast lo OR push_bit 32 (ucast hi)) }"

definition NANOS :: nat where "NANOS = 10 ^ 9"

definition from_cookie :: "cookie \<Rightarrow> nat \<Rightarrow> u64 \<Rightarrow> stored_cookie option" where
  "from_cookie c now now_unix =
     (let capture = (\<lambda>expires. Some \<lparr>sc_name = c_name c, sc_value = c_value c, sc_domain = c_domain c,
            sc_host_only = c_host_only c, sc_path = c_path c, sc_secure = c_secure c,
            sc_http_only = c_http_only c, sc_same_site = c_same_site c, sc_expires_unix = expires\<rparr>)
      in case c_expires_at c of
           Some at \<Rightarrow>
             if at \<le> now then None
             else let left = at - now;
                      secs = left div NANOS + (if left mod NANOS > 0 then 1 else 0)
                  in capture (Some (word_of_nat (sat_add (unat now_unix) secs)))
         | None \<Rightarrow> capture None)"

definition stored_flags :: "stored_cookie \<Rightarrow> u8" where
  "stored_flags s =
     (let f = 0;
          f = (if sc_host_only s then f OR F_HOST_ONLY else f);
          f = (if sc_secure s then f OR F_SECURE else f);
          f = (if sc_http_only s then f OR F_HTTP_ONLY else f)
      in if sc_expires_unix s \<noteq> None then f OR F_EXPIRES else f)"

definition cookie_encode :: "stored_cookie \<Rightarrow> bytes option" where
  "cookie_encode s =
     (let out = [COOKIE_VERSION, stored_flags s, same_site_code (sc_same_site s)];
          out = (case sc_expires_unix s of None \<Rightarrow> out | Some at \<Rightarrow> out @ u64_to_le at)
      in push_strs out [sc_name s, sc_domain s, sc_path s, sc_value s])"

definition same_site_from_code :: "u8 \<Rightarrow> same_site option" where
  "same_site_from_code c =
     (if c = 0 then Some Strict else if c = 1 then Some Lax else if c = 2 then Some SameSiteNone else None)"

definition read_expires :: "u8 \<Rightarrow> reader \<Rightarrow> (u64 option \<times> reader) option" where
  "read_expires flags r =
     (if flags AND F_EXPIRES \<noteq> 0
      then do { (raw, r) \<leftarrow> reader_take 8 r; at \<leftarrow> u64_from_le raw; Some (Some at, r) }
      else Some (None, r))"

definition cookie_decode :: "bytes \<Rightarrow> stored_cookie option" where
  "cookie_decode b = do {
     (version, r) \<leftarrow> reader_u8 (reader_new b);
     if version \<noteq> COOKIE_VERSION then None else do {
     (flags, r) \<leftarrow> reader_u8 r;
     if flags AND NOT (F_HOST_ONLY OR F_SECURE OR F_HTTP_ONLY OR F_EXPIRES) \<noteq> 0 then None else do {
     (site, r) \<leftarrow> reader_u8 r;
     same_site \<leftarrow> same_site_from_code site;
     (expires, r) \<leftarrow> read_expires flags r;
     (name, r) \<leftarrow> read_str r;
     (domain, r) \<leftarrow> read_str r;
     (path, r) \<leftarrow> read_str r;
     (val, r) \<leftarrow> read_str r;
     if \<not> reader_is_empty r then None
     else Some \<lparr>sc_name = name, sc_value = val, sc_domain = domain,
       sc_host_only = (flags AND F_HOST_ONLY \<noteq> 0), sc_path = path, sc_secure = (flags AND F_SECURE \<noteq> 0),
       sc_http_only = (flags AND F_HTTP_ONLY \<noteq> 0), sc_same_site = same_site, sc_expires_unix = expires\<rparr> } } }"

fun same_site_text :: "same_site \<Rightarrow> bytes" where
  "same_site_text Strict = lit ''; SameSite=Strict''"
| "same_site_text Lax = lit ''; SameSite=Lax''"
| "same_site_text SameSiteNone = lit ''; SameSite=None''"

definition to_set_cookie :: "stored_cookie \<Rightarrow> u64 \<Rightarrow> bytes option" where
  "to_set_cookie s now_unix =
     (let h = sc_name s @ [EQUALS] @ sc_value s;
          h = (if \<not> sc_host_only s then h @ lit ''; Domain='' @ sc_domain s else h);
          h = h @ lit ''; Path='' @ sc_path s;
          h = (if sc_secure s then h @ lit ''; Secure'' else h);
          h = (if sc_http_only s then h @ lit ''; HttpOnly'' else h);
          h = h @ same_site_text (sc_same_site s)
      in case sc_expires_unix s of
           None \<Rightarrow> Some h
         | Some at \<Rightarrow> if now_unix < at then Some (h @ lit ''; Max-Age='' @ show_dec (unat at - unat now_unix)) else None)"

definition store_key :: "stored_cookie \<Rightarrow> bytes option" where
  "store_key s = push_strs [] [sc_name s, sc_domain s, sc_path s]"

section \<open>Saving and loading\<close>

record load_report =
  lr_loaded :: nat
  lr_expired :: nat
  lr_skipped_session :: nat
  lr_rejected :: nat

fun wanted_entries :: "cookie list \<Rightarrow> nat \<Rightarrow> u64 \<Rightarrow> (bytes \<times> bytes) list" where
  "wanted_entries [] now now_unix = []"
| "wanted_entries (c # cs) now now_unix =
     (case from_cookie c now now_unix of
        None \<Rightarrow> wanted_entries cs now now_unix
      | Some s \<Rightarrow>
          (case (store_key s, cookie_encode s) of
             (Some key, Some val) \<Rightarrow> (key, val) # wanted_entries cs now now_unix
           | _ \<Rightarrow> wanted_entries cs now now_unix))"

fun delete_stale :: "partition_key \<Rightarrow> bytes list \<Rightarrow> ('io, unit) st" where
  "delete_stale k [] s w = (Inr (), s, w)"
| "delete_stale k (key # keys) s w =
     (case store_delete k Cookies key s w of
        (Inl e, s', w') \<Rightarrow> (Inl e, s', w')
      | (Inr _, s', w') \<Rightarrow> delete_stale k keys s' w')"

fun put_wanted :: "partition_key \<Rightarrow> (bytes \<times> bytes) list \<Rightarrow> nat \<Rightarrow> ('io, nat) st" where
  "put_wanted k [] n s w = (Inr n, s, w)"
| "put_wanted k ((key, val) # rest) n s w =
     (if store_get s k Cookies key \<noteq> Some val
      then (case store_put k Cookies key val s w of
              (Inl e, s', w') \<Rightarrow> (Inl e, s', w')
            | (Inr _, s', w') \<Rightarrow> put_wanted k rest (n + 1) s' w')
      else put_wanted k rest (n + 1) s w)"

definition cookies_save :: "partition_key \<Rightarrow> cookie list \<Rightarrow> nat \<Rightarrow> u64 \<Rightarrow> ('io, nat) st" where
  "cookies_save k cs now now_unix s w =
     (let wanted = wanted_entries cs now now_unix;
          stale = filter (\<lambda>key. key \<notin> set (map fst wanted)) (store_keys s k Cookies)
      in case delete_stale k stale s w of
           (Inl e, s', w') \<Rightarrow> (Inl e, s', w')
         | (Inr _, s', w') \<Rightarrow> put_wanted k wanted 0 s' w')"

definition load_one :: "store \<Rightarrow> public_suffix_list \<Rightarrow> partition_key \<Rightarrow> u64 \<Rightarrow> bool \<Rightarrow> nat \<Rightarrow> bytes
    \<Rightarrow> jar \<times> load_report \<Rightarrow> jar \<times> load_report" where
  "load_one s l k now_unix include_session now key jr =
     (let (j, rep) = jr in
      case do { v \<leftarrow> store_get s k Cookies key; cookie_decode v } of
        None \<Rightarrow> (j, rep\<lparr>lr_rejected := lr_rejected rep + 1\<rparr>)
      | Some sc \<Rightarrow>
          if sc_expires_unix sc = None \<and> \<not> include_session
          then (j, rep\<lparr>lr_skipped_session := lr_skipped_session rep + 1\<rparr>)
          else (case to_set_cookie sc now_unix of
             None \<Rightarrow> (j, rep\<lparr>lr_expired := lr_expired rep + 1\<rparr>)
           | Some header \<Rightarrow>
               if sc_host_only sc \<and> sc_domain sc \<noteq> host (key_origin k)
               then (j, rep\<lparr>lr_rejected := lr_rejected rep + 1\<rparr>)
               else (case jar_store l now k header j of
                  (Inr _, j') \<Rightarrow> (j', rep\<lparr>lr_loaded := lr_loaded rep + 1\<rparr>)
                | (Inl _, j') \<Rightarrow> (j', rep\<lparr>lr_rejected := lr_rejected rep + 1\<rparr>))))"

fun load_keys :: "store \<Rightarrow> public_suffix_list \<Rightarrow> partition_key \<Rightarrow> u64 \<Rightarrow> bool \<Rightarrow> (nat \<Rightarrow> nat) \<Rightarrow> nat \<Rightarrow> bytes list
    \<Rightarrow> jar \<times> load_report \<Rightarrow> jar \<times> load_report" where
  "load_keys s l k now_unix include_session clock i [] jr = jr"
| "load_keys s l k now_unix include_session clock i (key # keys) jr =
     load_keys s l k now_unix include_session clock (i + 1) keys
       (load_one s l k now_unix include_session (clock i) key jr)"

definition cookies_load :: "store \<Rightarrow> public_suffix_list \<Rightarrow> partition_key \<Rightarrow> u64 \<Rightarrow> bool \<Rightarrow> (nat \<Rightarrow> nat) \<Rightarrow> jar
    \<Rightarrow> jar \<times> load_report" where
  "cookies_load s l k now_unix include_session clock j =
     load_keys s l k now_unix include_session clock 0 (store_keys s k Cookies)
       (j, \<lparr>lr_loaded = 0, lr_expired = 0, lr_skipped_session = 0, lr_rejected = 0\<rparr>)"

definition remaining :: "u64 \<Rightarrow> u64 \<Rightarrow> nat" where
  "remaining expires_unix now_unix = (unat expires_unix - unat now_unix) * NANOS"

end
