(* ===== verification/Store_Cookie_Header.thy ===== *)
theory Store_Cookie_Header
  imports Store_Cookies
begin

text \<open>
  The header that recreates a stored cookie, read again by the network's own parser: an
  accepted cookie comes back with every field, and with the lifetime it had left.
\<close>

section \<open>Text\<close>

lemma set_trim: "set (trim s) \<subseteq> set s"
proof -
  obtain l r where "s = l @ trim s @ r" using trim_part by blast
  then show ?thesis by (metis Un_upper1 Un_upper2 order_trans set_append)
qed

lemma trimmed_after:
  assumes "trimmed d" "c \<in> {EQUALS}" "first_strip WHITE_SPACE (u @ [c]) = None" "list_all (\<lambda>b. b < 0x80) (u @ [c])" "u \<noteq> []"
  shows "trimmed (u @ c # d)"
proof -
  have ascii: "w \<noteq> []" "hd w < 0x80 \<Longrightarrow> w = [hd w]" "c \<notin> set w" if "w \<in> set WHITE_SPACE" for w
    using that assms(2) by (auto simp: WHITE_SPACE_def)
  have "u @ c # d \<noteq> w @ r" if "w \<in> set WHITE_SPACE" for w r
  proof
    assume e: "u @ c # d = w @ r"
    then have "hd w = hd u" using assms(5) ascii(1) [OF that] by (metis hd_append)
    moreover have "hd u < 0x80" using assms(4,5) by (cases u) auto
    ultimately have "w = [hd u]" using ascii(2) [OF that] by simp
    then have "u @ [c] = w @ tl (u @ [c])" using assms(5) by (cases u) auto
    then show False using assms(3) that by (auto simp: first_strip_None)
  qed
  moreover have "rev (u @ c # d) \<noteq> rev w @ r" if "w \<in> set WHITE_SPACE" for w r
  proof
    assume "rev (u @ c # d) = rev w @ r"
    then have "u @ c # d = rev r @ w" by (metis rev_append rev_rev_ident)
    then consider x where "d = x @ w" | x where "w = x @ c # d"
      by (auto simp: append_eq_append_conv2 Cons_eq_append_conv)
    then show False
    proof cases
      case (1 x)
      then show ?thesis using assms(1) that by (auto simp: trimmed_def first_strip_None)
    next
      case (2 x)
      then show ?thesis using ascii(3) [OF that] by simp
    qed
  qed
  ultimately show ?thesis by (auto simp: trimmed_def first_strip_None)
qed

lemma trim_blank: "trimmed t \<Longrightarrow> trim (0x20 # t) = t"
proof -
  assume t: "trimmed t"
  have "first_strip WHITE_SPACE (0x20 # t) = Some t" by (simp add: WHITE_SPACE_def)
  then have "trim_start (0x20 # t) = t"
    using t by (simp add: trim_start_def trim_by.simps [of _ "0x20 # t"] trim_by_id trimmed_def)
  then show ?thesis using t by (simp add: trim_def trim_end_def trim_by_id trimmed_def)
qed

lemma split_once_at: "b \<notin> set k \<Longrightarrow> split_once b (k @ b # v) = Some (k, v)"
  by (simp add: split_once_Some)

section \<open>Decimal numbers\<close>

lemma dig_plain: "k < 10 \<Longrightarrow> dig k < 0x80 \<and> \<not> ascii_ws (dig k) \<and> dig k \<noteq> 0x2D \<and> dig k \<noteq> 0x2B \<and> dig k \<noteq> SEMICOLON"
  using unat_dig [of k] by (auto simp: ascii_ws_def word_less_nat_alt dest!: arg_cong [where f = unat])

lemma show_dec_plain:
  "is_ascii (show_dec n)" "trimmed (show_dec n)" "SEMICOLON \<notin> set (show_dec n)"
  "\<not> begins_with 0x2D (show_dec n)" "\<not> begins_with 0x2B (show_dec n)"
proof -
  have d: "b < 0x80 \<and> \<not> ascii_ws b \<and> b \<noteq> 0x2D \<and> b \<noteq> 0x2B \<and> b \<noteq> SEMICOLON" if "b \<in> set (show_dec n)" for b
    using show_dec_digits(2) [of n] that dig_plain by auto
  then show a: "is_ascii (show_dec n)" "SEMICOLON \<notin> set (show_dec n)" by (auto simp: is_ascii_def)
  have "hd (show_dec n) \<in> set (show_dec n)" "last (show_dec n) \<in> set (show_dec n)" using show_dec_digits(1) by simp_all
  then show "trimmed (show_dec n)" using a show_dec_digits(1) d by (intro ascii_trimmed) blast+
  show "\<not> begins_with 0x2D (show_dec n)" "\<not> begins_with 0x2B (show_dec n)"
    using d by (cases "show_dec n"; force)+
qed

lemma parse_i64_show: "n < 2 ^ 63 \<Longrightarrow> parse_i64 (show_dec n) = Some (int n)"
  using show_dec_plain(4,5) [of n] show_dec_digits(1) [of n]
  by (simp add: parse_i64_def Let_def parse_digits_show)

section \<open>The attributes of the header\<close>

lemma parse_attribute_named:
  assumes "trimmed v" "first_strip WHITE_SPACE (K @ [EQUALS]) = None" "list_all (\<lambda>b. b < 0x80) (K @ [EQUALS])" "K \<noteq> []"
  shows "trim (0x20 # K @ EQUALS # v) = K @ EQUALS # v"
  by (rule trim_blank, rule trimmed_after) (use assms in auto)

lemma attribute_names:
  "lit '' Domain='' @ v = 0x20 # lit ''Domain'' @ EQUALS # v" "lit '' Path='' @ v = 0x20 # lit ''Path'' @ EQUALS # v"
  "lit '' Max-Age='' @ v = 0x20 # lit ''Max-Age'' @ EQUALS # v"
  "EQUALS \<notin> set (lit ''Domain'')" "EQUALS \<notin> set (lit ''Path'')" "EQUALS \<notin> set (lit ''Max-Age'')"
  "to_ascii_lowercase (trim (lit ''Domain'')) = lit ''domain''" "to_ascii_lowercase (trim (lit ''Path'')) = lit ''path''"
  "to_ascii_lowercase (trim (lit ''Max-Age'')) = lit ''max-age''"
  by (simp add: lit_def, simp add: lit_def, simp add: lit_def, simp add: lit_def, simp add: lit_def, simp add: lit_def, code_simp+)

lemma trim_attributes:
  assumes "trimmed v"
  shows "trim (lit '' Domain='' @ v) = lit ''Domain'' @ EQUALS # v" "trim (lit '' Path='' @ v) = lit ''Path'' @ EQUALS # v"
    "trim (lit '' Max-Age='' @ v) = lit ''Max-Age'' @ EQUALS # v"
  unfolding attribute_names(1-3)
  by (rule parse_attribute_named [OF assms]; simp add: lit_def WHITE_SPACE_def)+

lemma parse_domain:
  assumes "trimmed d" "d \<noteq> []" "to_ascii_lowercase d = d" "\<not> begins_with DOT d" "\<not> ends_with DOT d"
  shows "parse_attribute (lit '' Domain='' @ d) a = Inr (a\<lparr>a_domain := Some d\<rparr>)"
proof -
  have "trim_start_matches DOT d = d" using assms(4) by (cases d) (simp_all add: trim_start_matches_def)
  then show ?thesis using assms
    by (simp add: parse_attribute_def trim_attributes split_once_at attribute_names(4-) trim_trimmed trim_end_matches_id)
qed

lemma parse_path:
  assumes "trimmed p" "begins_with SLASH p"
  shows "parse_attribute (lit '' Path='' @ p) a = Inr (a\<lparr>a_path := Some p\<rparr>)"
proof -
  have "lit ''path'' \<noteq> lit ''domain''" by (simp add: lit_def)
  with assms show ?thesis
    by (simp add: parse_attribute_def trim_attributes split_once_at attribute_names(4-) trim_trimmed)
qed

lemma parse_max_age:
  assumes "n < 2 ^ 63"
  shows "parse_attribute (lit '' Max-Age='' @ show_dec n) a = Inr (a\<lparr>a_max_age := Some (int n)\<rparr>)"
proof -
  have "lit ''max-age'' \<notin> {lit ''domain'', lit ''path'', lit ''secure'', lit ''httponly'', lit ''samesite''}"
    by (simp add: lit_def)
  with assms show ?thesis
    by (simp add: parse_attribute_def trim_attributes split_once_at attribute_names(4-) trim_trimmed show_dec_plain parse_i64_show)
qed

lemma trim_words:
  "trim (lit '' Secure'') = lit ''Secure''" "trim (lit '' HttpOnly'') = lit ''HttpOnly''"
  "trim (lit '' SameSite=Strict'') = lit ''SameSite=Strict''" "trim (lit '' SameSite=Lax'') = lit ''SameSite=Lax''"
  "trim (lit '' SameSite=None'') = lit ''SameSite=None''"
  "split_once EQUALS (lit ''Secure'') = None" "split_once EQUALS (lit ''HttpOnly'') = None"
  "split_once EQUALS (lit ''SameSite=Strict'') = Some (lit ''SameSite'', lit ''Strict'')"
  "split_once EQUALS (lit ''SameSite=Lax'') = Some (lit ''SameSite'', lit ''Lax'')"
  "split_once EQUALS (lit ''SameSite=None'') = Some (lit ''SameSite'', lit ''None'')"
  "trim (lit ''SameSite'') = lit ''SameSite''" "trim (lit ''Strict'') = lit ''Strict''" "trim (lit ''Lax'') = lit ''Lax''"
  "trim (lit ''None'') = lit ''None''"
  by code_simp+

lemma lower_words:
  "to_ascii_lowercase (lit ''Secure'') = lit ''secure''" "to_ascii_lowercase (lit ''HttpOnly'') = lit ''httponly''"
  "to_ascii_lowercase (lit ''SameSite'') = lit ''samesite''" "to_ascii_lowercase (lit ''Strict'') = lit ''strict''"
  "to_ascii_lowercase (lit ''Lax'') = lit ''lax''" "to_ascii_lowercase (lit ''None'') = lit ''none''"
  "lit ''Secure'' \<noteq> []" "lit ''HttpOnly'' \<noteq> []" "lit ''SameSite=Strict'' \<noteq> []" "lit ''SameSite=Lax'' \<noteq> []"
  "lit ''SameSite=None'' \<noteq> []" "lit ''secure'' \<noteq> lit ''domain''" "lit ''secure'' \<noteq> lit ''path''"
  "lit ''httponly'' \<noteq> lit ''domain''" "lit ''httponly'' \<noteq> lit ''path''" "lit ''httponly'' \<noteq> lit ''secure''"
  "lit ''samesite'' \<noteq> lit ''domain''" "lit ''samesite'' \<noteq> lit ''path''" "lit ''samesite'' \<noteq> lit ''secure''"
  "lit ''samesite'' \<noteq> lit ''httponly''" "lit ''lax'' \<noteq> lit ''strict''" "lit ''none'' \<noteq> lit ''strict''"
  "lit ''none'' \<noteq> lit ''lax''"
  by code_simp+

lemma parse_words:
  "parse_attribute (lit '' Secure'') a = Inr (a\<lparr>a_secure := True\<rparr>)"
  "parse_attribute (lit '' HttpOnly'') a = Inr (a\<lparr>a_http_only := True\<rparr>)"
  "parse_attribute (lit '' SameSite=Strict'') a = Inr (a\<lparr>a_same_site := Strict\<rparr>)"
  "parse_attribute (lit '' SameSite=Lax'') a = Inr (a\<lparr>a_same_site := Lax\<rparr>)"
  "parse_attribute (lit '' SameSite=None'') a = Inr (a\<lparr>a_same_site := SameSiteNone\<rparr>)"
  by (simp_all add: parse_attribute_def trim_words lower_words)

section \<open>The header read again\<close>

fun same_site_word :: "same_site \<Rightarrow> bytes" where
  "same_site_word Strict = lit '' SameSite=Strict''"
| "same_site_word Lax = lit '' SameSite=Lax''"
| "same_site_word SameSiteNone = lit '' SameSite=None''"

definition header_attributes :: "stored_cookie \<Rightarrow> nat option \<Rightarrow> bytes list" where
  "header_attributes s left =
     (if sc_host_only s then [] else [lit '' Domain='' @ sc_domain s]) @ [lit '' Path='' @ sc_path s]
     @ (if sc_secure s then [lit '' Secure''] else []) @ (if sc_http_only s then [lit '' HttpOnly''] else [])
     @ [same_site_word (sc_same_site s)]
     @ (case left of None \<Rightarrow> [] | Some n \<Rightarrow> [lit '' Max-Age='' @ show_dec n])"

lemma lit_semicolon: "lit (CHR '';'' # s) = SEMICOLON # lit s"
  by (simp add: lit_def)

lemma str_split_snoc: "b \<notin> set v \<Longrightarrow> str_split b (u @ b # v) = str_split b u @ [v]"
  by (simp add: str_split_append str_split_plain)

lemma no_semicolons:
  "SEMICOLON \<notin> set (lit '' Domain='')" "SEMICOLON \<notin> set (lit '' Path='')" "SEMICOLON \<notin> set (lit '' Secure'')"
  "SEMICOLON \<notin> set (lit '' HttpOnly'')" "SEMICOLON \<notin> set (lit '' Max-Age='')" "SEMICOLON \<notin> set (same_site_word x)"
  by (simp_all add: lit_def) (cases x; simp add: lit_def)

lemma same_site_text_word: "same_site_text x = SEMICOLON # same_site_word x"
  by (cases x) (simp_all add: lit_semicolon)

lemma to_set_cookie_split:
  assumes "to_set_cookie s now_unix = Some h"
    and "SEMICOLON \<notin> set (sc_name s)" "SEMICOLON \<notin> set (sc_value s)" "\<not> sc_host_only s \<Longrightarrow> SEMICOLON \<notin> set (sc_domain s)" "SEMICOLON \<notin> set (sc_path s)"
  shows "str_split SEMICOLON h = (sc_name s @ EQUALS # sc_value s)
     # header_attributes s (map_option (\<lambda>at. unat at - unat now_unix) (sc_expires_unix s))"
proof -
  let ?base = "sc_name s @ EQUALS # sc_value s"
  let ?d = "if sc_host_only s then ?base else ?base @ SEMICOLON # lit '' Domain='' @ sc_domain s"
  let ?p = "?d @ SEMICOLON # lit '' Path='' @ sc_path s"
  let ?s = "if sc_secure s then ?p @ SEMICOLON # lit '' Secure'' else ?p"
  let ?t = "if sc_http_only s then ?s @ SEMICOLON # lit '' HttpOnly'' else ?s"
  let ?u = "?t @ SEMICOLON # same_site_word (sc_same_site s)"
  have h: "h = (case sc_expires_unix s of None \<Rightarrow> ?u
      | Some at \<Rightarrow> ?u @ SEMICOLON # lit '' Max-Age='' @ show_dec (unat at - unat now_unix))"
    using assms(1) by (simp add: to_set_cookie_def Let_def same_site_text_word lit_semicolon split: option.splits if_split_asm)
  have base: "str_split SEMICOLON ?base = [?base]" using assms(2,3) by (intro str_split_plain) simp
  have d: "str_split SEMICOLON ?d = ?base # (if sc_host_only s then [] else [lit '' Domain='' @ sc_domain s])"
    using base str_split_snoc [of SEMICOLON "lit '' Domain='' @ sc_domain s" ?base] assms(4) no_semicolons by simp
  have p: "str_split SEMICOLON ?p = str_split SEMICOLON ?d @ [lit '' Path='' @ sc_path s]"
    using assms(5) no_semicolons by (intro str_split_snoc) simp
  have s: "str_split SEMICOLON ?s = str_split SEMICOLON ?p @ (if sc_secure s then [lit '' Secure''] else [])"
    using str_split_snoc [of SEMICOLON "lit '' Secure''" ?p] no_semicolons by (simp split del: if_split cong: if_weak_cong) (simp split: if_split)
  have t: "str_split SEMICOLON ?t = str_split SEMICOLON ?s @ (if sc_http_only s then [lit '' HttpOnly''] else [])"
    by (cases "sc_http_only s") (simp_all only: if_True if_False str_split_snoc no_semicolons append_Nil2 not_False_eq_True)
  have u: "str_split SEMICOLON ?u = str_split SEMICOLON ?t @ [same_site_word (sc_same_site s)]"
    by (rule str_split_snoc [OF no_semicolons(6)])
  define uu where "uu = ?u"
  have uu: "str_split SEMICOLON uu = (sc_name s @ EQUALS # sc_value s) # header_attributes s None"
    unfolding uu_def using u t s p d by (simp only: header_attributes_def option.simps append.simps append_assoc append_Nil2)
  have max_age: "SEMICOLON \<notin> set (lit '' Max-Age='' @ show_dec n)" for n using no_semicolons show_dec_plain(3) by simp
  show ?thesis using h [folded uu_def] uu str_split_snoc [OF max_age, of uu]
    by (cases "sc_expires_unix s") (simp_all add: header_attributes_def)
qed

text \<open>What the parser leaves in the text fields of a cookie it accepts.\<close>

definition domain_text :: "bytes \<Rightarrow> bool" where
  "domain_text d \<longleftrightarrow> d \<noteq> [] \<and> SEMICOLON \<notin> set d \<and> to_ascii_lowercase d = d \<and> \<not> begins_with DOT d \<and> \<not> ends_with DOT d"

definition cookie_text :: "cookie \<Rightarrow> bool" where
  "cookie_text c \<longleftrightarrow> trimmed (c_name c) \<and> EQUALS \<notin> set (c_name c) \<and> SEMICOLON \<notin> set (c_name c)
     \<and> trimmed (c_value c) \<and> SEMICOLON \<notin> set (c_value c) \<and> trimmed (c_path c) \<and> SEMICOLON \<notin> set (c_path c)
     \<and> (\<not> c_host_only c \<longrightarrow> domain_text (c_domain c))"

definition stored_as :: "cookie \<Rightarrow> u64 option \<Rightarrow> stored_cookie" where
  "stored_as c e = \<lparr>sc_name = c_name c, sc_value = c_value c, sc_domain = c_domain c,
     sc_host_only = c_host_only c, sc_path = c_path c, sc_secure = c_secure c,
     sc_http_only = c_http_only c, sc_same_site = c_same_site c, sc_expires_unix = e\<rparr>"

lemma from_cookie_stored: "from_cookie c now now_unix = Some s \<Longrightarrow> s = stored_as c (sc_expires_unix s)"
  by (auto simp: from_cookie_def stored_as_def Let_def split: option.splits if_splits)

lemma parse_attributes_append:
  "parse_attributes (xs @ ys) a = (case parse_attributes xs a of Inl e \<Rightarrow> Inl e | Inr a' \<Rightarrow> parse_attributes ys a')"
  by (induction xs arbitrary: a) (auto split: sum.split)

lemma parse_same_site_word: "parse_attribute (same_site_word x) a = Inr (a\<lparr>a_same_site := x\<rparr>)"
  by (cases x) (simp_all add: parse_words)

lemma parse_header_attributes:
  assumes "cookie_text c" "cookie_ok l o' c" "\<not> c_host_only c \<Longrightarrow> trimmed (c_domain c)" "\<And>n. left = Some n \<Longrightarrow> n < 2 ^ 63"
  shows "parse_attributes (header_attributes (stored_as c e) left) attributes_new =
     Inr \<lparr>a_domain = (if c_host_only c then None else Some (c_domain c)), a_path = Some (c_path c), a_secure = c_secure c,
       a_http_only = c_http_only c, a_same_site = c_same_site c, a_max_age = map_option int left\<rparr>"
proof -
  have p: "parse_attribute (lit '' Path='' @ c_path c) a = Inr (a\<lparr>a_path := Some (c_path c)\<rparr>)" for a
    using assms(1,2) by (intro parse_path) (simp_all add: cookie_text_def cookie_ok_def)
  have d: "parse_attribute (lit '' Domain='' @ c_domain c) a = Inr (a\<lparr>a_domain := Some (c_domain c)\<rparr>)" if "\<not> c_host_only c" for a
    using assms(1,3) that by (intro parse_domain) (simp_all add: cookie_text_def domain_text_def)
  have m: "parse_attribute (lit '' Max-Age='' @ show_dec n) a = Inr (a\<lparr>a_max_age := Some (int n)\<rparr>)" if "left = Some n" for n a
    using assms(4) that by (intro parse_max_age) simp
  show ?thesis using d m
    by (cases "c_host_only c"; cases "c_secure c"; cases "c_http_only c"; cases left)
       (simp_all add: header_attributes_def stored_as_def attributes_new_def p parse_words parse_same_site_word)
qed

lemma header_parses:
  assumes ct: "cookie_text c" and ok: "cookie_ok l o' c" and dom: "\<not> c_host_only c \<Longrightarrow> trimmed (c_domain c)"
    and h: "to_set_cookie (stored_as c e) now_unix = Some h" "length h \<le> MAX_COOKIE_BYTES"
    and fits: "\<And>at. e = Some at \<Longrightarrow> unat at - unat now_unix < 2 ^ 63"
  shows "cookie_parse l now o' h =
     Inr (c\<lparr>c_expires_at := cookie_expiry now (map_option (\<lambda>at. int (unat at - unat now_unix)) e)\<rparr>)"
proof -
  let ?left = "map_option (\<lambda>at. unat at - unat now_unix) e"
  have parts: "str_split SEMICOLON h = (c_name c @ EQUALS # c_value c) # header_attributes (stored_as c e) ?left"
    using to_set_cookie_split [OF h(1)] ct by (simp add: stored_as_def cookie_text_def domain_text_def)
  have attrs: "parse_attributes (header_attributes (stored_as c e) ?left) attributes_new =
     Inr \<lparr>a_domain = (if c_host_only c then None else Some (c_domain c)), a_path = Some (c_path c), a_secure = c_secure c,
       a_http_only = c_http_only c, a_same_site = c_same_site c, a_max_age = map_option int ?left\<rparr>" (is "_ = Inr ?a")
    by (rule parse_header_attributes [OF ct ok dom]) (use fits in auto)
  have once: "split_once EQUALS (c_name c @ EQUALS # c_value c) = Some (c_name c, c_value c)"
    using ct by (intro split_once_at) (simp add: cookie_text_def)
  have trims: "trim (c_name c) = c_name c" "trim (c_value c) = c_value c"
    using ct by (simp_all add: cookie_text_def trim_trimmed)
  have pv: "prefix_violation (c_name c) ?a = None" using ok by (auto simp: prefix_violation_def cookie_ok_def)
  have cd: "cookie_domain l o' ?a = Inr (c_domain c, c_host_only c)"
    using ok by (auto simp: cookie_domain_def cookie_ok_def matches_host_def Let_def split: if_splits)
  have "c_name c \<noteq> []" "c_same_site c = SameSiteNone \<Longrightarrow> c_secure c" "c_secure c \<Longrightarrow> is_secure o'"
    using ok by (auto simp: cookie_ok_def)
  then show ?thesis using h(2) attrs once trims pv cd
    by (cases c) (auto simp: cookie_parse_def Let_def parts option.map_comp comp_def)
qed

end
