(* ===== verification/Store_Cookie_Codec.thy ===== *)
theory Store_Cookie_Codec
  imports Store_Cookies
begin

text \<open>
  The binary form of a stored cookie: what is encoded decodes to the same cookie, and what
  decodes is exactly what the encoder writes.
\<close>

section \<open>Integers and strings\<close>

lemma length_u64_to_le [simp, codec]: "length (u64_to_le w) = 8"
  by (simp add: u64_to_le_def)

lemma u64_le_roundtrip [simp, codec]: "u64_from_le (u64_to_le w) = Some w"
proof -
  have "ucast (ucast w :: u32) OR push_bit 32 (ucast (ucast (drop_bit 32 w) :: u32)) = w"
    by (rule bit_word_eqI) (auto simp: bit_simps not_less dest: bit_imp_le_length)
  then show ?thesis by (simp add: u64_from_le_def u64_to_le_def)
qed

lemma u64_from_le_inverse [codec]: "u64_from_le xs = Some w \<Longrightarrow> u64_to_le w = xs"
proof -
  assume "u64_from_le xs = Some w"
  then obtain lo hi where p: "u32_from_le (take 4 xs) = Some lo" "u32_from_le (drop 4 xs) = Some hi"
      and w: "w = ucast lo OR push_bit 32 (ucast hi)"
    by (auto simp: u64_from_le_def bind_eq_Some_conv)
  have "ucast w = lo" unfolding w by (rule bit_word_eqI) (auto simp: bit_simps)
  moreover have "ucast (drop_bit 32 w) = hi"
    unfolding w by (rule bit_word_eqI) (auto simp: bit_simps dest: bit_imp_le_length)
  ultimately show ?thesis
    using p [THEN u32_from_le_inverse] by (simp add: u64_to_le_def)
qed

definition str_field :: "bytes \<Rightarrow> bytes" where
  "str_field s = u16_to_le (word_of_nat (length s)) @ s"

lemma length_str_field [simp, codec]: "length (str_field s) = 2 + length s"
  by (simp add: str_field_def)

lemma push_strs_Some: "push_strs out ss = Some b \<longleftrightarrow> list_all (\<lambda>s. length s < 2 ^ 16) ss \<and> b = out @ concat (map str_field ss)"
  by (induction ss arbitrary: out)
     (auto simp: push_str_def bind_eq_Some_conv try_from_u16_Some str_field_def)

lemma read_str_app:
  assumes "rd_view r p (str_field s @ ys)" and "length s < 2 ^ 16" and "utf8_valid s" and "p + 2 + length s \<le> U64_MAX"
  obtains r' where "read_str r = Some (s, r')" "rd_view r' (p + 2 + length s) ys"
proof -
  have len: "unat (word_of_nat (length s) :: u16) = length s" using assms(2) by (simp add: unat_of_nat)
  obtain r1 where r1: "reader_u16 r = Some (word_of_nat (length s), r1)" "rd_view r1 (p + 2) (s @ ys)"
    using reader_u16_app [of r p "word_of_nat (length s)" "s @ ys"] assms(1,4) by (auto simp: str_field_def)
  obtain r' where "reader_take (length s) r1 = Some (s, r')" "rd_view r' (p + 2 + length s) ys"
    by (rule reader_take_app [OF r1(2) assms(4)])
  with r1(1) len assms(3) show thesis by (intro that) (simp_all add: read_str_def)
qed

lemma read_strE:
  assumes "read_str r = Some (s, r')" and "rd_view r p zs"
  obtains ys where "zs = str_field s @ ys" "length s < 2 ^ 16" "utf8_valid s" "rd_view r' (p + 2 + length s) ys"
proof -
  from assms(1) obtain len r1 where l: "reader_u16 r = Some (len, r1)" "reader_take (unat len) r1 = Some (s, r')" "utf8_valid s"
    by (auto simp: read_str_def bind_eq_Some_conv split: if_splits)
  obtain ys1 where ys1: "zs = u16_to_le len @ ys1" "rd_view r1 (p + 2) ys1" by (rule reader_u16E [OF l(1) assms(2)])
  obtain ys where ys: "ys1 = s @ ys" "length s = unat len" "rd_view r' (p + 2 + unat len) ys"
    by (rule reader_takeE [OF l(2) ys1(2)])
  have "length s < 2 ^ 16" using unsigned_less [of len] ys(2) by simp
  moreover have "word_of_nat (length s) = len" using ys(2) by simp
  ultimately show thesis using that ys1(1) ys l(3) by (simp add: str_field_def)
qed

section \<open>The flags\<close>

lemma stored_flags_bits:
  "stored_flags s AND NOT (F_HOST_ONLY OR F_SECURE OR F_HTTP_ONLY OR F_EXPIRES) = 0"
  "stored_flags s AND F_EXPIRES \<noteq> 0 \<longleftrightarrow> sc_expires_unix s \<noteq> None"
  "stored_flags s AND F_HOST_ONLY \<noteq> 0 \<longleftrightarrow> sc_host_only s"
  "stored_flags s AND F_SECURE \<noteq> 0 \<longleftrightarrow> sc_secure s"
  "stored_flags s AND F_HTTP_ONLY \<noteq> 0 \<longleftrightarrow> sc_http_only s"
  by (cases "sc_expires_unix s"; cases "sc_host_only s"; cases "sc_secure s"; cases "sc_http_only s";
      simp add: stored_flags_def cookie_flags)+

lemma stored_flags_unique:
  assumes "f AND NOT (F_HOST_ONLY OR F_SECURE OR F_HTTP_ONLY OR F_EXPIRES) = (0 :: u8)"
    and "f AND F_EXPIRES \<noteq> 0 \<longleftrightarrow> sc_expires_unix s \<noteq> None" and "f AND F_HOST_ONLY \<noteq> 0 \<longleftrightarrow> sc_host_only s"
    and "f AND F_SECURE \<noteq> 0 \<longleftrightarrow> sc_secure s" and "f AND F_HTTP_ONLY \<noteq> 0 \<longleftrightarrow> sc_http_only s"
  shows "f = stored_flags s"
proof -
  have "f AND NOT 15 = 0" using assms(1) by (simp add: cookie_flags)
  moreover have "f AND 15 OR f AND NOT 15 = f" by (rule bit_word_eqI) (auto simp: bit_simps)
  ultimately have "f = f AND 15" by simp
  then have "f \<le> 15" by (metis word_and_le1)
  then have "unat f \<in> {0..<16}" by (simp add: word_le_nat_alt)
  then have "word_of_nat (unat f) \<in> (word_of_nat ` {0..<16} :: u8 set)" by blast
  then have f: "f = 0 \<or> f = 1 \<or> f = 2 \<or> f = 3 \<or> f = 4 \<or> f = 5 \<or> f = 6 \<or> f = 7 \<or> f = 8 \<or> f = 9 \<or> f = 10
      \<or> f = 11 \<or> f = 12 \<or> f = 13 \<or> f = 14 \<or> f = 15"
    by (simp add: numeral_eq_Suc lessThan_Suc atLeast0LessThan) blast
  show ?thesis using assms(2-) f
    by (elim disjE; simp add: stored_flags_def cookie_flags)
qed

section \<open>The round trip\<close>

definition stored_strings :: "stored_cookie \<Rightarrow> bytes list" where
  "stored_strings s = [sc_name s, sc_domain s, sc_path s, sc_value s]"

definition stored_head :: "stored_cookie \<Rightarrow> bytes" where
  "stored_head s = [COOKIE_VERSION, stored_flags s, same_site_code (sc_same_site s)]
     @ (case sc_expires_unix s of None \<Rightarrow> [] | Some at \<Rightarrow> u64_to_le at)"

lemma cookie_encode_Some:
  "cookie_encode s = Some b \<longleftrightarrow>
     list_all (\<lambda>x. length x < 2 ^ 16) (stored_strings s) \<and> b = stored_head s @ concat (map str_field (stored_strings s))"
  by (auto simp: cookie_encode_def Let_def push_strs_Some stored_strings_def stored_head_def simp del: push_strs.simps split: option.split)

lemma read_str_next:
  assumes "rd_view r p (str_field s @ ys)" and "length s < 2 ^ 16" and "utf8_valid s" and "p \<le> 2 ^ 20"
  obtains r' p' where "read_str r = Some (s, r')" "rd_view r' p' ys" "p' \<le> p + 2 ^ 17"
proof -
  obtain r' where "read_str r = Some (s, r')" "rd_view r' (p + 2 + length s) ys"
    by (rule read_str_app [OF assms(1-3)]) (use assms(2,4) in \<open>simp_all add: U64_MAX_def\<close>)
  then show thesis by (rule that) (use assms(2) in simp)
qed

lemma read_strs_app:
  assumes "rd_view r p (concat (map str_field [a, b, c, d]))" "p \<le> 100"
    "list_all (\<lambda>x. length x < 2 ^ 16 \<and> utf8_valid x) [a, b, c, d]"
  obtains r1 r2 r3 r4 where "read_str r = Some (a, r1)" "read_str r1 = Some (b, r2)" "read_str r2 = Some (c, r3)"
    "read_str r3 = Some (d, r4)" "reader_is_empty r4"
proof -
  have ok: "length x < 2 ^ 16" "utf8_valid x" if "x \<in> {a, b, c, d}" for x using assms(3) that by auto
  obtain r1 p1 where r1: "read_str r = Some (a, r1)" "rd_view r1 p1 (str_field b @ str_field c @ str_field d)" "p1 \<le> p + 2 ^ 17"
    using read_str_next [of r p a "str_field b @ str_field c @ str_field d"] assms(1,2) ok [of a] by auto
  obtain r2 p2 where r2: "read_str r1 = Some (b, r2)" "rd_view r2 p2 (str_field c @ str_field d)" "p2 \<le> p1 + 2 ^ 17"
    using read_str_next [OF r1(2)] r1(3) assms(2) ok [of b] by auto
  obtain r3 p3 where r3: "read_str r2 = Some (c, r3)" "rd_view r3 p3 (str_field d @ [])" "p3 \<le> p2 + 2 ^ 17"
    using read_str_next [OF r2(2)] r1(3) r2(3) assms(2) ok [of c] by auto
  obtain r4 p4 where r4: "read_str r3 = Some (d, r4)" "rd_view r4 p4 []"
    by (rule read_str_next [OF r3(2)]) (use r1(3) r2(3) r3(3) assms(2) ok [of d] in auto)
  then have "reader_is_empty r4" by (simp add: rd_view_def reader_is_empty_def)
  with r1(1) r2(1) r3(1) r4(1) show thesis by (rule that)
qed

lemma same_site_code_inverse [simp]: "same_site_from_code (same_site_code x) = Some x"
  by (cases x) (simp_all add: same_site_from_code_def)

lemma same_site_from_code_Some: "same_site_from_code c = Some x \<Longrightarrow> same_site_code x = c"
  by (auto simp: same_site_from_code_def split: if_splits)

lemma cookie_decode_encode:
  assumes "cookie_encode s = Some b" and "list_all utf8_valid (stored_strings s)"
  shows "cookie_decode b = Some s"
proof -
  let ?strs = "concat (map str_field (stored_strings s))"
  let ?ex = "case sc_expires_unix s of None \<Rightarrow> [] | Some at \<Rightarrow> u64_to_le at"
  from assms(1) have len: "list_all (\<lambda>x. length x < 2 ^ 16) (stored_strings s)"
    and b: "b = COOKIE_VERSION # stored_flags s # same_site_code (sc_same_site s) # ?ex @ ?strs"
    by (simp_all add: cookie_encode_Some stored_head_def)
  obtain r1 where r1: "reader_u8 (reader_new b) = Some (COOKIE_VERSION, r1)"
      "rd_view r1 (0 + 1) (stored_flags s # same_site_code (sc_same_site s) # ?ex @ ?strs)"
    by (rule reader_u8_app [OF rd_view_new [of b, unfolded b], folded b]) (simp_all add: U64_MAX_def)
  obtain r2 where r2: "reader_u8 r1 = Some (stored_flags s, r2)"
      "rd_view r2 (0 + 1 + 1) (same_site_code (sc_same_site s) # ?ex @ ?strs)"
    by (rule reader_u8_app [OF r1(2)]) (simp_all add: U64_MAX_def)
  obtain r3 where r3: "reader_u8 r2 = Some (same_site_code (sc_same_site s), r3)" "rd_view r3 (0 + 1 + 1 + 1) (?ex @ ?strs)"
    by (rule reader_u8_app [OF r2(2)]) (simp_all add: U64_MAX_def)
  obtain r4 p where r4: "read_expires (stored_flags s) r3 = Some (sc_expires_unix s, r4)" "rd_view r4 p ?strs" "p \<le> 100"
  proof (cases "sc_expires_unix s")
    case None
    then show thesis using that r3(2) by (simp add: read_expires_def stored_flags_bits)
  next
    case (Some at)
    obtain r4 where "reader_take (length (u64_to_le at)) r3 = Some (u64_to_le at, r4)" "rd_view r4 (0 + 1 + 1 + 1 + length (u64_to_le at)) ?strs"
      by (rule reader_take_app [of r3 "0 + 1 + 1 + 1" "u64_to_le at" ?strs]) (use r3(2) Some in \<open>simp_all add: U64_MAX_def\<close>)
    then show thesis using that Some by (simp add: read_expires_def stored_flags_bits)
  qed
  obtain r5 r6 r7 r8 where "read_str r4 = Some (sc_name s, r5)" "read_str r5 = Some (sc_domain s, r6)"
      "read_str r6 = Some (sc_path s, r7)" "read_str r7 = Some (sc_value s, r8)" "reader_is_empty r8"
    by (rule read_strs_app [of r4 p "sc_name s" "sc_domain s" "sc_path s" "sc_value s"])
       (use r4(2,3) len assms(2) in \<open>auto simp: stored_strings_def\<close>)
  then show ?thesis
    by (simp add: cookie_decode_def r1(1) r2(1) r3(1) r4(1) stored_flags_bits del: bit.de_Morgan_disj)
qed

lemma read_expiresE:
  assumes "read_expires f r = Some (e, r')" and "rd_view r p zs"
  obtains p' ys where "zs = (case e of None \<Rightarrow> [] | Some at \<Rightarrow> u64_to_le at) @ ys" "rd_view r' p' ys"
    "f AND F_EXPIRES \<noteq> 0 \<longleftrightarrow> e \<noteq> None"
proof (cases "f AND F_EXPIRES = 0")
  case True
  then show thesis using assms that by (simp add: read_expires_def)
next
  case False
  with assms(1) obtain raw at where t: "reader_take 8 r = Some (raw, r')" "u64_from_le raw = Some at" "e = Some at"
    by (auto simp: read_expires_def bind_eq_Some_conv)
  obtain ys where "zs = raw @ ys" "rd_view r' (p + 8) ys" by (rule reader_takeE [OF t(1) assms(2)])
  then show thesis using that False t u64_from_le_inverse [OF t(2)] by simp
qed

lemma if_None_Some: "(if c then None else x) = Some y \<longleftrightarrow> \<not> c \<and> x = Some y"
  by simp

lemma cookie_decodeE:
  assumes "cookie_decode b = Some s"
  obtains f c r1 r2 r3 r4 r5 r6 r7 r8 where
    "reader_u8 (reader_new b) = Some (COOKIE_VERSION, r1)" "reader_u8 r1 = Some (f, r2)"
    "f AND NOT (F_HOST_ONLY OR F_SECURE OR F_HTTP_ONLY OR F_EXPIRES) = 0" "reader_u8 r2 = Some (c, r3)"
    "same_site_from_code c = Some (sc_same_site s)" "read_expires f r3 = Some (sc_expires_unix s, r4)"
    "read_str r4 = Some (sc_name s, r5)" "read_str r5 = Some (sc_domain s, r6)"
    "read_str r6 = Some (sc_path s, r7)" "read_str r7 = Some (sc_value s, r8)" "reader_is_empty r8"
    "f AND F_HOST_ONLY \<noteq> 0 \<longleftrightarrow> sc_host_only s" "f AND F_SECURE \<noteq> 0 \<longleftrightarrow> sc_secure s"
    "f AND F_HTTP_ONLY \<noteq> 0 \<longleftrightarrow> sc_http_only s"
proof -
  from assms show thesis
    unfolding cookie_decode_def bind_eq_Some_conv split_paired_Ex prod.case
    by (clarsimp simp only: bind_eq_Some_conv split_paired_Ex prod.case option.inject if_None_Some not_not) (rule that; simp)
qed

lemma cookie_encode_decode:
  assumes "cookie_decode b = Some s"
  shows "cookie_encode s = Some b" "list_all utf8_valid (stored_strings s)"
proof -
  obtain f c r1 r2 r3 r4 r5 r6 r7 r8 where
    d: "reader_u8 (reader_new b) = Some (COOKIE_VERSION, r1)" "reader_u8 r1 = Some (f, r2)"
      "f AND NOT (F_HOST_ONLY OR F_SECURE OR F_HTTP_ONLY OR F_EXPIRES) = 0" "reader_u8 r2 = Some (c, r3)"
      "same_site_from_code c = Some (sc_same_site s)" "read_expires f r3 = Some (sc_expires_unix s, r4)"
    and strs: "read_str r4 = Some (sc_name s, r5)" "read_str r5 = Some (sc_domain s, r6)"
      "read_str r6 = Some (sc_path s, r7)" "read_str r7 = Some (sc_value s, r8)" "reader_is_empty r8"
    and f: "f AND F_HOST_ONLY \<noteq> 0 \<longleftrightarrow> sc_host_only s" "f AND F_SECURE \<noteq> 0 \<longleftrightarrow> sc_secure s"
      "f AND F_HTTP_ONLY \<noteq> 0 \<longleftrightarrow> sc_http_only s"
    by (rule cookie_decodeE [OF assms])
  obtain y1 where y1: "b = COOKIE_VERSION # y1" "rd_view r1 (0 + 1) y1" by (rule reader_u8E [OF d(1) rd_view_new])
  obtain y2 where y2: "y1 = f # y2" "rd_view r2 (0 + 1 + 1) y2" by (rule reader_u8E [OF d(2) y1(2)])
  obtain y3 where y3: "y2 = c # y3" "rd_view r3 (0 + 1 + 1 + 1) y3" by (rule reader_u8E [OF d(4) y2(2)])
  obtain p4 y4 where y4: "y3 = (case sc_expires_unix s of None \<Rightarrow> [] | Some at \<Rightarrow> u64_to_le at) @ y4" "rd_view r4 p4 y4"
      "f AND F_EXPIRES \<noteq> 0 \<longleftrightarrow> sc_expires_unix s \<noteq> None"
    by (rule read_expiresE [OF d(6) y3(2)])
  obtain y5 where y5: "y4 = str_field (sc_name s) @ y5" "length (sc_name s) < 2 ^ 16" "utf8_valid (sc_name s)"
      "rd_view r5 (p4 + 2 + length (sc_name s)) y5" by (rule read_strE [OF strs(1) y4(2)])
  obtain y6 p6 where y6: "y5 = str_field (sc_domain s) @ y6" "length (sc_domain s) < 2 ^ 16" "utf8_valid (sc_domain s)"
      "rd_view r6 p6 y6" by (rule read_strE [OF strs(2) y5(4)]) (rule that)
  obtain y7 p7 where y7: "y6 = str_field (sc_path s) @ y7" "length (sc_path s) < 2 ^ 16" "utf8_valid (sc_path s)"
      "rd_view r7 p7 y7" by (rule read_strE [OF strs(3) y6(4)]) (rule that)
  obtain y8 p8 where y8: "y7 = str_field (sc_value s) @ y8" "length (sc_value s) < 2 ^ 16" "utf8_valid (sc_value s)"
      "rd_view r8 p8 y8" by (rule read_strE [OF strs(4) y7(4)]) (rule that)
  have "y8 = []" using y8(4) strs(5) by (auto simp: rd_view_def reader_is_empty_def)
  moreover have "f = stored_flags s" by (rule stored_flags_unique [OF d(3) y4(3) f])
  ultimately show "cookie_encode s = Some b" "list_all utf8_valid (stored_strings s)"
    using y1(1) y2(1) y3(1) y4(1) y5(1-3) y6(1-3) y7(1-3) y8(1-3) same_site_from_code_Some [OF d(5)]
    by (simp_all add: cookie_encode_Some stored_head_def stored_strings_def)
qed

end
