(* ===== verification/Store_Cookie_Accept.thy ===== *)
theory Store_Cookie_Accept
  imports Store_Cookie_Header Store_Cookie_Codec
begin

text \<open>
  What the network's parser guarantees of the text of a cookie it accepts, so that the
  cookie survives being stored and read again.
\<close>

section \<open>Domains\<close>

lemma lower_semicolon: "lower_byte b = SEMICOLON \<longleftrightarrow> b = SEMICOLON"
proof -
  have "b \<le> 0x5A \<Longrightarrow> 0x41 \<le> b \<Longrightarrow> unat (b + 0x20) = unat b + 0x20"
    by (simp add: unat_word_ariths word_le_nat_alt)
  then have "0x41 \<le> b \<Longrightarrow> b \<le> 0x5A \<Longrightarrow> 0x61 \<le> b + 0x20" by (simp add: word_le_nat_alt)
  then show ?thesis by (auto simp: lower_byte_def word_le_nat_alt)
qed

lemma lower_semicolon_set: "SEMICOLON \<in> set (to_ascii_lowercase s) \<longleftrightarrow> SEMICOLON \<in> set s"
proof -
  have "SEMICOLON \<in> set (to_ascii_lowercase s) \<longleftrightarrow> (\<exists>b \<in> set s. lower_byte b = SEMICOLON)"
    unfolding to_ascii_lowercase_def by force
  then show ?thesis unfolding lower_semicolon by blast
qed

lemma utf8_drop_dots: "utf8_valid s \<Longrightarrow> utf8_valid (trim_start_matches DOT s)"
  by (induction s) (auto simp: trim_start_matches_def utf8_ascii_Cons)

lemma utf8_drop_end_dots: "utf8_valid s \<Longrightarrow> utf8_valid (trim_end_matches DOT s)"
proof -
  assume val: "utf8_valid s"
  obtain n where "s = trim_end_matches DOT s @ replicate n DOT" using trim_end_matches_part by blast
  from subst [where P = utf8_valid, OF this val] have *: "utf8_valid (trim_end_matches DOT s @ replicate n DOT)" .
  show ?thesis
  proof (cases n)
    case (Suc m)
    with * utf8_split_ascii [of DOT "trim_end_matches DOT s" "replicate m DOT"] show ?thesis by simp
  qed (use * in simp)
qed

definition domain_of :: "bytes \<Rightarrow> bytes" where
  "domain_of v = to_ascii_lowercase (trim_end_matches DOT (trim_start_matches DOT v))"

lemma domain_of_text:
  assumes "domain_of v \<noteq> []" "SEMICOLON \<notin> set v" "utf8_valid v"
  shows "domain_text (domain_of v)" "utf8_valid (domain_of v)"
proof -
  let ?s = "trim_start_matches DOT v" and ?t = "trim_end_matches DOT (trim_start_matches DOT v)"
  have nd: "\<not> begins_with DOT ?s" by (induction v) (auto simp: trim_start_matches_def)
  obtain n where n: "?s = ?t @ replicate n DOT" using trim_end_matches_part by blast
  have ne: "?t \<noteq> []" using assms(1) by (simp add: domain_of_def)
  then have "\<not> begins_with DOT ?t" using nd n by (cases ?t) (auto simp: begins_with_def)
  then have b: "\<not> begins_with DOT (domain_of v)" by (cases ?t) (simp_all add: domain_of_def)
  have "SEMICOLON \<notin> set ?t"
    using assms(2) n by (metis Un_iff set_append set_dropWhileD trim_start_matches_def)
  then have "SEMICOLON \<notin> set (domain_of v)" by (simp add: domain_of_def lower_semicolon_set)
  moreover have "\<not> ends_with DOT (domain_of v)" by (simp add: domain_of_def ends_with_lower trim_end_matches_end)
  ultimately show "domain_text (domain_of v)" using assms(1) b by (simp add: domain_text_def domain_of_def)
  show "utf8_valid (domain_of v)" unfolding domain_of_def
    by (intro utf8_lower utf8_drop_end_dots utf8_drop_dots assms(3))
qed

section \<open>Attributes\<close>

definition attributes_text :: "attributes \<Rightarrow> bool" where
  "attributes_text a \<longleftrightarrow>
     (\<forall>p. a_path a = Some p \<longrightarrow> trimmed p \<and> SEMICOLON \<notin> set p \<and> utf8_valid p)
     \<and> (\<forall>d. a_domain a = Some d \<longrightarrow> domain_text d \<and> utf8_valid d)"

lemma parse_attribute_text:
  assumes run: "parse_attribute raw a = Inr a'" and raw: "SEMICOLON \<notin> set raw" "utf8_valid raw" and a: "attributes_text a"
  shows "attributes_text a'"
proof -
  have t: "SEMICOLON \<notin> set (trim raw)" "utf8_valid (trim raw)" using raw set_trim utf8_trim by blast+
  obtain key val where kv: "(key, val) = (case split_once EQUALS (trim raw) of
       Some (k, v) \<Rightarrow> (to_ascii_lowercase (trim k), trim v) | None \<Rightarrow> (to_ascii_lowercase (trim raw), []))"
    by (metis surj_pair)
  have val: "SEMICOLON \<notin> set val \<and> utf8_valid val \<and> trimmed val"
  proof (cases "split_once EQUALS (trim raw)")
    case None
    then show ?thesis using kv by (auto simp: trimmed_def first_strip_None)
  next
    case (Some kv')
    then obtain k v where s: "split_once EQUALS (trim raw) = Some (k, v)" "val = trim v" using kv by (cases kv') simp
    then have "trim raw = k @ EQUALS # v" by (simp add: split_once_Some)
    then have "SEMICOLON \<notin> set v" using t(1) by simp
    then have "SEMICOLON \<notin> set (trim v)" using set_trim by blast
    moreover have "utf8_valid v" using utf8_split_once [OF _ t(2) s(1)] by simp
    ultimately show ?thesis using s(2) trimmed_trim utf8_trim by blast
  qed
  have "a_path a' = a_path a \<or> a_path a' = Some val"
    "a_domain a' = a_domain a \<or> (a_domain a' = Some (domain_of val) \<and> domain_of val \<noteq> [])"
    using run kv [symmetric] by (auto simp: parse_attribute_def Let_def domain_of_def split: if_splits option.splits prod.splits)
  then show ?thesis using a val domain_of_text [of val] by (auto simp: attributes_text_def)
qed

lemma parse_attributes_text:
  "parse_attributes raws a = Inr a' \<Longrightarrow> \<forall>raw \<in> set raws. SEMICOLON \<notin> set raw \<and> utf8_valid raw \<Longrightarrow> attributes_text a
   \<Longrightarrow> attributes_text a'"
proof (induction raws arbitrary: a)
  case (Cons raw raws)
  then obtain a1 where "parse_attribute raw a = Inr a1" "parse_attributes raws a1 = Inr a'" by (auto split: sum.splits)
  then show ?case using Cons parse_attribute_text by auto
qed simp

section \<open>Accepted cookies\<close>

definition cookie_strings :: "cookie \<Rightarrow> bool" where
  "cookie_strings c \<longleftrightarrow> utf8_valid (c_name c) \<and> utf8_valid (c_value c) \<and> utf8_valid (c_domain c) \<and> utf8_valid (c_path c)"

lemma cookie_parse_parts:
  assumes "cookie_parse l now o' header = Inr c"
  obtains n v a where "split_once EQUALS (hd (str_split SEMICOLON header)) = Some (n, v)" "c_name c = trim n" "c_value c = trim v"
    "parse_attributes (tl (str_split SEMICOLON header)) attributes_new = Inr a"
    "c_path c = (case a_path a of None \<Rightarrow> [SLASH] | Some p \<Rightarrow> p)" "cookie_domain l o' a = Inr (c_domain c, c_host_only c)"
    "c_expires_at c = cookie_expiry now (a_max_age a)"
  using assms by (auto simp: cookie_parse_def Let_def split: if_splits option.splits sum.splits)

lemma cookie_parse_text:
  assumes run: "cookie_parse l now o' header = Inr c" and val: "utf8_valid header" "utf8_valid (host o')"
  shows "cookie_text c" "cookie_strings c"
proof -
  let ?ps = "str_split SEMICOLON header"
  have pieces: "SEMICOLON \<notin> set p \<and> utf8_valid p" if "p \<in> set ?ps" for p
    using str_split_pieces [OF that] utf8_str_split [OF _ val(1) that] by simp
  then have tails: "\<forall>raw \<in> set (tl ?ps). SEMICOLON \<notin> set raw \<and> utf8_valid raw"
    using list.set_sel(2) [OF str_split_nonempty] by blast
  obtain n v a where p: "split_once EQUALS (hd ?ps) = Some (n, v)" "c_name c = trim n" "c_value c = trim v"
      "parse_attributes (tl ?ps) attributes_new = Inr a" "c_path c = (case a_path a of None \<Rightarrow> [SLASH] | Some p \<Rightarrow> p)"
      "cookie_domain l o' a = Inr (c_domain c, c_host_only c)"
    by (rule cookie_parse_parts [OF run])
  have hd: "SEMICOLON \<notin> set (hd ?ps)" "utf8_valid (hd ?ps)" using pieces [of "hd ?ps"] by simp_all
  have nv: "hd ?ps = n @ EQUALS # v" "EQUALS \<notin> set n" using p(1) by (simp_all add: split_once_Some)
  have u: "utf8_valid n" "utf8_valid v" using utf8_split_once [OF _ hd(2) p(1)] by simp_all
  have "attributes_text a"
    by (rule parse_attributes_text [OF p(4) tails]) (simp add: attributes_text_def attributes_new_def)
  note at = this
  have "trimmed [SLASH]" "utf8_valid [SLASH]" by (simp_all add: trimmed_def WHITE_SPACE_def utf8_ascii_Cons)
  then have path: "trimmed (c_path c) \<and> SEMICOLON \<notin> set (c_path c) \<and> utf8_valid (c_path c)"
    using at p(5) by (cases "a_path a") (simp_all add: attributes_text_def)
  have dom: "domain_text (c_domain c) \<and> utf8_valid (c_domain c)" if "\<not> c_host_only c"
    using cookie_domain_Inr [OF p(6)] at that by (simp add: attributes_text_def)
  have "c_host_only c \<Longrightarrow> utf8_valid (c_domain c)" using cookie_domain_Inr [OF p(6)] val(2) by (auto intro: utf8_lower)
  then show "cookie_strings c" using path dom utf8_trim [OF u(1)] utf8_trim [OF u(2)] p(2,3) unfolding cookie_strings_def by metis
  have "SEMICOLON \<notin> set n" "SEMICOLON \<notin> set v" using hd(1) unfolding nv(1) by simp_all
  then have "SEMICOLON \<notin> set (c_name c)" "SEMICOLON \<notin> set (c_value c)" "EQUALS \<notin> set (c_name c)"
    using p(2,3) nv(2) set_trim [of n] set_trim [of v] by auto
  then show "cookie_text c" using path dom p(2,3) trimmed_trim by (simp add: cookie_text_def)
qed

text \<open>A domain the parser accepts is a suffix of the host, so blanks at its ends are blanks of the host.\<close>

lemma accepted_domain_trimmed:
  assumes "cookie_ok l o' c" "origin_wf o'" "list_all (\<lambda>b. \<not> ascii_ws b) (host o')" "c_domain c \<noteq> []"
  shows "trimmed (c_domain c)"
proof -
  have "\<exists>q. host o' = q @ c_domain c"
    using assms(1,2) by (auto simp: cookie_ok_def matches_host_def origin_wf_def under_domain_iff Let_def split: if_splits)
  then have sub: "set (c_domain c) \<subseteq> set (host o')" by auto
  moreover have "hd (c_domain c) \<in> set (c_domain c)" "last (c_domain c) \<in> set (c_domain c)" using assms(4) by simp_all
  ultimately have "\<not> ascii_ws (hd (c_domain c))" "\<not> ascii_ws (last (c_domain c))" using assms(3) by (auto simp: list_all_iff)
  then show ?thesis using assms(2,4) sub by (intro ascii_trimmed) (auto simp: is_ascii_def origin_wf_def)
qed

end
