(* ===== verification/Store_Cookie_Save.thy ===== *)
theory Store_Cookie_Save
  imports Store_Cookie_Accept
begin

text \<open>
  Saving a partition's cookies: when it reports success, the disk recovers to a store that
  holds exactly the wanted entries in the cookie namespace of the partition, and everything
  else as before.
\<close>

section \<open>Single steps\<close>

text \<open>The store's invariant, with a disk that recovers to the engine even when the handle is poisoned.\<close>

definition saved_inv :: "store \<Rightarrow> 'io world \<Rightarrow> bool" where
  "saved_inv s w \<longleftrightarrow> store_inv s w \<and> disk_recovers w (st_engine s)"

lemma saved_inv_live: "store_inv s w \<Longrightarrow> \<not> poisoned s \<Longrightarrow> saved_inv s w"
  by (simp add: saved_inv_def store_inv_disk)

lemma store_put_done:
  assumes "saved_inv s w" "key_storable k" "pid_from_key k = Inr pid" "store_put k ns key val s w = (Inr u, s', w')"
  shows "saved_inv s' w'" "st_engine s' = engine_put (st_engine s) pid ns key val"
proof -
  have live: "\<not> poisoned s" using assms(4) by (auto simp: store_put_def)
  have acc: "check_put (st_engine s) pid ns key val = Inr ()"
    using assms(3,4) by (auto simp: store_put_def split: if_split_asm sum.split_asm)
  have "atomic_to (st_engine s) (engine_put (st_engine s) pid ns key val) (Inr u) s' w'"
    by (rule store_put_spec [OF _ live assms(2,3) acc assms(4)]) (use assms(1) in \<open>simp add: saved_inv_def\<close>)
  then show "saved_inv s' w'" "st_engine s' = engine_put (st_engine s) pid ns key val"
    by (auto simp: atomic_to_def saved_inv_def)
qed

lemma store_delete_done:
  assumes "saved_inv s w" "key_storable k" "pid_from_key k = Inr pid" "store_delete k ns key s w = (Inr u, s', w')"
  shows "saved_inv s' w'" "st_engine s' = snd (engine_delete (st_engine s) pid ns key)"
proof -
  have live: "\<not> poisoned s" using assms(4) by (auto simp: store_delete_def)
  have "atomic_to (st_engine s) (snd (engine_delete (st_engine s) pid ns key)) (Inr u) s' w'"
    by (rule store_delete_spec(1) [OF _ live assms(2,3,4)]) (use assms(1) in \<open>simp add: saved_inv_def\<close>)
  then show "saved_inv s' w'" "st_engine s' = snd (engine_delete (st_engine s) pid ns key)"
    by (auto simp: atomic_to_def saved_inv_def)
qed

section \<open>The loops\<close>

lemma delete_stale_done:
  assumes "delete_stale k keys s w = (Inr u, s', w')" "saved_inv s w" "key_storable k" "pid_from_key k = Inr pid"
  shows "saved_inv s' w' \<and> (\<forall>q ns key. engine_get (st_engine s') q ns key =
     (if q = pid \<and> ns = Cookies \<and> key \<in> set keys then None else engine_get (st_engine s) q ns key))"
  using assms(1,2)
proof (induction keys arbitrary: s w)
  case (Cons key keys)
  then obtain f s1 w1 where d: "store_delete k Cookies key s w = (Inr f, s1, w1)" "delete_stale k keys s1 w1 = (Inr u, s', w')"
    by (auto split: prod.splits sum.splits)
  note one = store_delete_done [OF Cons.prems(2) assms(3,4) d(1)]
  have "engine_ok (st_engine s)" using Cons.prems(2) by (simp add: saved_inv_def store_inv_def)
  note get = engine_get_delete [OF this, of pid Cookies key]
  show ?case using Cons.IH [OF d(2) one(1)] by (auto simp: one(2) get)
qed simp

lemma put_wanted_done:
  assumes "put_wanted k wanted n s w = (Inr m, s', w')" "saved_inv s w" "key_storable k" "pid_from_key k = Inr pid"
  shows "saved_inv s' w' \<and> m = n + length wanted \<and> (\<forall>q ns key. engine_get (st_engine s') q ns key =
     (if q = pid \<and> ns = Cookies \<and> key \<in> fst ` set wanted then map_of (rev wanted) key else engine_get (st_engine s) q ns key))"
  using assms(1,2)
proof (induction wanted arbitrary: n s w)
  case (Cons x rest)
  obtain key val where x: "x = (key, val)" by fastforce
  have "\<exists>s1 w1. put_wanted k rest (n + 1) s1 w1 = (Inr m, s', w') \<and> saved_inv s1 w1
     \<and> (\<forall>q ns j. engine_get (st_engine s1) q ns j =
          (if q = pid \<and> ns = Cookies \<and> j = key then Some val else engine_get (st_engine s) q ns j))"
  proof (cases "store_get s k Cookies key = Some val")
    case True
    then have "engine_get (st_engine s) pid Cookies key = Some val"
      using assms(4) by (simp add: store_get_def split: if_splits)
    moreover have "put_wanted k rest (n + 1) s w = (Inr m, s', w')" using Cons.prems(1) True x by simp
    ultimately show ?thesis using Cons.prems(2) by (intro exI [of _ s] exI [of _ w]) auto
  next
    case False
    then obtain u s1 w1 where d: "store_put k Cookies key val s w = (Inr u, s1, w1)" "put_wanted k rest (n + 1) s1 w1 = (Inr m, s', w')"
      using Cons.prems(1) x by (auto split: prod.splits sum.splits)
    then show ?thesis using store_put_done [OF Cons.prems(2) assms(3,4) d(1)]
      by (intro exI [of _ s1] exI [of _ w1]) (simp add: engine_get_put)
  qed
  then obtain s1 w1 where s1: "put_wanted k rest (n + 1) s1 w1 = (Inr m, s', w')" "saved_inv s1 w1"
      "\<forall>q ns j. engine_get (st_engine s1) q ns j =
          (if q = pid \<and> ns = Cookies \<and> j = key then Some val else engine_get (st_engine s) q ns j)" by blast
  from Cons.IH [OF s1(1,2)] have ih: "saved_inv s' w'" "m = n + 1 + length rest"
    "engine_get (st_engine s') q ns j = (if q = pid \<and> ns = Cookies \<and> j \<in> fst ` set rest then map_of (rev rest) j
       else engine_get (st_engine s1) q ns j)" for q ns j by simp_all
  have last: "map_of (rev rest) j = None \<longleftrightarrow> j \<notin> fst ` set rest" for j by (simp add: map_of_eq_None_iff)
  have "map_of (rev (x # rest)) j = (if j \<in> fst ` set rest then map_of (rev rest) j else if j = key then Some val else None)" for j
    using last [of j] by (cases "map_of (rev rest) j") (simp_all add: x map_add_def)
  then show ?case using ih s1(3) by (auto simp: x)
qed simp

section \<open>Keys\<close>

lemma set_engine_keys:
  assumes "engine_ok e"
  shows "set (engine_keys e pid ns) = {key. engine_get e pid ns key \<noteq> None}" "distinct (engine_keys e pid ns)"
proof -
  have "bt_ok (entries p)" if "map_of (parts e) pid = Some p" for p
    using engine_ok_part [OF assms that] by (simp add: part_ok_def)
  note sorted = this bt_ok_distinct [OF this]
  show "set (engine_keys e pid ns) = {key. engine_get e pid ns key \<noteq> None}"
  proof (cases "map_of (parts e) pid")
    case (Some p)
    have "key \<in> set (engine_keys e pid ns) \<longleftrightarrow> (ns_code ns, key) \<in> fst ` set (entries p)" for key
      using Some by (force simp: engine_keys_def)
    moreover have "engine_get e pid ns key \<noteq> None \<longleftrightarrow> (ns_code ns, key) \<in> fst ` set (entries p)" for key
      using Some by (simp add: engine_get_def map_of_eq_None_iff)
    ultimately show ?thesis by blast
  qed (simp add: engine_keys_def engine_get_def)
  show "distinct (engine_keys e pid ns)"
  proof (cases "map_of (parts e) pid")
    case (Some p)
    let ?ks = "filter (\<lambda>(n, _). n = ns_code ns) (map fst (entries p))"
    have "distinct ?ks" using sorted(2) [OF Some] by simp
    moreover have "inj_on snd (set ?ks)" by (auto simp: inj_on_def)
    ultimately show ?thesis using Some by (simp add: engine_keys_def distinct_map)
  qed (simp add: engine_keys_def)
qed

section \<open>Saving\<close>

lemma cookies_save_done:
  assumes run: "cookies_save k cs now now_unix s w = (Inr n, s', w')"
    and inv: "store_inv s w" "\<not> poisoned s" and key: "key_storable k" "pid_from_key k = Inr pid"
  shows "saved_inv s' w' \<and> n = length (wanted_entries cs now now_unix)
    \<and> (\<forall>q ns j. engine_get (st_engine s') q ns j =
         (if q = pid \<and> ns = Cookies then map_of (rev (wanted_entries cs now now_unix)) j
          else engine_get (st_engine s) q ns j))"
proof -
  let ?wanted = "wanted_entries cs now now_unix"
  let ?stale = "filter (\<lambda>key. key \<notin> set (map fst ?wanted)) (store_keys s k Cookies)"
  from run obtain u s1 w1 where d: "delete_stale k ?stale s w = (Inr u, s1, w1)" "put_wanted k ?wanted 0 s1 w1 = (Inr n, s', w')"
    by (auto simp: cookies_save_def Let_def split: prod.splits sum.splits)
  note del = delete_stale_done [OF d(1) saved_inv_live [OF inv] key]
  note put = put_wanted_done [OF d(2) _ key]
  have ok: "engine_ok (st_engine s)" using inv(1) by (simp add: store_inv_def)
  have stale: "j \<in> set ?stale \<longleftrightarrow> engine_get (st_engine s) pid Cookies j \<noteq> None \<and> j \<notin> fst ` set ?wanted" for j
    using key(2) inv(2) by (auto simp: store_keys_def set_engine_keys [OF ok])
  have "map_of (rev ?wanted) j = None \<longleftrightarrow> j \<notin> fst ` set ?wanted" for j by (simp add: map_of_eq_None_iff)
  note absent = this
  have "engine_get (st_engine s') q ns j = (if q = pid \<and> ns = Cookies then map_of (rev ?wanted) j else engine_get (st_engine s) q ns j)"
    for q ns j
  proof (cases "q = pid \<and> ns = Cookies \<and> j \<notin> fst ` set ?wanted")
    case True
    then have "engine_get (st_engine s1) q ns j = None" using del stale [of j] by auto
    then show ?thesis using True put del absent [of j] by simp
  next
    case False
    then show ?thesis using put del stale [of j] by auto
  qed
  then show ?thesis using put del by simp
qed

text \<open>What a later open of the directory finds.\<close>

lemma cookies_save_reopen:
  assumes run: "cookies_save k cs now now_unix s w = (Inr n, s', w')"
    and inv: "store_inv s w" "\<not> poisoned s" and key: "key_storable k" "pid_from_key k = Inr pid"
    and log: "log_file w' = Some b" "length b \<le> MAX_LOG_BYTES"
  obtains s'' w'' where "store_open (w'\<lparr>faults := []\<rparr>) = (Inr s'', w'')" "store_inv s'' w''" "\<not> poisoned s''"
    "\<And>k' ns j. store_get s'' k' ns j =
       (if k' = k \<and> ns = Cookies then map_of (rev (wanted_entries cs now now_unix)) j else store_get s k' ns j)"
    "set (store_keys s'' k Cookies) = fst ` set (wanted_entries cs now now_unix)" "distinct (store_keys s'' k Cookies)"
proof -
  note fin = cookies_save_done [OF run inv key]
  let ?w = "w'\<lparr>faults := []\<rparr>"
  from fin log(1) obtain rc where rc: "recover b = Inr rc" "rec_engine rc = st_engine s'"
    by (auto simp: saved_inv_def disk_recovers_def)
  obtain s'' w'' where o: "store_open ?w = (Inr s'', w'')"
    using store_open_total [OF _ log(2) rc(1), of ?w] log(1) by auto
  obtain b' rc' where b': "b' = (case log_file ?w of None \<Rightarrow> [] | Some b \<Rightarrow> b)" "recover b' = Inr rc'"
    "st_engine s'' = rec_engine rc'" "\<not> poisoned s''" "store_inv s'' w''"
    by (rule store_open_Inr [OF o])
  with log(1) rc have s'': "st_engine s'' = st_engine s'" "\<not> poisoned s''" "store_inv s'' w''" by simp_all
  have ok: "engine_ok (st_engine s'')" using s''(3) by (simp add: store_inv_def)
  have get: "store_get s'' k' ns j =
       (if k' = k \<and> ns = Cookies then map_of (rev (wanted_entries cs now now_unix)) j else store_get s k' ns j)" for k' ns j
  proof (cases "pid_from_key k'")
    case (Inl q)
    with s''(2) inv(2) key(2) show ?thesis by (auto simp: store_get_def)
  next
    case (Inr pid')
    have "k' = k \<longleftrightarrow> pid' = pid" using pid_from_key_inj Inr key(2) by auto
    with s'' inv(2) fin Inr show ?thesis by (simp add: store_get_def)
  qed
  have "set (store_keys s'' k Cookies) = {j. store_get s'' k Cookies j \<noteq> None}" "distinct (store_keys s'' k Cookies)"
    using key(2) s''(2) by (simp_all add: store_keys_def store_get_def set_engine_keys [OF ok])
  then show thesis using get o s''(2,3) by (intro that) (auto simp: map_of_eq_None_iff)
qed

end
