(* ===== verification/Store_Cookie_Load.thy ===== *)
theory Store_Cookie_Load
  imports Store_Cookie_Save
begin

text \<open>
  Loading a partition's cookies, and the whole trip: cookies a jar holds, saved, found after
  a restart and loaded into a new jar.
\<close>

section \<open>Loading\<close>

definition cookie_id :: "cookie \<Rightarrow> bytes \<times> bytes \<times> bytes" where
  "cookie_id c = (c_name c, c_domain c, c_path c)"

definition loads_as :: "store \<Rightarrow> public_suffix_list \<Rightarrow> partition_key \<Rightarrow> u64 \<Rightarrow> nat \<Rightarrow> bytes \<Rightarrow> cookie \<Rightarrow> bool" where
  "loads_as s l k now_unix now key c \<longleftrightarrow>
     (\<exists>sc h. (do { v \<leftarrow> store_get s k Cookies key; cookie_decode v }) = Some sc \<and> to_set_cookie sc now_unix = Some h
        \<and> (sc_host_only sc \<longrightarrow> sc_domain sc = host (key_origin k)) \<and> cookie_parse l now (key_origin k) h = Inr c)"

lemma jar_store_new:
  assumes "cookie_parse l now (key_origin k) h = Inr c" "cookie_id c \<notin> cookie_id ` set (stored j k)" "length (stored j k) < MAX_PER_KEY"
  shows "\<exists>j'. jar_store l now k h j = (Inr (), j') \<and> stored j' k = stored j k @ [c]"
proof -
  have "replace_first c (stored j k) = None"
    using assms(2) by (auto simp: replace_first_None same_cookie_def cookie_id_def image_iff)
  moreover have st: "(case map_of (by_partition j) k of None \<Rightarrow> [] | Some cs \<Rightarrow> cs) = stored j k" by (simp add: stored_def)
  ultimately show ?thesis using assms(1,3) unfolding jar_store_def Let_def st by simp
qed

lemma load_one_ok:
  assumes "loads_as s l k now_unix now key c" "cookie_id c \<notin> cookie_id ` set (stored j k)" "length (stored j k) < MAX_PER_KEY"
  shows "\<exists>j'. load_one s l k now_unix True now key (j, rep) = (j', rep\<lparr>lr_loaded := lr_loaded rep + 1\<rparr>)
     \<and> stored j' k = stored j k @ [c]"
proof -
  obtain sc h where l: "(do { v \<leftarrow> store_get s k Cookies key; cookie_decode v }) = Some sc" "to_set_cookie sc now_unix = Some h"
      "sc_host_only sc \<longrightarrow> sc_domain sc = host (key_origin k)" "cookie_parse l now (key_origin k) h = Inr c"
    using assms(1) by (auto simp: loads_as_def)
  from jar_store_new [OF l(4) assms(2,3)] obtain j' where "jar_store l now k h j = (Inr (), j')" "stored j' k = stored j k @ [c]" by blast
  then show ?thesis using l(1-3) by (intro exI [of _ j']) (auto simp: load_one_def)
qed

lemma load_keys_ok:
  assumes "\<forall>m < length ks. loads_as s l k now_unix (clock (i + m)) (ks ! m) (cs ! m)" "length cs = length ks"
    "distinct (map cookie_id (stored j k @ cs))" "length (stored j k) + length ks \<le> MAX_PER_KEY"
  shows "\<exists>j'. load_keys s l k now_unix True clock i ks (j, rep) = (j', rep\<lparr>lr_loaded := lr_loaded rep + length ks\<rparr>)
     \<and> stored j' k = stored j k @ cs"
  using assms
proof (induction ks arbitrary: i cs j rep)
  case (Cons key ks)
  then obtain c cs' where cs: "cs = c # cs'" by (cases cs) auto
  have first: "loads_as s l k now_unix (clock i) key c" using Cons.prems(1) cs by force
  have "cookie_id c \<notin> cookie_id ` set (stored j k)" "length (stored j k) < MAX_PER_KEY" using Cons.prems(3,4) cs by auto
  from load_one_ok [OF first this] obtain j1 where
    j1: "load_one s l k now_unix True (clock i) key (j, rep) = (j1, rep\<lparr>lr_loaded := lr_loaded rep + 1\<rparr>)"
      "stored j1 k = stored j k @ [c]" by blast
  have "\<forall>m < length ks. loads_as s l k now_unix (clock (i + 1 + m)) (ks ! m) (cs' ! m)"
    using Cons.prems(1) cs by force
  from Cons.IH [OF this, of j1 "rep\<lparr>lr_loaded := lr_loaded rep + 1\<rparr>"] Cons.prems(2-4) j1 show ?case by (simp add: cs)
qed simp

section \<open>Store keys\<close>

lemma str_field_inj: "length a < 2 ^ 16 \<Longrightarrow> length b < 2 ^ 16 \<Longrightarrow> str_field a @ u = str_field b @ v \<Longrightarrow> a = b \<and> u = v"
proof -
  assume len: "length a < 2 ^ 16" "length b < 2 ^ 16" and e: "str_field a @ u = str_field b @ v"
  then have "u16_to_le (word_of_nat (length a)) = u16_to_le (word_of_nat (length b))" "a @ u = b @ v"
    by (simp_all add: str_field_def append_eq_append_conv)
  moreover from this(1) have "(word_of_nat (length a) :: u16) = word_of_nat (length b)"
    by (metis option.inject u16_le_roundtrip)
  then have "unat (word_of_nat (length a) :: u16) = unat (word_of_nat (length b) :: u16)" by (rule arg_cong)
  then have "length a = length b" using len by (simp add: unat_of_nat)
  ultimately show ?thesis by simp
qed

lemma store_key_inj:
  assumes "store_key s = Some key" "store_key t = Some key"
  shows "sc_name s = sc_name t \<and> sc_domain s = sc_domain t \<and> sc_path s = sc_path t"
proof -
  have "list_all (\<lambda>x. length x < 2 ^ 16) [sc_name s, sc_domain s, sc_path s]" "list_all (\<lambda>x. length x < 2 ^ 16) [sc_name t, sc_domain t, sc_path t]"
    "concat (map str_field [sc_name s, sc_domain s, sc_path s]) = concat (map str_field [sc_name t, sc_domain t, sc_path t])"
    using assms unfolding store_key_def push_strs_Some by simp_all
  then have len: "length (sc_name s) < 2 ^ 16" "length (sc_name t) < 2 ^ 16" "length (sc_domain s) < 2 ^ 16"
      "length (sc_domain t) < 2 ^ 16" "length (sc_path s) < 2 ^ 16" "length (sc_path t) < 2 ^ 16"
    and e: "str_field (sc_name s) @ str_field (sc_domain s) @ str_field (sc_path s) @ [] =
       str_field (sc_name t) @ str_field (sc_domain t) @ str_field (sc_path t) @ []"
    by simp_all
  note n = str_field_inj [OF len(1,2) e]
  note d = str_field_inj [OF len(3,4) conjunct2 [OF n]]
  note p = str_field_inj [OF len(5,6) conjunct2 [OF d]]
  show ?thesis using n d p by blast
qed

lemma wanted_entries_mem:
  "(key, val) \<in> set (wanted_entries cs now now_unix) \<longleftrightarrow>
     (\<exists>c \<in> set cs. \<exists>sc. from_cookie c now now_unix = Some sc \<and> store_key sc = Some key \<and> cookie_encode sc = Some val)"
  by (induction cs) (auto split: option.splits)

lemma from_cookie_id: "from_cookie c now now_unix = Some sc \<Longrightarrow> (sc_name sc, sc_domain sc, sc_path sc) = cookie_id c"
  using from_cookie_stored [of c now now_unix sc] by (metis cookie_id_def stored_as_def stored_cookie.select_convs(1,3,5))

lemma same_key_same_cookie:
  assumes "distinct (map cookie_id cs)" "c \<in> set cs" "d \<in> set cs"
    "from_cookie c now now_unix = Some sc" "store_key sc = Some key" "from_cookie d now now_unix = Some sd" "store_key sd = Some key"
  shows "c = d"
proof -
  have "cookie_id c = cookie_id d"
    using store_key_inj [OF assms(5,7)] from_cookie_id [OF assms(4)] from_cookie_id [OF assms(6)] by simp
  then show ?thesis using assms(1-3) by (auto simp: distinct_map inj_on_def)
qed

lemma wanted_entries_distinct: "distinct (map cookie_id cs) \<Longrightarrow> distinct (map fst (wanted_entries cs now now_unix))"
proof (induction cs)
  case (Cons c cs)
  have "key \<notin> fst ` set (wanted_entries cs now now_unix)"
    if "from_cookie c now now_unix = Some sc" "store_key sc = Some key" for sc key
  proof
    assume "key \<in> fst ` set (wanted_entries cs now now_unix)"
    then obtain d sd where d: "d \<in> set cs" "from_cookie d now now_unix = Some sd" "store_key sd = Some key"
      by (auto simp: wanted_entries_mem)
    then have "c = d" using same_key_same_cookie [OF Cons.prems, of c d] that by auto
    then show False using Cons.prems d(1) by auto
  qed
  then show ?case using Cons by (auto split: option.splits)
qed simp

lemma wanted_entries_all:
  "\<forall>c \<in> set cs. \<exists>sc key val. from_cookie c now now_unix = Some sc \<and> store_key sc = Some key \<and> cookie_encode sc = Some val
   \<Longrightarrow> length (wanted_entries cs now now_unix) = length cs"
  by (induction cs) (auto split: option.splits)

lemma wanted_lookup:
  assumes "distinct (map cookie_id cs)" "key \<in> fst ` set (wanted_entries cs now now_unix)"
  shows "\<exists>c sc val. c \<in> set cs \<and> from_cookie c now now_unix = Some sc \<and> store_key sc = Some key
    \<and> cookie_encode sc = Some val \<and> map_of (rev (wanted_entries cs now now_unix)) key = Some val"
proof -
  from assms(2) obtain val where m: "(key, val) \<in> set (wanted_entries cs now now_unix)" by auto
  have "distinct (map fst (rev (wanted_entries cs now now_unix)))"
    using wanted_entries_distinct [OF assms(1)] by (simp flip: rev_map)
  then have "map_of (rev (wanted_entries cs now now_unix)) key = Some val" using m by (intro map_of_is_SomeI) auto
  then show ?thesis using m by (auto simp: wanted_entries_mem)
qed

section \<open>The whole trip\<close>

text \<open>The cookies a jar may hold under a key, as the parser accepted them.\<close>

definition accepted :: "public_suffix_list \<Rightarrow> partition_key \<Rightarrow> cookie \<Rightarrow> bool" where
  "accepted l k c \<longleftrightarrow> (\<exists>t header. utf8_valid header \<and> cookie_parse l t (key_origin k) header = Inr c)"

text \<open>The cookie can be written down and its header is one the parser takes.\<close>

definition storable :: "cookie \<Rightarrow> nat \<Rightarrow> u64 \<Rightarrow> u64 \<Rightarrow> bool" where
  "storable c now now_unix later \<longleftrightarrow>
     (\<exists>sc h key val. from_cookie c now now_unix = Some sc \<and> store_key sc = Some key \<and> cookie_encode sc = Some val
        \<and> to_set_cookie sc later = Some h \<and> length h \<le> MAX_COOKIE_BYTES
        \<and> (\<forall>at. sc_expires_unix sc = Some at \<longrightarrow> unat at - unat later < 2 ^ 63))"

definition plain_origin :: "origin \<Rightarrow> bool" where
  "plain_origin o' \<longleftrightarrow> origin_wf o' \<and> list_all (\<lambda>b. \<not> ascii_ws b) (host o')"

definition restored :: "cookie \<Rightarrow> nat \<Rightarrow> u64 \<Rightarrow> u64 \<Rightarrow> nat \<Rightarrow> cookie" where
  "restored c now now_unix later now' =
     c\<lparr>c_expires_at := cookie_expiry now' (map_option (\<lambda>at. int (unat at - unat later))
        (do { sc \<leftarrow> from_cookie c now now_unix; sc_expires_unix sc }))\<rparr>"

lemma restored_id [simp]: "cookie_id (restored c now now_unix later now') = cookie_id c"
  by (simp add: restored_def cookie_id_def)

lemma accepted_restored:
  assumes "accepted l k c" "plain_origin (key_origin k)" "from_cookie c now now_unix = Some sc"
    "to_set_cookie sc later = Some h" "length h \<le> MAX_COOKIE_BYTES"
    "\<And>at. sc_expires_unix sc = Some at \<Longrightarrow> unat at - unat later < 2 ^ 63"
  shows "cookie_parse l now' (key_origin k) h = Inr (restored c now now_unix later now')"
proof -
  from assms(1) obtain t header where acc: "utf8_valid header" "cookie_parse l t (key_origin k) header = Inr c"
    by (auto simp: accepted_def)
  have o: "origin_wf (key_origin k)" "list_all (\<lambda>b. \<not> ascii_ws b) (host (key_origin k))"
    using assms(2) by (simp_all add: plain_origin_def)
  then have "utf8_valid (host (key_origin k))" by (simp add: origin_wf_def utf8_ascii)
  note ct = cookie_parse_text [OF acc(2,1) this]
  have ok: "cookie_ok l (key_origin k) c" by (rule cookie_parse_ok [OF acc(2)])
  have dom: "trimmed (c_domain c)" if "\<not> c_host_only c"
    using that ct(1) by (intro accepted_domain_trimmed [OF ok o]) (simp add: cookie_text_def domain_text_def)
  have sc: "sc = stored_as c (sc_expires_unix sc)" by (rule from_cookie_stored [OF assms(3)])
  have "cookie_parse l now' (key_origin k) h = Inr (c\<lparr>c_expires_at := cookie_expiry now'
      (map_option (\<lambda>at. int (unat at - unat later)) (sc_expires_unix sc))\<rparr>)"
    by (rule header_parses [OF ct(1) ok dom _ assms(5,6)]) (use assms(4) sc in auto)
  then show ?thesis using assms(3) by (simp add: restored_def)
qed

lemma accepted_loads:
  assumes "accepted l k c" "plain_origin (key_origin k)" "storable c now now_unix later"
    "from_cookie c now now_unix = Some sc" "cookie_encode sc = Some val" "store_get s k Cookies key = Some val"
  shows "loads_as s l k later now' key (restored c now now_unix later now')"
proof -
  from assms(3,4) obtain h where h: "to_set_cookie sc later = Some h" "length h \<le> MAX_COOKIE_BYTES"
      "\<And>at. sc_expires_unix sc = Some at \<Longrightarrow> unat at - unat later < 2 ^ 63"
    by (auto simp: storable_def)
  from assms(1) obtain t header where acc: "utf8_valid header" "cookie_parse l t (key_origin k) header = Inr c"
    by (auto simp: accepted_def)
  have o: "origin_wf (key_origin k)" using assms(2) by (simp add: plain_origin_def)
  then have "utf8_valid (host (key_origin k))" by (simp add: origin_wf_def utf8_ascii)
  note strings = cookie_parse_text(2) [OF acc(2,1) this]
  have sc: "sc = stored_as c (sc_expires_unix sc)" by (rule from_cookie_stored [OF assms(4)])
  then have "list_all utf8_valid (stored_strings sc)"
    using strings by (cases sc) (simp add: stored_strings_def stored_as_def cookie_strings_def)
  from cookie_decode_encode [OF assms(5) this] have dec: "(do { v \<leftarrow> store_get s k Cookies key; cookie_decode v }) = Some sc"
    using assms(6) by simp
  have "matches_host c (host (key_origin k))" using cookie_parse_ok [OF acc(2)] by (simp add: cookie_ok_def)
  then have "c_host_only c \<Longrightarrow> c_domain c = host (key_origin k)"
    using o by (auto simp: matches_host_def origin_wf_def Let_def split: if_splits)
  then have "sc_host_only sc \<longrightarrow> sc_domain sc = host (key_origin k)"
    by (subst (1 2) sc) (simp add: stored_as_def)
  then show ?thesis unfolding loads_as_def using dec h(1) accepted_restored [OF assms(1,2,4) h] by blast
qed

text \<open>The cookie \<open>x\<close> that loading the store's key at a given time yields comes from one of the saved cookies.\<close>

definition loaded_from :: "cookie list \<Rightarrow> nat \<Rightarrow> u64 \<Rightarrow> u64 \<Rightarrow> nat \<Rightarrow> bytes \<Rightarrow> cookie \<Rightarrow> bool" where
  "loaded_from cs now now_unix later now' key x \<longleftrightarrow>
     (\<exists>c \<in> set cs. \<exists>sc. from_cookie c now now_unix = Some sc \<and> store_key sc = Some key \<and> x = restored c now now_unix later now')"

lemma loaded_from_id:
  assumes "loaded_from cs now now_unix later t key x" "loaded_from cs now now_unix later t' key' y" "cookie_id x = cookie_id y"
  shows "key = key'"
proof -
  obtain c sc d sd where "from_cookie c now now_unix = Some sc" "store_key sc = Some key" "cookie_id x = cookie_id c"
      "from_cookie d now now_unix = Some sd" "store_key sd = Some key'" "cookie_id y = cookie_id d"
    using assms(1,2) by (auto simp: loaded_from_def)
  moreover from this have "sc_name sc = sc_name sd" "sc_domain sc = sc_domain sd" "sc_path sc = sc_path sd"
    using from_cookie_id [of c now now_unix sc] from_cookie_id [of d now now_unix sd] assms(3) by (metis prod.inject)+
  then have "store_key sc = store_key sd" by (simp add: store_key_def)
  ultimately show ?thesis by simp
qed

lemma loaded_from_unique:
  assumes "distinct (map cookie_id cs)" "c \<in> set cs" "from_cookie c now now_unix = Some sc" "store_key sc = Some key"
    "loaded_from cs now now_unix later t key x"
  shows "x = restored c now now_unix later t"
  using assms(5) same_key_same_cookie [OF assms(1,2) _ assms(3,4)] by (auto simp: loaded_from_def)

lemma wanted_loads:
  assumes cs: "\<forall>c \<in> set cs. accepted l k c \<and> storable c now now_unix later" "distinct (map cookie_id cs)"
    and o: "plain_origin (key_origin k)"
    and get: "\<And>j. store_get s k Cookies j = map_of (rev (wanted_entries cs now now_unix)) j"
    and key: "key \<in> fst ` set (wanted_entries cs now now_unix)"
  shows "\<exists>x. loads_as s l k later t key x \<and> loaded_from cs now now_unix later t key x"
proof -
  from wanted_lookup [OF cs(2) key] obtain c sc val where c: "c \<in> set cs" "from_cookie c now now_unix = Some sc"
    "store_key sc = Some key" "cookie_encode sc = Some val" "store_get s k Cookies key = Some val" unfolding get by blast
  then have "loads_as s l k later t key (restored c now now_unix later t)"
    using cs(1) by (intro accepted_loads [OF _ o _ c(2,4,5)]) auto
  then show ?thesis using c(1-3) by (auto simp: loaded_from_def)
qed

text \<open>
  A store whose cookie namespace holds exactly the wanted entries of a jar's cookies loads
  all of them, in the order of the store's keys.
\<close>

lemma wanted_load:
  assumes cs: "\<forall>c \<in> set cs. accepted l k c \<and> storable c now now_unix later" "distinct (map cookie_id cs)" "length cs \<le> MAX_PER_KEY"
    and o: "plain_origin (key_origin k)"
    and get: "\<And>j. store_get s k Cookies j = map_of (rev (wanted_entries cs now now_unix)) j"
    and ks: "set (store_keys s k Cookies) = fst ` set (wanted_entries cs now now_unix)" "distinct (store_keys s k Cookies)"
  shows "\<exists>j. cookies_load s l k later True clock jar_new =
       (j, \<lparr>lr_loaded = length cs, lr_expired = 0, lr_skipped_session = 0, lr_rejected = 0\<rparr>)
     \<and> length (stored j k) = length cs \<and> (\<forall>c \<in> set cs. \<exists>i. restored c now now_unix later (clock i) \<in> set (stored j k))"
proof -
  let ?w = "wanted_entries cs now now_unix" and ?ks = "store_keys s k Cookies"
  let ?from = "loaded_from cs now now_unix later"
  have "length ?w = length cs" by (rule wanted_entries_all) (use cs(1) in \<open>auto simp: storable_def\<close>)
  then have len: "length ?ks = length cs" using ks wanted_entries_distinct [OF cs(2)] by (metis distinct_card length_map list.set_map)
  have "\<exists>x. loads_as s l k later (clock i) (?ks ! i) x \<and> ?from (clock i) (?ks ! i) x" if "i < length ?ks" for i
    by (rule wanted_loads [OF cs(1,2) o get]) (use that ks(1) in auto)
  then have "\<forall>i < length ?ks. \<exists>x. loads_as s l k later (clock i) (?ks ! i) x \<and> ?from (clock i) (?ks ! i) x" by simp
  from this [unfolded Skolem_list_nth] obtain xs where xs: "length xs = length ?ks"
      "\<forall>i < length ?ks. loads_as s l k later (clock i) (?ks ! i) (xs ! i) \<and> ?from (clock i) (?ks ! i) (xs ! i)"
    by (elim exE conjE)
  have empty: "stored jar_new k = []" by (simp add: stored_def jar_new_def)
  have "?ks ! i = ?ks ! m" if "i < length ?ks" "m < length ?ks" "cookie_id (xs ! i) = cookie_id (xs ! m)" for i m
    by (rule loaded_from_id [of cs now now_unix later "clock i" _ "xs ! i" "clock m" _ "xs ! m"]) (use xs(2) that in simp_all)
  then have "i = m" if "i < length xs" "m < length xs" "cookie_id (xs ! i) = cookie_id (xs ! m)" for i m
    using that xs(1) nth_eq_iff_index_eq [OF ks(2)] by simp
  then have dist: "distinct (map cookie_id (stored jar_new k @ xs))"
    by (auto simp: empty distinct_conv_nth)
  have all: "\<forall>m < length ?ks. loads_as s l k later (clock (0 + m)) (?ks ! m) (xs ! m)" using xs(2) by simp
  obtain j where j: "cookies_load s l k later True clock jar_new =
      (j, \<lparr>lr_loaded = length cs, lr_expired = 0, lr_skipped_session = 0, lr_rejected = 0\<rparr>)" "stored j k = xs"
    using load_keys_ok [OF all xs(1) dist, of "\<lparr>lr_loaded = 0, lr_expired = 0, lr_skipped_session = 0, lr_rejected = 0\<rparr>"]
      cs(3) by (simp add: len empty cookies_load_def) blast
  have "\<exists>i. restored c now now_unix later (clock i) \<in> set xs" if c: "c \<in> set cs" for c
  proof -
    obtain sc key val where k: "from_cookie c now now_unix = Some sc" "store_key sc = Some key" "cookie_encode sc = Some val"
      using cs(1) c by (auto simp: storable_def)
    then have "(key, val) \<in> set ?w" using c by (auto simp: wanted_entries_mem)
    then obtain i where i: "i < length ?ks" "?ks ! i = key" using ks(1) by (metis fst_conv image_eqI in_set_conv_nth)
    then have "xs ! i = restored c now now_unix later (clock i)" using xs(2) by (intro loaded_from_unique [OF cs(2) c k(1,2)]) auto
    then show ?thesis using i(1) xs(1) by (metis nth_mem)
  qed
  then show ?thesis using j xs(1) len by auto
qed

end
