(* ===== verification/Store_Cookie_Properties.thy ===== *)
theory Store_Cookie_Properties
  imports Store_Properties Store_Cookie_Load
begin

text \<open>
  The properties of cookie persistence: the binary form, the trip of a jar's cookies
  through the store and a restart, how long a restored cookie lives, and a cookie that the
  trip loses.
\<close>

section \<open>The binary form\<close>

text \<open>
  A byte string decodes to a stored cookie exactly when it is what the encoder writes
  for that cookie and the cookie's four fields are strings: nothing else is accepted, and
  whatever is encoded comes back.
\<close>
lemma stored_cookie_codec:
  "cookie_decode b = Some s \<longleftrightarrow> cookie_encode s = Some b \<and> list_all utf8_valid (stored_strings s)"
  using cookie_decode_encode cookie_encode_decode by blast

section \<open>Across a restart\<close>

text \<open>
  C25. Cookies that fit survive a restart.  Let a jar hold at most fifty different cookies
  that the parser accepted for a key with an ASCII site and a plain origin, each unexpired and
  such that the header rebuilt from it on loading is within the parser's 4096 bytes (a cookie
  near that limit is lost: \<open>full_size_cookie_not_restored\<close>).  If saving them reports success
  and leaves a log that \<^verbatim>\<open>open\<close> accepts by its length, then opening the directory later
  gives a store from which a new jar loads every one of them, counting none as expired,
  skipped or rejected; each has the fields it had, and only its expiry is computed anew.
  What other partitions and namespaces store is unchanged.
\<close>
theorem cookies_survive_restart:
  assumes "\<forall>c \<in> set cs. accepted l k c \<and> storable c now now_unix later"
    and "distinct (map cookie_id cs)" and "length cs \<le> 50" and "plain_origin (key_origin k)"
    and "store_inv s w" and "\<not> poisoned s" and "key_storable k" and "pid_from_key k = Inr pid"
    and "cookies_save k cs now now_unix s w = (Inr n, s', w')"
    and "log_file w' = Some b" and "length b \<le> MAX_LOG_BYTES"
  shows "\<exists>s'' w'' j. store_open (w'\<lparr>faults := []\<rparr>) = (Inr s'', w'')
    \<and> cookies_load s'' l k later True clock jar_new =
        (j, \<lparr>lr_loaded = length cs, lr_expired = 0, lr_skipped_session = 0, lr_rejected = 0\<rparr>)
    \<and> length (stored j k) = length cs
    \<and> (\<forall>c \<in> set cs. \<exists>i. restored c now now_unix later (clock i) \<in> set (stored j k))
    \<and> (\<forall>k' ns key. k' \<noteq> k \<or> ns \<noteq> Cookies \<longrightarrow> store_get s'' k' ns key = store_get s k' ns key)"
proof -
  obtain s'' w'' where o: "store_open (w'\<lparr>faults := []\<rparr>) = (Inr s'', w'')"
    and get: "\<And>k' ns j. store_get s'' k' ns j =
       (if k' = k \<and> ns = Cookies then map_of (rev (wanted_entries cs now now_unix)) j else store_get s k' ns j)"
    and ks: "set (store_keys s'' k Cookies) = fst ` set (wanted_entries cs now now_unix)" "distinct (store_keys s'' k Cookies)"
    by (rule cookies_save_reopen [OF assms(9,5-8,10,11)]) (rule that)
  have "store_get s'' k Cookies j = map_of (rev (wanted_entries cs now now_unix)) j" for j by (simp add: get)
  from wanted_load [OF assms(1,2) _ assms(4) this ks, of clock] assms(3) obtain j where
    "cookies_load s'' l k later True clock jar_new =
        (j, \<lparr>lr_loaded = length cs, lr_expired = 0, lr_skipped_session = 0, lr_rejected = 0\<rparr>)"
    "length (stored j k) = length cs" "\<forall>c \<in> set cs. \<exists>i. restored c now now_unix later (clock i) \<in> set (stored j k)"
    by (auto simp: MAX_PER_KEY_def)
  with o show ?thesis by (auto simp: get)
qed

definition sample_cookie :: cookie where
  "sample_cookie = \<lparr>c_name = lit ''sid'', c_value = lit ''1'', c_domain = [0x61], c_host_only = True, c_path = [SLASH],
     c_secure = True, c_http_only = False, c_same_site = Lax, c_expires_at = None\<rparr>"

lemma sample_cookie_facts:
  "accepted \<lparr>rules = []\<rparr> sample_key sample_cookie" "storable sample_cookie 0 0 9" "plain_origin (key_origin sample_key)"
proof -
  have "utf8_valid (lit ''sid=1; Secure'')" by (rule utf8_ascii) (simp add: is_ascii_def lit_def)
  moreover have "cookie_parse \<lparr>rules = []\<rparr> 0 (key_origin sample_key) (lit ''sid=1; Secure'') = Inr sample_cookie" by code_simp
  ultimately show "accepted \<lparr>rules = []\<rparr> sample_key sample_cookie" by (auto simp: accepted_def)
  let ?s = "stored_as sample_cookie None"
  have "from_cookie sample_cookie 0 0 = Some ?s" by (simp add: from_cookie_def stored_as_def sample_cookie_def)
  moreover have "\<exists>key. store_key ?s = Some key" "\<exists>val. cookie_encode ?s = Some val"
    by (simp_all add: store_key_def push_strs_Some cookie_encode_Some stored_strings_def stored_as_def sample_cookie_def lit_def
        del: push_strs.simps)
  moreover have "\<exists>h. to_set_cookie ?s 9 = Some h \<and> length h \<le> MAX_COOKIE_BYTES"
    by (simp add: to_set_cookie_def stored_as_def sample_cookie_def lit_def MAX_COOKIE_BYTES_def)
  moreover have "sc_expires_unix ?s = None" by (simp add: stored_as_def)
  ultimately show "storable sample_cookie 0 0 9" unfolding storable_def by fastforce
  show "plain_origin (key_origin sample_key)"
    by (simp add: plain_origin_def origin_wf_def sample_key_def is_ascii_def lower_byte_def ascii_ws_def ends_with_def)
qed

theorem cookies_survive_restart_witness:
  "\<exists>s' w' s'' w'' j. cookies_save sample_key [sample_cookie] 0 0 fresh_store (sample_world []) = (Inr 1, s', w')
     \<and> store_open (w'\<lparr>faults := []\<rparr>) = (Inr s'', w'')
     \<and> fst (cookies_load s'' \<lparr>rules = []\<rparr> sample_key 9 True (\<lambda>_. 5) jar_new) = j \<and> stored j sample_key = [sample_cookie]"
proof -
  let ?s = "stored_as sample_cookie None"
  have src: "from_cookie sample_cookie 0 0 = Some ?s" by (simp add: from_cookie_def stored_as_def sample_cookie_def)
  obtain key where key: "store_key ?s = Some key" "length key \<le> MAX_KEY_BYTES"
    by (simp add: store_key_def push_strs_Some stored_as_def sample_cookie_def lit_def format_limits del: push_strs.simps)
  obtain val where val: "cookie_encode ?s = Some val" "length val \<le> MAX_VALUE_BYTES"
    by (simp add: cookie_encode_Some stored_strings_def stored_as_def sample_cookie_def lit_def stored_head_def format_limits)
  obtain b where b: "pid_encode sample_pid = Some b" "length b \<le> MAX_PARTITION_ID_BYTES"
    using sample_key_facts(3) by (rule pid_wfE)
  let ?log = "header_bytes @ frame (op_body (Put (ns_code Cookies) b key val))"
  obtain s' where put: "store_put sample_key Cookies key val fresh_store (sample_world [])
      = (Inr (), s', sample_world []\<lparr>log_file := Some ?log\<rparr>)"
    using put_fresh [OF _ _ sample_key_facts(2) b(1) key(2) val(2), of "sample_world []" Cookies]
    by (simp add: sample_world_def)
  have fresh: "store_keys fresh_store sample_key Cookies = []" "store_get fresh_store sample_key Cookies key = None"
    by (simp_all add: store_keys_def store_get_def fresh_store_def engine_keys_def engine_get_def engine_default_def split: sum.split)
  have run: "cookies_save sample_key [sample_cookie] 0 0 fresh_store (sample_world []) = (Inr 1, s', sample_world []\<lparr>log_file := Some ?log\<rparr>)"
    using put fresh src key(1) val(1) by (simp add: cookies_save_def)
  have len: "length ?log \<le> MAX_LOG_BYTES"
    using b(2) key(2) val(2) by (simp add: MAX_LOG_BYTES_def op_body_def format_limits)
  have all: "\<forall>c \<in> set [sample_cookie]. accepted \<lparr>rules = []\<rparr> sample_key c \<and> storable c 0 0 9"
    using sample_cookie_facts by simp
  from cookies_survive_restart [OF all _ _ sample_cookie_facts(3) fresh_store_inv sample_key_facts(1,2) run, of ?log "\<lambda>_. 5"] len
  obtain s'' w'' j where r: "store_open (sample_world []\<lparr>log_file := Some ?log, faults := []\<rparr>) = (Inr s'', w'')"
    "cookies_load s'' \<lparr>rules = []\<rparr> sample_key 9 True (\<lambda>_. 5) jar_new =
        (j, \<lparr>lr_loaded = 1, lr_expired = 0, lr_skipped_session = 0, lr_rejected = 0\<rparr>)" "length (stored j sample_key) = 1"
    "restored sample_cookie 0 0 9 5 \<in> set (stored j sample_key)" by auto
  have "restored sample_cookie 0 0 9 5 = sample_cookie"
    using src by (simp add: restored_def stored_as_def cookie_expiry_def) (simp add: sample_cookie_def)
  then have "stored j sample_key = [sample_cookie]" using r(3,4) by (auto simp: length_Suc_conv)
  then show ?thesis using run r(1,2) by (intro exI [of _ s'] exI) auto
qed

section \<open>Lifetimes\<close>

lemma cookie_expiry_later:
  "0 < n \<Longrightarrow> now + n * NANOS \<le> INSTANT_MAX \<Longrightarrow> cookie_expiry now (Some (int n)) = Some (now + n * NANOS)"
  by (simp add: cookie_expiry_def NANOS_def)

text \<open>
  A restart does not shorten a cookie's life and lengthens it by less than a second: if
  the cookie is saved at one moment and loaded a whole number of seconds later, before it
  has expired, its new expiry is at most one second after the old one and not before it.
\<close>
lemma restored_lifetime:
  assumes "c_expires_at c = Some t" and "now + secs * NANOS < t" and "t + NANOS \<le> INSTANT_MAX"
    and "unat now_unix + (t - now) div NANOS + 1 \<le> U64_MAX" and "unat later = unat now_unix + secs"
    and "from_cookie c now now_unix = Some sc"
  shows "\<exists>h t'. to_set_cookie sc later = Some h
    \<and> c_expires_at (restored c now now_unix later (now + secs * NANOS)) = Some t' \<and> t \<le> t' \<and> t' < t + NANOS"
proof -
  define r where "r = (t - now) div NANOS + (if (t - now) mod NANOS > 0 then 1 else 0)"
  have up: "t - now \<le> r * NANOS \<and> r * NANOS < t - now + NANOS"
  proof -
    define q m where "q = (t - now) div NANOS" and "m = (t - now) mod NANOS"
    have "t - now = q * NANOS + m" "m < NANOS" by (simp_all add: q_def m_def NANOS_def)
    moreover have "r = q + (if m > 0 then 1 else 0)" by (simp add: r_def q_def m_def)
    ultimately show ?thesis by (simp add: add_mult_distrib)
  qed
  have "r \<le> (t - now) div NANOS + 1" by (simp add: r_def)
  then have sat: "sat_add (unat now_unix) r = unat now_unix + r" using assms(4) by (intro sat_add_exact) simp
  have live: "now < t" using assms(2) by simp
  define e :: u64 where "e = word_of_nat (unat now_unix + r)"
  have at: "sc_expires_unix sc = Some e"
    using assms(1,6) live sat unfolding e_def by (auto simp: from_cookie_def Let_def r_def simp del: of_nat_add split: if_splits)
  have "unat (word_of_nat n :: u64) = n" if "n < 2 ^ 64" for n using that by (simp add: unat_of_nat)
  then have un: "unat e = unat now_unix + r" using assms(4) \<open>r \<le> _\<close> by (simp add: e_def U64_MAX_def del: of_nat_add)
  have "secs * NANOS < r * NANOS" using assms(2) up by linarith
  then have lt: "secs < r" by simp
  then have "later < e" using un assms(5) by (simp add: word_less_nat_alt)
  then have h: "\<exists>h. to_set_cookie sc later = Some h" by (simp add: to_set_cookie_def at Let_def)
  have left: "unat e - unat later = r - secs" using un assms(5) by simp
  have sum: "now + secs * NANOS + (r - secs) * NANOS = now + r * NANOS"
    using lt by (simp add: diff_mult_distrib)
  have "now + r * NANOS \<le> INSTANT_MAX" using up live assms(3) by linarith
  then have "c_expires_at (restored c now now_unix later (now + secs * NANOS)) = Some (now + r * NANOS)"
    using assms(6) at left lt sum cookie_expiry_later [of "r - secs" "now + secs * NANOS"] by (simp add: restored_def del: of_nat_diff)
  then show ?thesis using h up live by auto
qed

section \<open>A cookie the trip loses\<close>

text \<open>
  A cookie whose header uses the whole 4096 bytes is accepted, but the header that is
  rebuilt from it names its path and same-site rule and is longer than the limit, so
  loading refuses it whatever the time: a cookie the jar took is gone after a restart.
\<close>
lemma full_size_cookie_not_restored:
  "\<exists>header c sc. cookie_parse \<lparr>rules = []\<rparr> now (key_origin sample_key) header = Inr c \<and> from_cookie c now now_unix = Some sc
     \<and> (\<forall>later t. \<exists>h. to_set_cookie sc later = Some h \<and> cookie_parse \<lparr>rules = []\<rparr> t (key_origin sample_key) h = Inl TooLarge)"
proof -
  define v :: bytes where "v = replicate 4094 0x78"
  define header :: bytes where "header = 0x61 # EQUALS # v"
  define c where "c = \<lparr>c_name = [0x61], c_value = v, c_domain = [0x61], c_host_only = True, c_path = [SLASH],
     c_secure = False, c_http_only = False, c_same_site = Lax, c_expires_at = None\<rparr>"
  have v: "SEMICOLON \<notin> set v" "v \<noteq> []" "length v = 4094" by (simp_all add: v_def)
  have "trimmed v" by (rule ascii_trimmed) (use v(2) in \<open>simp_all add: v_def is_ascii_def ascii_ws_def last_replicate hd_replicate\<close>)
  then have tv: "trim v = v" by (rule trim_trimmed)
  have tn: "trim [0x61] = [0x61]" by code_simp
  have "str_split SEMICOLON header = [header]" using v(1) by (intro str_split_plain) (simp add: header_def)
  then have "cookie_parse \<lparr>rules = []\<rparr> now (key_origin sample_key) header = Inr c"
    using v(3) tv tn
    by (simp add: cookie_parse_def header_def MAX_COOKIE_BYTES_def attributes_new_def prefix_violation_def cookie_domain_def
        sample_key_def c_def cookie_expiry_def lit_def lower_byte_def Let_def)
  moreover have "from_cookie c now now_unix = Some (stored_as c None)"
    by (simp add: from_cookie_def stored_as_def c_def)
  moreover have "\<exists>h. to_set_cookie (stored_as c None) later = Some h \<and> length h > MAX_COOKIE_BYTES" for later
    using v(3) by (simp add: to_set_cookie_def stored_as_def c_def MAX_COOKIE_BYTES_def lit_def)
  then have "\<exists>h. to_set_cookie (stored_as c None) later = Some h
      \<and> cookie_parse \<lparr>rules = []\<rparr> t (key_origin sample_key) h = Inl TooLarge" for later t
    by (fastforce simp: cookie_parse_def)
  ultimately show ?thesis by blast
qed

end
