(* ===== verification/Dom_Node.thy ===== *)
theory Dom_Node
  imports Pelorus_Prelude
begin

text \<open>
  The payload and the five links of a node, \<^verbatim>\<open>crates/px-dom/src/node.rs\<close>, and the
  prior-state record of \<^verbatim>\<open>crates/px-dom/src/snapshot.rs\<close>.  Names and attributes are
  html5ever's plain data: a qualified name is a prefix, a namespace and a local name
  compared field by field.  Character data is its UTF-8 bytes.
\<close>

section \<open>Handles\<close>

text \<open>
  The generational handle of \<^verbatim>\<open>crates/px-dom/src/handle.rs\<close>: a slot index together
  with the generation of the occupant that is meant, and its packing into one non-zero
  64-bit word.  \<^verbatim>\<open>NonZeroU32\<close> is a word that the arena keeps non-zero.
\<close>

section \<open>Definitions\<close>

datatype node_id = NodeId (index: u32) (generation: u32)

definition to_opaque :: "node_id \<Rightarrow> u64" where
  "to_opaque h =
     (let packed = push_bit 32 (ucast (index h)) OR ucast (generation h)
      in if packed = 0 then 1 else packed)"

definition from_opaque :: "u64 \<Rightarrow> node_id option" where
  "from_opaque packed =
     (let g = ucast (packed AND 0xFFFFFFFF) :: u32
      in if g = 0 then None else Some (NodeId (ucast (drop_bit 32 packed)) g))"

section \<open>Packing loses nothing\<close>

lemma low_half: "ucast ((push_bit 32 (ucast i) OR ucast g :: u64) AND 0xFFFFFFFF) = (g :: u32)"
proof (rule bit_word_eqI)
  fix n assume "n < LENGTH(32)"
  then show "bit (ucast ((push_bit 32 (ucast i) OR ucast g :: u64) AND 0xFFFFFFFF) :: u32) n = bit g n"
    using bit_mask_iff [of 32 n, where ?'a = "64 word"]
    by (auto simp: bit_simps mask_eq_exp_minus_1)
qed

lemma high_half: "ucast (drop_bit 32 (push_bit 32 (ucast i) OR ucast (g :: u32) :: u64)) = (i :: u32)"
proof (rule bit_word_eqI)
  fix n assume "n < LENGTH(32)"
  then show "bit (ucast (drop_bit 32 (push_bit 32 (ucast i) OR ucast g :: u64)) :: u32) n = bit i n"
    using bit_imp_le_length [of g "32 + n"] by (auto simp: bit_simps)
qed

lemma packed_nonzero: "g \<noteq> 0 \<Longrightarrow> (push_bit 32 (ucast (i :: u32)) OR ucast (g :: u32) :: u64) \<noteq> 0"
  using low_half [of i g] by auto

lemma from_to_opaque: "generation h \<noteq> 0 \<Longrightarrow> from_opaque (to_opaque h) = Some h"
  using low_half [of "index h" "generation h"] high_half [of "index h" "generation h"]
    packed_nonzero [of "generation h" "index h"]
  by (simp add: from_opaque_def to_opaque_def Let_def)

lemma repacked:
  "push_bit 32 (ucast (ucast (drop_bit 32 w) :: u32)) OR ucast (ucast (w AND 0xFFFFFFFF) :: u32) = (w :: u64)"
proof (rule bit_word_eqI)
  fix n assume "n < LENGTH(64)"
  then show "bit (push_bit 32 (ucast (ucast (drop_bit 32 w) :: u32)) OR ucast (ucast (w AND 0xFFFFFFFF) :: u32) :: u64) n = bit w n"
    using bit_mask_iff [of 32 n, where ?'a = "64 word"]
    by (auto simp: bit_simps mask_eq_exp_minus_1)
qed

lemma to_from_opaque: "from_opaque w = Some h \<Longrightarrow> to_opaque h = w \<and> generation h \<noteq> 0"
  using repacked [of w] packed_nonzero
  by (auto simp: from_opaque_def to_opaque_def Let_def split: if_splits)

section \<open>Moving a generation on\<close>

text \<open>\<^verbatim>\<open>NonZeroU32::checked_add(1)\<close>: none at the last generation, so it never wraps.\<close>

definition U32_MAX :: u32 where "U32_MAX = 0xFFFFFFFF"

definition gen_next :: "u32 \<Rightarrow> u32 option" where
  "gen_next g = (if g = U32_MAX then None else Some (g + 1))"

lemma unat_U32_MAX: "unat U32_MAX = 2 ^ 32 - 1"
  by (simp add: U32_MAX_def)

lemma gen_next_unat: "gen_next g = Some g' \<Longrightarrow> unat g' = Suc (unat g)"
proof -
  assume "gen_next g = Some g'"
  then have g: "g \<noteq> U32_MAX" "g' = g + 1" by (auto simp: gen_next_def split: if_splits)
  then have "unat g \<noteq> 2 ^ 32 - 1" using unat_U32_MAX by (metis word_unat_eq_iff)
  moreover have "unat g < 2 ^ 32" using unsigned_less [of g] by simp
  ultimately show ?thesis by (simp add: g(2) unat_word_ariths)
qed

lemma gen_next_less: "gen_next g = Some g' \<Longrightarrow> g < g'"
  by (simp add: word_less_nat_alt gen_next_unat)

section \<open>Nodes\<close>

record qual_name =
  qn_prefix :: "string option"
  qn_ns :: string
  qn_local :: string

record attribute =
  attr_name :: qual_name
  attr_value :: bytes

datatype node_data =
    Document
  | Fragment
  | Doctype bytes bytes bytes
  | TextNode bytes
  | Comment bytes
  | Element (el_name: qual_name) (el_attrs: "attribute list") (template_contents: "node_id option")
      (already_started: bool)
  | ProcessingInstruction bytes bytes

record node =
  parent :: "node_id option"
  first_child :: "node_id option"
  last_child :: "node_id option"
  prev_sibling :: "node_id option"
  next_sibling :: "node_id option"
  data :: node_data

definition node_new :: "node_data \<Rightarrow> node" where
  "node_new d = \<lparr>parent = None, first_child = None, last_child = None, prev_sibling = None,
     next_sibling = None, data = d\<rparr>"

definition detach_links :: "node \<Rightarrow> node" where
  "detach_links n = n\<lparr>parent := None, prev_sibling := None, next_sibling := None\<rparr>"

definition element_name :: "node \<Rightarrow> qual_name option" where
  "element_name n = (case data n of Element name _ _ _ \<Rightarrow> Some name | _ \<Rightarrow> None)"

definition node_attrs :: "node \<Rightarrow> attribute list option" where
  "node_attrs n = (case data n of Element _ attrs _ _ \<Rightarrow> Some attrs | _ \<Rightarrow> None)"

definition node_text :: "node \<Rightarrow> bytes option" where
  "node_text n = (case data n of TextNode contents \<Rightarrow> Some contents | _ \<Rightarrow> None)"

definition script_already_started :: "node \<Rightarrow> bool" where
  "script_already_started n = (case data n of Element _ _ _ started \<Rightarrow> started | _ \<Rightarrow> False)"

definition ascii_lower :: "u8 \<Rightarrow> u8" where
  "ascii_lower b = (if 0x41 \<le> b \<and> b \<le> 0x5A then b + 0x20 else b)"

definition eq_ignore_ascii_case :: "bytes \<Rightarrow> bytes \<Rightarrow> bool" where
  "eq_ignore_ascii_case a b \<longleftrightarrow> map ascii_lower a = map ascii_lower b"

definition str_bytes :: "string \<Rightarrow> bytes" where
  "str_bytes s = map (\<lambda>c. word_of_nat (of_char c)) s"

definition NS_MATHML :: string where "NS_MATHML = ''http://www.w3.org/1998/Math/MathML''"

definition is_mathml_annotation_xml_integration_point :: "node \<Rightarrow> bool" where
  "is_mathml_annotation_xml_integration_point n =
     (case data n of
        Element name attrs _ _ \<Rightarrow>
          if qn_ns name \<noteq> NS_MATHML \<or> qn_local name \<noteq> ''annotation-xml'' then False
          else list_ex (\<lambda>attr. qn_local (attr_name attr) = ''encoding''
             \<and> (eq_ignore_ascii_case (attr_value attr) (str_bytes ''text/html'')
                \<or> eq_ignore_ascii_case (attr_value attr) (str_bytes ''application/xhtml+xml''))) attrs
      | _ \<Rightarrow> False)"

section \<open>Prior-state snapshots\<close>

record element_snapshot =
  snap_attrs :: "attribute list"
  class_changed :: bool
  id_changed :: bool
  other_attributes_changed :: bool

definition snapshot_capture :: "attribute list \<Rightarrow> element_snapshot" where
  "snapshot_capture attrs = \<lparr>snap_attrs = attrs, class_changed = False, id_changed = False,
     other_attributes_changed = False\<rparr>"

definition snapshot_attr :: "element_snapshot \<Rightarrow> qual_name \<Rightarrow> bytes option" where
  "snapshot_attr s name = map_option attr_value (find (\<lambda>attr. attr_name attr = name) (snap_attrs s))"

definition note_change :: "qual_name \<Rightarrow> element_snapshot \<Rightarrow> element_snapshot" where
  "note_change name s =
     (if qn_ns name = '''' \<and> qn_local name = ''class'' then s\<lparr>class_changed := True\<rparr>
      else if qn_ns name = '''' \<and> qn_local name = ''id'' then s\<lparr>id_changed := True\<rparr>
      else s\<lparr>other_attributes_changed := True\<rparr>)"

lemma note_change_attrs [simp]: "snap_attrs (note_change name s) = snap_attrs s"
  by (simp add: note_change_def)

end
