(* ===== verification/Dom_Slots.thy ===== *)
theory Dom_Slots
  imports Dom_Node
begin

text \<open>
  The chunked slot storage of \<^verbatim>\<open>crates/px-dom/src/arena.rs\<close>: slots live in boxed
  chunks of 1024 so that their addresses never move.  The locale \<open>slot_vector\<close> is
  what the arena relies on: the storage reads, writes and grows like one flat vector.
\<close>

section \<open>The interface\<close>

definition nth_opt :: "'a list \<Rightarrow> nat \<Rightarrow> 'a option" where
  "nth_opt xs i = (if i < length xs then Some (xs ! i) else None)"

lemma nth_opt_simps [simp]:
  "nth_opt [] i = None"
  "i < length xs \<Longrightarrow> nth_opt xs i = Some (xs ! i)"
  "length xs \<le> i \<Longrightarrow> nth_opt xs i = None"
  by (auto simp: nth_opt_def)

lemma nth_opt_Some: "nth_opt xs i = Some x \<longleftrightarrow> i < length xs \<and> xs ! i = x"
  by (auto simp: nth_opt_def)

lemma nth_opt_update:
  "nth_opt (xs[j := x]) i = (if i = j \<and> j < length xs then Some x else nth_opt xs i)"
  by (auto simp: nth_opt_def)

lemma nth_opt_snoc: "nth_opt (xs @ [x]) i = (if i = length xs then Some x else nth_opt xs i)"
  by (auto simp: nth_opt_def nth_append)

locale slot_vector =
  fixes invar :: "'s \<Rightarrow> bool"
    and view :: "'s \<Rightarrow> 'a list"
    and size_of :: "'s \<Rightarrow> nat"
    and fetch :: "'s \<Rightarrow> nat \<Rightarrow> 'a option"
    and store :: "'s \<Rightarrow> nat \<Rightarrow> 'a \<Rightarrow> 's"
    and grow :: "'s \<Rightarrow> 'a \<Rightarrow> 's"
  assumes size_view: "invar s \<Longrightarrow> size_of s = length (view s)"
    and fetch_view: "invar s \<Longrightarrow> fetch s i = nth_opt (view s) i"
    and store_invar: "invar s \<Longrightarrow> invar (store s i x)"
    and store_view: "invar s \<Longrightarrow> view (store s i x) = (view s)[i := x]"
    and grow_invar: "invar s \<Longrightarrow> invar (grow s x)"
    and grow_view: "invar s \<Longrightarrow> view (grow s x) = view s @ [x]"
begin

lemma fetch_store:
  "invar s \<Longrightarrow> fetch (store s i x) j = (if j = i \<and> i < size_of s then Some x else fetch s j)"
  by (simp add: fetch_view store_view store_invar size_view nth_opt_update)

lemma fetch_grow: "invar s \<Longrightarrow> fetch (grow s x) j = (if j = size_of s then Some x else fetch s j)"
  by (simp add: fetch_view grow_view grow_invar size_view nth_opt_snoc)

lemma size_store: "invar s \<Longrightarrow> size_of (store s i x) = size_of s"
  by (simp add: size_view store_invar store_view)

lemma size_grow: "invar s \<Longrightarrow> size_of (grow s x) = Suc (size_of s)"
  by (simp add: size_view grow_invar grow_view)

lemma fetch_in: "invar s \<Longrightarrow> fetch s i \<noteq> None \<longleftrightarrow> i < size_of s"
  by (auto simp: fetch_view size_view nth_opt_def)

end

section \<open>Chunked storage\<close>

record slot =
  slot_gen :: u32
  slot_node :: "node option"

definition CHUNK_SLOTS :: nat where "CHUNK_SLOTS = 1024"

record slots =
  chunks :: "slot list list"
  slots_len :: nat

definition slots_new :: slots where
  "slots_new = \<lparr>chunks = [], slots_len = 0\<rparr>"

definition slots_get :: "slots \<Rightarrow> nat \<Rightarrow> slot option" where
  "slots_get s i =
     (if i \<ge> slots_len s then None
      else do { c \<leftarrow> nth_opt (chunks s) (i div CHUNK_SLOTS); nth_opt c (i mod CHUNK_SLOTS) })"

text \<open>Writing through the reference that \<^verbatim>\<open>get_mut\<close> returns.\<close>

definition slots_set :: "slots \<Rightarrow> nat \<Rightarrow> slot \<Rightarrow> slots" where
  "slots_set s i x =
     (if i \<ge> slots_len s then s
      else s\<lparr>chunks := (chunks s)[i div CHUNK_SLOTS := (chunks s ! (i div CHUNK_SLOTS))[i mod CHUNK_SLOTS := x]]\<rparr>)"

definition slots_push :: "slots \<Rightarrow> slot \<Rightarrow> slots" where
  "slots_push s x =
     (let s1 = (if slots_len s mod CHUNK_SLOTS = 0
                then s\<lparr>chunks := chunks s @ [replicate CHUNK_SLOTS \<lparr>slot_gen = 1, slot_node = None\<rparr>]\<rparr>
                else s);
          i = slots_len s1
      in slots_set (s1\<lparr>slots_len := i + 1\<rparr>) i x)"

definition slots_iter :: "slots \<Rightarrow> slot list" where
  "slots_iter s = take (slots_len s) (concat (chunks s))"

definition slots_ok :: "slots \<Rightarrow> bool" where
  "slots_ok s \<longleftrightarrow> (\<forall>c \<in> set (chunks s). length c = CHUNK_SLOTS)
     \<and> slots_len s \<le> CHUNK_SLOTS * length (chunks s)
     \<and> CHUNK_SLOTS * length (chunks s) < slots_len s + CHUNK_SLOTS"

section \<open>The chunks are one vector\<close>

lemma length_concat_chunks:
  "\<forall>c \<in> set cs. length c = k \<Longrightarrow> length (concat cs) = k * length cs"
  by (induction cs) auto

lemma concat_chunks_nth:
  assumes "\<forall>c \<in> set cs. length c = k" and "0 < k" and "i < k * length cs"
  shows "concat cs ! i = cs ! (i div k) ! (i mod k)"
  using assms
proof (induction cs arbitrary: i)
  case (Cons c cs)
  show ?case
  proof (cases "i < k")
    case True
    with Cons.prems show ?thesis by (simp add: nth_append)
  next
    case False
    then obtain j where j: "i = k + j" by (metis add_diff_inverse_nat)
    with Cons.prems have "j < k * length cs" by simp
    with Cons j show ?thesis by (simp add: nth_append div_add_self1)
  qed
qed simp

lemma concat_chunks_update:
  assumes "\<forall>c \<in> set cs. length c = k" and "0 < k" and "i < k * length cs"
  shows "concat (cs[i div k := (cs ! (i div k))[i mod k := x]]) = (concat cs)[i := x]"
  using assms
proof (induction cs arbitrary: i)
  case (Cons c cs)
  show ?case
  proof (cases "i < k")
    case True
    with Cons.prems show ?thesis by (simp add: list_update_append)
  next
    case False
    then obtain j where j: "i = k + j" by (metis add_diff_inverse_nat)
    with Cons.prems have "j < k * length cs" by simp
    with Cons j show ?thesis by (simp add: list_update_append div_add_self1)
  qed
qed simp

lemma chunk_pos [simp]: "0 < CHUNK_SLOTS"
  by (simp add: CHUNK_SLOTS_def)

lemma div_chunk_less: "i < CHUNK_SLOTS * n \<Longrightarrow> i div CHUNK_SLOTS < n"
  by (simp add: less_mult_imp_div_less mult.commute)

lemma slots_ok_new: "slots_ok slots_new"
  by (simp add: slots_ok_def slots_new_def)

lemma slots_ok_length: "slots_ok s \<Longrightarrow> length (concat (chunks s)) = CHUNK_SLOTS * length (chunks s)"
  by (simp add: slots_ok_def length_concat_chunks)

lemma slots_set_ok: "slots_ok s \<Longrightarrow> slots_ok (slots_set s i x)"
  using div_chunk_less [of i "length (chunks s)"]
  by (auto simp: slots_ok_def slots_set_def dest!: set_update_subset_insert [THEN subsetD])

lemma slots_set_iter:
  assumes "slots_ok s"
  shows "slots_iter (slots_set s i x) = (slots_iter s)[i := x]"
proof (cases "i < slots_len s")
  case True
  with assms have "concat (chunks (slots_set s i x)) = (concat (chunks s))[i := x]"
    by (simp add: slots_set_def concat_chunks_update slots_ok_def)
  with True show ?thesis by (simp add: slots_iter_def slots_set_def take_update_swap)
next
  case False
  then show ?thesis by (simp add: slots_set_def slots_iter_def list_update_beyond)
qed

lemma slots_push_room:
  assumes "slots_ok s"
  defines "s1 \<equiv> (if slots_len s mod CHUNK_SLOTS = 0
       then s\<lparr>chunks := chunks s @ [replicate CHUNK_SLOTS \<lparr>slot_gen = 1, slot_node = None\<rparr>]\<rparr> else s)"
  shows "slots_ok (s1\<lparr>slots_len := slots_len s + 1\<rparr>)" and "slots_len s1 = slots_len s"
    and "\<exists>y. slots_iter (s1\<lparr>slots_len := slots_len s + 1\<rparr>) = slots_iter s @ [y]"
proof -
  let ?n = "slots_len s" and ?c = "length (chunks s)"
  have b: "?n \<le> CHUNK_SLOTS * ?c" "CHUNK_SLOTS * ?c < ?n + CHUNK_SLOTS"
    and l: "\<forall>c \<in> set (chunks s). length c = CHUNK_SLOTS"
    using assms(1) by (auto simp: slots_ok_def)
  have full: "?n = CHUNK_SLOTS * ?c" if "?n mod CHUNK_SLOTS = 0"
  proof -
    from that obtain q where q: "?n = CHUNK_SLOTS * q" by auto
    with b have "CHUNK_SLOTS * q \<le> CHUNK_SLOTS * ?c" "CHUNK_SLOTS * ?c < CHUNK_SLOTS * Suc q" by simp_all
    then have "q = ?c" using chunk_pos by (simp only: mult_le_cancel1 mult_less_cancel1) simp
    then show ?thesis using q by simp
  qed
  have part: "?n < CHUNK_SLOTS * ?c" if "?n mod CHUNK_SLOTS \<noteq> 0"
    using b(1) that by (metis le_neq_implies_less mod_mult_self1_is_0)
  show ok: "slots_ok (s1\<lparr>slots_len := ?n + 1\<rparr>)"
    using b l full part by (auto simp: slots_ok_def s1_def)
  show "slots_len s1 = ?n" by (simp add: s1_def)
  have pre: "take ?n (concat (chunks s1)) = slots_iter s"
    using b(1) slots_ok_length [OF assms(1)] by (simp add: s1_def slots_iter_def)
  have "?n < length (concat (chunks s1))"
    using slots_ok_length [OF ok] ok by (simp add: slots_ok_def)
  then show "\<exists>y. slots_iter (s1\<lparr>slots_len := ?n + 1\<rparr>) = slots_iter s @ [y]"
    using pre by (simp add: slots_iter_def take_Suc_conv_app_nth)
qed

lemma slots_push_ok: "slots_ok s \<Longrightarrow> slots_ok (slots_push s x)"
  using slots_push_room(1,2) [of s] by (simp add: slots_push_def Let_def slots_set_ok)

lemma length_slots_iter: "slots_ok s \<Longrightarrow> length (slots_iter s) = slots_len s"
  using slots_ok_length [of s] by (simp add: slots_iter_def slots_ok_def)

lemma slots_push_iter:
  assumes "slots_ok s"
  shows "slots_iter (slots_push s x) = slots_iter s @ [x]"
  using slots_push_room [OF assms] length_slots_iter [OF assms] list_update_length [of "slots_iter s"]
  by (auto simp: slots_push_def Let_def slots_set_iter)

interpretation slot_store: slot_vector slots_ok slots_iter slots_len slots_get slots_set slots_push
proof
  fix s :: slots and i x
  assume s: "slots_ok s"
  show "slots_len s = length (slots_iter s)" by (simp add: length_slots_iter [OF s])
  show "slots_get s i = nth_opt (slots_iter s) i"
  proof (cases "i < slots_len s")
    case True
    with s have i: "i < CHUNK_SLOTS * length (chunks s)" by (simp add: slots_ok_def)
    from s have "chunks s ! (i div CHUNK_SLOTS) \<in> set (chunks s)" using div_chunk_less [OF i] by simp
    with s have "length (chunks s ! (i div CHUNK_SLOTS)) = CHUNK_SLOTS" by (simp add: slots_ok_def)
    with True s i show ?thesis
      using div_chunk_less [OF i] length_slots_iter [OF s]
        concat_chunks_nth [of "chunks s" CHUNK_SLOTS i]
      by (simp add: slots_get_def slots_iter_def slots_ok_def nth_opt_def)
  qed (simp add: slots_get_def length_slots_iter [OF s] nth_opt_def)
  show "slots_ok (slots_set s i x)" by (rule slots_set_ok [OF s])
  show "slots_iter (slots_set s i x) = (slots_iter s)[i := x]" by (rule slots_set_iter [OF s])
  show "slots_ok (slots_push s x)" by (rule slots_push_ok [OF s])
  show "slots_iter (slots_push s x) = slots_iter s @ [x]" by (rule slots_push_iter [OF s])
qed

end
