(* ===== verification/Dom_Arena.thy ===== *)
theory Dom_Arena
  imports Dom_Slots
begin

text \<open>
  The arena of \<^verbatim>\<open>crates/px-dom/src/arena.rs\<close>: its state, allocation and freeing of
  slots, resolution of handles, the read-only walks of \<^verbatim>\<open>iter.rs\<close> and
  \<^verbatim>\<open>range.rs\<close>, and the checks made before an insertion.  A fallible operation is a
  function from an arena to an error or a result and the arena it leaves behind, since an
  operation that fails half-way keeps what it has already changed.  Vectors that are used
  as stacks have their top at the head of the list.
\<close>

section \<open>State\<close>

definition MAX_DEPTH :: nat where "MAX_DEPTH = 512"

datatype tree_error = NoSuchNode | WouldCycle | TooDeep | Exhausted | CannotHaveChildren | Immovable

record boundary_point =
  bp_node :: node_id
  bp_offset :: nat

record range =
  rg_start :: boundary_point
  rg_end :: boundary_point

datatype range_id = RangeId (ri_index: u32) (ri_generation: u32)

record range_slot =
  rs_gen :: u32
  rs_range :: "range option"

record arena =
  ar_slots :: slots
  free :: "u32 list"
  live :: nat
  retired :: nat
  document :: node_id
  ranges :: "range_slot list"
  free_ranges :: "u32 list"
  snapshots :: "(node_id \<times> element_snapshot) list"
  recording_snapshots :: bool

type_synonym 'a tm = "arena \<Rightarrow> (tree_error + 'a) \<times> arena"

definition treturn :: "'a \<Rightarrow> 'a tm" where
  "treturn x a = (Inr x, a)"

definition tbind :: "'a tm \<Rightarrow> ('a \<Rightarrow> 'b tm) \<Rightarrow> 'b tm" where
  "tbind m f a = (case m a of (Inl e, a') \<Rightarrow> (Inl e, a') | (Inr x, a') \<Rightarrow> f x a')"

section \<open>Resolution\<close>

definition arena_get :: "arena \<Rightarrow> node_id \<Rightarrow> node option" where
  "arena_get a h = do {
     s \<leftarrow> slots_get (ar_slots a) (unat (index h));
     if slot_gen s \<noteq> generation h then None else slot_node s }"

definition contains :: "arena \<Rightarrow> node_id \<Rightarrow> bool" where
  "contains a h \<longleftrightarrow> arena_get a h \<noteq> None"

definition slot_count :: "arena \<Rightarrow> nat" where
  "slot_count a = slots_len (ar_slots a)"

definition read_node :: "node_id \<Rightarrow> node tm" where
  "read_node h a = (case arena_get a h of None \<Rightarrow> (Inl NoSuchNode, a) | Some n \<Rightarrow> (Inr n, a))"

text \<open>\<^verbatim>\<open>get_mut\<close> followed by an assignment through the reference.\<close>

definition modify_node :: "node_id \<Rightarrow> (node \<Rightarrow> node) \<Rightarrow> unit tm" where
  "modify_node h f a =
     (case arena_get a h of
        None \<Rightarrow> (Inl NoSuchNode, a)
      | Some n \<Rightarrow> (Inr (), a\<lparr>ar_slots := slots_set (ar_slots a) (unat (index h))
                               \<lparr>slot_gen = generation h, slot_node = Some (f n)\<rparr>\<rparr>))"

section \<open>Allocation\<close>

definition create :: "node_data \<Rightarrow> node_id tm" where
  "create d a =
     (case free a of
        i # rest \<Rightarrow>
          (let a1 = a\<lparr>free := rest\<rparr>
           in case slots_get (ar_slots a1) (unat i) of
                None \<Rightarrow> (Inl Exhausted, a1)
              | Some s \<Rightarrow>
                  (Inr (NodeId i (slot_gen s)),
                   a1\<lparr>ar_slots := slots_set (ar_slots a1) (unat i) (s\<lparr>slot_node := Some (node_new d)\<rparr>),
                      live := live a1 + 1\<rparr>))
      | [] \<Rightarrow>
          (case try_from_u32 (slots_len (ar_slots a)) of
             None \<Rightarrow> (Inl Exhausted, a)
           | Some i \<Rightarrow>
               if i = U32_MAX then (Inl Exhausted, a)
               else (Inr (NodeId i 1),
                     a\<lparr>ar_slots := slots_push (ar_slots a) \<lparr>slot_gen = 1, slot_node = Some (node_new d)\<rparr>,
                        live := live a + 1\<rparr>)))"

definition arena_empty :: arena where
  "arena_empty = \<lparr>ar_slots = slots_new, free = [], live = 0, retired = 0, document = NodeId 0 1,
     ranges = [], free_ranges = [], snapshots = [], recording_snapshots = False\<rparr>"

definition arena_new :: arena where
  "arena_new = (case create Document arena_empty of
      (Inr h, a) \<Rightarrow> a\<lparr>document := h\<rparr>
    | (Inl _, a) \<Rightarrow> a)"

definition free_slot :: "node_id \<Rightarrow> arena \<Rightarrow> bool \<times> arena" where
  "free_slot h a =
     (case slots_get (ar_slots a) (unat (index h)) of
        None \<Rightarrow> (False, a)
      | Some s \<Rightarrow>
          if slot_gen s \<noteq> generation h \<or> slot_node s = None then (False, a)
          else (case gen_next (slot_gen s) of
            Some g \<Rightarrow> (True, a\<lparr>ar_slots := slots_set (ar_slots a) (unat (index h)) \<lparr>slot_gen = g, slot_node = None\<rparr>,
                               live := live a - 1, free := index h # free a\<rparr>)
          | None \<Rightarrow> (True, a\<lparr>ar_slots := slots_set (ar_slots a) (unat (index h)) (s\<lparr>slot_node := None\<rparr>),
                              live := live a - 1, retired := retired a + 1\<rparr>)))"

section \<open>Walks\<close>

function depth_loop :: "arena \<Rightarrow> nat \<Rightarrow> node_id option \<Rightarrow> tree_error + nat" where
  "depth_loop a d None = Inr d"
| "depth_loop a d (Some c) =
     (if d + 1 > MAX_DEPTH then Inl TooDeep
      else case arena_get a c of
        None \<Rightarrow> Inl NoSuchNode
      | Some n \<Rightarrow> depth_loop a (d + 1) (parent n))"
  by pat_completeness auto
termination by (relation "measure (\<lambda>(a, d, c). Suc MAX_DEPTH - d)") auto

definition depth :: "arena \<Rightarrow> node_id \<Rightarrow> tree_error + nat" where
  "depth a h = (case arena_get a h of None \<Rightarrow> Inl NoSuchNode | Some n \<Rightarrow> depth_loop a 0 (parent n))"

function children_loop :: "arena \<Rightarrow> node_id list \<Rightarrow> node_id option \<Rightarrow> node_id list option" where
  "children_loop a acc None = Some acc"
| "children_loop a acc (Some c) =
     (case arena_get a c of
        None \<Rightarrow> None
      | Some n \<Rightarrow>
          if length (acc @ [c]) > slot_count a then None
          else children_loop a (acc @ [c]) (next_sibling n))"
  by pat_completeness auto
termination by (relation "measure (\<lambda>(a, acc, c). Suc (slot_count a) - length acc)") auto

definition children :: "arena \<Rightarrow> node_id \<Rightarrow> node_id list option" where
  "children a h = do { n \<leftarrow> arena_get a h; children_loop a [] (first_child n) }"

fun child_iter :: "arena \<Rightarrow> nat \<Rightarrow> node_id option \<Rightarrow> node_id list" where
  "child_iter a 0 _ = []"
| "child_iter a (Suc b) None = []"
| "child_iter a (Suc b) (Some c) = c # child_iter a b (do { n \<leftarrow> arena_get a c; next_sibling n })"

definition child_ids :: "arena \<Rightarrow> node_id \<Rightarrow> node_id list" where
  "child_ids a h = child_iter a (slot_count a) (do { n \<leftarrow> arena_get a h; first_child n })"

fun ancestor_iter :: "arena \<Rightarrow> nat \<Rightarrow> node_id option \<Rightarrow> node_id list" where
  "ancestor_iter a 0 _ = []"
| "ancestor_iter a (Suc b) None = []"
| "ancestor_iter a (Suc b) (Some c) = c # ancestor_iter a b (do { n \<leftarrow> arena_get a c; parent n })"

definition ancestors :: "arena \<Rightarrow> node_id \<Rightarrow> node_id list" where
  "ancestors a h = ancestor_iter a (MAX_DEPTH + 1) (do { n \<leftarrow> arena_get a h; parent n })"

function desc_kids :: "arena \<Rightarrow> nat \<Rightarrow> node_id list \<Rightarrow> node_id option \<Rightarrow> node_id list" where
  "desc_kids a b acc None = acc"
| "desc_kids a b acc (Some c) =
     (if length (acc @ [c]) > b then acc @ [c]
      else desc_kids a b (acc @ [c]) (do { n \<leftarrow> arena_get a c; next_sibling n }))"
  by pat_completeness auto
termination by (relation "measure (\<lambda>(a, b, acc, c). Suc b - length acc)") auto

fun desc_iter :: "arena \<Rightarrow> nat \<Rightarrow> node_id list \<Rightarrow> node_id list" where
  "desc_iter a 0 st = []"
| "desc_iter a (Suc b) [] = []"
| "desc_iter a (Suc b) (c # st) =
     (case arena_get a c of
        None \<Rightarrow> desc_iter a b st
      | Some n \<Rightarrow> c # desc_iter a b (desc_kids a b [] (first_child n) @ st))"

definition descendants :: "arena \<Rightarrow> node_id \<Rightarrow> node_id list" where
  "descendants a root = desc_iter a (slot_count a) (if contains a root then [root] else [])"

fun pos_of :: "'a \<Rightarrow> 'a list \<Rightarrow> nat option" where
  "pos_of x [] = None"
| "pos_of x (y # ys) = (if y = x then Some 0 else map_option Suc (pos_of x ys))"

definition index_of :: "arena \<Rightarrow> node_id \<Rightarrow> nat option" where
  "index_of a c = do { n \<leftarrow> arena_get a c; p \<leftarrow> parent n; pos_of c (child_ids a p) }"

definition is_inclusive_ancestor :: "arena \<Rightarrow> node_id \<Rightarrow> node_id \<Rightarrow> bool" where
  "is_inclusive_ancestor a anc desc =
     (if anc = desc then contains a anc else anc \<in> set (ancestors a desc))"

definition node_length :: "arena \<Rightarrow> node_id \<Rightarrow> nat option" where
  "node_length a h = do {
     n \<leftarrow> arena_get a h;
     Some (case data n of
        TextNode contents \<Rightarrow> length contents
      | Comment contents \<Rightarrow> length contents
      | ProcessingInstruction _ contents \<Rightarrow> length contents
      | _ \<Rightarrow> length (child_ids a h)) }"

section \<open>Checks before an insertion\<close>

function height_push :: "arena \<Rightarrow> nat \<Rightarrow> nat \<Rightarrow> node_id option \<Rightarrow> (node_id \<times> nat) list
    \<Rightarrow> tree_error + (node_id \<times> nat) list" where
  "height_push a lim rel None st = Inr st"
| "height_push a lim rel (Some c) st =
     (case arena_get a c of
        None \<Rightarrow> Inl NoSuchNode
      | Some n \<Rightarrow>
          if length ((c, rel + 1) # st) > lim then Inl TooDeep
          else height_push a lim rel (next_sibling n) ((c, rel + 1) # st))"
  by pat_completeness auto
termination by (relation "measure (\<lambda>(a, lim, rel, c, st). Suc lim - length st)") auto

fun height_loop :: "arena \<Rightarrow> nat \<Rightarrow> nat \<Rightarrow> nat \<Rightarrow> (node_id \<times> nat) list \<Rightarrow> tree_error + nat" where
  "height_loop a lim b height [] = Inr height"
| "height_loop a lim 0 height (x # st) = Inl TooDeep"
| "height_loop a lim (Suc b) height ((c, rel) # st) =
     (let height = max height rel
      in if rel > MAX_DEPTH then Inl TooDeep
         else case arena_get a c of
           None \<Rightarrow> Inl NoSuchNode
         | Some n \<Rightarrow>
             (case height_push a lim rel (first_child n) st of
                Inl e \<Rightarrow> Inl e
              | Inr st' \<Rightarrow> height_loop a lim b height st'))"

definition subtree_height :: "arena \<Rightarrow> node_id \<Rightarrow> tree_error + nat" where
  "subtree_height a h = height_loop a (slot_count a + 1) (slot_count a + 1) 0 [(h, 0)]"

function insert_walk :: "arena \<Rightarrow> node_id \<Rightarrow> nat \<Rightarrow> node_id option \<Rightarrow> tree_error + nat" where
  "insert_walk a child d None = Inr d"
| "insert_walk a child d (Some c) =
     (if c = child then Inl WouldCycle
      else if d + 1 > MAX_DEPTH then Inl TooDeep
      else case arena_get a c of
        None \<Rightarrow> Inl NoSuchNode
      | Some n \<Rightarrow> insert_walk a child (d + 1) (parent n))"
  by pat_completeness auto
termination by (relation "measure (\<lambda>(a, child, d, c). Suc MAX_DEPTH - d)") auto

definition can_have_children :: "node_data \<Rightarrow> bool" where
  "can_have_children d = (case d of Document \<Rightarrow> True | Fragment \<Rightarrow> True | Element _ _ _ _ \<Rightarrow> True | _ \<Rightarrow> False)"

definition check_insertable :: "node_id \<Rightarrow> node_id \<Rightarrow> unit tm" where
  "check_insertable p c a =
     (if \<not> contains a p \<or> \<not> contains a c then (Inl NoSuchNode, a)
      else if p = c then (Inl WouldCycle, a)
      else if c = document a then (Inl Immovable, a)
      else if \<not> (case arena_get a p of None \<Rightarrow> False | Some n \<Rightarrow> can_have_children (data n))
      then (Inl CannotHaveChildren, a)
      else case insert_walk a c 0 (Some p) of
        Inl e \<Rightarrow> (Inl e, a)
      | Inr resulting_depth \<Rightarrow>
          (case subtree_height a c of
             Inl e \<Rightarrow> (Inl e, a)
           | Inr height \<Rightarrow>
               if resulting_depth + height > MAX_DEPTH then (Inl TooDeep, a) else (Inr (), a)))"

end
