(* ===== verification/Dom_Tree.thy ===== *)
theory Dom_Tree
  imports Dom_Arena
begin

text \<open>
  The structural mutations of \<^verbatim>\<open>crates/px-dom/src/arena.rs\<close>, with the rules that keep
  live ranges in place, and the attribute mutations with their prior-state snapshots.
\<close>

section \<open>Live ranges under mutation\<close>

definition shift_insert :: "node_id \<Rightarrow> nat \<Rightarrow> boundary_point \<Rightarrow> boundary_point" where
  "shift_insert p i b =
     (if bp_node b = p \<and> bp_offset b > i then \<lparr>bp_node = p, bp_offset = bp_offset b + 1\<rparr> else b)"

definition ranges_after_insert :: "node_id \<Rightarrow> nat \<Rightarrow> arena \<Rightarrow> arena" where
  "ranges_after_insert p i a =
     a\<lparr>ranges := map (\<lambda>s. s\<lparr>rs_range := map_option
        (\<lambda>r. \<lparr>rg_start = shift_insert p i (rg_start r), rg_end = shift_insert p i (rg_end r)\<rparr>)
        (rs_range s)\<rparr>) (ranges a)\<rparr>"

definition shift_remove :: "node_id \<Rightarrow> nat \<Rightarrow> bool \<Rightarrow> boundary_point \<Rightarrow> boundary_point" where
  "shift_remove p i inside b =
     (if inside then \<lparr>bp_node = p, bp_offset = i\<rparr>
      else if bp_node b = p \<and> bp_offset b > i then \<lparr>bp_node = p, bp_offset = bp_offset b - 1\<rparr>
      else b)"

definition ranges_before_remove :: "node_id \<Rightarrow> arena \<Rightarrow> arena" where
  "ranges_before_remove h a =
     (if ranges a = [] then a
      else case do { n \<leftarrow> arena_get a h; parent n } of
        None \<Rightarrow> a
      | Some p \<Rightarrow>
          (case index_of a h of
             None \<Rightarrow> a
           | Some i \<Rightarrow>
               a\<lparr>ranges := map (\<lambda>s. s\<lparr>rs_range := map_option
                  (\<lambda>r. \<lparr>rg_start = shift_remove p i (is_inclusive_ancestor a h (bp_node (rg_start r))) (rg_start r),
                        rg_end = shift_remove p i (is_inclusive_ancestor a h (bp_node (rg_end r))) (rg_end r)\<rparr>)
                  (rs_range s)\<rparr>) (ranges a)\<rparr>))"

section \<open>Structure\<close>

definition detach :: "node_id \<Rightarrow> unit tm" where
  "detach h = tbind (read_node h) (\<lambda>n.
     case parent n of
       None \<Rightarrow> treturn ()
     | Some p \<Rightarrow>
         tbind (\<lambda>a. (Inr (), ranges_before_remove h a)) (\<lambda>_.
         tbind (case prev_sibling n of
                  Some q \<Rightarrow> modify_node q (next_sibling_update (\<lambda>_. next_sibling n))
                | None \<Rightarrow> modify_node p (first_child_update (\<lambda>_. next_sibling n))) (\<lambda>_.
         tbind (case next_sibling n of
                  Some q \<Rightarrow> modify_node q (prev_sibling_update (\<lambda>_. prev_sibling n))
                | None \<Rightarrow> modify_node p (last_child_update (\<lambda>_. prev_sibling n))) (\<lambda>_.
         modify_node h detach_links))))"

definition append_child :: "node_id \<Rightarrow> node_id \<Rightarrow> unit tm" where
  "append_child p c =
     tbind (check_insertable p c) (\<lambda>_.
     tbind (detach c) (\<lambda>_.
     tbind (read_node p) (\<lambda>pn.
     let last = last_child pn in
     tbind (modify_node c (\<lambda>n. n\<lparr>parent := Some p, prev_sibling := last, next_sibling := None\<rparr>)) (\<lambda>_.
     tbind (case last of
              Some q \<Rightarrow> modify_node q (next_sibling_update (\<lambda>_. Some c))
            | None \<Rightarrow> modify_node p (first_child_update (\<lambda>_. Some c))) (\<lambda>_.
     modify_node p (last_child_update (\<lambda>_. Some c)))))))"

definition insert_before :: "node_id \<Rightarrow> node_id \<Rightarrow> unit tm" where
  "insert_before sibling c =
     tbind (read_node sibling) (\<lambda>sn.
     case parent sn of
       None \<Rightarrow> (\<lambda>a. (Inl NoSuchNode, a))
     | Some p \<Rightarrow>
         tbind (check_insertable p c) (\<lambda>_.
         tbind (detach c) (\<lambda>_.
         tbind (read_node sibling) (\<lambda>sn'.
         let previous = prev_sibling sn' in
         tbind (modify_node c (\<lambda>n. n\<lparr>parent := Some p, prev_sibling := previous, next_sibling := Some sibling\<rparr>)) (\<lambda>_.
         tbind (modify_node sibling (prev_sibling_update (\<lambda>_. Some c))) (\<lambda>_.
         tbind (case previous of
                  Some q \<Rightarrow> modify_node q (next_sibling_update (\<lambda>_. Some c))
                | None \<Rightarrow> modify_node p (first_child_update (\<lambda>_. Some c))) (\<lambda>_.
         (\<lambda>a. (Inr (), case index_of a c of None \<Rightarrow> a | Some i \<Rightarrow> ranges_after_insert p i a)))))))))"

fun append_all :: "node_id \<Rightarrow> node_id list \<Rightarrow> unit tm" where
  "append_all p [] = treturn ()"
| "append_all p (c # cs) = tbind (append_child p c) (\<lambda>_. append_all p cs)"

definition reparent_children :: "node_id \<Rightarrow> node_id \<Rightarrow> unit tm" where
  "reparent_children from to a =
     (case children a from of
        None \<Rightarrow> (Inl NoSuchNode, a)
      | Some cs \<Rightarrow> append_all to cs a)"

section \<open>Removal\<close>

definition template_of :: "arena \<Rightarrow> node_id \<Rightarrow> node_id option" where
  "template_of a h = do { n \<leftarrow> arena_get a h;
     case data n of Element _ _ contents _ \<Rightarrow> contents | _ \<Rightarrow> None }"

text \<open>Every round that frees a slot leaves one occupied slot less, so the loop ends.\<close>

definition occupied :: "slots \<Rightarrow> nat" where
  "occupied s = sum_list (map (\<lambda>c. length (filter (\<lambda>x. slot_node x \<noteq> None) c)) (chunks s))"

lemma length_filter_update:
  assumes "i < length xs" and "P (xs ! i)" and "\<not> P y"
  shows "length (filter P (xs[i := y])) < length (filter P xs)"
  using assms by (induction xs arbitrary: i) (auto split: nat.split)

lemma sum_list_update_less:
  fixes f :: "'a \<Rightarrow> nat"
  assumes "i < length xs" and "f y < f (xs ! i)"
  shows "sum_list (map f (xs[i := y])) < sum_list (map f xs)"
  using assms by (induction xs arbitrary: i) (auto split: nat.split)

lemma occupied_free:
  assumes "slots_get s i = Some x" and "slot_node x \<noteq> None" and "slot_node y = None"
  shows "occupied (slots_set s i y) < occupied s"
proof -
  from assms(1) have i: "i < slots_len s" "i div CHUNK_SLOTS < length (chunks s)"
    "i mod CHUNK_SLOTS < length (chunks s ! (i div CHUNK_SLOTS))"
    "chunks s ! (i div CHUNK_SLOTS) ! (i mod CHUNK_SLOTS) = x"
    by (auto simp: slots_get_def nth_opt_Some bind_eq_Some_conv split: if_splits)
  then show ?thesis
    using assms(2,3) by (simp add: occupied_def slots_set_def sum_list_update_less length_filter_update)
qed

lemma free_slot_occupied: "arena_get a h \<noteq> None \<Longrightarrow> occupied (ar_slots (snd (free_slot h a))) < occupied (ar_slots a)"
  by (auto simp: arena_get_def free_slot_def bind_eq_Some_conv occupied_free split: if_splits option.splits)

function remove_loop :: "node_id list \<Rightarrow> nat \<Rightarrow> arena \<Rightarrow> nat \<times> arena" where
  "remove_loop [] freed a = (freed, a)"
| "remove_loop (c # st) freed a =
     (case children a c of
        None \<Rightarrow> remove_loop st freed a
      | Some kids \<Rightarrow>
          (let st1 = rev kids @ st;
               st2 = (case template_of a c of Some t \<Rightarrow> t # st1 | None \<Rightarrow> st1);
               (was_live, a1) = free_slot c a
           in remove_loop st2 (if was_live then freed + 1 else freed) a1))"
  by pat_completeness auto
termination
proof (relation "inv_image (less_than <*lex*> less_than) (\<lambda>(st, freed, a). (occupied (ar_slots a), length st))", goal_cases)
  case (3 c st freed a kids st1 st2 p was_live a1)
  then have "arena_get a c \<noteq> None" by (auto simp: children_def bind_eq_Some_conv)
  with free_slot_occupied [of a c] 3(4,5) show ?case by (cases "free_slot c a") auto
qed auto

definition drop_range :: "range_id \<Rightarrow> arena \<Rightarrow> bool \<times> arena" where
  "drop_range h a =
     (case nth_opt (ranges a) (unat (ri_index h)) of
        None \<Rightarrow> (False, a)
      | Some s \<Rightarrow>
          if rs_gen s \<noteq> ri_generation h \<or> rs_range s = None then (False, a)
          else (case gen_next (rs_gen s) of
            Some g \<Rightarrow> (True, a\<lparr>ranges := (ranges a)[unat (ri_index h) := \<lparr>rs_gen = g, rs_range = None\<rparr>],
                               free_ranges := ri_index h # free_ranges a\<rparr>)
          | None \<Rightarrow> (True, a\<lparr>ranges := (ranges a)[unat (ri_index h) := s\<lparr>rs_range := None\<rparr>]\<rparr>)))"

definition dangling_ranges :: "arena \<Rightarrow> range_id list" where
  "dangling_ranges a =
     List.map_filter (\<lambda>(i, s). case rs_range s of
         None \<Rightarrow> None
       | Some r \<Rightarrow>
           if contains a (bp_node (rg_start r)) \<and> contains a (bp_node (rg_end r)) then None
           else map_option (\<lambda>i. RangeId i (rs_gen s)) (try_from_u32 i))
       (enumerate 0 (ranges a))"

definition drop_dangling :: "arena \<Rightarrow> arena" where
  "drop_dangling a = foldl (\<lambda>a h. snd (drop_range h a)) a (dangling_ranges a)"

definition remove_subtree :: "node_id \<Rightarrow> nat tm" where
  "remove_subtree h a =
     (if \<not> contains a h then (Inl NoSuchNode, a)
      else if h = document a then (Inl Immovable, a)
      else tbind (detach h) (\<lambda>_ a1.
        let (freed, a2) = remove_loop [h] 0 a1
        in (Inr freed, if ranges a2 = [] then a2 else drop_dangling a2)) a)"

section \<open>Copying\<close>

fun clone_loop :: "nat \<Rightarrow> (node_id \<times> node_id) list \<Rightarrow> unit tm" where
  "clone_loop b [] = treturn ()"
| "clone_loop 0 (x # st) = (\<lambda>a. (Inl TooDeep, a))"
| "clone_loop (Suc b) ((source, dest) # st) =
     tbind (read_node source) (\<lambda>n.
     tbind (create (data n)) (\<lambda>copy.
     tbind (append_child dest copy) (\<lambda>_.
     (\<lambda>a. case children a source of
            None \<Rightarrow> (Inl NoSuchNode, a)
          | Some kids \<Rightarrow> clone_loop b (map (\<lambda>k. (k, copy)) kids @ st) a))))"

definition clone_subtree :: "node_id \<Rightarrow> node_id tm" where
  "clone_subtree h =
     tbind (read_node h) (\<lambda>n.
     tbind (create (data n)) (\<lambda>root a.
       case children a h of
         None \<Rightarrow> (Inl NoSuchNode, a)
       | Some kids \<Rightarrow>
           tbind (clone_loop (slot_count a + 1) (map (\<lambda>k. (k, root)) kids)) (\<lambda>_. treturn root) a))"

section \<open>Attributes and snapshots\<close>

definition snapshot_of :: "arena \<Rightarrow> node_id \<Rightarrow> element_snapshot option" where
  "snapshot_of a h = map_option snd (find (\<lambda>x. fst x = h) (snapshots a))"

fun note_first :: "node_id \<Rightarrow> qual_name \<Rightarrow> (node_id \<times> element_snapshot) list
    \<Rightarrow> (node_id \<times> element_snapshot) list option" where
  "note_first h name [] = None"
| "note_first h name ((k, s) # xs) =
     (if k = h then Some ((k, note_change name s) # xs)
      else map_option (Cons (k, s)) (note_first h name xs))"

definition snapshot_attribute_change :: "node_id \<Rightarrow> qual_name \<Rightarrow> arena \<Rightarrow> arena" where
  "snapshot_attribute_change h name a =
     (if \<not> recording_snapshots a then a
      else case note_first h name (snapshots a) of
        Some xs \<Rightarrow> a\<lparr>snapshots := xs\<rparr>
      | None \<Rightarrow>
          (case do { n \<leftarrow> arena_get a h; node_attrs n } of
             None \<Rightarrow> a
           | Some attrs \<Rightarrow>
               a\<lparr>snapshots := snapshots a @ [(h, note_change name (snapshot_capture attrs))]\<rparr>))"

fun attrs_set :: "qual_name \<Rightarrow> bytes \<Rightarrow> attribute list \<Rightarrow> attribute list" where
  "attrs_set name val [] = [\<lparr>attr_name = name, attr_value = val\<rparr>]"
| "attrs_set name val (x # xs) =
     (if attr_name x = name then x\<lparr>attr_value := val\<rparr> # xs else x # attrs_set name val xs)"

definition set_attribute :: "node_id \<Rightarrow> qual_name \<Rightarrow> bytes \<Rightarrow> unit tm" where
  "set_attribute h name val a =
     (let a1 = snapshot_attribute_change h name a
      in case arena_get a1 h of
           None \<Rightarrow> (Inl NoSuchNode, a1)
         | Some n \<Rightarrow>
             (case data n of
                Element q attrs t s \<Rightarrow>
                  modify_node h (data_update (\<lambda>_. Element q (attrs_set name val attrs) t s)) a1
              | _ \<Rightarrow> (Inl NoSuchNode, a1)))"

definition remove_attribute :: "node_id \<Rightarrow> qual_name \<Rightarrow> bool tm" where
  "remove_attribute h name a =
     (let a1 = snapshot_attribute_change h name a
      in case arena_get a1 h of
           None \<Rightarrow> (Inl NoSuchNode, a1)
         | Some n \<Rightarrow>
             (case data n of
                Element q attrs t s \<Rightarrow>
                  (let kept = filter (\<lambda>x. attr_name x \<noteq> name) attrs
                   in tbind (modify_node h (data_update (\<lambda>_. Element q kept t s)))
                        (\<lambda>_. treturn (length kept \<noteq> length attrs)) a1)
              | _ \<Rightarrow> (Inl NoSuchNode, a1)))"

fun set_missing :: "node_id \<Rightarrow> qual_name list \<Rightarrow> attribute list \<Rightarrow> unit tm" where
  "set_missing h present [] = treturn ()"
| "set_missing h present (x # xs) =
     (if attr_name x \<in> set present then set_missing h present xs
      else tbind (set_attribute h (attr_name x) (attr_value x)) (\<lambda>_. set_missing h present xs))"

definition add_attributes_if_missing :: "node_id \<Rightarrow> attribute list \<Rightarrow> unit tm" where
  "add_attributes_if_missing h incoming a =
     (let present = (case do { n \<leftarrow> arena_get a h; node_attrs n } of
                       None \<Rightarrow> [] | Some attrs \<Rightarrow> map attr_name attrs)
      in set_missing h present incoming a)"

definition record_snapshots :: "bool \<Rightarrow> arena \<Rightarrow> arena" where
  "record_snapshots on a = a\<lparr>recording_snapshots := on\<rparr>"

definition take_snapshots :: "arena \<Rightarrow> (node_id \<times> element_snapshot) list \<times> arena" where
  "take_snapshots a = (snapshots a, a\<lparr>snapshots := []\<rparr>)"

end
