(* ===== verification/Dom_Alloc.thy ===== *)
theory Dom_Alloc
  imports Dom_Tree
begin

text \<open>
  Allocation discipline of the arena.  \<open>alloc_ok\<close> is the bookkeeping invariant,
  \<open>spent\<close> says a handle was issued and its occupant is gone, and \<open>alloc_le\<close> that
  a later arena has forgotten nothing of this: spent handles stay spent, live handles are
  live or spent.  Every operation moves the arena along \<open>alloc_le\<close>.
\<close>

section \<open>The invariant\<close>

definition slot_live :: "slot \<Rightarrow> bool" where
  "slot_live s \<longleftrightarrow> slot_node s \<noteq> None"

definition live_slots :: "arena \<Rightarrow> nat" where
  "live_slots a = length (filter slot_live (slots_iter (ar_slots a)))"

definition alloc_ok :: "arena \<Rightarrow> bool" where
  "alloc_ok a \<longleftrightarrow> slots_ok (ar_slots a) \<and> slot_count a < 2 ^ 32
     \<and> (\<forall>i s. slots_get (ar_slots a) i = Some s \<longrightarrow> slot_gen s \<noteq> 0)
     \<and> distinct (free a)
     \<and> (\<forall>i \<in> set (free a). \<exists>s. slots_get (ar_slots a) (unat i) = Some s \<and> slot_node s = None)
     \<and> live a = live_slots a \<and> live a + length (free a) + retired a = slot_count a"

definition spent :: "arena \<Rightarrow> node_id \<Rightarrow> bool" where
  "spent a h \<longleftrightarrow> (\<exists>s. slots_get (ar_slots a) (unat (index h)) = Some s \<and>
     (generation h < slot_gen s
      \<or> generation h = slot_gen s \<and> slot_node s = None \<and> slot_gen s = U32_MAX \<and> index h \<notin> set (free a)))"

definition alloc_le :: "arena \<Rightarrow> arena \<Rightarrow> bool" where
  "alloc_le a a' \<longleftrightarrow> (\<forall>h. spent a h \<longrightarrow> spent a' h) \<and> (\<forall>h. contains a h \<longrightarrow> contains a' h \<or> spent a' h)
     \<and> slot_count a \<le> slot_count a'"

lemma spent_not_contains: "spent a h \<Longrightarrow> \<not> contains a h"
  by (auto simp: spent_def contains_def arena_get_def)

lemma alloc_le_refl [simp]: "alloc_le a a"
  by (simp add: alloc_le_def)

lemma alloc_le_trans: "alloc_le a b \<Longrightarrow> alloc_le b c \<Longrightarrow> alloc_le a c"
  unfolding alloc_le_def by (meson order_trans)

lemma arena_get_Some:
  "arena_get a h = Some n \<longleftrightarrow>
     (\<exists>s. slots_get (ar_slots a) (unat (index h)) = Some s \<and> slot_gen s = generation h \<and> slot_node s = Some n)"
  by (auto simp: arena_get_def bind_eq_Some_conv)

lemma alloc_ok_fields:
  "alloc_ok a \<Longrightarrow> slots_ok (ar_slots a)" "alloc_ok a \<Longrightarrow> slot_count a < 2 ^ 32"
  by (simp_all add: alloc_ok_def)

section \<open>Updates that keep the slots\<close>

text \<open>What the allocator looks at is the same.\<close>

definition same_alloc :: "arena \<Rightarrow> arena \<Rightarrow> bool" where
  "same_alloc a a' \<longleftrightarrow> slots_ok (ar_slots a') \<and> slot_count a' = slot_count a
     \<and> map (\<lambda>s. (slot_gen s, slot_live s)) (slots_iter (ar_slots a'))
       = map (\<lambda>s. (slot_gen s, slot_live s)) (slots_iter (ar_slots a))
     \<and> free a' = free a \<and> live a' = live a \<and> retired a' = retired a"

lemma same_alloc_refl [simp]: "slots_ok (ar_slots a) \<Longrightarrow> same_alloc a a"
  by (simp add: same_alloc_def)

lemma same_alloc_get:
  assumes "slots_ok (ar_slots a)" and "same_alloc a a'"
  shows "map_option (\<lambda>s. (slot_gen s, slot_live s)) (slots_get (ar_slots a') i)
       = map_option (\<lambda>s. (slot_gen s, slot_live s)) (slots_get (ar_slots a) i)"
proof -
  let ?f = "\<lambda>s. (slot_gen s, slot_live s)"
  have m: "map_option ?f (nth_opt xs i) = nth_opt (map ?f xs) i" for xs by (simp add: nth_opt_def)
  from assms have "slots_ok (ar_slots a')"
    and e: "map ?f (slots_iter (ar_slots a')) = map ?f (slots_iter (ar_slots a))"
    by (simp_all add: same_alloc_def)
  with assms(1) show ?thesis by (simp only: slot_store.fetch_view m e)
qed

lemma same_alloc_live: "same_alloc a a' \<Longrightarrow> live_slots a' = live_slots a"
proof -
  assume "same_alloc a a'"
  then have "length (filter snd (map (\<lambda>s. (slot_gen s, slot_live s)) (slots_iter (ar_slots a'))))
     = length (filter snd (map (\<lambda>s. (slot_gen s, slot_live s)) (slots_iter (ar_slots a))))"
    by (simp add: same_alloc_def)
  then show ?thesis by (simp add: live_slots_def filter_map comp_def)
qed

lemma same_alloc_spent:
  assumes "alloc_ok a" and "same_alloc a a'"
  shows "spent a' h \<longleftrightarrow> spent a h" and "contains a' h \<longleftrightarrow> contains a h"
proof -
  note g = same_alloc_get [OF alloc_ok_fields(1) [OF assms(1)] assms(2), of "unat (index h)"]
  have f: "free a' = free a" using assms(2) by (simp add: same_alloc_def)
  show "spent a' h \<longleftrightarrow> spent a h"
    using g f by (cases "slots_get (ar_slots a) (unat (index h))";
        cases "slots_get (ar_slots a') (unat (index h))") (auto simp: spent_def slot_live_def)
  show "contains a' h \<longleftrightarrow> contains a h"
    using g by (cases "slots_get (ar_slots a) (unat (index h))";
        cases "slots_get (ar_slots a') (unat (index h))") (auto simp: contains_def arena_get_def slot_live_def)
qed

lemma same_alloc_ok:
  assumes "alloc_ok a" and "same_alloc a a'"
  shows "alloc_ok a'"
proof -
  note g = same_alloc_get [OF alloc_ok_fields(1) [OF assms(1)] assms(2)]
  have "slot_gen s' \<noteq> 0" if "slots_get (ar_slots a') i = Some s'" for i s'
    using g [of i] that assms(1) by (cases "slots_get (ar_slots a) i") (auto simp: alloc_ok_def)
  moreover have "\<exists>s. slots_get (ar_slots a') (unat i) = Some s \<and> slot_node s = None" if "i \<in> set (free a)" for i
    using g [of "unat i"] that assms(1)
    by (cases "slots_get (ar_slots a') (unat i)") (auto simp: alloc_ok_def slot_live_def)
  ultimately show ?thesis
    using assms same_alloc_live [OF assms(2)] by (auto simp: alloc_ok_def same_alloc_def)
qed

lemma same_alloc_le: "alloc_ok a \<Longrightarrow> same_alloc a a' \<Longrightarrow> alloc_le a a'"
  using same_alloc_spent by (auto simp: alloc_le_def same_alloc_def)

section \<open>Programs that respect the allocator\<close>

definition keeps :: "'a tm \<Rightarrow> bool" where
  "keeps m \<longleftrightarrow> (\<forall>a. alloc_ok a \<longrightarrow> alloc_ok (snd (m a)) \<and> alloc_le a (snd (m a)) \<and> document (snd (m a)) = document a)"

lemma keepsI:
  "(\<And>a. alloc_ok a \<Longrightarrow> alloc_ok (snd (m a)) \<and> alloc_le a (snd (m a)) \<and> document (snd (m a)) = document a) \<Longrightarrow> keeps m"
  by (simp add: keeps_def)

lemma keeps_same:
  assumes "\<And>a. slots_ok (ar_slots a) \<Longrightarrow> same_alloc a (snd (m a)) \<and> document (snd (m a)) = document a"
  shows "keeps m"
  using assms same_alloc_ok same_alloc_le alloc_ok_fields(1) by (intro keepsI) blast

lemma keeps_tbind [intro]: "keeps m \<Longrightarrow> (\<And>x. keeps (f x)) \<Longrightarrow> keeps (tbind m f)"
  unfolding keeps_def tbind_def
  by (auto split: prod.split sum.split) (metis alloc_le_trans snd_conv)+

lemma keeps_return [simp, intro]: "keeps (treturn x)" "keeps (\<lambda>a. (r, a))"
  by (simp_all add: keeps_def treturn_def)

lemma keeps_read [simp, intro]: "keeps (read_node h)"
  by (simp add: keeps_def read_node_def split: option.split)

lemma keeps_check [simp, intro]: "keeps (check_insertable p c)"
  by (simp add: keeps_def check_insertable_def split: option.split sum.split)

lemma same_alloc_set:
  fixes a :: arena
  assumes "slots_ok (ar_slots a)" and "slots_get (ar_slots a) i = Some s"
    and "slot_gen s' = slot_gen s" and "slot_live s' = slot_live s"
  shows "same_alloc a (a\<lparr>ar_slots := slots_set (ar_slots a) i s'\<rparr>)"
proof -
  from assms(1,2) have i: "i < length (slots_iter (ar_slots a))" "slots_iter (ar_slots a) ! i = s"
    by (simp_all add: slot_store.fetch_view nth_opt_Some)
  then have "map (\<lambda>s. (slot_gen s, slot_live s)) ((slots_iter (ar_slots a))[i := s'])
     = map (\<lambda>s. (slot_gen s, slot_live s)) (slots_iter (ar_slots a))"
    using assms(3,4) by (simp add: map_update list_update_same_conv)
  with assms(1) show ?thesis
    by (simp add: same_alloc_def slot_store.store_view slot_store.store_invar slot_store.size_store slot_count_def)
qed

lemma keeps_modify [simp, intro]: "keeps (modify_node h f)"
proof (rule keeps_same)
  fix a :: arena assume ok: "slots_ok (ar_slots a)"
  show "same_alloc a (snd (modify_node h f a)) \<and> document (snd (modify_node h f a)) = document a"
  proof (cases "arena_get a h")
    case None
    with ok show ?thesis by (simp add: modify_node_def)
  next
    case (Some n)
    then obtain s where "slots_get (ar_slots a) (unat (index h)) = Some s" "slot_gen s = generation h"
      "slot_node s = Some n" by (auto simp: arena_get_Some)
    with ok Some show ?thesis
      by (simp add: modify_node_def same_alloc_set slot_live_def)
  qed
qed

lemma same_alloc_ranges:
  "slots_ok (ar_slots a) \<Longrightarrow> same_alloc a (ranges_before_remove h a)"
  "slots_ok (ar_slots a) \<Longrightarrow> same_alloc a (ranges_after_insert p i a)"
  "document (ranges_before_remove h a) = document a" "document (ranges_after_insert p i a) = document a"
  by (auto simp: same_alloc_def ranges_before_remove_def ranges_after_insert_def slot_count_def
      split: option.split)

lemma keeps_detach [simp, intro]: "keeps (detach h)"
proof -
  have "keeps (\<lambda>a. (Inr (), ranges_before_remove h a))"
    by (rule keeps_same) (simp add: same_alloc_ranges)
  then show ?thesis unfolding detach_def
    by (intro keeps_tbind keeps_read) (auto split: option.split)
qed

lemma keeps_append_child [simp, intro]: "keeps (append_child p c)"
  unfolding append_child_def Let_def by (intro keeps_tbind) (auto split: option.split)

lemma keeps_insert_before [simp, intro]: "keeps (insert_before s c)"
proof -
  have "keeps (\<lambda>a. (Inr (), case index_of a c of None \<Rightarrow> a | Some i \<Rightarrow> ranges_after_insert p i a))" for p
    by (rule keeps_same) (auto simp: same_alloc_ranges split: option.split)
  then show ?thesis unfolding insert_before_def Let_def
    by (auto intro!: keeps_tbind split: option.split)
qed

lemma keeps_append_all [simp, intro]: "keeps (append_all p cs)"
  by (induction cs) auto

lemma keeps_reparent [simp, intro]: "keeps (reparent_children from to)"
  using keeps_append_all by (auto simp: keeps_def reparent_children_def split: option.split)

section \<open>Allocating and freeing\<close>

lemma length_filter_set:
  assumes "i < length xs"
  shows "length (filter P (xs[i := y])) + (if P (xs ! i) then 1 else 0) = length (filter P xs) + (if P y then 1 else 0)"
  using assms
proof (induction xs arbitrary: i)
  case (Cons x xs)
  show ?case
  proof (cases i)
    case (Suc j)
    with Cons.IH [of j] Cons.prems show ?thesis by (auto split: if_splits)
  qed simp
qed simp

lemma live_slots_set:
  assumes "slots_ok (ar_slots a)" and "slots_get (ar_slots a) i = Some s"
  shows "live_slots (a\<lparr>ar_slots := slots_set (ar_slots a) i s'\<rparr>) + (if slot_live s then 1 else 0)
       = live_slots a + (if slot_live s' then 1 else 0)"
proof -
  from assms have "i < length (slots_iter (ar_slots a))" "slots_iter (ar_slots a) ! i = s"
    by (simp_all add: slot_store.fetch_view nth_opt_Some)
  with length_filter_set [OF this(1), of slot_live s'] assms(1) show ?thesis
    by (simp add: live_slots_def slot_store.store_view)
qed

lemma live_slots_cong: "ar_slots a' = ar_slots a \<Longrightarrow> live_slots a' = live_slots a"
  by (simp add: live_slots_def)

lemma unat_index_inj: "unat (i :: u32) = unat j \<longleftrightarrow> i = j"
  by (simp add: word_unat_eq_iff)

lemma create_reuse:
  assumes ok: "alloc_ok a" and fr: "free a = i # rest"
  obtains s where "slots_get (ar_slots a) (unat i) = Some s" "slot_node s = None"
    "create d a = (Inr (NodeId i (slot_gen s)),
       a\<lparr>free := rest, ar_slots := slots_set (ar_slots a) (unat i) (s\<lparr>slot_node := Some (node_new d)\<rparr>),
         live := live a + 1\<rparr>)"
proof -
  from ok fr obtain s where "slots_get (ar_slots a) (unat i) = Some s" "slot_node s = None"
    by (auto simp: alloc_ok_def)
  then show thesis by (intro that) (simp_all add: create_def fr Let_def)
qed

lemma create_fresh:
  assumes ok: "alloc_ok a" and fr: "free a = []"
  shows "create d a = (if slot_count a = 2 ^ 32 - 1 then (Inl Exhausted, a)
     else (Inr (NodeId (word_of_nat (slot_count a)) 1),
       a\<lparr>ar_slots := slots_push (ar_slots a) \<lparr>slot_gen = 1, slot_node = Some (node_new d)\<rparr>,
         live := live a + 1\<rparr>))"
proof -
  let ?n = "slot_count a"
  have n: "?n < 2 ^ 32" using ok by (simp add: alloc_ok_def)
  have "(word_of_nat ?n :: u32) = U32_MAX \<longleftrightarrow> ?n = 2 ^ 32 - 1"
    using n unat_U32_MAX by (simp add: word_unat_eq_iff unat_of_nat)
  with n fr show ?thesis by (simp add: create_def try_from_u32_def slot_count_def)
qed

lemma create_reuse_ok:
  assumes ok: "alloc_ok a" and fr: "free a = i # rest"
  shows "alloc_ok (snd (create d a)) \<and> alloc_le a (snd (create d a)) \<and> document (snd (create d a)) = document a"
proof -
  obtain s where s: "slots_get (ar_slots a) (unat i) = Some s" "slot_node s = None"
    and c: "create d a = (Inr (NodeId i (slot_gen s)),
       a\<lparr>free := rest, ar_slots := slots_set (ar_slots a) (unat i) (s\<lparr>slot_node := Some (node_new d)\<rparr>),
         live := live a + 1\<rparr>)" by (rule create_reuse [OF ok fr])
  let ?s = "s\<lparr>slot_node := Some (node_new d)\<rparr>"
  let ?a = "snd (create d a)"
  have so: "slots_ok (ar_slots a)" using ok by (simp add: alloc_ok_def)
  have in_range: "unat i < slots_len (ar_slots a)"
    using s(1) slot_store.fetch_in [OF so, of "unat i"] by simp
  have get: "slots_get (ar_slots ?a) j = (if j = unat i then Some ?s else slots_get (ar_slots a) j)" for j
    using in_range by (simp add: c slot_store.fetch_store [OF so])
  have lv: "live_slots ?a = live_slots a + 1"
    using live_slots_set [OF so s(1), of ?s] s(2)
    by (simp add: c slot_live_def live_slots_def)
  have "alloc_ok ?a"
    using ok fr lv get slot_store.store_invar [OF so] slot_store.size_store [OF so] s
    by (auto simp: alloc_ok_def c slot_count_def unat_index_inj)
  moreover have "alloc_le a ?a"
    using get fr s slot_store.size_store [OF so]
    by (auto simp: alloc_le_def spent_def contains_def arena_get_def c slot_count_def unat_index_inj
        split: if_splits)
  ultimately show ?thesis by (simp add: c)
qed

lemma create_fresh_ok:
  assumes ok: "alloc_ok a" and fr: "free a = []"
  shows "alloc_ok (snd (create d a)) \<and> alloc_le a (snd (create d a)) \<and> document (snd (create d a)) = document a"
proof (cases "slot_count a = 2 ^ 32 - 1")
  case True
  then show ?thesis using ok create_fresh [OF ok fr, of d] by simp
next
  case False
  let ?s = "\<lparr>slot_gen = 1, slot_node = Some (node_new d)\<rparr>"
  let ?a = "snd (create d a)"
  have c: "?a = a\<lparr>ar_slots := slots_push (ar_slots a) ?s, live := live a + 1\<rparr>"
    using create_fresh [OF ok fr, of d] False by simp
  have so: "slots_ok (ar_slots a)" using ok by (simp add: alloc_ok_def)
  have get: "slots_get (ar_slots ?a) j = (if j = slot_count a then Some ?s else slots_get (ar_slots a) j)" for j
    by (simp add: c slot_store.fetch_grow [OF so] slot_count_def)
  have out: "slots_get (ar_slots a) (slot_count a) = None"
    using slot_store.fetch_in [OF so, of "slot_count a"] by (simp add: slot_count_def)
  have lv: "live_slots ?a = live_slots a + 1"
    by (simp add: live_slots_def c slot_store.grow_view [OF so] slot_live_def)
  have sz: "slot_count ?a = slot_count a + 1" by (simp add: c slot_count_def slot_store.size_grow [OF so])
  have "slot_count a < 2 ^ 32" using ok by (simp add: alloc_ok_def)
  with False have "slot_count ?a < 2 ^ 32" using sz by simp
  then have "alloc_ok ?a"
    using ok fr lv get sz slot_store.grow_invar [OF so] by (auto simp: alloc_ok_def c split: if_splits)
  moreover have "alloc_le a ?a"
    using get out fr sz
    by (auto simp: alloc_le_def spent_def contains_def arena_get_def c split: if_splits)
  ultimately show ?thesis by (simp add: c)
qed

lemma keeps_create [simp, intro]: "keeps (create d)"
proof (rule keepsI)
  fix a assume "alloc_ok a"
  then show "alloc_ok (snd (create d a)) \<and> alloc_le a (snd (create d a)) \<and> document (snd (create d a)) = document a"
    using create_reuse_ok create_fresh_ok by (cases "free a") blast+
qed

text \<open>What freeing a slot does, for a live handle and for any other.\<close>

lemma free_slot_dead: "\<not> contains a h \<Longrightarrow> free_slot h a = (False, a)"
  by (auto simp: free_slot_def contains_def arena_get_def split: option.split if_splits)

lemma free_slot_live:
  assumes ok: "alloc_ok a" and live: "contains a h"
  shows "fst (free_slot h a)" and "alloc_ok (snd (free_slot h a))" and "spent (snd (free_slot h a)) h"
    and "alloc_le a (snd (free_slot h a))" and "document (snd (free_slot h a)) = document a"
    and "arena_get (snd (free_slot h a)) = (arena_get a)(h := None)"
    and "slot_count (snd (free_slot h a)) = slot_count a" and "ranges (snd (free_slot h a)) = ranges a"
proof -
  from live obtain s n where s: "slots_get (ar_slots a) (unat (index h)) = Some s"
    "slot_gen s = generation h" "slot_node s = Some n" by (auto simp: contains_def arena_get_Some)
  define s' where "s' = (case gen_next (slot_gen s) of Some g \<Rightarrow> \<lparr>slot_gen = g, slot_node = None\<rparr> | None \<Rightarrow> s\<lparr>slot_node := None\<rparr>)"
  let ?a = "snd (free_slot h a)"
  have so: "slots_ok (ar_slots a)" using ok by (simp add: alloc_ok_def)
  have sl: "ar_slots ?a = slots_set (ar_slots a) (unat (index h)) s'" "live ?a = live a - 1"
    "free ?a = (if gen_next (slot_gen s) = None then free a else index h # free a)"
    "retired ?a = (if gen_next (slot_gen s) = None then retired a + 1 else retired a)"
    using s by (auto simp: free_slot_def s'_def split: option.split)
  show "fst (free_slot h a)" using s by (simp add: free_slot_def split: option.split)
  show doc: "document ?a = document a" and rng: "ranges ?a = ranges a"
    using s by (simp_all add: free_slot_def split: option.split)
  have in_range: "unat (index h) < slots_len (ar_slots a)"
    using s(1) slot_store.fetch_in [OF so, of "unat (index h)"] by simp
  have get: "slots_get (ar_slots ?a) j = (if j = unat (index h) then Some s' else slots_get (ar_slots a) j)" for j
    using in_range by (simp add: sl slot_store.fetch_store [OF so])
  show sz: "slot_count ?a = slot_count a" by (simp add: slot_count_def sl slot_store.size_store [OF so])
  have nf: "index h \<notin> set (free a)" using ok s by (auto simp: alloc_ok_def)
  have s': "slot_node s' = None" "slot_gen s' \<noteq> 0"
    "generation h < slot_gen s' \<or> slot_gen s' = generation h \<and> generation h = U32_MAX \<and> free ?a = free a"
    using ok s gen_next_less [of "slot_gen s"] sl(3)
    by (auto simp: s'_def alloc_ok_def gen_next_def U32_MAX_def word_gt_0 split: option.splits if_splits)
  show sp: "spent ?a h" using get s'(1,3) nf by (auto simp: spent_def)
  have "live_slots ?a + 1 = live_slots a"
    using live_slots_set [OF so s(1), of s'] s(3) s'(1) live_slots_cong [of ?a "a\<lparr>ar_slots := ar_slots ?a\<rparr>"]
    by (simp add: sl slot_live_def)
  then show "alloc_ok ?a"
    using ok sl get sz s' nf slot_store.store_invar [OF so, of "unat (index h)" s']
    by (auto simp: alloc_ok_def unat_index_inj split: if_splits)
  have "spent ?a q" if "spent a q" for q
    using that get s s' nf sl(3) sp
    by (cases "index q = index h") (auto simp: spent_def unat_index_inj)
  moreover have "contains ?a q \<or> spent ?a q" if "contains a q" for q
    using that get s sp by (cases "q = h") (auto simp: contains_def arena_get_def unat_index_inj
        node_id.expand split: if_splits)
  ultimately show "alloc_le a ?a" using sz by (auto simp: alloc_le_def)
  show "arena_get ?a = (arena_get a)(h := None)"
    using get s s'(1) by (auto simp: fun_eq_iff arena_get_def unat_index_inj node_id.expand)
qed

section \<open>Removal, copying and attributes\<close>

lemma free_slot_keeps:
  assumes "alloc_ok a"
  shows "alloc_ok (snd (free_slot h a)) \<and> alloc_le a (snd (free_slot h a)) \<and> document (snd (free_slot h a)) = document a"
  using free_slot_live [OF assms, of h] free_slot_dead [of a h] assms by (cases "contains a h") simp_all

lemma remove_loop_keeps:
  assumes "alloc_ok a"
  shows "alloc_ok (snd (remove_loop st n a)) \<and> alloc_le a (snd (remove_loop st n a))
     \<and> document (snd (remove_loop st n a)) = document a"
  using assms
proof (induction st n a rule: remove_loop.induct)
  case (2 c st n a)
  show ?case
  proof (cases "children a c")
    case None
    with 2 show ?thesis by simp
  next
    case (Some kids)
    obtain b a1 where f: "free_slot c a = (b, a1)" by fastforce
    with free_slot_keeps [OF "2.prems", of c] have
      a1: "alloc_ok a1" "alloc_le a a1" "document a1 = document a" by simp_all
    from "2.IH"(2) [OF Some refl refl f [symmetric] refl a1(1)] a1 Some f show ?thesis
      by (auto simp: Let_def intro: alloc_le_trans)
  qed
qed simp

lemma same_alloc_drop_range: "slots_ok (ar_slots a) \<Longrightarrow> same_alloc a (snd (drop_range h a))"
  and drop_range_doc: "document (snd (drop_range h a)) = document a"
  and drop_range_slots: "ar_slots (snd (drop_range h a)) = ar_slots a"
  by (auto simp: drop_range_def same_alloc_def slot_count_def split: option.split)

lemma same_alloc_trans: "same_alloc a b \<Longrightarrow> same_alloc b c \<Longrightarrow> same_alloc a c"
  by (simp add: same_alloc_def)

lemma same_alloc_drop_dangling:
  assumes "slots_ok (ar_slots a)"
  shows "same_alloc a (drop_dangling a) \<and> document (drop_dangling a) = document a"
proof -
  have "same_alloc a (foldl (\<lambda>a h. snd (drop_range h a)) a hs)
      \<and> document (foldl (\<lambda>a h. snd (drop_range h a)) a hs) = document a" for hs
    using assms
  proof (induction hs arbitrary: a)
    case (Cons h hs)
    then show ?case
      using same_alloc_drop_range [of a h] by (auto simp: drop_range_doc drop_range_slots intro: same_alloc_trans)
  qed simp
  then show ?thesis by (simp add: drop_dangling_def)
qed

lemma keeps_remove_subtree [simp, intro]: "keeps (remove_subtree h)"
proof -
  have "keeps (\<lambda>a1. let (freed, a2) = remove_loop [h] 0 a1
        in (Inr freed, if ranges a2 = [] then a2 else drop_dangling a2))"
  proof (rule keepsI)
    fix a assume ok: "alloc_ok a"
    obtain n a2 where r: "remove_loop [h] 0 a = (n, a2)" by fastforce
    with remove_loop_keeps [OF ok, of "[h]" 0] have
      a2: "alloc_ok a2" "alloc_le a a2" "document a2 = document a" by simp_all
    note d = same_alloc_drop_dangling [OF alloc_ok_fields(1) [OF a2(1)]]
    from r a2 d same_alloc_ok [OF a2(1)] same_alloc_le [OF a2(1)] show
      "alloc_ok (snd (let (freed, a2) = remove_loop [h] 0 a in (Inr freed, if ranges a2 = [] then a2 else drop_dangling a2)))
       \<and> alloc_le a (snd (let (freed, a2) = remove_loop [h] 0 a in (Inr freed, if ranges a2 = [] then a2 else drop_dangling a2)))
       \<and> document (snd (let (freed, a2) = remove_loop [h] 0 a in (Inr freed, if ranges a2 = [] then a2 else drop_dangling a2))) = document a"
      by (auto intro: alloc_le_trans)
  qed
  from keeps_tbind [OF keeps_detach this] show ?thesis
    unfolding keeps_def by (simp add: remove_subtree_def)
qed

lemma keeps_clone_loop [simp, intro]: "keeps (clone_loop b st)"
proof (induction b st rule: clone_loop.induct)
  case (3 b source dest st)
  have "keeps (\<lambda>a. case children a source of None \<Rightarrow> (Inl NoSuchNode, a)
      | Some kids \<Rightarrow> clone_loop b (map (\<lambda>k. (k, copy)) kids @ st) a)" for copy
    using 3 unfolding keeps_def by (auto split: option.split)
  then show ?case by (auto intro!: keeps_tbind)
qed auto

lemma keeps_clone_subtree [simp, intro]: "keeps (clone_subtree h)"
proof -
  have "keeps (\<lambda>a. case children a h of None \<Rightarrow> (Inl NoSuchNode, a)
      | Some kids \<Rightarrow> tbind (clone_loop (slot_count a + 1) (map (\<lambda>k. (k, root)) kids)) (\<lambda>_. treturn root) a)" for root
  proof -
    have "keeps (tbind (clone_loop b st) (\<lambda>_. treturn root))" for b st by auto
    then show ?thesis unfolding keeps_def by (auto split: option.split)
  qed
  then show ?thesis unfolding clone_subtree_def by (auto intro!: keeps_tbind)
qed

lemma snapshot_change_fields:
  "ar_slots (snapshot_attribute_change h name a) = ar_slots a"
  "free (snapshot_attribute_change h name a) = free a"
  "live (snapshot_attribute_change h name a) = live a"
  "retired (snapshot_attribute_change h name a) = retired a"
  "document (snapshot_attribute_change h name a) = document a"
  "ranges (snapshot_attribute_change h name a) = ranges a"
  "recording_snapshots (snapshot_attribute_change h name a) = recording_snapshots a"
  by (simp_all add: snapshot_attribute_change_def split: option.split)

lemma keeps_snapshot_change: "keeps (\<lambda>a. (r, snapshot_attribute_change h name a))"
  by (rule keeps_same) (simp add: same_alloc_def snapshot_change_fields slot_count_def)

lemma keeps_after: "keeps (\<lambda>a. (Inr (), g a)) \<Longrightarrow> keeps m \<Longrightarrow> keeps (\<lambda>a. m (g a))"
  using keeps_tbind [of "\<lambda>a. (Inr (), g a)" "\<lambda>_. m"] by (simp add: tbind_def keeps_def)

lemma keeps_set_attribute [simp, intro]: "keeps (set_attribute h name val)"
proof -
  have "keeps (\<lambda>a1. case arena_get a1 h of None \<Rightarrow> (Inl NoSuchNode, a1)
         | Some n \<Rightarrow> (case data n of Element q attrs t s \<Rightarrow>
                  modify_node h (data_update (\<lambda>_. Element q (attrs_set name val attrs) t s)) a1
              | _ \<Rightarrow> (Inl NoSuchNode, a1)))"
    using keeps_modify unfolding keeps_def by (auto split: option.split node_data.split)
  from keeps_after [OF keeps_snapshot_change this] show ?thesis
    unfolding set_attribute_def Let_def keeps_def by simp
qed

lemma keeps_remove_attribute [simp, intro]: "keeps (remove_attribute h name)"
proof -
  have "keeps (\<lambda>a1. case arena_get a1 h of None \<Rightarrow> (Inl NoSuchNode, a1)
         | Some n \<Rightarrow> (case data n of Element q attrs t s \<Rightarrow>
                  (let kept = filter (\<lambda>x. attr_name x \<noteq> name) attrs
                   in tbind (modify_node h (data_update (\<lambda>_. Element q kept t s)))
                        (\<lambda>_. treturn (length kept \<noteq> length attrs)) a1)
              | _ \<Rightarrow> (Inl NoSuchNode, a1)))"
  proof -
    have "keeps (tbind (modify_node h f) (\<lambda>_. treturn b))" for f and b :: bool by auto
    then show ?thesis unfolding keeps_def Let_def by (auto split: option.split node_data.split)
  qed
  from keeps_after [OF keeps_snapshot_change this] show ?thesis
    unfolding remove_attribute_def Let_def keeps_def by simp
qed

lemma keeps_set_missing [simp, intro]: "keeps (set_missing h present xs)"
  by (induction h present xs rule: set_missing.induct) auto

lemma keeps_add_attributes [simp, intro]: "keeps (add_attributes_if_missing h incoming)"
  using keeps_set_missing unfolding keeps_def add_attributes_if_missing_def Let_def by simp

end
