(* ===== verification/Dom_Range.thy ===== *)
theory Dom_Range
  imports Dom_Alloc
begin

text \<open>
  Document order and live ranges, \<^verbatim>\<open>crates/px-dom/src/range.rs\<close>,
  \<^verbatim>\<open>Arena::precedes\<close> of \<^verbatim>\<open>lib.rs\<close> and the range operations of
  \<^verbatim>\<open>arena.rs\<close>.
\<close>

section \<open>Document order\<close>

datatype position = Before | Equal | After

fun root_walk :: "arena \<Rightarrow> nat \<Rightarrow> node_id \<Rightarrow> node_id" where
  "root_walk a b h =
     (case do { n \<leftarrow> arena_get a h; parent n } of
        None \<Rightarrow> h
      | Some p \<Rightarrow> (case b of 0 \<Rightarrow> h | Suc b' \<Rightarrow> root_walk a b' p))"

declare root_walk.simps [simp del]

definition root_of :: "arena \<Rightarrow> node_id \<Rightarrow> node_id" where
  "root_of a h = root_walk a (MAX_DEPTH + 1) h"

fun order_scan :: "node_id \<Rightarrow> node_id \<Rightarrow> nat \<Rightarrow> nat option \<Rightarrow> nat option \<Rightarrow> node_id list
    \<Rightarrow> nat option \<times> nat option" where
  "order_scan x y i px py [] = (px, py)"
| "order_scan x y i px py (h # hs) =
     (let px' = (if h = x then Some i else px);
          py' = (if h = y then Some i else py)
      in if px' \<noteq> None \<and> py' \<noteq> None then (px', py') else order_scan x y (i + 1) px' py' hs)"

definition precedes :: "arena \<Rightarrow> node_id \<Rightarrow> node_id \<Rightarrow> bool option" where
  "precedes a x y =
     (if \<not> contains a x \<or> \<not> contains a y \<or> x = y then None
      else if root_of a x \<noteq> root_of a y then None
      else case order_scan x y 0 None None (descendants a (root_of a x)) of
        (Some i, Some j) \<Rightarrow> Some (i < j)
      | _ \<Rightarrow> None)"

lemma order_scan_swap:
  "order_scan y x i py px hs = prod.swap (order_scan x y i px py hs)"
  by (induction x y i px py hs rule: order_scan.induct) (simp_all add: Let_def conj_commute)

lemma precedes_asym: "precedes a x y = Some True \<Longrightarrow> precedes a y x \<noteq> Some True"
  using order_scan_swap [of y x 0 None None "descendants a (root_of a x)"]
  by (cases "order_scan x y 0 None None (descendants a (root_of a x))")
    (auto simp: precedes_def split: option.splits if_splits)

section \<open>Comparing boundary points\<close>

fun branch_of :: "arena \<Rightarrow> node_id \<Rightarrow> nat \<Rightarrow> node_id \<Rightarrow> node_id option" where
  "branch_of a anc 0 c = None"
| "branch_of a anc (Suc b) c = do {
     n \<leftarrow> arena_get a c;
     p \<leftarrow> parent n;
     if p = anc then Some c else branch_of a anc b p }"

fun invert :: "position \<Rightarrow> position" where
  "invert Before = After"
| "invert After = Before"
| "invert Equal = Equal"

text \<open>Steps 3 and 4: the points are not mirrored any more.\<close>

definition compare_ordered :: "arena \<Rightarrow> boundary_point \<Rightarrow> boundary_point \<Rightarrow> position option" where
  "compare_ordered a x y =
     (let order = (case precedes a (bp_node x) (bp_node y) of
                     Some True \<Rightarrow> Some Before | Some False \<Rightarrow> Some After | None \<Rightarrow> None)
      in if is_inclusive_ancestor a (bp_node x) (bp_node y)
         then do {
           c \<leftarrow> branch_of a (bp_node x) (MAX_DEPTH + 1) (bp_node y);
           i \<leftarrow> index_of a c;
           if i < bp_offset x then Some After else order }
         else order)"

function compare_boundary_points :: "arena \<Rightarrow> boundary_point \<Rightarrow> boundary_point \<Rightarrow> position option" where
  "compare_boundary_points a x y =
     (if \<not> contains a (bp_node x) \<or> \<not> contains a (bp_node y) then None
      else if bp_node x = bp_node y
      then Some (if bp_offset x < bp_offset y then Before else if bp_offset x = bp_offset y then Equal else After)
      else if precedes a (bp_node y) (bp_node x) = Some True
      then map_option invert (compare_boundary_points a y x)
      else compare_ordered a x y)"
  by pat_completeness auto
termination
  by (relation "measure (\<lambda>(a, x, y). if precedes a (bp_node y) (bp_node x) = Some True then 1 else 0)")
    (auto dest: precedes_asym)

declare compare_boundary_points.simps [simp del]

definition is_valid_boundary :: "arena \<Rightarrow> boundary_point \<Rightarrow> bool" where
  "is_valid_boundary a b = (case node_length a (bp_node b) of None \<Rightarrow> False | Some n \<Rightarrow> bp_offset b \<le> n)"

section \<open>Range handles\<close>

definition new_range :: "boundary_point \<Rightarrow> boundary_point \<Rightarrow> range_id tm" where
  "new_range s e a =
     (if \<not> is_valid_boundary a s \<or> \<not> is_valid_boundary a e then (Inl NoSuchNode, a)
      else if compare_boundary_points a s e \<notin> {Some Before, Some Equal} then (Inl WouldCycle, a)
      else let r = \<lparr>rg_start = s, rg_end = e\<rparr>
        in case free_ranges a of
             i # rest \<Rightarrow>
               (let a1 = a\<lparr>free_ranges := rest\<rparr>
                in case nth_opt (ranges a1) (unat i) of
                     None \<Rightarrow> (Inl Exhausted, a1)
                   | Some sl \<Rightarrow>
                       (Inr (RangeId i (rs_gen sl)),
                        a1\<lparr>ranges := (ranges a1)[unat i := sl\<lparr>rs_range := Some r\<rparr>]\<rparr>))
           | [] \<Rightarrow>
               (case try_from_u32 (length (ranges a)) of
                  None \<Rightarrow> (Inl Exhausted, a)
                | Some i \<Rightarrow>
                    (Inr (RangeId i 1), a\<lparr>ranges := ranges a @ [\<lparr>rs_gen = 1, rs_range = Some r\<rparr>]\<rparr>)))"

definition range_get :: "arena \<Rightarrow> range_id \<Rightarrow> range option" where
  "range_get a h = do {
     s \<leftarrow> nth_opt (ranges a) (unat (ri_index h));
     if rs_gen s \<noteq> ri_generation h then None else rs_range s }"

definition range_count :: "arena \<Rightarrow> nat" where
  "range_count a = length (filter (\<lambda>s. rs_range s \<noteq> None) (ranges a))"

definition range_contains :: "arena \<Rightarrow> range_id \<Rightarrow> node_id \<Rightarrow> bool option" where
  "range_contains a h x = do {
     r \<leftarrow> range_get a h;
     let point = \<lparr>bp_node = x, bp_offset = 0\<rparr>;
     after_start \<leftarrow> compare_boundary_points a point (rg_start r);
     before_end \<leftarrow> compare_boundary_points a point (rg_end r);
     Some (after_start \<noteq> Before \<and> before_end \<noteq> After) }"

lemma keeps_new_range [simp, intro]: "keeps (new_range s e)"
  by (rule keeps_same)
    (auto simp: new_range_def same_alloc_def slot_count_def Let_def split: option.split list.split)

section \<open>All operations as steps\<close>

text \<open>One public mutation of an arena, whatever its arguments and its outcome.\<close>

inductive arena_step :: "arena \<Rightarrow> arena \<Rightarrow> bool" where
  step_create: "arena_step a (snd (create d a))"
| step_append: "arena_step a (snd (append_child p c a))"
| step_insert: "arena_step a (snd (insert_before s c a))"
| step_detach: "arena_step a (snd (detach h a))"
| step_reparent: "arena_step a (snd (reparent_children from to a))"
| step_remove: "arena_step a (snd (remove_subtree h a))"
| step_clone: "arena_step a (snd (clone_subtree h a))"
| step_new_range: "arena_step a (snd (new_range s e a))"
| step_drop_range: "arena_step a (snd (drop_range r a))"
| step_set_attribute: "arena_step a (snd (set_attribute h name val a))"
| step_remove_attribute: "arena_step a (snd (remove_attribute h name a))"
| step_add_attributes: "arena_step a (snd (add_attributes_if_missing h attrs a))"
| step_record: "arena_step a (record_snapshots on a)"
| step_take: "arena_step a (snd (take_snapshots a))"

inductive arena_run :: "arena \<Rightarrow> arena \<Rightarrow> bool" where
  run_refl: "arena_run a a"
| run_step: "arena_run a b \<Longrightarrow> arena_step b c \<Longrightarrow> arena_run a c"

inductive_cases arena_stepE: "arena_step a b"

lemma keepsD:
  "keeps m \<Longrightarrow> alloc_ok a \<Longrightarrow> alloc_ok (snd (m a)) \<and> alloc_le a (snd (m a)) \<and> document (snd (m a)) = document a"
  by (simp add: keeps_def)

lemma arena_step_alloc:
  assumes "arena_step a b" and "alloc_ok a"
  shows "alloc_ok b \<and> alloc_le a b \<and> document b = document a"
  using assms(1)
proof cases
  case (step_drop_range r)
  then show ?thesis
    using assms(2) same_alloc_drop_range [of a r] same_alloc_ok same_alloc_le
    by (simp add: drop_range_doc alloc_ok_fields)
next
  case (step_record on)
  have "same_alloc a b" using assms(2) step_record by (simp add: record_snapshots_def same_alloc_def alloc_ok_fields slot_count_def)
  then show ?thesis using assms(2) same_alloc_ok same_alloc_le step_record by (simp add: record_snapshots_def)
next
  case step_take
  have "same_alloc a b" using assms(2) step_take by (simp add: take_snapshots_def same_alloc_def alloc_ok_fields slot_count_def)
  then show ?thesis using assms(2) same_alloc_ok same_alloc_le step_take by (simp add: take_snapshots_def)
qed (auto simp: keepsD [OF _ assms(2)])

lemma arena_run_alloc:
  "arena_run a b \<Longrightarrow> alloc_ok a \<Longrightarrow> alloc_ok b \<and> alloc_le a b \<and> document b = document a"
proof (induction rule: arena_run.induct)
  case (run_step a b c)
  then show ?case using arena_step_alloc [of b c] alloc_le_trans by metis
qed simp

lemma arena_run_trans: "arena_run b c \<Longrightarrow> arena_run a b \<Longrightarrow> arena_run a c"
  by (induction rule: arena_run.induct) (auto intro: arena_run.intros)

lemma alloc_ok_empty: "alloc_ok arena_empty"
  by (simp add: alloc_ok_def arena_empty_def slots_ok_new live_slots_def slot_count_def)
    (simp add: slots_new_def slots_iter_def slots_get_def)

lemma alloc_ok_document: "alloc_ok (a\<lparr>document := h\<rparr>) \<longleftrightarrow> alloc_ok a"
  by (simp add: alloc_ok_def live_slots_def slot_count_def)

lemma alloc_ok_new: "alloc_ok arena_new"
  using keepsD [OF keeps_create alloc_ok_empty, of Document]
  by (cases "create Document arena_empty") (auto simp: arena_new_def alloc_ok_document split: sum.split)

end
