(* ===== verification/Dom_Forest.thy ===== *)
theory Dom_Forest
  imports Dom_Range
begin

text \<open>
  The abstract view of the arena's tree: ordered child lists, parents and payloads.
  \<open>repr\<close> lays a forest out as the five links the arena stores, and the lemmas on
  \<open>succ_in\<close> and \<open>pred_in\<close> say how sibling links change when a child list changes.
\<close>

section \<open>Neighbours in a list\<close>

definition hd_opt :: "'a list \<Rightarrow> 'a option" where
  "hd_opt xs = (case xs of [] \<Rightarrow> None | x # _ \<Rightarrow> Some x)"

definition last_opt :: "'a list \<Rightarrow> 'a option" where
  "last_opt xs = hd_opt (rev xs)"

fun succ_in :: "'a list \<Rightarrow> 'a \<Rightarrow> 'a option" where
  "succ_in [] x = None"
| "succ_in (y # ys) x = (if y = x then hd_opt ys else succ_in ys x)"

definition pred_in :: "'a list \<Rightarrow> 'a \<Rightarrow> 'a option" where
  "pred_in xs x = succ_in (rev xs) x"

lemma hd_opt_simps [simp]:
  "hd_opt [] = None" "hd_opt (x # xs) = Some x" "hd_opt xs = None \<longleftrightarrow> xs = []"
  "hd_opt (xs @ ys) = (if xs = [] then hd_opt ys else hd_opt xs)"
  by (auto simp: hd_opt_def split: list.split)

lemma last_opt_simps [simp]:
  "last_opt [] = None" "last_opt (xs @ [x]) = Some x" "last_opt xs = None \<longleftrightarrow> xs = []"
  "last_opt (xs @ ys) = (if ys = [] then last_opt xs else last_opt ys)"
  "last_opt (x # xs) = (if xs = [] then Some x else last_opt xs)"
  by (auto simp: last_opt_def)

lemma hd_opt_Some: "hd_opt xs = Some x \<longleftrightarrow> (\<exists>ys. xs = x # ys)"
  by (cases xs) auto

lemma last_opt_Some: "last_opt xs = Some x \<longleftrightarrow> (\<exists>ys. xs = ys @ [x])"
  by (cases xs rule: rev_cases) auto

lemma last_opt_in: "last_opt xs = Some x \<Longrightarrow> x \<in> set xs"
  by (auto simp: last_opt_Some)

lemma succ_in_notin: "x \<notin> set xs \<Longrightarrow> succ_in xs x = None"
  by (induction xs) auto

lemma succ_in_append:
  "succ_in (xs @ ys) x = (if x \<in> set xs then (case succ_in xs x of Some y \<Rightarrow> Some y | None \<Rightarrow> hd_opt ys) else succ_in ys x)"
  by (induction xs) (auto simp: hd_opt_def split: list.split)

lemma succ_in_last: "distinct xs \<Longrightarrow> x \<in> set xs \<Longrightarrow> succ_in xs x = None \<longleftrightarrow> last_opt xs = Some x"
  by (induction xs) (auto dest: last_opt_in)

lemma succ_in_here:
  assumes "distinct (xs @ h # ys)"
  shows "succ_in (xs @ h # ys) h = hd_opt ys"
  using assms by (simp add: succ_in_append)

lemma succ_in_delete:
  assumes "distinct (xs @ h # ys)" and "x \<noteq> h"
  shows "succ_in (xs @ ys) x = (if last_opt xs = Some x then hd_opt ys else succ_in (xs @ h # ys) x)"
proof (cases "x \<in> set xs")
  case True
  then show ?thesis using assms succ_in_last [of xs x] by (auto simp: succ_in_append split: option.split)
next
  case False
  then have "last_opt xs \<noteq> Some x" by (auto simp: last_opt_Some)
  with False assms show ?thesis by (auto simp: succ_in_append)
qed

lemma pred_in_here: "distinct (xs @ h # ys) \<Longrightarrow> pred_in (xs @ h # ys) h = last_opt xs"
  using succ_in_here [of "rev ys" h "rev xs"] by (simp add: pred_in_def last_opt_def Int_commute)

lemma pred_in_delete:
  assumes "distinct (xs @ h # ys)" and "x \<noteq> h"
  shows "pred_in (xs @ ys) x = (if hd_opt ys = Some x then last_opt xs else pred_in (xs @ h # ys) x)"
  using succ_in_delete [of "rev ys" h "rev xs" x] assms by (simp add: pred_in_def last_opt_def Int_commute)

lemma pred_in_notin: "x \<notin> set xs \<Longrightarrow> pred_in xs x = None"
  by (simp add: pred_in_def succ_in_notin)

lemma distinct_swap: "distinct (xs @ h # ys) \<longleftrightarrow> distinct (h # xs @ ys)"
  by auto

section \<open>Forests\<close>

record forest =
  kids :: "node_id \<Rightarrow> node_id list"
  par :: "node_id \<Rightarrow> node_id option"
  dat :: "node_id \<Rightarrow> node_data option"

definition repr :: "forest \<Rightarrow> node_id \<Rightarrow> node option" where
  "repr F h = map_option (\<lambda>d. \<lparr>parent = par F h, first_child = hd_opt (kids F h),
     last_child = last_opt (kids F h),
     prev_sibling = (case par F h of None \<Rightarrow> None | Some p \<Rightarrow> pred_in (kids F p) h),
     next_sibling = (case par F h of None \<Rightarrow> None | Some p \<Rightarrow> succ_in (kids F p) h),
     data = d\<rparr>) (dat F h)"

definition depths :: "forest \<Rightarrow> (node_id \<Rightarrow> nat) \<Rightarrow> bool" where
  "depths F d \<longleftrightarrow> (\<forall>h. dat F h \<noteq> None \<longrightarrow> d h \<le> MAX_DEPTH
     \<and> (case par F h of None \<Rightarrow> d h = 0 | Some p \<Rightarrow> d h = Suc (d p)))"

definition forest_ok :: "forest \<Rightarrow> bool" where
  "forest_ok F \<longleftrightarrow> (\<forall>p. distinct (kids F p)) \<and> (\<forall>c p. c \<in> set (kids F p) \<longleftrightarrow> par F c = Some p)
     \<and> (\<forall>c p. par F c = Some p \<longrightarrow> dat F c \<noteq> None \<and> (\<exists>d. dat F p = Some d \<and> can_have_children d))
     \<and> (\<exists>d. depths F d)"

definition f_detach :: "forest \<Rightarrow> node_id \<Rightarrow> forest" where
  "f_detach F h = (case par F h of None \<Rightarrow> F
     | Some p \<Rightarrow> F\<lparr>kids := (kids F)(p := remove1 h (kids F p)), par := (par F)(h := None)\<rparr>)"

definition f_append :: "forest \<Rightarrow> node_id \<Rightarrow> node_id \<Rightarrow> forest" where
  "f_append F p c = F\<lparr>kids := (kids F)(p := kids F p @ [c]), par := (par F)(c := Some p)\<rparr>"

fun insert_at :: "'a \<Rightarrow> 'a \<Rightarrow> 'a list \<Rightarrow> 'a list" where
  "insert_at s x [] = []"
| "insert_at s x (y # ys) = (if y = s then x # y # ys else y # insert_at s x ys)"

definition f_insert :: "forest \<Rightarrow> node_id \<Rightarrow> node_id \<Rightarrow> node_id \<Rightarrow> forest" where
  "f_insert F p s c = F\<lparr>kids := (kids F)(p := insert_at s c (kids F p)), par := (par F)(c := Some p)\<rparr>"

lemma insert_at_split: "s \<notin> set xs \<Longrightarrow> insert_at s x (xs @ s # ys) = xs @ x # s # ys"
  by (induction xs) auto

lemma forest_ok_split:
  assumes "forest_ok F" and "par F h = Some p"
  obtains xs ys where "kids F p = xs @ h # ys" "distinct (xs @ h # ys)"
proof -
  from assms have "h \<in> set (kids F p)" "distinct (kids F p)" by (auto simp: forest_ok_def)
  then show thesis using that by (metis split_list)
qed

lemma forest_ok_par_neq: "forest_ok F \<Longrightarrow> par F h = Some p \<Longrightarrow> p \<noteq> h"
  by (force simp: forest_ok_def depths_def)

lemma forest_ok_par_dat: "forest_ok F \<Longrightarrow> par F h = Some p \<Longrightarrow> dat F h \<noteq> None \<and> dat F p \<noteq> None"
  by (fastforce simp: forest_ok_def)

lemma forest_ok_kid: "forest_ok F \<Longrightarrow> c \<in> set (kids F p) \<longleftrightarrow> par F c = Some p"
  by (simp add: forest_ok_def)

lemma forest_ok_distinct: "forest_ok F \<Longrightarrow> distinct (kids F p)"
  by (simp add: forest_ok_def)

section \<open>Relations up the tree\<close>

inductive below :: "forest \<Rightarrow> node_id \<Rightarrow> node_id \<Rightarrow> bool" for F where
  below_refl: "below F h h"
| below_step: "par F x = Some p \<Longrightarrow> below F h p \<Longrightarrow> below F h x"

lemma below_parent: "below F h x \<Longrightarrow> x \<noteq> h \<Longrightarrow> par F x = Some p \<Longrightarrow> below F h p"
  by (auto elim: below.cases)

lemma below_depth: "below F h x \<Longrightarrow> depths F d \<Longrightarrow> forest_ok F \<Longrightarrow> d h \<le> d x"
proof (induction rule: below.induct)
  case (below_step x p)
  then have "dat F x \<noteq> None" by (simp add: forest_ok_par_dat)
  with below_step show ?case by (auto simp: depths_def)
qed simp

lemma below_antisym:
  assumes "below F h x" and "below F x h" and "forest_ok F"
  shows "h = x"
  using assms(1)
proof cases
  case (below_step p)
  from assms(3) obtain d where d: "depths F d" by (auto simp: forest_ok_def)
  have "d x = Suc (d p)" using below_step(1) d forest_ok_par_dat [OF assms(3) below_step(1)]
    by (auto simp: depths_def)
  with below_depth [OF below_step(2) d assms(3)] below_depth [OF assms(2) d assms(3)] show ?thesis by simp
qed simp

lemma below_trans: "below F y z \<Longrightarrow> below F x y \<Longrightarrow> below F x z"
  by (induction rule: below.induct) (auto intro: below.intros)

end
