(* ===== verification/Dom_Refine.thy ===== *)
theory Dom_Refine
  imports Dom_Forest
begin

text \<open>
  The arena's link updates implement the list operations of the abstract forest.
  \<open>tree_inv\<close> ties an arena to its forest; each structural operation is shown to
  succeed exactly when its checks pass and to lead to the forest its name promises.
\<close>

section \<open>Running link updates\<close>

definition upd :: "arena \<Rightarrow> arena \<Rightarrow> (node_id \<Rightarrow> node option) \<Rightarrow> bool" where
  "upd a a' H \<longleftrightarrow> alloc_ok a' \<and> arena_get a' = H \<and> document a' = document a \<and> slot_count a' = slot_count a
     \<and> ranges a' = ranges a \<and> free a' = free a"

lemma modify_run:
  assumes "alloc_ok a" and "arena_get a h = Some n"
  obtains a' where "modify_node h f a = (Inr (), a')" "upd a a' ((arena_get a)(h \<mapsto> f n))"
proof -
  let ?s = "\<lparr>slot_gen = generation h, slot_node = Some (f n)\<rparr>"
  let ?a = "a\<lparr>ar_slots := slots_set (ar_slots a) (unat (index h)) ?s\<rparr>"
  from assms(2) obtain s where s: "slots_get (ar_slots a) (unat (index h)) = Some s"
    "slot_gen s = generation h" "slot_node s = Some n" by (auto simp: arena_get_Some)
  have so: "slots_ok (ar_slots a)" using assms(1) by (simp add: alloc_ok_def)
  have i: "unat (index h) < slots_len (ar_slots a)"
    using s(1) slot_store.fetch_in [OF so, of "unat (index h)"] by simp
  have run: "modify_node h f a = (Inr (), ?a)" using assms(2) by (simp add: modify_node_def)
  have "same_alloc a ?a" using same_alloc_set [OF so s(1)] s(2,3) by (simp add: slot_live_def)
  then have "alloc_ok ?a" by (rule same_alloc_ok [OF assms(1)])
  moreover have "arena_get ?a = (arena_get a)(h \<mapsto> f n)"
    using i s by (auto simp: fun_eq_iff arena_get_def slot_store.fetch_store [OF so] unat_index_inj
        node_id.expand)
  ultimately show thesis
    by (intro that [OF run]) (simp add: upd_def slot_count_def slot_store.size_store [OF so])
qed

text \<open>The two link updates every insertion and removal makes.\<close>

definition link_next :: "(node_id \<Rightarrow> node option) \<Rightarrow> node_id \<Rightarrow> node_id option \<Rightarrow> node_id option \<Rightarrow> node_id \<Rightarrow> node option" where
  "link_next H p q v = (case q of
      Some q \<Rightarrow> H(q := map_option (next_sibling_update (\<lambda>_. v)) (H q))
    | None \<Rightarrow> H(p := map_option (first_child_update (\<lambda>_. v)) (H p)))"

definition link_prev :: "(node_id \<Rightarrow> node option) \<Rightarrow> node_id \<Rightarrow> node_id option \<Rightarrow> node_id option \<Rightarrow> node_id \<Rightarrow> node option" where
  "link_prev H p q v = (case q of
      Some q \<Rightarrow> H(q := map_option (prev_sibling_update (\<lambda>_. v)) (H q))
    | None \<Rightarrow> H(p := map_option (last_child_update (\<lambda>_. v)) (H p)))"

lemma link_next_run:
  assumes "alloc_ok a" and "arena_get a p \<noteq> None" and "\<And>r. q = Some r \<Longrightarrow> arena_get a r \<noteq> None"
  obtains a' where "(case q of Some r \<Rightarrow> modify_node r (next_sibling_update (\<lambda>_. v))
       | None \<Rightarrow> modify_node p (first_child_update (\<lambda>_. v))) a = (Inr (), a')"
    "upd a a' (link_next (arena_get a) p q v)"
proof (cases q)
  case None
  from assms(2) obtain n where n: "arena_get a p = Some n" by blast
  obtain a' where "modify_node p (first_child_update (\<lambda>_. v)) a = (Inr (), a')"
    "upd a a' ((arena_get a)(p \<mapsto> first_child_update (\<lambda>_. v) n))" by (rule modify_run [OF assms(1) n])
  with None n show thesis by (intro that) (simp_all add: link_next_def)
next
  case (Some r)
  from assms(3) [OF Some] obtain n where n: "arena_get a r = Some n" by blast
  obtain a' where "modify_node r (next_sibling_update (\<lambda>_. v)) a = (Inr (), a')"
    "upd a a' ((arena_get a)(r \<mapsto> next_sibling_update (\<lambda>_. v) n))" by (rule modify_run [OF assms(1) n])
  with Some n show thesis by (intro that) (simp_all add: link_next_def)
qed

lemma link_prev_run:
  assumes "alloc_ok a" and "arena_get a p \<noteq> None" and "\<And>r. q = Some r \<Longrightarrow> arena_get a r \<noteq> None"
  obtains a' where "(case q of Some r \<Rightarrow> modify_node r (prev_sibling_update (\<lambda>_. v))
       | None \<Rightarrow> modify_node p (last_child_update (\<lambda>_. v))) a = (Inr (), a')"
    "upd a a' (link_prev (arena_get a) p q v)"
proof (cases q)
  case None
  from assms(2) obtain n where n: "arena_get a p = Some n" by blast
  obtain a' where "modify_node p (last_child_update (\<lambda>_. v)) a = (Inr (), a')"
    "upd a a' ((arena_get a)(p \<mapsto> last_child_update (\<lambda>_. v) n))" by (rule modify_run [OF assms(1) n])
  with None n show thesis by (intro that) (simp_all add: link_prev_def)
next
  case (Some r)
  from assms(3) [OF Some] obtain n where n: "arena_get a r = Some n" by blast
  obtain a' where "modify_node r (prev_sibling_update (\<lambda>_. v)) a = (Inr (), a')"
    "upd a a' ((arena_get a)(r \<mapsto> prev_sibling_update (\<lambda>_. v) n))" by (rule modify_run [OF assms(1) n])
  with Some n show thesis by (intro that) (simp_all add: link_prev_def)
qed

section \<open>Unlinking, on the links alone\<close>

lemma repr_dom: "repr F h \<noteq> None \<longleftrightarrow> dat F h \<noteq> None"
  by (simp add: repr_def)

lemma repr_detach:
  assumes ok: "forest_ok F" and p: "par F h = Some p" and k: "kids F p = xs @ h # ys"
  defines "H \<equiv> link_prev (link_next (repr F) p (last_opt xs) (hd_opt ys)) p (hd_opt ys) (last_opt xs)"
  shows "H(h := map_option detach_links (H h)) = repr (f_detach F h)"
proof
  fix x
  have d: "distinct (xs @ h # ys)" using forest_ok_distinct [OF ok, of p] k by simp
  have in_p: "par F y = Some p" if "y \<in> set (xs @ ys)" for y
    using that k forest_ok_kid [OF ok, of y p] by auto
  have np: "p \<notin> set (xs @ h # ys)" using forest_ok_par_neq [OF ok] forest_ok_kid [OF ok] k by metis
  have q: "r \<in> set xs" "par F r = Some p" if "last_opt xs = Some r" for r
    using last_opt_in [OF that] in_p by auto
  have r: "r \<in> set ys" "par F r = Some p" if "hd_opt ys = Some r" for r
    using that in_p by (auto simp: hd_opt_Some)
  have rm: "remove1 h (kids F p) = xs @ ys" using d k by (simp add: remove1_append)
  have other: "kids F q = (kids (f_detach F h) q)" if "q \<noteq> p" for q
    using that p by (simp add: f_detach_def)
  show "(H(h := map_option detach_links (H h))) x = repr (f_detach F h) x"
  proof (cases "x = h")
    case True
    have "last_opt xs \<noteq> Some h" "hd_opt ys \<noteq> Some h" "p \<noteq> h" using d q(1) r(1) np by auto
    then have "H h = repr F h"
      by (auto simp: H_def link_prev_def link_next_def split: option.split)
    with True p show ?thesis using \<open>p \<noteq> h\<close>
      by (cases "dat F h") (simp_all add: repr_def f_detach_def detach_links_def)
  next
    case False
    have sx: "succ_in (xs @ ys) x = (if last_opt xs = Some x then hd_opt ys else succ_in (kids F p) x)"
      "pred_in (xs @ ys) x = (if hd_opt ys = Some x then last_opt xs else pred_in (kids F p) x)"
      using succ_in_delete [OF d False] pred_in_delete [OF d False] k by simp_all
    have ne: "last_opt xs = Some x \<Longrightarrow> hd_opt ys \<noteq> Some x" using q(1) r(1) d by auto
    have np': "last_opt xs = Some x \<Longrightarrow> x \<noteq> p" "hd_opt ys = Some x \<Longrightarrow> x \<noteq> p"
      using q(1) r(1) np by auto
    have Hx: "H x = map_option (\<lambda>n. n\<lparr>
        first_child := (if x = p \<and> xs = [] then hd_opt ys else first_child n),
        last_child := (if x = p \<and> ys = [] then last_opt xs else last_child n),
        next_sibling := (if last_opt xs = Some x then hd_opt ys else next_sibling n),
        prev_sibling := (if hd_opt ys = Some x then last_opt xs else prev_sibling n)\<rparr>) (repr F x)"
      using ne np' unfolding H_def link_prev_def link_next_def
      by (cases "repr F x"; cases "last_opt xs"; cases "hd_opt ys") auto
    show ?thesis
    proof (cases "x = p")
      case True
      then have "last_opt xs \<noteq> Some x" "hd_opt ys \<noteq> Some x" "par F p \<noteq> Some p"
        using np' forest_ok_par_neq [OF ok] by auto
      with True Hx False p rm k show ?thesis
        by (cases "dat F p"; cases "par F p") (auto simp: repr_def f_detach_def)
    next
      case xp: False
      have e: "kids (f_detach F h) x = kids F x" "par (f_detach F h) x = par F x" "dat (f_detach F h) x = dat F x"
        using p xp False by (simp_all add: f_detach_def)
      show ?thesis
      proof (cases "par F x = Some p")
        case True
        have "kids (f_detach F h) p = xs @ ys" using p rm by (simp add: f_detach_def)
        with True e Hx sx xp False show ?thesis by (cases "dat F x") (simp_all add: repr_def)
      next
        case no: False
        then have "last_opt xs \<noteq> Some x" "hd_opt ys \<noteq> Some x" using q(2) r(2) by auto
        moreover have "kids (f_detach F h) y = kids F y" if "par F x = Some y" for y
          using that no other [of y] by auto
        ultimately show ?thesis using e Hx xp False
          by (cases "dat F x"; cases "par F x") (simp_all add: repr_def)
      qed
    qed
  qed
qed

lemma f_detach_simps [simp]:
  "dat (f_detach F h) = dat F" "par (f_detach F h) h = None" "x \<noteq> h \<Longrightarrow> par (f_detach F h) x = par F x"
  by (auto simp: f_detach_def split: option.split)

lemma f_detach_depths:
  assumes ok: "forest_ok F" and d: "depths F d"
  shows "depths (f_detach F h) (\<lambda>x. if below F h x then d x - d h else d x)"
  unfolding depths_def
proof (intro allI impI conjI)
  let ?F = "f_detach F h"
  fix x assume x: "dat ?F x \<noteq> None"
  then have dx: "d x \<le> MAX_DEPTH" "case par F x of None \<Rightarrow> d x = 0 | Some q \<Rightarrow> d x = Suc (d q)"
    using d unfolding depths_def f_detach_simps by blast+
  then show "(if below F h x then d x - d h else d x) \<le> MAX_DEPTH" by auto
  show "case par ?F x of None \<Rightarrow> (if below F h x then d x - d h else d x) = 0
    | Some q \<Rightarrow> (if below F h x then d x - d h else d x) = Suc (if below F h q then d q - d h else d q)"
  proof (cases "x = h")
    case True
    then show ?thesis by (simp add: below_refl)
  next
    case False
    have "below F h x \<longleftrightarrow> below F h q" if "par F x = Some q" for q
      using that False below_parent below_step by metis
    moreover have "\<not> below F h x" if "par F x = None"
      using that False by (auto elim: below.cases)
    moreover have "d h \<le> d q" if "below F h q" for q by (rule below_depth [OF that d ok])
    moreover have "par ?F x = par F x" using False by simp
    ultimately show ?thesis
      using dx(2) by (auto simp: Suc_diff_le split: option.splits)
  qed
qed

lemma f_detach_ok:
  assumes ok: "forest_ok F"
  shows "forest_ok (f_detach F h)"
proof -
  from ok obtain d where "depths F d" by (auto simp: forest_ok_def)
  from f_detach_depths [OF ok this, of h] ok show ?thesis
    by (auto simp: forest_ok_def f_detach_def split: if_splits option.splits)
qed

lemma below_cong: "below G h x \<Longrightarrow> \<forall>y. y \<noteq> h \<longrightarrow> par F y = par G y \<Longrightarrow> below F h x"
proof (induction rule: below.induct)
  case (below_step x p h)
  then show ?case by (cases "x = h") (auto intro: below.intros)
qed (rule below_refl)

lemma below_detach: "below (f_detach F h) h x \<longleftrightarrow> below F h x"
  using below_cong [of F h x "f_detach F h"] below_cong [of "f_detach F h" h x F] by auto

section \<open>Detach\<close>

definition tree_inv :: "arena \<Rightarrow> forest \<Rightarrow> bool" where
  "tree_inv a F \<longleftrightarrow> alloc_ok a \<and> arena_get a = repr F \<and> forest_ok F
     \<and> dat F (document a) \<noteq> None \<and> par F (document a) = None"

lemma tree_inv_contains: "tree_inv a F \<Longrightarrow> contains a h \<longleftrightarrow> dat F h \<noteq> None"
  by (simp add: tree_inv_def contains_def repr_def)

lemma tbind_Inr: "m a = (Inr x, a') \<Longrightarrow> tbind m f a = f x a'"
  by (simp add: tbind_def)

lemma read_node_run: "arena_get a h = Some n \<Longrightarrow> read_node h a = (Inr n, a)"
  by (simp add: read_node_def)

lemma ranges_before_remove_fields:
  "ar_slots (ranges_before_remove h a) = ar_slots a" "free (ranges_before_remove h a) = free a"
  "document (ranges_before_remove h a) = document a"
  by (auto simp: ranges_before_remove_def split: option.split)

lemma ranges_before_remove_alloc:
  "alloc_ok a \<Longrightarrow> alloc_ok (ranges_before_remove h a)" "arena_get (ranges_before_remove h a) = arena_get a"
  "slot_count (ranges_before_remove h a) = slot_count a"
  using same_alloc_ok [OF _ same_alloc_ranges(1)]
  by (simp_all add: alloc_ok_fields arena_get_def fun_eq_iff slot_count_def ranges_before_remove_fields)

lemma repr_Some:
  "dat F h = Some d \<Longrightarrow> repr F h = Some \<lparr>parent = par F h, first_child = hd_opt (kids F h),
     last_child = last_opt (kids F h),
     prev_sibling = (case par F h of None \<Rightarrow> None | Some p \<Rightarrow> pred_in (kids F p) h),
     next_sibling = (case par F h of None \<Rightarrow> None | Some p \<Rightarrow> succ_in (kids F p) h), data = d\<rparr>"
  by (simp add: repr_def)

lemma detach_run:
  assumes inv: "tree_inv a F" and h: "dat F h \<noteq> None"
  obtains a' where "detach h a = (Inr (), a')" "tree_inv a' (f_detach F h)" "document a' = document a"
    "slot_count a' = slot_count a" "free a' = free a"
    "ranges a' = (if par F h = None then ranges a else ranges (ranges_before_remove h a))"
proof -
  have ok: "alloc_ok a" "forest_ok F" and H: "arena_get a = repr F" using inv by (simp_all add: tree_inv_def)
  from h obtain dh where dh: "dat F h = Some dh" by blast
  note n = repr_Some [OF dh]
  show thesis
  proof (cases "par F h")
    case None
    with inv n H show thesis
      by (intro that [of a]) (simp_all add: detach_def tbind_def read_node_def treturn_def f_detach_def)
  next
    case (Some p)
    obtain xs ys where k: "kids F p = xs @ h # ys" and d: "distinct (xs @ h # ys)"
      by (rule forest_ok_split [OF ok(2) Some])
    have mem: "repr F y \<noteq> None" if "y \<in> set (xs @ ys)" for y
      using that forest_ok_kid [OF ok(2), of y p] forest_ok_par_dat [OF ok(2), of y p] k by (auto simp: repr_def)
    have pl: "repr F p \<noteq> None" using forest_ok_par_dat [OF ok(2) Some] by (auto simp: repr_def)
    have ql: "repr F r \<noteq> None" if "last_opt xs = Some r" for r
      using mem [of r] last_opt_in [OF that] by simp
    have rl: "repr F r \<noteq> None" if "hd_opt ys = Some r" for r
      using mem [of r] that by (auto simp: hd_opt_Some)
    have prev: "prev_sibling (the (repr F h)) = last_opt xs" "next_sibling (the (repr F h)) = hd_opt ys"
      using n Some k d by (simp_all add: pred_in_here succ_in_here)
    let ?a0 = "ranges_before_remove h a"
    have a0: "alloc_ok ?a0" "arena_get ?a0 = repr F" using ok(1) H by (simp_all add: ranges_before_remove_alloc)
    obtain a1 where a1: "(case last_opt xs of Some r \<Rightarrow> modify_node r (next_sibling_update (\<lambda>_. hd_opt ys))
       | None \<Rightarrow> modify_node p (first_child_update (\<lambda>_. hd_opt ys))) ?a0 = (Inr (), a1)"
      "upd ?a0 a1 (link_next (repr F) p (last_opt xs) (hd_opt ys))"
      by (rule link_next_run [OF a0(1), of p "last_opt xs" "hd_opt ys"])
        (use a0(2) pl ql in simp_all)
    have "link_next (repr F) p (last_opt xs) (hd_opt ys) y \<noteq> None" if "repr F y \<noteq> None" for y
      using that by (auto simp: link_next_def split: option.split)
    then have mem1: "arena_get a1 y \<noteq> None" if "repr F y \<noteq> None" for y
      using that a1(2) by (simp add: upd_def)
    obtain a2 where a2: "(case hd_opt ys of Some r \<Rightarrow> modify_node r (prev_sibling_update (\<lambda>_. last_opt xs))
       | None \<Rightarrow> modify_node p (last_child_update (\<lambda>_. last_opt xs))) a1 = (Inr (), a2)"
      "upd a1 a2 (link_prev (arena_get a1) p (hd_opt ys) (last_opt xs))"
      by (rule link_prev_run [of a1 p "hd_opt ys" "last_opt xs"])
        (use a1(2) pl rl mem1 in \<open>simp_all add: upd_def\<close>)
    have "arena_get a2 h \<noteq> None"
      using a2(2) mem1 [of h] n by (auto simp: upd_def link_prev_def split: option.splits)
    then obtain nh where nh: "arena_get a2 h = Some nh" by blast
    obtain a3 where a3: "modify_node h detach_links a2 = (Inr (), a3)"
      "upd a2 a3 ((arena_get a2)(h \<mapsto> detach_links nh))"
      by (rule modify_run [OF _ nh]) (use a2(2) in \<open>simp add: upd_def\<close>)
    have run: "detach h a = (Inr (), a3)"
      using H n prev Some a1(1) a2(1) a3(1)
      by (simp add: detach_def tbind_def read_node_def cong: option.case_cong)
    have "arena_get a3 = repr (f_detach F h)"
      using repr_detach [OF ok(2) Some k] a3(2) a2(2) a1(2) nh by (simp add: upd_def)
    moreover have "dat (f_detach F h) = dat F" by (simp add: f_detach_def Some)
    moreover have "par (f_detach F h) (document a) = None"
      using inv Some by (auto simp: f_detach_def tree_inv_def)
    ultimately have "tree_inv a3 (f_detach F h)"
      using inv f_detach_ok [OF ok(2)] a3(2) a2(2) a1(2)
      by (simp add: tree_inv_def upd_def ranges_before_remove_fields)
    then show thesis
      using run a3(2) a2(2) a1(2) Some
      by (intro that [of a3]) (simp_all add: upd_def ranges_before_remove_alloc ranges_before_remove_fields)
  qed
qed

section \<open>Linking a detached node in\<close>

lemma succ_in_insert:
  assumes "distinct (xs @ c # zs)" and "x \<noteq> c"
  shows "succ_in (xs @ c # zs) x = (if last_opt xs = Some x then Some c else succ_in (xs @ zs) x)"
  using succ_in_delete [OF assms] assms succ_in_last [of xs x] last_opt_in [of xs x]
  by (auto simp: succ_in_append split: option.split)

lemma pred_in_insert:
  assumes "distinct (xs @ c # zs)" and "x \<noteq> c"
  shows "pred_in (xs @ c # zs) x = (if hd_opt zs = Some x then Some c else pred_in (xs @ zs) x)"
  using succ_in_insert [of "rev zs" c "rev xs" x] assms
  by (simp add: pred_in_def last_opt_def Int_commute)

definition f_link :: "forest \<Rightarrow> node_id \<Rightarrow> node_id list \<Rightarrow> node_id \<Rightarrow> node_id list \<Rightarrow> forest" where
  "f_link F p xs c zs = F\<lparr>kids := (kids F)(p := xs @ c # zs), par := (par F)(c := Some p)\<rparr>"

lemma repr_link:
  assumes ok: "forest_ok F" and k: "kids F p = xs @ zs" and c: "par F c = None" "c \<noteq> p"
  defines "H0 \<equiv> (repr F)(c := map_option (\<lambda>n. n\<lparr>parent := Some p, prev_sibling := last_opt xs, next_sibling := hd_opt zs\<rparr>) (repr F c))"
  defines "H \<equiv> link_prev (link_next H0 p (last_opt xs) (Some c)) p (hd_opt zs) (Some c)"
  shows "H = repr (f_link F p xs c zs)"
proof
  fix x
  let ?G = "f_link F p xs c zs"
  have cn: "c \<notin> set (xs @ zs)" using c(1) forest_ok_kid [OF ok, of c p] k by simp
  have d: "distinct (xs @ c # zs)" using forest_ok_distinct [OF ok, of p] k cn by auto
  have np: "p \<notin> set (xs @ zs)" using forest_ok_par_neq [OF ok] forest_ok_kid [OF ok] k by metis
  have q: "r \<in> set xs" "par F r = Some p" if "last_opt xs = Some r" for r
    using last_opt_in [OF that] forest_ok_kid [OF ok, of r p] k by auto
  have r: "r \<in> set zs" "par F r = Some p" if "hd_opt zs = Some r" for r
    using that forest_ok_kid [OF ok, of r p] k by (auto simp: hd_opt_Some)
  show "H x = repr ?G x"
  proof (cases "x = c")
    case True
    have "last_opt xs \<noteq> Some c" "hd_opt zs \<noteq> Some c" using cn q(1) r(1) by auto
    then have "H c = H0 c"
      using c(2) by (auto simp: H_def link_prev_def link_next_def split: option.split)
    with True c show ?thesis
      by (cases "dat F c") (simp_all add: H0_def repr_def f_link_def pred_in_here [OF d] succ_in_here [OF d])
  next
    case False
    have sx: "succ_in (xs @ c # zs) x = (if last_opt xs = Some x then Some c else succ_in (kids F p) x)"
      "pred_in (xs @ c # zs) x = (if hd_opt zs = Some x then Some c else pred_in (kids F p) x)"
      using succ_in_insert [OF d False] pred_in_insert [OF d False] k by simp_all
    have ne: "last_opt xs = Some x \<Longrightarrow> hd_opt zs \<noteq> Some x" using q(1) r(1) d by auto
    have np': "last_opt xs = Some x \<Longrightarrow> x \<noteq> p" "hd_opt zs = Some x \<Longrightarrow> x \<noteq> p"
      using q(1) r(1) np by auto
    have Hx: "H x = map_option (\<lambda>n. n\<lparr>
        first_child := (if x = p \<and> xs = [] then Some c else first_child n),
        last_child := (if x = p \<and> zs = [] then Some c else last_child n),
        next_sibling := (if last_opt xs = Some x then Some c else next_sibling n),
        prev_sibling := (if hd_opt zs = Some x then Some c else prev_sibling n)\<rparr>) (repr F x)"
      using ne np' False unfolding H_def H0_def link_prev_def link_next_def
      by (cases "repr F x"; cases "last_opt xs"; cases "hd_opt zs") auto
    have e: "par ?G x = par F x" "dat ?G x = dat F x" "q \<noteq> p \<Longrightarrow> kids ?G q = kids F q" "kids ?G p = xs @ c # zs" for q
      using False by (simp_all add: f_link_def)
    show ?thesis
    proof (cases "x = p")
      case True
      then have "last_opt xs \<noteq> Some x" "hd_opt zs \<noteq> Some x" "par F p \<noteq> Some p"
        using np' forest_ok_par_neq [OF ok] by auto
      with True Hx k e show ?thesis
        by (cases "dat F p"; cases "par F p") (auto simp: repr_def)
    next
      case xp: False
      show ?thesis
      proof (cases "par F x = Some p")
        case True
        with e Hx sx xp show ?thesis by (cases "dat F x") (simp_all add: repr_def)
      next
        case no: False
        then have "last_opt xs \<noteq> Some x" "hd_opt zs \<noteq> Some x" using q(2) r(2) by auto
        with e Hx xp no show ?thesis
          by (cases "dat F x"; cases "par F x") (auto simp: repr_def)
      qed
    qed
  qed
qed

lemma f_link_ok:
  assumes ok: "forest_ok F" and k: "kids F p = xs @ zs" and c: "par F c = None" "dat F c \<noteq> None"
    and p: "dat F p = Some dp" "can_have_children dp" and nb: "\<not> below F c p"
    and d: "depths F d" and h: "\<And>x. below F c x \<Longrightarrow> dat F x \<noteq> None \<Longrightarrow> Suc (d p) + d x \<le> MAX_DEPTH"
  shows "forest_ok (f_link F p xs c zs)"
    and "depths (f_link F p xs c zs) (\<lambda>x. if below F c x then Suc (d p) + d x else d x)"
proof -
  let ?G = "f_link F p xs c zs"
  let ?d = "\<lambda>x. if below F c x then Suc (d p) + d x else d x"
  show dG: "depths ?G ?d"
    unfolding depths_def
  proof (intro allI impI conjI)
    fix x assume x: "dat ?G x \<noteq> None"
    then have dx: "dat F x \<noteq> None" "d x \<le> MAX_DEPTH" "case par F x of None \<Rightarrow> d x = 0 | Some q \<Rightarrow> d x = Suc (d q)"
      using d by (auto simp: depths_def f_link_def)
    then show "?d x \<le> MAX_DEPTH" using h [of x] by auto
    show "case par ?G x of None \<Rightarrow> ?d x = 0 | Some q \<Rightarrow> ?d x = Suc (?d q)"
    proof (cases "x = c")
      case True
      with dx c(1) nb show ?thesis by (simp add: f_link_def below_refl)
    next
      case False
      have "below F c x \<longleftrightarrow> below F c q" if "par F x = Some q" for q
        using that False below_parent below_step by metis
      moreover have "\<not> below F c x" if "par F x = None"
        using that False by (auto elim: below.cases)
      ultimately show ?thesis
        using dx(3) False by (auto simp: f_link_def split: option.splits)
    qed
  qed
  have cn: "c \<notin> set (xs @ zs)" using c(1) forest_ok_kid [OF ok, of c p] k by simp
  have "distinct (xs @ c # zs)" using forest_ok_distinct [OF ok, of p] k cn by auto
  then have "\<forall>q. distinct (kids ?G q)" using ok by (simp add: f_link_def forest_ok_def)
  moreover have "\<forall>y q. y \<in> set (kids ?G q) \<longleftrightarrow> par ?G y = Some q"
  proof (intro allI)
    fix y q
    show "y \<in> set (kids ?G q) \<longleftrightarrow> par ?G y = Some q"
      using forest_ok_kid [OF ok, of y q] k c(1) by (auto simp: f_link_def)
  qed
  moreover have "\<forall>y q. par ?G y = Some q \<longrightarrow> dat ?G y \<noteq> None \<and> (\<exists>d. dat ?G q = Some d \<and> can_have_children d)"
    using ok c(2) p by (auto simp: f_link_def forest_ok_def)
  ultimately show "forest_ok ?G" unfolding forest_ok_def using dG by blast
qed

end
