(* ===== verification/Dom_Walks.thy ===== *)
theory Dom_Walks
  imports Dom_Refine
begin

text \<open>
  What the arena's bounded walks compute on a well-formed tree: the child walks return
  the child list, the upward walks the depth and the ancestors, and the height walk
  bounds the depth of everything below a node.
\<close>

section \<open>Live handles are few\<close>

lemma contains_index:
  assumes "alloc_ok a" and "contains a h"
  shows "unat (index h) < slot_count a"
proof -
  from assms(2) obtain s where "slots_get (ar_slots a) (unat (index h)) = Some s"
    by (auto simp: contains_def arena_get_Some)
  with slot_store.fetch_in [of "ar_slots a" "unat (index h)"] assms(1) show ?thesis
    by (simp add: alloc_ok_def slot_count_def)
qed

lemma contains_same_index:
  assumes "contains a h" and "contains a q" and "index h = index q"
  shows "h = q"
  using assms by (auto simp: contains_def arena_get_Some intro: node_id.expand)

lemma live_list_length:
  assumes "alloc_ok a" and "distinct hs" and "\<And>h. h \<in> set hs \<Longrightarrow> contains a h"
  shows "length hs \<le> slot_count a"
proof -
  have "inj_on (\<lambda>h. unat (index h)) (set hs)"
    using assms(3) contains_same_index by (intro inj_onI) (metis word_unat_eq_iff)
  moreover have "(\<lambda>h. unat (index h)) ` set hs \<subseteq> {..<slot_count a}"
    using assms(3) contains_index [OF assms(1)] by auto
  ultimately have "card (set hs) \<le> card {..<slot_count a}" by (rule card_inj_on_le) simp
  with distinct_card [OF assms(2)] show ?thesis by simp
qed

lemma kids_live:
  assumes "tree_inv a F" and "c \<in> set (kids F p)"
  shows "contains a c" and "dat F c \<noteq> None" and "par F c = Some p"
  using assms forest_ok_kid [of F c p] forest_ok_par_dat [of F c p] tree_inv_contains [OF assms(1)]
  by (auto simp: tree_inv_def)

lemma kids_length:
  assumes "tree_inv a F"
  shows "length (kids F p) \<le> slot_count a"
proof (rule live_list_length)
  show "alloc_ok a" "distinct (kids F p)" using assms forest_ok_distinct by (auto simp: tree_inv_def)
qed (rule kids_live(1) [OF assms])

section \<open>Child walks\<close>

lemma get_first:
  assumes "tree_inv a F" and "dat F p \<noteq> None"
  shows "\<exists>n. arena_get a p = Some n \<and> first_child n = hd_opt (kids F p) \<and> last_child n = last_opt (kids F p)
     \<and> parent n = par F p \<and> data n = the (dat F p)"
  using assms by (auto simp: tree_inv_def repr_def)

lemma get_next:
  assumes inv: "tree_inv a F" and k: "kids F p = xs @ c # ys"
  shows "\<exists>n. arena_get a c = Some n \<and> next_sibling n = hd_opt ys \<and> prev_sibling n = last_opt xs \<and> parent n = Some p"
proof -
  have "c \<in> set (kids F p)" using k by simp
  note c = kids_live [OF inv this]
  have "distinct (xs @ c # ys)" using inv forest_ok_distinct [of F p] k by (simp add: tree_inv_def)
  with c k inv show ?thesis by (auto simp: tree_inv_def repr_def succ_in_here pred_in_here)
qed

lemma children_loop_kids:
  assumes inv: "tree_inv a F" and k: "kids F p = xs @ ys"
  shows "children_loop a xs (hd_opt ys) = Some (xs @ ys)"
  using k
proof (induction ys arbitrary: xs)
  case (Cons c ys)
  from get_next [OF inv Cons.prems] obtain n where n: "arena_get a c = Some n" "next_sibling n = hd_opt ys" by blast
  have "length (xs @ [c]) \<le> slot_count a" using kids_length [OF inv, of p] Cons.prems by simp
  with n Cons.IH [of "xs @ [c]"] Cons.prems show ?case by simp
qed simp

lemma children_kids: "tree_inv a F \<Longrightarrow> children a p = (if dat F p = None then None else Some (kids F p))"
  using get_first [of a F p] children_loop_kids [of a F p "[]" "kids F p"]
  by (auto simp: children_def tree_inv_def repr_def)

lemma child_iter_kids:
  assumes inv: "tree_inv a F" and k: "kids F p = xs @ ys" and "length ys \<le> b"
  shows "child_iter a b (hd_opt ys) = ys"
  using k assms(3)
proof (induction ys arbitrary: xs b)
  case Nil
  then show ?case by (cases b) simp_all
next
  case (Cons c ys)
  from get_next [OF inv Cons.prems(1)] obtain n where n: "arena_get a c = Some n" "next_sibling n = hd_opt ys" by blast
  from Cons.prems(2) obtain b' where "b = Suc b'" "length ys \<le> b'" by (cases b) auto
  with n Cons.IH [of "xs @ [c]" b'] Cons.prems(1) show ?case by simp
qed

lemma child_ids_kids: "tree_inv a F \<Longrightarrow> dat F p \<noteq> None \<Longrightarrow> child_ids a p = kids F p"
  using get_first [of a F p] child_iter_kids [of a F p "[]" "kids F p" "slot_count a"] kids_length [of a F p]
  by (auto simp: child_ids_def)

lemma pos_of_split: "c \<notin> set xs \<Longrightarrow> pos_of c (xs @ c # ys) = Some (length xs)"
  by (induction xs) auto

lemma index_of_split:
  assumes inv: "tree_inv a F" and k: "kids F p = xs @ c # ys"
  shows "index_of a c = Some (length xs)"
proof -
  have "c \<in> set (kids F p)" using k by simp
  note c = kids_live [OF inv this]
  have "dat F p \<noteq> None" using inv c(3) forest_ok_par_dat [of F c p] by (simp add: tree_inv_def)
  moreover have "c \<notin> set xs" using inv forest_ok_distinct [of F p] k by (simp add: tree_inv_def)
  ultimately show ?thesis
    using get_first [OF inv c(2)] child_ids_kids [OF inv, of p] pos_of_split [of c xs ys] c(3) k
    by (auto simp: index_of_def)
qed

section \<open>Upward walks\<close>

lemma depths_parent: "depths F d \<Longrightarrow> dat F x \<noteq> None \<Longrightarrow> par F x = Some p \<Longrightarrow> d x = Suc (d p)"
  and depths_root: "depths F d \<Longrightarrow> dat F x \<noteq> None \<Longrightarrow> par F x = None \<Longrightarrow> d x = 0"
  and depths_bound: "depths F d \<Longrightarrow> dat F x \<noteq> None \<Longrightarrow> d x \<le> MAX_DEPTH"
  by (auto simp: depths_def)

lemma below_root: "par F x = None \<Longrightarrow> below F h x \<longleftrightarrow> h = x"
  by (auto elim: below.cases intro: below_refl)

lemma below_up: "par F x = Some p \<Longrightarrow> h \<noteq> x \<Longrightarrow> below F h x \<longleftrightarrow> below F h p"
  by (auto elim: below.cases intro: below_step)

lemma depth_loop_up:
  assumes inv: "tree_inv a F" and d: "depths F d"
  shows "dat F x \<noteq> None \<Longrightarrow> k + d x \<le> MAX_DEPTH \<Longrightarrow> depth_loop a k (par F x) = Inr (k + d x)"
proof (induction "d x" arbitrary: x k)
  case 0
  then have "par F x = None" using depths_parent [OF d, of x] by (cases "par F x") auto
  with 0 show ?case by simp
next
  case (Suc m)
  then obtain p where p: "par F x = Some p" using depths_root [OF d, of x] by (cases "par F x") auto
  then have pl: "dat F p \<noteq> None" using inv forest_ok_par_dat [of F x p] by (simp add: tree_inv_def)
  have "d x = Suc (d p)" using depths_parent [OF d] Suc.prems(1) p by simp
  with Suc p pl get_first [OF inv pl] show ?case by auto
qed

lemma depth_correct: "tree_inv a F \<Longrightarrow> depths F d \<Longrightarrow> dat F x \<noteq> None \<Longrightarrow> depth a x = Inr (d x)"
  using get_first [of a F x] depth_loop_up [of a F d x 0] depths_bound [of F d x] by (auto simp: depth_def)

lemma insert_walk_up:
  assumes inv: "tree_inv a F" and d: "depths F d"
  shows "dat F x \<noteq> None \<Longrightarrow> k + Suc (d x) \<le> MAX_DEPTH \<Longrightarrow> \<not> below F c x
     \<Longrightarrow> insert_walk a c k (Some x) = Inr (k + Suc (d x))"
proof (induction "d x" arbitrary: x k)
  case 0
  then have "par F x = None" using depths_parent [OF d, of x] by (cases "par F x") auto
  with 0 get_first [OF inv 0(2)] show ?case by (auto simp: below_root)
next
  case (Suc m)
  then obtain p where p: "par F x = Some p" using depths_root [OF d, of x] by (cases "par F x") auto
  then have pl: "dat F p \<noteq> None" using inv forest_ok_par_dat [of F x p] by (simp add: tree_inv_def)
  have "d x = Suc (d p)" using depths_parent [OF d] Suc.prems(1) p by simp
  moreover have "c \<noteq> x" "\<not> below F c p" using Suc.prems(3) p by (auto intro: below_refl below_step)
  ultimately show ?case using Suc p pl get_first [OF inv Suc.prems(1)] by auto
qed

lemma insert_walk_Inr:
  assumes inv: "tree_inv a F" and d: "depths F d"
  shows "dat F x \<noteq> None \<Longrightarrow> insert_walk a c k (Some x) = Inr m \<Longrightarrow> \<not> below F c x \<and> m = k + Suc (d x)"
proof (induction "d x" arbitrary: x k)
  case 0
  then have "par F x = None" using depths_parent [OF d, of x] by (cases "par F x") auto
  with 0 get_first [OF inv 0(2)] show ?case by (auto simp: below_root split: if_splits)
next
  case (Suc n)
  then obtain p where p: "par F x = Some p" using depths_root [OF d, of x] by (cases "par F x") auto
  then have pl: "dat F p \<noteq> None" using inv forest_ok_par_dat [of F x p] by (simp add: tree_inv_def)
  have dx: "d x = Suc (d p)" using depths_parent [OF d] Suc.prems(1) p by simp
  from Suc.prems(2) get_first [OF inv Suc.prems(1)] p have "c \<noteq> x" "insert_walk a c (Suc k) (Some p) = Inr m"
    by (auto split: if_splits)
  with Suc.hyps(1) [of p "Suc k"] Suc.hyps(2) dx pl below_up [OF p, of c] show ?case by auto
qed

section \<open>The height of a subtree\<close>

lemma height_push_kids:
  assumes inv: "tree_inv a F" and k: "kids F p = xs @ ys"
    and "height_push a lim rel (hd_opt ys) st = Inr st'"
  shows "st' = rev (map (\<lambda>c. (c, rel + 1)) ys) @ st"
  using k assms(3)
proof (induction ys arbitrary: xs st)
  case (Cons c ys)
  from get_next [OF inv Cons.prems(1)] obtain n where n: "arena_get a c = Some n" "next_sibling n = hd_opt ys" by blast
  with Cons.prems(2) have "height_push a lim rel (hd_opt ys) ((c, rel + 1) # st) = Inr st'"
    by (auto split: if_splits)
  with Cons.IH [of "xs @ [c]"] Cons.prems(1) show ?case by simp
qed simp

lemma below_split: "below F x y \<Longrightarrow> forest_ok F \<Longrightarrow> y \<noteq> x \<Longrightarrow> \<exists>k \<in> set (kids F x). below F k y"
proof (induction rule: below.induct)
  case (below_step y p x)
  show ?case
  proof (cases "p = x")
    case True
    with below_step have "y \<in> set (kids F x)" by (simp add: forest_ok_kid)
    then show ?thesis using below_refl by blast
  next
    case False
    then obtain k where "k \<in> set (kids F x)" "below F k p" using below_step by blast
    then show ?thesis using below.below_step [OF below_step(1)] by blast
  qed
qed simp

lemma height_loop_sound:
  assumes inv: "tree_inv a F" and d: "depths F d"
  shows "height_loop a lim b h st = Inr m \<Longrightarrow> \<forall>(x, rel) \<in> set st. dat F x \<noteq> None
     \<Longrightarrow> h \<le> m \<and> (\<forall>(x, rel) \<in> set st. \<forall>y. below F x y \<longrightarrow> rel + d y \<le> m + d x)"
proof (induction b arbitrary: h st)
  case 0
  then show ?case by (cases st) auto
next
  case (Suc b)
  have ok: "forest_ok F" using inv by (simp add: tree_inv_def)
  show ?case
  proof (cases st)
    case Nil
    with Suc.prems show ?thesis by simp
  next
    case (Cons e st0)
    obtain x rel where e: "e = (x, rel)" by (cases e)
    have x: "dat F x \<noteq> None" using Suc.prems(2) Cons e by auto
    from get_first [OF inv x] obtain n where n: "arena_get a x = Some n" "first_child n = hd_opt (kids F x)" by blast
    from Suc.prems(1) Cons e n obtain st' where
      push: "height_push a lim rel (hd_opt (kids F x)) st0 = Inr st'"
      and rest: "height_loop a lim b (max h rel) st' = Inr m"
      by (auto simp: Let_def split: if_splits sum.split_asm)
    have st': "set st' = set st0 \<union> (\<lambda>c. (c, rel + 1)) ` set (kids F x)"
      using height_push_kids [OF inv _ push, of x "[]"] by auto
    have "\<forall>(y, rel) \<in> set st'. dat F y \<noteq> None"
      using st' Suc.prems(2) Cons kids_live(2) [OF inv] by auto
    from Suc.IH [OF rest this] have m: "h \<le> m" "rel \<le> m"
      and bound: "\<forall>(z, r) \<in> set st'. \<forall>y. below F z y \<longrightarrow> r + d y \<le> m + d z" by auto
    have "rel + d y \<le> m + d x" if y: "below F x y" for y
    proof (cases "y = x")
      case True
      with m show ?thesis by simp
    next
      case False
      obtain k where k: "k \<in> set (kids F x)" "below F k y" using below_split [OF y ok False] by blast
      have "d k = Suc (d x)" using depths_parent [OF d] kids_live(2,3) [OF inv k(1)] by simp
      moreover have "(k, rel + 1) \<in> set st'" using st' k(1) by simp
      then have "rel + 1 + d y \<le> m + d k" using bound k(2) by fast
      ultimately show ?thesis by simp
    qed
    moreover have "\<forall>(z, r) \<in> set st0. \<forall>y. below F z y \<longrightarrow> r + d y \<le> m + d z"
      using bound st' by simp
    ultimately show ?thesis using m Cons e by simp
  qed
qed

lemma subtree_height_sound:
  assumes "tree_inv a F" and "depths F d" and "dat F c \<noteq> None" and "subtree_height a c = Inr m" and "below F c y"
  shows "d y \<le> m + d c"
  using height_loop_sound [OF assms(1,2), of "slot_count a + 1" "slot_count a + 1" 0 "[(c, 0)]" m] assms(3-)
  by (auto simp: subtree_height_def)

end
