(* ===== verification/Dom_Ops.thy ===== *)
theory Dom_Ops
  imports Dom_Walks
begin

text \<open>
  The structural mutations on a well-formed tree: when an insertion is accepted, that it
  then cannot fail half-way, and which forest it leads to.
\<close>

section \<open>Accepted insertions\<close>

lemma check_insertable_state: "snd (check_insertable p c a) = a"
  by (simp add: check_insertable_def split: option.split sum.split)

lemma check_insertable_Inr:
  assumes inv: "tree_inv a F" and chk: "fst (check_insertable p c a) = Inr ()"
  obtains dp where "dat F p = Some dp" "can_have_children dp" "dat F c \<noteq> None" "c \<noteq> document a" "p \<noteq> c"
    "\<not> below F c p" "\<And>d x. depths F d \<Longrightarrow> below F c x \<Longrightarrow> Suc (d p) + d x \<le> MAX_DEPTH + d c"
proof -
  from chk obtain m k where live: "contains a p" "contains a c" and ne: "p \<noteq> c" "c \<noteq> document a"
    and can: "case arena_get a p of None \<Rightarrow> False | Some n \<Rightarrow> can_have_children (data n)"
    and walk: "insert_walk a c 0 (Some p) = Inr m" and h: "subtree_height a c = Inr k" "m + k \<le> MAX_DEPTH"
    by (auto simp: check_insertable_def split: if_splits sum.split_asm)
  from live tree_inv_contains [OF inv] have dp: "dat F p \<noteq> None" and dc: "dat F c \<noteq> None" by auto
  from dp obtain d1 where d1: "dat F p = Some d1" by blast
  have "can_have_children d1" using can get_first [OF inv dp] d1 by auto
  moreover have b: "\<not> below F c p" and mm: "depths F d \<Longrightarrow> m = Suc (d p)" for d
    using inv insert_walk_Inr [OF inv _ dp walk] by (auto simp: tree_inv_def forest_ok_def)
  moreover have "Suc (d p) + d x \<le> MAX_DEPTH + d c" if "depths F d" "below F c x" for d x
    using subtree_height_sound [OF inv that(1) dc h(1) that(2)] mm [OF that(1)] h(2) by simp
  ultimately show thesis using that d1 dc ne by blast
qed

lemma f_link_after_detach:
  assumes inv: "tree_inv a F" and chk: "fst (check_insertable p c a) = Inr ()"
    and k: "kids (f_detach F c) p = xs @ zs"
  shows "forest_ok (f_link (f_detach F c) p xs c zs)"
proof -
  from check_insertable_Inr [OF inv chk] obtain dp where
    p: "dat F p = Some dp" "can_have_children dp" and c: "dat F c \<noteq> None" and b: "\<not> below F c p"
    and h: "\<And>d x. depths F d \<Longrightarrow> below F c x \<Longrightarrow> Suc (d p) + d x \<le> MAX_DEPTH + d c" by metis
  have ok: "forest_ok F" using inv by (simp add: tree_inv_def)
  then obtain d where d: "depths F d" by (auto simp: forest_ok_def)
  let ?d = "\<lambda>x. if below F c x then d x - d c else d x"
  show ?thesis
  proof (rule f_link_ok(1) [OF f_detach_ok [OF ok] k _ _ _ p(2) _ f_detach_depths [OF ok d, of c]])
    show "par (f_detach F c) c = None" "dat (f_detach F c) c \<noteq> None" "dat (f_detach F c) p = Some dp"
      using c p by simp_all
    show "\<not> below (f_detach F c) c p" using b by (simp add: below_detach)
    fix x assume "below (f_detach F c) c x"
    then have x: "below F c x" by (simp add: below_detach)
    show "Suc (if below F c p then d p - d c else d p) + (if below F c x then d x - d c else d x) \<le> MAX_DEPTH"
      using h [OF d x] b x below_depth [OF x d ok] by simp
  qed
qed

section \<open>Running the insertions\<close>

lemma link_commute:
  "link_next (link_prev H p q v) p r w = link_prev (link_next H p r w) p q v"
proof
  fix x
  show "link_next (link_prev H p q v) p r w x = link_prev (link_next H p r w) p q v x"
    by (cases q; cases r; cases "H x") (auto simp: link_next_def link_prev_def)
qed

lemma upd_trans: "upd a b H \<Longrightarrow> upd b c H' \<Longrightarrow> upd a c H'"
  by (simp add: upd_def)

lemma link_next_dom: "link_next H p q v x = None \<longleftrightarrow> H x = None"
  by (auto simp: link_next_def split: option.split)

lemma link_run_end:
  assumes inv: "tree_inv a F" and k: "kids F p = xs @ zs" and c: "par F c = None" "c \<noteq> p" "dat F c \<noteq> None"
    and p: "dat F p \<noteq> None"
  obtains a1 where "modify_node c (\<lambda>n. n\<lparr>parent := Some p, prev_sibling := last_opt xs, next_sibling := hd_opt zs\<rparr>) a = (Inr (), a1)"
    "upd a a1 ((repr F)(c := map_option (\<lambda>n. n\<lparr>parent := Some p, prev_sibling := last_opt xs, next_sibling := hd_opt zs\<rparr>) (repr F c)))"
    "\<And>x. x \<in> set (p # xs @ zs) \<Longrightarrow> arena_get a1 x \<noteq> None"
proof -
  have ok: "alloc_ok a" "arena_get a = repr F" using inv by (simp_all add: tree_inv_def)
  from c(3) obtain n where n: "arena_get a c = Some n" using get_first [OF inv c(3)] by blast
  obtain a1 where a1: "modify_node c (\<lambda>n. n\<lparr>parent := Some p, prev_sibling := last_opt xs, next_sibling := hd_opt zs\<rparr>) a = (Inr (), a1)"
    "upd a a1 ((arena_get a)(c \<mapsto> n\<lparr>parent := Some p, prev_sibling := last_opt xs, next_sibling := hd_opt zs\<rparr>))"
    by (rule modify_run [OF ok(1) n])
  have "arena_get a1 x \<noteq> None" if "x \<in> set (p # xs @ zs)" for x
    using that a1(2) p k kids_live(2) [OF inv, of x p] ok(2) by (auto simp: upd_def repr_def)
  with a1 n ok(2) show thesis by (intro that [of a1]) simp_all
qed

lemma append_run:
  assumes inv: "tree_inv a F" and chk: "fst (check_insertable p c a) = Inr ()"
  obtains a' where "append_child p c a = (Inr (), a')" "tree_inv a' (f_append (f_detach F c) p c)"
    "document a' = document a" "slot_count a' = slot_count a"
    "ranges a' = (if par F c = None then ranges a else ranges (ranges_before_remove c a))"
proof -
  from check_insertable_Inr [OF inv chk] obtain dp where
    p: "dat F p = Some dp" and c: "dat F c \<noteq> None" "c \<noteq> document a" "p \<noteq> c" by metis
  let ?F = "f_detach F c" and ?ks = "kids (f_detach F c) p"
  obtain a1 where a1: "detach c a = (Inr (), a1)" "tree_inv a1 ?F" "document a1 = document a"
    "slot_count a1 = slot_count a"
    "ranges a1 = (if par F c = None then ranges a else ranges (ranges_before_remove c a))"
    by (rule detach_run [OF inv c(1)])
  have ok1: "alloc_ok a1" "forest_ok ?F" using a1(2) by (simp_all add: tree_inv_def)
  from get_first [OF a1(2), of p] p obtain pn where
    pn: "arena_get a1 p = Some pn" "last_child pn = last_opt ?ks" by auto
  obtain a2 where a2: "modify_node c (\<lambda>n. n\<lparr>parent := Some p, prev_sibling := last_opt ?ks, next_sibling := hd_opt []\<rparr>) a1 = (Inr (), a2)"
    "upd a1 a2 ((repr ?F)(c := map_option (\<lambda>n. n\<lparr>parent := Some p, prev_sibling := last_opt ?ks, next_sibling := hd_opt []\<rparr>) (repr ?F c)))"
    "\<And>x. x \<in> set (p # ?ks @ []) \<Longrightarrow> arena_get a2 x \<noteq> None"
    by (rule link_run_end [OF a1(2), of p ?ks "[]" c]) (use c p in auto)
  obtain a3 where a3: "(case last_opt ?ks of Some r \<Rightarrow> modify_node r (next_sibling_update (\<lambda>_. Some c))
       | None \<Rightarrow> modify_node p (first_child_update (\<lambda>_. Some c))) a2 = (Inr (), a3)"
      "upd a2 a3 (link_next (arena_get a2) p (last_opt ?ks) (Some c))"
    by (rule link_next_run [of a2 p "last_opt ?ks" "Some c"]) (use a2 last_opt_in [of ?ks] in \<open>auto simp: upd_def\<close>)
  have "arena_get a3 p \<noteq> None" using a3(2) a2(3) [of p] by (simp add: upd_def link_next_dom)
  then obtain p3 where p3: "arena_get a3 p = Some p3" by blast
  obtain a4 where a4: "modify_node p (last_child_update (\<lambda>_. Some c)) a3 = (Inr (), a4)"
    "upd a3 a4 ((arena_get a3)(p \<mapsto> last_child_update (\<lambda>_. Some c) p3))"
    by (rule modify_run [OF _ p3]) (use a3(2) in \<open>simp add: upd_def\<close>)
  have run: "append_child p c a = (Inr (), a4)"
    using chk check_insertable_state [of p c a] a1(1) pn a2(1) a3(1) a4(1)
    by (cases "check_insertable p c a") (simp add: append_child_def tbind_def read_node_def Let_def cong: option.case_cong)
  have fa: "f_append ?F p c = f_link ?F p ?ks c []" by (simp add: f_append_def f_link_def)
  have "arena_get a4 = repr (f_append ?F p c)"
    using repr_link [OF ok1(2), of p ?ks "[]" c] a4(2) a3(2) a2(2) p3 c
    by (simp add: upd_def fa link_prev_def)
  moreover have "forest_ok (f_append ?F p c)" using f_link_after_detach [OF inv chk, of ?ks "[]"] by (simp add: fa)
  moreover have "alloc_ok a4" "document a4 = document a" "slot_count a4 = slot_count a" "ranges a4 = ranges a1"
    using a4(2) a3(2) a2(2) a1(3,4) by (simp_all add: upd_def)
  moreover have "par (f_append ?F p c) (document a) = None" "dat (f_append ?F p c) (document a) \<noteq> None"
    using a1(2,3) c(2) by (simp_all add: f_append_def tree_inv_def)
  ultimately show thesis using run a1(5) by (intro that [of a4]) (simp_all add: tree_inv_def)
qed

lemma ranges_after_insert_fields:
  "ar_slots (ranges_after_insert p i a) = ar_slots a" "document (ranges_after_insert p i a) = document a"
  by (simp_all add: ranges_after_insert_def)

lemma ranges_after_insert_inv: "tree_inv a F \<Longrightarrow> tree_inv (ranges_after_insert p i a) F"
  and ranges_after_insert_count: "slot_count (ranges_after_insert p i a) = slot_count a"
proof -
  assume inv: "tree_inv a F"
  have "alloc_ok (ranges_after_insert p i a)"
    using inv same_alloc_ok [OF _ same_alloc_ranges(2)] by (simp add: tree_inv_def alloc_ok_fields)
  moreover have "arena_get (ranges_after_insert p i a) = arena_get a"
    by (simp add: fun_eq_iff arena_get_def ranges_after_insert_fields)
  ultimately show "tree_inv (ranges_after_insert p i a) F"
    using inv by (simp add: tree_inv_def ranges_after_insert_fields)
qed (simp add: slot_count_def ranges_after_insert_fields)

lemma kids_after_detach:
  assumes "forest_ok F" and "par F s = Some p" and "s \<noteq> c"
  obtains xs ys where "kids (f_detach F c) p = xs @ s # ys" "distinct (xs @ s # ys)"
  using forest_ok_split [OF f_detach_ok [OF assms(1), of c], of s p] assms(2,3) by auto

lemma insert_run:
  assumes inv: "tree_inv a F" and s: "par F s = Some p" "s \<noteq> c"
    and chk: "fst (check_insertable p c a) = Inr ()"
  obtains a' where "insert_before s c a = (Inr (), a')" "tree_inv a' (f_insert (f_detach F c) p s c)"
    "document a' = document a" "slot_count a' = slot_count a"
    "\<And>xs ys. kids (f_detach F c) p = xs @ s # ys \<Longrightarrow>
       ranges a' = ranges (ranges_after_insert p (length xs) (if par F c = None then a else ranges_before_remove c a))"
proof -
  from check_insertable_Inr [OF inv chk] obtain dp where
    p: "dat F p = Some dp" and c: "dat F c \<noteq> None" "c \<noteq> document a" "p \<noteq> c" by metis
  let ?F = "f_detach F c"
  have okF: "forest_ok F" using inv by (simp add: tree_inv_def)
  have sd: "dat F s \<noteq> None" using forest_ok_par_dat [OF okF s(1)] by simp
  obtain a1 where a1: "detach c a = (Inr (), a1)" "tree_inv a1 ?F" "document a1 = document a"
    "slot_count a1 = slot_count a" "ranges a1 = (if par F c = None then ranges a else ranges (ranges_before_remove c a))"
    by (rule detach_run [OF inv c(1)])
  obtain xs ys where k: "kids ?F p = xs @ s # ys" "distinct (xs @ s # ys)"
    by (rule kids_after_detach [OF okF s])
  have ok1: "alloc_ok a1" "forest_ok ?F" using a1(2) by (simp_all add: tree_inv_def)
  from get_first [OF inv sd] s(1) obtain sn where sn: "arena_get a s = Some sn" "parent sn = Some p" by auto
  from get_next [OF a1(2) k(1)] obtain sn' where sn': "arena_get a1 s = Some sn'" "prev_sibling sn' = last_opt xs" by auto
  obtain a2 where a2: "modify_node c (\<lambda>n. n\<lparr>parent := Some p, prev_sibling := last_opt xs, next_sibling := hd_opt (s # ys)\<rparr>) a1 = (Inr (), a2)"
    "upd a1 a2 ((repr ?F)(c := map_option (\<lambda>n. n\<lparr>parent := Some p, prev_sibling := last_opt xs, next_sibling := hd_opt (s # ys)\<rparr>) (repr ?F c)))"
    "\<And>x. x \<in> set (p # xs @ s # ys) \<Longrightarrow> arena_get a2 x \<noteq> None"
    by (rule link_run_end [OF a1(2), of p xs "s # ys" c]) (use c p k in auto)
  obtain a3 where a3: "(case Some s of Some r \<Rightarrow> modify_node r (prev_sibling_update (\<lambda>_. Some c))
       | None \<Rightarrow> modify_node p (last_child_update (\<lambda>_. Some c))) a2 = (Inr (), a3)"
      "upd a2 a3 (link_prev (arena_get a2) p (Some s) (Some c))"
    by (rule link_prev_run [of a2 p "Some s" "Some c"]) (use a2 in \<open>auto simp: upd_def\<close>)
  have live3: "arena_get a3 x \<noteq> None" if "x \<in> set (p # xs @ s # ys)" for x
    using a3(2) a2(3) [OF that] a2(3) [of s] by (auto simp: upd_def link_prev_def)
  obtain a4 where a4: "(case last_opt xs of Some r \<Rightarrow> modify_node r (next_sibling_update (\<lambda>_. Some c))
       | None \<Rightarrow> modify_node p (first_child_update (\<lambda>_. Some c))) a3 = (Inr (), a4)"
      "upd a3 a4 (link_next (arena_get a3) p (last_opt xs) (Some c))"
    by (rule link_next_run [of a3 p "last_opt xs" "Some c"])
      (use a3(2) live3 last_opt_in [of xs] in \<open>auto simp: upd_def\<close>)
  define a5 where "a5 = (case index_of a4 c of None \<Rightarrow> a4 | Some i \<Rightarrow> ranges_after_insert p i a4)"
  have run: "insert_before s c a = (Inr (), a5)"
    using chk check_insertable_state [of p c a] sn sn' a1(1) a2(1) a3(1) a4(1)
    by (cases "check_insertable p c a")
      (simp add: insert_before_def tbind_def read_node_def Let_def a5_def cong: option.case_cong)
  have "s \<notin> set xs" using k(2) by simp
  then have fi: "f_insert ?F p s c = f_link ?F p xs c (s # ys)"
    by (simp add: f_insert_def f_link_def k(1) insert_at_split)
  have "arena_get a4 = repr (f_insert ?F p s c)"
    using repr_link [OF ok1(2) k(1), of c] a4(2) a3(2) a2(2) c
    by (simp add: upd_def fi link_commute)
  moreover have "forest_ok (f_insert ?F p s c)" using f_link_after_detach [OF inv chk k(1)] by (simp add: fi)
  moreover have "alloc_ok a4" "document a4 = document a" "slot_count a4 = slot_count a"
    using a4(2) a3(2) a2(2) a1(3,4) by (simp_all add: upd_def)
  moreover have "par (f_insert ?F p s c) (document a) = None" "dat (f_insert ?F p s c) (document a) \<noteq> None"
    using a1(2,3) c(2) by (simp_all add: f_insert_def tree_inv_def)
  ultimately have "tree_inv a4 (f_insert ?F p s c)" "document a4 = document a" "slot_count a4 = slot_count a"
    by (simp_all add: tree_inv_def)
  note inv4 = this
  have "kids (f_insert ?F p s c) p = xs @ c # s # ys" by (simp add: fi f_link_def)
  from index_of_split [OF inv4(1) this] have a5: "a5 = ranges_after_insert p (length xs) a4" by (simp add: a5_def)
  have "xs' = xs" if "kids ?F p = xs' @ s # ys'" for xs' ys'
    using that k append_Cons_eq_iff [of s xs' ys' xs ys] by auto
  moreover have "ranges a4 = ranges (if par F c = None then a else ranges_before_remove c a)"
    using a4(2) a3(2) a2(2) a1(5) by (simp add: upd_def)
  ultimately have "ranges a5 = ranges (ranges_after_insert p (length xs') (if par F c = None then a else ranges_before_remove c a))"
    if "kids ?F p = xs' @ s # ys'" for xs' ys'
    using that by (simp add: a5 ranges_after_insert_def)
  then show thesis using run inv4
    by (intro that [of a5]) (auto simp: a5 ranges_after_insert_inv ranges_after_insert_fields ranges_after_insert_count)
qed

section \<open>Creating a node\<close>

definition f_create :: "forest \<Rightarrow> node_id \<Rightarrow> node_data \<Rightarrow> forest" where
  "f_create F h d = F\<lparr>dat := (dat F)(h \<mapsto> d)\<rparr>"

lemma create_get:
  assumes ok: "alloc_ok a" and run: "create d a = (Inr h, a')"
  shows "arena_get a h = None" and "arena_get a' = (arena_get a)(h \<mapsto> node_new d)" and "ranges a' = ranges a"
proof -
  have so: "slots_ok (ar_slots a)" using ok by (simp add: alloc_ok_def)
  have "arena_get a h = None \<and> arena_get a' = (arena_get a)(h \<mapsto> node_new d) \<and> ranges a' = ranges a"
  proof (cases "free a")
    case (Cons i rest)
    obtain s where s: "slots_get (ar_slots a) (unat i) = Some s" "slot_node s = None"
      and c: "create d a = (Inr (NodeId i (slot_gen s)),
         a\<lparr>free := rest, ar_slots := slots_set (ar_slots a) (unat i) (s\<lparr>slot_node := Some (node_new d)\<rparr>),
           live := live a + 1\<rparr>)" by (rule create_reuse [OF ok Cons])
    have "unat i < slots_len (ar_slots a)" using s(1) slot_store.fetch_in [OF so, of "unat i"] by simp
    with run c s show ?thesis
      by (auto simp: fun_eq_iff arena_get_def slot_store.fetch_store [OF so] unat_index_inj node_id.expand)
  next
    case Nil
    let ?n = "slot_count a"
    from run create_fresh [OF ok Nil, of d] have h: "h = NodeId (word_of_nat ?n) 1"
      and a': "a' = a\<lparr>ar_slots := slots_push (ar_slots a) \<lparr>slot_gen = 1, slot_node = Some (node_new d)\<rparr>, live := live a + 1\<rparr>"
      by (auto split: if_splits)
    have n: "unat (word_of_nat ?n :: u32) = ?n" using ok by (simp add: alloc_ok_def unat_of_nat)
    have out: "slots_get (ar_slots a) ?n = None"
      using slot_store.fetch_in [OF so, of ?n] by (simp add: slot_count_def)
    have eq: "x = h \<longleftrightarrow> unat (index x) = ?n \<and> generation x = 1" for x
      using n by (cases x) (auto simp: h word_unat_eq_iff)
    have "arena_get a' x = ((arena_get a)(h \<mapsto> node_new d)) x" for x
      using eq [of x] out by (auto simp: arena_get_def a' slot_store.fetch_grow [OF so] slot_count_def)
    then show ?thesis using out n by (auto simp: fun_eq_iff arena_get_def h a')
  qed
  then show "arena_get a h = None" "arena_get a' = (arena_get a)(h \<mapsto> node_new d)" "ranges a' = ranges a" by auto
qed

lemma forest_ok_dead:
  assumes "forest_ok F" and "dat F h = None"
  shows "par F h = None" and "kids F h = []"
proof -
  show "par F h = None" using assms forest_ok_par_dat [OF assms(1), of h] by (cases "par F h") auto
  have "par F c \<noteq> Some h" for c using assms forest_ok_par_dat [OF assms(1), of c h] by auto
  then show "kids F h = []" using forest_ok_kid [OF assms(1), of _ h] by (cases "kids F h") fastforce+
qed

lemma create_run:
  assumes inv: "tree_inv a F" and run: "create d a = (Inr h, a')"
  shows "dat F h = None" and "tree_inv a' (f_create F h d)" and "document a' = document a"
proof -
  have ok: "alloc_ok a" "forest_ok F" and H: "arena_get a = repr F" using inv by (simp_all add: tree_inv_def)
  note c = create_get [OF ok(1) run]
  show h: "dat F h = None" using c(1) H by (simp add: repr_def)
  note k = forest_ok_dead [OF ok(2) h]
  have np: "par F x \<noteq> Some h" for x using h forest_ok_par_dat [OF ok(2), of x h] by auto
  have "arena_get a' = repr (f_create F h d)"
    using c(2) H k by (auto simp: fun_eq_iff repr_def f_create_def node_new_def cong: option.case_cong)
  moreover have "forest_ok (f_create F h d)"
  proof -
    from ok(2) obtain e where e: "depths F e" by (auto simp: forest_ok_def)
    have "depths (f_create F h d) (e(h := 0))"
      using k(1) np depths_parent [OF e] depths_root [OF e] depths_bound [OF e]
      by (auto simp: depths_def f_create_def split: option.split)
    with ok(2) h show ?thesis unfolding forest_ok_def f_create_def by fastforce
  qed
  moreover from keepsD [OF keeps_create ok(1), of d] run have a': "alloc_ok a'" "document a' = document a" by simp_all
  ultimately show "tree_inv a' (f_create F h d)" "document a' = document a"
    using inv by (auto simp: tree_inv_def f_create_def)
qed

end
