(* ===== verification/Dom_Remove.thy ===== *)
theory Dom_Remove
  imports Dom_Ops
begin

text \<open>
  Removal and copying of subtrees.  \<open>removed\<close> is the set a removal is meant to free:
  the subtree, and the contents of every template in it.  The loop of
  \<^verbatim>\<open>remove_subtree\<close> frees exactly that set, parents before children.
\<close>

section \<open>What a removal frees\<close>

definition template_dat :: "forest \<Rightarrow> node_id \<Rightarrow> node_id option" where
  "template_dat F x = (case dat F x of Some (Element _ _ t _) \<Rightarrow> t | _ \<Rightarrow> None)"

inductive removed :: "forest \<Rightarrow> node_id \<Rightarrow> node_id \<Rightarrow> bool" for F h where
  removed_root: "removed F h h"
| removed_kid: "removed F h x \<Longrightarrow> k \<in> set (kids F x) \<Longrightarrow> removed F h k"
| removed_template: "removed F h x \<Longrightarrow> template_dat F x = Some t \<Longrightarrow> dat F t \<noteq> None \<Longrightarrow> removed F h t"

text \<open>Template contents hang from no node, and the document is nobody's template contents.\<close>

definition templates_ok :: "arena \<Rightarrow> forest \<Rightarrow> bool" where
  "templates_ok a F \<longleftrightarrow> (\<forall>x t. template_dat F x = Some t \<longrightarrow> par F t = None \<and> t \<noteq> document a)"

definition f_prune :: "forest \<Rightarrow> node_id set \<Rightarrow> forest" where
  "f_prune F D = \<lparr>kids = (\<lambda>x. if x \<in> D then [] else kids F x),
     par = (\<lambda>x. if x \<in> D then None else par F x), dat = (\<lambda>x. if x \<in> D then None else dat F x)\<rparr>"

definition family_closed :: "forest \<Rightarrow> node_id set \<Rightarrow> bool" where
  "family_closed F D \<longleftrightarrow> (\<forall>x p. par F x = Some p \<longrightarrow> (x \<in> D \<longleftrightarrow> p \<in> D))"

lemma f_prune_ok:
  assumes ok: "forest_ok F" and D: "family_closed F D"
  shows "forest_ok (f_prune F D)" and "repr (f_prune F D) = (\<lambda>x. if x \<in> D then None else repr F x)"
proof -
  from ok obtain d where d: "depths F d" by (auto simp: forest_ok_def)
  have "depths (f_prune F D) d"
    using depths_parent [OF d] depths_root [OF d] depths_bound [OF d]
    by (auto simp: depths_def f_prune_def split: option.split)
  moreover have "\<forall>c p. c \<in> set (kids (f_prune F D) p) \<longleftrightarrow> par (f_prune F D) c = Some p"
    using ok D by (auto simp: f_prune_def forest_ok_def family_closed_def)
  moreover have "\<forall>c p. par (f_prune F D) c = Some p \<longrightarrow> dat (f_prune F D) c \<noteq> None
      \<and> (\<exists>d. dat (f_prune F D) p = Some d \<and> can_have_children d)"
    using ok D unfolding f_prune_def forest_ok_def family_closed_def by auto
  moreover have "\<forall>p. distinct (kids (f_prune F D) p)" using ok by (simp add: f_prune_def forest_ok_def)
  ultimately show "forest_ok (f_prune F D)" unfolding forest_ok_def by blast
  show "repr (f_prune F D) = (\<lambda>x. if x \<in> D then None else repr F x)"
  proof
    fix x
    show "repr (f_prune F D) x = (if x \<in> D then None else repr F x)"
      using D by (cases "par F x"; cases "dat F x") (auto simp: repr_def f_prune_def family_closed_def)
  qed
qed

section \<open>The removal loop\<close>

lemma children_loop_gen:
  assumes "\<And>xs c ys. ks = xs @ c # ys \<Longrightarrow> \<exists>n. arena_get a c = Some n \<and> next_sibling n = hd_opt ys"
    and "length ks \<le> slot_count a" and "ks = xs @ ys"
  shows "children_loop a xs (hd_opt ys) = Some ks"
  using assms(3)
proof (induction ys arbitrary: xs)
  case (Cons c ys)
  from assms(1) [OF Cons.prems] obtain n where n: "arena_get a c = Some n" "next_sibling n = hd_opt ys" by blast
  have "length (xs @ [c]) \<le> slot_count a" using assms(2) Cons.prems by simp
  with n Cons.IH [of "xs @ [c]"] Cons.prems show ?case by simp
qed simp

text \<open>
  The state of the loop: \<open>D\<close> is freed so far.  A node is freed after its parent, and
  what a freed node leaves behind is freed or on the stack.
\<close>

definition removing :: "arena \<Rightarrow> forest \<Rightarrow> node_id \<Rightarrow> node_id set \<Rightarrow> node_id list \<Rightarrow> arena \<Rightarrow> bool" where
  "removing a0 F h D st a \<longleftrightarrow> alloc_ok a \<and> slot_count a = slot_count a0 \<and> document a = document a0
     \<and> ranges a = ranges a0
     \<and> arena_get a = (\<lambda>x. if x \<in> D then None else repr F x)
     \<and> h \<in> D \<union> set st \<and> (\<forall>x. x \<in> D \<longrightarrow> removed F h x) \<and> (\<forall>x. x \<in> D \<longrightarrow> dat F x \<noteq> None)
     \<and> (\<forall>x p. x \<in> D \<longrightarrow> par F x = Some p \<longrightarrow> p \<in> D)
     \<and> (\<forall>x k. x \<in> D \<longrightarrow> k \<in> set (kids F x) \<longrightarrow> k \<in> D \<or> k \<in> set st)
     \<and> (\<forall>x t. x \<in> D \<longrightarrow> template_dat F x = Some t \<longrightarrow> dat F t \<noteq> None \<longrightarrow> t \<in> D \<or> t \<in> set st)
     \<and> (\<forall>x. x \<in> set st \<longrightarrow> dat F x \<noteq> None \<longrightarrow> removed F h x)
     \<and> (\<forall>x p. x \<in> set st \<longrightarrow> dat F x \<noteq> None \<longrightarrow> par F x = Some p \<longrightarrow> p \<in> D)"

lemma removingD:
  assumes "removing a0 F h D st a"
  shows "alloc_ok a" and "slot_count a = slot_count a0" and "document a = document a0" and "ranges a = ranges a0"
    and "arena_get a = (\<lambda>x. if x \<in> D then None else repr F x)" and "h \<in> D \<union> set st"
    and "\<And>x. x \<in> D \<Longrightarrow> removed F h x" and "\<And>x. x \<in> D \<Longrightarrow> dat F x \<noteq> None"
    and "\<And>x p. x \<in> D \<Longrightarrow> par F x = Some p \<Longrightarrow> p \<in> D"
    and "\<And>x k. x \<in> D \<Longrightarrow> k \<in> set (kids F x) \<Longrightarrow> k \<in> D \<or> k \<in> set st"
    and "\<And>x t. x \<in> D \<Longrightarrow> template_dat F x = Some t \<Longrightarrow> dat F t \<noteq> None \<Longrightarrow> t \<in> D \<or> t \<in> set st"
    and "\<And>x. x \<in> set st \<Longrightarrow> dat F x \<noteq> None \<Longrightarrow> removed F h x"
    and "\<And>x p. x \<in> set st \<Longrightarrow> dat F x \<noteq> None \<Longrightarrow> par F x = Some p \<Longrightarrow> p \<in> D"
  using assms unfolding removing_def by blast+

lemma removingI:
  assumes "alloc_ok a" and "slot_count a = slot_count a0" and "document a = document a0" and "ranges a = ranges a0"
    and "arena_get a = (\<lambda>x. if x \<in> D then None else repr F x)" and "h \<in> D \<union> set st"
    and "\<And>x. x \<in> D \<Longrightarrow> removed F h x" and "\<And>x. x \<in> D \<Longrightarrow> dat F x \<noteq> None"
    and "\<And>x p. x \<in> D \<Longrightarrow> par F x = Some p \<Longrightarrow> p \<in> D"
    and "\<And>x k. x \<in> D \<Longrightarrow> k \<in> set (kids F x) \<Longrightarrow> k \<in> D \<or> k \<in> set st"
    and "\<And>x t. x \<in> D \<Longrightarrow> template_dat F x = Some t \<Longrightarrow> dat F t \<noteq> None \<Longrightarrow> t \<in> D \<or> t \<in> set st"
    and "\<And>x. x \<in> set st \<Longrightarrow> dat F x \<noteq> None \<Longrightarrow> removed F h x"
    and "\<And>x p. x \<in> set st \<Longrightarrow> dat F x \<noteq> None \<Longrightarrow> par F x = Some p \<Longrightarrow> p \<in> D"
  shows "removing a0 F h D st a"
  unfolding removing_def using assms by (intro conjI allI impI) blast+

lemma removing_children:
  assumes inv: "tree_inv a0 F" and rem: "removing a0 F h D st a" and c: "c \<notin> D" "dat F c \<noteq> None"
  shows "children a c = Some (kids F c)" and "template_of a c = template_dat F c"
proof -
  note R = removingD [OF rem]
  have kid: "k \<notin> D" if "k \<in> set (kids F c)" for k
    using R(9) [of k c] kids_live(3) [OF inv that] c(1) by blast
  have loop: "children_loop a [] (hd_opt (kids F c)) = Some (kids F c)"
  proof (rule children_loop_gen)
    fix xs k ys assume k: "kids F c = xs @ k # ys"
    from get_next [OF inv k] inv obtain n where n: "repr F k = Some n" "next_sibling n = hd_opt ys"
      by (auto simp: tree_inv_def)
    have "k \<notin> D" using kid [of k] k by simp
    with n R(5) show "\<exists>n. arena_get a k = Some n \<and> next_sibling n = hd_opt ys" by simp
  qed (use kids_length [OF inv, of c] R(2) in simp_all)
  from c obtain d where d: "dat F c = Some d" by blast
  note n = repr_Some [OF d]
  from R(5) c n loop show "children a c = Some (kids F c)" by (simp add: children_def)
  from R(5) c n d show "template_of a c = template_dat F c"
    by (simp add: template_of_def template_dat_def split: node_data.split)
qed

lemma removing_step:
  assumes inv: "tree_inv a0 F" and rem: "removing a0 F h D (c # st) a" and c: "c \<notin> D" "dat F c \<noteq> None"
    and tmpl: "templates_ok a0 F"
    and st': "set st' = set st \<union> set (kids F c) \<union> set_option (template_dat F c)"
  shows "removing a0 F h (insert c D) st' (snd (free_slot c a))" and "fst (free_slot c a)"
proof -
  note R = removingD [OF rem]
  have ok: "forest_ok F" using inv by (simp add: tree_inv_def)
  have cl: "contains a c" using c R(5) by (auto simp: contains_def repr_def)
  note fs = free_slot_live [OF R(1) cl]
  show "fst (free_slot c a)" by (rule fs(1))
  have cR: "removed F h c" using R(12) c(2) by simp
  have mem: "x = c \<or> x \<in> set st \<or> x \<in> set (kids F c) \<or> template_dat F c = Some x" if "x \<in> set (c # st')" for x
    using that st' by auto
  have par_kid: "par F k = Some c" if "k \<in> set (kids F c)" for k using forest_ok_kid [OF ok] that by simp
  have par_tm: "par F t = None" if "template_dat F c = Some t" for t using tmpl that by (simp add: templates_ok_def)
  show "removing a0 F h (insert c D) st' (snd (free_slot c a))"
  proof (rule removingI)
    show "arena_get (snd (free_slot c a)) = (\<lambda>x. if x \<in> insert c D then None else repr F x)"
      using fs(6) R(5) by (auto simp: fun_eq_iff)
    show "h \<in> insert c D \<union> set st'" using R(6) st' by auto
    show "removed F h x" if "x \<in> insert c D" for x using that cR R(7) by blast
    show "dat F x \<noteq> None" if "x \<in> insert c D" for x using that c(2) R(8) by blast
    show "p \<in> insert c D" if "x \<in> insert c D" "par F x = Some p" for x p
      using that R(9) R(13) [of c] c(2) by auto
    show "k \<in> insert c D \<or> k \<in> set st'" if "x \<in> insert c D" "k \<in> set (kids F x)" for x k
      using that R(10) [of x k] st' by auto
    show "t \<in> insert c D \<or> t \<in> set st'" if "x \<in> insert c D" "template_dat F x = Some t" "dat F t \<noteq> None" for x t
      using that R(11) [of x t] st' by auto
    show "removed F h x" if "x \<in> set st'" "dat F x \<noteq> None" for x
      using mem [of x] that R(12) [of x] cR removed_kid [OF cR] removed_template [OF cR] by auto
    show "p \<in> insert c D" if "x \<in> set st'" "dat F x \<noteq> None" "par F x = Some p" for x p
      using mem [of x] that R(13) [of x p] R(13) [of c p] par_kid [of x] par_tm [of x] by auto
  qed (simp_all only: fs(2,5,7,8) R(2-4))
qed

lemma remove_loop_frees:
  assumes inv: "tree_inv a0 F" and tmpl: "templates_ok a0 F" and hl: "dat F h \<noteq> None"
  shows "removing a0 F h D st a \<Longrightarrow> finite D \<Longrightarrow>
     \<exists>D'. removing a0 F h D' [] (snd (remove_loop st n a)) \<and> finite D' \<and> D \<subseteq> D'
       \<and> fst (remove_loop st n a) + card D = n + card D'"
proof (induction st n a arbitrary: D rule: remove_loop.induct)
  case (1 n a)
  then show ?case by auto
next
  case (2 c st n a)
  show ?case
  proof (cases "c \<in> D \<or> dat F c = None")
    case True
    then have none: "children a c = None"
      using removingD(5) [OF "2.prems"(1)] by (auto simp: children_def repr_def)
    note R = removingD [OF "2.prems"(1)]
    have in_st: "x \<in> D \<or> x \<in> set st" if "x \<in> D \<or> x \<in> set (c # st)" "dat F x \<noteq> None" for x
      using that True by auto
    have "removing a0 F h D st a"
    proof (rule removingI)
      show "k \<in> D \<or> k \<in> set st" if "x \<in> D" "k \<in> set (kids F x)" for x k
        using in_st [of k] R(10) [OF that] kids_live(2) [OF inv that(2)] by blast
      show "t \<in> D \<or> t \<in> set st" if "x \<in> D" "template_dat F x = Some t" "dat F t \<noteq> None" for x t
        using in_st [of t] R(11) [OF that] that(3) by blast
      show "h \<in> D \<union> set st" using in_st [of h] R(6) hl by blast
      show "removed F h x" if "x \<in> set st" "dat F x \<noteq> None" for x using R(12) [of x] that by simp
      show "p \<in> D" if "x \<in> set st" "dat F x \<noteq> None" "par F x = Some p" for x p using R(13) [of x p] that by simp
    qed (fact R(1-5) | erule (1) R(9) | erule R(7) | erule R(8))+
    from "2.IH"(1) [OF none this "2.prems"(2)] none show ?thesis by simp
  next
    case False
    then have c: "c \<notin> D" "dat F c \<noteq> None" by auto
    note ch = removing_children [OF inv "2.prems"(1) c]
    obtain b a1 where f: "free_slot c a = (b, a1)" by fastforce
    let ?st = "case template_dat F c of Some t \<Rightarrow> t # rev (kids F c) @ st | None \<Rightarrow> rev (kids F c) @ st"
    have "set ?st = set st \<union> set (kids F c) \<union> set_option (template_dat F c)" by (auto split: option.split)
    from removing_step [OF inv "2.prems"(1) c tmpl this] f have
      step: "removing a0 F h (insert c D) ?st a1" "b" by simp_all
    have "\<exists>D'. removing a0 F h D' [] (snd (remove_loop ?st (n + 1) a1)) \<and> finite D' \<and> insert c D \<subseteq> D'
      \<and> fst (remove_loop ?st (n + 1) a1) + card (insert c D) = n + 1 + card D'"
      using "2.IH"(2) [OF ch(1) refl refl f [symmetric] refl, of "insert c D"] step "2.prems"(2)
      by (simp add: ch(2))
    then obtain D' where
      "removing a0 F h D' [] (snd (remove_loop ?st (n + 1) a1))" "finite D'" "insert c D \<subseteq> D'"
      "fst (remove_loop ?st (n + 1) a1) + card (insert c D) = n + 1 + card D'" by blast
    moreover have "remove_loop (c # st) n a = remove_loop ?st (n + 1) a1"
      using ch f step(2) by (simp add: Let_def)
    ultimately show ?thesis using c(1) "2.prems"(2) by (intro exI [of _ D']) auto
  qed
qed

section \<open>The whole removal\<close>

lemma removing_done:
  assumes "tree_inv a0 F" and rem: "removing a0 F h D [] a"
  shows "D = {x. removed F h x}" and "family_closed F D"
proof -
  note R = removingD [OF rem]
  have "x \<in> D" if "removed F h x" for x
    using that
  proof (induction rule: removed.induct)
    case removed_root
    show ?case using R(6) by simp
  next
    case (removed_kid x k)
    show ?case using R(10) [OF removed_kid.IH removed_kid(2)] by simp
  next
    case (removed_template x t)
    show ?case using R(11) [OF removed_template.IH removed_template(2,3)] by simp
  qed
  with R(7) show D: "D = {x. removed F h x}" by blast
  have ok: "forest_ok F" using assms(1) by (simp add: tree_inv_def)
  show "family_closed F D" unfolding family_closed_def
  proof (intro allI impI iffI)
    fix x p assume p: "par F x = Some p"
    show "p \<in> D" if "x \<in> D" using R(9) that p by blast
    show "x \<in> D" if "p \<in> D" using R(10) [OF that, of x] forest_ok_kid [OF ok, of x p] p by auto
  qed
qed

lemma document_not_removed:
  assumes "removed F h x" and "tree_inv a F" and "templates_ok a F" and "h \<noteq> document a"
  shows "x \<noteq> document a"
  using assms(1)
proof cases
  case (removed_kid y)
  then show ?thesis using kids_live(3) [OF assms(2)] assms(2) by (auto simp: tree_inv_def)
qed (use assms(3,4) in \<open>auto simp: templates_ok_def\<close>)

lemma drop_dangling_slots: "ar_slots (drop_dangling a) = ar_slots a" "document (drop_dangling a) = document a"
proof -
  have "ar_slots (foldl (\<lambda>a h. snd (drop_range h a)) a hs) = ar_slots a
      \<and> document (foldl (\<lambda>a h. snd (drop_range h a)) a hs) = document a" for hs
    by (induction hs arbitrary: a) (simp_all add: drop_range_slots drop_range_doc)
  then show "ar_slots (drop_dangling a) = ar_slots a" "document (drop_dangling a) = document a"
    by (simp_all add: drop_dangling_def)
qed

lemma drop_dangling_inv: "tree_inv a F \<Longrightarrow> tree_inv (drop_dangling a) F"
proof -
  assume inv: "tree_inv a F"
  then have ok: "alloc_ok a" by (simp add: tree_inv_def)
  have "alloc_ok (drop_dangling a)"
    using same_alloc_ok [OF ok] same_alloc_drop_dangling [OF alloc_ok_fields(1) [OF ok]] by blast
  moreover have "arena_get (drop_dangling a) = arena_get a"
    by (simp add: fun_eq_iff arena_get_def drop_dangling_slots)
  ultimately show ?thesis using inv by (simp add: tree_inv_def drop_dangling_slots)
qed

lemma remove_subtree_run:
  assumes inv: "tree_inv a F" and tmpl: "templates_ok a F" and h: "dat F h \<noteq> None" "h \<noteq> document a"
  defines "R \<equiv> {x. removed (f_detach F h) h x}"
  obtains a' where "remove_subtree h a = (Inr (card R), a')" "tree_inv a' (f_prune (f_detach F h) R)" "finite R"
    "document a' = document a"
    "\<exists>a2. tree_inv a2 (f_prune (f_detach F h) R) \<and> a' = (if ranges a2 = [] then a2 else drop_dangling a2)
       \<and> ranges a2 = (if par F h = None then ranges a else ranges (ranges_before_remove h a))"
proof -
  let ?F = "f_detach F h"
  obtain a1 where a1: "detach h a = (Inr (), a1)" "tree_inv a1 ?F" "document a1 = document a"
    "ranges a1 = (if par F h = None then ranges a else ranges (ranges_before_remove h a))"
    by (rule detach_run [OF inv h(1)])
  have "template_dat ?F = template_dat F" by (simp add: template_dat_def fun_eq_iff)
  moreover have "par ?F t = None" if "par F t = None" for t using that by (cases "t = h") simp_all
  ultimately have tmpl1: "templates_ok a1 ?F" using tmpl a1(3) by (simp add: templates_ok_def)
  have "removing a1 ?F h {} [h] a1"
    using a1(2) by (intro removingI) (auto simp: tree_inv_def intro: removed_root)
  from remove_loop_frees [OF a1(2) tmpl1 _ this, of 0] h(1) obtain D where
    D: "removing a1 ?F h D [] (snd (remove_loop [h] 0 a1))" "finite D" "fst (remove_loop [h] 0 a1) = card D" by auto
  obtain a2 where a2: "remove_loop [h] 0 a1 = (card D, a2)" using D(3) by (cases "remove_loop [h] 0 a1") simp
  note dn = removing_done [OF a1(2) D(1)]
  have R: "D = R" using dn(1) by (simp add: R_def)
  have doc: "document a \<notin> D"
    using document_not_removed [OF _ a1(2) tmpl1, of h "document a"] dn(1) h(2) a1(3) by auto
  have ok: "forest_ok ?F" using a1(2) by (simp add: tree_inv_def)
  have "tree_inv a2 (f_prune ?F D)"
    using f_prune_ok [OF ok dn(2)] removingD(1,3,5) [OF D(1)] a1(2,3) doc a2
    by (simp add: tree_inv_def f_prune_def)
  moreover have "document a2 = document a" using removingD(3) [OF D(1)] a2 a1(3) by simp
  moreover have "ranges a2 = ranges a1" using removingD(4) [OF D(1)] a2 by simp
  moreover have "remove_subtree h a = (Inr (card D), if ranges a2 = [] then a2 else drop_dangling a2)"
    using a1(1) a2 h tree_inv_contains [OF inv, of h] by (simp add: remove_subtree_def tbind_def)
  ultimately show thesis
    using R D(2) a1(4) by (intro that [of "if ranges a2 = [] then a2 else drop_dangling a2"])
      (auto simp: drop_dangling_inv drop_dangling_slots intro!: exI [of _ a2])
qed

section \<open>Accepted insertions\<close>

text \<open>
  Which insertions are accepted.  On a well-formed tree the budget and the stack bound of
  the height walk are never reached, so an insertion is refused only for the reasons the
  error names.
\<close>

section \<open>The height walk completes\<close>

text \<open>The walk below \<open>c\<close>: \<open>vs\<close> visited, \<open>st\<close> to come; all different, each found through its parent.\<close>

definition walking :: "forest \<Rightarrow> (node_id \<Rightarrow> nat) \<Rightarrow> node_id \<Rightarrow> node_id list \<Rightarrow> (node_id \<times> nat) list \<Rightarrow> bool" where
  "walking F d c vs st \<longleftrightarrow> distinct (map fst st @ vs)
     \<and> (\<forall>x \<in> set (map fst st @ vs). dat F x \<noteq> None \<and> below F c x \<and> (x \<noteq> c \<longrightarrow> (\<exists>p. par F x = Some p \<and> p \<in> set vs)))
     \<and> (\<forall>(x, rel) \<in> set st. rel + d c = d x)"

lemma walking_length:
  assumes inv: "tree_inv a F" and w: "walking F d c vs st"
  shows "length st + length vs \<le> slot_count a"
  using live_list_length [of a "map fst st @ vs"] inv w tree_inv_contains [OF inv]
  by (auto simp: walking_def tree_inv_def)

lemma walking_step:
  assumes inv: "tree_inv a F" and d: "depths F d" and w: "walking F d c vs ((x, rel) # st)"
  shows "walking F d c (x # vs) (rev (map (\<lambda>k. (k, rel + 1)) (kids F x)) @ st)"
proof -
  have ok: "forest_ok F" using inv by (simp add: tree_inv_def)
  have x: "dat F x \<noteq> None" "below F c x" "x \<notin> set vs" "rel + d c = d x"
    using w by (auto simp: walking_def)
  have k: "dat F k \<noteq> None" "par F k = Some x" "below F c k" "d k = Suc (d x)" if "k \<in> set (kids F x)" for k
    using kids_live(2,3) [OF inv that] depths_parent [OF d] below_step [OF _ x(2)] by auto
  have fresh: "k \<notin> set (map fst ((x, rel) # st) @ vs)" if "k \<in> set (kids F x)" for k
  proof
    assume in_walk: "k \<in> set (map fst ((x, rel) # st) @ vs)"
    have "k \<noteq> c" using below_depth [OF x(2) d ok] k(4) [OF that] by auto
    with w in_walk k(2) [OF that] have "x \<in> set vs" unfolding walking_def by fastforce
    with x(3) show False by simp
  qed
  let ?new = "rev (map (\<lambda>k. (k, rel + 1)) (kids F x))"
  have m: "map fst ?new = rev (kids F x)" by (simp add: rev_map comp_def)
  have disj: "set (kids F x) \<inter> set (map fst st @ x # vs) = {}" using fresh by fastforce
  have "distinct (map fst st @ x # vs)" using w unfolding walking_def by auto
  with disj forest_ok_distinct [OF ok, of x] have "distinct (rev (kids F x) @ map fst st @ x # vs)"
    unfolding distinct_append by simp
  then have "distinct (map fst (?new @ st) @ x # vs)" by (simp only: map_append m append_assoc)
  moreover have "\<forall>y \<in> set (map fst (?new @ st) @ x # vs). dat F y \<noteq> None \<and> below F c y
      \<and> (y \<noteq> c \<longrightarrow> (\<exists>p. par F y = Some p \<and> p \<in> set (x # vs)))"
  proof
    fix y assume "y \<in> set (map fst (?new @ st) @ x # vs)"
    then consider "y \<in> set (kids F x)" | "y \<in> set (map fst ((x, rel) # st) @ vs)" by (auto simp: image_comp)
    then show "dat F y \<noteq> None \<and> below F c y \<and> (y \<noteq> c \<longrightarrow> (\<exists>p. par F y = Some p \<and> p \<in> set (x # vs)))"
    proof cases
      case 1
      then show ?thesis using k by auto
    next
      case 2
      with w show ?thesis unfolding walking_def by fastforce
    qed
  qed
  moreover have "\<forall>(y, r) \<in> set (?new @ st). r + d c = d y"
    using w k(4) x(4) unfolding walking_def by auto
  ultimately show ?thesis unfolding walking_def by blast
qed

lemma height_push_complete:
  assumes inv: "tree_inv a F" and k: "kids F p = xs @ ys" and "length st + length ys \<le> lim"
  shows "height_push a lim rel (hd_opt ys) st = Inr (rev (map (\<lambda>c. (c, rel + 1)) ys) @ st)"
  using k assms(3)
proof (induction ys arbitrary: xs st)
  case (Cons c ys)
  from get_next [OF inv Cons.prems(1)] obtain n where n: "arena_get a c = Some n" "next_sibling n = hd_opt ys" by blast
  with Cons.IH [of "xs @ [c]" "(c, rel + 1) # st"] Cons.prems show ?case by simp
qed simp

lemma height_loop_complete:
  assumes inv: "tree_inv a F" and d: "depths F d"
  shows "walking F d c vs st \<Longrightarrow> b + length vs = slot_count a + 1
    \<Longrightarrow> \<exists>m. height_loop a (slot_count a + 1) b h st = Inr m
      \<and> (m = h \<or> (\<exists>x. dat F x \<noteq> None \<and> below F c x \<and> m + d c = d x))"
proof (induction b arbitrary: h vs st)
  case 0
  then show ?case using walking_length [OF inv 0(1)] by simp
next
  case (Suc b)
  show ?case
  proof (cases st)
    case (Cons e st0)
    obtain x rel where e: "e = (x, rel)" by (cases e)
    have w: "walking F d c vs ((x, rel) # st0)" using Suc.prems(1) Cons e by simp
    have x: "dat F x \<noteq> None" "below F c x" "rel + d c = d x" using w by (auto simp: walking_def)
    note w' = walking_step [OF inv d w]
    from walking_length [OF inv w'] have "length st0 + length (kids F x) \<le> slot_count a + 1" by simp
    note push = height_push_complete [OF inv, of x "[]" "kids F x", OF _ this, of rel]
    from Suc.IH [OF w', of "max h rel"] Suc.prems(2) obtain m where
      m: "height_loop a (slot_count a + 1) b (max h rel) (rev (map (\<lambda>c. (c, rel + 1)) (kids F x)) @ st0) = Inr m"
      "m = max h rel \<or> (\<exists>x. dat F x \<noteq> None \<and> below F c x \<and> m + d c = d x)" by auto
    have "rel \<le> MAX_DEPTH" using x(3) depths_bound [OF d x(1)] by simp
    with get_first [OF inv x(1)] push m(1) have
      "height_loop a (slot_count a + 1) (Suc b) h st = Inr m"
      by (auto simp: Cons e Let_def)
    moreover have "m = h \<or> (\<exists>x. dat F x \<noteq> None \<and> below F c x \<and> m + d c = d x)"
      using m(2) x by (auto simp: max_def split: if_splits)
    ultimately show ?thesis by blast
  qed simp
qed

lemma subtree_height_complete:
  assumes inv: "tree_inv a F" and d: "depths F d" and c: "dat F c \<noteq> None"
  obtains m x where "subtree_height a c = Inr m" "dat F x \<noteq> None" "below F c x" "m + d c = d x"
proof -
  have "walking F d c [] [(c, 0)]" using c by (simp add: walking_def below_refl)
  from height_loop_complete [OF inv d this, of "slot_count a + 1" 0] obtain m where
    "subtree_height a c = Inr m" "m = 0 \<or> (\<exists>x. dat F x \<noteq> None \<and> below F c x \<and> m + d c = d x)"
    by (auto simp: subtree_height_def)
  then show thesis using that below_refl c by (metis add_0)
qed

section \<open>Exactly which insertions are accepted\<close>

definition fits_under :: "forest \<Rightarrow> node_id \<Rightarrow> node_id \<Rightarrow> bool" where
  "fits_under F p c \<longleftrightarrow> (\<forall>d x. depths F d \<longrightarrow> dat F x \<noteq> None \<longrightarrow> below F c x \<longrightarrow> Suc (d p) + d x \<le> MAX_DEPTH + d c)"

lemma insertable_iff:
  assumes inv: "tree_inv a F"
  shows "fst (check_insertable p c a) = Inr () \<longleftrightarrow>
     (\<exists>dp. dat F p = Some dp \<and> can_have_children dp) \<and> dat F c \<noteq> None \<and> c \<noteq> document a
     \<and> \<not> below F c p \<and> fits_under F p c"
proof
  assume "fst (check_insertable p c a) = Inr ()"
  from check_insertable_Inr [OF inv this] show "(\<exists>dp. dat F p = Some dp \<and> can_have_children dp)
     \<and> dat F c \<noteq> None \<and> c \<noteq> document a \<and> \<not> below F c p \<and> fits_under F p c"
    unfolding fits_under_def by metis
next
  assume R: "(\<exists>dp. dat F p = Some dp \<and> can_have_children dp) \<and> dat F c \<noteq> None \<and> c \<noteq> document a
     \<and> \<not> below F c p \<and> fits_under F p c"
  then obtain dp where p: "dat F p = Some dp" "can_have_children dp" and c: "dat F c \<noteq> None" "c \<noteq> document a"
    and b: "\<not> below F c p" and fit: "fits_under F p c" by blast
  from inv obtain d where d: "depths F d" by (auto simp: tree_inv_def forest_ok_def)
  obtain m x where m: "subtree_height a c = Inr m" and x: "dat F x \<noteq> None" "below F c x" "m + d c = d x"
    by (rule subtree_height_complete [OF inv d c(1)])
  have h: "Suc (d p) + m \<le> MAX_DEPTH" using fit d x unfolding fits_under_def by fastforce
  have "p \<noteq> c" using b below_refl by metis
  have pl: "dat F p \<noteq> None" using p by simp
  have "insert_walk a c 0 (Some p) = Inr (Suc (d p))"
    using insert_walk_up [OF inv d pl, of 0 c] b h by simp
  then show "fst (check_insertable p c a) = Inr ()"
    using get_first [OF inv pl] tree_inv_contains [OF inv] p c m h \<open>p \<noteq> c\<close>
    by (auto simp: check_insertable_def)
qed

end
