(* ===== verification/Dom_Live.thy ===== *)
theory Dom_Live
  imports Dom_Remove
begin

text \<open>
  Ancestor walks, and live ranges under mutation: every boundary of every live range stays
  inside a node of the tree, whatever is inserted, moved or removed.
\<close>

section \<open>Ancestors\<close>

lemma ancestor_iter_set:
  assumes inv: "tree_inv a F" and d: "depths F d"
  shows "dat F y \<noteq> None \<Longrightarrow> d y \<le> b \<Longrightarrow> set (ancestor_iter a b (par F y)) = {x. below F x y \<and> x \<noteq> y}"
proof (induction b arbitrary: y)
  case 0
  then have "par F y = None" using depths_parent [OF d] by (cases "par F y") auto
  then show ?case by (auto simp: below_root)
next
  case (Suc b)
  have ok: "forest_ok F" using inv by (simp add: tree_inv_def)
  show ?case
  proof (cases "par F y")
    case None
    then show ?thesis by (auto simp: below_root)
  next
    case (Some p)
    have p: "dat F p \<noteq> None" "d y = Suc (d p)"
      using forest_ok_par_dat [OF ok Some] depths_parent [OF d Suc.prems(1) Some] by auto
    from get_first [OF inv p(1)] have "arena_get a p \<bind> parent = par F p" by auto
    with Suc.IH [OF p(1)] p(2) Suc.prems(2) Some
    have "set (ancestor_iter a (Suc b) (par F y)) = insert p {x. below F x p \<and> x \<noteq> p}" by simp
    also have "\<dots> = {x. below F x y \<and> x \<noteq> y}"
      using below_up [OF Some] forest_ok_par_neq [OF ok Some] below_refl [of F p]
        below_antisym [OF _ below_step [OF Some below_refl] ok] below_step [OF Some] by auto
    finally show ?thesis .
  qed
qed

lemma ancestors_set:
  assumes inv: "tree_inv a F" and y: "dat F y \<noteq> None"
  shows "set (ancestors a y) = {x. below F x y \<and> x \<noteq> y}"
proof -
  from inv obtain d where d: "depths F d" by (auto simp: tree_inv_def forest_ok_def)
  from get_first [OF inv y] have "arena_get a y \<bind> parent = par F y" by auto
  then show ?thesis using ancestor_iter_set [OF inv d y, of "MAX_DEPTH + 1"] depths_bound [OF d y]
    by (simp add: ancestors_def)
qed

lemma inclusive_ancestor_below:
  assumes inv: "tree_inv a F"
  shows "is_inclusive_ancestor a x y \<longleftrightarrow> dat F y \<noteq> None \<and> below F x y"
proof (cases "dat F y = None")
  case True
  then have "arena_get a y = None" using inv by (simp add: tree_inv_def repr_def)
  then show ?thesis using True by (simp add: is_inclusive_ancestor_def ancestors_def contains_def)
next
  case False
  then show ?thesis
    using ancestors_set [OF inv False] tree_inv_contains [OF inv, of y] below_refl [of F y]
    by (auto simp: is_inclusive_ancestor_def)
qed

section \<open>Boundaries inside the tree\<close>

definition f_len :: "forest \<Rightarrow> node_id \<Rightarrow> nat option" where
  "f_len F h = map_option (\<lambda>d. case d of
        TextNode contents \<Rightarrow> length contents
      | Comment contents \<Rightarrow> length contents
      | ProcessingInstruction _ contents \<Rightarrow> length contents
      | _ \<Rightarrow> length (kids F h)) (dat F h)"

definition bounded :: "forest \<Rightarrow> boundary_point \<Rightarrow> bool" where
  "bounded F b \<longleftrightarrow> (\<exists>n. f_len F (bp_node b) = Some n \<and> bp_offset b \<le> n)"

definition ranges_in :: "forest \<Rightarrow> range_slot list \<Rightarrow> bool" where
  "ranges_in F rs \<longleftrightarrow> length rs \<le> 2 ^ 32
     \<and> (\<forall>s r. s \<in> set rs \<longrightarrow> rs_range s = Some r \<longrightarrow> bounded F (rg_start r) \<and> bounded F (rg_end r))"

lemma node_length_f_len: "tree_inv a F \<Longrightarrow> node_length a h = f_len F h"
  using get_first [of a F h] child_ids_kids [of a F h]
  by (cases "dat F h") (auto simp: node_length_def f_len_def tree_inv_def repr_def split: node_data.split)

lemma valid_boundary_bounded: "tree_inv a F \<Longrightarrow> is_valid_boundary a b \<longleftrightarrow> bounded F b"
  by (auto simp: is_valid_boundary_def node_length_f_len bounded_def split: option.split)

definition map_bounds :: "(boundary_point \<Rightarrow> boundary_point) \<Rightarrow> range_slot list \<Rightarrow> range_slot list" where
  "map_bounds g rs = map (\<lambda>s. s\<lparr>rs_range := map_option
     (\<lambda>r. \<lparr>rg_start = g (rg_start r), rg_end = g (rg_end r)\<rparr>) (rs_range s)\<rparr>) rs"

lemma ranges_after_insert_bounds: "ranges (ranges_after_insert p i a) = map_bounds (shift_insert p i) (ranges a)"
  by (simp add: ranges_after_insert_def map_bounds_def)

lemma ranges_in_map:
  assumes "ranges_in F rs" and "\<And>b. bounded F b \<Longrightarrow> bounded G (g b)"
  shows "ranges_in G (map_bounds g rs)"
  using assms by (auto simp: ranges_in_def map_bounds_def)

lemma ranges_in_mono:
  "ranges_in F rs \<Longrightarrow> (\<And>b. bounded F b \<Longrightarrow> bounded G b) \<Longrightarrow> ranges_in G rs"
  by (auto simp: ranges_in_def)

lemma bounded_keep:
  assumes "bounded F b" and "\<And>d. dat F (bp_node b) = Some d \<Longrightarrow> dat G (bp_node b) = Some d"
    and "length (kids F (bp_node b)) \<le> length (kids G (bp_node b))"
  shows "bounded G b"
proof -
  from assms(1) obtain d where d: "dat F (bp_node b) = Some d" by (auto simp: bounded_def f_len_def)
  with assms(1,3) assms(2) [OF d] show ?thesis by (cases d) (auto simp: bounded_def f_len_def)
qed

lemma bounded_container:
  assumes "dat F h = Some d" and "can_have_children d" and "bp_node b = h"
  shows "bounded F b \<longleftrightarrow> bp_offset b \<le> length (kids F h)"
  using assms by (cases d) (auto simp: bounded_def f_len_def can_have_children_def)

lemma parent_container:
  assumes "forest_ok F" and "par F h = Some p"
  obtains d where "dat F p = Some d" "can_have_children d"
  using assms unfolding forest_ok_def by blast

text \<open>Taking a node out.\<close>

lemma ranges_detach:
  assumes inv: "tree_inv a F" and rs: "ranges_in F (ranges a)" and h: "dat F h \<noteq> None"
  shows "ranges_in (f_detach F h) (if par F h = None then ranges a else ranges (ranges_before_remove h a))"
proof (cases "par F h")
  case None
  then show ?thesis using rs by (simp add: f_detach_def)
next
  case (Some p)
  have ok: "forest_ok F" using inv by (simp add: tree_inv_def)
  obtain xs ys where k: "kids F p = xs @ h # ys" "distinct (xs @ h # ys)" by (rule forest_ok_split [OF ok Some])
  obtain d where d: "dat F p = Some d" "can_have_children d" by (rule parent_container [OF ok Some])
  from get_first [OF inv h] Some have "arena_get a h \<bind> parent = Some p" by auto
  then have e: "ranges (ranges_before_remove h a)
      = map_bounds (\<lambda>b. shift_remove p (length xs) (is_inclusive_ancestor a h (bp_node b)) b) (ranges a)"
    using index_of_split [OF inv k(1)] by (simp add: ranges_before_remove_def map_bounds_def)
  have k': "kids (f_detach F h) = (kids F)(p := xs @ ys)"
    using k Some by (simp add: f_detach_def remove1_append)
  have "bounded (f_detach F h) (shift_remove p (length xs) (is_inclusive_ancestor a h (bp_node b)) b)"
    if b: "bounded F b" for b
  proof (cases "is_inclusive_ancestor a h (bp_node b) \<or> bp_node b = p")
    case True
    then have "bp_node (shift_remove p (length xs) (is_inclusive_ancestor a h (bp_node b)) b) = p"
      by (auto simp: shift_remove_def)
    note c = bounded_container [OF _ d(2) this, of "f_detach F h"] bounded_container [OF d, of b]
    from True c d k k' b show ?thesis by (auto simp: shift_remove_def)
  next
    case False
    then show ?thesis using b k' by (auto simp: shift_remove_def intro: bounded_keep)
  qed
  then show ?thesis unfolding e using Some ranges_in_map [OF rs] by (simp add: e)
qed

text \<open>Putting a node in.\<close>

lemma ranges_append:
  assumes "ranges_in F rs"
  shows "ranges_in (f_append F p c) rs"
  using assms by (rule ranges_in_mono) (auto simp: f_append_def intro: bounded_keep)

lemma ranges_insert:
  assumes ok: "forest_ok F" and rs: "ranges_in F rs" and s: "par F s = Some p" and k: "kids F p = xs @ s # ys"
  shows "ranges_in (f_insert F p s c) (map_bounds (shift_insert p (length xs)) rs)"
proof (rule ranges_in_map [OF rs])
  fix b assume b: "bounded F b"
  obtain d where d: "dat F p = Some d" "can_have_children d" by (rule parent_container [OF ok s])
  have "s \<notin> set xs" using forest_ok_distinct [OF ok, of p] k by simp
  then have k': "kids (f_insert F p s c) p = xs @ c # s # ys" "dat (f_insert F p s c) = dat F"
    by (simp_all add: f_insert_def k insert_at_split)
  show "bounded (f_insert F p s c) (shift_insert p (length xs) b)"
  proof (cases "bp_node b = p")
    case True
    then have "bp_node (shift_insert p (length xs) b) = p" by (simp add: shift_insert_def)
    note c = bounded_container [OF _ d(2) this, of "f_insert F p s c"] bounded_container [OF d True]
    from c d k k' b show ?thesis by (auto simp: shift_insert_def)
  next
    case False
    then show ?thesis using b by (auto simp: shift_insert_def f_insert_def intro: bounded_keep)
  qed
qed


text \<open>What a removal leaves dangling is dropped.\<close>

definition only_dropped :: "range_slot list \<Rightarrow> range_slot list \<Rightarrow> bool" where
  "only_dropped rs rs' \<longleftrightarrow> length rs' = length rs
     \<and> (\<forall>i < length rs. rs' ! i = rs ! i \<or> rs_range (rs' ! i) = None)"

lemma only_dropped_refl: "only_dropped rs rs"
  by (simp add: only_dropped_def)

lemma drop_range_only:
  assumes "only_dropped rs (ranges a)" and "unat (ri_index h) < length rs" and "rs_gen (rs ! unat (ri_index h)) = ri_generation h"
  shows "only_dropped rs (ranges (snd (drop_range h a)))"
    and "rs_range (ranges (snd (drop_range h a)) ! unat (ri_index h)) = None"
    and "i < length rs \<Longrightarrow> rs_range (ranges a ! i) = None \<Longrightarrow> rs_range (ranges (snd (drop_range h a)) ! i) = None"
  using assms
  by (auto simp: only_dropped_def drop_range_def nth_opt_def nth_list_update split: option.split)

lemma drop_all_only:
  assumes "only_dropped rs (ranges a)"
    and "\<And>h. h \<in> set hs \<Longrightarrow> unat (ri_index h) < length rs \<and> rs_gen (rs ! unat (ri_index h)) = ri_generation h"
  shows "only_dropped rs (ranges (foldl (\<lambda>a h. snd (drop_range h a)) a hs))
     \<and> (\<forall>i < length rs. rs_range (ranges a ! i) = None \<or> (\<exists>h \<in> set hs. unat (ri_index h) = i)
          \<longrightarrow> rs_range (ranges (foldl (\<lambda>a h. snd (drop_range h a)) a hs) ! i) = None)"
  using assms
proof (induction hs arbitrary: a)
  case (Cons h hs)
  have h: "unat (ri_index h) < length rs" "rs_gen (rs ! unat (ri_index h)) = ri_generation h" using Cons.prems(2) by auto
  note step = drop_range_only [OF Cons.prems(1) h]
  have "\<And>k. k \<in> set hs \<Longrightarrow> unat (ri_index k) < length rs \<and> rs_gen (rs ! unat (ri_index k)) = ri_generation k"
    using Cons.prems(2) by auto
  from Cons.IH [OF step(1) this] step(2,3) show ?case by fastforce
qed simp

lemma map_filter_mem: "y \<in> set (List.map_filter f xs) \<longleftrightarrow> (\<exists>x \<in> set xs. f x = Some y)"
  by (induction xs) (auto simp: map_filter_def)

definition dangling :: "arena \<Rightarrow> range \<Rightarrow> bool" where
  "dangling a r \<longleftrightarrow> \<not> (contains a (bp_node (rg_start r)) \<and> contains a (bp_node (rg_end r)))"

lemma dangling_ranges_mem:
  "h \<in> set (dangling_ranges a) \<longleftrightarrow> (\<exists>i r. i < length (ranges a) \<and> try_from_u32 i = Some (ri_index h)
     \<and> rs_gen (ranges a ! i) = ri_generation h \<and> rs_range (ranges a ! i) = Some r \<and> dangling a r)"
  (is "_ \<longleftrightarrow> ?R")
proof -
  have e: "set (enumerate 0 (ranges a)) = (\<lambda>i. (i, ranges a ! i)) ` {..<length (ranges a)}"
    by (auto simp: in_set_enumerate_eq image_iff)
  have "h \<in> set (dangling_ranges a) \<longleftrightarrow> (\<exists>i < length (ranges a). (case rs_range (ranges a ! i) of None \<Rightarrow> None
      | Some r \<Rightarrow> if \<not> dangling a r then None
           else map_option (\<lambda>j. RangeId j (rs_gen (ranges a ! i))) (try_from_u32 i)) = Some h)"
    unfolding dangling_ranges_def map_filter_mem dangling_def e by (simp add: Bex_def cong: option.case_cong)
  also have "\<dots> \<longleftrightarrow> ?R" by (cases h) (force split: option.splits if_splits)
  finally show ?thesis .
qed

lemma drop_dangling_ranges:
  assumes len: "length (ranges a) \<le> 2 ^ 32" and i: "i < length (ranges a)"
  shows "only_dropped (ranges a) (ranges (drop_dangling a))"
    and "rs_range (ranges (drop_dangling a) ! i) = Some r \<Longrightarrow> rs_range (ranges a ! i) = Some r \<and> \<not> dangling a r"
proof -
  have pre: "unat (ri_index h) < length (ranges a) \<and> rs_gen (ranges a ! unat (ri_index h)) = ri_generation h"
    if "h \<in> set (dangling_ranges a)" for h
    using that unfolding dangling_ranges_mem by (metis unat_try_from_u32)
  note all = drop_all_only [OF only_dropped_refl [of "ranges a"] pre, of "dangling_ranges a", simplified,
      folded drop_dangling_def]
  from all show o: "only_dropped (ranges a) (ranges (drop_dangling a))" by (rule conjunct1)
  assume s: "rs_range (ranges (drop_dangling a) ! i) = Some r"
  then have e: "ranges (drop_dangling a) ! i = ranges a ! i" using o i by (auto simp: only_dropped_def)
  have t: "try_from_u32 i = Some (of_nat i)" using len i by (simp add: try_from_u32_def)
  have "\<not> dangling a r"
  proof
    assume "dangling a r"
    then have "RangeId (of_nat i) (rs_gen (ranges a ! i)) \<in> set (dangling_ranges a)"
      unfolding dangling_ranges_mem using i t s e by (intro exI [of _ i] exI [of _ r]) simp
    then have "\<exists>h \<in> set (dangling_ranges a). unat (ri_index h) = i"
      using unat_try_from_u32 [OF t] by (intro bexI) simp_all
    with conjunct2 [OF all, rule_format, OF i] s show False by simp
  qed
  with s e show "rs_range (ranges a ! i) = Some r \<and> \<not> dangling a r" by simp
qed

end
