(* ===== verification/Dom_Reach.thy ===== *)
theory Dom_Reach
  imports Dom_Live
begin

text \<open>
  The tree and range invariant over whole histories.  \<open>tree_step\<close> is \<open>arena_step\<close> with the two
  conditions the invariant needs: a node is not inserted before itself, and a subtree is
  only removed while template contents hang from no node.
\<close>

section \<open>Every outcome keeps the tree and the ranges\<close>

definition arena_ok :: "arena \<Rightarrow> bool" where
  "arena_ok a \<longleftrightarrow> (\<exists>F. tree_inv a F \<and> ranges_in F (ranges a))"

lemma arena_okI: "tree_inv a F \<Longrightarrow> ranges_in F (ranges a) \<Longrightarrow> arena_ok a"
  by (auto simp: arena_ok_def)

lemma arena_okE:
  assumes "arena_ok a"
  obtains F where "tree_inv a F" "ranges_in F (ranges a)"
  using assms by (auto simp: arena_ok_def)

lemma append_child_ok: "arena_ok a \<Longrightarrow> arena_ok (snd (append_child p c a))"
proof -
  assume ok: "arena_ok a"
  then obtain F where inv: "tree_inv a F" and rs: "ranges_in F (ranges a)" by (rule arena_okE)
  show ?thesis
  proof (cases "fst (check_insertable p c a)")
    case (Inl e)
    then have "append_child p c a = (Inl e, a)"
      using check_insertable_state [of p c a]
      by (cases "check_insertable p c a") (simp add: append_child_def tbind_def)
    with ok show ?thesis by simp
  next
    case (Inr u)
    then have chk: "fst (check_insertable p c a) = Inr ()" by simp
    have "dat F c \<noteq> None" using check_insertable_Inr [OF inv chk] by metis
    note moved = ranges_append [OF ranges_detach [OF inv rs this]]
    from append_run [OF inv chk] obtain a' where "append_child p c a = (Inr (), a')"
      "tree_inv a' (f_append (f_detach F c) p c)"
      "ranges a' = (if par F c = None then ranges a else ranges (ranges_before_remove c a))" by metis
    with moved show ?thesis by (auto intro: arena_okI)
  qed
qed

lemma insert_before_ok:
  assumes "arena_ok a" and "s \<noteq> c"
  shows "arena_ok (snd (insert_before s c a))"
proof -
  from assms(1) obtain F where inv: "tree_inv a F" and rs: "ranges_in F (ranges a)" by (rule arena_okE)
  show ?thesis
  proof (cases "arena_get a s")
    case None
    with assms(1) show ?thesis by (simp add: insert_before_def tbind_def read_node_def)
  next
    case (Some n)
    then have s: "dat F s \<noteq> None" using inv by (auto simp: tree_inv_def repr_def)
    show ?thesis
    proof (cases "parent n")
      case None
      with Some assms(1) show ?thesis by (simp add: insert_before_def tbind_def read_node_def)
    next
      case p: (Some p)
      with Some get_first [OF inv s] have pf: "par F s = Some p" by auto
      show ?thesis
      proof (cases "fst (check_insertable p c a)")
        case (Inl e)
        then have "insert_before s c a = (Inl e, a)"
          using check_insertable_state [of p c a] Some p
          by (cases "check_insertable p c a") (simp add: insert_before_def tbind_def read_node_def)
        with assms(1) show ?thesis by simp
      next
        case (Inr u)
        then have chk: "fst (check_insertable p c a) = Inr ()" by simp
        have "dat F c \<noteq> None" using check_insertable_Inr [OF inv chk] by metis
        note det = ranges_detach [OF inv rs this]
        have ok: "forest_ok F" using inv by (simp add: tree_inv_def)
        obtain xs ys where k: "kids (f_detach F c) p = xs @ s # ys" by (rule kids_after_detach [OF ok pf assms(2)])
        obtain a' where a': "insert_before s c a = (Inr (), a')" "tree_inv a' (f_insert (f_detach F c) p s c)"
          "ranges a' = ranges (ranges_after_insert p (length xs) (if par F c = None then a else ranges_before_remove c a))"
          using insert_run [OF inv pf assms(2) chk] k by metis
        have "ranges_in (f_insert (f_detach F c) p s c) (ranges a')"
          using ranges_insert [OF f_detach_ok [OF ok] det _ k] pf assms(2) a'(3)
          by (cases "par F c") (simp_all add: ranges_after_insert_bounds)
        with a' show ?thesis by (auto intro: arena_okI)
      qed
    qed
  qed
qed

lemma detach_ok: "arena_ok a \<Longrightarrow> arena_ok (snd (detach h a))"
proof -
  assume ok: "arena_ok a"
  then obtain F where inv: "tree_inv a F" and rs: "ranges_in F (ranges a)" by (rule arena_okE)
  show ?thesis
  proof (cases "dat F h")
    case None
    with inv have "arena_get a h = None" by (simp add: tree_inv_def repr_def)
    with ok show ?thesis by (auto simp: detach_def tbind_def read_node_def)
  next
    case (Some d)
    then have h: "dat F h \<noteq> None" by simp
    obtain a' where "detach h a = (Inr (), a')" "tree_inv a' (f_detach F h)"
      "ranges a' = (if par F h = None then ranges a else ranges (ranges_before_remove h a))"
      by (rule detach_run [OF inv h])
    with ranges_detach [OF inv rs h] show ?thesis by (auto intro: arena_okI)
  qed
qed

lemma create_ok: "arena_ok a \<Longrightarrow> arena_ok (snd (create d a))"
proof -
  assume ok: "arena_ok a"
  then obtain F where inv: "tree_inv a F" and rs: "ranges_in F (ranges a)" by (rule arena_okE)
  obtain r a' where c: "create d a = (r, a')" by fastforce
  show ?thesis
  proof (cases r)
    case (Inr h)
    note cr = create_run [OF inv c [unfolded Inr]]
    have "alloc_ok a" using inv by (simp add: tree_inv_def)
    note same = create_get(3) [OF this c [unfolded Inr]]
    have "ranges_in (f_create F h d) (ranges a)"
      using rs
    proof (rule ranges_in_mono)
      fix b assume "bounded F b"
      then show "bounded (f_create F h d) b" by (rule bounded_keep) (use cr(1) in \<open>auto simp: f_create_def\<close>)
    qed
    with cr(2) same c show ?thesis by (auto intro: arena_okI)
  next
    case (Inl e)
    have al: "alloc_ok a" using inv by (simp add: tree_inv_def)
    have "a' = a"
    proof (cases "free a")
      case Nil
      with create_fresh [OF al Nil, of d] c Inl show ?thesis by (auto split: if_splits)
    next
      case (Cons i rest)
      from create_reuse [OF al Cons, of d] c Inl show ?thesis by (metis Inl_Inr_False Pair_inject)
    qed
    with ok c show ?thesis by simp
  qed
qed

lemma tbind_ok:
  assumes "arena_ok a \<Longrightarrow> arena_ok (snd (m a))" and "\<And>x b. arena_ok b \<Longrightarrow> arena_ok (snd (f x b))" and "arena_ok a"
  shows "arena_ok (snd (tbind m f a))"
  using assms by (auto simp: tbind_def split: prod.split sum.split)

lemma append_all_ok: "arena_ok a \<Longrightarrow> arena_ok (snd (append_all p cs a))"
proof (induction cs arbitrary: a)
  case (Cons c cs)
  then show ?case by (auto intro!: tbind_ok append_child_ok)
qed (simp add: treturn_def)

lemma reparent_ok: "arena_ok a \<Longrightarrow> arena_ok (snd (reparent_children from to a))"
  by (simp add: reparent_children_def append_all_ok split: option.split)

lemma read_node_state: "snd (read_node h a) = a"
  by (simp add: read_node_def split: option.split)

lemma clone_loop_ok: "arena_ok a \<Longrightarrow> arena_ok (snd (clone_loop b st a))"
proof (induction b st arbitrary: a rule: clone_loop.induct)
  case (3 b source dest st)
  show ?case unfolding clone_loop.simps
    by (intro tbind_ok) (auto simp: read_node_state create_ok append_child_ok 3 split: option.split)
qed (simp_all add: treturn_def)

lemma clone_subtree_ok: "arena_ok a \<Longrightarrow> arena_ok (snd (clone_subtree h a))"
  unfolding clone_subtree_def
  by (intro tbind_ok)
    (auto simp: read_node_state create_ok treturn_def clone_loop_ok split: option.split intro!: tbind_ok)

section \<open>Operations that leave the links alone\<close>

lemma tree_inv_cong:
  assumes "tree_inv a F" and "ar_slots b = ar_slots a" "free b = free a" "live b = live a" "retired b = retired a"
    "document b = document a"
  shows "tree_inv b F"
proof -
  have "arena_get b = arena_get a" using assms(2) by (simp add: fun_eq_iff arena_get_def)
  moreover have "alloc_ok b \<longleftrightarrow> alloc_ok a" using assms(2-) by (simp add: alloc_ok_def live_slots_def slot_count_def)
  ultimately show ?thesis using assms(1,6) by (simp add: tree_inv_def)
qed

lemma arena_ok_cong:
  "arena_ok a \<Longrightarrow> ranges b = ranges a \<Longrightarrow> ar_slots b = ar_slots a \<Longrightarrow> free b = free a \<Longrightarrow> live b = live a \<Longrightarrow> retired b = retired a
     \<Longrightarrow> document b = document a \<Longrightarrow> arena_ok b"
  unfolding arena_ok_def using tree_inv_cong by metis

lemma arena_ok_snapshot: "arena_ok a \<Longrightarrow> arena_ok (snapshot_attribute_change h name a)"
  by (erule arena_ok_cong) (simp_all add: snapshot_change_fields)

lemma modify_data_run:
  assumes inv: "tree_inv a F" and n: "arena_get a h = Some n" and c: "can_have_children d = can_have_children (data n)"
  obtains a' where "modify_node h (data_update (\<lambda>_. d)) a = (Inr (), a')"
    "tree_inv a' (F\<lparr>dat := (dat F)(h \<mapsto> d)\<rparr>)" "document a' = document a" "ranges a' = ranges a"
proof -
  have ok: "alloc_ok a" "forest_ok F" and H: "arena_get a = repr F" using inv by (simp_all add: tree_inv_def)
  obtain a' where a': "modify_node h (data_update (\<lambda>_. d)) a = (Inr (), a')"
    "upd a a' ((arena_get a)(h \<mapsto> n\<lparr>data := d\<rparr>))" by (rule modify_run [OF ok(1) n])
  from n H obtain d0 where d0: "dat F h = Some d0" "data n = d0" by (auto simp: repr_def)
  let ?F = "F\<lparr>dat := (dat F)(h \<mapsto> d)\<rparr>"
  have "(arena_get a)(h \<mapsto> n\<lparr>data := d\<rparr>) = repr ?F" using n H d0 by (auto simp: fun_eq_iff repr_def cong: option.case_cong)
  moreover have "depths ?F = depths F" using d0 by (auto simp: depths_def fun_eq_iff)
  with ok(2) d0 c have "forest_ok ?F" unfolding forest_ok_def by fastforce
  ultimately have "tree_inv a' ?F" using a'(2) inv by (simp add: tree_inv_def upd_def)
  with a' show thesis using that [of a'] by (simp add: upd_def)
qed

lemma modify_data_ok:
  assumes "arena_ok a" and n: "arena_get a h = Some n" and d: "can_have_children d" "can_have_children (data n)"
  shows "arena_ok (snd (modify_node h (data_update (\<lambda>_. d)) a))"
proof -
  from assms(1) obtain F where inv: "tree_inv a F" and rs: "ranges_in F (ranges a)" by (rule arena_okE)
  let ?F = "F\<lparr>dat := (dat F)(h \<mapsto> d)\<rparr>"
  have h: "dat F h = Some (data n)" using inv n by (auto simp: tree_inv_def repr_def)
  have "bounded ?F b" if b: "bounded F b" for b
  proof (cases "bp_node b = h")
    case True
    then show ?thesis using b bounded_container [OF h d(2) True] bounded_container [OF _ d(1) True, of ?F] by simp
  next
    case False
    with b show ?thesis by (auto intro: bounded_keep)
  qed
  from ranges_in_mono [OF rs this] modify_data_run [OF inv n, of d] d show ?thesis by (metis arena_okI snd_conv)
qed

lemma set_attribute_ok: "arena_ok a \<Longrightarrow> arena_ok (snd (set_attribute h name val a))"
  using arena_ok_snapshot [of a h name]
  by (auto simp: set_attribute_def Let_def can_have_children_def intro!: modify_data_ok
      split: option.split node_data.split)

lemma remove_attribute_ok: "arena_ok a \<Longrightarrow> arena_ok (snd (remove_attribute h name a))"
  using arena_ok_snapshot [of a h name]
  by (auto simp: remove_attribute_def Let_def can_have_children_def treturn_def intro!: modify_data_ok tbind_ok
      split: option.split node_data.split)

lemma set_missing_ok: "arena_ok a \<Longrightarrow> arena_ok (snd (set_missing h present xs a))"
  by (induction h present xs arbitrary: a rule: set_missing.induct)
    (auto simp: treturn_def intro!: tbind_ok set_attribute_ok)

lemma add_attributes_ok: "arena_ok a \<Longrightarrow> arena_ok (snd (add_attributes_if_missing h attrs a))"
  by (simp add: add_attributes_if_missing_def set_missing_ok)

lemma new_range_fields:
  "ar_slots (snd (new_range s e a)) = ar_slots a" "free (snd (new_range s e a)) = free a"
  "live (snd (new_range s e a)) = live a" "retired (snd (new_range s e a)) = retired a"
  "document (snd (new_range s e a)) = document a"
  by (simp_all add: new_range_def Let_def split: list.split option.split)

lemma drop_range_fields:
  "ar_slots (snd (drop_range r a)) = ar_slots a" "free (snd (drop_range r a)) = free a"
  "live (snd (drop_range r a)) = live a" "retired (snd (drop_range r a)) = retired a"
  "document (snd (drop_range r a)) = document a"
  by (simp_all add: drop_range_def split: option.split)

lemma ranges_in_update:
  assumes "ranges_in F rs" and "\<And>r. rs_range s = Some r \<Longrightarrow> bounded F (rg_start r) \<and> bounded F (rg_end r)"
  shows "ranges_in F (rs[i := s])"
  using assms by (auto simp: ranges_in_def dest!: set_update_subset_insert [THEN subsetD])

lemma new_range_ok:
  assumes "arena_ok a"
  shows "arena_ok (snd (new_range s e a))"
proof -
  from assms obtain F where inv: "tree_inv a F" and rs: "ranges_in F (ranges a)" by (rule arena_okE)
  have "ranges_in F (ranges (snd (new_range s e a)))"
  proof (cases "bounded F s \<and> bounded F e")
    case True
    then have fresh: "ranges_in F (ranges a @ [\<lparr>rs_gen = g, rs_range = Some \<lparr>rg_start = s, rg_end = e\<rparr>\<rparr>])"
      if "length (ranges a) < 2 ^ 32" for g using rs that by (auto simp: ranges_in_def)
    then show ?thesis
      using rs True by (auto simp: new_range_def Let_def try_from_u32_Some intro!: ranges_in_update split: list.split option.split)
  next
    case False
    then show ?thesis using rs valid_boundary_bounded [OF inv] by (auto simp: new_range_def)
  qed
  moreover have "tree_inv (snd (new_range s e a)) F" by (rule tree_inv_cong [OF inv]) (simp_all add: new_range_fields)
  ultimately show ?thesis by (rule arena_okI [rotated])
qed

lemma drop_range_ok:
  assumes "arena_ok a"
  shows "arena_ok (snd (drop_range h a))"
proof -
  from assms obtain F where inv: "tree_inv a F" and rs: "ranges_in F (ranges a)" by (rule arena_okE)
  have "ranges_in F (ranges (snd (drop_range h a)))"
    using rs by (auto simp: drop_range_def intro!: ranges_in_update split: option.split)
  moreover have "tree_inv (snd (drop_range h a)) F" by (rule tree_inv_cong [OF inv]) (simp_all add: drop_range_fields)
  ultimately show ?thesis by (rule arena_okI [rotated])
qed

section \<open>Removal\<close>

text \<open>Template contents hang from no node and are not the document.\<close>

definition templates_loose :: "arena \<Rightarrow> bool" where
  "templates_loose a \<longleftrightarrow> (\<forall>x t n. template_of a x = Some t \<longrightarrow> t \<noteq> document a
     \<and> (arena_get a t = Some n \<longrightarrow> parent n = None))"

lemma template_of_dat: "tree_inv a F \<Longrightarrow> template_of a x = template_dat F x"
  by (cases "dat F x") (auto simp: tree_inv_def template_of_def template_dat_def repr_def)

lemma templates_loose_ok: "tree_inv a F \<Longrightarrow> templates_loose a \<Longrightarrow> templates_ok a F"
proof -
  assume inv: "tree_inv a F" and l: "templates_loose a"
  have "par F t = None \<and> t \<noteq> document a" if "template_dat F x = Some t" for x t
  proof (cases "dat F t")
    case None
    then show ?thesis using inv forest_ok_dead(1) [of F t] l that template_of_dat [OF inv, of x]
      by (auto simp: tree_inv_def templates_loose_def)
  next
    case (Some d)
    then show ?thesis using get_first [OF inv, of t] l that template_of_dat [OF inv, of x]
      by (auto simp: templates_loose_def)
  qed
  then show ?thesis by (simp add: templates_ok_def)
qed

lemma bounded_prune:
  "bounded F b \<Longrightarrow> dat (f_prune F D) (bp_node b) \<noteq> None \<Longrightarrow> bounded (f_prune F D) b"
  by (erule bounded_keep) (auto simp: f_prune_def split: if_splits)

lemma ranges_prune:
  assumes inv: "tree_inv a2 (f_prune F D)" and rs: "ranges_in F (ranges a2)"
  shows "ranges_in (f_prune F D) (ranges (if ranges a2 = [] then a2 else drop_dangling a2))"
proof (cases "ranges a2 = []")
  case False
  have len: "length (ranges a2) \<le> 2 ^ 32" using rs by (simp add: ranges_in_def)
  from False have "0 < length (ranges a2)" by simp
  from drop_dangling_ranges(1) [OF len this] have l: "length (ranges (drop_dangling a2)) = length (ranges a2)"
    by (simp add: only_dropped_def)
  have "bounded (f_prune F D) (rg_start r) \<and> bounded (f_prune F D) (rg_end r)"
    if s: "s \<in> set (ranges (drop_dangling a2))" "rs_range s = Some r" for s r
  proof -
    from s(1) l obtain i where i: "i < length (ranges a2)" "s = ranges (drop_dangling a2) ! i"
      by (metis in_set_conv_nth)
    from drop_dangling_ranges(2) [OF len i(1)] s(2) i(2) have
      r: "rs_range (ranges a2 ! i) = Some r" "\<not> dangling a2 r" by auto
    then have "bounded F (rg_start r)" "bounded F (rg_end r)" using rs nth_mem [OF i(1)] unfolding ranges_in_def by blast+
    then show ?thesis using r(2) tree_inv_contains [OF inv] by (auto simp: dangling_def intro: bounded_prune)
  qed
  then show ?thesis using False l len by (simp add: ranges_in_def)
qed (simp add: ranges_in_def)

lemma remove_subtree_ok:
  assumes "arena_ok a" and "templates_loose a"
  shows "arena_ok (snd (remove_subtree h a))"
proof (cases "contains a h \<and> h \<noteq> document a")
  case True
  from assms(1) obtain F where inv: "tree_inv a F" and rs: "ranges_in F (ranges a)" by (rule arena_okE)
  have h: "dat F h \<noteq> None" "h \<noteq> document a" using True tree_inv_contains [OF inv] by auto
  let ?P = "f_prune (f_detach F h) {x. removed (f_detach F h) h x}"
  obtain n a' a2 where a': "remove_subtree h a = (Inr n, a')" "tree_inv a' ?P" "tree_inv a2 ?P"
    "a' = (if ranges a2 = [] then a2 else drop_dangling a2)"
    "ranges a2 = (if par F h = None then ranges a else ranges (ranges_before_remove h a))"
    using remove_subtree_run [OF inv templates_loose_ok [OF inv assms(2)] h] by metis
  have "ranges_in (f_detach F h) (ranges a2)" unfolding a'(5) by (rule ranges_detach [OF inv rs h(1)])
  from ranges_prune [OF a'(3) this] a'(1,2,4) show ?thesis by (auto intro: arena_okI)
next
  case False
  with assms(1) show ?thesis by (auto simp: remove_subtree_def)
qed

section \<open>Histories\<close>

inductive tree_step :: "arena \<Rightarrow> arena \<Rightarrow> bool" where
  ts_create: "tree_step a (snd (create d a))"
| ts_append: "tree_step a (snd (append_child p c a))"
| ts_insert: "s \<noteq> c \<Longrightarrow> tree_step a (snd (insert_before s c a))"
| ts_detach: "tree_step a (snd (detach h a))"
| ts_reparent: "tree_step a (snd (reparent_children from to a))"
| ts_remove: "templates_loose a \<Longrightarrow> tree_step a (snd (remove_subtree h a))"
| ts_clone: "tree_step a (snd (clone_subtree h a))"
| ts_new_range: "tree_step a (snd (new_range s e a))"
| ts_drop_range: "tree_step a (snd (drop_range r a))"
| ts_set_attribute: "tree_step a (snd (set_attribute h name val a))"
| ts_remove_attribute: "tree_step a (snd (remove_attribute h name a))"
| ts_add_attributes: "tree_step a (snd (add_attributes_if_missing h attrs a))"
| ts_record: "tree_step a (record_snapshots on a)"
| ts_take: "tree_step a (snd (take_snapshots a))"

inductive tree_run :: "arena \<Rightarrow> arena \<Rightarrow> bool" where
  tree_refl: "tree_run a a"
| tree_more: "tree_run a b \<Longrightarrow> tree_step b c \<Longrightarrow> tree_run a c"

lemma tree_step_ok:
  assumes "tree_step a b" and "arena_ok a"
  shows "arena_ok b"
  using assms
  by cases (auto simp: create_ok append_child_ok insert_before_ok detach_ok reparent_ok remove_subtree_ok clone_subtree_ok
      set_attribute_ok remove_attribute_ok add_attributes_ok new_range_ok drop_range_ok record_snapshots_def
      take_snapshots_def intro: arena_ok_cong [of a])

lemma tree_run_ok: "tree_run a b \<Longrightarrow> arena_ok a \<Longrightarrow> arena_ok b"
  by (induction rule: tree_run.induct) (auto intro: tree_step_ok)

lemma arena_new_run: "create Document arena_empty = (Inr (NodeId 0 1), arena_new)"
  by (simp add: arena_new_def arena_empty_def create_def try_from_u32_def U32_MAX_def slots_new_def)

lemma arena_ok_new: "arena_ok arena_new"
proof -
  let ?F = "\<lparr>kids = \<lambda>_. [], par = \<lambda>_. None, dat = [NodeId 0 1 \<mapsto> Document]\<rparr>"
  have "arena_get arena_empty = (\<lambda>_. None)"
    by (simp add: fun_eq_iff arena_get_def arena_empty_def slots_new_def slots_get_def)
  then have g: "arena_get arena_new = [NodeId 0 1 \<mapsto> node_new Document]"
    using create_get(2) [OF alloc_ok_empty arena_new_run] by simp
  have "depths ?F (\<lambda>_. 0)" by (simp add: depths_def)
  then have "forest_ok ?F" unfolding forest_ok_def by auto
  moreover have "document arena_new = NodeId 0 1" by (simp add: arena_new_def arena_empty_def create_def try_from_u32_def U32_MAX_def slots_new_def)
  ultimately have "tree_inv arena_new ?F"
    using alloc_ok_new g by (auto simp: tree_inv_def repr_def fun_eq_iff node_new_def)
  moreover have "ranges arena_new = []" by (simp add: arena_new_def arena_empty_def create_def try_from_u32_def U32_MAX_def slots_new_def)
  ultimately show ?thesis by (intro arena_okI) (simp_all add: ranges_in_def)
qed

lemma reachable_ok: "tree_run arena_new a \<Longrightarrow> arena_ok a"
  using tree_run_ok arena_ok_new by blast

end
