(* ===== verification/Dom_Validate.thy ===== *)
theory Dom_Validate
  imports Dom_Reach
begin

text \<open>
  \<^verbatim>\<open>Arena::validate\<close> of \<^verbatim>\<open>crates/px-dom/src/arena.rs\<close>, the structural check
  the program keeps for debug builds and fuzzing.
\<close>

section \<open>The validator\<close>

type_synonym check = "(node_id \<times> string) + unit"

text \<open>The slots with their index, as \<^verbatim>\<open>u32\<close>, that hold a node.\<close>

definition live_ids :: "arena \<Rightarrow> node_id list" where
  "live_ids a = List.map_filter
     (\<lambda>(i, s). if slot_node s = None then None else map_option (\<lambda>j. NodeId j (slot_gen s)) (try_from_u32 i))
     (enumerate 0 (slots_iter (ar_slots a)))"

fun validate_children :: "arena \<Rightarrow> node_id \<Rightarrow> node_id option \<Rightarrow> node_id list \<Rightarrow> check" where
  "validate_children a h previous [] = Inr ()"
| "validate_children a h previous (c # cs) =
     (case arena_get a c of
        None \<Rightarrow> Inl (h, ''a listed child does not resolve'')
      | Some n \<Rightarrow>
          if parent n \<noteq> Some h then Inl (c, ''a child does not name the parent that lists it'')
          else if prev_sibling n \<noteq> previous then Inl (c, ''the backward link disagrees with the forward walk'')
          else validate_children a h (Some c) cs)"

definition validate_first :: "arena \<Rightarrow> node_id \<Rightarrow> node \<Rightarrow> node_id list \<Rightarrow> check" where
  "validate_first a h n cs =
     (case first_child n of
        Some f \<Rightarrow>
          if (case cs of [] \<Rightarrow> None | c # _ \<Rightarrow> Some c) \<noteq> Some f
          then Inl (h, ''first_child disagrees with the forward walk'')
          else if do { m \<leftarrow> arena_get a f; prev_sibling m } \<noteq> None
          then Inl (h, ''the first child has a previous sibling'')
          else Inr ()
      | None \<Rightarrow> if cs \<noteq> [] then Inl (h, ''no first_child, but the walk found children'') else Inr ())"

definition validate_last :: "arena \<Rightarrow> node_id \<Rightarrow> node \<Rightarrow> node_id list \<Rightarrow> check" where
  "validate_last a h n cs =
     (case last_child n of
        Some l \<Rightarrow>
          if (case rev cs of [] \<Rightarrow> None | c # _ \<Rightarrow> Some c) \<noteq> Some l
          then Inl (h, ''last_child is not where the forward walk ends'')
          else if do { m \<leftarrow> arena_get a l; next_sibling m } \<noteq> None
          then Inl (h, ''the last child has a next sibling'')
          else Inr ()
      | None \<Rightarrow> if cs \<noteq> [] then Inl (h, ''no last_child, but the walk found children'') else Inr ())"

definition check_then :: "check \<Rightarrow> check \<Rightarrow> check" where
  "check_then r s = (case r of Inl e \<Rightarrow> Inl e | Inr _ \<Rightarrow> s)"

fun validate_nodes :: "arena \<Rightarrow> node_id list \<Rightarrow> check" where
  "validate_nodes a [] = Inr ()"
| "validate_nodes a (h # hs) =
     (case arena_get a h of
        None \<Rightarrow> validate_nodes a hs
      | Some n \<Rightarrow>
          (let cs = child_ids a h
           in check_then (validate_first a h n cs)
                (check_then (validate_last a h n cs)
                  (check_then (validate_children a h None cs) (validate_nodes a hs)))))"

definition validate_document :: "arena \<Rightarrow> check" where
  "validate_document a =
     (case arena_get a (document a) of
        None \<Rightarrow> Inl (document a, ''the document node does not resolve'')
      | Some n \<Rightarrow> if parent n \<noteq> None then Inl (document a, ''the document node has a parent'') else Inr ())"

definition validate_roots :: "arena \<Rightarrow> (node_id \<times> nat) list" where
  "validate_roots a =
     rev (map (\<lambda>h. (h, 0)) (filter (\<lambda>h. do { n \<leftarrow> arena_get a h; parent n } = None) (live_ids a)))"

function validate_walk :: "arena \<Rightarrow> bool list \<Rightarrow> (node_id \<times> nat) list \<Rightarrow> (node_id \<times> string) + bool list" where
  "validate_walk a visited [] = Inr visited"
| "validate_walk a visited ((h, d) # st) =
     (if d > MAX_DEPTH then Inl (h, ''a node sits past the depth limit'')
      else case nth_opt visited (unat (index h)) of
        None \<Rightarrow> validate_walk a visited st
      | Some True \<Rightarrow> Inl (h, ''a node is reachable from more than one parent'')
      | Some False \<Rightarrow>
          validate_walk a (visited[unat (index h) := True])
            (rev (map (\<lambda>c. (c, d + 1)) (child_ids a h)) @ st))"
  by pat_completeness auto
termination
proof (relation "inv_image (less_than <*lex*> less_than)
    (\<lambda>(a :: arena, v, st :: (node_id \<times> nat) list). (length (filter Not v), length st))", goal_cases)
  case (3 a visited h d st b)
  then show ?case using length_filter_update [of "unat (index h)" visited Not True] by (auto simp: nth_opt_Some)
qed auto

fun validate_reached :: "bool list \<Rightarrow> node_id list \<Rightarrow> check" where
  "validate_reached visited [] = Inr ()"
| "validate_reached visited (h # hs) =
     (if nth_opt visited (unat (index h)) = Some False
      then Inl (h, ''a live node is reachable from no root, so it is in a cycle'')
      else validate_reached visited hs)"

definition validate :: "arena \<Rightarrow> check" where
  "validate a =
     check_then (validate_nodes a (live_ids a))
       (check_then (validate_document a)
         (case validate_walk a (replicate (slot_count a) False) (validate_roots a) of
            Inl e \<Rightarrow> Inl e
          | Inr visited \<Rightarrow> validate_reached visited (live_ids a)))"

section \<open>It accepts every well-formed tree\<close>

lemma pack_index:
  "map_option (\<lambda>j. NodeId j g) (try_from_u32 i) = Some h \<longleftrightarrow> i = unat (index h) \<and> g = generation h"
  using unsigned_less [of "index h", where ?'a = nat]
  by (cases h) (auto simp: try_from_u32_def unat_of_nat take_bit_nat_eq_self)

lemma live_ids_mem:
  assumes ok: "alloc_ok a"
  shows "h \<in> set (live_ids a) \<longleftrightarrow> contains a h"
proof -
  let ?sl = "slots_iter (ar_slots a)"
  have e: "set (enumerate 0 ?sl) = (\<lambda>i. (i, ?sl ! i)) ` {..<length ?sl}"
    by (auto simp: in_set_enumerate_eq image_iff)
  have so: "slots_ok (ar_slots a)" using ok by (simp add: alloc_ok_def)
  have "h \<in> set (live_ids a) \<longleftrightarrow> (\<exists>i < length ?sl. slot_node (?sl ! i) \<noteq> None
      \<and> map_option (\<lambda>j. NodeId j (slot_gen (?sl ! i))) (try_from_u32 i) = Some h)"
    unfolding live_ids_def map_filter_mem e by (simp add: Bex_def) blast
  also have "\<dots> \<longleftrightarrow> unat (index h) < length ?sl \<and> slot_node (?sl ! unat (index h)) \<noteq> None
      \<and> slot_gen (?sl ! unat (index h)) = generation h"
    unfolding pack_index by blast
  also have "\<dots> \<longleftrightarrow> contains a h"
    using slot_store.fetch_view [OF so, of "unat (index h)"]
    by (auto simp: contains_def arena_get_def nth_opt_def)
  finally show ?thesis .
qed

lemma distinct_map_filter:
  assumes "distinct xs" and "\<And>x y z. x \<in> set xs \<Longrightarrow> y \<in> set xs \<Longrightarrow> f x = Some z \<Longrightarrow> f y = Some z \<Longrightarrow> x = y"
  shows "distinct (List.map_filter f xs)"
  using assms
proof (induction xs)
  case (Cons x xs)
  show ?case
  proof (cases "f x")
    case (Some z)
    have "z \<notin> set (List.map_filter f xs)"
      unfolding map_filter_mem using Cons.prems Some by fastforce
    then show ?thesis using Some Cons by (simp add: List.map_filter_simps)
  qed (use Cons in \<open>simp add: List.map_filter_simps\<close>)
qed (simp add: List.map_filter_simps)

lemma live_ids_distinct: "distinct (live_ids a)"
  unfolding live_ids_def
proof (rule distinct_map_filter)
  show "distinct (enumerate 0 (slots_iter (ar_slots a)))" by simp
  fix x y z
  assume "x \<in> set (enumerate 0 (slots_iter (ar_slots a)))" "y \<in> set (enumerate 0 (slots_iter (ar_slots a)))"
    and "(case x of (i, s) \<Rightarrow> if slot_node s = None then None else map_option (\<lambda>j. NodeId j (slot_gen s)) (try_from_u32 i)) = Some z"
      "(case y of (i, s) \<Rightarrow> if slot_node s = None then None else map_option (\<lambda>j. NodeId j (slot_gen s)) (try_from_u32 i)) = Some z"
  moreover obtain i s j t where "x = (i, s)" "y = (j, t)" by fastforce
  moreover have "i = j" if "try_from_u32 i = Some w" "try_from_u32 j = Some w" for i j w
    using that unat_try_from_u32 by blast
  ultimately show "x = y" by (auto simp: in_set_enumerate_eq split: if_splits)
qed

lemma validate_children_ok:
  assumes inv: "tree_inv a F" and k: "kids F h = xs @ ys"
  shows "validate_children a h (last_opt xs) ys = Inr ()"
  using k
proof (induction ys arbitrary: xs)
  case (Cons c ys)
  from get_next [OF inv Cons.prems] Cons.IH [of "xs @ [c]"] Cons.prems show ?case by auto
qed simp

lemma validate_ends_ok:
  assumes inv: "tree_inv a F" and h: "dat F h \<noteq> None" and n: "arena_get a h = Some n"
  shows "validate_first a h n (kids F h) = Inr ()" and "validate_last a h n (kids F h) = Inr ()"
proof -
  from get_first [OF inv h] n have fl: "first_child n = hd_opt (kids F h)" "last_child n = last_opt (kids F h)" by auto
  show "validate_first a h n (kids F h) = Inr ()"
  proof (cases "kids F h")
    case (Cons c cs)
    then have "kids F h = [] @ c # cs" by simp
    from get_next [OF inv this] Cons fl show ?thesis by (auto simp: validate_first_def)
  qed (use fl in \<open>simp add: validate_first_def\<close>)
  show "validate_last a h n (kids F h) = Inr ()"
  proof (cases "kids F h" rule: rev_cases)
    case (snoc cs c)
    then have "kids F h = cs @ c # []" by simp
    from get_next [OF inv this] snoc fl show ?thesis by (auto simp: validate_last_def)
  qed (use fl in \<open>simp add: validate_last_def\<close>)
qed

lemma validate_nodes_ok:
  assumes inv: "tree_inv a F" and "\<And>h. h \<in> set hs \<Longrightarrow> contains a h"
  shows "validate_nodes a hs = Inr ()"
  using assms(2)
proof (induction hs)
  case (Cons h hs)
  from Cons.prems [of h] obtain n where n: "arena_get a h = Some n" by (auto simp: contains_def)
  have h: "dat F h \<noteq> None" using tree_inv_contains [OF inv] Cons.prems [of h] by simp
  have "validate_children a h None (kids F h) = Inr ()" using validate_children_ok [OF inv, of h "[]"] by simp
  with n validate_ends_ok [OF inv h n] child_ids_kids [OF inv h] Cons show ?case by (simp add: check_then_def)
qed simp

section \<open>The downward pass reaches everything once\<close>

definition reaching :: "arena \<Rightarrow> forest \<Rightarrow> (node_id \<Rightarrow> nat) \<Rightarrow> node_id set \<Rightarrow> bool list \<Rightarrow> (node_id \<times> nat) list \<Rightarrow> bool" where
  "reaching a F d S v st \<longleftrightarrow> length v = slot_count a
     \<and> (\<forall>i < length v. v ! i \<longleftrightarrow> (\<exists>x \<in> S. unat (index x) = i))
     \<and> distinct (map fst st) \<and> fst ` set st \<inter> S = {}
     \<and> (\<forall>x \<in> fst ` set st \<union> S. dat F x \<noteq> None \<and> (\<forall>p. par F x = Some p \<longrightarrow> p \<in> S))
     \<and> (\<forall>(x, r) \<in> set st. r = d x)
     \<and> (\<forall>x \<in> S. set (kids F x) \<subseteq> fst ` set st \<union> S)
     \<and> (\<forall>x. dat F x \<noteq> None \<longrightarrow> par F x = None \<longrightarrow> x \<in> fst ` set st \<union> S)"

lemma reachingD:
  assumes "reaching a F d S v st"
  shows "length v = slot_count a" and "i < length v \<Longrightarrow> v ! i \<longleftrightarrow> (\<exists>x \<in> S. unat (index x) = i)"
    and "distinct (map fst st)" and "x \<in> fst ` set st \<Longrightarrow> x \<notin> S"
    and "x \<in> fst ` set st \<union> S \<Longrightarrow> dat F x \<noteq> None" and "x \<in> fst ` set st \<union> S \<Longrightarrow> par F x = Some p \<Longrightarrow> p \<in> S"
    and "(x, r) \<in> set st \<Longrightarrow> r = d x"
    and "x \<in> S \<Longrightarrow> c \<in> set (kids F x) \<Longrightarrow> c \<in> fst ` set st \<union> S"
    and "dat F x \<noteq> None \<Longrightarrow> par F x = None \<Longrightarrow> x \<in> fst ` set st \<union> S"
  using assms unfolding reaching_def by blast+

lemma reachingI:
  assumes "length v = slot_count a" and "\<And>i. i < length v \<Longrightarrow> v ! i \<longleftrightarrow> (\<exists>x \<in> S. unat (index x) = i)"
    and "distinct (map fst st)" and "fst ` set st \<inter> S = {}"
    and "\<And>x. x \<in> fst ` set st \<union> S \<Longrightarrow> dat F x \<noteq> None \<and> (\<forall>p. par F x = Some p \<longrightarrow> p \<in> S)"
    and "\<forall>(x, r) \<in> set st. r = d x"
    and "\<And>x. x \<in> S \<Longrightarrow> set (kids F x) \<subseteq> fst ` set st \<union> S"
    and "\<And>x. dat F x \<noteq> None \<Longrightarrow> par F x = None \<Longrightarrow> x \<in> fst ` set st \<union> S"
  shows "reaching a F d S v st"
  unfolding reaching_def using assms by blast

lemma reaching_unseen:
  assumes inv: "tree_inv a F" and r: "reaching a F d S v ((x, k) # st)"
  shows "nth_opt v (unat (index x)) = Some False" and "k = d x" and "dat F x \<noteq> None"
proof -
  note R = reachingD [OF r]
  have al: "alloc_ok a" using inv by (simp add: tree_inv_def)
  show x: "dat F x \<noteq> None" using R(5) [of x] by simp
  show "k = d x" using R(7) [of x k] by simp
  have c: "contains a x" using x tree_inv_contains [OF inv] by simp
  note i = contains_index [OF al c]
  have "unat (index y) \<noteq> unat (index x)" if "y \<in> S" for y
  proof
    assume "unat (index y) = unat (index x)"
    then have "index y = index x" by (simp add: unat_index_inj)
    moreover have "contains a y" using R(5) [of y] that tree_inv_contains [OF inv] by simp
    ultimately have "y = x" using contains_same_index c by blast
    with R(4) [of x] that show False by simp
  qed
  with i R(1) R(2) [of "unat (index x)"] show "nth_opt v (unat (index x)) = Some False" by (auto simp: nth_opt_Some)
qed

lemma reaching_step:
  assumes inv: "tree_inv a F" and d: "depths F d" and r: "reaching a F d S v ((x, k) # st)"
  shows "reaching a F d (insert x S) (v[unat (index x) := True]) (rev (map (\<lambda>c. (c, k + 1)) (kids F x)) @ st)"
proof -
  note R = reachingD [OF r]
  have ok: "forest_ok F" using inv by (simp add: tree_inv_def)
  note u = reaching_unseen [OF inv r]
  have kid: "dat F c \<noteq> None" "par F c = Some x" "d c = k + 1" if "c \<in> set (kids F x)" for c
    using kids_live(2,3) [OF inv that] depths_parent [OF d] u(2) by auto
  have xS: "x \<notin> S" using R(4) [of x] by simp
  have fresh: "c \<notin> insert x (fst ` set st) \<union> S" if "c \<in> set (kids F x)" for c
    using R(6) [of c x] kid(2) [OF that] xS by auto
  let ?new = "rev (map (\<lambda>c. (c, k + 1)) (kids F x))"
  have m: "map fst ?new = rev (kids F x)" by (simp add: rev_map comp_def)
  have f: "fst ` set (?new @ st) = set (kids F x) \<union> fst ` set st" by (simp add: image_Un image_image)
  have "distinct (rev (kids F x) @ map fst st)"
    using fresh forest_ok_distinct [OF ok, of x] R(3) unfolding distinct_append by auto
  then have dist: "distinct (map fst (?new @ st))" by (simp only: map_append m)
  have live: "dat F y \<noteq> None \<and> (\<forall>p. par F y = Some p \<longrightarrow> p \<in> insert x S)"
    if "y \<in> fst ` set (?new @ st) \<union> insert x S" for y
  proof (cases "y \<in> set (kids F x)")
    case True
    then show ?thesis using kid by simp
  next
    case False
    then have "y \<in> fst ` set ((x, k) # st) \<union> S" using that unfolding f by auto
    then show ?thesis using R(5,6) by blast
  qed
  show ?thesis
  proof (rule reachingI)
    show "length (v[unat (index x) := True]) = slot_count a" using R(1) by simp
    show "v[unat (index x) := True] ! i \<longleftrightarrow> (\<exists>y \<in> insert x S. unat (index y) = i)"
      if "i < length (v[unat (index x) := True])" for i
      using R(2) [of i] that by (cases "i = unat (index x)") simp_all
    show "distinct (map fst (?new @ st))" by (rule dist)
    show "fst ` set (?new @ st) \<inter> insert x S = {}" unfolding f using fresh R(4) R(3) by auto
    show "\<forall>(y, j) \<in> set (?new @ st). j = d y" using kid(3) R(7) by auto
    show "set (kids F y) \<subseteq> fst ` set (?new @ st) \<union> insert x S" if "y \<in> insert x S" for y
      unfolding f using R(8) [of y] that by auto
    show "y \<in> fst ` set (?new @ st) \<union> insert x S" if "dat F y \<noteq> None" "par F y = None" for y
      unfolding f using R(9) [OF that] by auto
  qed (rule live)
qed

lemma reaching_all:
  assumes inv: "tree_inv a F" and d: "depths F d" and r: "reaching a F d S v []"
  shows "dat F x \<noteq> None \<Longrightarrow> x \<in> S"
proof (induction "d x" arbitrary: x rule: less_induct)
  case less
  have ok: "forest_ok F" using inv by (simp add: tree_inv_def)
  show ?case
  proof (cases "par F x")
    case None
    with less.prems reachingD(9) [OF r] show ?thesis by simp
  next
    case (Some p)
    have "p \<in> S" using less.hyps [of p] depths_parent [OF d less.prems Some] forest_ok_par_dat [OF ok Some] by simp
    moreover have "x \<in> set (kids F p)" using forest_ok_kid [OF ok] Some by simp
    ultimately show ?thesis using reachingD(8) [OF r] by simp
  qed
qed

lemma validate_walk_ok:
  assumes d: "depths F d"
  shows "tree_inv a F \<Longrightarrow> reaching a F d S v st \<Longrightarrow> \<exists>v'. validate_walk a v st = Inr v' \<and> (\<forall>x. dat F x \<noteq> None \<longrightarrow> nth_opt v' (unat (index x)) = Some True)"
proof (induction a v st arbitrary: S rule: validate_walk.induct)
  case (1 a v)
  have "nth_opt v (unat (index x)) = Some True" if x: "dat F x \<noteq> None" for x
  proof -
    have "contains a x" using x tree_inv_contains [OF "1.prems"(1)] by simp
    then have "unat (index x) < slot_count a" using contains_index "1.prems"(1) by (simp add: tree_inv_def)
    then show ?thesis using reaching_all [OF "1.prems"(1) d "1.prems"(2) x]
        reachingD(1) [OF "1.prems"(2)] reachingD(2) [OF "1.prems"(2), of "unat (index x)"]
      by (auto simp: nth_opt_Some)
  qed
  then show ?case by simp
next
  case (2 a v x k st)
  note u = reaching_unseen [OF "2.prems"]
  have "k \<le> MAX_DEPTH" using u depths_bound [OF d] by simp
  moreover note reaching_step [OF "2.prems"(1) d "2.prems"(2)]
  ultimately show ?case using "2.IH"(2) [OF _ u(1) refl "2.prems"(1)] u(1) child_ids_kids [OF "2.prems"(1) u(3)] by simp
qed

lemma reaching_roots:
  assumes inv: "tree_inv a F" and d: "depths F d"
  shows "reaching a F d {} (replicate (slot_count a) False) (validate_roots a)"
proof -
  have al: "alloc_ok a" using inv by (simp add: tree_inv_def)
  have root: "arena_get a h \<bind> parent = None \<longleftrightarrow> par F h = None" if "dat F h \<noteq> None" for h
    using get_first [OF inv that] by auto
  have s: "set (validate_roots a) = {(h, 0) | h. dat F h \<noteq> None \<and> par F h = None}"
    using live_ids_mem [OF al] tree_inv_contains [OF inv] root by (auto simp: validate_roots_def)
  have "map fst (validate_roots a) = rev (filter (\<lambda>h. arena_get a h \<bind> parent = None) (live_ids a))"
    by (simp add: validate_roots_def rev_map comp_def)
  then have "distinct (map fst (validate_roots a))" using live_ids_distinct by simp
  moreover have "fst ` set (validate_roots a) = {h. dat F h \<noteq> None \<and> par F h = None}" unfolding s by force
  moreover have "\<forall>(x, r) \<in> set (validate_roots a). r = d x" unfolding s using depths_root [OF d] by auto
  ultimately show ?thesis unfolding reaching_def by simp
qed

lemma validate_reached_ok:
  assumes "\<And>h. h \<in> set hs \<Longrightarrow> nth_opt v (unat (index h)) = Some True"
  shows "validate_reached v hs = Inr ()"
  using assms by (induction hs) auto

lemma validate_ok:
  assumes inv: "tree_inv a F"
  shows "validate a = Inr ()"
proof -
  have al: "alloc_ok a" using inv by (simp add: tree_inv_def)
  from inv obtain d where d: "depths F d" by (auto simp: tree_inv_def forest_ok_def)
  obtain v where v: "validate_walk a (replicate (slot_count a) False) (validate_roots a) = Inr v"
    "\<forall>x. dat F x \<noteq> None \<longrightarrow> nth_opt v (unat (index x)) = Some True"
    using validate_walk_ok [OF d inv reaching_roots [OF inv d]] by blast
  have "validate_reached v (live_ids a) = Inr ()"
    using v(2) live_ids_mem [OF al] tree_inv_contains [OF inv] by (intro validate_reached_ok) simp
  moreover have "validate_nodes a (live_ids a) = Inr ()"
    using live_ids_mem [OF al] by (intro validate_nodes_ok [OF inv]) simp
  moreover have "validate_document a = Inr ()"
    using get_first [OF inv, of "document a"] inv by (auto simp: validate_document_def tree_inv_def)
  ultimately show ?thesis using v(1) by (simp add: validate_def check_then_def)
qed

end
