(* ===== verification/Dom_Effects.thy ===== *)
theory Dom_Effects
  imports Dom_Validate
begin

text \<open>
  The effect of each structural operation, stated over the program's own queries: what
  \<^verbatim>\<open>children\<close>, \<^verbatim>\<open>contains\<close> and \<^verbatim>\<open>depth\<close> answer after it.
\<close>

section \<open>Queries\<close>

lemma arena_ok_inv: "arena_ok a \<Longrightarrow> \<exists>F. tree_inv a F"
  by (auto simp: arena_ok_def)

lemma arena_ok_query:
  assumes "arena_ok a"
  obtains F where "tree_inv a F" "\<And>h. contains a h \<longleftrightarrow> dat F h \<noteq> None"
    "\<And>h. contains a h \<Longrightarrow> child_ids a h = kids F h" "\<And>h. contains a h \<Longrightarrow> children a h = Some (kids F h)"
  using assms tree_inv_contains child_ids_kids children_kids unfolding arena_ok_def by metis

lemma get_par:
  assumes inv: "tree_inv a F"
  shows "par F c = Some p \<longleftrightarrow> (\<exists>n. arena_get a c = Some n \<and> parent n = Some p)"
proof (cases "dat F c")
  case None
  then show ?thesis using inv forest_ok_dead(1) [of F c] by (simp add: tree_inv_def repr_def)
next
  case (Some d)
  then show ?thesis using get_first [OF inv, of c] by auto
qed

lemma get_data: "tree_inv a F \<Longrightarrow> dat F h = map_option data (arena_get a h)"
  by (cases "dat F h") (simp_all add: tree_inv_def repr_def)

lemma depth_live:
  assumes inv: "tree_inv a F" and h: "dat F h \<noteq> None"
  obtains k where "depth a h = Inr k" "k \<le> MAX_DEPTH"
proof -
  from inv obtain d where d: "depths F d" by (auto simp: tree_inv_def forest_ok_def)
  show thesis using that depth_correct [OF inv d h] depths_bound [OF d h] by blast
qed

lemma ancestors_irrefl: "tree_inv a F \<Longrightarrow> dat F h \<noteq> None \<Longrightarrow> h \<notin> set (ancestors a h)"
  by (simp add: ancestors_set)

section \<open>Where nodes go\<close>

lemma kids_detach: "forest_ok F \<Longrightarrow> kids (f_detach F c) q = remove1 c (kids F q)"
  using forest_ok_kid [of F c q] by (auto simp: f_detach_def remove1_idem split: option.split)

lemma kids_append:
  "forest_ok F \<Longrightarrow> kids (f_append (f_detach F c) p c) q = remove1 c (kids F q) @ (if q = p then [c] else [])"
  by (simp add: f_append_def kids_detach)

lemma kids_insert:
  "forest_ok F \<Longrightarrow> kids (f_insert (f_detach F c) p s c) q
     = (if q = p then insert_at s c (remove1 c (kids F q)) else remove1 c (kids F q))"
  by (simp add: f_insert_def kids_detach)

lemma append_child_refused:
  assumes "append_child p c a = (Inl e, a')" and "arena_ok a"
  shows "a' = a"
proof (cases "fst (check_insertable p c a)")
  case (Inl e')
  then show ?thesis using assms(1) check_insertable_state [of p c a]
    by (cases "check_insertable p c a") (simp add: append_child_def tbind_def)
next
  case (Inr u)
  from assms(2) obtain F where inv: "tree_inv a F" by (auto simp: arena_ok_def)
  have "fst (check_insertable p c a) = Inr ()" using Inr by simp
  from append_run [OF inv this] assms(1) show ?thesis by (metis Inl_Inr_False fst_conv)
qed

lemma append_child_accepted:
  assumes "append_child p c a = (Inr u, a')"
  shows "fst (check_insertable p c a) = Inr ()"
  using assms by (cases "check_insertable p c a"; cases "fst (check_insertable p c a)")
    (auto simp: append_child_def tbind_def)

lemma append_child_moves:
  assumes ok: "arena_ok a" and run: "append_child p c a = (Inr (), a')"
  shows "contains a' q \<longleftrightarrow> contains a q"
    and "contains a q \<Longrightarrow> children a' q = Some (remove1 c (child_ids a q) @ (if q = p then [c] else []))"
    and "map_option data (arena_get a' q) = map_option data (arena_get a q)"
proof -
  obtain F where F: "tree_inv a F" "\<And>h. contains a h \<longleftrightarrow> dat F h \<noteq> None" "\<And>h. contains a h \<Longrightarrow> child_ids a h = kids F h"
    by (rule arena_ok_query [OF ok]) blast
  have fo: "forest_ok F" using F(1) by (simp add: tree_inv_def)
  from append_run [OF F(1) append_child_accepted [OF run]] run have
    inv: "tree_inv a' (f_append (f_detach F c) p c)" by (metis snd_conv)
  have d: "dat (f_append (f_detach F c) p c) = dat F" by (simp add: f_append_def)
  show "contains a' q \<longleftrightarrow> contains a q" using tree_inv_contains [OF inv] F(2) d by simp
  show "children a' q = Some (remove1 c (child_ids a q) @ (if q = p then [c] else []))" if "contains a q"
    using children_kids [OF inv, of q] that F(2,3) d kids_append [OF fo] by simp
  show "map_option data (arena_get a' q) = map_option data (arena_get a q)"
    using get_data [OF inv] get_data [OF F(1)] d by metis
qed

lemma insert_before_accepted:
  assumes "insert_before s c a = (Inr u, a')"
  obtains n p where "arena_get a s = Some n" "parent n = Some p" "fst (check_insertable p c a) = Inr ()"
proof -
  from assms obtain n where n: "arena_get a s = Some n"
    by (cases "arena_get a s") (auto simp: insert_before_def tbind_def read_node_def)
  with assms obtain p where p: "parent n = Some p"
    by (cases "parent n") (auto simp: insert_before_def tbind_def read_node_def)
  have "fst (check_insertable p c a) = Inr ()"
    using assms n p by (cases "check_insertable p c a"; cases "fst (check_insertable p c a)")
      (auto simp: insert_before_def tbind_def read_node_def)
  with n p show thesis by (rule that)
qed

lemma insert_before_moves:
  assumes ok: "arena_ok a" and ne: "s \<noteq> c" and run: "insert_before s c a = (Inr (), a')"
  shows "contains a' q \<longleftrightarrow> contains a q"
    and "contains a q \<Longrightarrow> children a' q = Some (if s \<in> set (child_ids a q) then insert_at s c (remove1 c (child_ids a q))
           else remove1 c (child_ids a q))"
proof -
  obtain F where F: "tree_inv a F" "\<And>h. contains a h \<longleftrightarrow> dat F h \<noteq> None" "\<And>h. contains a h \<Longrightarrow> child_ids a h = kids F h"
    by (rule arena_ok_query [OF ok]) blast
  have fo: "forest_ok F" using F(1) by (simp add: tree_inv_def)
  obtain n p where p: "arena_get a s = Some n" "parent n = Some p" "fst (check_insertable p c a) = Inr ()"
    by (rule insert_before_accepted [OF run])
  have ps: "par F s = Some p" using get_par [OF F(1)] p by blast
  from insert_run [OF F(1) ps ne p(3)] run have
    inv: "tree_inv a' (f_insert (f_detach F c) p s c)" by (metis snd_conv)
  have d: "dat (f_insert (f_detach F c) p s c) = dat F" by (simp add: f_insert_def)
  show "contains a' q \<longleftrightarrow> contains a q" using tree_inv_contains [OF inv] F(2) d by simp
  show "children a' q = Some (if s \<in> set (child_ids a q) then insert_at s c (remove1 c (child_ids a q))
           else remove1 c (child_ids a q))" if "contains a q"
    using children_kids [OF inv, of q] that F(2,3) d kids_insert [OF fo] forest_ok_kid [OF fo, of s q] ps by auto
qed

lemma detach_moves:
  assumes ok: "arena_ok a" and h: "contains a h"
  obtains a' where "detach h a = (Inr (), a')" "\<And>q. contains a' q \<longleftrightarrow> contains a q"
    "\<And>q. contains a q \<Longrightarrow> children a' q = Some (remove1 h (child_ids a q))"
    "\<And>q. contains a q \<Longrightarrow> h \<notin> set (child_ids a' q)"
proof -
  obtain F where F: "tree_inv a F" "\<And>h. contains a h \<longleftrightarrow> dat F h \<noteq> None" "\<And>h. contains a h \<Longrightarrow> child_ids a h = kids F h"
    by (rule arena_ok_query [OF ok]) blast
  have fo: "forest_ok F" using F(1) by (simp add: tree_inv_def)
  have "dat F h \<noteq> None" using h F(2) by simp
  then obtain a' where a': "detach h a = (Inr (), a')" "tree_inv a' (f_detach F h)" by (rule detach_run [OF F(1)])
  have c: "contains a' q \<longleftrightarrow> contains a q" for q using tree_inv_contains [OF a'(2)] F(2) by simp
  have k: "children a' q = Some (remove1 h (child_ids a q))" "h \<notin> set (child_ids a' q)" if "contains a q" for q
    using that children_kids [OF a'(2), of q] child_ids_kids [OF a'(2), of q] F(2,3) kids_detach [OF fo, of h q]
      forest_ok_distinct [OF fo, of q] by simp_all
  from a'(1) c k show thesis by (rule that)
qed

section \<open>What a removal frees\<close>

inductive doomed :: "arena \<Rightarrow> node_id \<Rightarrow> node_id \<Rightarrow> bool" for a h where
  doomed_root: "doomed a h h"
| doomed_child: "doomed a h x \<Longrightarrow> k \<in> set (child_ids a x) \<Longrightarrow> doomed a h k"
| doomed_template: "doomed a h x \<Longrightarrow> template_of a x = Some t \<Longrightarrow> contains a t \<Longrightarrow> doomed a h t"

lemma removed_live: "removed F h x \<Longrightarrow> forest_ok F \<Longrightarrow> dat F h \<noteq> None \<Longrightarrow> dat F x \<noteq> None"
proof (induction rule: removed.induct)
  case (removed_kid x k)
  then show ?case using forest_ok_kid [of F k x] forest_ok_par_dat [of F k x] by simp
qed simp_all

lemma removed_doomed:
  assumes inv: "tree_inv a F" and h: "dat F h \<noteq> None"
  shows "removed (f_detach F h) h x \<longleftrightarrow> doomed a h x"
proof
  have fo: "forest_ok F" using inv by (simp add: tree_inv_def)
  have td: "template_dat (f_detach F h) = template_dat F" by (simp add: template_dat_def fun_eq_iff)
  note fd = f_detach_ok [OF fo, of h]
  show "removed (f_detach F h) h x \<Longrightarrow> doomed a h x"
  proof (induction rule: removed.induct)
    case (removed_kid x k)
    have "dat F x \<noteq> None" using removed_live [OF removed_kid.hyps(1) fd] h by simp
    moreover have "k \<in> set (kids F x)" using removed_kid.hyps(2) kids_detach [OF fo] by (metis notin_set_remove1)
    ultimately show ?case using removed_kid.IH child_ids_kids [OF inv] by (metis doomed_child)
  next
    case (removed_template x t)
    then show ?case using template_of_dat [OF inv] tree_inv_contains [OF inv] td by (auto intro: doomed_template)
  qed (rule doomed_root)
  show "doomed a h x \<Longrightarrow> removed (f_detach F h) h x"
  proof (induction rule: doomed.induct)
    case (doomed_child x k)
    show ?case
    proof (cases "k = h")
      case False
      have "dat F x \<noteq> None" using removed_live [OF doomed_child.IH fd] h by simp
      then have "k \<in> set (kids (f_detach F h) x)"
        using doomed_child.hyps(2) child_ids_kids [OF inv] kids_detach [OF fo] False by simp
      then show ?thesis by (rule removed_kid [OF doomed_child.IH])
    qed (simp add: removed_root)
  next
    case (doomed_template x t)
    then show ?case using template_of_dat [OF inv] tree_inv_contains [OF inv] td by (auto intro: removed_template)
  qed (rule removed_root)
qed

lemma remove_subtree_exactly:
  assumes ok: "arena_ok a" and tmpl: "templates_loose a" and h: "contains a h" "h \<noteq> document a"
  obtains a' where "remove_subtree h a = (Inr (card {x. doomed a h x}), a')" "finite {x. doomed a h x}"
    "\<And>x. contains a' x \<longleftrightarrow> contains a x \<and> \<not> doomed a h x"
    "\<And>q. contains a' q \<Longrightarrow> children a' q = Some (remove1 h (child_ids a q))"
proof -
  obtain F where F: "tree_inv a F" "\<And>h. contains a h \<longleftrightarrow> dat F h \<noteq> None" "\<And>h. contains a h \<Longrightarrow> child_ids a h = kids F h"
    by (rule arena_ok_query [OF ok]) blast
  have fo: "forest_ok F" using F(1) by (simp add: tree_inv_def)
  have hd: "dat F h \<noteq> None" using h F(2) by simp
  note eq = removed_doomed [OF F(1) hd]
  obtain a' where a': "remove_subtree h a = (Inr (card {x. doomed a h x}), a')" "finite {x. doomed a h x}"
    "tree_inv a' (f_prune (f_detach F h) {x. doomed a h x})"
    using remove_subtree_run [OF F(1) templates_loose_ok [OF F(1) tmpl] hd h(2)] unfolding eq by metis
  have c: "contains a' x \<longleftrightarrow> contains a x \<and> \<not> doomed a h x" for x
    using tree_inv_contains [OF a'(3)] F(2) by (simp add: f_prune_def)
  have "children a' q = Some (remove1 h (child_ids a q))" if "contains a' q" for q
    using that c [of q] children_kids [OF a'(3), of q] F(2,3) kids_detach [OF fo, of h q] by (simp add: f_prune_def)
  with a'(1,2) c show thesis by (rule that)
qed

section \<open>A node inserted before itself\<close>

text \<open>
  What \<^verbatim>\<open>insert_before\<close> does when the sibling and the new node are the same: the call is
  accepted for every attached node of a well-formed arena and ties the node to itself.
\<close>

section \<open>The checks pass\<close>

lemma parent_facts:
  assumes ok: "forest_ok F" and p: "par F h = Some p"
  shows "dat F h \<noteq> None" "\<exists>d. dat F p = Some d \<and> can_have_children d" "depths F d \<Longrightarrow> d h = Suc (d p)" "h \<noteq> p"
proof -
  show h: "dat F h \<noteq> None" "\<exists>d. dat F p = Some d \<and> can_have_children d" using ok p by (auto simp: forest_ok_def)
  show step: "d h = Suc (d p)" if "depths F d" for d using that h(1) p by (fastforce simp: depths_def)
  from ok obtain d where "depths F d" by (auto simp: forest_ok_def)
  from step [OF this] show "h \<noteq> p" by auto
qed

lemma self_insertable:
  assumes inv: "tree_inv a F" and p: "par F h = Some p"
  shows "fst (check_insertable p h a) = Inr ()"
proof -
  have ok: "forest_ok F" and doc: "par F (document a) = None" using inv by (simp_all add: tree_inv_def)
  note h = parent_facts(1,2) [OF ok p] and step = parent_facts(3) [OF ok p]
  from ok obtain d where d: "depths F d" by (auto simp: forest_ok_def)
  have "\<not> below F h p" using below_depth [OF _ d ok, of h p] step [OF d] by auto
  moreover have "fits_under F p h" by (auto simp: fits_under_def step depths_def)
  moreover have "h \<noteq> document a" using p doc by auto
  ultimately show ?thesis using insertable_iff [OF inv] h by blast
qed

section \<open>The ring\<close>

definition tied_to_itself :: "arena \<Rightarrow> node_id \<Rightarrow> node_id \<Rightarrow> bool" where
  "tied_to_itself a p h \<longleftrightarrow>
     (\<exists>n pn. arena_get a h = Some n \<and> parent n = Some p \<and> prev_sibling n = Some h \<and> next_sibling n = Some h
        \<and> arena_get a p = Some pn \<and> first_child pn = Some h)"

lemma self_insert_run:
  assumes inv: "tree_inv a F" and p: "par F h = Some p"
  obtains a' where "insert_before h h a = (Inr (), a')" "tied_to_itself a' p h" "alloc_ok a'"
proof -
  have ok: "forest_ok F" using inv by (simp add: tree_inv_def)
  have live: "dat F h \<noteq> None" "dat F p \<noteq> None" "h \<noteq> p"
    using parent_facts [OF ok p] by auto
  from get_par [OF inv, of h p] p obtain n where n: "arena_get a h = Some n" "parent n = Some p" by blast
  have chk: "check_insertable p h a = (Inr (), a)"
    using self_insertable [OF inv p] check_insertable_state [of p h a] by (cases "check_insertable p h a") simp
  obtain a1 where a1: "detach h a = (Inr (), a1)" "tree_inv a1 (f_detach F h)" by (rule detach_run [OF inv live(1)])
  have al1: "alloc_ok a1" using a1(2) by (simp add: tree_inv_def)
  obtain n1 where n1: "arena_get a1 h = Some n1" "prev_sibling n1 = None"
    using a1(2) live(1) by (auto simp: tree_inv_def repr_def)
  obtain pn where pn: "arena_get a1 p = Some pn" using a1(2) live(2) by (auto simp: tree_inv_def repr_def)
  let ?f = "\<lambda>n. n\<lparr>parent := Some p, prev_sibling := None, next_sibling := Some h\<rparr>"
  obtain a2 where a2: "modify_node h ?f a1 = (Inr (), a2)" "upd a1 a2 ((arena_get a1)(h \<mapsto> ?f n1))"
    by (rule modify_run [OF al1 n1(1)])
  have g2: "alloc_ok a2" "arena_get a2 h = Some (?f n1)" "arena_get a2 p = Some pn" using a2(2) pn live(3) by (auto simp: upd_def)
  let ?g = "prev_sibling_update (\<lambda>_. Some h)"
  obtain a3 where a3: "modify_node h ?g a2 = (Inr (), a3)" "upd a2 a3 ((arena_get a2)(h \<mapsto> ?g (?f n1)))"
    by (rule modify_run [OF g2(1,2)])
  have g3: "alloc_ok a3" "arena_get a3 h = Some (?g (?f n1))" "arena_get a3 p = Some pn" using a3(2) g2 live(3) by (auto simp: upd_def)
  let ?k = "first_child_update (\<lambda>_. Some h)"
  obtain a4 where a4: "modify_node p ?k a3 = (Inr (), a4)" "upd a3 a4 ((arena_get a3)(p \<mapsto> ?k pn))"
    by (rule modify_run [OF g3(1,3)])
  have g4: "alloc_ok a4" "arena_get a4 h = Some (?g (?f n1))" "arena_get a4 p = Some (?k pn)" using a4(2) g3 live(3) by (auto simp: upd_def)
  define a5 where "a5 = (case index_of a4 h of None \<Rightarrow> a4 | Some i \<Rightarrow> ranges_after_insert p i a4)"
  have "insert_before h h a = (Inr (), a5)"
    using n a1(1) n1 a2(1) a3(1) a4(1)
    by (simp add: insert_before_def tbind_Inr read_node_run chk Let_def a5_def)
  moreover have "arena_get a5 = arena_get a4"
    by (auto simp: a5_def fun_eq_iff arena_get_def ranges_after_insert_fields split: option.split)
  moreover have "slots_ok (ar_slots a4)" using g4(1) by (simp add: alloc_ok_def)
  then have "alloc_ok (ranges_after_insert p i a4)" for i by (rule same_alloc_ok [OF g4(1) same_alloc_ranges(2)])
  then have "alloc_ok a5" using g4(1) by (simp add: a5_def split: option.split)
  ultimately show thesis using that g4 by (auto simp: tied_to_itself_def)
qed

section \<open>What it breaks\<close>

lemma ring_children_loop:
  assumes "arena_get a h = Some n" "next_sibling n = Some h"
  shows "children_loop a acc (Some h) = None"
proof (induction "Suc (slot_count a) - length acc" arbitrary: acc rule: less_induct)
  case less
  show ?case using assms less [of "acc @ [h]"] by (auto simp: not_less)
qed

lemma validate_nodes_Inl:
  assumes "h \<in> set hs" "arena_get a h = Some n" "validate_first a h n (child_ids a h) = Inl e"
  shows "\<exists>e. validate_nodes a hs = Inl e"
  using assms(1)
proof (induction hs)
  case (Cons x hs)
  show ?case
  proof (cases "x = h")
    case True
    then show ?thesis using assms(2,3) by (simp add: Let_def check_then_def)
  next
    case False
    then obtain e' where "validate_nodes a hs = Inl e'" using Cons by auto
    then show ?thesis by (auto simp: Let_def check_then_def split: option.split sum.split)
  qed
qed simp

lemma ring_rejected:
  assumes "tied_to_itself a p h" "alloc_ok a"
  shows "children a p = None" and "\<exists>e. validate a = Inl e"
proof -
  from assms(1) obtain n pn where n: "arena_get a h = Some n" "prev_sibling n = Some h" "next_sibling n = Some h"
    and pn: "arena_get a p = Some pn" "first_child pn = Some h" by (auto simp: tied_to_itself_def)
  show "children a p = None" using ring_children_loop [OF n(1,3)] pn by (simp add: children_def)
  have "slot_count a > 0"
    using live_list_length [OF assms(2), of "[h]"] n(1) by (simp add: contains_def)
  then obtain b where "slot_count a = Suc b" by (cases "slot_count a") auto
  then have "child_ids a p = h # child_iter a b (Some h)" using n(1,3) pn by (simp add: child_ids_def)
  then have "validate_first a p pn (child_ids a p) = Inl (p, ''the first child has a previous sibling'')"
    using n pn(2) by (simp add: validate_first_def)
  moreover have "p \<in> set (live_ids a)" using pn(1) live_ids_mem [OF assms(2)] by (simp add: contains_def)
  ultimately have "\<exists>e. validate_nodes a (live_ids a) = Inl e" using validate_nodes_Inl pn(1) by blast
  then show "\<exists>e. validate a = Inl e" by (auto simp: validate_def check_then_def)
qed

end
