(* ===== verification/Dom_Snapshots.thy ===== *)
theory Dom_Snapshots
  imports Dom_Effects
begin

text \<open>
  Prior-state snapshots under a sequence of attribute writes, and the allocation facts
  behind the handle properties.
\<close>

section \<open>A sequence of writes to one element\<close>

datatype attr_write = SetAttr qual_name bytes | RemoveAttr qual_name

fun write_name :: "attr_write \<Rightarrow> qual_name" where
  "write_name (SetAttr name _) = name"
| "write_name (RemoveAttr name) = name"

fun apply_write :: "node_id \<Rightarrow> attr_write \<Rightarrow> arena \<Rightarrow> arena" where
  "apply_write h (SetAttr name val) a = snd (set_attribute h name val a)"
| "apply_write h (RemoveAttr name) a = snd (remove_attribute h name a)"

definition apply_writes :: "node_id \<Rightarrow> attr_write list \<Rightarrow> arena \<Rightarrow> arena" where
  "apply_writes h ws a = foldl (\<lambda>a w. apply_write h w a) a ws"

definition is_class :: "qual_name \<Rightarrow> bool" where
  "is_class q \<longleftrightarrow> qn_ns q = '''' \<and> qn_local q = ''class''"

definition is_id :: "qual_name \<Rightarrow> bool" where
  "is_id q \<longleftrightarrow> qn_ns q = '''' \<and> qn_local q = ''id''"

lemma note_first_None: "find (\<lambda>x. fst x = h) xs = None \<Longrightarrow> note_first h name xs = None"
  by (induction xs) (auto split: if_splits)

lemma note_first_Some:
  "find (\<lambda>x. fst x = h) xs = Some (k, s) \<Longrightarrow>
     \<exists>ys. note_first h name xs = Some ys \<and> find (\<lambda>x. fst x = h) ys = Some (k, note_change name s)"
proof (induction xs)
  case (Cons x xs)
  then show ?case by (cases x) (fastforce split: if_splits)
qed simp

lemma find_snoc: "find P xs = None \<Longrightarrow> P x \<Longrightarrow> find P (xs @ [x]) = Some x"
  by (induction xs) (auto split: if_splits)

lemma snapshot_change_note:
  assumes "recording_snapshots a" and "arena_get a h = Some n" and "node_attrs n = Some attrs"
  shows "snapshot_of (snapshot_attribute_change h name a) h =
     Some (note_change name (case snapshot_of a h of None \<Rightarrow> snapshot_capture attrs | Some s \<Rightarrow> s))"
proof (cases "find (\<lambda>x. fst x = h) (snapshots a)")
  case None
  then show ?thesis using assms note_first_None [OF None, of name]
    by (simp add: snapshot_attribute_change_def snapshot_of_def find_snoc)
next
  case (Some x)
  then obtain k s where ks: "find (\<lambda>x. fst x = h) (snapshots a) = Some (k, s)" by (cases x) simp
  from note_first_Some [OF ks, of name] ks assms(1) show ?thesis
    by (auto simp: snapshot_attribute_change_def snapshot_of_def)
qed

lemma modify_fields:
  "snapshots (snd (modify_node h f a)) = snapshots a"
  "recording_snapshots (snd (modify_node h f a)) = recording_snapshots a"
  by (simp_all add: modify_node_def split: option.split)

lemma change_get: "arena_get (snapshot_attribute_change h name a) = arena_get a"
  by (simp add: fun_eq_iff arena_get_def snapshot_change_fields)

lemma modify_get: "alloc_ok a \<Longrightarrow> arena_get a h = Some n \<Longrightarrow> arena_get (snd (modify_node h f a)) h = Some (f n)"
  by (erule (1) modify_run [of a h n f]) (simp add: upd_def)

lemma apply_write_run:
  assumes ok: "alloc_ok a" and rec: "recording_snapshots a" and n: "arena_get a h = Some n" "node_attrs n = Some attrs"
  shows "recording_snapshots (apply_write h w a)"
    and "\<exists>n' attrs'. arena_get (apply_write h w a) h = Some n' \<and> node_attrs n' = Some attrs'"
    and "snapshot_of (apply_write h w a) h =
       Some (note_change (write_name w) (case snapshot_of a h of None \<Rightarrow> snapshot_capture attrs | Some s \<Rightarrow> s))"
proof -
  from n(2) obtain q t s where d: "data n = Element q attrs t s"
    by (auto simp: node_attrs_def split: node_data.splits)
  let ?a1 = "snapshot_attribute_change h (write_name w) a"
  have ok1: "alloc_ok ?a1" using keepsD [OF keeps_snapshot_change ok] by simp
  have n1: "arena_get ?a1 h = Some n" by (simp add: change_get n(1))
  obtain attrs' where w: "apply_write h w a = snd (modify_node h (data_update (\<lambda>_. Element q attrs' t s)) ?a1)"
  proof (cases w)
    case (SetAttr name val)
    then show thesis using that [of "attrs_set name val attrs"] d n1 by (simp add: set_attribute_def Let_def)
  next
    case (RemoveAttr name)
    have "snd (tbind (modify_node h f) (\<lambda>_. treturn b) ?a1) = snd (modify_node h f ?a1)" for f and b :: bool
      using n1 by (simp add: tbind_def treturn_def modify_node_def)
    then show thesis using that [of "filter (\<lambda>x. attr_name x \<noteq> name) attrs"] d n1 RemoveAttr
      by (simp add: remove_attribute_def Let_def)
  qed
  show "recording_snapshots (apply_write h w a)" unfolding w using rec by (simp add: modify_fields snapshot_change_fields)
  show "\<exists>n' attrs'. arena_get (apply_write h w a) h = Some n' \<and> node_attrs n' = Some attrs'"
    unfolding w using modify_get [OF ok1 n1] by (auto simp: node_attrs_def)
  show "snapshot_of (apply_write h w a) h =
       Some (note_change (write_name w) (case snapshot_of a h of None \<Rightarrow> snapshot_capture attrs | Some s \<Rightarrow> s))"
    using snapshot_change_note [OF rec n, of "write_name w"] unfolding w by (simp add: snapshot_of_def modify_fields)
qed

lemma apply_write_alloc: "alloc_ok a \<Longrightarrow> alloc_ok (apply_write h w a)"
  using keepsD [OF keeps_set_attribute] keepsD [OF keeps_remove_attribute] by (cases w) auto

lemma apply_writes_snapshot:
  assumes "alloc_ok a" and "recording_snapshots a" and "arena_get a h = Some n" "node_attrs n = Some attrs"
    and "snapshot_of a h = Some s"
  shows "snapshot_of (apply_writes h ws a) h = Some (fold note_change (map write_name ws) s)"
  using assms
proof (induction ws arbitrary: a n attrs s)
  case (Cons w ws)
  note run = apply_write_run [OF Cons.prems(1-4), of w]
  from run(2) obtain n' attrs' where "arena_get (apply_write h w a) h = Some n'" "node_attrs n' = Some attrs'" by blast
  from Cons.IH [OF apply_write_alloc [OF Cons.prems(1)] run(1) this] run(3) Cons.prems(5) show ?case
    by (simp add: apply_writes_def)
qed (simp add: apply_writes_def)

lemma fold_note_change:
  "snap_attrs (fold note_change names s) = snap_attrs s"
  "class_changed (fold note_change names s) \<longleftrightarrow> class_changed s \<or> (\<exists>q \<in> set names. is_class q)"
  "id_changed (fold note_change names s) \<longleftrightarrow> id_changed s \<or> (\<exists>q \<in> set names. is_id q)"
  "other_attributes_changed (fold note_change names s)
     \<longleftrightarrow> other_attributes_changed s \<or> (\<exists>q \<in> set names. \<not> is_class q \<and> \<not> is_id q)"
  by (induction names arbitrary: s) (auto simp: note_change_def is_class_def is_id_def)

section \<open>Handles over histories\<close>

lemma run_spent:
  assumes "arena_run arena_new a" and "contains a h" and "arena_run a b" and "\<not> contains b h"
  shows "alloc_ok b" and "spent b h"
proof -
  have "alloc_ok a" using arena_run_alloc [OF assms(1)] alloc_ok_new by blast
  with arena_run_alloc [OF assms(3)] assms(2,4) show "alloc_ok b" "spent b h" by (auto simp: alloc_le_def)
qed

lemma live_generation:
  assumes "arena_run arena_new a" and "contains a h"
  shows "generation h \<noteq> 0"
proof -
  have "alloc_ok a" using arena_run_alloc [OF assms(1)] alloc_ok_new by blast
  with assms(2) show ?thesis by (auto simp: alloc_ok_def contains_def arena_get_Some)
qed

lemma tree_step_arena_step: "tree_step a b \<Longrightarrow> arena_step a b"
  by (erule tree_step.cases) (auto intro: arena_step.intros)

lemma tree_run_arena_run: "tree_run a b \<Longrightarrow> arena_run a b"
  by (induction rule: tree_run.induct) (auto intro: arena_run.intros tree_step_arena_step)

end
