(* ===== verification/Dom_Properties.thy ===== *)
theory Dom_Properties
  imports Dom_Snapshots
begin

text \<open>
  The properties of the DOM arena, over every history of its public operations, with
  witnesses on a small document: a paragraph holding a text and another paragraph.
\<close>

section \<open>A small document\<close>

definition demo_element :: node_data where
  "demo_element = Element \<lparr>qn_prefix = None, qn_ns = [], qn_local = ''p''\<rparr> [] None False"

definition demo1 :: arena where "demo1 = snd (create demo_element arena_new)"

definition demo2 :: arena where "demo2 = snd (append_child (NodeId 0 1) (NodeId 1 1) demo1)"

definition demo3 :: arena where "demo3 = snd (create (TextNode [0x68, 0x69]) demo2)"

definition demo4 :: arena where "demo4 = snd (append_child (NodeId 1 1) (NodeId 2 1) demo3)"

definition demo5 :: arena where "demo5 = snd (create demo_element demo4)"

definition demo :: arena where "demo = snd (append_child (NodeId 1 1) (NodeId 3 1) demo5)"

text \<open>The chunked storage evaluates through the interface of its vector.\<close>

lemma slots_eval:
  "slots_len (slots_push s x) = Suc (slots_len s)" "slots_len (slots_set s i x) = slots_len s"
  "slots_len slots_new = 0" "slots_get slots_new i = None"
  by (simp_all add: slots_push_def slots_set_def slots_new_def slots_get_def Let_def)

lemmas arena_eval = slots_eval slot_store.fetch_store slot_store.fetch_grow slot_store.store_invar
  slot_store.grow_invar slots_ok_new arena_empty_def create_def try_from_u32_def U32_MAX_def contains_def
  arena_get_def tbind_def treturn_def read_node_def modify_node_def Let_def check_insertable_def node_new_def
  can_have_children_def subtree_height_def slot_count_def MAX_DEPTH_def detach_links_def children_def child_ids_def

lemma iter_eval:
  "slots_iter slots_new = []" "slots_ok s \<Longrightarrow> slots_iter (slots_push s x) = slots_iter s @ [x]"
  "slots_ok s \<Longrightarrow> slots_iter (slots_set s i x) = (slots_iter s)[i := x]"
  by (simp_all add: slot_store.grow_view slot_store.store_view) (simp add: slots_iter_def slots_new_def)

lemma ancestor_iter_eval:
  "ancestor_iter a (numeral k) (Some c) = c # ancestor_iter a (pred_numeral k) (do { n \<leftarrow> arena_get a c; parent n })"
  "ancestor_iter a b None = []"
  by (simp_all add: numeral_eq_Suc) (cases b; simp)

lemmas link_eval = append_child_def detach_def insert_before_def ranges_before_remove_def

lemma demo1_eval:
  "demo1 = \<lparr>ar_slots = slots_push (slots_push slots_new \<lparr>slot_gen = 1, slot_node = Some (node_new Document)\<rparr>)
     \<lparr>slot_gen = 1, slot_node = Some (node_new demo_element)\<rparr>, free = [], live = 2, retired = 0,
     document = NodeId 0 1, ranges = [], free_ranges = [], snapshots = [], recording_snapshots = False\<rparr>"
  by (simp add: demo1_def arena_new_def arena_eval)

lemmas demo_eval = demo_def demo5_def demo4_def demo3_def demo2_def demo1_eval demo_element_def

lemma demo2_run: "tree_run arena_new demo2"
  unfolding demo2_def demo1_def
  by (rule tree_more, rule tree_more, rule tree_refl, rule ts_create, rule ts_append)

lemma demo_run: "tree_run arena_new demo"
  unfolding demo_def demo5_def demo4_def demo3_def
  by (rule tree_more, rule tree_more, rule tree_more, rule tree_more, rule demo2_run, rule ts_create, rule ts_append,
      rule ts_create, rule ts_append)

lemma demo_children:
  "child_ids demo (NodeId 0 1) = [NodeId 1 1]" "child_ids demo (NodeId 1 1) = [NodeId 2 1, NodeId 3 1]"
  "child_ids demo (NodeId 3 1) = []"
  by (simp_all add: demo_eval arena_eval link_eval)

lemma demo_contains:
  "contains demo (NodeId 0 1)" "contains demo (NodeId 1 1)" "contains demo (NodeId 2 1)" "contains demo (NodeId 3 1)"
  "document demo = NodeId 0 1"
  by (simp_all add: demo_eval arena_eval link_eval)

lemma demo_run': "arena_run arena_new demo"
  by (rule tree_run_arena_run [OF demo_run])

section \<open>Handles\<close>

text \<open>
  C7: Once a handle has stopped resolving it never resolves again, whatever is created,
  moved or removed later, slot reuse included.
\<close>

theorem stale_handle_stays_dead:
  assumes "arena_run arena_new a" and "contains a h" and "arena_run a b" and "\<not> contains b h" and "arena_run b c"
  shows "\<not> contains c h"
proof -
  note s = run_spent [OF assms(1-4)]
  from arena_run_alloc [OF assms(5) s(1)] s(2) show ?thesis using spent_not_contains by (auto simp: alloc_le_def)
qed

definition demo_removed :: arena where "demo_removed = snd (remove_subtree (NodeId 1 1) demo2)"

definition demo_reused :: arena where "demo_reused = snd (create demo_element demo_removed)"

theorem stale_handle_stays_dead_witness:
  "contains demo2 (NodeId 1 1) \<and> \<not> contains demo_removed (NodeId 1 1)
     \<and> \<not> contains demo_reused (NodeId 1 1) \<and> contains demo_reused (NodeId 1 2)"
proof -
  have c: "contains demo2 (NodeId 1 1)" "\<not> contains demo_removed (NodeId 1 1)" "contains demo_reused (NodeId 1 2)"
    by (simp_all add: demo_reused_def demo_removed_def demo_eval arena_eval link_eval remove_subtree_def
        template_of_def free_slot_def gen_next_def ranges_before_remove_def)
  have "arena_run demo2 demo_removed" "arena_run demo_removed demo_reused"
    unfolding demo_reused_def demo_removed_def
    by (rule run_step [OF run_refl], rule step_remove, rule run_step [OF run_refl], rule step_create)
  with stale_handle_stays_dead [OF tree_run_arena_run [OF demo2_run] c(1) _ c(2)] c show ?thesis by blast
qed

text \<open>
  The packed form of every live handle is not zero, unpacks to the same handle, and
  no two live handles share one.
\<close>

lemma live_handles_pack:
  assumes "arena_run arena_new a" and "contains a h"
  shows "to_opaque h \<noteq> 0 \<and> from_opaque (to_opaque h) = Some h
     \<and> (\<forall>g. contains a g \<and> to_opaque g = to_opaque h \<longrightarrow> g = h)"
proof -
  note g = live_generation [OF assms(1)]
  have unpack: "from_opaque (to_opaque x) = Some x" if "contains a x" for x using from_to_opaque [OF g [OF that]] .
  have "to_opaque h \<noteq> 0" using packed_nonzero [OF g [OF assms(2)], of "index h"]
    unfolding to_opaque_def Let_def by (simp only: if_False simp_thms)
  moreover have "x = h" if "contains a x" "to_opaque x = to_opaque h" for x
    using unpack [OF that(1)] unpack [OF assms(2)] that(2) by (metis option.inject)
  ultimately show ?thesis using unpack [OF assms(2)] by blast
qed

section \<open>The tree\<close>

text \<open>
  C8: As long as no call inserts a node before itself and no subtree is removed while the
  contents of some template are attached to a parent (the last section shows what either call
  breaks), the tree stays well-formed over every sequence of calls: a live node's child list is complete and without
  repetition, holds exactly the nodes that name it as their parent, agrees with both
  sibling links, and the node sits within the depth limit and below none of its own
  descendants.
\<close>

theorem tree_well_formed:
  assumes "tree_run arena_new a" and "contains a h"
  shows "\<exists>ks k. children a h = Some ks \<and> child_ids a h = ks \<and> distinct ks
     \<and> (\<forall>c. c \<in> set ks \<longleftrightarrow> (\<exists>n. arena_get a c = Some n \<and> parent n = Some h))
     \<and> (\<forall>xs c ys. ks = xs @ c # ys \<longrightarrow> (\<exists>n. arena_get a c = Some n
            \<and> prev_sibling n = last_opt xs \<and> next_sibling n = hd_opt ys))
     \<and> depth a h = Inr k \<and> k \<le> MAX_DEPTH \<and> h \<notin> set (ancestors a h)"
proof -
  obtain F where F: "tree_inv a F" "contains a h \<longleftrightarrow> dat F h \<noteq> None" "child_ids a h = kids F h" "children a h = Some (kids F h)"
    using arena_ok_query [OF reachable_ok [OF assms(1)]] assms(2) by metis
  have fo: "forest_ok F" using F(1) by (simp add: tree_inv_def)
  have h: "dat F h \<noteq> None" using assms(2) F(2) by simp
  obtain k where k: "depth a h = Inr k" "k \<le> MAX_DEPTH" by (rule depth_live [OF F(1) h])
  have "c \<in> set (kids F h) \<longleftrightarrow> (\<exists>n. arena_get a c = Some n \<and> parent n = Some h)" for c
    using forest_ok_kid [OF fo, of c h] get_par [OF F(1), of c h] by simp
  moreover have "\<exists>n. arena_get a c = Some n \<and> prev_sibling n = last_opt xs \<and> next_sibling n = hd_opt ys"
    if "kids F h = xs @ c # ys" for xs c ys using get_next [OF F(1) that] by blast
  ultimately show ?thesis
    using F(3,4) k forest_ok_distinct [OF fo, of h] ancestors_irrefl [OF F(1) h]
    by (intro exI [of _ "kids F h"] exI [of _ k]) blast
qed

theorem tree_well_formed_witness:
  "\<exists>k n. children demo (NodeId 1 1) = Some [NodeId 2 1, NodeId 3 1] \<and> depth demo (NodeId 1 1) = Inr k \<and> k \<le> MAX_DEPTH
     \<and> arena_get demo (NodeId 3 1) = Some n \<and> prev_sibling n = Some (NodeId 2 1) \<and> next_sibling n = None"
proof -
  from tree_well_formed [OF demo_run demo_contains(2)] obtain ks k where
    ks: "children demo (NodeId 1 1) = Some ks" "child_ids demo (NodeId 1 1) = ks"
      "\<forall>xs c ys. ks = xs @ c # ys \<longrightarrow> (\<exists>n. arena_get demo c = Some n
            \<and> prev_sibling n = last_opt xs \<and> next_sibling n = hd_opt ys)"
    and k: "depth demo (NodeId 1 1) = Inr k" "k \<le> MAX_DEPTH" by blast
  have e: "ks = [NodeId 2 1] @ NodeId 3 1 # []" using ks(2) demo_children(2) by simp
  from ks(3) [rule_format, OF e] ks(1) k e show ?thesis by auto
qed

text \<open>
  The program's own structural validator accepts every reachable arena.
\<close>

lemma validator_accepts:
  assumes "tree_run arena_new a"
  shows "validate a = Inr ()"
  using arena_ok_inv [OF reachable_ok [OF assms]] validate_ok by blast

text \<open>
  C9: An append succeeds exactly when the parent is a live container, the child is live
  and is neither the document nor an ancestor-or-self of the parent, and everything below
  the child still fits under the depth limit in its new place.
\<close>

theorem append_accepted_iff:
  assumes "tree_run arena_new a"
  shows "(\<exists>a'. append_child p c a = (Inr (), a')) \<longleftrightarrow>
     (\<exists>n. arena_get a p = Some n \<and> can_have_children (data n)) \<and> contains a c \<and> c \<noteq> document a
     \<and> \<not> is_inclusive_ancestor a c p
     \<and> (\<forall>x i j k. is_inclusive_ancestor a c x \<longrightarrow> depth a p = Inr i \<longrightarrow> depth a x = Inr j \<longrightarrow> depth a c = Inr k
           \<longrightarrow> i + 1 + j \<le> MAX_DEPTH + k)"
proof -
  from reachable_ok [OF assms] obtain F where inv: "tree_inv a F" by (rule arena_okE)
  from inv obtain d where d: "depths F d" by (auto simp: tree_inv_def forest_ok_def)
  note dep = depth_correct [OF inv]
  have "(\<exists>a'. append_child p c a = (Inr (), a')) \<longleftrightarrow> fst (check_insertable p c a) = Inr ()"
    using append_run [OF inv] append_child_accepted by metis
  also have "\<dots> \<longleftrightarrow> (\<exists>dp. dat F p = Some dp \<and> can_have_children dp) \<and> dat F c \<noteq> None \<and> c \<noteq> document a
      \<and> \<not> below F c p \<and> fits_under F p c" by (rule insertable_iff [OF inv])
  also have "(\<exists>dp. dat F p = Some dp \<and> can_have_children dp) \<longleftrightarrow> (\<exists>n. arena_get a p = Some n \<and> can_have_children (data n))"
    using get_data [OF inv, of p] by auto
  also have "dat F c \<noteq> None \<longleftrightarrow> contains a c" using tree_inv_contains [OF inv] by simp
  finally have acc: "(\<exists>a'. append_child p c a = (Inr (), a')) \<longleftrightarrow>
      (\<exists>n. arena_get a p = Some n \<and> can_have_children (data n)) \<and> contains a c \<and> c \<noteq> document a
      \<and> \<not> below F c p \<and> fits_under F p c" .
  have fit: "fits_under F p c \<longleftrightarrow> (\<forall>x i j k. is_inclusive_ancestor a c x \<longrightarrow> depth a p = Inr i \<longrightarrow> depth a x = Inr j
      \<longrightarrow> depth a c = Inr k \<longrightarrow> i + 1 + j \<le> MAX_DEPTH + k)" if "dat F p \<noteq> None" "dat F c \<noteq> None"
  proof
    assume "fits_under F p c"
    then show "\<forall>x i j k. is_inclusive_ancestor a c x \<longrightarrow> depth a p = Inr i \<longrightarrow> depth a x = Inr j
      \<longrightarrow> depth a c = Inr k \<longrightarrow> i + 1 + j \<le> MAX_DEPTH + k"
      using dep [OF d] that d by (auto simp: fits_under_def inclusive_ancestor_below [OF inv])
  next
    assume R: "\<forall>x i j k. is_inclusive_ancestor a c x \<longrightarrow> depth a p = Inr i \<longrightarrow> depth a x = Inr j
      \<longrightarrow> depth a c = Inr k \<longrightarrow> i + 1 + j \<le> MAX_DEPTH + k"
    show "fits_under F p c" unfolding fits_under_def
    proof (intro allI impI)
      fix e x assume e: "depths F e" and x: "dat F x \<noteq> None" "below F c x"
      then have "is_inclusive_ancestor a c x" by (simp add: inclusive_ancestor_below [OF inv])
      from R [rule_format, OF this dep [OF e that(1)] dep [OF e x(1)] dep [OF e that(2)]]
      show "Suc (e p) + e x \<le> MAX_DEPTH + e c" by simp
    qed
  qed
  have "dat F p \<noteq> None" if "arena_get a p = Some n" for n using get_data [OF inv, of p] that by simp
  then show ?thesis unfolding acc using fit inclusive_ancestor_below [OF inv, of c p] tree_inv_contains [OF inv, of c] by blast
qed

theorem append_accepted_iff_witness:
  "\<not> (\<exists>a'. append_child (NodeId 3 1) (NodeId 1 1) demo = (Inr (), a')) \<and> is_inclusive_ancestor demo (NodeId 1 1) (NodeId 3 1)"
proof -
  have "is_inclusive_ancestor demo (NodeId 1 1) (NodeId 3 1)"
    by (simp add: is_inclusive_ancestor_def ancestors_def ancestor_iter_eval demo_eval arena_eval link_eval)
  then show ?thesis using append_accepted_iff [OF demo_run, of "NodeId 3 1" "NodeId 1 1"] by blast
qed

text \<open>
  C10: An append that succeeds moves the child to the end of its new parent's list and
  takes it out of its old one; every other list, every node and every payload stay.  One
  that is refused changes nothing.
\<close>

theorem append_child_effect:
  assumes "tree_run arena_new a" and "append_child p c a = (r, a')"
  shows "case r of Inl e \<Rightarrow> a' = a
     | Inr _ \<Rightarrow> \<forall>q. (contains a' q \<longleftrightarrow> contains a q) \<and> map_option data (arena_get a' q) = map_option data (arena_get a q)
         \<and> (contains a q \<longrightarrow> children a' q = Some (remove1 c (child_ids a q) @ (if q = p then [c] else [])))"
proof (cases r)
  case (Inl e)
  with append_child_refused [OF _ reachable_ok [OF assms(1)]] assms(2) show ?thesis by simp
next
  case (Inr u)
  then have "append_child p c a = (Inr (), a')" using assms(2) by simp
  from append_child_moves [OF reachable_ok [OF assms(1)] this] show ?thesis by (simp add: Inr)
qed

theorem append_child_effect_witness:
  "children (snd (append_child (NodeId 0 1) (NodeId 3 1) demo)) (NodeId 0 1) = Some [NodeId 1 1, NodeId 3 1]
     \<and> children (snd (append_child (NodeId 0 1) (NodeId 3 1) demo)) (NodeId 1 1) = Some [NodeId 2 1]"
proof -
  have ok: "fst (append_child (NodeId 0 1) (NodeId 3 1) demo) = Inr ()" by (simp add: demo_eval arena_eval link_eval)
  obtain a' where a': "append_child (NodeId 0 1) (NodeId 3 1) demo = (Inr (), a')"
    using ok by (cases "append_child (NodeId 0 1) (NodeId 3 1) demo") simp
  from append_child_effect [OF demo_run a'] show ?thesis by (simp add: a' demo_contains demo_children)
qed

text \<open>
  Inserting a node before another puts it directly in front of that sibling, out of
  its old place, and changes no other child list.
\<close>

lemma insert_before_effect:
  assumes "tree_run arena_new a" and "s \<noteq> c" and "insert_before s c a = (Inr (), a')"
  shows "(contains a' q \<longleftrightarrow> contains a q) \<and> (contains a q \<longrightarrow> children a' q =
     Some (if s \<in> set (child_ids a q) then insert_at s c (remove1 c (child_ids a q)) else remove1 c (child_ids a q)))"
  using insert_before_moves [OF reachable_ok [OF assms(1)] assms(2,3)] by blast

text \<open>
  Detaching a live node always succeeds, removes it from the list that held it and
  from no other, and leaves every node alive.
\<close>

lemma detach_effect:
  assumes "tree_run arena_new a" and "contains a h"
  shows "\<exists>a'. detach h a = (Inr (), a') \<and> (\<forall>q. contains a' q \<longleftrightarrow> contains a q)
     \<and> (\<forall>q. contains a q \<longrightarrow> children a' q = Some (remove1 h (child_ids a q)) \<and> h \<notin> set (child_ids a' q))"
  using detach_moves [OF reachable_ok [OF assms(1)] assms(2)] by metis

text \<open>
  C11: Removing a subtree frees exactly the node, everything below it and the contents of
  every template in it, reports how many that was, and only takes the node out of its
  parent's list otherwise.
\<close>

theorem remove_subtree_effect:
  assumes "tree_run arena_new a" and "templates_loose a" and "contains a h" and "h \<noteq> document a"
  shows "\<exists>a'. remove_subtree h a = (Inr (card {x. doomed a h x}), a') \<and> finite {x. doomed a h x}
     \<and> (\<forall>x. contains a' x \<longleftrightarrow> contains a x \<and> \<not> doomed a h x)
     \<and> (\<forall>q. contains a' q \<longrightarrow> children a' q = Some (remove1 h (child_ids a q)))"
  using remove_subtree_exactly [OF reachable_ok [OF assms(1)] assms(2-4)] by metis

lemma append_templates: "arena_ok a \<Longrightarrow> template_of (snd (append_child p c a)) x = template_of a x"
proof -
  assume ok: "arena_ok a"
  obtain r a' where run: "append_child p c a = (r, a')" by fastforce
  show ?thesis
  proof (cases r)
    case (Inl e)
    then have "a' = a" using append_child_refused [OF _ ok] run by blast
    then show ?thesis using run by simp
  next
    case (Inr u)
    then have "map_option data (arena_get a' x) = map_option data (arena_get a x)"
      using append_child_moves(3) [OF ok] run by simp
    then show ?thesis using run
      by (cases "arena_get a x"; cases "arena_get a' x") (auto simp: template_of_def)
  qed
qed

lemma create_templates:
  assumes "arena_ok a" and "template_of a x = None" and "case d of Element _ _ t _ \<Rightarrow> t = None | _ \<Rightarrow> True"
  shows "template_of (snd (create d a)) x = None"
proof (cases "fst (create d a)")
  case (Inl e)
  then show ?thesis using assms(2) by (auto simp: create_def template_of_def arena_get_def Let_def split: list.splits option.splits if_splits)
next
  case (Inr h)
  then have run: "create d a = (Inr h, snd (create d a))" by (simp add: prod_eq_iff)
  have "alloc_ok a" using arena_ok_inv [OF assms(1)] by (auto simp: tree_inv_def)
  from create_get(2) [OF this run] assms(2,3) show ?thesis
    by (auto simp: template_of_def node_new_def split: node_data.splits)
qed

lemma demo_templates: "template_of demo x = None"
proof -
  note ok = arena_ok_new create_ok append_child_ok
  have "template_of arena_new x = None"
    by (simp add: template_of_def arena_new_def arena_eval)
  then show ?thesis unfolding demo_def demo5_def demo4_def demo3_def demo2_def demo1_def
    by (simp add: append_templates create_templates ok demo_element_def)
qed

lemma demo_loose: "templates_loose demo"
  by (simp add: templates_loose_def demo_templates)

theorem remove_subtree_effect_witness:
  "\<exists>n a'. remove_subtree (NodeId 1 1) demo = (Inr n, a') \<and> \<not> contains a' (NodeId 1 1) \<and> \<not> contains a' (NodeId 3 1)"
proof -
  have "doomed demo (NodeId 1 1) (NodeId 3 1)"
    by (rule doomed_child [OF doomed_root]) (simp add: demo_children)
  then show ?thesis
    using remove_subtree_effect [OF demo_run demo_loose demo_contains(2)] doomed_root [of demo "NodeId 1 1"] demo_contains(5)
    by auto
qed

text \<open>
  C12: Over the same sequences of calls, which insert no node before itself and remove no
  subtree while template contents are attached to a parent, both boundaries of every live
  range stay on live nodes, at offsets within them, whatever is inserted, moved, removed or
  written.
\<close>

theorem ranges_stay_valid:
  assumes "tree_run arena_new a" and "range_get a r = Some g"
  shows "is_valid_boundary a (rg_start g) \<and> is_valid_boundary a (rg_end g)"
proof -
  from reachable_ok [OF assms(1)] obtain F where F: "tree_inv a F" "ranges_in F (ranges a)" by (rule arena_okE)
  from assms(2) have "\<exists>s \<in> set (ranges a). rs_range s = Some g"
    by (auto simp: range_get_def bind_eq_Some_conv nth_opt_Some split: if_splits)
  with F show ?thesis by (auto simp: valid_boundary_bounded [OF F(1)] ranges_in_def)
qed

definition demo_range :: range where
  "demo_range = \<lparr>rg_start = \<lparr>bp_node = NodeId 1 1, bp_offset = 1\<rparr>, rg_end = \<lparr>bp_node = NodeId 1 1, bp_offset = 2\<rparr>\<rparr>"

definition demo_ranged :: arena where
  "demo_ranged = snd (detach (NodeId 2 1) (snd (new_range (rg_start demo_range) (rg_end demo_range) demo)))"

theorem ranges_stay_valid_witness:
  "range_get demo_ranged (RangeId 0 1) =
       Some \<lparr>rg_start = \<lparr>bp_node = NodeId 1 1, bp_offset = 0\<rparr>, rg_end = \<lparr>bp_node = NodeId 1 1, bp_offset = 1\<rparr>\<rparr>
     \<and> is_valid_boundary demo_ranged \<lparr>bp_node = NodeId 1 1, bp_offset = 1\<rparr>"
proof -
  have g: "range_get demo_ranged (RangeId 0 1) =
       Some \<lparr>rg_start = \<lparr>bp_node = NodeId 1 1, bp_offset = 0\<rparr>, rg_end = \<lparr>bp_node = NodeId 1 1, bp_offset = 1\<rparr>\<rparr>"
    by (simp add: range_get_def demo_ranged_def demo_range_def new_range_def is_valid_boundary_def node_length_def
        compare_boundary_points.simps index_of_def shift_remove_def is_inclusive_ancestor_def ancestors_def
        ancestor_iter_eval nth_opt_def demo_eval arena_eval link_eval)
  have "tree_run arena_new demo_ranged" unfolding demo_ranged_def
    by (rule tree_more, rule tree_more, rule demo_run, rule ts_new_range, rule ts_detach)
  from ranges_stay_valid [OF this g] g show ?thesis by simp
qed

section \<open>Snapshots\<close>

text \<open>
  After any sequence of attribute writes to an element that had no snapshot, its
  snapshot holds the attributes as they were before the first write, and its flags say
  exactly which kinds of attribute were written since.
\<close>

lemma snapshot_holds_prior_state:
  assumes "arena_run arena_new a" and "recording_snapshots a" and "arena_get a h = Some n" and "node_attrs n = Some attrs"
    and "snapshot_of a h = None" and "ws \<noteq> []"
  shows "\<exists>s. snapshot_of (apply_writes h ws a) h = Some s \<and> snap_attrs s = attrs
     \<and> (class_changed s \<longleftrightarrow> (\<exists>w \<in> set ws. is_class (write_name w)))
     \<and> (id_changed s \<longleftrightarrow> (\<exists>w \<in> set ws. is_id (write_name w)))
     \<and> (other_attributes_changed s \<longleftrightarrow> (\<exists>w \<in> set ws. \<not> is_class (write_name w) \<and> \<not> is_id (write_name w)))"
proof -
  from assms(6) obtain w ws' where ws: "ws = w # ws'" by (cases ws) auto
  have ok: "alloc_ok a" using arena_run_alloc [OF assms(1) alloc_ok_new] by simp
  note run = apply_write_run [OF ok assms(2-4), of w]
  from run(2) obtain n' attrs' where n': "arena_get (apply_write h w a) h = Some n'" "node_attrs n' = Some attrs'" by blast
  let ?s = "fold note_change (map write_name ws) (snapshot_capture attrs)"
  have "snapshot_of (apply_writes h ws a) h = Some ?s"
    using apply_writes_snapshot [OF apply_write_alloc [OF ok] run(1) n' run(3), of ws'] assms(5)
    by (simp add: ws apply_writes_def)
  then show ?thesis by (intro exI [of _ ?s]) (simp add: fold_note_change snapshot_capture_def)
qed

section \<open>What the public operations can still break\<close>

text \<open>
  C13: In every such arena, inserting any node that has a parent before itself is accepted.  The
  node becomes its own previous and next sibling and the first child of its parent, whose child
  list cannot be read any more, and the validator rejects the arena.
\<close>

theorem self_insert_makes_ring:
  assumes "tree_run arena_new a" and "arena_get a h = Some n" and "parent n = Some p"
  shows "\<exists>a'. insert_before h h a = (Inr (), a') \<and> tied_to_itself a' p h \<and> children a' p = None
     \<and> (\<exists>e. validate a' = Inl e) \<and> validate a = Inr ()"
proof -
  from reachable_ok [OF assms(1)] obtain F where inv: "tree_inv a F" by (rule arena_okE)
  have "par F h = Some p" using get_par [OF inv] assms(2,3) by blast
  from self_insert_run [OF inv this] obtain a' where
    a': "insert_before h h a = (Inr (), a')" "tied_to_itself a' p h" "alloc_ok a'" .
  with ring_rejected [OF a'(2,3)] validate_ok [OF inv] show ?thesis by blast
qed

theorem self_insert_makes_ring_witness:
  "\<exists>a' e. insert_before (NodeId 2 1) (NodeId 2 1) demo = (Inr (), a')
     \<and> children demo (NodeId 1 1) = Some [NodeId 2 1, NodeId 3 1] \<and> children a' (NodeId 1 1) = None \<and> validate a' = Inl e"
proof -
  obtain n where "arena_get demo (NodeId 2 1) = Some n" "parent n = Some (NodeId 1 1)"
    by (simp add: demo_eval arena_eval link_eval)
  from self_insert_makes_ring [OF demo_run this] show ?thesis by (auto simp: demo_eval arena_eval link_eval)
qed

definition template_element :: node_data where
  "template_element = Element \<lparr>qn_prefix = None, qn_ns = [], qn_local = ''template''\<rparr> [] (Some (NodeId 1 1)) False"

definition demo_template :: arena where
  "demo_template = snd (append_child (NodeId 0 1) (NodeId 2 1) (snd (append_child (NodeId 0 1) (NodeId 1 1)
     (snd (create template_element (snd (create Fragment arena_new)))))))"

text \<open>
  When template contents have been attached to the tree, removing the template frees
  them in place: the parent that still lists them can no longer be read.
\<close>
lemma attached_template_breaks_tree:
  "tree_run arena_new demo_template \<and> children demo_template (NodeId 0 1) = Some [NodeId 1 1, NodeId 2 1]
     \<and> fst (remove_subtree (NodeId 2 1) demo_template) = Inr 2
     \<and> children (snd (remove_subtree (NodeId 2 1) demo_template)) (NodeId 0 1) = None"
proof (intro conjI)
  show "tree_run arena_new demo_template" unfolding demo_template_def
    by (rule tree_more, rule tree_more, rule tree_more, rule tree_more, rule tree_refl, rule ts_create, rule ts_create,
        rule ts_append, rule ts_append)
qed (simp_all add: demo_template_def template_element_def arena_new_def arena_eval link_eval remove_subtree_def
    template_of_def free_slot_def gen_next_def)

end
