(* ===== verification/Script_Queue.thy ===== *)
theory Script_Queue
  imports Pelorus_Prelude "HOL-Library.Product_Lexorder"
begin

text \<open>
  The event loop's queues, \<^verbatim>\<open>crates/px-script/src/queue.rs\<close>, and the host loop of
  \<^verbatim>\<open>runtime.rs\<close> that drives them.  What a microtask and a timer carry is a type
  parameter, as in the source.  The timer table is a map kept as a sorted association
  list; the binary heap of \<^verbatim>\<open>(due, seq, id)\<close> triples is the sorted list of its
  entries, so that peeking reads the head and popping drops it.  Counters of type
  \<^verbatim>\<open>u64\<close> and \<^verbatim>\<open>u32\<close> are natural numbers that saturate where the code does.
  The high-water marks exist in test builds only and are left out.
\<close>

section \<open>Types\<close>

type_synonym timer_id = nat

definition NESTING_CLAMP_LEVEL :: nat where "NESTING_CLAMP_LEVEL = 5"

definition NESTED_MIN_DELAY_MS :: nat where "NESTED_MIN_DELAY_MS = 4"

definition MAX_DELAY_MS :: nat where "MAX_DELAY_MS = 2 ^ 31 - 1"

definition NS_PER_MS :: nat where "NS_PER_MS = 1000000"

record caps =
  cap_tasks :: nat
  cap_microtasks :: nat
  cap_timers :: nat
  checkpoint_budget :: nat

definition caps_default :: caps where
  "caps_default = \<lparr>cap_tasks = 4096, cap_microtasks = 65536, cap_timers = 10000, checkpoint_budget = 1000000\<rparr>"

datatype terminate_reason =
    TaskQueueOverflow
  | MicrotaskQueueOverflow
  | TimerOverflow
  | MicrotaskBudget
  | RuntimeLimit
  | EnginePanic

datatype task = Timer timer_id

datatype timer_state = Pending nat nat | Queued | Running

record 'p entry =
  payload :: 'p
  repeat_ms :: "nat option"
  entry_nesting :: nat
  state :: timer_state

record 'p fired =
  fired_payload :: 'p
  fired_nesting :: nat

type_synonym arming = "nat \<times> nat \<times> timer_id"

record ('m, 'p) loop_core =
  lc_caps :: caps
  microtasks :: "'m list"
  tasks :: "task list"
  timers :: "(timer_id, 'p entry) btree"
  heap :: "arming list"
  next_id :: timer_id
  next_seq :: nat
  nesting :: nat
  checkpoint_run :: nat
  terminated :: "terminate_reason option"

definition sat_add_u32 :: "nat \<Rightarrow> nat \<Rightarrow> nat" where
  "sat_add_u32 a b = min (a + b) (2 ^ 32 - 1)"

section \<open>Termination\<close>

definition loop_new :: "caps \<Rightarrow> ('m, 'p) loop_core" where
  "loop_new c = \<lparr>lc_caps = c, microtasks = [], tasks = [], timers = [], heap = [], next_id = 1, next_seq = 0,
     nesting = 0, checkpoint_run = 0, terminated = None\<rparr>"

definition terminate :: "terminate_reason \<Rightarrow> ('m, 'p) loop_core \<Rightarrow> ('m, 'p) loop_core" where
  "terminate reason c =
     (if terminated c \<noteq> None then c
      else c\<lparr>terminated := Some reason, microtasks := [], tasks := [], timers := [], heap := []\<rparr>)"

definition discard :: "('m, 'p) loop_core \<Rightarrow> ('m, 'p) loop_core" where
  "discard c = c\<lparr>microtasks := [], tasks := [], timers := [], heap := []\<rparr>"

section \<open>Microtasks\<close>

definition push_microtask :: "'m \<Rightarrow> ('m, 'p) loop_core \<Rightarrow> bool \<times> ('m, 'p) loop_core" where
  "push_microtask job c =
     (if terminated c \<noteq> None then (False, c)
      else if length (microtasks c) \<ge> cap_microtasks (lc_caps c) then (False, terminate MicrotaskQueueOverflow c)
      else (True, c\<lparr>microtasks := microtasks c @ [job]\<rparr>))"

definition begin_checkpoint :: "('m, 'p) loop_core \<Rightarrow> ('m, 'p) loop_core" where
  "begin_checkpoint c = c\<lparr>checkpoint_run := 0\<rparr>"

definition pop_microtask :: "('m, 'p) loop_core \<Rightarrow> 'm option \<times> ('m, 'p) loop_core" where
  "pop_microtask c =
     (if terminated c \<noteq> None \<or> microtasks c = [] then (None, c)
      else if checkpoint_run c \<ge> checkpoint_budget (lc_caps c) then (None, terminate MicrotaskBudget c)
      else (Some (hd (microtasks c)),
            c\<lparr>checkpoint_run := checkpoint_run c + 1, microtasks := tl (microtasks c)\<rparr>))"

section \<open>Timers\<close>

definition effective_delay_ms :: "nat \<Rightarrow> nat \<Rightarrow> nat" where
  "effective_delay_ms requested n =
     (let delay = min requested MAX_DELAY_MS
      in if n > NESTING_CLAMP_LEVEL then max delay NESTED_MIN_DELAY_MS else delay)"

definition take_seq :: "('m, 'p) loop_core \<Rightarrow> nat \<times> ('m, 'p) loop_core" where
  "take_seq c = (next_seq c, c\<lparr>next_seq := sat_add (next_seq c) 1\<rparr>)"

definition due_at :: "nat \<Rightarrow> nat \<Rightarrow> nat" where
  "due_at now delay = sat_add now (sat_mul delay NS_PER_MS)"

definition add_timer :: "nat \<Rightarrow> nat \<Rightarrow> bool \<Rightarrow> 'p \<Rightarrow> ('m, 'p) loop_core \<Rightarrow> timer_id option \<times> ('m, 'p) loop_core" where
  "add_timer now delay_ms rep p c =
     (if terminated c \<noteq> None then (None, c)
      else if length (timers c) \<ge> cap_timers (lc_caps c) then (None, terminate TimerOverflow c)
      else let n = sat_add_u32 (nesting c) 1;
               delay = effective_delay_ms delay_ms n;
               i = next_id c;
               c1 = c\<lparr>next_id := sat_add (next_id c) 1\<rparr>;
               due = due_at now delay;
               (seq, c2) = take_seq c1
           in (Some i, c2\<lparr>timers := bt_insert i \<lparr>payload = p,
                              repeat_ms = (if rep then Some (min delay_ms MAX_DELAY_MS) else None),
                              entry_nesting = n, state = Pending due seq\<rparr> (timers c2),
                          heap := insort (due, seq, i) (heap c2)\<rparr>))"

definition is_live_arming :: "('m, 'p) loop_core \<Rightarrow> arming \<Rightarrow> bool" where
  "is_live_arming c x =
     (case x of (due, seq, i) \<Rightarrow>
        (case map_of (timers c) i of Some e \<Rightarrow> state e = Pending due seq | None \<Rightarrow> False))"

definition compact_heap :: "('m, 'p) loop_core \<Rightarrow> ('m, 'p) loop_core" where
  "compact_heap c = c\<lparr>heap := sort (List.map_filter
     (\<lambda>(i, e). case state e of Pending due seq \<Rightarrow> Some (due, seq, i) | _ \<Rightarrow> None) (timers c))\<rparr>"

definition clear_timer :: "timer_id \<Rightarrow> ('m, 'p) loop_core \<Rightarrow> bool \<times> ('m, 'p) loop_core" where
  "clear_timer i c =
     (let existed = (map_of (timers c) i \<noteq> None);
          c1 = c\<lparr>timers := bt_remove i (timers c)\<rparr>
      in (existed, if length (heap c1) > sat_add (sat_mul (length (timers c1)) 2) 1024 then compact_heap c1 else c1))"

text \<open>The loop that drops stale entries from the top of the heap.\<close>

fun drop_stale :: "(arming \<Rightarrow> bool) \<Rightarrow> arming list \<Rightarrow> arming list" where
  "drop_stale live [] = []"
| "drop_stale live (x # h) = (if live x then x # h else drop_stale live h)"

definition next_due_ns :: "('m, 'p) loop_core \<Rightarrow> nat option \<times> ('m, 'p) loop_core" where
  "next_due_ns c =
     (let h = drop_stale (is_live_arming c) (heap c)
      in (case h of [] \<Rightarrow> None | x # _ \<Rightarrow> Some (fst x), c\<lparr>heap := h\<rparr>))"

section \<open>Tasks\<close>

definition enqueue_task :: "task \<Rightarrow> ('m, 'p) loop_core \<Rightarrow> bool \<times> ('m, 'p) loop_core" where
  "enqueue_task t c =
     (if terminated c \<noteq> None then (False, c)
      else if length (tasks c) \<ge> cap_tasks (lc_caps c) then (False, terminate TaskQueueOverflow c)
      else (True, c\<lparr>tasks := tasks c @ [t]\<rparr>))"

definition set_queued :: "timer_id \<Rightarrow> ('m, 'p) loop_core \<Rightarrow> ('m, 'p) loop_core" where
  "set_queued i c = (case map_of (timers c) i of
      None \<Rightarrow> c | Some e \<Rightarrow> c\<lparr>timers := bt_insert i (e\<lparr>state := Queued\<rparr>) (timers c)\<rparr>)"

lemma set_queued_heap [simp]: "heap (set_queued i c) = heap c"
  by (simp add: set_queued_def split: option.split)

lemma enqueue_task_heap: "length (heap (snd (enqueue_task t c))) \<le> length (heap c)"
  by (simp add: enqueue_task_def terminate_def)

function promote_due :: "nat \<Rightarrow> ('m, 'p) loop_core \<Rightarrow> ('m, 'p) loop_core" where
  "promote_due now c =
     (if terminated c \<noteq> None \<or> length (tasks c) \<ge> cap_tasks (lc_caps c) then c
      else case heap c of
        [] \<Rightarrow> c
      | (due, seq, i) # h \<Rightarrow>
          if \<not> is_live_arming c (due, seq, i) then promote_due now (c\<lparr>heap := h\<rparr>)
          else if due > now then c
          else promote_due now (snd (enqueue_task (Timer i) (set_queued i (c\<lparr>heap := h\<rparr>)))))"
  by pat_completeness auto
termination
proof (relation "measure (\<lambda>(now, c). length (heap c))", goal_cases)
  case (3 now c x h due y seq i)
  then show ?case
    using enqueue_task_heap [of "Timer i" "set_queued i (c\<lparr>heap := h\<rparr>)"] by simp
qed auto

declare promote_due.simps [simp del]

definition pop_task :: "('m, 'p) loop_core \<Rightarrow> task option \<times> ('m, 'p) loop_core" where
  "pop_task c =
     (if terminated c \<noteq> None then (None, c)
      else case tasks c of [] \<Rightarrow> (None, c) | t # ts \<Rightarrow> (Some t, c\<lparr>tasks := ts\<rparr>))"

definition begin_timer_task :: "timer_id \<Rightarrow> ('m, 'p) loop_core \<Rightarrow> 'p fired option \<times> ('m, 'p) loop_core" where
  "begin_timer_task i c =
     (if terminated c \<noteq> None then (None, c)
      else case map_of (timers c) i of
        None \<Rightarrow> (None, c)
      | Some e \<Rightarrow>
          if state e \<noteq> Queued then (None, c)
          else let c1 = c\<lparr>nesting := entry_nesting e\<rparr>;
                   f = \<lparr>fired_payload = payload e, fired_nesting = entry_nesting e\<rparr>
               in if repeat_ms e \<noteq> None
                  then (Some f, c1\<lparr>timers := bt_insert i (e\<lparr>state := Running\<rparr>) (timers c1)\<rparr>)
                  else (Some f, c1\<lparr>timers := bt_remove i (timers c1)\<rparr>))"

definition finish_timer_task :: "timer_id \<Rightarrow> nat \<Rightarrow> ('m, 'p) loop_core \<Rightarrow> ('m, 'p) loop_core" where
  "finish_timer_task i now c =
     (let c0 = c\<lparr>nesting := 0\<rparr>
      in if terminated c0 \<noteq> None then c0
         else let (seq, c1) = take_seq c0
              in case map_of (timers c1) i of
                   None \<Rightarrow> c1
                 | Some e \<Rightarrow>
                     if state e \<noteq> Running then c1
                     else case repeat_ms e of
                       None \<Rightarrow> c1
                     | Some r \<Rightarrow>
                         let n = sat_add_u32 (entry_nesting e) 1;
                             due = due_at now (effective_delay_ms r n)
                         in c1\<lparr>timers := bt_insert i (e\<lparr>entry_nesting := n, state := Pending due seq\<rparr>) (timers c1),
                               heap := insort (due, seq, i) (heap c1)\<rparr>)"

section \<open>The host loop\<close>

text \<open>
  Running a job or a callback is the engine's business: a function of the job and the
  core that says how the call ended and what it left in the core.
\<close>

datatype outcome = Finished | Thrown | LimitHit | EngineFailed

definition note_error :: "outcome \<Rightarrow> ('m, 'p) loop_core \<Rightarrow> bool \<times> ('m, 'p) loop_core" where
  "note_error r c =
     (case r of
        LimitHit \<Rightarrow> (True, terminate RuntimeLimit c)
      | EngineFailed \<Rightarrow> (True, terminate EnginePanic c)
      | _ \<Rightarrow> (False, c))"

partial_function (option) checkpoint_loop ::
  "('m \<Rightarrow> ('m, 'p) loop_core \<Rightarrow> outcome \<times> ('m, 'p) loop_core) \<Rightarrow> ('m, 'p) loop_core \<Rightarrow> ('m, 'p) loop_core option" where
  "checkpoint_loop run c =
     (case pop_microtask c of
        (None, c1) \<Rightarrow> Some c1
      | (Some job, c1) \<Rightarrow>
          (case run job c1 of (r, c2) \<Rightarrow>
             (case note_error r c2 of (stop, c3) \<Rightarrow> if stop then Some c3 else checkpoint_loop run c3)))"

definition checkpoint ::
  "('m \<Rightarrow> ('m, 'p) loop_core \<Rightarrow> outcome \<times> ('m, 'p) loop_core) \<Rightarrow> ('m, 'p) loop_core \<Rightarrow> ('m, 'p) loop_core option" where
  "checkpoint run c = checkpoint_loop run (begin_checkpoint c)"

definition run_timer_task ::
  "('m \<Rightarrow> ('m, 'p) loop_core \<Rightarrow> outcome \<times> ('m, 'p) loop_core) \<Rightarrow> ('p \<Rightarrow> ('m, 'p) loop_core \<Rightarrow> outcome \<times> ('m, 'p) loop_core)
     \<Rightarrow> nat \<Rightarrow> timer_id \<Rightarrow> ('m, 'p) loop_core \<Rightarrow> (bool \<times> ('m, 'p) loop_core) option" where
  "run_timer_task run call now i c =
     (case begin_timer_task i c of
        (None, c1) \<Rightarrow> Some (False, c1)
      | (Some f, c1) \<Rightarrow>
          (case call (fired_payload f) c1 of (r, c2) \<Rightarrow>
             (case note_error r c2 of (stop, c3) \<Rightarrow>
                if stop then Some (True, c3)
                else map_option (\<lambda>c4. (True, finish_timer_task i now c4)) (checkpoint run c3))))"

definition next_task :: "nat \<Rightarrow> ('m, 'p) loop_core \<Rightarrow> task option \<times> ('m, 'p) loop_core" where
  "next_task now c = pop_task (promote_due now c)"

end
