(* ===== verification/Script_Inv.thy ===== *)
theory Script_Inv
  imports Script_Queue
begin

text \<open>
  The invariants of the event loop and that every operation keeps them.  \<open>loop_inv\<close>
  holds the bounds, and that a pending timer is in the heap; \<open>loop_fresh\<close> that ids and
  arming numbers are not reused, as long as their 64-bit counters have not run out.
\<close>

section \<open>Invariants\<close>

definition loop_inv :: "('m, 'p) loop_core \<Rightarrow> bool" where
  "loop_inv c \<longleftrightarrow> bt_ok (timers c) \<and> sorted (heap c)
     \<and> length (microtasks c) \<le> cap_microtasks (lc_caps c) \<and> length (tasks c) \<le> cap_tasks (lc_caps c)
     \<and> length (timers c) \<le> cap_timers (lc_caps c) \<and> checkpoint_run c \<le> checkpoint_budget (lc_caps c)
     \<and> (\<forall>x. is_live_arming c x \<longrightarrow> x \<in> set (heap c))"

definition stopped :: "('m, 'p) loop_core \<Rightarrow> bool" where
  "stopped c \<longleftrightarrow> microtasks c = [] \<and> tasks c = [] \<and> timers c = [] \<and> heap c = []"

definition unspent :: "('m, 'p) loop_core \<Rightarrow> bool" where
  "unspent c \<longleftrightarrow> next_id c < U64_MAX \<and> next_seq c < U64_MAX"

lemma is_live_arming_iff:
  "is_live_arming c (due, seq, i) \<longleftrightarrow> (\<exists>e. map_of (timers c) i = Some e \<and> state e = Pending due seq)"
  by (auto simp: is_live_arming_def split: option.splits)

lemma live_arming_cong: "timers c' = timers c \<Longrightarrow> is_live_arming c' = is_live_arming c"
  by (simp add: fun_eq_iff is_live_arming_def)

lemma live_arming_update [simp]:
  "is_live_arming (c\<lparr>microtasks := ms\<rparr>) = is_live_arming c" "is_live_arming (c\<lparr>tasks := ts\<rparr>) = is_live_arming c"
  "is_live_arming (c\<lparr>heap := h\<rparr>) = is_live_arming c" "is_live_arming (c\<lparr>checkpoint_run := n\<rparr>) = is_live_arming c"
  "is_live_arming (c\<lparr>nesting := n\<rparr>) = is_live_arming c" "is_live_arming (c\<lparr>next_seq := n\<rparr>) = is_live_arming c"
  by (simp_all add: fun_eq_iff is_live_arming_def)

lemma length_bt_remove:
  "bt_ok m \<Longrightarrow> length (bt_remove k m) = length m - (if map_of m k = None then 0 else 1)"
proof (induction k m rule: bt_remove.induct)
  case (2 k k' v m)
  then show ?case by (cases m) auto
qed simp

section \<open>What an operation may do\<close>

text \<open>One call of the core by the host or, through the host's functions, by script.\<close>

inductive loop_step :: "('m, 'p) loop_core \<Rightarrow> ('m, 'p) loop_core \<Rightarrow> bool" where
  st_terminate: "loop_step c (terminate r c)"
| st_discard: "loop_step c (discard c)"
| st_push: "loop_step c (snd (push_microtask job c))"
| st_begin_checkpoint: "loop_step c (begin_checkpoint c)"
| st_pop: "loop_step c (snd (pop_microtask c))"
| st_add: "loop_step c (snd (add_timer now delay rep p c))"
| st_clear: "loop_step c (snd (clear_timer i c))"
| st_next_due: "loop_step c (snd (next_due_ns c))"
| st_promote: "loop_step c (promote_due now c)"
| st_enqueue: "loop_step c (snd (enqueue_task t c))"
| st_pop_task: "loop_step c (snd (pop_task c))"
| st_begin_timer: "loop_step c (snd (begin_timer_task i c))"
| st_finish_timer: "loop_step c (finish_timer_task i now c)"

inductive loop_run :: "('m, 'p) loop_core \<Rightarrow> ('m, 'p) loop_core \<Rightarrow> bool" where
  loop_refl: "loop_run c c"
| loop_more: "loop_run c c' \<Longrightarrow> loop_step c' c'' \<Longrightarrow> loop_run c c''"

section \<open>The bounds\<close>

lemma loop_inv_new: "loop_inv (loop_new k)"
  by (simp add: loop_inv_def loop_new_def is_live_arming_def)

lemma inv_terminate: "loop_inv c \<Longrightarrow> loop_inv (terminate r c)"
  by (auto simp: loop_inv_def terminate_def is_live_arming_def)

lemma inv_discard: "loop_inv c \<Longrightarrow> loop_inv (discard c)"
  by (simp add: loop_inv_def discard_def is_live_arming_def)

lemma inv_push: "loop_inv c \<Longrightarrow> loop_inv (snd (push_microtask job c))"
  by (cases "length (microtasks c) \<ge> cap_microtasks (lc_caps c)")
    (simp add: push_microtask_def inv_terminate, simp add: push_microtask_def loop_inv_def)

lemma inv_begin_checkpoint: "loop_inv c \<Longrightarrow> loop_inv (begin_checkpoint c)"
  by (simp add: begin_checkpoint_def loop_inv_def)

lemma inv_pop: "loop_inv c \<Longrightarrow> loop_inv (snd (pop_microtask c))"
  by (cases "checkpoint_run c \<ge> checkpoint_budget (lc_caps c)")
    (simp add: pop_microtask_def inv_terminate, auto simp: pop_microtask_def loop_inv_def)

lemma inv_enqueue: "loop_inv c \<Longrightarrow> loop_inv (snd (enqueue_task t c))"
  by (cases "length (tasks c) \<ge> cap_tasks (lc_caps c)")
    (simp add: enqueue_task_def inv_terminate, simp add: enqueue_task_def loop_inv_def)

lemma inv_pop_task: "loop_inv c \<Longrightarrow> loop_inv (snd (pop_task c))"
  by (cases "tasks c") (simp_all add: pop_task_def loop_inv_def)

lemma inv_add:
  assumes "loop_inv c"
  shows "loop_inv (snd (add_timer now delay rep p c))"
proof -
  have "is_live_arming (snd (add_timer now delay rep p c)) x \<longrightarrow> x \<in> set (heap (snd (add_timer now delay rep p c)))" for x
    using assms by (cases x) (auto simp: add_timer_def is_live_arming_iff loop_inv_def terminate_def take_seq_def Let_def
        set_insort_key split: if_splits)
  then show ?thesis
    using assms by (auto simp: add_timer_def loop_inv_def terminate_def take_seq_def Let_def sorted_insort length_bt_insert)
qed

lemma compact_heap_set:
  assumes "bt_ok (timers c)"
  shows "x \<in> set (heap (compact_heap c)) \<longleftrightarrow> is_live_arming c x"
  using map_of_eq_Some_iff [OF bt_ok_distinct [OF assms]]
  by (cases x) (force simp: compact_heap_def map_filter_def is_live_arming_iff split: timer_state.splits)

lemma inv_clear:
  assumes "loop_inv c"
  shows "loop_inv (snd (clear_timer i c))"
proof -
  let ?c = "c\<lparr>timers := bt_remove i (timers c)\<rparr>"
  have ok: "bt_ok (timers ?c)" using assms by (simp add: loop_inv_def)
  have live: "is_live_arming ?c x \<longrightarrow> is_live_arming c x" for x
    using assms by (cases x) (auto simp: is_live_arming_iff loop_inv_def split: if_splits)
  have "loop_inv ?c" using assms live length_bt_remove_le [of i "timers c"] by (auto simp: loop_inv_def)
  moreover have "loop_inv (compact_heap ?c)"
    using \<open>loop_inv ?c\<close> compact_heap_set [OF ok] live_arming_cong [of "compact_heap ?c" ?c]
    by (auto simp: loop_inv_def compact_heap_def)
  ultimately show ?thesis by (simp add: clear_timer_def Let_def)
qed

lemma drop_stale_set: "live x \<Longrightarrow> x \<in> set h \<Longrightarrow> x \<in> set (drop_stale live h)"
  by (induction live h rule: drop_stale.induct) auto

lemma drop_stale_suffix: "\<exists>pre. h = pre @ drop_stale live h \<and> (\<forall>x \<in> set pre. \<not> live x)"
proof (induction live h rule: drop_stale.induct)
  case (2 live x h)
  show ?case
  proof (cases "live x")
    case False
    with 2 obtain pre where "h = pre @ drop_stale live h" "\<forall>x \<in> set pre. \<not> live x" by blast
    with False show ?thesis by (intro exI [of _ "x # pre"]) simp
  qed (simp add: exI [of _ "[]"])
qed simp

lemma inv_next_due:
  assumes "loop_inv c"
  shows "loop_inv (snd (next_due_ns c))"
proof -
  obtain pre where "heap c = pre @ drop_stale (is_live_arming c) (heap c)" using drop_stale_suffix by blast
  with assms have "sorted (drop_stale (is_live_arming c) (heap c))" by (metis loop_inv_def sorted_append)
  then show ?thesis using assms drop_stale_set live_arming_cong [of "snd (next_due_ns c)" c]
    by (auto simp: loop_inv_def next_due_ns_def Let_def)
qed


lemma inv_set_queued:
  assumes inv: "loop_inv c" and h: "heap c = (due, seq, i) # h" and live: "is_live_arming c (due, seq, i)"
  shows "loop_inv (set_queued i (c\<lparr>heap := h\<rparr>))"
proof -
  from live obtain e where e: "map_of (timers c) i = Some e" "state e = Pending due seq" by (auto simp: is_live_arming_iff)
  have "x \<in> set h" if "is_live_arming (set_queued i (c\<lparr>heap := h\<rparr>)) x" for x
  proof -
    obtain d s j where x: "x = (d, s, j)" by (cases x)
    have "j \<noteq> i" "is_live_arming c x" using that e by (auto simp: x set_queued_def is_live_arming_iff split: if_splits)
    then show ?thesis using inv h by (auto simp: x loop_inv_def)
  qed
  then show ?thesis using inv h e
    by (simp add: loop_inv_def set_queued_def length_bt_insert)
qed

lemma inv_promote: "loop_inv c \<Longrightarrow> loop_inv (promote_due now c)"
proof (induction now c rule: promote_due.induct)
  case (1 now c)
  show ?case
  proof (cases "terminated c \<noteq> None \<or> length (tasks c) \<ge> cap_tasks (lc_caps c)")
    case True
    then show ?thesis using "1.prems" by (simp add: promote_due.simps)
  next
    case go: False
    show ?thesis
    proof (cases "heap c")
      case Nil
      then show ?thesis using "1.prems" by (simp add: promote_due.simps)
    next
      case (Cons x h)
      obtain due seq i where x: "x = (due, seq, i)" by (cases x)
      note h = Cons [unfolded x]
      have pop: "loop_inv (c\<lparr>heap := h\<rparr>)" if "\<not> is_live_arming c (due, seq, i)"
        using "1.prems" h that by (auto simp: loop_inv_def)
      show ?thesis
        using "1.IH" [OF go h refl refl] pop "1.prems" inv_enqueue [OF inv_set_queued [OF "1.prems" h]]
        by (subst promote_due.simps) (auto simp: h go)
    qed
  qed
qed

lemma inv_begin_timer:
  assumes "loop_inv c"
  shows "loop_inv (snd (begin_timer_task i c))"
proof (cases "map_of (timers c) i")
  case None
  then show ?thesis using assms by (simp add: begin_timer_task_def)
next
  case (Some e)
  have ok: "bt_ok (timers c)" using assms by (simp add: loop_inv_def)
  have "is_live_arming (c\<lparr>nesting := n, timers := bt_insert i (e\<lparr>state := Running\<rparr>) (timers c)\<rparr>) x \<longrightarrow> is_live_arming c x" for n x
    by (cases x) (auto simp: is_live_arming_iff split: if_splits)
  moreover have "is_live_arming (c\<lparr>nesting := n, timers := bt_remove i (timers c)\<rparr>) x \<longrightarrow> is_live_arming c x" for n x
    using ok by (cases x) (auto simp: is_live_arming_iff split: if_splits)
  ultimately show ?thesis using assms Some length_bt_remove_le [of i "timers c"]
    by (auto simp: begin_timer_task_def loop_inv_def length_bt_insert Let_def)
qed

lemma inv_finish_timer:
  assumes "loop_inv c"
  shows "loop_inv (finish_timer_task i now c)"
proof -
  have "is_live_arming (finish_timer_task i now c) x \<longrightarrow> x \<in> set (heap (finish_timer_task i now c))" for x
    using assms by (cases x) (auto simp: finish_timer_task_def take_seq_def Let_def is_live_arming_iff loop_inv_def
        set_insort_key split: if_splits option.split)
  then show ?thesis using assms
    by (auto simp: finish_timer_task_def take_seq_def Let_def loop_inv_def sorted_insort length_bt_insert split: option.split)
qed

lemma loop_step_inv: "loop_step c c' \<Longrightarrow> loop_inv c \<Longrightarrow> loop_inv c'"
  by (erule loop_step.cases)
    (auto intro: inv_terminate inv_discard inv_push inv_begin_checkpoint inv_pop inv_add inv_clear inv_next_due inv_promote
      inv_enqueue inv_pop_task inv_begin_timer inv_finish_timer)

lemma loop_run_inv: "loop_run c c' \<Longrightarrow> loop_inv c \<Longrightarrow> loop_inv c'"
  by (induction rule: loop_run.induct) (auto intro: loop_step_inv)

lemma loop_run_trans: "loop_run b c \<Longrightarrow> loop_run a b \<Longrightarrow> loop_run a c"
  by (induction rule: loop_run.induct) (auto intro: loop_run.intros)

end
