(* ===== verification/Script_Fresh.thy ===== *)
theory Script_Fresh
  imports Script_Inv
begin

text \<open>
  Freshness of timer ids and arming numbers, and what follows from it: a timer that is
  gone stays gone, and stale heap entries never pile up.
\<close>

section \<open>Counters only grow\<close>

lemma sat_add_mono: "x \<le> U64_MAX \<Longrightarrow> x \<le> sat_add x y"
  by (simp add: sat_add_def)

lemma sat_add_unsat: "sat_add x 1 < U64_MAX \<Longrightarrow> sat_add x 1 = Suc x"
  by (auto simp: sat_add_def)

definition counters_le :: "('m, 'p) loop_core \<Rightarrow> ('m, 'p) loop_core \<Rightarrow> bool" where
  "counters_le c c' \<longleftrightarrow> next_id c \<le> next_id c' \<and> next_seq c \<le> next_seq c'"

definition counters_ok :: "('m, 'p) loop_core \<Rightarrow> bool" where
  "counters_ok c \<longleftrightarrow> next_id c \<le> U64_MAX \<and> next_seq c \<le> U64_MAX"

lemma promote_fields:
  "next_id (promote_due now c) = next_id c" "next_seq (promote_due now c) = next_seq c"
  "lc_caps (promote_due now c) = lc_caps c" "terminated (promote_due now c) = terminated c"
  "checkpoint_run (promote_due now c) = checkpoint_run c" "microtasks (promote_due now c) = microtasks c"
proof (induction now c rule: promote_due.induct)
  case (1 now c)
  note step = promote_due.simps [of now c]
  show "next_id (promote_due now c) = next_id c" "next_seq (promote_due now c) = next_seq c"
    "lc_caps (promote_due now c) = lc_caps c" "terminated (promote_due now c) = terminated c"
    "checkpoint_run (promote_due now c) = checkpoint_run c" "microtasks (promote_due now c) = microtasks c"
    unfolding step using 1
    by (auto split: list.split option.split simp: enqueue_task_def set_queued_def)
qed

text \<open>One timer promoted: taken off the heap, marked queued and put at the end of the tasks.\<close>

definition promote_one :: "timer_id \<Rightarrow> arming list \<Rightarrow> ('m, 'p) loop_core \<Rightarrow> ('m, 'p) loop_core" where
  "promote_one i h c = (set_queued i (c\<lparr>heap := h\<rparr>))\<lparr>tasks := tasks c @ [Timer i]\<rparr>"

lemma enqueue_promoted:
  "terminated c = None \<Longrightarrow> length (tasks c) < cap_tasks (lc_caps c) \<Longrightarrow>
     snd (enqueue_task (Timer i) (set_queued i (c\<lparr>heap := h\<rparr>))) = promote_one i h c"
  by (auto simp: enqueue_task_def promote_one_def set_queued_def split: option.split)

lemma promote_step:
  assumes "terminated c = None" and "length (tasks c) < cap_tasks (lc_caps c)" and "heap c = (due, seq, i) # h"
  shows "promote_due now c =
     (if \<not> is_live_arming c (due, seq, i) then promote_due now (c\<lparr>heap := h\<rparr>)
      else if due > now then c else promote_due now (promote_one i h c))"
  using assms by (subst promote_due.simps) (simp add: enqueue_promoted)

lemma promote_rule:
  assumes "P c"
    and "\<And>c x h. P c \<Longrightarrow> heap c = x # h \<Longrightarrow> \<not> is_live_arming c x \<Longrightarrow> P (c\<lparr>heap := h\<rparr>)"
    and "\<And>c due seq i h. P c \<Longrightarrow> heap c = (due, seq, i) # h \<Longrightarrow> is_live_arming c (due, seq, i) \<Longrightarrow> due \<le> now
           \<Longrightarrow> terminated c = None \<Longrightarrow> length (tasks c) < cap_tasks (lc_caps c) \<Longrightarrow> P (promote_one i h c)"
  shows "P (promote_due now c)"
proof -
  have "\<And>c. length (heap c) = n \<Longrightarrow> P c \<Longrightarrow> P (promote_due now c)" for n
  proof (induction n)
    case 0
    then show ?case by (simp add: promote_due.simps)
  next
    case (Suc n)
    then obtain due seq i h where h: "heap c = (due, seq, i) # h" "length h = n"
      by (cases "heap c") (auto intro: prod_cases3)
    show ?case
    proof (cases "terminated c = None \<and> length (tasks c) < cap_tasks (lc_caps c)")
      case True
      have "length (heap (promote_one i h c)) = n" by (simp add: promote_one_def h)
      then show ?thesis
        using True Suc h promote_step [of c due seq i h now] assms(2) [of c "(due, seq, i)" h] assms(3) [of c due seq i h]
        by auto
    qed (use Suc.prems in \<open>auto simp: promote_due.simps\<close>)
  qed
  with assms(1) show ?thesis by blast
qed

section \<open>Freshness\<close>

lemma loop_inv_heap: "loop_inv c \<Longrightarrow> is_live_arming c x \<Longrightarrow> x \<in> set (heap c)"
  by (cases x) (simp add: loop_inv_def)

definition loop_fresh :: "('m, 'p) loop_core \<Rightarrow> bool" where
  "loop_fresh c \<longleftrightarrow> (\<forall>i. map_of (timers c) i \<noteq> None \<longrightarrow> i < next_id c)
     \<and> (\<forall>due seq i. (due, seq, i) \<in> set (heap c) \<longrightarrow> seq < next_seq c \<and> i < next_id c) \<and> distinct (heap c)"

lemma loop_freshD:
  assumes "loop_fresh c"
  shows "map_of (timers c) i \<noteq> None \<Longrightarrow> i < next_id c" and "(due, seq, i) \<in> set (heap c) \<Longrightarrow> seq < next_seq c"
    and "(due, seq, i) \<in> set (heap c) \<Longrightarrow> i < next_id c" and "distinct (heap c)"
  using assms unfolding loop_fresh_def by blast+

lemma loop_freshI:
  assumes "\<And>i. map_of (timers c) i \<noteq> None \<Longrightarrow> i < next_id c"
    and "\<And>due seq i. (due, seq, i) \<in> set (heap c) \<Longrightarrow> seq < next_seq c \<and> i < next_id c" and "distinct (heap c)"
  shows "loop_fresh c"
  using assms unfolding loop_fresh_def by blast

definition stale :: "('m, 'p) loop_core \<Rightarrow> nat" where
  "stale c = length (filter (\<lambda>x. \<not> is_live_arming c x) (heap c))"

definition loop_tight :: "('m, 'p) loop_core \<Rightarrow> bool" where
  "loop_tight c \<longleftrightarrow> loop_inv c \<and> counters_ok c
     \<and> (unspent c \<longrightarrow> loop_fresh c \<and> stale c \<le> 2 * cap_timers (lc_caps c) + 1024)"

lemma tight_new: "loop_tight (loop_new k)"
  unfolding loop_tight_def loop_fresh_def stale_def counters_ok_def
  by (simp add: loop_inv_new) (simp add: loop_new_def U64_MAX_def)

lemma tight_same:
  assumes "loop_tight c" and "loop_inv c'" and "timers c' = timers c" "heap c' = heap c" "next_id c' = next_id c"
    "next_seq c' = next_seq c" "lc_caps c' = lc_caps c"
  shows "loop_tight c'"
  using assms live_arming_cong [of c' c]
  by (simp add: loop_tight_def counters_ok_def unspent_def loop_fresh_def stale_def)

lemma tight_empty:
  assumes "loop_tight c" and "loop_inv c'" and "timers c' = []" "heap c' = []" "next_id c' = next_id c" "next_seq c' = next_seq c"
  shows "loop_tight c'"
  using assms by (simp add: loop_tight_def counters_ok_def unspent_def loop_fresh_def stale_def)

lemma tight_terminate: "loop_tight c \<Longrightarrow> loop_tight (terminate r c)"
proof (cases "terminated c = None")
  case True
  assume t: "loop_tight c"
  then have "loop_inv (terminate r c)" by (simp add: inv_terminate loop_tight_def)
  from tight_empty [OF t this] True show ?thesis by (simp add: terminate_def)
qed (simp add: terminate_def)

lemma stale_drop_head:
  assumes "heap c = x # h" and "\<not> is_live_arming c x"
  shows "stale (c\<lparr>heap := h\<rparr>) \<le> stale c"
  using assms by (simp add: stale_def)

lemma tight_pop_stale:
  assumes t: "loop_tight c" and h: "heap c = x # h" and s: "\<not> is_live_arming c x"
  shows "loop_tight (c\<lparr>heap := h\<rparr>)"
  using t stale_drop_head [OF h s] h s
  by (auto simp: loop_tight_def loop_inv_def counters_ok_def unspent_def loop_fresh_def)

text \<open>Liveness of the other entries is not touched when one timer changes its state.\<close>

lemma stale_mono:
  assumes "\<And>x. x \<in> set h \<Longrightarrow> is_live_arming c x \<Longrightarrow> is_live_arming c' x"
  shows "length (filter (\<lambda>x. \<not> is_live_arming c' x) h) \<le> length (filter (\<lambda>x. \<not> is_live_arming c x) h)"
  using assms by (induction h) auto

lemma live_arming_unique:
  "is_live_arming c (d, s, i) \<Longrightarrow> is_live_arming c (d', s', i) \<Longrightarrow> d = d' \<and> s = s'"
  by (auto simp: is_live_arming_iff)

lemma inv_promote_one:
  assumes "loop_inv c" "heap c = (due, seq, i) # h" "is_live_arming c (due, seq, i)" "terminated c = None"
    "length (tasks c) < cap_tasks (lc_caps c)"
  shows "loop_inv (promote_one i h c)"
  using inv_enqueue [OF inv_set_queued [OF assms(1-3)], of "Timer i"] enqueue_promoted [of c i h] assms(4,5) by simp

lemma promote_one_fields:
  "heap (promote_one i h c) = h" "next_id (promote_one i h c) = next_id c" "next_seq (promote_one i h c) = next_seq c"
  "lc_caps (promote_one i h c) = lc_caps c" "terminated (promote_one i h c) = terminated c"
  "tasks (promote_one i h c) = tasks c @ [Timer i]"
  "map_of (timers (promote_one i h c)) =
     (map_of (timers c))(i := map_option (\<lambda>e. e\<lparr>state := Queued\<rparr>) (map_of (timers c) i))"
  by (auto simp: promote_one_def set_queued_def fun_eq_iff split: option.split)

lemma tight_promote_one:
  assumes t: "loop_tight c" and h: "heap c = (due, seq, i) # h" and l: "is_live_arming c (due, seq, i)"
    and "terminated c = None" "length (tasks c) < cap_tasks (lc_caps c)"
  shows "loop_tight (promote_one i h c)"
proof -
  have inv: "loop_inv c" using t by (simp add: loop_tight_def)
  have "stale (promote_one i h c) \<le> stale c" if "distinct (heap c)"
  proof -
    have "is_live_arming (promote_one i h c) x" if x: "x \<in> set h" "is_live_arming c x" for x
    proof -
      obtain d s j where j: "x = (d, s, j)" by (cases x)
      have "j \<noteq> i" using live_arming_unique [of c d s i due seq] x l h \<open>distinct (heap c)\<close> by (auto simp: j)
      then show ?thesis using x(2) by (simp add: j is_live_arming_iff promote_one_fields)
    qed
    from stale_mono [OF this] show ?thesis using h l by (simp add: stale_def promote_one_fields)
  qed
  then show ?thesis using t h inv_promote_one [OF inv h l assms(4,5)]
    by (auto simp: loop_tight_def counters_ok_def unspent_def loop_fresh_def promote_one_fields split: if_splits)
qed

lemma tight_promote: "loop_tight c \<Longrightarrow> loop_tight (promote_due now c)"
  by (rule promote_rule [where P = loop_tight]) (auto intro: tight_pop_stale tight_promote_one)


lemma fresh_arm:
  assumes fr: "loop_fresh c" and h: "heap c' = insort (due, next_seq c, i) (heap c)"
    and n: "next_seq c' = Suc (next_seq c)" "next_id c \<le> next_id c'" "i < next_id c'"
    and d: "\<And>j. map_of (timers c') j \<noteq> None \<Longrightarrow> j < next_id c'"
  shows "loop_fresh c'"
proof -
  have new: "(due, next_seq c, i) \<notin> set (heap c)" using loop_freshD(2) [OF fr] by blast
  have "s < next_seq c' \<and> j < next_id c'" if "(t, s, j) \<in> set (heap c')" for t s j
  proof (cases "(t, s, j) \<in> set (heap c)")
    case True
    then have "s < next_seq c" "j < next_id c" using loop_freshD(2,3) [OF fr] by blast+
    with n show ?thesis by simp
  next
    case False
    then show ?thesis using that n by (auto simp: h set_insort_key)
  qed
  moreover have "distinct (heap c')" using fr new by (simp add: h loop_fresh_def distinct_insort)
  ultimately show ?thesis using d unfolding loop_fresh_def by blast
qed

lemma stale_arm:
  assumes "heap c' = insort x (heap c)" and "is_live_arming c' x"
    and "\<And>y. y \<in> set (heap c) \<Longrightarrow> is_live_arming c y \<Longrightarrow> is_live_arming c' y"
  shows "stale c' \<le> stale c"
  using stale_mono [of "heap c" c c'] assms by (simp add: stale_def filter_insort_triv)

lemma tight_add:
  assumes t: "loop_tight c"
  shows "loop_tight (snd (add_timer now delay rep p c))"
proof (cases "terminated c = None \<and> length (timers c) < cap_timers (lc_caps c)")
  case False
  then show ?thesis using t tight_terminate [OF t] by (auto simp: add_timer_def)
next
  case True
  let ?d = "due_at now (effective_delay_ms delay (sat_add_u32 (nesting c) 1))"
  let ?x = "(?d, next_seq c, next_id c)"
  define c' where "c' = snd (add_timer now delay rep p c)"
  define e where "e = \<lparr>payload = p, repeat_ms = (if rep then Some (min delay MAX_DELAY_MS) else None),
     entry_nesting = sat_add_u32 (nesting c) 1, state = Pending ?d (next_seq c)\<rparr>"
  have f: "heap c' = insort ?x (heap c)" "lc_caps c' = lc_caps c"
    "next_id c' = sat_add (next_id c) 1" "next_seq c' = sat_add (next_seq c) 1"
    and e: "state e = Pending ?d (next_seq c)" "map_of (timers c') = (map_of (timers c))(next_id c \<mapsto> e)"
    using True by (simp_all add: c'_def e_def add_timer_def take_seq_def Let_def)
  have inv: "loop_inv c'" unfolding c'_def by (rule inv_add) (use t in \<open>simp add: loop_tight_def\<close>)
  have co: "counters_ok c'" using t by (auto simp: f counters_ok_def loop_tight_def sat_add_def)
  have "loop_fresh c' \<and> stale c' \<le> 2 * cap_timers (lc_caps c') + 1024" if u: "unspent c'"
  proof -
    have n: "next_id c' = Suc (next_id c)" "next_seq c' = Suc (next_seq c)"
      using u sat_add_unsat [of "next_id c"] sat_add_unsat [of "next_seq c"] unfolding unspent_def f(3,4) by blast+
    then have "unspent c" using u by (simp add: unspent_def)
    with t have fr: "loop_fresh c" "stale c \<le> 2 * cap_timers (lc_caps c) + 1024" by (auto simp: loop_tight_def)
    have "j < next_id c'" if "map_of (timers c') j \<noteq> None" for j
      using that loop_freshD(1) [OF fr(1), of j] n by (cases "j = next_id c") (simp_all add: e(2))
    then have "loop_fresh c'" using n by (intro fresh_arm [OF fr(1) f(1)]) simp_all
    moreover have "is_live_arming c' ?x" using e by (simp add: is_live_arming_iff)
    moreover have "is_live_arming c' x" if l: "is_live_arming c x" for x
    proof -
      obtain d s j where x: "x = (d, s, j)" by (cases x)
      have "j \<noteq> next_id c" using l loop_freshD(1) [OF fr(1), of j] by (auto simp: x is_live_arming_iff)
      with l show ?thesis by (simp add: x is_live_arming_iff e(2))
    qed
    ultimately have "loop_fresh c'" "stale c' \<le> stale c" using stale_arm [OF f(1)] by blast+
    then show ?thesis using fr(2) f(2) by simp
  qed
  with inv co show ?thesis by (simp add: loop_tight_def c'_def [symmetric])
qed

lemma live_filter_length:
  assumes "bt_ok (timers c)" and "distinct h"
  shows "length (filter (is_live_arming c) h) \<le> length (timers c)"
proof -
  have "inj_on (\<lambda>x. snd (snd x)) (set (filter (is_live_arming c) h))"
    by (rule inj_onI) (auto dest: live_arming_unique)
  moreover have "(\<lambda>x. snd (snd x)) ` set (filter (is_live_arming c) h) \<subseteq> fst ` set (timers c)"
    by (force simp: is_live_arming_iff dest: map_of_SomeD)
  ultimately have "card (set (filter (is_live_arming c) h)) \<le> card (fst ` set (timers c))"
    by (meson card_inj_on_le finite_imageI finite_set)
  moreover have "card (fst ` set (timers c)) = length (timers c)"
    using bt_ok_distinct [OF assms(1)] distinct_card [of "map fst (timers c)"] by simp
  ultimately show ?thesis using assms(2) by (simp add: distinct_card [symmetric] del: set_filter)
qed

lemma compact_heap_distinct: "bt_ok (timers c) \<Longrightarrow> distinct (heap (compact_heap c))"
proof -
  assume ok: "bt_ok (timers c)"
  let ?f = "\<lambda>(i, e). case state e of Pending due seq \<Rightarrow> Some (due, seq, i) | _ \<Rightarrow> None"
  have "distinct (map (\<lambda>x. snd (snd x)) (List.map_filter ?f m))" if "distinct (map fst m)" for m :: "(timer_id \<times> 'a entry) list"
    using that
  proof (induction m)
    case (Cons x m)
    have "snd (snd y) \<in> fst ` set m" if "y \<in> set (List.map_filter ?f m)" for y
      using that by (force simp: map_filter_def split: timer_state.splits)
    with Cons show ?case by (cases x) (auto simp: List.map_filter_simps split: timer_state.split)
  qed (simp add: List.map_filter_simps)
  from distinct_map [THEN iffD1, THEN conjunct1, OF this [OF bt_ok_distinct [OF ok]]] show ?thesis
    by (simp add: compact_heap_def)
qed

lemma tight_clear:
  assumes t: "loop_tight c"
  shows "loop_tight (snd (clear_timer i c))"
proof -
  define c1 where "c1 = c\<lparr>timers := bt_remove i (timers c)\<rparr>"
  have inv: "loop_inv c" using t by (simp add: loop_tight_def)
  have ok: "bt_ok (timers c)" "bt_ok (timers c1)" "length (timers c1) \<le> cap_timers (lc_caps c)"
    using inv length_bt_remove_le [of i "timers c"] by (auto simp: loop_inv_def c1_def)
  have m: "map_of (timers c1) = (map_of (timers c))(i := None)" using ok(1) by (simp add: c1_def)
  have f: "heap c1 = heap c" "lc_caps c1 = lc_caps c" "next_id c1 = next_id c" "next_seq c1 = next_seq c"
    by (simp_all add: c1_def)
  show ?thesis
  proof (cases "length (heap c1) > sat_add (sat_mul (length (timers c1)) 2) 1024")
    case True
    define c2 where "c2 = compact_heap c1"
    have r: "snd (clear_timer i c) = c2" using True by (simp add: clear_timer_def Let_def c1_def c2_def)
    have s: "x \<in> set (heap c2) \<longleftrightarrow> is_live_arming c1 x" for x unfolding c2_def by (rule compact_heap_set [OF ok(2)])
    have l: "is_live_arming c2 = is_live_arming c1" by (rule live_arming_cong) (simp add: c2_def compact_heap_def)
    have f2: "lc_caps c2 = lc_caps c" "next_id c2 = next_id c" "next_seq c2 = next_seq c" "timers c2 = timers c1"
      by (simp_all add: c2_def compact_heap_def c1_def)
    have "stale c2 = 0" unfolding stale_def l by (simp add: s)
    moreover have "loop_fresh c2" if "loop_fresh c"
    proof -
      have "x \<in> set (heap c)" if "x \<in> set (heap c2)" for x
      proof -
        have "is_live_arming c1 x" using that s by blast
        then have "is_live_arming c x" by (cases x) (auto simp: is_live_arming_iff m split: if_splits)
        then show ?thesis by (rule loop_inv_heap [OF inv])
      qed
      note old = this
      show ?thesis
      proof (rule loop_freshI)
        show "j < next_id c2" if "map_of (timers c2) j \<noteq> None" for j
          using that loop_freshD(1) [OF \<open>loop_fresh c\<close>, of j] by (simp add: f2 m split: if_splits)
        show "seq < next_seq c2 \<and> j < next_id c2" if "(due, seq, j) \<in> set (heap c2)" for due seq j
          using loop_freshD(2,3) [OF \<open>loop_fresh c\<close> old [OF that]] by (simp add: f2)
        show "distinct (heap c2)" unfolding c2_def by (rule compact_heap_distinct [OF ok(2)])
      qed
    qed
    ultimately show ?thesis using t inv_clear [OF inv, of i]
      by (auto simp: loop_tight_def r counters_ok_def unspent_def f2)
  next
    case False
    have r: "snd (clear_timer i c) = c1" using False by (simp add: clear_timer_def Let_def c1_def)
    have "length (heap c1) \<le> 2 * length (timers c1) + 1024" using False
      by (auto simp: sat_add_def sat_mul_def min_def split: if_splits)
    then have "stale c1 \<le> 2 * cap_timers (lc_caps c1) + 1024"
      using ok(3) length_filter_le [of "\<lambda>x. \<not> is_live_arming c1 x" "heap c1"] unfolding stale_def f(2) by linarith
    moreover have "loop_fresh c1" if "loop_fresh c" using that by (auto simp: loop_fresh_def f m)
    ultimately show ?thesis using t inv_clear [OF inv, of i]
      by (auto simp: loop_tight_def r counters_ok_def unspent_def f)
  qed
qed

lemma tight_next_due:
  assumes t: "loop_tight c"
  shows "loop_tight (snd (next_due_ns c))"
proof -
  obtain pre where pre: "heap c = pre @ drop_stale (is_live_arming c) (heap c)" using drop_stale_suffix by blast
  have sub: "set (drop_stale (is_live_arming c) (heap c)) \<subseteq> set (heap c)" by (subst (2) pre) simp
  have "length (filter P (drop_stale (is_live_arming c) (heap c))) \<le> length (filter P (heap c))" for P
    by (subst (2) pre) simp
  moreover have "distinct (drop_stale (is_live_arming c) (heap c))" if "distinct (heap c)"
    using that pre by (metis distinct_append)
  ultimately show ?thesis using t sub inv_next_due [of c] live_arming_cong [of "snd (next_due_ns c)" c]
    by (fastforce simp: loop_tight_def counters_ok_def unspent_def loop_fresh_def stale_def next_due_ns_def Let_def
        intro: order_trans)
qed

lemma tight_begin_timer:
  assumes t: "loop_tight c"
  shows "loop_tight (snd (begin_timer_task i c))"
proof (cases "terminated c = None \<and> (\<exists>e. map_of (timers c) i = Some e \<and> state e = Queued)")
  case False
  then have "snd (begin_timer_task i c) = c" by (auto simp: begin_timer_task_def split: option.split)
  with t show ?thesis by simp
next
  case True
  then obtain e where e: "terminated c = None" "map_of (timers c) i = Some e" "state e = Queued" by blast
  define c' where "c' = snd (begin_timer_task i c)"
  have ok: "loop_inv c" "bt_ok (timers c)" using t by (auto simp: loop_tight_def loop_inv_def)
  have inv: "loop_inv c'" unfolding c'_def by (rule inv_begin_timer [OF ok(1)])
  have f: "heap c' = heap c" "lc_caps c' = lc_caps c" "next_id c' = next_id c" "next_seq c' = next_seq c"
    using e by (auto simp: c'_def begin_timer_task_def Let_def)
  have m: "map_of (timers c') = (map_of (timers c))(i := if repeat_ms e = None then None else Some (e\<lparr>state := Running\<rparr>))"
    using e ok by (auto simp: c'_def begin_timer_task_def Let_def)
  have "is_live_arming c' x \<longleftrightarrow> is_live_arming c x" for x
    using e(2,3) by (cases x) (auto simp: is_live_arming_iff m)
  then show ?thesis using t inv e(2)
    by (auto simp: loop_tight_def counters_ok_def unspent_def loop_fresh_def stale_def f m c'_def [symmetric] split: if_splits)
qed

lemma finish_timer_cases:
  obtains (rest) "timers (finish_timer_task i now c) = timers c" "heap (finish_timer_task i now c) = heap c"
      "next_seq (finish_timer_task i now c) \<in> {next_seq c, sat_add (next_seq c) 1}"
  | (rearm) e due where "map_of (timers c) i = Some e" "state e = Running"
      "map_of (timers (finish_timer_task i now c)) =
         (map_of (timers c))(i \<mapsto> e\<lparr>entry_nesting := sat_add_u32 (entry_nesting e) 1, state := Pending due (next_seq c)\<rparr>)"
      "heap (finish_timer_task i now c) = insort (due, next_seq c, i) (heap c)"
      "next_seq (finish_timer_task i now c) = sat_add (next_seq c) 1"
proof (cases "terminated c = None")
  case True
  show thesis
  proof (cases "map_of (timers c) i")
    case (Some e)
    show thesis
    proof (cases "state e = Running \<and> repeat_ms e \<noteq> None")
      case live: True
      then obtain r where "repeat_ms e = Some r" by blast
      with True Some live show thesis by (intro rearm) (auto simp: finish_timer_task_def take_seq_def Let_def)
    next
      case False
      with True Some show thesis by (intro rest) (auto simp: finish_timer_task_def take_seq_def Let_def)
    qed
  qed (use True rest in \<open>simp add: finish_timer_task_def take_seq_def Let_def\<close>)
qed (use rest in \<open>simp add: finish_timer_task_def Let_def\<close>)

lemma finish_timer_fields:
  "lc_caps (finish_timer_task i now c) = lc_caps c" "next_id (finish_timer_task i now c) = next_id c"
  "terminated (finish_timer_task i now c) = terminated c" "microtasks (finish_timer_task i now c) = microtasks c"
  "tasks (finish_timer_task i now c) = tasks c" "checkpoint_run (finish_timer_task i now c) = checkpoint_run c"
  by (simp_all add: finish_timer_task_def take_seq_def Let_def split: option.split)

lemma tight_finish_timer:
  assumes t: "loop_tight c"
  shows "loop_tight (finish_timer_task i now c)"
proof -
  define c' where "c' = finish_timer_task i now c"
  have inv: "loop_inv c'" unfolding c'_def by (rule inv_finish_timer) (use t in \<open>simp add: loop_tight_def\<close>)
  have f: "lc_caps c' = lc_caps c" "next_id c' = next_id c" by (simp_all add: c'_def finish_timer_fields)
  have le: "next_seq c \<le> U64_MAX" "next_id c \<le> U64_MAX" using t by (auto simp: loop_tight_def counters_ok_def)
  have "loop_tight c'"
  proof (cases rule: finish_timer_cases [of i now c, folded c'_def, case_names rest rearm])
    case rest
    then have n: "next_seq c \<le> next_seq c'" "next_seq c' \<le> U64_MAX" using le by (auto simp: sat_add_def)
    have "loop_fresh c' \<and> stale c' \<le> 2 * cap_timers (lc_caps c') + 1024" if "unspent c'"
    proof -
      have "unspent c" using that n f by (simp add: unspent_def)
      with t have "loop_fresh c" "stale c \<le> 2 * cap_timers (lc_caps c) + 1024" by (auto simp: loop_tight_def)
      note fr = this
      have "loop_fresh c'"
        using loop_freshD [OF fr(1)] rest(1,2) n(1) f(2) by (intro loop_freshI) (fastforce intro: less_le_trans)+
      then show ?thesis using fr(2) rest(2) f(1) live_arming_cong [OF rest(1)] by (simp add: stale_def)
    qed
    with inv n f le show ?thesis by (simp add: loop_tight_def counters_ok_def)
  next
    case (rearm e due)
    have co: "counters_ok c'" using le f by (auto simp: counters_ok_def rearm(5) sat_add_def)
    have "loop_fresh c' \<and> stale c' \<le> 2 * cap_timers (lc_caps c') + 1024" if u: "unspent c'"
    proof -
      have n: "next_seq c' = Suc (next_seq c)" using u sat_add_unsat [of "next_seq c"] unfolding unspent_def rearm(5) by blast
      then have "unspent c" using u f by (simp add: unspent_def)
      with t have fr: "loop_fresh c" "stale c \<le> 2 * cap_timers (lc_caps c) + 1024" by (auto simp: loop_tight_def)
      have "j < next_id c'" if "map_of (timers c') j \<noteq> None" for j
        using that loop_freshD(1) [OF fr(1), of j] rearm(1) f(2) by (cases "j = i") (simp_all add: rearm(3))
      then have "loop_fresh c'" using n f(2) rearm(3) by (intro fresh_arm [OF fr(1) rearm(4)]) simp_all
      moreover have "is_live_arming c' (due, next_seq c, i)" using rearm(3) by (simp add: is_live_arming_iff)
      moreover have "is_live_arming c' x" if "is_live_arming c x" for x
        using that rearm(1-3) by (cases x) (auto simp: is_live_arming_iff)
      ultimately have "loop_fresh c'" "stale c' \<le> stale c" using stale_arm [OF rearm(4)] by blast+
      then show ?thesis using fr(2) f(1) by simp
    qed
    with inv co show ?thesis by (simp add: loop_tight_def)
  qed
  then show ?thesis by (simp add: c'_def)
qed

lemma loop_step_tight:
  assumes "loop_step c c'" and t: "loop_tight c"
  shows "loop_tight c'"
proof -
  have inv: "loop_inv c'" using loop_step_inv [OF assms(1)] t by (simp add: loop_tight_def)
  note same = tight_same [OF t inv]
  from assms(1) show ?thesis
  proof cases
    case st_discard
    with tight_empty [OF t inv] show ?thesis by (simp add: discard_def)
  next
    case (st_push job)
    then show ?thesis using same tight_terminate [OF t] by (auto simp: push_microtask_def)
  next
    case st_pop
    then show ?thesis using same tight_terminate [OF t] by (auto simp: pop_microtask_def)
  next
    case (st_enqueue tk)
    then show ?thesis using same tight_terminate [OF t] by (auto simp: enqueue_task_def)
  qed (use t same tight_terminate tight_add tight_clear tight_next_due tight_promote tight_begin_timer tight_finish_timer
      in \<open>auto simp: begin_checkpoint_def pop_task_def split: list.splits\<close>)
qed

lemma loop_run_tight: "loop_run c c' \<Longrightarrow> loop_tight c \<Longrightarrow> loop_tight c'"
  by (induction rule: loop_run.induct) (auto intro: loop_step_tight)

end
