(* ===== verification/Script_Host.thy ===== *)
theory Script_Host
  imports Script_Fresh
begin

text \<open>
  Consequences of the invariants for the host: what promotion queues, that termination is
  final, that timers which are gone stay gone, and that a checkpoint returns.
\<close>

section \<open>Promotion\<close>

definition due_now :: "nat \<Rightarrow> ('m, 'p) loop_core \<Rightarrow> arming list" where
  "due_now now c = filter (\<lambda>x. is_live_arming c x \<and> fst x \<le> now) (heap c)"

definition room :: "('m, 'p) loop_core \<Rightarrow> nat" where
  "room c = cap_tasks (lc_caps c) - length (tasks c)"

lemma due_now_promote_one:
  assumes fr: "loop_fresh c" and h: "heap c = (due, seq, i) # h" and l: "is_live_arming c (due, seq, i)"
  shows "due_now now (promote_one i h c) = filter (\<lambda>x. is_live_arming c x \<and> fst x \<le> now) h"
proof -
  have "is_live_arming (promote_one i h c) x \<longleftrightarrow> is_live_arming c x" if x: "x \<in> set h" for x
  proof -
    obtain d s j where j: "x = (d, s, j)" by (cases x)
    have "j \<noteq> i" if "is_live_arming c x"
      using live_arming_unique [of c d s i due seq] that x l loop_freshD(4) [OF fr] h by (auto simp: j)
    then show ?thesis by (auto simp: j is_live_arming_iff promote_one_fields split: if_splits)
  qed
  then show ?thesis unfolding due_now_def promote_one_fields by (intro filter_cong) auto
qed

lemma due_now_empty:
  assumes "sorted (heap c)" and "heap c = (due, seq, i) # h" and "due > now"
  shows "due_now now c = []"
proof -
  have "fst x > now" if "x \<in> set (heap c)" for x
    using assms that by (cases x) (auto simp: less_eq_prod_def)
  then show ?thesis by (auto simp: due_now_def filter_empty_conv not_le)
qed

lemma promote_due_spec:
  assumes "loop_tight c" and "unspent c" and "terminated c = None"
  shows "tasks (promote_due now c) = tasks c @ map (\<lambda>x. Timer (snd (snd x))) (take (room c) (due_now now c))
     \<and> (\<forall>x. is_live_arming (promote_due now c) x \<longleftrightarrow> is_live_arming c x \<and> x \<notin> set (take (room c) (due_now now c)))"
proof -
  have "\<And>c :: ('a, 'b) loop_core. length (heap c) = n \<Longrightarrow> loop_tight c \<Longrightarrow> unspent c \<Longrightarrow> terminated c = None \<Longrightarrow>
      tasks (promote_due now c) = tasks c @ map (\<lambda>x. Timer (snd (snd x))) (take (room c) (due_now now c))
      \<and> (\<forall>x. is_live_arming (promote_due now c) x \<longleftrightarrow> is_live_arming c x \<and> x \<notin> set (take (room c) (due_now now c)))" for n
  proof (induction n)
    case 0
    then show ?case by (simp add: promote_due.simps due_now_def)
  next
    case (Suc n)
    then obtain due seq i h where h: "heap c = (due, seq, i) # h" "length h = n"
      by (cases "heap c") (auto intro: prod_cases3)
    have inv: "loop_inv c" and fr: "loop_fresh c" using Suc.prems(2,3) by (auto simp: loop_tight_def)
    show ?case
    proof (cases "length (tasks c) < cap_tasks (lc_caps c)")
      case False
      then show ?thesis by (simp add: promote_due.simps room_def)
    next
      case r: True
      note step = promote_step [OF Suc.prems(4) r h(1), of now]
      consider "\<not> is_live_arming c (due, seq, i)" | "is_live_arming c (due, seq, i)" "due > now"
        | "is_live_arming c (due, seq, i)" "due \<le> now" by linarith
      then show ?thesis
      proof cases
        case 1
        have "due_now now (c\<lparr>heap := h\<rparr>) = due_now now c" using 1 h by (simp add: due_now_def)
        moreover have "room (c\<lparr>heap := h\<rparr>) = room c" by (simp add: room_def)
        ultimately show ?thesis
          using Suc.IH [of "c\<lparr>heap := h\<rparr>"] Suc.prems h 1 step tight_pop_stale [OF Suc.prems(2) h(1) 1]
          by (simp add: unspent_def)
      next
        case 2
        have "sorted (heap c)" using inv by (simp add: loop_inv_def)
        from due_now_empty [OF this h(1) 2(2)] 2 step show ?thesis by simp
      next
        case 3
        let ?c = "promote_one i h c"
        have d: "due_now now c = (due, seq, i) # due_now now ?c"
          using due_now_promote_one [OF fr h(1) 3(1), of now] 3 h(1) by (simp add: due_now_def)
        have rm: "room c = Suc (room ?c)" using r by (simp add: room_def promote_one_fields)
        have t: "loop_tight ?c" by (rule tight_promote_one [OF Suc.prems(2) h(1) 3(1) Suc.prems(4) r])
        have ih: "tasks (promote_due now ?c) = tasks ?c @ map (\<lambda>x. Timer (snd (snd x))) (take (room ?c) (due_now now ?c))"
          "\<And>x. is_live_arming (promote_due now ?c) x \<longleftrightarrow> is_live_arming ?c x \<and> x \<notin> set (take (room ?c) (due_now now ?c))"
          using Suc.IH [OF _ t] Suc.prems h(2) by (auto simp: promote_one_fields unspent_def)
        have live: "is_live_arming ?c x \<longleftrightarrow> is_live_arming c x \<and> x \<noteq> (due, seq, i)" for x
        proof -
          obtain e where e: "map_of (timers c) i = Some e" "state e = Pending due seq"
            using 3(1) by (auto simp: is_live_arming_iff)
          then show ?thesis by (cases x) (auto simp: is_live_arming_iff promote_one_fields)
        qed
        have "promote_due now c = promote_due now ?c" using step 3 by simp
        then show ?thesis unfolding rm d by (auto simp: ih live promote_one_fields)
      qed
    qed
  qed
  with assms show ?thesis by blast
qed

section \<open>Termination is final\<close>

definition at_rest :: "terminate_reason \<Rightarrow> ('m, 'p) loop_core \<Rightarrow> bool" where
  "at_rest r c \<longleftrightarrow> terminated c = Some r \<and> microtasks c = [] \<and> tasks c = [] \<and> timers c = [] \<and> heap c = []"

lemma at_rest_step: "loop_step c c' \<Longrightarrow> at_rest r c \<Longrightarrow> at_rest r c'"
  by (erule loop_step.cases)
    (auto simp: at_rest_def terminate_def discard_def push_microtask_def begin_checkpoint_def pop_microtask_def
      add_timer_def clear_timer_def next_due_ns_def promote_due.simps enqueue_task_def pop_task_def begin_timer_task_def
      finish_timer_task_def compact_heap_def map_filter_def)

lemma rest_step:
  assumes "loop_step c c'" and "terminated c = None"
  shows "terminated c' = None \<or> (\<exists>r. at_rest r c')"
  using assms
  by cases (auto simp: at_rest_def terminate_def discard_def push_microtask_def begin_checkpoint_def pop_microtask_def
      add_timer_def clear_timer_def next_due_ns_def promote_fields enqueue_task_def pop_task_def begin_timer_task_def
      finish_timer_fields compact_heap_def take_seq_def Let_def split: list.split option.split)

lemma run_rest: "loop_run c c' \<Longrightarrow> terminated c = None \<or> (\<exists>r. at_rest r c) \<Longrightarrow> terminated c' = None \<or> (\<exists>r. at_rest r c')"
proof (induction rule: loop_run.induct)
  case (loop_more c c' c'')
  then show ?case using rest_step [of c' c''] at_rest_step [of c' c''] by metis
qed

lemma at_rest_run: "loop_run c c' \<Longrightarrow> at_rest r c \<Longrightarrow> at_rest r c'"
  by (induction rule: loop_run.induct) (auto intro: at_rest_step)

section \<open>Timers that are gone\<close>

definition gone :: "timer_id \<Rightarrow> ('m, 'p) loop_core \<Rightarrow> bool" where
  "gone i c \<longleftrightarrow> i < next_id c \<and> map_of (timers c) i = None"

lemma gone_promote:
  assumes "gone i c"
  shows "gone i (promote_due now c)"
  by (rule promote_rule [where P = "gone i"]) (use assms in \<open>auto simp: gone_def promote_one_fields\<close>)

lemma gone_step:
  assumes "loop_step c c'" and "loop_tight c" and "gone i c"
  shows "gone i c'"
proof -
  have ok: "bt_ok (timers c)" "next_id c \<le> U64_MAX" using assms(2) by (auto simp: loop_tight_def loop_inv_def counters_ok_def)
  from assms(1) show ?thesis
  proof cases
    case (st_promote now)
    then show ?thesis using gone_promote [OF assms(3)] by simp
  next
    case (st_finish_timer j now)
    show ?thesis
      by (cases rule: finish_timer_cases [of j now c, case_names rest rearm])
        (use assms(3) st_finish_timer finish_timer_fields(2) [of j now c] in \<open>auto simp: gone_def\<close>)
  next
    case (st_add now delay rep p)
    then show ?thesis using assms(3) ok sat_add_mono [OF ok(2), of 1]
      by (auto simp: gone_def add_timer_def terminate_def take_seq_def Let_def)
  qed (use assms(3) ok in \<open>auto simp: gone_def terminate_def discard_def push_microtask_def begin_checkpoint_def pop_microtask_def
      clear_timer_def compact_heap_def next_due_ns_def enqueue_task_def pop_task_def begin_timer_task_def Let_def
      split: list.split option.split\<close>)
qed

lemma gone_run: "loop_run c c' \<Longrightarrow> loop_tight c \<Longrightarrow> gone i c \<Longrightarrow> gone i c'"
proof (induction rule: loop_run.induct)
  case (loop_more c c' c'')
  then show ?case using gone_step [of c' c''] loop_run_tight [of c c'] by blast
qed simp

section \<open>Checkpoints return\<close>

text \<open>What a job can do to the core: queue microtasks, arm and clear timers, or bring the loop to a stop.\<close>

inductive job_step :: "('m, 'p) loop_core \<Rightarrow> ('m, 'p) loop_core \<Rightarrow> bool" where
  job_push: "job_step c (snd (push_microtask job c))"
| job_add: "job_step c (snd (add_timer now delay rep p c))"
| job_clear: "job_step c (snd (clear_timer i c))"
| job_terminate: "job_step c (terminate r c)"

inductive job_run :: "('m, 'p) loop_core \<Rightarrow> ('m, 'p) loop_core \<Rightarrow> bool" where
  job_refl: "job_run c c"
| job_more: "job_run c c' \<Longrightarrow> job_step c' c'' \<Longrightarrow> job_run c c''"

lemma job_step_loop: "job_step c c' \<Longrightarrow> loop_step c c'"
  by (erule job_step.cases) (auto intro: loop_step.intros)

lemma job_run_loop: "job_run c c' \<Longrightarrow> loop_run c c'"
  by (induction rule: job_run.induct) (auto intro: loop_run.intros job_step_loop)

lemma job_step_run: "job_step c c' \<Longrightarrow> checkpoint_run c' = checkpoint_run c \<and> lc_caps c' = lc_caps c"
  by (erule job_step.cases)
    (auto simp: push_microtask_def add_timer_def clear_timer_def compact_heap_def terminate_def take_seq_def Let_def)

lemma job_run_fields: "job_run c c' \<Longrightarrow> checkpoint_run c' = checkpoint_run c \<and> lc_caps c' = lc_caps c"
  by (induction rule: job_run.induct) (auto dest: job_step_run)

lemma note_error_run: "job_run c c' \<Longrightarrow> job_run c (snd (note_error r c'))"
  by (auto simp: note_error_def split: outcome.split intro: job_more job_terminate)

lemma checkpoint_loop_returns:
  assumes run: "\<And>job c. job_run c (snd (run job c))"
  shows "checkpoint_run c + n = checkpoint_budget (lc_caps c) \<Longrightarrow>
     \<exists>c'. checkpoint_loop run c = Some c' \<and> loop_run c c' \<and> lc_caps c' = lc_caps c"
proof (induction n arbitrary: c)
  case 0
  then have "fst (pop_microtask c) = None" by (simp add: pop_microtask_def)
  then have "checkpoint_loop run c = Some (snd (pop_microtask c))"
    by (subst checkpoint_loop.simps) (simp add: case_prod_beta)
  then show ?case using loop_more [OF loop_refl st_pop [of c]] by (auto simp: pop_microtask_def terminate_def)
next
  case (Suc n)
  have popped: "loop_run c (snd (pop_microtask c))" by (rule loop_more [OF loop_refl st_pop])
  show ?case
  proof (cases "fst (pop_microtask c)")
    case None
    then have "checkpoint_loop run c = Some (snd (pop_microtask c))"
      by (subst checkpoint_loop.simps) (simp add: case_prod_beta)
    then show ?thesis using popped by (auto simp: pop_microtask_def terminate_def)
  next
    case (Some job)
    define c1 where "c1 = snd (pop_microtask c)"
    define c3 where "c3 = snd (note_error (fst (run job c1)) (snd (run job c1)))"
    have c1: "checkpoint_run c1 = Suc (checkpoint_run c)" "lc_caps c1 = lc_caps c"
      using Some by (auto simp: c1_def pop_microtask_def split: if_splits)
    have r: "job_run c1 c3" unfolding c3_def by (rule note_error_run [OF run])
    have fl: "loop_run c c3" using loop_run_trans [OF job_run_loop [OF r]] popped by (simp add: c1_def)
    have step: "checkpoint_loop run c =
        (if fst (note_error (fst (run job c1)) (snd (run job c1))) then Some c3 else checkpoint_loop run c3)"
      using Some by (subst checkpoint_loop.simps) (auto simp: case_prod_beta c1_def c3_def)
    note f = job_run_fields [OF r]
    from Suc.IH [of c3] Suc.prems c1 f obtain c' where
      "checkpoint_loop run c3 = Some c'" "loop_run c3 c'" "lc_caps c' = lc_caps c3" by auto
    then show ?thesis
      using step fl f c1 loop_run_trans [of c3 c' c]
      by (cases "fst (note_error (fst (run job c1)) (snd (run job c1)))") auto
  qed
qed

end
