(* ===== verification/Script_Clock.thy ===== *)
theory Script_Clock
  imports Pelorus_Prelude
begin

text \<open>
  The coarse clock of \<^verbatim>\<open>crates/px-script/src/clock.rs\<close>: every time a script can read
  is rounded to a 100 microsecond grid, up or down by a keyed hash of the quantum, and
  never goes back.  Instants are nanoseconds below \<open>2 ^ 64\<close>; the hash is computed on
  64-bit words, with the wrap-around of the source.  The raw clock is the manual clock of
  the same file, which moves when it is told to and when the host would wait.
\<close>

section \<open>Definitions\<close>

definition QUANTUM_NS :: nat where "QUANTUM_NS = 100000"

definition mix :: "u64 \<Rightarrow> u64" where
  "mix z =
     (let z1 = z XOR drop_bit 30 z;
          z2 = z1 * 0xBF58476D1CE4E5B9;
          z3 = z2 XOR drop_bit 27 z2;
          z4 = z3 * 0x94D049BB133111EB
      in z4 XOR drop_bit 31 z4)"

definition quantum_hash :: "u64 \<Rightarrow> nat \<Rightarrow> nat" where
  "quantum_hash seed q = unat (mix (seed + word_of_nat q * 0x9E3779B97F4A7C15))"

definition coarsen_with_hash :: "nat \<Rightarrow> nat \<Rightarrow> nat \<Rightarrow> nat" where
  "coarsen_with_hash t h previous =
     (let q = t div QUANTUM_NS;
          frac = t mod QUANTUM_NS;
          up = (h mod QUANTUM_NS < frac);
          rounded = sat_mul (sat_add q (if up then 1 else 0)) QUANTUM_NS
      in max rounded previous)"

definition rounds_up :: "u64 \<Rightarrow> nat \<Rightarrow> nat \<Rightarrow> bool" where
  "rounds_up seed q frac \<longleftrightarrow> quantum_hash seed q mod QUANTUM_NS < frac"

record manual_clock =
  clock_ns :: nat

definition clock_advance :: "nat \<Rightarrow> manual_clock \<Rightarrow> manual_clock" where
  "clock_advance delta c = c\<lparr>clock_ns := sat_add (clock_ns c) delta\<rparr>"

definition clock_set :: "nat \<Rightarrow> manual_clock \<Rightarrow> manual_clock" where
  "clock_set ns c = (if ns \<ge> clock_ns c then c\<lparr>clock_ns := ns\<rparr> else c)"

record coarse_clock =
  raw :: manual_clock
  seed :: u64
  previous :: nat

definition coarse_new :: "manual_clock \<Rightarrow> u64 \<Rightarrow> coarse_clock" where
  "coarse_new r s = \<lparr>raw = r, seed = s, previous = 0\<rparr>"

definition coarse_now_ns :: "coarse_clock \<Rightarrow> nat \<times> coarse_clock" where
  "coarse_now_ns c =
     (let t = clock_ns (raw c);
          out = coarsen_with_hash t (quantum_hash (seed c) (t div QUANTUM_NS)) (previous c)
      in (out, c\<lparr>previous := out\<rparr>))"

partial_function (option) wait_until_ns :: "nat \<Rightarrow> coarse_clock \<Rightarrow> coarse_clock option" where
  "wait_until_ns target c =
     (case coarse_now_ns c of (now, c1) \<Rightarrow>
        if now \<ge> target then Some c1
        else wait_until_ns target (c1\<lparr>raw := clock_set (sat_add (clock_ns (raw c1)) (target - now)) (raw c1)\<rparr>))"

section \<open>One read\<close>

text \<open>Below this instant no product saturates: the last quantum that fits in 64 bits.\<close>

definition LAST_NS :: nat where "LAST_NS = U64_MAX - 2 * QUANTUM_NS"

definition rounded_to :: "nat \<Rightarrow> nat \<Rightarrow> nat" where
  "rounded_to t h = (t div QUANTUM_NS + (if h mod QUANTUM_NS < t mod QUANTUM_NS then 1 else 0)) * QUANTUM_NS"

lemma coarsen_exact:
  assumes "t \<le> LAST_NS"
  shows "coarsen_with_hash t h p = max (rounded_to t h) p"
proof -
  have t: "t + 200000 \<le> U64_MAX" using assms by (simp add: LAST_NS_def QUANTUM_NS_def U64_MAX_def)
  have d: "t div QUANTUM_NS * QUANTUM_NS \<le> t" by (simp add: QUANTUM_NS_def)
  have "t div QUANTUM_NS \<le> t" by simp
  then have a: "sat_add (t div QUANTUM_NS) b = t div QUANTUM_NS + b" if "b \<le> 1" for b
    using t that by (intro sat_add_exact) linarith
  have m: "sat_mul (t div QUANTUM_NS + b) QUANTUM_NS = (t div QUANTUM_NS + b) * QUANTUM_NS" if "b \<le> 1" for b
  proof -
    have "b * QUANTUM_NS \<le> 100000" using that by (simp add: QUANTUM_NS_def)
    then have "(t div QUANTUM_NS + b) * QUANTUM_NS \<le> U64_MAX" using d t unfolding add_mult_distrib by linarith
    then show ?thesis by (simp add: sat_mul_def)
  qed
  show ?thesis by (simp add: coarsen_with_hash_def rounded_to_def Let_def a m del: add_0_right)
qed

lemma rounded_near: "t < rounded_to t h + QUANTUM_NS" "rounded_to t h < t + QUANTUM_NS" "QUANTUM_NS dvd rounded_to t h"
proof -
  have q: "0 < QUANTUM_NS" by (simp add: QUANTUM_NS_def)
  obtain b m where b: "b = t div QUANTUM_NS * QUANTUM_NS" and m: "m = t mod QUANTUM_NS" by blast
  have t: "t = b + m" "m < QUANTUM_NS" using q by (simp_all add: b m)
  have "rounded_to t h = b + QUANTUM_NS \<and> 0 < m \<or> rounded_to t h = b"
    by (auto simp: rounded_to_def b m)
  with t q show "t < rounded_to t h + QUANTUM_NS" "rounded_to t h < t + QUANTUM_NS" by auto
  show "QUANTUM_NS dvd rounded_to t h" by (simp add: rounded_to_def)
qed

section \<open>A history of reads\<close>

text \<open>The clock's floor is on the grid and at most one quantum ahead of the raw time.\<close>

definition clock_ok :: "coarse_clock \<Rightarrow> bool" where
  "clock_ok c \<longleftrightarrow> QUANTUM_NS dvd previous c \<and> previous c < clock_ns (raw c) + QUANTUM_NS"

lemma clock_ok_new: "clock_ok (coarse_new r s)"
  by (simp add: clock_ok_def coarse_new_def QUANTUM_NS_def)

lemma clock_ok_set: "clock_ok c \<Longrightarrow> clock_ok (c\<lparr>raw := clock_set t (raw c)\<rparr>)"
  by (simp add: clock_ok_def clock_set_def)

lemma coarse_read:
  assumes ok: "clock_ok c" and t: "clock_ns (raw c) \<le> LAST_NS"
  shows "clock_ok (snd (coarse_now_ns c))" and "previous c \<le> fst (coarse_now_ns c)"
    and "QUANTUM_NS dvd fst (coarse_now_ns c)" and "clock_ns (raw c) < fst (coarse_now_ns c) + QUANTUM_NS"
    and "fst (coarse_now_ns c) < clock_ns (raw c) + QUANTUM_NS"
proof -
  let ?t = "clock_ns (raw c)"
  let ?h = "quantum_hash (seed c) (?t div QUANTUM_NS)"
  have out: "fst (coarse_now_ns c) = max (rounded_to ?t ?h) (previous c)"
    "snd (coarse_now_ns c) = c\<lparr>previous := max (rounded_to ?t ?h) (previous c)\<rparr>"
    by (simp_all add: coarse_now_ns_def Let_def coarsen_exact [OF t])
  note r = rounded_near [of ?t ?h]
  have p: "QUANTUM_NS dvd previous c" "previous c < ?t + QUANTUM_NS" using ok by (simp_all add: clock_ok_def)
  show "previous c \<le> fst (coarse_now_ns c)" by (simp add: out)
  show d: "QUANTUM_NS dvd fst (coarse_now_ns c)" using r(3) p(1) by (simp add: out max_def)
  show "?t < fst (coarse_now_ns c) + QUANTUM_NS" using r(1) by (simp add: out max_def)
  show u: "fst (coarse_now_ns c) < ?t + QUANTUM_NS" using r(2) p(2) by (simp add: out)
  show "clock_ok (snd (coarse_now_ns c))" using d u by (simp add: clock_ok_def out)
qed

lemma coarse_now_raw: "raw (snd (coarse_now_ns c)) = raw c" "previous (snd (coarse_now_ns c)) = fst (coarse_now_ns c)"
  by (simp_all add: coarse_now_ns_def Let_def)

text \<open>Reading at each of a list of raw instants.\<close>

fun reads :: "nat list \<Rightarrow> coarse_clock \<Rightarrow> nat list" where
  "reads [] c = []"
| "reads (t # ts) c =
     (case coarse_now_ns (c\<lparr>raw := clock_set t (raw c)\<rparr>) of (out, c') \<Rightarrow> out # reads ts c')"

lemma length_reads: "length (reads ts c) = length ts"
  by (induction ts arbitrary: c) (simp_all add: case_prod_beta)

lemma reads_ok:
  assumes "clock_ok c" and "sorted (clock_ns (raw c) # ts)" and "\<forall>t \<in> set ts. t \<le> LAST_NS"
  shows "sorted (previous c # reads ts c)
     \<and> list_all2 (\<lambda>t out. QUANTUM_NS dvd out \<and> t < out + QUANTUM_NS \<and> out < t + QUANTUM_NS) ts (reads ts c)"
  using assms
proof (induction ts arbitrary: c)
  case (Cons t ts)
  let ?c = "c\<lparr>raw := clock_set t (raw c)\<rparr>"
  have raw: "clock_ns (raw ?c) = t" using Cons.prems(2) by (simp add: clock_set_def)
  have "clock_ns (raw ?c) \<le> LAST_NS" using Cons.prems(3) raw by simp
  note r = coarse_read [OF clock_ok_set [OF Cons.prems(1)] this]
  have "sorted (clock_ns (raw (snd (coarse_now_ns ?c))) # ts)" using Cons.prems(2) raw by (simp add: coarse_now_raw)
  from Cons.IH [OF r(1) this] Cons.prems(3) have
    ih: "sorted (fst (coarse_now_ns ?c) # reads ts (snd (coarse_now_ns ?c)))"
      "list_all2 (\<lambda>t out. QUANTUM_NS dvd out \<and> t < out + QUANTUM_NS \<and> out < t + QUANTUM_NS) ts
         (reads ts (snd (coarse_now_ns ?c)))" by (simp_all add: coarse_now_raw)
  have p: "previous c \<le> fst (coarse_now_ns ?c)" using r(2) by simp
  have "sorted (previous c # fst (coarse_now_ns ?c) # reads ts (snd (coarse_now_ns ?c)))"
    using ih(1) p by (auto intro: order_trans)
  then show ?case using ih(2) r(3-5) raw by (simp add: case_prod_beta)
qed simp

section \<open>Waiting\<close>

lemma wait_until_returns:
  assumes "clock_ok c" and "clock_ns (raw c) \<le> LAST_NS" and "target + QUANTUM_NS \<le> LAST_NS"
  shows "\<exists>c'. wait_until_ns target c = Some c' \<and> target \<le> previous c' \<and> clock_ok c' \<and> clock_ns (raw c) \<le> clock_ns (raw c')"
  using assms(1,2)
proof (induction "target + QUANTUM_NS - clock_ns (raw c)" arbitrary: c rule: less_induct)
  case less
  note r = coarse_read [OF less.prems]
  obtain now c1 where n: "coarse_now_ns c = (now, c1)" by fastforce
  have c1: "raw c1 = raw c" "previous c1 = now" using coarse_now_raw [of c] n by simp_all
  show ?case
  proof (cases "now \<ge> target")
    case True
    then have "wait_until_ns target c = Some c1" using n by (subst wait_until_ns.simps) simp
    then show ?thesis using True r(1) n c1 by auto
  next
    case False
    let ?t = "clock_ns (raw c)"
    let ?c = "c1\<lparr>raw := clock_set (sat_add ?t (target - now)) (raw c)\<rparr>"
    have now: "?t < now + QUANTUM_NS" using r(4) n by simp
    have le: "?t + (target - now) \<le> LAST_NS" using now False assms(3) by linarith
    then have "sat_add ?t (target - now) = ?t + (target - now)" by (intro sat_add_exact) (simp add: LAST_NS_def)
    then have raw: "clock_ns (raw ?c) = ?t + (target - now)" by (simp add: clock_set_def)
    have "clock_ok ?c" using clock_ok_set [of c1] r(1) n c1 by simp
    moreover have "target + QUANTUM_NS - clock_ns (raw ?c) < target + QUANTUM_NS - ?t"
      using raw now False by linarith
    moreover have "clock_ns (raw ?c) \<le> LAST_NS" using raw le by simp
    ultimately obtain c' where "wait_until_ns target ?c = Some c'" "target \<le> previous c'" "clock_ok c'"
      "clock_ns (raw ?c) \<le> clock_ns (raw c')" using less.hyps [of ?c] by blast
    moreover have "wait_until_ns target c = wait_until_ns target ?c" using n False c1 by (subst wait_until_ns.simps) simp
    ultimately show ?thesis using raw by auto
  qed
qed

end
