(* ===== verification/Script_Properties.thy ===== *)
theory Script_Properties
  imports Script_Host Script_Clock
begin

text \<open>
  The properties of the event loop, over every history of calls on a loop that starts
  empty.
\<close>

section \<open>A small loop\<close>

definition demo_caps :: caps where
  "demo_caps = \<lparr>cap_tasks = 2, cap_microtasks = 4, cap_timers = 3, checkpoint_budget = 3\<rparr>"

definition demo_loop :: "(nat, nat) loop_core" where
  "demo_loop = snd (add_timer 0 7 False 20 (snd (add_timer 0 5 False 10 (loop_new demo_caps))))"

lemmas loop_eval = demo_loop_def demo_caps_def loop_new_def add_timer_def take_seq_def Let_def sat_add_def sat_add_u32_def
  sat_mul_def U64_MAX_def due_at_def effective_delay_ms_def NS_PER_MS_def MAX_DELAY_MS_def NESTING_CLAMP_LEVEL_def
  NESTED_MIN_DELAY_MS_def

lemma demo_loop_run: "loop_run (loop_new demo_caps) demo_loop"
  unfolding demo_loop_def by (rule loop_more, rule loop_more, rule loop_refl, rule st_add, rule st_add)

lemma demo_loop_eval:
  "demo_loop = \<lparr>lc_caps = demo_caps, microtasks = [], tasks = [],
     timers = [(1, \<lparr>payload = 10, repeat_ms = None, entry_nesting = 1, state = Pending 5000000 0\<rparr>),
               (2, \<lparr>payload = 20, repeat_ms = None, entry_nesting = 1, state = Pending 7000000 1\<rparr>)],
     heap = [(5000000, 0, 1), (7000000, 1, 2)], next_id = 3, next_seq = 2, nesting = 0, checkpoint_run = 0,
     terminated = None\<rparr>"
  by (simp add: loop_eval)

lemma demo_unspent: "unspent demo_loop"
  by (simp add: demo_loop_eval unspent_def U64_MAX_def)

lemma reachable_tight: "loop_run (loop_new k) c \<Longrightarrow> loop_tight c"
  using loop_run_tight tight_new by blast

section \<open>Bounds\<close>

text \<open>
  C14: Over every history the microtask queue, the task queue and the timer table stay
  within their caps, every pending timer is in the heap, and cancelled timers cannot make
  the heap grow: it never holds more than three entries per allowed timer plus 1024, until
  a 64-bit counter runs out.
\<close>

theorem event_loop_bounded:
  assumes "loop_run (loop_new k) c"
  shows "length (microtasks c) \<le> cap_microtasks (lc_caps c) \<and> length (tasks c) \<le> cap_tasks (lc_caps c)
     \<and> length (timers c) \<le> cap_timers (lc_caps c)
     \<and> (\<forall>x. is_live_arming c x \<longrightarrow> x \<in> set (heap c))
     \<and> (unspent c \<longrightarrow> length (heap c) \<le> 3 * cap_timers (lc_caps c) + 1024)"
proof -
  note t = reachable_tight [OF assms]
  then have inv: "loop_inv c" by (simp add: loop_tight_def)
  have "length (heap c) \<le> 3 * cap_timers (lc_caps c) + 1024" if "unspent c"
  proof -
    have fr: "loop_fresh c" "stale c \<le> 2 * cap_timers (lc_caps c) + 1024" using t that by (auto simp: loop_tight_def)
    have "length (filter (is_live_arming c) (heap c)) \<le> length (timers c)"
      using live_filter_length [of c, OF _ loop_freshD(4) [OF fr(1)]] inv by (simp add: loop_inv_def)
    moreover have "length (timers c) \<le> cap_timers (lc_caps c)" using inv by (simp add: loop_inv_def)
    moreover have "length (heap c) = length (filter (is_live_arming c) (heap c)) + stale c"
      unfolding stale_def by (rule sum_length_filter_compl [symmetric])
    ultimately show ?thesis using fr(2) by linarith
  qed
  with inv show ?thesis by (simp add: loop_inv_def)
qed

theorem event_loop_bounded_witness:
  "length (timers demo_loop) \<le> 3 \<and> length (heap demo_loop) \<le> 1033"
  using event_loop_bounded [OF demo_loop_run] demo_unspent by (simp add: demo_loop_eval demo_caps_def)

text \<open>
  Once the loop is terminated it keeps its first reason, holds nothing and hands out
  no work, whatever is called later.
\<close>

lemma termination_is_final:
  assumes "loop_run (loop_new k) c" and "terminated c = Some r" and "loop_run c c'"
  shows "terminated c' = Some r \<and> microtasks c' = [] \<and> tasks c' = [] \<and> timers c' = [] \<and> heap c' = []
     \<and> fst (pop_microtask c') = None \<and> fst (pop_task c') = None \<and> fst (begin_timer_task i c') = None
     \<and> \<not> fst (push_microtask job c') \<and> fst (add_timer now delay rep p c') = None"
proof -
  have "terminated (loop_new k :: ('a, 'b) loop_core) = None" by (simp add: loop_new_def)
  then obtain r' where "at_rest r' c" using run_rest [OF assms(1)] assms(2) by auto
  then have "at_rest r c" using assms(2) by (simp add: at_rest_def)
  from at_rest_run [OF assms(3) this] show ?thesis
    by (simp add: at_rest_def pop_microtask_def pop_task_def begin_timer_task_def push_microtask_def add_timer_def)
qed

text \<open>
  C15: A microtask checkpoint always returns, even when every job queues more jobs: after
  at most the budget it stops, as long as jobs do no more than queue work, arm or clear
  timers, or end in an engine error.
\<close>

theorem checkpoint_returns:
  assumes "\<And>job c. job_run c (snd (run job c))"
  shows "\<exists>c'. checkpoint run c = Some c' \<and> loop_run c c'"
proof -
  have "checkpoint_run (begin_checkpoint c) + checkpoint_budget (lc_caps c)
      = checkpoint_budget (lc_caps (begin_checkpoint c))" by (simp add: begin_checkpoint_def)
  from checkpoint_loop_returns [of run, OF assms this] obtain c' where
    "checkpoint_loop run (begin_checkpoint c) = Some c'" "loop_run (begin_checkpoint c) c'" by blast
  then show ?thesis
    using loop_run_trans loop_more [OF loop_refl st_begin_checkpoint [of c]] by (auto simp: checkpoint_def)
qed

definition requeue :: "nat \<Rightarrow> (nat, nat) loop_core \<Rightarrow> outcome \<times> (nat, nat) loop_core" where
  "requeue job c = (Finished, snd (push_microtask job c))"

theorem checkpoint_returns_witness:
  "\<exists>c'. checkpoint requeue (snd (push_microtask 1 (loop_new demo_caps))) = Some c' \<and> terminated c' = Some MicrotaskBudget"
proof -
  have "job_run c (snd (requeue job c))" for job c
    unfolding requeue_def snd_conv by (rule job_more [OF job_refl job_push])
  from checkpoint_returns [of requeue, OF this] obtain c' where
    c': "checkpoint requeue (snd (push_microtask 1 (loop_new demo_caps))) = Some c'" by blast
  have "checkpoint requeue (snd (push_microtask 1 (loop_new demo_caps)))
      = Some (terminate MicrotaskBudget (loop_new demo_caps\<lparr>checkpoint_run := 3, microtasks := [1]\<rparr>))"
    by (simp add: checkpoint_def begin_checkpoint_def checkpoint_loop.simps pop_microtask_def requeue_def push_microtask_def
        note_error_def loop_new_def demo_caps_def eval_nat_numeral)
  with c' show ?thesis by (simp add: terminate_def loop_new_def)
qed

section \<open>Timers\<close>

text \<open>
  C16: Promotion queues exactly the pending timers that are due, in order of due time and
  then of arming, up to the room in the task queue; what does not fit, or is not due,
  stays pending.
\<close>

theorem promote_due_exact:
  assumes "loop_run (loop_new k) c" and "unspent c" and "terminated c = None"
  shows "sorted (due_now now c)
     \<and> tasks (promote_due now c) = tasks c @ map (\<lambda>x. Timer (snd (snd x))) (take (room c) (due_now now c))
     \<and> (\<forall>x. is_live_arming (promote_due now c) x \<longleftrightarrow> is_live_arming c x \<and> x \<notin> set (take (room c) (due_now now c)))"
proof -
  note t = reachable_tight [OF assms(1)]
  then have "sorted (heap c)" by (simp add: loop_tight_def loop_inv_def)
  then have "sorted (due_now now c)" unfolding due_now_def by (rule sorted_wrt_filter)
  with promote_due_spec [OF t assms(2,3), of now] show ?thesis by blast
qed

theorem promote_due_exact_witness:
  "tasks (promote_due 6000000 demo_loop) = [Timer 1]"
proof -
  have "due_now 6000000 demo_loop = [(5000000, 0, 1)]"
    by (simp add: due_now_def demo_loop_eval is_live_arming_def)
  moreover have "room demo_loop = 2" "tasks demo_loop = []" "terminated demo_loop = None"
    by (simp_all add: room_def demo_loop_eval demo_caps_def)
  ultimately show ?thesis using promote_due_exact [OF demo_loop_run demo_unspent, of 6000000] by simp
qed

text \<open>
  C17: A timer that has been cleared never fires: no later call begins its task, however
  many timers are armed in between, until the 64-bit ids run out.
\<close>

theorem cleared_timer_never_fires:
  assumes "loop_run (loop_new k) c" and "i < next_id c" and "loop_run (snd (clear_timer i c)) c'"
  shows "fst (begin_timer_task i c') = None"
proof -
  note t = reachable_tight [OF assms(1)]
  then have ok: "bt_ok (timers c)" by (simp add: loop_tight_def loop_inv_def)
  have "gone i (snd (clear_timer i c))" using assms(2) ok by (simp add: gone_def clear_timer_def compact_heap_def Let_def)
  from gone_run [OF assms(3) tight_clear [OF t] this] show ?thesis by (simp add: gone_def begin_timer_task_def)
qed

theorem cleared_timer_never_fires_witness:
  "fst (begin_timer_task 1 (promote_due 6000000 (snd (clear_timer 1 demo_loop)))) = None
     \<and> fst (begin_timer_task 1 (promote_due 6000000 demo_loop)) \<noteq> None"
proof -
  have "loop_run (snd (clear_timer 1 demo_loop)) (promote_due 6000000 (snd (clear_timer 1 demo_loop)))"
    by (rule loop_more [OF loop_refl st_promote])
  moreover have "1 < next_id demo_loop" by (simp add: demo_loop_eval)
  moreover have "fst (begin_timer_task 1 (promote_due 6000000 demo_loop)) \<noteq> None"
    by (simp add: demo_loop_eval promote_due.simps is_live_arming_def enqueue_task_def set_queued_def begin_timer_task_def
        demo_caps_def)
  ultimately show ?thesis using cleared_timer_never_fires [OF demo_loop_run] by blast
qed

text \<open>
  A timer armed from a callback nested at the clamp level or deeper is due no sooner
  than 4 ms later, whatever delay it asked for, and promotion before that leaves it
  pending.
\<close>

lemma nested_timers_are_clamped:
  assumes "loop_run (loop_new k) c" and "NESTING_CLAMP_LEVEL \<le> nesting c" and "nesting c < 2 ^ 32 - 1"
    and "add_timer now delay rep p c = (Some i, c')" and "unspent c'" and "now + 4000000 \<le> U64_MAX"
  shows "\<exists>due seq. is_live_arming c' (due, seq, i) \<and> now + 4000000 \<le> due
     \<and> (\<forall>t < due. is_live_arming (promote_due t c') (due, seq, i))"
proof -
  have live: "terminated c = None" "length (timers c) < cap_timers (lc_caps c)"
    using assms(4) by (auto simp: add_timer_def not_le split: if_splits)
  let ?n = "sat_add_u32 (nesting c) 1"
  let ?due = "due_at now (effective_delay_ms delay ?n)"
  have "?n > NESTING_CLAMP_LEVEL" using assms(2,3) by (simp add: sat_add_u32_def)
  then have "effective_delay_ms delay ?n \<ge> 4"
    by (simp add: effective_delay_ms_def NESTED_MIN_DELAY_MS_def Let_def)
  then have "sat_mul (effective_delay_ms delay ?n) NS_PER_MS \<ge> 4000000"
    by (simp add: sat_mul_def NS_PER_MS_def U64_MAX_def)
  then have due: "now + 4000000 \<le> ?due" using assms(6) by (simp add: due_at_def sat_add_def)
  have a: "is_live_arming c' (?due, next_seq c, i)"
    using assms(4) live by (auto simp: add_timer_def take_seq_def Let_def is_live_arming_iff)
  have "is_live_arming (promote_due t c') (?due, next_seq c, i)" if "t < ?due" for t
  proof -
    have "loop_run (loop_new k) c'" using loop_more [OF assms(1) st_add [of c now delay rep p]] assms(4) by simp
    note tight = reachable_tight [OF this]
    have "terminated c' = None" using assms(4) live by (auto simp: add_timer_def take_seq_def Let_def)
    moreover have "(?due, next_seq c, i) \<notin> set (due_now t c')" using that by (simp add: due_now_def)
    ultimately show ?thesis
      using promote_due_spec [OF tight assms(5), of t] a set_take_subset [of "room c'" "due_now t c'"] by blast
  qed
  with a due show ?thesis by blast
qed

primrec demo_nest :: "nat \<Rightarrow> (nat, nat) loop_core" where
  "demo_nest 0 = loop_new caps_default"
| "demo_nest (Suc n) = snd (begin_timer_task (Suc n) (promote_due 0 (snd (add_timer 0 0 False n (demo_nest n)))))"

lemma demo_nest_run: "loop_run (loop_new caps_default) (demo_nest n)"
proof (induction n)
  case (Suc n)
  then show ?case unfolding demo_nest.simps
    by (rule loop_more [OF loop_more [OF loop_more [OF _ st_add] st_promote] st_begin_timer])
qed (simp add: loop_refl)

lemma demo_nest_eval:
  "n \<le> 5 \<Longrightarrow> demo_nest n = \<lparr>lc_caps = caps_default, microtasks = [], tasks = map Timer [1..<Suc n],
     timers = [], heap = [], next_id = Suc n, next_seq = n, nesting = n, checkpoint_run = 0, terminated = None\<rparr>"
proof (induction n)
  case 0
  then show ?case by (simp add: loop_new_def)
next
  case (Suc n)
  have a: "snd (add_timer 0 0 False n (demo_nest n)) =
      \<lparr>lc_caps = caps_default, microtasks = [], tasks = map Timer [1..<Suc n],
       timers = [(Suc n, \<lparr>payload = n, repeat_ms = None, entry_nesting = Suc n, state = Pending 0 n\<rparr>)],
       heap = [(0, n, Suc n)], next_id = Suc (Suc n), next_seq = Suc n, nesting = n, checkpoint_run = 0, terminated = None\<rparr>"
    using Suc by (simp add: loop_eval caps_default_def)
  show ?case unfolding demo_nest.simps a using Suc.prems
    by (simp add: caps_default_def promote_due.simps is_live_arming_def enqueue_task_def set_queued_def begin_timer_task_def)
qed

text \<open>
  While the loop runs and its task queue can hold anything, a pending timer that is
  due makes the host's next task exist: timers are delayed by back-pressure, not lost.
\<close>

lemma due_timer_yields_task:
  assumes "loop_run (loop_new k) c" and "unspent c" and "terminated c = None" and "0 < cap_tasks (lc_caps c)"
    and "is_live_arming c (due, seq, i)" and "due \<le> now"
  shows "fst (next_task now c) \<noteq> None"
proof -
  note t = reachable_tight [OF assms(1)]
  then have inv: "loop_inv c" by (simp add: loop_tight_def)
  have "(due, seq, i) \<in> set (due_now now c)" using loop_inv_heap [OF inv assms(5)] assms(5,6) by (simp add: due_now_def)
  then have "due_now now c \<noteq> []" by auto
  moreover have "room c > 0 \<or> tasks c \<noteq> []" using assms(4) by (auto simp: room_def)
  ultimately have "tasks (promote_due now c) \<noteq> []"
    using promote_due_spec [OF t assms(2,3), of now] by auto
  then show ?thesis using assms(3) by (cases "tasks (promote_due now c)") (simp_all add: next_task_def pop_task_def promote_fields)
qed

section \<open>The coarse clock\<close>

text \<open>
  C18: However often a script reads the clock, every reading is on the 100 microsecond
  grid, within one quantum of the true time, and never earlier than the one before.
\<close>

theorem coarse_clock_reads:
  assumes "sorted (clock_ns r # ts)" and "\<forall>t \<in> set ts. t \<le> LAST_NS"
  shows "sorted (reads ts (coarse_new r s)) \<and> length (reads ts (coarse_new r s)) = length ts
     \<and> list_all2 (\<lambda>t out. QUANTUM_NS dvd out \<and> t < out + QUANTUM_NS \<and> out < t + QUANTUM_NS) ts (reads ts (coarse_new r s))"
proof -
  have "sorted (clock_ns (raw (coarse_new r s)) # ts)" using assms(1) by (simp add: coarse_new_def)
  from reads_ok [OF clock_ok_new this assms(2)] show ?thesis by (simp add: length_reads)
qed

theorem coarse_clock_reads_witness:
  "sorted (reads [150000, 250000, 250000] (coarse_new \<lparr>clock_ns = 0\<rparr> 7))
     \<and> length (reads [150000, 250000, 250000] (coarse_new \<lparr>clock_ns = 0\<rparr> 7)) = 3"
  using coarse_clock_reads [of "\<lparr>clock_ns = 0\<rparr>" "[150000, 250000, 250000]" 7]
  by (simp add: LAST_NS_def U64_MAX_def QUANTUM_NS_def)

text \<open>
  C19: Waiting for an instant returns, with the coarse clock at or past it: the loop that
  waits again when jitter left it short ends.
\<close>

theorem wait_reaches_target:
  assumes "clock_ns r \<le> LAST_NS" and "target + QUANTUM_NS \<le> LAST_NS"
  shows "\<exists>c. wait_until_ns target (coarse_new r s) = Some c \<and> target \<le> fst (coarse_now_ns c)"
proof -
  have "clock_ns (raw (coarse_new r s)) \<le> LAST_NS" using assms(1) by (simp add: coarse_new_def)
  from wait_until_returns [OF clock_ok_new this assms(2)] obtain c where
    c: "wait_until_ns target (coarse_new r s) = Some c" "target \<le> previous c" by blast
  have "previous c \<le> fst (coarse_now_ns c)" by (simp add: coarse_now_ns_def Let_def coarsen_with_hash_def)
  with c show ?thesis by auto
qed

theorem wait_reaches_target_witness:
  "\<exists>c. wait_until_ns 1234567 (coarse_new \<lparr>clock_ns = 10\<rparr> 7) = Some c \<and> 1234567 \<le> fst (coarse_now_ns c)"
  by (rule wait_reaches_target) (simp_all add: LAST_NS_def U64_MAX_def QUANTUM_NS_def)

end
