(* ===== verification/Net_Hsts.thy ===== *)
theory Net_Hsts
  imports Net_Origin
begin

text \<open>
  The HSTS preload list of \<^verbatim>\<open>crates/px-net/src/hsts.rs\<close>: parsing the shipped list, the
  walk over the labels of a host, and the origin a plaintext request is corrected to.
\<close>

datatype preload_error = PreloadEmpty

record preload_list =
  hosts :: "(bytes, bool) btree"

definition preload_line :: "bytes \<Rightarrow> (bytes \<times> bool) option" where
  "preload_line raw =
     (let line = trim raw
      in if line = [] \<or> begins_with 0x23 line then None
         else let (host, subdomains) = (case strip_prefix [DOT] line of Some rest \<Rightarrow> (rest, True) | None \<Rightarrow> (line, False))
           in if host = [] then None else Some (to_ascii_lowercase host, subdomains))"

definition preload_insert :: "bytes \<times> bool \<Rightarrow> (bytes, bool) btree \<Rightarrow> (bytes, bool) btree" where
  "preload_insert e m =
     (case map_of m (fst e) of
        Some existing \<Rightarrow> bt_insert (fst e) (existing \<or> snd e) m
      | None \<Rightarrow> bt_insert (fst e) (snd e) m)"

definition preload_parse :: "bytes \<Rightarrow> preload_error + preload_list" where
  "preload_parse text =
     (let hs = fold (\<lambda>line m. case preload_line line of None \<Rightarrow> m | Some e \<Rightarrow> preload_insert e m) (str_lines text) []
      in if hs = [] then Inl PreloadEmpty else Inr \<lparr>hosts = hs\<rparr>)"

function parent_walk :: "(bytes, bool) btree \<Rightarrow> bytes \<Rightarrow> bool" where
  "parent_walk m rest =
     (case split_once DOT rest of
        None \<Rightarrow> False
      | Some (label, parent) \<Rightarrow>
          if parent = [] then False
          else if map_of m parent = Some True then True
          else parent_walk m parent)"
  by pat_completeness auto
termination by (relation "measure (\<lambda>(m, rest). length rest)") (auto simp: split_once_Some)

declare parent_walk.simps [simp del]

definition requires_https :: "preload_list \<Rightarrow> bytes \<Rightarrow> bool" where
  "requires_https l h =
     (let host = canonical_host h
      in if host = [] then False
         else if map_of (hosts l) host \<noteq> None then True
         else parent_walk (hosts l) host)"

definition upgrade :: "preload_list \<Rightarrow> origin \<Rightarrow> origin option" where
  "upgrade l o' =
     (if is_secure o' \<or> \<not> requires_https l (host o') then None
      else origin_new str_https (host o') (if port o' = 80 then 443 else port o'))"

section \<open>What the list covers\<close>

definition preload_entries :: "bytes \<Rightarrow> (bytes \<times> bool) list" where
  "preload_entries text = List.map_filter preload_line (str_lines text)"

text \<open>An entry covers its own host, and every host that ends in its labels if it says so.\<close>

definition covers :: "bytes \<times> bool \<Rightarrow> bytes \<Rightarrow> bool" where
  "covers e h \<longleftrightarrow> fst e = h \<or> snd e \<and> suffix (str_split DOT (fst e)) (str_split DOT h)"

lemma preload_fold:
  "fold (\<lambda>line m. case preload_line line of None \<Rightarrow> m | Some e \<Rightarrow> preload_insert e m) ls m
   = fold preload_insert (List.map_filter preload_line ls) m"
  by (induction ls arbitrary: m) (auto simp: map_filter_simps split: option.split)

lemma preload_lookup:
  "map_of (fold preload_insert es m) k =
     (if map_of m k = None \<and> k \<notin> fst ` set es then None
      else Some (map_of m k = Some True \<or> (k, True) \<in> set es))"
proof (induction es arbitrary: m)
  case Nil
  show ?case by (cases "map_of m k") auto
next
  case (Cons e es)
  have ins: "map_of (preload_insert e m) k =
      (if k = fst e then Some (map_of m k = Some True \<or> snd e) else map_of m k)"
    by (auto simp: preload_insert_def split: option.split)
  show ?case unfolding fold_simps Cons.IH ins by (cases e) (auto split: if_splits)
qed

lemma preload_parse_lookup:
  assumes "preload_parse text = Inr l"
  shows "map_of (hosts l) k \<noteq> None \<longleftrightarrow> k \<in> fst ` set (preload_entries text)"
    and "map_of (hosts l) k = Some True \<longleftrightarrow> (k, True) \<in> set (preload_entries text)"
proof -
  have "hosts l = fold preload_insert (preload_entries text) []"
    using assms by (auto simp: preload_parse_def Let_def preload_fold preload_entries_def split: if_splits)
  then have "map_of (hosts l) k = (if k \<notin> fst ` set (preload_entries text) then None
      else Some ((k, True) \<in> set (preload_entries text)))"
    by (simp add: preload_lookup)
  then show "map_of (hosts l) k \<noteq> None \<longleftrightarrow> k \<in> fst ` set (preload_entries text)"
    and "map_of (hosts l) k = Some True \<longleftrightarrow> (k, True) \<in> set (preload_entries text)"
    by (auto simp: image_iff split: if_splits)
qed

lemma parent_walk_labels:
  assumes "\<not> ends_with DOT h"
  shows "parent_walk m h \<longleftrightarrow>
    (\<exists>t. suffix t (str_split DOT h) \<and> t \<noteq> [] \<and> t \<noteq> str_split DOT h \<and> map_of m (str_join DOT t) = Some True)"
  using assms
proof (induction m h rule: parent_walk.induct)
  case (1 m h)
  show ?case
  proof (cases "split_once DOT h")
    case None
    then have "str_split DOT h = [h]" by (simp add: split_once_None str_split_plain)
    then show ?thesis using None by (auto simp: parent_walk.simps [of m h] suffix_Cons)
  next
    case (Some x)
    then obtain label parent where lp: "split_once DOT h = Some (label, parent)" by (cases x) auto
    then have h: "h = label @ DOT # parent" "DOT \<notin> set label" by (auto simp: split_once_Some)
    then have ls: "str_split DOT h = label # str_split DOT parent"
      by (simp add: str_split_append str_split_plain)
    have ne: "parent \<noteq> []" using 1(2) h by auto
    have end': "\<not> ends_with DOT parent" using 1(2) h ne by (cases parent rule: rev_cases) (auto simp: ends_with_def)
    have iff: "(\<exists>t. suffix t (str_split DOT h) \<and> t \<noteq> [] \<and> t \<noteq> str_split DOT h \<and> map_of m (str_join DOT t) = Some True)
        \<longleftrightarrow> (\<exists>t. suffix t (str_split DOT parent) \<and> t \<noteq> [] \<and> map_of m (str_join DOT t) = Some True)"
    proof -
      have "suffix t (label # str_split DOT parent) \<and> t \<noteq> label # str_split DOT parent
          \<longleftrightarrow> suffix t (str_split DOT parent)" for t
        by (auto simp: suffix_Cons dest: suffix_length_le)
      then show ?thesis unfolding ls by metis
    qed
    show ?thesis
    proof (cases "map_of m parent = Some True")
      case True
      then have "parent_walk m h" using lp ne by (simp add: parent_walk.simps [of m h])
      moreover have "map_of m (str_join DOT (str_split DOT parent)) = Some True" using True by simp
      ultimately show ?thesis unfolding iff by (metis str_split_nonempty suffix_order.order_refl)
    next
      case False
      then have "parent_walk m h = parent_walk m parent" using lp ne by (simp add: parent_walk.simps [of m h])
      also have "\<dots> \<longleftrightarrow> (\<exists>t. suffix t (str_split DOT parent) \<and> t \<noteq> [] \<and> map_of m (str_join DOT t) = Some True)"
        unfolding 1(1) [OF lp refl ne False end'] using False by (metis str_join_split)
      finally show ?thesis unfolding iff .
    qed
  qed
qed

lemma canonical_host_end: "\<not> ends_with DOT (canonical_host h)"
  using trim_end_matches_end by (simp add: canonical_host_def ends_with_lower)

lemma requires_https_covers:
  assumes "preload_parse text = Inr l"
  shows "requires_https l h \<longleftrightarrow> canonical_host h \<noteq> [] \<and> (\<exists>e \<in> set (preload_entries text). covers e (canonical_host h))"
proof -
  let ?c = "canonical_host h"
  note look = preload_parse_lookup [OF assms]
  have "parent_walk (hosts l) ?c \<longleftrightarrow> (\<exists>e. (e, True) \<in> set (preload_entries text)
      \<and> suffix (str_split DOT e) (str_split DOT ?c) \<and> e \<noteq> ?c)"
    unfolding parent_walk_labels [OF canonical_host_end] look(2)
  proof safe
    fix t
    assume t: "suffix t (str_split DOT ?c)" "t \<noteq> []" "t \<noteq> str_split DOT ?c" "(str_join DOT t, True) \<in> set (preload_entries text)"
    then have "str_split DOT (str_join DOT t) = t" using split_suffix by blast
    with t show "\<exists>e. (e, True) \<in> set (preload_entries text) \<and> suffix (str_split DOT e) (str_split DOT ?c) \<and> e \<noteq> ?c"
      by metis
  next
    fix e
    assume "(e, True) \<in> set (preload_entries text)" "suffix (str_split DOT e) (str_split DOT ?c)" "e \<noteq> ?c"
    then show "\<exists>t. suffix t (str_split DOT ?c) \<and> t \<noteq> [] \<and> t \<noteq> str_split DOT ?c \<and> (str_join DOT t, True) \<in> set (preload_entries text)"
      by (metis str_join_split str_split_nonempty)
  qed
  moreover have "map_of (hosts l) ?c \<noteq> None \<longleftrightarrow> (\<exists>e \<in> set (preload_entries text). fst e = ?c)"
    unfolding look(1) image_iff by metis
  moreover have "requires_https l h \<longleftrightarrow> ?c \<noteq> [] \<and> (map_of (hosts l) ?c \<noteq> None \<or> parent_walk (hosts l) ?c)"
    by (simp add: requires_https_def Let_def)
  moreover have "(\<exists>e \<in> set (preload_entries text). covers e ?c) \<longleftrightarrow> (\<exists>e \<in> set (preload_entries text). fst e = ?c)
      \<or> (\<exists>e. (e, True) \<in> set (preload_entries text) \<and> suffix (str_split DOT e) (str_split DOT ?c) \<and> e \<noteq> ?c)"
    (is "?L \<longleftrightarrow> ?A \<or> ?B")
  proof (intro iffI)
    assume ?L
    then obtain e where e: "e \<in> set (preload_entries text)" "covers e ?c" by blast
    show "?A \<or> ?B"
    proof (cases "fst e = ?c")
      case False
      with e have "snd e = True" "suffix (str_split DOT (fst e)) (str_split DOT ?c)" by (simp_all add: covers_def)
      with e(1) False show ?thesis by (metis prod.collapse)
    qed (use e in blast)
  next
    assume "?A \<or> ?B"
    then show ?L unfolding covers_def by (metis fst_conv snd_conv)
  qed
  ultimately show ?thesis by simp
qed

section \<open>The corrected origin\<close>

lemma preload_entry_end:
  assumes "e \<in> set (preload_entries text)"
  shows "fst e \<noteq> []" "\<not> ascii_ws (last (fst e))"
proof -
  from assms obtain raw where raw: "preload_line raw = Some e"
    by (auto simp: preload_entries_def List.map_filter_def)
  obtain u body where body: "trim raw = u @ body" "body \<noteq> []" "fst e = to_ascii_lowercase body"
  proof (cases "strip_prefix [DOT] (trim raw)")
    case None
    with raw show thesis by (intro that [of "[]" "trim raw"]) (auto simp: preload_line_def Let_def split: if_splits)
  next
    case (Some rest)
    with raw show thesis by (intro that [of "[DOT]" rest]) (auto simp: preload_line_def strip_prefix_Some Let_def split: if_splits)
  qed
  then have "\<not> ascii_ws (last body)" using trimmed_ends(2) [OF trimmed_trim, of raw] by simp
  then show "fst e \<noteq> []" "\<not> ascii_ws (last (fst e))"
    using body by (simp_all add: to_ascii_lowercase_def last_map)
qed

lemma covers_last:
  assumes "covers e h" "fst e \<noteq> []"
  shows "last h = last (fst e)"
proof (cases "fst e = h")
  case False
  with assms obtain u where "str_split DOT h = u @ str_split DOT (fst e)" by (auto simp: covers_def suffix_def)
  then have "h = str_join DOT (u @ str_split DOT (fst e))" by (metis str_join_split)
  then have "u \<noteq> [] \<Longrightarrow> h = str_join DOT u @ DOT # fst e" "u = [] \<Longrightarrow> h = fst e"
    by (simp_all add: str_join_append)
  then show ?thesis using assms(2) by (cases "u = []") simp_all
qed simp

lemma upgrade_run:
  assumes list: "preload_parse text = Inr l" and o: "origin_new s h p = Some o'" and up: "upgrade l o' = Some o''"
  shows "o'' = \<lparr>scheme = str_https, host = host o', port = (if p = 80 then 443 else p)\<rparr>"
proof -
  note wf = origin_new_wf [OF o]
  have req: "requires_https l (host o')" using up by (auto simp: upgrade_def split: if_splits)
  have can: "canonical_host (host o') = host o'"
    using wf by (simp add: origin_wf_def canonical_host_def trim_end_matches_id)
  from req obtain e where "e \<in> set (preload_entries text)" "covers e (host o')"
    unfolding requires_https_covers [OF list] can by blast
  then have "\<not> ascii_ws (last (host o'))" using preload_entry_end covers_last by metis
  from origin_new_https [OF wf origin_new_hd [OF o] this] up show ?thesis
    by (auto simp: upgrade_def origin_new_port [OF o] split: if_splits)
qed

end
