(* ===== verification/Net_Redirect.thy ===== *)
theory Net_Redirect
  imports Net_Hsts
begin

text \<open>
  The redirect policy of \<^verbatim>\<open>crates/px-net/src/redirect.rs\<close>: resolving a \<^verbatim>\<open>Location\<close>
  against the origin it came from, and deciding whether a chain of redirects may follow it.
\<close>

definition MAX_HOPS :: nat where "MAX_HOPS = 10"

datatype refused_redirect =
    Downgrade
  | Unresolvable string
  | PreloadedHostOverPlaintext
  | TooManyHops
  | Loop
  | NotPartitionable

record hop =
  hop_key :: partition_key
  hop_path :: bytes

record chain =
  visited :: "(bytes \<times> bytes) list"

definition chain_new :: chain where
  "chain_new = \<lparr>visited = []\<rparr>"

definition is_alpha :: "u8 \<Rightarrow> bool" where
  "is_alpha b \<longleftrightarrow> 0x41 \<le> b \<and> b \<le> 0x5A \<or> 0x61 \<le> b \<and> b \<le> 0x7A"

definition is_alphanumeric :: "u8 \<Rightarrow> bool" where
  "is_alphanumeric b \<longleftrightarrow> is_alpha b \<or> digit b \<noteq> None"

definition split_scheme :: "bytes \<Rightarrow> (bytes \<times> bytes) option" where
  "split_scheme location = do {
     colon \<leftarrow> find_byte COLON location;
     let s = take colon location;
     if s = [] then None
     else if \<not> is_alpha (hd s) then None
     else if \<not> list_all (\<lambda>b. is_alphanumeric b \<or> b \<in> {0x2B, 0x2D, 0x2E}) (tl s) then None
     else Some (to_ascii_lowercase s, drop (colon + 1) location) }"

definition default_port :: "bytes \<Rightarrow> refused_redirect + u16" where
  "default_port s =
     (if s = str_https then Inr 443
      else if s = str_http then Inr 80
      else Inl (Unresolvable ''scheme is not http(s)''))"

definition resolve_absolute :: "bytes \<Rightarrow> bytes \<Rightarrow> refused_redirect + origin \<times> bytes" where
  "resolve_absolute s rest =
     (let (authority, path) =
        (case find_byte SLASH rest of
           Some i \<Rightarrow> (take i rest, drop i rest)
         | None \<Rightarrow> (rest, [SLASH]))
      in if 0x40 \<in> set authority then Inl (Unresolvable ''userinfo in the authority'')
         else case (case rfind_byte COLON authority of
                      Some i \<Rightarrow>
                        (case parse_u16 (drop (i + 1) authority) of
                           None \<Rightarrow> Inl (Unresolvable ''port is not a number'')
                         | Some p \<Rightarrow> Inr (take i authority, p))
                    | None \<Rightarrow> (case default_port s of Inl e \<Rightarrow> Inl e | Inr p \<Rightarrow> Inr (authority, p))) of
           Inl e \<Rightarrow> Inl e
         | Inr (h, p) \<Rightarrow>
             (case origin_new s h p of
                None \<Rightarrow> Inl (Unresolvable ''not an origin this crate fetches'')
              | Some o' \<Rightarrow> Inr (o', path)))"

definition resolve :: "origin \<Rightarrow> bytes \<Rightarrow> refused_redirect + origin \<times> bytes" where
  "resolve sender raw =
     (let location = trim raw
      in if location = [] then Inl (Unresolvable ''empty'')
         else if \<exists>b \<in> set location. b < 0x20 \<or> b = 0x7F then Inl (Unresolvable ''control character'')
         else case strip_prefix [SLASH, SLASH] location of
           Some rest \<Rightarrow> resolve_absolute (scheme sender) rest
         | None \<Rightarrow>
             (case split_scheme location of
                Some (s, rest) \<Rightarrow>
                  (case strip_prefix [SLASH, SLASH] rest of
                     None \<Rightarrow> Inl (Unresolvable ''authority missing'')
                   | Some rest' \<Rightarrow> resolve_absolute s rest')
              | None \<Rightarrow>
                  (case strip_prefix [SLASH] location of
                     Some path \<Rightarrow> Inr (sender, SLASH # path)
                   | None \<Rightarrow> Inr (sender, SLASH # location))))"

definition follow :: "public_suffix_list \<Rightarrow> preload_list option \<Rightarrow> bytes \<Rightarrow> origin \<Rightarrow> bytes \<Rightarrow> chain
    \<Rightarrow> (refused_redirect + hop) \<times> chain" where
  "follow l preload top_level_host sender location c =
     (if length (visited c) \<ge> MAX_HOPS then (Inl TooManyHops, c)
      else case resolve sender location of
        Inl e \<Rightarrow> (Inl e, c)
      | Inr (o', path) \<Rightarrow>
          if is_secure sender \<and> \<not> is_secure o' then (Inl Downgrade, c)
          else if (case preload of None \<Rightarrow> False | Some pl \<Rightarrow> \<not> is_secure o' \<and> requires_https pl (host o'))
          then (Inl PreloadedHostOverPlaintext, c)
          else let step = (origin_display o', path)
            in if step \<in> set (visited c) then (Inl Loop, c)
               else case partition_key_new l top_level_host o' of
                 None \<Rightarrow> (Inl NotPartitionable, c)
               | Some k \<Rightarrow> (Inr \<lparr>hop_key = k, hop_path = path\<rparr>, c\<lparr>visited := visited c @ [step]\<rparr>))"

section \<open>One redirect\<close>

lemma resolve_absolute_Inr:
  assumes "resolve_absolute s rest = Inr (o', path)"
  shows "\<exists>h p. origin_new s h p = Some o'" "begins_with SLASH path"
proof -
  have slash: "begins_with SLASH (drop i rest)" if "find_byte SLASH rest = Some i" for i
  proof -
    have "rest = takeWhile (\<lambda>c. c \<noteq> SLASH) rest @ dropWhile (\<lambda>c. c \<noteq> SLASH) rest" by simp
    moreover have i: "i = length (takeWhile (\<lambda>c. c \<noteq> SLASH) rest)" "i < length rest"
      using that by (auto simp: find_byte_def Let_def split: if_splits)
    ultimately have "drop i rest = dropWhile (\<lambda>c. c \<noteq> SLASH) rest" by (metis append_eq_conv_conj)
    moreover from this i(2) have "dropWhile (\<lambda>c. c \<noteq> SLASH) rest \<noteq> []" by (metis drop_eq_Nil not_le)
    ultimately show ?thesis using hd_dropWhile [of "\<lambda>c. c \<noteq> SLASH" rest]
      by (cases "dropWhile (\<lambda>c. c \<noteq> SLASH) rest") auto
  qed
  with assms show "\<exists>h p. origin_new s h p = Some o'" "begins_with SLASH path"
    by (auto simp: resolve_absolute_def Let_def split: option.splits sum.splits if_splits) blast+
qed

lemma resolve_Inr:
  assumes "resolve sender loc = Inr (o', path)"
  shows "o' = sender \<or> (\<exists>s h p. origin_new s h p = Some o')" "begins_with SLASH path"
proof -
  from assms have "o' = sender \<and> begins_with SLASH path \<or> (\<exists>s rest. resolve_absolute s rest = Inr (o', path))"
    by (auto simp: resolve_def Let_def split: option.splits if_splits)
  then show "o' = sender \<or> (\<exists>s h p. origin_new s h p = Some o')" "begins_with SLASH path"
    using resolve_absolute_Inr by blast+
qed

definition hop_ok :: "public_suffix_list \<Rightarrow> preload_list option \<Rightarrow> bytes \<Rightarrow> origin \<Rightarrow> hop \<Rightarrow> bool" where
  "hop_ok l preload page sender hp \<longleftrightarrow>
     (is_secure sender \<longrightarrow> is_secure (key_origin (hop_key hp)))
     \<and> (\<forall>pl. preload = Some pl \<longrightarrow> requires_https pl (host (key_origin (hop_key hp))) \<longrightarrow> is_secure (key_origin (hop_key hp)))
     \<and> registrable_domain l page = Some (top_level_site (hop_key hp))
     \<and> (origin_wf sender \<longrightarrow> origin_wf (key_origin (hop_key hp)))
     \<and> begins_with SLASH (hop_path hp)"

definition hop_step :: "hop \<Rightarrow> bytes \<times> bytes" where
  "hop_step hp = (origin_display (key_origin (hop_key hp)), hop_path hp)"

lemma follow_Inr:
  assumes "follow l preload page sender loc c = (Inr hp, c')"
  shows "hop_ok l preload page sender hp" "visited c' = visited c @ [hop_step hp]"
    "hop_step hp \<notin> set (visited c)" "length (visited c) < MAX_HOPS"
proof -
  from assms obtain o' path k where r: "resolve sender loc = Inr (o', path)"
    and dg: "is_secure sender \<longrightarrow> is_secure o'"
    and pl: "\<not> (case preload of None \<Rightarrow> False | Some pl \<Rightarrow> \<not> is_secure o' \<and> requires_https pl (host o'))"
    and k: "partition_key_new l page o' = Some k" and hp: "hp = \<lparr>hop_key = k, hop_path = path\<rparr>"
    and v: "c' = c\<lparr>visited := visited c @ [(origin_display o', path)]\<rparr>" "(origin_display o', path) \<notin> set (visited c)"
    and len: "length (visited c) < MAX_HOPS"
    by (auto simp: follow_def Let_def split: if_splits sum.splits option.splits)
  from k have ko: "key_origin k = o'" "registrable_domain l page = Some (top_level_site k)"
    by (auto simp: partition_key_new_Some)
  show "hop_ok l preload page sender hp"
    using dg pl ko resolve_Inr [OF r] origin_new_wf unfolding hp hop_ok_def by auto
  show "visited c' = visited c @ [hop_step hp]" "hop_step hp \<notin> set (visited c)" "length (visited c) < MAX_HOPS"
    using v ko len by (simp_all add: hp hop_step_def)
qed

lemma follow_Inl: "follow l preload page sender loc c = (Inl e, c') \<Longrightarrow> c' = c"
  by (auto simp: follow_def Let_def split: if_splits sum.splits option.splits)

section \<open>Whole chains\<close>

text \<open>
  A caller that keeps following: each redirect is resolved against the origin the last one
  led to, until one is refused.
\<close>

fun follow_all :: "public_suffix_list \<Rightarrow> preload_list option \<Rightarrow> bytes \<Rightarrow> origin \<Rightarrow> bytes list \<Rightarrow> chain \<Rightarrow> hop list \<times> chain" where
  "follow_all l preload page sender [] c = ([], c)"
| "follow_all l preload page sender (loc # locs) c =
     (case follow l preload page sender loc c of
        (Inl _, c') \<Rightarrow> ([], c')
      | (Inr hp, c') \<Rightarrow>
          (let (hs, c'') = follow_all l preload page (key_origin (hop_key hp)) locs c' in (hp # hs, c'')))"

fun hops_ok :: "public_suffix_list \<Rightarrow> preload_list option \<Rightarrow> bytes \<Rightarrow> origin \<Rightarrow> hop list \<Rightarrow> bool" where
  "hops_ok l preload page sender [] \<longleftrightarrow> True"
| "hops_ok l preload page sender (hp # hs) \<longleftrightarrow>
     hop_ok l preload page sender hp \<and> hops_ok l preload page (key_origin (hop_key hp)) hs"

lemma follow_all_sound:
  assumes "follow_all l preload page sender locs c = (hs, c')" and "distinct (visited c)" "length (visited c) \<le> MAX_HOPS"
  shows "hops_ok l preload page sender hs \<and> visited c' = visited c @ map hop_step hs
    \<and> distinct (visited c') \<and> length (visited c') \<le> MAX_HOPS"
  using assms
proof (induction locs arbitrary: sender c hs c')
  case (Cons loc locs)
  obtain r c1 where f: "follow l preload page sender loc c = (r, c1)" by fastforce
  show ?case
  proof (cases r)
    case (Inl e)
    with f follow_Inl have "c1 = c" by blast
    with Inl f Cons.prems show ?thesis by auto
  next
    case (Inr hp)
    note one = follow_Inr [OF f [unfolded Inr]]
    obtain hs' c'' where rec: "follow_all l preload page (key_origin (hop_key hp)) locs c1 = (hs', c'')" by fastforce
    with Inr f Cons.prems have e: "hs = hp # hs'" "c' = c''" by auto
    have "distinct (visited c1)" "length (visited c1) \<le> MAX_HOPS" using one Cons.prems by auto
    note rest = Cons.IH [OF rec this]
    then have vis: "visited c' = visited c @ map hop_step hs" using one(2) e by simp
    have "hops_ok l preload page sender hs" using rest one(1) e by simp
    moreover have "distinct (visited c')" "length (visited c') \<le> MAX_HOPS" using rest e(2) by blast+
    ultimately show ?thesis using vis by metis
  qed
qed auto

lemma hops_ok_mem:
  assumes "hops_ok l preload page sender hs" "hp \<in> set hs"
  shows "registrable_domain l page = Some (top_level_site (hop_key hp))"
    "is_secure sender \<Longrightarrow> is_secure (key_origin (hop_key hp))"
    "origin_wf sender \<Longrightarrow> origin_wf (key_origin (hop_key hp))"
    "preload = Some pl \<Longrightarrow> requires_https pl (host (key_origin (hop_key hp))) \<Longrightarrow> is_secure (key_origin (hop_key hp))"
  using assms by (induction hs arbitrary: sender) (auto simp: hop_ok_def)

end
