(* ===== verification/Net_Pool.thy ===== *)
theory Net_Pool
  imports Net_Partition "HOL-Library.AList"
begin

text \<open>
  The connection pool of \<^verbatim>\<open>crates/px-net/src/pool.rs\<close>, generic over the connection as in
  the source.  The time of a call is an argument in nanoseconds; the difference of two
  instants saturates at zero.
\<close>

datatype protocol = Http11

definition MAX_IDLE_PER_KEY :: nat where "MAX_IDLE_PER_KEY = 6"
definition MAX_KEYS :: nat where "MAX_KEYS = 256"
definition IDLE_TIMEOUT :: nat where "IDLE_TIMEOUT = 45 * 10 ^ 9"

type_synonym pool_key = "partition_key \<times> protocol"

record 'c idle_entry =
  connection :: 'c
  since :: nat

record 'c connection_pool =
  idle :: "(pool_key \<times> 'c idle_entry list) list"
  order :: "pool_key list"

definition pool_new :: "'c connection_pool" where
  "pool_new = \<lparr>idle = [], order = []\<rparr>"

definition still_fresh :: "nat \<Rightarrow> 'c idle_entry \<Rightarrow> bool" where
  "still_fresh now e \<longleftrightarrow> now - since e < IDLE_TIMEOUT"

definition pool_take :: "nat \<Rightarrow> partition_key \<Rightarrow> protocol \<Rightarrow> 'c connection_pool \<Rightarrow> 'c option \<times> 'c connection_pool" where
  "pool_take now k p pool =
     (case map_of (idle pool) (k, p) of
        None \<Rightarrow> (None, pool)
      | Some slot \<Rightarrow>
          let kept = filter (still_fresh now) slot
          in if kept = [] then (None, pool\<lparr>idle := AList.update (k, p) [] (idle pool)\<rparr>)
             else (Some (connection (last kept)), pool\<lparr>idle := AList.update (k, p) (butlast kept) (idle pool)\<rparr>))"

definition evict_oldest :: "'c connection_pool \<Rightarrow> 'c connection_pool" where
  "evict_oldest pool =
     (case order pool of
        [] \<Rightarrow> pool
      | oldest # rest \<Rightarrow> pool\<lparr>order := rest, idle := AList.delete oldest (idle pool)\<rparr>)"

definition pool_put :: "nat \<Rightarrow> partition_key \<Rightarrow> protocol \<Rightarrow> 'c \<Rightarrow> 'c connection_pool \<Rightarrow> 'c connection_pool" where
  "pool_put now k p c pool =
     (let entry_key = (k, p);
          pool1 = (if map_of (idle pool) entry_key = None
                   then let pool0 = (if length (order pool) \<ge> MAX_KEYS then evict_oldest pool else pool)
                        in pool0\<lparr>order := order pool0 @ [entry_key]\<rparr>
                   else pool);
          slot = (case map_of (idle pool1) entry_key of None \<Rightarrow> [] | Some s \<Rightarrow> s)
      in pool1\<lparr>idle := AList.update entry_key
           (if length slot \<ge> MAX_IDLE_PER_KEY then slot else slot @ [\<lparr>connection = c, since = now\<rparr>]) (idle pool1)\<rparr>)"

definition pool_forget :: "partition_key \<Rightarrow> 'c connection_pool \<Rightarrow> 'c connection_pool" where
  "pool_forget k pool = pool\<lparr>idle := filter (\<lambda>((stored, _), _). stored \<noteq> k) (idle pool),
     order := filter (\<lambda>(stored, _). stored \<noteq> k) (order pool)\<rparr>"

definition expire_idle :: "nat \<Rightarrow> 'c connection_pool \<Rightarrow> 'c connection_pool" where
  "expire_idle now pool =
     (let kept = filter (\<lambda>(_, slot). slot \<noteq> []) (map (\<lambda>(k, slot). (k, filter (still_fresh now) slot)) (idle pool))
      in pool\<lparr>idle := kept, order := filter (\<lambda>k. k \<in> set (map fst kept)) (order pool)\<rparr>)"

definition pool_len :: "'c connection_pool \<Rightarrow> nat" where
  "pool_len pool = sum_list (map (\<lambda>(_, slot). length slot) (idle pool))"

definition key_count :: "'c connection_pool \<Rightarrow> nat" where
  "key_count pool = length (idle pool)"

section \<open>The invariant\<close>

text \<open>
  The keys of the table are those in the eviction order, each once; both are bounded, and
  every connection is one the given relation allows under its key.
\<close>

definition slot_ok :: "(partition_key \<Rightarrow> protocol \<Rightarrow> 'c idle_entry \<Rightarrow> bool) \<Rightarrow> pool_key \<Rightarrow> 'c idle_entry list \<Rightarrow> bool" where
  "slot_ok P k slot \<longleftrightarrow> length slot \<le> MAX_IDLE_PER_KEY \<and> list_all (\<lambda>e. P (fst k) (snd k) e) slot"

definition pool_ok :: "(partition_key \<Rightarrow> protocol \<Rightarrow> 'c idle_entry \<Rightarrow> bool) \<Rightarrow> 'c connection_pool \<Rightarrow> bool" where
  "pool_ok P pool \<longleftrightarrow> distinct (map fst (idle pool)) \<and> distinct (order pool)
     \<and> set (order pool) = fst ` set (idle pool) \<and> length (order pool) \<le> MAX_KEYS
     \<and> (\<forall>(k, slot) \<in> set (idle pool). slot_ok P k slot)"

lemma pool_ok_slot: "pool_ok P pool \<Longrightarrow> map_of (idle pool) k = Some slot \<Longrightarrow> slot_ok P k slot"
  by (auto simp: pool_ok_def dest!: map_of_SomeD)

lemma slot_ok_filter: "slot_ok P k slot \<Longrightarrow> slot_ok P k (filter Q slot)"
  by (auto simp: slot_ok_def list_all_iff intro: order_trans [OF length_filter_le])

lemma slot_ok_butlast: "slot_ok P k slot \<Longrightarrow> slot_ok P k (butlast slot)"
  by (auto simp: slot_ok_def list_all_iff dest: in_set_butlastD)

lemma set_update_present:
  assumes "distinct (map fst m)"
  shows "x \<in> set (AList.update k v m) \<longleftrightarrow> x = (k, v) \<or> x \<in> set m \<and> fst x \<noteq> k"
  using assms by (induction m) auto

lemma pool_ok_update:
  assumes "pool_ok P pool" "k \<in> fst ` set (idle pool)" "slot_ok P k slot"
  shows "pool_ok P (pool\<lparr>idle := AList.update k slot (idle pool)\<rparr>)"
proof -
  have d: "distinct (map fst (idle pool))" using assms(1) by (simp add: pool_ok_def)
  have "fst ` set (AList.update k slot (idle pool)) = fst ` set (idle pool)"
    using assms(2) by (simp add: dom_update insert_absorb)
  then show ?thesis using assms(1,3) d
    by (auto simp: pool_ok_def distinct_update set_update_present)
qed

lemma pool_take_ok:
  assumes "pool_ok P pool"
  shows "pool_ok P (snd (pool_take now k p pool))"
proof (cases "map_of (idle pool) (k, p)")
  case None
  then show ?thesis using assms by (simp add: pool_take_def)
next
  case (Some slot)
  then have mem: "(k, p) \<in> fst ` set (idle pool)" by (metis domI dom_map_of_conv_image_fst)
  have "slot_ok P (k, p) (filter (still_fresh now) slot)" by (rule slot_ok_filter [OF pool_ok_slot [OF assms Some]])
  moreover have "slot_ok P (k, p) []" by (simp add: slot_ok_def)
  ultimately show ?thesis
    using pool_ok_update [OF assms mem] slot_ok_butlast [of P "(k, p)"] Some by (simp add: pool_take_def Let_def)
qed

lemma evict_oldest_ok:
  assumes "pool_ok P pool"
  shows "pool_ok P (evict_oldest pool)" "length (order pool) \<ge> 1 \<Longrightarrow> length (order (evict_oldest pool)) = length (order pool) - 1"
proof -
  show "pool_ok P (evict_oldest pool)"
  proof (cases "order pool")
    case (Cons oldest rest)
    have keys: "fst ` set (AList.delete oldest (idle pool)) = fst ` set (idle pool) - {oldest}"
      by (auto simp: AList.delete_eq)
    have "set (AList.delete oldest (idle pool)) \<subseteq> set (idle pool)" by (auto simp: AList.delete_eq)
    then show ?thesis using assms Cons
      by (auto simp: pool_ok_def evict_oldest_def distinct_delete keys)
  qed (use assms in \<open>simp add: evict_oldest_def\<close>)
qed (auto simp: evict_oldest_def split: list.split)

lemma pool_ok_add:
  assumes "pool_ok P pool" "k \<notin> fst ` set (idle pool)" "length (order pool) < MAX_KEYS" "slot_ok P k slot"
  shows "pool_ok P (pool\<lparr>order := order pool @ [k], idle := AList.update k slot (idle pool)\<rparr>)"
proof -
  have d: "distinct (map fst (idle pool))" using assms(1) by (simp add: pool_ok_def)
  show ?thesis using assms d
    by (auto simp: pool_ok_def distinct_update set_update_present dom_update)
qed

lemma evict_oldest_keys: "fst ` set (idle (evict_oldest pool)) \<subseteq> fst ` set (idle pool)"
  by (auto simp: evict_oldest_def AList.delete_eq split: list.split)

lemma pool_put_ok:
  assumes ok: "pool_ok P pool" and new: "P k p \<lparr>connection = c, since = now\<rparr>"
  shows "pool_ok P (pool_put now k p c pool)"
proof (cases "map_of (idle pool) (k, p)")
  case (Some slot)
  then have mem: "(k, p) \<in> fst ` set (idle pool)" by (metis domI dom_map_of_conv_image_fst)
  have slot: "slot_ok P (k, p) slot" by (rule pool_ok_slot [OF ok Some])
  then have "slot_ok P (k, p) (if length slot \<ge> MAX_IDLE_PER_KEY then slot else slot @ [\<lparr>connection = c, since = now\<rparr>])"
    using new by (auto simp: slot_ok_def)
  note upd = pool_ok_update [OF ok mem this]
  show ?thesis using upd by (simp only: pool_put_def Let_def Some option.simps if_False simp_thms)
next
  case None
  define pool0 where "pool0 = (if length (order pool) \<ge> MAX_KEYS then evict_oldest pool else pool)"
  have nk: "(k, p) \<notin> fst ` set (idle pool0)"
    using None evict_oldest_keys [of pool] by (auto simp: pool0_def map_of_eq_None_iff split: if_splits)
  then have none: "map_of (idle pool0) (k, p) = None" by (simp add: map_of_eq_None_iff)
  have ok0: "pool_ok P pool0" "length (order pool0) < MAX_KEYS"
    using ok evict_oldest_ok [OF ok] by (auto simp: pool0_def pool_ok_def MAX_KEYS_def)
  have "slot_ok P (k, p) [\<lparr>connection = c, since = now\<rparr>]" using new by (simp add: slot_ok_def MAX_IDLE_PER_KEY_def)
  from pool_ok_add [OF ok0(1) nk ok0(2) this] show ?thesis
    using None none by (simp add: pool_put_def Let_def flip: pool0_def) (simp add: MAX_IDLE_PER_KEY_def)
qed

lemma pool_forget_ok: "pool_ok P pool \<Longrightarrow> pool_ok P (pool_forget k pool)"
  by (auto simp: pool_ok_def pool_forget_def distinct_map_filter image_iff intro: order_trans [OF length_filter_le])

lemma expire_idle_ok:
  assumes "pool_ok P pool"
  shows "pool_ok P (expire_idle now pool)"
proof -
  let ?f = "\<lambda>(k, slot). (k, filter (still_fresh now) slot)"
  have keys: "map fst (map ?f m) = map fst m" for m :: "(pool_key \<times> 'a idle_entry list) list"
    by (induction m) auto
  then have d: "distinct (map fst (filter Q (map ?f (idle pool))))" for Q
    using assms keys [of "idle pool"] by (intro distinct_map_filter) (metis pool_ok_def)
  have sub: "fst ` set (filter Q (map ?f (idle pool))) \<subseteq> set (order pool)" for Q
    using assms by (force simp: pool_ok_def)
  define kept where "kept = filter (\<lambda>(_, slot). slot \<noteq> []) (map ?f (idle pool))"
  have "distinct (map fst kept)" "fst ` set kept \<subseteq> set (order pool)" unfolding kept_def by (rule d, rule sub)
  moreover have "\<forall>(k, slot) \<in> set kept. slot_ok P k slot"
  proof (intro ballI)
    fix x
    assume "x \<in> set kept"
    then obtain k slot where y: "(k, slot) \<in> set (idle pool)" "x = (k, filter (still_fresh now) slot)"
      by (auto simp: kept_def)
    then have "slot_ok P k slot" using assms by (auto simp: pool_ok_def)
    then show "case x of (k, slot) \<Rightarrow> slot_ok P k slot" using y(2) slot_ok_filter by simp
  qed
  moreover have "expire_idle now pool = pool\<lparr>idle := kept, order := filter (\<lambda>k. k \<in> set (map fst kept)) (order pool)\<rparr>"
    by (simp add: expire_idle_def kept_def)
  ultimately show ?thesis using assms by (auto simp: pool_ok_def intro: order_trans [OF length_filter_le])
qed

section \<open>Histories\<close>

text \<open>The calls a client makes, each with the time the source reads when it is made.\<close>

datatype 'c pool_call =
    CTake nat partition_key protocol
  | CPut nat partition_key protocol 'c
  | CForget partition_key
  | CExpire nat

fun pool_exec :: "'c pool_call \<Rightarrow> 'c connection_pool \<Rightarrow> 'c connection_pool" where
  "pool_exec (CTake now k p) pool = snd (pool_take now k p pool)"
| "pool_exec (CPut now k p c) pool = pool_put now k p c pool"
| "pool_exec (CForget k) pool = pool_forget k pool"
| "pool_exec (CExpire now) pool = expire_idle now pool"

definition pool_run :: "'c pool_call list \<Rightarrow> 'c connection_pool" where
  "pool_run calls = fold pool_exec calls pool_new"

text \<open>The entry was put under the key by one of the calls, and the key was not forgotten since.\<close>

definition put_in :: "'c pool_call list \<Rightarrow> partition_key \<Rightarrow> protocol \<Rightarrow> 'c idle_entry \<Rightarrow> bool" where
  "put_in calls k p e \<longleftrightarrow>
     (\<exists>pre post. calls = pre @ CPut (since e) k p (connection e) # post \<and> CForget k \<notin> set post)"

lemma put_in_last: "put_in (calls @ [CPut now k p c]) k p \<lparr>connection = c, since = now\<rparr>"
  unfolding put_in_def by (rule exI [of _ calls]) simp

lemma put_in_snoc: "put_in calls k p e \<Longrightarrow> x \<noteq> CForget k \<Longrightarrow> put_in (calls @ [x]) k p e"
  unfolding put_in_def by (metis (no_types, opaque_lifting) append_Cons append_assoc Un_iff empty_iff insert_iff list.set set_append)

lemma pool_ok_mono:
  assumes "pool_ok P pool" and "\<And>k p e. (k, p) \<in> fst ` set (idle pool) \<Longrightarrow> P k p e \<Longrightarrow> Q k p e"
  shows "pool_ok Q pool"
proof -
  have "slot_ok Q k slot" if "(k, slot) \<in> set (idle pool)" for k slot
  proof -
    have "slot_ok P k slot" using assms(1) that by (auto simp: pool_ok_def)
    moreover have "(fst k, snd k) \<in> fst ` set (idle pool)" using that by force
    ultimately show ?thesis using assms(2) by (auto simp: slot_ok_def list_all_iff)
  qed
  then show ?thesis using assms(1) by (auto simp: pool_ok_def)
qed

lemma pool_ok_new: "pool_ok P pool_new"
  by (simp add: pool_ok_def pool_new_def)

lemma pool_exec_ok:
  assumes "pool_ok (put_in calls) pool"
  shows "pool_ok (put_in (calls @ [x])) (pool_exec x pool)"
proof -
  have ext: "pool_ok (put_in (calls @ [x])) pool" if "\<forall>k. x \<noteq> CForget k"
    using assms that by (auto intro: pool_ok_mono put_in_snoc)
  show ?thesis
  proof (cases x)
    case (CForget k)
    have "pool_ok (put_in (calls @ [x])) (pool_forget k pool)"
    proof (rule pool_ok_mono [OF pool_forget_ok [OF assms]])
      fix k' p e
      assume "(k', p) \<in> fst ` set (idle (pool_forget k pool))" and "put_in calls k' p e"
      then show "put_in (calls @ [x]) k' p e" using CForget by (intro put_in_snoc) (auto simp: pool_forget_def)
    qed
    then show ?thesis using CForget by simp
  next
    case (CPut now k p c)
    then show ?thesis using ext by (auto intro!: pool_put_ok put_in_last)
  qed (use ext in \<open>simp_all add: pool_take_ok expire_idle_ok\<close>)
qed

lemma pool_run_ok: "pool_ok (put_in calls) (pool_run calls)"
  by (induction calls rule: rev_induct) (use pool_exec_ok in \<open>auto simp: pool_run_def pool_ok_new\<close>)

lemma pool_ok_bounds:
  assumes "pool_ok P pool"
  shows "key_count pool \<le> MAX_KEYS" "pool_len pool \<le> MAX_KEYS * MAX_IDLE_PER_KEY"
proof -
  have "length (idle pool) = card (fst ` set (idle pool))"
    using assms by (metis distinct_card length_map list.set_map pool_ok_def)
  also have "\<dots> = length (order pool)" using assms by (metis distinct_card pool_ok_def)
  finally show k: "key_count pool \<le> MAX_KEYS" using assms by (simp add: key_count_def pool_ok_def)
  have "sum_list (map (\<lambda>(_, slot). length slot) m) \<le> length m * MAX_IDLE_PER_KEY"
    if "\<forall>(k, slot) \<in> set m. slot_ok P k slot" for m :: "(pool_key \<times> 'a idle_entry list) list"
    using that by (induction m) (auto simp: slot_ok_def)
  then have "pool_len pool \<le> key_count pool * MAX_IDLE_PER_KEY"
    using assms by (simp add: pool_len_def key_count_def pool_ok_def)
  with k show "pool_len pool \<le> MAX_KEYS * MAX_IDLE_PER_KEY" by (meson mult_le_mono1 order_trans)
qed

lemma pool_take_Some:
  assumes "pool_ok P pool" "pool_take now k p pool = (Some c, pool')"
  shows "\<exists>e. P k p e \<and> connection e = c \<and> still_fresh now e"
proof -
  obtain slot where slot: "map_of (idle pool) (k, p) = Some slot" "filter (still_fresh now) slot \<noteq> []"
      "c = connection (last (filter (still_fresh now) slot))"
    using assms(2) by (auto simp: pool_take_def Let_def split: option.splits if_splits)
  moreover have "last (filter (still_fresh now) slot) \<in> set slot" "still_fresh now (last (filter (still_fresh now) slot))"
    using last_in_set [OF slot(2)] by simp_all
  moreover have "slot_ok P (k, p) slot" by (rule pool_ok_slot [OF assms(1) slot(1)])
  ultimately show ?thesis by (auto simp: slot_ok_def list_all_iff)
qed

text \<open>A connection returned to a slot with room is the next one handed out while it is fresh.\<close>

lemma pool_put_take:
  assumes "case map_of (idle pool) (k, p) of None \<Rightarrow> True | Some slot \<Rightarrow> length slot < MAX_IDLE_PER_KEY"
    and "now - t < IDLE_TIMEOUT"
  shows "fst (pool_take now k p (pool_put t k p c pool)) = Some c"
proof (cases "map_of (idle pool) (k, p)")
  case (Some slot)
  then show ?thesis using assms
    by (simp add: pool_put_def pool_take_def Let_def still_fresh_def update_Some_unfold update_conv)
next
  case None
  let ?pool0 = "if length (order pool) \<ge> MAX_KEYS then evict_oldest pool else pool"
  have "map_of (idle ?pool0) (k, p) = None"
    using None evict_oldest_keys [of pool] by (auto simp: map_of_eq_None_iff split: if_splits)
  then show ?thesis using None assms(2)
    by (simp add: pool_put_def pool_take_def Let_def still_fresh_def update_conv MAX_IDLE_PER_KEY_def split: if_splits)
qed

end
