(* ===== verification/Net_Properties.thy ===== *)
theory Net_Properties
  imports Net_Redirect Net_Cookie Net_Pool
begin

text \<open>
  The properties of the network policies: sites, preloaded hosts, cookies, redirects and the
  connection pool.
\<close>

section \<open>Sites\<close>

text \<open>
  C20. The lookup computes the published algorithm, with one exception.  For a list whose rules
  have different names and whose exceptions are not extended by other rules, the registrable
  domain of every host is the one the prevailing rule gives: an exception first, otherwise the
  rule with the most labels, otherwise the last label; only a host that is itself the base of a
  wildcard rule has no registrable domain.
\<close>
theorem site_follows_public_suffix_rules:
  assumes "psl_parse text = Inr l" and "distinct (map fst (rule_lines text))"
    and "exceptions_final (rule_lines text)"
  shows "registrable_domain l h =
    (if (canonical_host h, Wildcard) \<in> set (rule_lines text) then None else reference_site (rule_lines text) h)"
  using registrable_domain_reference [OF assms] registrable_domain_wildcard_base [OF assms(1,2)] by simp

definition demo_psl :: bytes where
  "demo_psl = lit ''jp'' @ [10] @ lit ''*.kobe.jp'' @ [10] @ lit ''!city.kobe.jp'' @ [10]"

lemma demo_psl_eval:
  "psl_parse demo_psl = Inr \<lparr>rules = [(lit ''city.kobe.jp'', Exception), (lit ''jp'', Normal), (lit ''kobe.jp'', Wildcard)]\<rparr>"
  "rule_lines demo_psl = [(lit ''jp'', Normal), (lit ''kobe.jp'', Wildcard), (lit ''city.kobe.jp'', Exception)]"
  by code_simp+

theorem site_follows_public_suffix_rules_witness:
  "\<exists>l. psl_parse demo_psl = Inr l \<and> reference_site (rule_lines demo_psl) (lit ''x.a.b.Kobe.jp.'') = Some (lit ''a.b.kobe.jp'')
     \<and> reference_site (rule_lines demo_psl) (lit ''www.city.kobe.jp'') = Some (lit ''city.kobe.jp'')"
proof -
  define l where "l = \<lparr>rules = [(lit ''city.kobe.jp'', Exception), (lit ''jp'', Normal), (lit ''kobe.jp'', Wildcard)]\<rparr>"
  have l: "psl_parse demo_psl = Inr l" by (simp add: demo_psl_eval l_def)
  have d: "distinct (map fst (rule_lines demo_psl))" by (simp add: demo_psl_eval) code_simp
  have e: "exceptions_final (rule_lines demo_psl)"
    by (simp add: demo_psl_eval exceptions_final_def suffix_to_prefix) code_simp
  have b: "(canonical_host (lit ''x.a.b.Kobe.jp.''), Wildcard) \<notin> set (rule_lines demo_psl)"
    "(canonical_host (lit ''www.city.kobe.jp''), Wildcard) \<notin> set (rule_lines demo_psl)"
    unfolding demo_psl_eval by code_simp+
  have "registrable_domain l (lit ''x.a.b.Kobe.jp.'') = Some (lit ''a.b.kobe.jp'')"
    "registrable_domain l (lit ''www.city.kobe.jp'') = Some (lit ''city.kobe.jp'')"
    unfolding l_def by code_simp+
  then show ?thesis
    using l site_follows_public_suffix_rules [OF l d e, of "lit ''x.a.b.Kobe.jp.''"]
      site_follows_public_suffix_rules [OF l d e, of "lit ''www.city.kobe.jp''"] b by simp
qed

text \<open>A host that is the base of a wildcard rule has no site, where the published algorithm gives one.\<close>

lemma wildcard_base_has_no_site:
  "\<exists>l. psl_parse demo_psl = Inr l \<and> registrable_domain l (lit ''kobe.jp'') = None
     \<and> reference_site (rule_lines demo_psl) (lit ''kobe.jp'') = Some (lit ''kobe.jp'')"
proof -
  have "registrable_domain \<lparr>rules = [(lit ''city.kobe.jp'', Exception), (lit ''jp'', Normal), (lit ''kobe.jp'', Wildcard)]\<rparr>
      (lit ''kobe.jp'') = None" by code_simp
  moreover have "reference_site (rule_lines demo_psl) (lit ''kobe.jp'') = Some (lit ''kobe.jp'')"
    unfolding demo_psl_eval by code_simp
  ultimately show ?thesis using demo_psl_eval(1) by blast
qed

lemma map_of_filter_keys:
  "P k \<Longrightarrow> map_of (filter (\<lambda>r. P (fst r)) rs) k = map_of rs k"
  by (induction rs) auto

lemma suffix_scan_cong:
  "(\<And>t. suffix t ls \<Longrightarrow> map_of rs (str_join DOT t) = map_of rs' (str_join DOT t)) \<Longrightarrow> suffix_scan rs ls = suffix_scan rs' ls"
proof (induction ls)
  case (Cons l ls)
  have "suffix_scan rs ls = suffix_scan rs' ls" using Cons by (auto intro: suffix_ConsI)
  then show ?case using Cons.prems [of "l # ls"] by (simp split: option.split)
qed simp

text \<open>
  Rules written in Unicode never apply to the hosts the browser uses, which are ASCII:
  leaving them out of the list changes no answer.  Sites under such a suffix, in their
  Punycode form, are therefore merged into one.
\<close>
lemma unicode_rules_are_inert:
  assumes "psl_parse text = Inr l" and "psl_parse text' = Inr l'"
    and "rule_lines text' = filter (\<lambda>r. is_ascii (fst r)) (rule_lines text)" and "is_ascii h"
  shows "registrable_domain l h = registrable_domain l' h"
proof (cases "host_labels h")
  case (Some ls)
  have look: "map_of (rules l) b = map_of (rules l') b" if "is_ascii b" for b
    using that by (simp add: psl_parse_Inr [OF assms(1)] psl_parse_Inr [OF assms(2)] assms(3) rev_filter map_of_filter_keys)
  have can: "is_ascii (canonical_host h)"
  proof (rule is_ascii_lower [OF _ assms(4)])
    obtain n where "h = trim_end_matches DOT h @ replicate n DOT" using trim_end_matches_part by blast
    then have "set (trim_end_matches DOT h) \<subseteq> set h" by (metis set_append Un_upper1)
    then show "set (canonical_host h) \<subseteq> lower_byte ` set h" by (auto simp: canonical_host_def to_ascii_lowercase_def)
  qed
  have "is_ascii (str_join DOT t)" if "suffix t ls" for t
  proof (cases "t = []")
    case False
    obtain u where u: "ls = u @ t" using \<open>suffix t ls\<close> by (auto simp: suffix_def)
    then have "canonical_host h = str_join DOT (u @ t)" using host_labels_Some(1) [OF Some] by (metis str_join_split)
    then have "set (str_join DOT t) \<subseteq> set (canonical_host h)"
      using False by (cases "u = []") (auto simp: str_join_append)
    then show ?thesis using can by (auto simp: is_ascii_def)
  qed (simp add: is_ascii_def)
  then have "suffix_scan (rules l) ls = suffix_scan (rules l') ls" using look by (intro suffix_scan_cong) auto
  then show ?thesis using Some by (simp add: registrable_domain_def)
qed (simp add: registrable_domain_def)

section \<open>Preloaded hosts\<close>

text \<open>
  A plaintext origin is corrected exactly when an entry of the preload list covers its
  host, by whole labels, and the correction changes the scheme and the default port and
  nothing else: the host is never rewritten.
\<close>
lemma preload_upgrade_exact:
  assumes "preload_parse text = Inr l" and "origin_new s h p = Some o'"
  shows "upgrade l o' =
    (if scheme o' = str_http \<and> (\<exists>e \<in> set (preload_entries text). covers e (host o'))
     then Some \<lparr>scheme = str_https, host = host o', port = (if p = 80 then 443 else p)\<rparr> else None)"
proof -
  note wf = origin_new_wf [OF assms(2)]
  have can: "canonical_host (host o') = host o'" "host o' \<noteq> []"
    using wf by (simp_all add: origin_wf_def canonical_host_def trim_end_matches_id)
  have req: "requires_https l (host o') \<longleftrightarrow> (\<exists>e \<in> set (preload_entries text). covers e (host o'))"
    using requires_https_covers [OF assms(1), of "host o'"] can by simp
  have sec: "is_secure o' \<longleftrightarrow> scheme o' \<noteq> str_http"
    using wf by (auto simp: is_secure_def origin_wf_def str_https_def str_http_def)
  have "upgrade l o' \<noteq> None" if "\<not> is_secure o'" "requires_https l (host o')"
  proof -
    from that(2) obtain e where "e \<in> set (preload_entries text)" "covers e (host o')" using req by blast
    then have "\<not> ascii_ws (last (host o'))" using preload_entry_end covers_last by metis
    from origin_new_https [OF wf origin_new_hd [OF assms(2)] this] that show ?thesis by (simp add: upgrade_def)
  qed
  moreover have "upgrade l o' = None" if "is_secure o' \<or> \<not> requires_https l (host o')"
    using that by (simp add: upgrade_def)
  ultimately show ?thesis using upgrade_run [OF assms] req sec by (cases "upgrade l o'") auto
qed

section \<open>Cookies\<close>

text \<open>
  C21. A cookie that is accepted applies to the host that set it, and to other hosts only
  label by label under its own domain; a domain cookie never sits on a public suffix, and a
  cookie without a domain stays on the exact host that set it; a cookie marked secure was set
  over TLS, one that asks to be sent cross-site is secure, a \<open>__Secure-\<close> cookie is secure, and a
  \<open>__Host-\<close> cookie is secure, bound to its host and on the root path.
\<close>
theorem accepted_cookie_is_scoped:
  assumes "cookie_parse l now o' header = Inr c" and "origin_wf o'"
  shows "matches_host c (host o') \<and> (c_secure c \<longrightarrow> is_secure o') \<and> (c_same_site c = SameSiteNone \<longrightarrow> c_secure c)
    \<and> (c_host_only c \<longrightarrow> c_domain c = host o')
    \<and> (\<not> c_host_only c \<longrightarrow> registrable_domain l (c_domain c) \<noteq> None)
    \<and> (\<forall>h. \<not> begins_with DOT h \<longrightarrow> matches_host c h \<longrightarrow>
         suffix (str_split DOT (c_domain c)) (str_split DOT (to_ascii_lowercase h)))
    \<and> (strip_prefix (lit ''__Secure-'') (c_name c) \<noteq> None \<longrightarrow> c_secure c)
    \<and> (strip_prefix (lit ''__Host-'') (c_name c) \<noteq> None \<longrightarrow> c_secure c \<and> c_host_only c \<and> c_path c = [SLASH])"
proof -
  note ok = cookie_parse_ok [OF assms(1), unfolded cookie_ok_def]
  have low: "to_ascii_lowercase (host o') = host o'" using assms(2) by (simp add: origin_wf_def)
  have dom: "c_domain c = host o'" if "c_host_only c"
    using ok that low by (auto simp: matches_host_def Let_def split: if_splits)
  have "suffix (str_split DOT (c_domain c)) (str_split DOT (to_ascii_lowercase h))"
    if "\<not> begins_with DOT h" "matches_host c h" for h
  proof (cases "c_host_only c")
    case True
    then have "to_ascii_lowercase h = c_domain c" using that(2) by (auto simp: matches_host_def Let_def split: if_splits)
    then show ?thesis by simp
  qed (use that matches_host_labels in blast)
  then show ?thesis using ok dom by blast
qed

definition demo_origin :: origin where
  "demo_origin = \<lparr>scheme = str_https, host = lit ''www.city.kobe.jp'', port = 443\<rparr>"

definition demo_list :: public_suffix_list where
  "demo_list = \<lparr>rules = [(lit ''city.kobe.jp'', Exception), (lit ''jp'', Normal), (lit ''kobe.jp'', Wildcard)]\<rparr>"

definition demo_cookie :: cookie where
  "demo_cookie = \<lparr>c_name = lit ''id'', c_value = lit ''7'', c_domain = lit ''city.kobe.jp'', c_host_only = False,
     c_path = lit ''/a'', c_secure = True, c_http_only = False, c_same_site = SameSiteNone, c_expires_at = None\<rparr>"

lemma demo_cookie_parse:
  "cookie_parse demo_list 0 demo_origin (lit ''id=7; Domain=city.kobe.jp; Path=/a; Secure; SameSite=None'') = Inr demo_cookie"
  by code_simp

lemma demo_origin_wf: "origin_wf demo_origin"
  by code_simp

theorem accepted_cookie_is_scoped_witness:
  "cookie_parse demo_list 0 demo_origin (lit ''id=7; Domain=city.kobe.jp; Path=/a; Secure; SameSite=None'') = Inr demo_cookie
     \<and> matches_host demo_cookie (host demo_origin) \<and> is_secure demo_origin
     \<and> registrable_domain demo_list (lit ''city.kobe.jp'') \<noteq> None"
  using accepted_cookie_is_scoped [OF demo_cookie_parse demo_origin_wf] demo_cookie_parse by (simp add: demo_cookie_def)

text \<open>
  C22. Over every history of the jar, a partition holds at most fifty cookies and no two
  with the same name, domain and path; what is sent for a request comes from its own
  partition, is not expired, applies to the host and path, is not sent in plaintext when it
  is secure, and goes cross-site only if it asked to and is secure; longer paths come first.
\<close>
theorem jar_sends_only_what_applies:
  assumes "(jar_step l)\<^sup>*\<^sup>* jar_new j"
  shows "length (stored j k) \<le> 50 \<and> distinct (map (\<lambda>c. (c_name c, c_domain c, c_path c)) (stored j k))
    \<and> set (cookies_for now k path cross j) \<subseteq> set (stored j k)
    \<and> sorted_wrt (\<lambda>c d. length (c_path d) \<le> length (c_path c)) (cookies_for now k path cross j)
    \<and> (\<forall>c \<in> set (cookies_for now k path cross j). \<not> is_expired now c \<and> matches_host c (host (key_origin k))
         \<and> matches_path c path \<and> (c_secure c \<longrightarrow> is_secure (key_origin k))
         \<and> (cross \<longrightarrow> c_same_site c = SameSiteNone \<and> c_secure c))"
proof -
  have b: "bucket_ok l k (stored j k)" using jar_run_ok [OF assms] by (simp add: jar_ok_def)
  have sent: "c \<in> set (cookies_for now k path cross j) \<longleftrightarrow> c \<in> set (stored j k) \<and> sendable now (key_origin k) path cross c" for c
    by (auto simp: cookies_for_stored)
  have ok: "c \<in> set (stored j k) \<Longrightarrow> cookie_ok l (key_origin k) c" for c
    using b by (simp add: bucket_ok_def list_all_iff)
  have "sorted (map (\<lambda>c. - int (length (c_path c))) (cookies_for now k path cross j))"
    unfolding cookies_for_stored by (rule sorted_sort_key)
  then have "sorted_wrt (\<lambda>c d. length (c_path d) \<le> length (c_path c)) (cookies_for now k path cross j)"
    by (simp add: sorted_map)
  moreover have "cross \<longrightarrow> c_same_site c = SameSiteNone \<and> c_secure c"
    if "c \<in> set (cookies_for now k path cross j)" for c
    using that ok [of c] unfolding sent
    by (cases "c_same_site c") (auto simp: sendable_def cookie_ok_def)
  moreover have "\<not> is_expired now c \<and> matches_host c (host (key_origin k)) \<and> matches_path c path
      \<and> (c_secure c \<longrightarrow> is_secure (key_origin k))" if "c \<in> set (cookies_for now k path cross j)" for c
    using that unfolding sent sendable_def by blast
  moreover have "length (stored j k) \<le> 50" "distinct (map (\<lambda>c. (c_name c, c_domain c, c_path c)) (stored j k))"
    using b by (simp_all add: bucket_ok_def MAX_PER_KEY_def)
  ultimately show ?thesis using sent by blast
qed

definition demo_key :: partition_key where
  "demo_key = \<lparr>top_level_site = lit ''city.kobe.jp'', key_origin = demo_origin\<rparr>"

definition demo_jar :: jar where
  "demo_jar = \<lparr>by_partition = [(demo_key, [demo_cookie])]\<rparr>"

lemma demo_jar_store:
  "jar_store demo_list 0 demo_key (lit ''id=7; Domain=city.kobe.jp; Path=/a; Secure; SameSite=None'') jar_new = (Inr (), demo_jar)"
  using demo_cookie_parse by (simp add: jar_store_def demo_key_def demo_jar_def jar_new_def MAX_PER_KEY_def)

theorem jar_sends_only_what_applies_witness:
  "(jar_step demo_list)\<^sup>*\<^sup>* jar_new demo_jar \<and> demo_cookie \<in> set (cookies_for 5 demo_key (lit ''/a/b'') True demo_jar)
     \<and> matches_path demo_cookie (lit ''/a/b'') \<and> is_secure (key_origin demo_key)"
proof -
  have run: "(jar_step demo_list)\<^sup>*\<^sup>* jar_new demo_jar"
    using jst_store [of demo_list jar_new 0 demo_key] demo_jar_store by (metis r_into_rtranclp snd_conv)
  have "cookies_for 5 demo_key (lit ''/a/b'') True demo_jar = [demo_cookie]" by code_simp
  then have c: "demo_cookie \<in> set (cookies_for 5 demo_key (lit ''/a/b'') True demo_jar)" by simp
  then show ?thesis
    using run jar_sends_only_what_applies [OF run, of demo_key 5 "lit ''/a/b''" True] by (auto simp: demo_cookie_def)
qed

text \<open>
  A cookie that was stored is sent back: until it expires it accompanies every request
  of its partition whose path it covers, cross-site ones only if it is marked for them.  No
  other partition sees anything of it.
\<close>
lemma stored_cookie_is_sent_back:
  assumes "jar_store l now k header j = (Inr (), j')"
  shows "\<exists>c. cookie_parse l now (key_origin k) header = Inr c
    \<and> (\<forall>now' path cross. \<not> is_expired now' c \<longrightarrow> matches_path c path \<longrightarrow> (cross \<longrightarrow> c_same_site c = SameSiteNone) \<longrightarrow>
         c \<in> set (cookies_for now' k path cross j'))
    \<and> (\<forall>k' now' path cross. k' \<noteq> k \<longrightarrow> cookies_for now' k' path cross j' = cookies_for now' k' path cross j)"
proof -
  from jar_store_run [OF assms] obtain c cs' where c: "cookie_parse l now (key_origin k) header = Inr c" "c \<in> set cs'"
    and st: "\<And>k'. stored j' k' = (if k' = k then cs' else stored j k')" by auto
  have ok: "cookie_ok l (key_origin k) c" by (rule cookie_parse_ok [OF c(1)])
  have "c \<in> set (cookies_for now' k path cross j')"
    if "\<not> is_expired now' c" "matches_path c path" "cross \<longrightarrow> c_same_site c = SameSiteNone" for now' path cross
    using that ok c(2) st [of k]
    by (cases "c_same_site c") (auto simp: cookies_for_stored sendable_def cookie_ok_def)
  moreover have "cookies_for now' k' path cross j' = cookies_for now' k' path cross j" if "k' \<noteq> k" for k' now' path cross
    using that st [of k'] by (simp add: cookies_for_stored)
  ultimately show ?thesis using c(1) by blast
qed

section \<open>Redirects\<close>

text \<open>
  C23. A redirect chain makes at most ten hops and never requests the same path of the same
  origin twice; every hop stays in the partition of the page it is made for, a secure chain
  stays secure, and a preloaded host is never reached in plaintext.
\<close>
theorem redirect_chain_safe:
  assumes "follow_all l preload page sender locs chain_new = (hs, c)" and "origin_wf sender"
  shows "length hs \<le> 10 \<and> distinct (map (\<lambda>hp. (key_origin (hop_key hp), hop_path hp)) hs)
    \<and> (\<forall>hp \<in> set hs. registrable_domain l page = Some (top_level_site (hop_key hp))
        \<and> origin_wf (key_origin (hop_key hp))
        \<and> (is_secure sender \<longrightarrow> is_secure (key_origin (hop_key hp)))
        \<and> (\<forall>pl. preload = Some pl \<longrightarrow> requires_https pl (host (key_origin (hop_key hp))) \<longrightarrow> is_secure (key_origin (hop_key hp))))"
proof -
  have "distinct (visited chain_new)" "length (visited chain_new) \<le> MAX_HOPS" by (simp_all add: chain_new_def)
  note f = follow_all_sound [OF assms(1) this]
  have ok: "hops_ok l preload page sender hs" using f by (rule conjunct1)
  have vis: "visited c = map hop_step hs" using f by (simp add: chain_new_def)
  have "distinct (map (\<lambda>hp. (key_origin (hop_key hp), hop_path hp)) hs)"
  proof (rule distinct_map [THEN iffD1, THEN conjunct1])
    have "map hop_step hs = map (\<lambda>(o', p). (origin_display o', p)) (map (\<lambda>hp. (key_origin (hop_key hp), hop_path hp)) hs)"
      by (simp add: hop_step_def)
    with f vis show "distinct (map (\<lambda>(o', p). (origin_display o', p)) (map (\<lambda>hp. (key_origin (hop_key hp), hop_path hp)) hs))"
      by metis
  qed
  moreover have "length hs \<le> 10" using f unfolding vis by (simp add: MAX_HOPS_def)
  moreover note hops_ok_mem [OF ok]
  ultimately show ?thesis using assms(2) by blast
qed

theorem redirect_chain_safe_witness:
  "\<exists>h1 h2 c. follow_all demo_list None (lit ''city.kobe.jp'') demo_origin
       [lit ''/login'', lit ''https://other.jp/x'', lit ''http://other.jp/y''] chain_new = ([h1, h2], c)
     \<and> is_secure (key_origin (hop_key h2)) \<and> top_level_site (hop_key h2) = lit ''city.kobe.jp''
     \<and> host (key_origin (hop_key h2)) = lit ''other.jp''"
proof -
  define h1 where "h1 = \<lparr>hop_key = demo_key, hop_path = lit ''/login''\<rparr>"
  define h2 where "h2 = \<lparr>hop_key = \<lparr>top_level_site = lit ''city.kobe.jp'',
    key_origin = \<lparr>scheme = str_https, host = lit ''other.jp'', port = 443\<rparr>\<rparr>, hop_path = lit ''/x''\<rparr>"
  have "fst (follow_all demo_list None (lit ''city.kobe.jp'') demo_origin
       [lit ''/login'', lit ''https://other.jp/x'', lit ''http://other.jp/y''] chain_new) = [h1, h2]"
    unfolding h1_def h2_def by code_simp
  then obtain c where run: "follow_all demo_list None (lit ''city.kobe.jp'') demo_origin
       [lit ''/login'', lit ''https://other.jp/x'', lit ''http://other.jp/y''] chain_new = ([h1, h2], c)"
    by (metis prod.collapse)
  from redirect_chain_safe [OF run demo_origin_wf] have "is_secure (key_origin (hop_key h2))"
    by (simp add: is_secure_def demo_origin_def)
  then show ?thesis using run by (auto simp: h2_def)
qed

text \<open>A target with a query and no path is read as a host that contains the query.\<close>

lemma query_becomes_part_of_host:
  "\<exists>o'. resolve demo_origin (lit ''https://example.jp?next=/home'') = Inr (o', lit ''/home'')
     \<and> host o' = lit ''example.jp?next=''"
  by (rule exI [of _ "\<lparr>scheme = str_https, host = lit ''example.jp?next='', port = 443\<rparr>"]) code_simp

section \<open>The connection pool\<close>

text \<open>
  C24. Whatever calls a client makes, the pool tracks at most 256 keys and holds at most
  1536 connections, and a connection it hands out for a partition key was put there under
  the same key and protocol less than 45 seconds before, with no call since that told the
  pool to forget the key.
\<close>
theorem pool_never_crosses_partitions:
  "key_count (pool_run calls) \<le> 256 \<and> pool_len (pool_run calls) \<le> 1536
   \<and> (fst (pool_take now k p (pool_run calls)) = Some c \<longrightarrow>
      (\<exists>pre t post. calls = pre @ CPut t k p c # post \<and> CForget k \<notin> set post \<and> now - t < 45 * 10 ^ 9))"
proof -
  note ok = pool_run_ok [of calls]
  have "\<exists>pre t post. calls = pre @ CPut t k p c # post \<and> CForget k \<notin> set post \<and> now - t < 45 * 10 ^ 9"
    if handed: "fst (pool_take now k p (pool_run calls)) = Some c"
  proof -
    obtain pool' where "pool_take now k p (pool_run calls) = (Some c, pool')" using handed by (metis prod.collapse)
    from pool_take_Some [OF ok this] show ?thesis by (auto simp: put_in_def still_fresh_def IDLE_TIMEOUT_def)
  qed
  then show ?thesis using pool_ok_bounds [OF ok] by (simp add: MAX_KEYS_def MAX_IDLE_PER_KEY_def)
qed

theorem pool_never_crosses_partitions_witness:
  "\<exists>pre t post. [CForget demo_key, CPut 5 demo_key Http11 (7 :: nat), CExpire 9] = pre @ CPut t demo_key Http11 7 # post
     \<and> CForget demo_key \<notin> set post \<and> 20 - t < 45 * 10 ^ 9"
proof -
  let ?calls = "[CForget demo_key, CPut 5 demo_key Http11 (7 :: nat), CExpire 9]"
  have "fst (pool_take 20 demo_key Http11 (pool_run ?calls)) = Some 7"
    by (simp add: pool_run_def pool_new_def pool_forget_def pool_put_def expire_idle_def pool_take_def Let_def
        still_fresh_def IDLE_TIMEOUT_def MAX_KEYS_def MAX_IDLE_PER_KEY_def)
  with pool_never_crosses_partitions [of ?calls 20 demo_key Http11 7] show ?thesis by blast
qed

end
