(* ===== verification/Spec2Isabelle.thy ===== *)
theory Spec2Isabelle
  imports Block_Properties Block_Privacy_Properties Websec_Properties Websec_Isolation_Properties
    Store_Properties Store_Cookie_Properties Dom_Properties Script_Properties Net_Properties
begin

text \<open>
  A verification library for Pelorus, a web browser written in Rust
  (\<^verbatim>\<open>src/crates\<close>).  It models six parts of the browser whose correctness the rest
  relies on, and proves over the models the guarantees their sources promise.

  \<^bold>\<open>The parts and how they fit together.\<close>  The network layer (\<^verbatim>\<open>px-net\<close>) names every
  destination by a partition key: the registrable domain of the page the user looks at and
  the origin that is talked to.  Cookies and idle connections are filed under such keys, redirects may not leave
  the page's partition, and the partitioned store (\<^verbatim>\<open>px-store\<close>) keeps data on disk under
  the same keys.  The document tree (\<^verbatim>\<open>px-dom\<close>) is an arena of nodes addressed by
  generational handles.  The event loop (\<^verbatim>\<open>px-script\<close>) owns the microtask and task queues
  and the timers of a page, and a coarse clock that scripts read.
  Before a request leaves, the content blocker (\<^verbatim>\<open>px-block\<close>) matches its URL against the
  rules of the filter lists; the URLs, hosts and origins it and the other web security checks
  compare are those of \<^verbatim>\<open>px-websec\<close>, which asks the network's public suffix list for a site.

  \<^bold>\<open>Conventions.\<close>  Strings are their UTF-8 bytes.  Integers that are written to or read
  from the wire, hashes and handles are machine words; lengths and counters are natural
  numbers with the saturation or the checked overflow of the source written out.  Errors
  are values: a fallible operation returns a sum with the source's error type on the left,
  and where an operation may fail half-way it also returns the state it leaves behind.
  Loops are structural recursion or functions with a termination proof; a loop the code
  bounds by a budget has that budget as its argument.  Hash maps and ordered maps are
  association lists kept sorted by key where the code iterates in order or the order cannot
  be seen.  \<open>Pelorus_Prelude\<close> holds this vocabulary and the collections \<open>codec\<close> and
  \<open>tree_map\<close>.

  \<^bold>\<open>The partitioned store\<close>, \<^verbatim>\<open>crates/px-store/src\<close>.
  \<^item> \<open>Store_Checksum\<close>, \<open>Store_Format\<close>: \<^verbatim>\<open>error.rs\<close>, \<^verbatim>\<open>checksum.rs\<close> and
    \<^verbatim>\<open>format.rs\<close>, the CRC-32, the record framing and the reader.  Records round-trip,
    decode only canonically, and are refused when cut short or damaged in one byte.
  \<^item> \<open>Store_Engine\<close>, \<open>Store_Quota\<close>, \<open>Store_Recovery\<close>: \<^verbatim>\<open>engine.rs\<close>.  The invariant
    \<open>engine_ok\<close> (counters exact, quotas kept), the locale \<open>partitioned_store\<close> a client of the
    engine relies on with its interpretation, recovery as replay of a canonical prefix of
    the log, and the snapshot as its inverse.
  \<^item> \<open>Store_Log\<close>, \<open>Store_Ops\<close>: \<^verbatim>\<open>store.rs\<close> over a world of files and a script of
    operating-system failures.  Every operation on a key the log can hold is crash-atomic with
    respect to what a later open makes of the file, its refusal of oversized logs included.
  \<^item> \<open>Store_Properties\<close>: the claims, and two inputs on which the store loses data.
  \<^item> \<open>Store_Cookies\<close>: \<^verbatim>\<open>cookies.rs\<close>, the stored form of a cookie and how a jar is saved and
    loaded.  \<open>Store_Cookie_Codec\<close>: the binary form.  \<open>Store_Cookie_Header\<close>,
    \<open>Store_Cookie_Accept\<close>: the rebuilt header read by the network's parser, and what that
    parser leaves in a cookie.  \<open>Store_Cookie_Save\<close>, \<open>Store_Cookie_Load\<close>,
    \<open>Store_Cookie_Properties\<close>: the trip through the store and a restart, and a cookie it loses.

  \<^bold>\<open>The document tree\<close>, \<^verbatim>\<open>crates/px-dom/src\<close>.
  \<^item> \<open>Dom_Node\<close>, \<open>Dom_Slots\<close>: \<^verbatim>\<open>handle.rs\<close>, \<^verbatim>\<open>node.rs\<close>, \<^verbatim>\<open>snapshot.rs\<close>
    and the chunked slots of \<^verbatim>\<open>arena.rs\<close>, with the locale \<open>slot_vector\<close> the arena relies on.
  \<^item> \<open>Dom_Arena\<close>, \<open>Dom_Tree\<close>, \<open>Dom_Range\<close>: allocation, lookups, walks of \<^verbatim>\<open>iter.rs\<close>,
    structural and attribute mutations, live ranges of \<^verbatim>\<open>range.rs\<close>, document order of
    \<^verbatim>\<open>lib.rs\<close>.
  \<^item> \<open>Dom_Alloc\<close>: the allocation discipline; \<open>Dom_Forest\<close>, \<open>Dom_Refine\<close>: the abstract forest
    and the simulation of every link update by a list operation on it; \<open>Dom_Walks\<close>,
    \<open>Dom_Ops\<close>, \<open>Dom_Remove\<close>, \<open>Dom_Live\<close>, \<open>Dom_Reach\<close>, \<open>Dom_Validate\<close>,
    \<open>Dom_Effects\<close>, \<open>Dom_Snapshots\<close>: what walks compute, when insertions are accepted, what
    removal frees, that ranges stay inside the tree, the invariant over whole histories,
    and that the program's own validator accepts every arena of such a history.
  \<^item> The end of \<open>Dom_Effects\<close>: inserting a node before itself is accepted for every attached node and ties it
    into a ring, which is why the histories of \<open>Dom_Reach\<close> leave that call out, together with
    the removal of a subtree whose template contents are attached to the tree.
  \<^item> \<open>Dom_Properties\<close>: the claims, and a history of the second kind that breaks the tree.
  The budgets of the walks are the number of slots plus one and \<open>MAX_DEPTH\<close>; the lemmas of
  \<open>Dom_Walks\<close> and \<open>Dom_Remove\<close> show that a well-formed tree never reaches them.

  \<^bold>\<open>The event loop\<close>, \<^verbatim>\<open>crates/px-script/src\<close>.
  \<^item> \<open>Script_Queue\<close>: every operation of \<^verbatim>\<open>queue.rs\<close>, and the checkpoint, timer task and task
    selection of \<^verbatim>\<open>runtime.rs\<close>, with the script engine's calls as a parameter.
  \<^item> \<open>Script_Inv\<close>, \<open>Script_Fresh\<close>, \<open>Script_Host\<close>: the invariants of the queues and the timer
    heap over every history, freshness of ids, what promotion queues, and that a checkpoint,
    a partial function in the model, returns whatever the jobs do.
  \<^item> \<open>Script_Clock\<close>: \<^verbatim>\<open>clock.rs\<close> on the manual clock; below \<open>LAST_NS\<close>, the last instant whose
    quantum fits in 64 bits, nothing saturates.
  \<^item> \<open>Script_Properties\<close>: the claims.  Freshness holds until a 64-bit counter runs out, which
    the statements say.

  \<^bold>\<open>The network policies\<close>, \<^verbatim>\<open>crates/px-net/src\<close>.
  \<^item> \<open>Net_Text\<close>, \<open>Net_Utf8\<close>, \<open>Net_Ip\<close>: the functions of Rust's standard library on strings,
    which byte sequences are strings, and the parser for IP addresses that the crate calls.
  \<^item> \<open>Net_Psl\<close>: \<^verbatim>\<open>psl.rs\<close>, the published algorithm it is to compute, and the locale
    \<open>site_resolver\<close>, the trait through which other crates ask for a site.
  \<^item> \<open>Net_Partition\<close>, \<open>Net_Origin\<close>: \<^verbatim>\<open>partition.rs\<close>; \<open>Net_Hsts\<close>: \<^verbatim>\<open>hsts.rs\<close>;
    \<open>Net_Cookie\<close>: \<^verbatim>\<open>cookie.rs\<close>; \<open>Net_Redirect\<close>: \<^verbatim>\<open>redirect.rs\<close>;
    \<open>Net_Pool\<close>: \<^verbatim>\<open>pool.rs\<close>, with what a pool holds stated over the calls made on it.
  \<^item> \<open>Net_Properties\<close>: the claims, and the inputs on which the code departs from what its
    comments say.

  \<^bold>\<open>URLs, origins and fetch policies\<close>, \<^verbatim>\<open>crates/px-websec/src\<close>.
  \<^item> \<open>Websec_Url\<close>: \<^verbatim>\<open>origin/url.rs\<close>, the parser with its stages for scheme, authority, host,
    path and opaque path, percent encoding, the IPv4 and IPv6 readers and writers, and the
    serializer.
  \<^item> \<open>Websec_Url_Laws\<close>: what every parsed URL satisfies (\<open>url_ok\<close>).  \<open>Websec_Ipv6\<close>,
    \<open>Websec_Url_Round\<close>: the serialization of a URL of a network scheme is read back as the
    same URL, compressed IPv6 addresses included.
  \<^item> \<open>Websec_Origin\<close>: \<^verbatim>\<open>origin/mod.rs\<close>, tuple and opaque origins, the counter opaque origins
    are drawn from, and sites through the resolver of \<open>site_resolver\<close>.
  \<^item> \<open>Websec_Mixed\<close>: \<^verbatim>\<open>mixed.rs\<close>, trustworthy URLs and the checks on requests and responses;
    \<open>Websec_Referrer\<close>: \<^verbatim>\<open>referrer.rs\<close>, policy tokens and the referrer computation.
  \<^item> \<open>Websec_Cors\<close>: \<^verbatim>\<open>cors.rs\<close>, safelists, preflights, the preflight cache, tainting and
    response filtering; \<open>Websec_Cors_Laws\<close>: which headers are unsafe, what a grant covers and
    what the cache can hold after any history; \<open>Websec_Cors_Echo\<close>: a server that repeats the
    preflight is granted.
  \<^item> \<open>Websec_Sha2\<close>: \<^verbatim>\<open>csp/sha2.rs\<close>, shown equal to FIPS 180-4: the locale \<open>sha2_rounds\<close> relates a
    sliding window to an indexed schedule for either word size, and the constants are the
    digits of the roots of primes that the standard names.  \<open>Websec_Sri\<close>: \<^verbatim>\<open>sri.rs\<close>, base64,
    integrity metadata and their verification.
  \<^item> \<open>Websec_Frame\<close>: \<^verbatim>\<open>frame.rs\<close> and \<^verbatim>\<open>csp/sandbox.rs\<close>, framing headers and sandbox flags;
    \<open>Websec_Coop\<close>: \<^verbatim>\<open>coop.rs\<close>, structured-field items, the opener, embedder and resource
    policies, and groups of documents; \<open>Websec_Isolation_Properties\<close>: the claims about them.
  \<^item> \<open>Websec_Properties\<close>: the claims, that opaque origins are never equal, that two network
    URLs share an origin exactly when scheme, host and port agree, and a path that becomes a
    host when a file URL is written and read again.

  \<^bold>\<open>Content blocking\<close>, \<^verbatim>\<open>crates/px-block/src\<close>.
  \<^item> \<open>Block_Glob\<close>: \<^verbatim>\<open>glob.rs\<close>, patterns and the scan that matches them without backtracking;
    \<open>Block_Glob_Sem\<close>: what a pattern means, and that the scan decides it.
  \<^item> \<open>Block_Tokens\<close>: the tokens a rule is filed under and a URL is looked up by, with the locale
    \<open>token_index\<close>, what a matcher relies on to lose no rule through its index.
  \<^item> \<open>Block_Filter\<close>: \<^verbatim>\<open>filter.rs\<close>, lines, options, domain constraints and whole lists with
    their caps; \<open>Block_Filter_Laws\<close>: what an accepted rule and a parsed list satisfy;
    \<open>Block_Account\<close>: a parsed list as a function of the input's lines, one by one.
  \<^item> \<open>Block_Matcher\<close>: \<^verbatim>\<open>matcher.rs\<close>, the index and the decision; \<open>Block_Matcher_Laws\<close>: the
    interpretation of \<open>token_index\<close> and the decision over all rules.
  \<^item> \<open>Block_Cname\<close>: \<^verbatim>\<open>cname.rs\<close> and \<^verbatim>\<open>isolation.rs\<close>; \<open>Block_Stats\<close>: \<^verbatim>\<open>stats.rs\<close>.
  \<^item> \<open>Block_Params\<close>: \<^verbatim>\<open>params.rs\<close>, the names to strip and the stripping; a second pass finds
    nothing when nothing was trimmed, and an input on which it does.  Its last section:
    \<^verbatim>\<open>referrer.rs\<close>, the policy tightened before the computation of \<open>Websec_Referrer\<close>.
  \<^item> \<open>Block_Properties\<close>, \<open>Block_Privacy_Properties\<close>: the claims, and a list whose cut changes
    the meaning of a filter.

  \<^bold>\<open>Across components.\<close>  The last section of this theory joins the network's keys to the
  store: what a page stores is durable and visible to exactly the pages of the same site
  talking to the same origin.

  \<^bold>\<open>Not modelled.\<close>  In the crates above: the html5ever adapter and the fuzz harness of
  \<^verbatim>\<open>px-dom\<close>; the bindings to the Boa engine, the operating system's clock and the
  high-water marks of test builds in \<^verbatim>\<open>px-script\<close>; profile migration in
  \<^verbatim>\<open>px-store\<close>; the fetch pipeline, HTTP/1, DNS and TLS in \<^verbatim>\<open>px-net\<close>.  In
  \<^verbatim>\<open>px-websec\<close>: the engine of content security policies (the policy parser, source matching,
  the checks and the reports; what framing needs of it is an argument), and the round trip of URLs whose scheme is not a network scheme; URLs with
  non-ASCII hosts are refused by the code itself.  The other crates are not modelled: layout, painting, text, images and the
  user interface are developments of their own; the broker, sandbox, display, GPU and shell
  crates are mostly operating-system calls.
\<close>

section \<open>Storage behind the network's partition keys\<close>

text \<open>Every key the network layer can build for an ASCII page is one the store can write and read back.\<close>

lemma network_key_storable:
  assumes "origin_new s h p = Some o'" and "partition_key_new l page o' = Some k" and "is_ascii page"
  shows "key_storable k"
proof -
  from assms(2) have k: "registrable_domain l page = Some (top_level_site k)" "key_origin k = o'"
    by (auto simp: partition_key_new_Some)
  have "is_ascii (top_level_site k)" by (rule is_ascii_lower [OF psl.site_bytes [OF k(1)] assms(3)])
  then show ?thesis
    using psl.site_nonempty [OF k(1)] origin_new_wf [OF assms(1)] k(2) by (auto simp: key_storable_def origin_wf_def)
qed

text \<open>
  C40. What one page with an ASCII host stores for an origin is durable and visible to exactly
  the pages of the same site talking to the same origin: after a put under the key of such a
  page that reports success and leaves a log of at most \<open>MAX_LOG_BYTES\<close>, and a restart, a lookup under the key of any page sees the new value if and only if
  the two pages have the same registrable domain and the origins agree, and is otherwise
  unchanged.
\<close>
theorem browser_storage_partitioned:
  assumes "origin_new sch h p = Some o1" and "partition_key_new l page1 o1 = Some k1" and "is_ascii page1"
    and "partition_key_new l page2 o2 = Some k2"
    and "store_inv s w" and "\<not> poisoned s" and "store_put k1 ns key val s w = (Inr (), s', w')"
    and "log_file w' = Some b" and "length b \<le> MAX_LOG_BYTES"
  shows "\<exists>s'' w''. store_open (w'\<lparr>faults := []\<rparr>) = (Inr s'', w'') \<and> store_inv s'' w''
    \<and> (\<forall>ns' key'. store_get s'' k2 ns' key' =
         (if registrable_domain l page2 = registrable_domain l page1 \<and> o2 = o1 \<and> ns' = ns \<and> key' = key
          then Some val else store_get s k2 ns' key'))"
proof -
  have same: "k2 = k1 \<longleftrightarrow> registrable_domain l page2 = registrable_domain l page1 \<and> o2 = o1"
    using assms(2,4) by (cases k1; cases k2) (auto simp: partition_key_new_Some)
  from put_reopen [OF assms(5,6) network_key_storable [OF assms(1-3)] assms(7-9)] obtain s'' w'' where
    "store_open (w'\<lparr>faults := []\<rparr>) = (Inr s'', w'')" "store_inv s'' w''"
    "\<forall>k' ns' key'. store_get s'' k' ns' key' = (if k' = k1 \<and> ns' = ns \<and> key' = key then Some val else store_get s k' ns' key')"
    by blast
  then show ?thesis using same by auto
qed

theorem browser_storage_partitioned_witness:
  "\<exists>s' w' s'' w''. partition_key_new \<lparr>rules = [(lit ''com'', Normal)]\<rparr> (lit ''www.a.b'') (key_origin sample_key) = Some sample_key
     \<and> store_put sample_key Storage [1] [2] fresh_store (sample_world []) = (Inr (), s', w')
     \<and> store_open (w'\<lparr>faults := []\<rparr>) = (Inr s'', w'') \<and> store_get s'' sample_key Storage [1] = Some [2]"
proof -
  let ?l = "\<lparr>rules = [(lit ''com'', Normal)]\<rparr>"
  have o: "origin_new (lit ''https'') (lit ''a'') 443 = Some (key_origin sample_key)" by code_simp
  have k: "partition_key_new ?l (lit ''www.a.b'') (key_origin sample_key) = Some sample_key"
    "partition_key_new ?l (lit ''x.a.b'') (key_origin sample_key) = Some sample_key" by code_simp+
  have a: "is_ascii (lit ''www.a.b'')" by (simp add: is_ascii_def lit_def)
  have site: "registrable_domain ?l (lit ''x.a.b'') = registrable_domain ?l (lit ''www.a.b'')" by code_simp
  from sample_key_facts(3) obtain b where b: "pid_encode sample_pid = Some b" "length b \<le> MAX_PARTITION_ID_BYTES"
    by (rule pid_wfE)
  let ?log = "header_bytes @ frame (op_body (Put (ns_code Storage) b [1] [2]))"
  have len: "length ?log \<le> MAX_LOG_BYTES"
    using b(2) by (simp add: MAX_LOG_BYTES_def op_body_def format_limits)
  obtain s' where run: "store_put sample_key Storage [1] [2] fresh_store (sample_world [])
      = (Inr (), s', sample_world []\<lparr>log_file := Some ?log\<rparr>)"
    using put_fresh [OF _ _ sample_key_facts(2) b(1), of "sample_world []" "[1]" "[2]" Storage]
    by (simp add: sample_world_def format_limits)
  from browser_storage_partitioned [OF o k(1) a k(2) fresh_store_inv run, of ?log] len site obtain s'' w'' where
    "store_open (sample_world []\<lparr>log_file := Some ?log, faults := []\<rparr>) = (Inr s'', w'')"
    "store_get s'' sample_key Storage [1] = Some [2]" by auto
  with run k(1) show ?thesis by blast
qed

end
